(* ===== verification/Wlh_Prelude.thy ===== *)
theory Wlh_Prelude
  imports Main "HOL-Library.Word"
begin

text \<open>
  What every theory of the development shares: the machine types of the 32-bit RISC-V
  target, the C idioms on arrays (memcpy as a write of a block into a list), the two
  alignment macros of rtdef.h, and the generic lemmas about lists and words that the
  component proofs use.  The collections \<open>word_nat\<close> and \<open>blit\<close> gather the rewrite
  rules that turn word expressions and block writes into statements over \<open>nat\<close>.
\<close>

unbundle bit_operations_syntax

named_theorems word_nat
named_theorems blit

section \<open>Machine types\<close>

type_synonym byte = "8 word"
type_synonym u16 = "16 word"
type_synonym u32 = "32 word"

section \<open>Alignment (rtdef.h RT_ALIGN and RT_ALIGN_DOWN)\<close>

definition RT_ALIGN :: "u32 \<Rightarrow> u32 \<Rightarrow> u32" where
  "RT_ALIGN sz align = (sz + align - 1) AND NOT (align - 1)"

definition RT_ALIGN_DOWN :: "u32 \<Rightarrow> u32 \<Rightarrow> u32" where
  "RT_ALIGN_DOWN sz align = sz AND NOT (align - 1)"

text \<open>rtconfig.h: RT_ALIGN_SIZE.\<close>

definition RT_ALIGN_SIZE :: u32 where
  "RT_ALIGN_SIZE = 8"

lemma unat_clear_low: "unat ((x::u32) AND NOT (mask k)) = unat x div 2 ^ k * 2 ^ k"
proof -
  have "push_bit k (drop_bit k x) = x AND NOT (mask k)"
    by (rule bit_word_eqI) (auto simp: bit_simps)
  moreover have "push_bit k (drop_bit k x) + take_bit k x = x" by (rule bits_ident)
  ultimately have "x AND NOT (mask k) = x - take_bit k x"
    by (simp add: algebra_simps)
  moreover have u: "unat (take_bit k x) = unat x mod 2 ^ k"
    unfolding unsigned_take_bit_eq by (simp add: take_bit_eq_mod)
  moreover have "take_bit k x \<le> x"
    by (simp add: word_le_nat_alt u)
  ultimately have "unat (x AND NOT (mask k)) = unat x - unat x mod 2 ^ k"
    by (simp add: unat_sub)
  then show ?thesis
    by (simp add: minus_mod_eq_div_mult)
qed

lemma unat_clear_low3: "unat ((x::u32) AND - 8) = unat x div 8 * 8"
proof -
  have neg8: "(- 8 :: u32) = NOT (mask 3)" by (simp add: mask_eq_exp_minus_1)
  show ?thesis unfolding neg8 unat_clear_low by simp
qed

lemma unat_RT_ALIGN_DOWN_8 [word_nat]:
  "unat (RT_ALIGN_DOWN n RT_ALIGN_SIZE) = unat n div 8 * 8"
  by (simp add: RT_ALIGN_DOWN_def RT_ALIGN_SIZE_def unat_clear_low3)

lemma unat_RT_ALIGN_8 [word_nat]:
  "unat (RT_ALIGN n RT_ALIGN_SIZE) = ((unat n + 7) mod 2 ^ 32) div 8 * 8"
proof -
  have "unat (n + 7 :: u32) = (unat n + 7) mod 2 ^ 32"
    by (simp add: unat_word_ariths)
  moreover have "RT_ALIGN n RT_ALIGN_SIZE = (n + 7) AND - 8"
    by (simp add: RT_ALIGN_def RT_ALIGN_SIZE_def add.commute)
  ultimately show ?thesis
    by (simp only: unat_clear_low3)
qed

section \<open>Arithmetic on words that does not wrap\<close>

lemma unat_add_u32 [word_nat]:
  "unat (a::u32) + unat b < 2 ^ 32 \<Longrightarrow> unat (a + b) = unat a + unat b"
  by (simp add: unat_word_ariths)

lemma unat_sub_u32 [word_nat]:
  "unat (b::u32) \<le> unat a \<Longrightarrow> unat (a - b) = unat a - unat b"
  by (simp add: unat_sub word_le_nat_alt)

lemma unat_u16_u32 [word_nat]: "unat (ucast (x :: u16) :: u32) = unat x"
proof -
  have "unat x < 2 ^ LENGTH(16)" by (rule unsigned_less)
  then have "unat x < 2 ^ 32" by simp
  then show ?thesis
    by (simp add: unsigned_ucast_eq unsigned_take_bit_eq take_bit_nat_eq_self)
qed

lemma unat_u8_u32 [word_nat]: "unat (ucast (x :: byte) :: u32) = unat x"
proof -
  have "unat x < 2 ^ LENGTH(8)" by (rule unsigned_less)
  then have "unat x < 2 ^ 32" by simp
  then show ?thesis
    by (simp add: unsigned_ucast_eq unsigned_take_bit_eq take_bit_nat_eq_self)
qed

lemma unat_lt_u32 [simp, intro]: "unat (a::u32) < 2 ^ 32"
  using unsigned_less [of a] by simp

lemma unat_le_u32: "unat (a::u32) \<le> 4294967295"
  using unat_lt_u32 [of a] by simp

section \<open>Block writes (memcpy, memmove)\<close>

text \<open>
  \<open>blit dst off src\<close> is the array \<open>dst\<close> after a copy of the bytes \<open>src\<close> to index \<open>off\<close>.
  It is only used where the block lies within the array; the copies of the code that could
  fall outside are models of their own that return \<open>None\<close>.
\<close>

definition blit :: "'a list \<Rightarrow> nat \<Rightarrow> 'a list \<Rightarrow> 'a list" where
  "blit dst off src = take off dst @ src @ drop (off + length src) dst"

lemma length_blit [blit]:
  "off + length src \<le> length dst \<Longrightarrow> length (blit dst off src) = length dst"
  by (simp add: blit_def)

lemma nth_blit [blit]:
  assumes "off + length src \<le> length dst" "j < length dst"
  shows "blit dst off src ! j =
    (if off \<le> j \<and> j < off + length src then src ! (j - off) else dst ! j)"
  using assms by (auto simp: blit_def nth_append min_def)

lemma take_blit_end:
  assumes "off + length src \<le> length dst"
  shows "take (off + length src) (blit dst off src) = take off dst @ src"
  using assms by (simp add: blit_def)

section \<open>Circular windows of an array\<close>

text \<open>
  \<open>window buf cap r n\<close>: the \<open>n\<close> elements that start at index \<open>r\<close> of the ring made of the
  first \<open>cap\<close> cells of \<open>buf\<close>.
\<close>

definition window :: "'a list \<Rightarrow> nat \<Rightarrow> nat \<Rightarrow> nat \<Rightarrow> 'a list" where
  "window buf cap r n = map (\<lambda>i. buf ! ((r + i) mod cap)) [0..<n]"

lemma length_window [simp]: "length (window buf cap r n) = n"
  by (simp add: window_def)

lemma nth_window [simp]: "i < n \<Longrightarrow> window buf cap r n ! i = buf ! ((r + i) mod cap)"
  by (simp add: window_def)

lemma take_window: "m \<le> n \<Longrightarrow> take m (window buf cap r n) = window buf cap r m"
  by (simp add: window_def take_map)

lemma drop_window:
  "m \<le> n \<Longrightarrow> drop m (window buf cap r n) = window buf cap ((r + m) mod cap) (n - m)"
  by (rule nth_equalityI) (auto simp: mod_add_left_eq add.assoc)

lemma window_straight:
  "r + n \<le> cap \<Longrightarrow> cap \<le> length buf \<Longrightarrow> window buf cap r n = take n (drop r buf)"
  by (rule nth_equalityI) auto

lemma window_append:
  "window buf cap r (n + m) = window buf cap r n @ window buf cap ((r + n) mod cap) m"
proof (rule nth_equalityI)
  fix i assume i: "i < length (window buf cap r (n + m))"
  show "window buf cap r (n + m) ! i =
      (window buf cap r n @ window buf cap ((r + n) mod cap) m) ! i"
  proof (cases "i < n")
    case False
    then obtain k where "i = n + k" using le_Suc_ex by (metis not_less)
    with i show ?thesis by (simp add: nth_append mod_add_left_eq add.assoc)
  qed (use i in \<open>simp add: nth_append\<close>)
qed simp

lemma window_wrapped:
  assumes "r < cap" "cap \<le> r + n" "n \<le> cap" "cap \<le> length buf"
  shows "window buf cap r n = take (cap - r) (drop r buf) @ take (n - (cap - r)) buf"
proof -
  have "window buf cap r n = window buf cap r ((cap - r) + (n - (cap - r)))"
    using assms by simp
  also have "\<dots> = window buf cap r (cap - r) @ window buf cap 0 (n - (cap - r))"
    using assms unfolding window_append by simp
  also have "\<dots> = take (cap - r) (drop r buf) @ take (n - (cap - r)) buf"
    using assms by (simp add: window_straight)
  finally show ?thesis .
qed

lemma ring_index_cases:
  fixes cap :: nat
  assumes "w < cap" "k \<le> cap"
  shows "(w + k) mod cap = (if w + k < cap then w + k else w + k - cap)"
  using assms by (simp add: le_mod_geq)

text \<open>
  A block written at index \<open>w\<close> of the ring, in one copy when it does not reach the end of
  the pool and in two otherwise.
\<close>

definition ring_write :: "'a list \<Rightarrow> nat \<Rightarrow> nat \<Rightarrow> 'a list \<Rightarrow> 'a list" where
  "ring_write buf cap w d =
    (if w + length d < cap then blit buf w d
     else blit (blit buf w (take (cap - w) d)) 0 (drop (cap - w) d))"

lemma length_ring_write [simp]:
  assumes "w < cap" "length d \<le> cap" "cap \<le> length buf"
  shows "length (ring_write buf cap w d) = length buf"
  using assms by (simp add: ring_write_def blit)

lemma nth_ring_write:
  assumes "w < cap" "length d \<le> cap" "cap \<le> length buf" "k < cap"
  shows "ring_write buf cap w d ! ((w + k) mod cap) =
    (if k < length d then d ! k else buf ! ((w + k) mod cap))"
proof (cases "w + length d < cap")
  case True
  with assms show ?thesis
    by (auto simp: ring_write_def blit ring_index_cases)
next
  case False
  with assms show ?thesis
    by (auto simp: ring_write_def blit ring_index_cases nth_append)
qed

text \<open>Writing behind a window extends it by the block.\<close>

lemma window_ring_write:
  assumes r: "r < cap" and fit: "n + length d \<le> cap" and buf: "cap \<le> length buf"
    and w: "w = (r + n) mod cap"
  shows "window (ring_write buf cap w d) cap r (n + length d) = window buf cap r n @ d"
proof (rule nth_equalityI)
  let ?b = "ring_write buf cap w d"
  have wc: "w < cap" using r w by simp
  have len: "length d \<le> cap" using fit by simp
  fix i assume "i < length (window ?b cap r (n + length d))"
  then have i: "i < n + length d" by simp
  show "window ?b cap r (n + length d) ! i = (window buf cap r n @ d) ! i"
  proof (cases "i < n")
    case True
    let ?k = "cap - n + i"
    have "(w + ?k) mod cap = ((r + n) + ?k) mod cap" by (simp add: w mod_add_left_eq)
    also have "(r + n) + ?k = (r + i) + cap" using fit by simp
    finally have idx: "(w + ?k) mod cap = (r + i) mod cap" by simp
    have "?k < cap" and "\<not> ?k < length d" using True fit by linarith+
    then have "?b ! ((w + ?k) mod cap) = buf ! ((w + ?k) mod cap)"
      by (simp only: nth_ring_write [OF wc len buf] if_False)
    with True i show ?thesis by (simp add: nth_append idx)
  next
    case False
    then obtain k where k: "i = n + k" by (metis le_Suc_ex not_less)
    have idx: "(w + k) mod cap = (r + i) mod cap"
      by (simp add: w k mod_add_left_eq add.assoc)
    have "k < cap" and "k < length d" using i k fit by linarith+
    then have "?b ! ((w + k) mod cap) = d ! k"
      by (simp only: nth_ring_write [OF wc len buf] if_True)
    with i k show ?thesis by (simp add: nth_append idx)
  qed
qed simp

text \<open>
  Writing a block that does not fit overwrites the oldest elements: the ring read from
  behind the block holds the newest \<open>cap\<close> elements.
\<close>

lemma window_ring_overwrite:
  assumes r: "r < cap" and n: "n \<le> cap" and len: "length d \<le> cap"
    and over: "cap \<le> n + length d" and buf: "cap \<le> length buf"
    and w: "w = (r + n) mod cap"
  shows "window (ring_write buf cap w d) cap ((w + length d) mod cap) cap =
    drop (n + length d - cap) (window buf cap r n) @ d"
proof (rule nth_equalityI)
  let ?b = "ring_write buf cap w d" and ?m = "length d"
  have wc: "w < cap" using r w by simp
  show "length (window ?b cap ((w + ?m) mod cap) cap) =
      length (drop (n + ?m - cap) (window buf cap r n) @ d)"
    using over len n by simp
  fix i assume "i < length (window ?b cap ((w + ?m) mod cap) cap)"
  then have i: "i < cap" by simp
  show "window ?b cap ((w + ?m) mod cap) cap ! i =
      (drop (n + ?m - cap) (window buf cap r n) @ d) ! i"
  proof (cases "i < cap - ?m")
    case True
    have idx: "((w + ?m) mod cap + i) mod cap = (w + (?m + i)) mod cap"
      by (simp add: mod_add_left_eq add.assoc)
    have "(w + (?m + i)) mod cap = ((r + n) + (?m + i)) mod cap"
      by (simp add: w mod_add_left_eq)
    also have "(r + n) + (?m + i) = (r + (n + ?m - cap + i)) + cap" using over by simp
    finally have "(w + (?m + i)) mod cap = (r + (n + ?m - cap + i)) mod cap" by simp
    moreover have "?b ! ((w + (?m + i)) mod cap) = buf ! ((w + (?m + i)) mod cap)"
      using nth_ring_write [OF wc len buf, of "?m + i"] True by simp
    ultimately show ?thesis using True i over n len
      by (simp add: nth_append idx)
  next
    case False
    then obtain k where k: "i = cap - ?m + k" by (metis le_Suc_ex not_less)
    have "(w + ?m) mod cap + i = (w + ?m) mod cap + (cap - ?m + k)" by (simp add: k)
    then have "((w + ?m) mod cap + i) mod cap = (w + ?m + (cap - ?m + k)) mod cap"
      by (simp add: mod_add_left_eq)
    also have "w + ?m + (cap - ?m + k) = (w + k) + cap" using len by simp
    finally have idx: "((w + ?m) mod cap + i) mod cap = (w + k) mod cap" by simp
    have "k < cap" and "k < length d" using i k len by linarith+
    then have "?b ! ((w + k) mod cap) = d ! k"
      by (simp only: nth_ring_write [OF wc len buf] if_True)
    moreover have "window ?b cap ((w + ?m) mod cap) cap ! i = ?b ! ((w + k) mod cap)"
      unfolding idx [symmetric] using i by simp
    moreover have "(drop (n + ?m - cap) (window buf cap r n) @ d) ! i = d ! k"
    proof -
      have "length (drop (n + ?m - cap) (window buf cap r n)) = cap - ?m"
        using over n by simp
      then show ?thesis unfolding k by (metis nth_append_length_plus)
    qed
    ultimately show ?thesis by simp
  qed
qed

end
