(* ===== verification/Ipc_Thread.thy ===== *)
theory Ipc_Thread
  imports Wlh_Prelude
begin

text \<open>
  What the IPC objects of rt-thread/src/ipc.c use of threads: the scheduler status, the
  thread timer, the error code a woken thread reads, and the list of suspended threads of
  an object.  Sources: scheduler_comm.c (ready, timer stop), thread.c (suspension to a list,
  the timeout handler), timer.c (stop, and the part of start a thread timer has),
  ipc.c (the suspended list).  A thread is named by its \<open>tid\<close>; the thread blocks are
  a function from names, and a suspended list is the list of the names it links.
\<close>

section \<open>Thread state\<close>

text \<open>klibc/kerrno.h without RT_USING_LIBC.  The functions return the negated codes.\<close>

definition RT_EOK :: int where "RT_EOK = 0"
definition RT_ERROR :: int where "RT_ERROR = 1"
definition RT_ETIMEOUT :: int where "RT_ETIMEOUT = 2"
definition RT_EFULL :: int where "RT_EFULL = 3"
definition RT_EINTR :: int where "RT_EINTR = 9"
definition RT_EINVAL :: int where "RT_EINVAL = 10"

lemmas error_codes = RT_EOK_def RT_ERROR_def RT_ETIMEOUT_def RT_EFULL_def RT_EINTR_def RT_EINVAL_def

datatype suspend_flag = RT_INTERRUPTIBLE | RT_KILLABLE | RT_UNINTERRUPTIBLE

text \<open>
  The low three bits of \<open>stat\<close>.  The suspended states 0x4, 0x6 and 0x7 are
  \<open>Suspended f\<close>, ordered as the code compares them.
\<close>

datatype thread_stat =
    RT_THREAD_INIT
  | RT_THREAD_CLOSE
  | RT_THREAD_READY
  | RT_THREAD_RUNNING
  | Suspended suspend_flag

instantiation suspend_flag :: linorder
begin

fun suspend_code :: "suspend_flag \<Rightarrow> nat" where
  "suspend_code RT_INTERRUPTIBLE = 4"
| "suspend_code RT_KILLABLE = 6"
| "suspend_code RT_UNINTERRUPTIBLE = 7"

definition less_eq_suspend_flag :: "suspend_flag \<Rightarrow> suspend_flag \<Rightarrow> bool" where
  "less_eq_suspend_flag a b = (suspend_code a \<le> suspend_code b)"

definition less_suspend_flag :: "suspend_flag \<Rightarrow> suspend_flag \<Rightarrow> bool" where
  "less_suspend_flag a b = (suspend_code a < suspend_code b)"

instance
proof
  fix a b c :: suspend_flag
  show "(a < b) = (a \<le> b \<and> \<not> b \<le> a)"
    by (auto simp: less_eq_suspend_flag_def less_suspend_flag_def)
  show "a \<le> a" by (simp add: less_eq_suspend_flag_def)
  show "a \<le> b \<Longrightarrow> b \<le> c \<Longrightarrow> a \<le> c" by (simp add: less_eq_suspend_flag_def)
  show "a \<le> b \<Longrightarrow> b \<le> a \<Longrightarrow> a = b"
    by (cases a; cases b) (simp_all add: less_eq_suspend_flag_def)
  show "a \<le> b \<or> b \<le> a" by (auto simp: less_eq_suspend_flag_def)
qed

end

type_synonym tid = nat

record rt_thread =
  current_priority :: byte
  thread_error :: int
  stat :: thread_stat
  sched_flag_ttmr_set :: bool
  timer_activated :: bool
  init_tick :: u32

record rt_kernel =
  rt_current_thread :: tid
  threads :: "tid \<Rightarrow> rt_thread"

abbreviation prio :: "rt_kernel \<Rightarrow> tid \<Rightarrow> byte" where
  "prio k t \<equiv> current_priority (threads k t)"

definition upd_thread :: "tid \<Rightarrow> (rt_thread \<Rightarrow> rt_thread) \<Rightarrow> rt_kernel \<Rightarrow> rt_kernel" where
  "upd_thread t f k = k\<lparr>threads := (threads k)(t := f (threads k t))\<rparr>"

lemma upd_thread_simps [simp]:
  "rt_current_thread (upd_thread t f k) = rt_current_thread k"
  "threads (upd_thread t f k) t = f (threads k t)"
  "t \<noteq> u \<Longrightarrow> threads (upd_thread t f k) u = threads k u"
  by (simp_all add: upd_thread_def)

lemma threads_upd_thread:
  "threads (upd_thread t f k) u = (if u = t then f (threads k u) else threads k u)"
  by (simp add: upd_thread_def)

section \<open>Scheduler and timer operations\<close>

text \<open>timer.c:626.  Returns the error code.\<close>

definition rt_timer_stop :: "tid \<Rightarrow> rt_kernel \<Rightarrow> rt_kernel \<times> int" where
  "rt_timer_stop t k =
    (if \<not> timer_activated (threads k t) then (k, - RT_ERROR)
     else (upd_thread t (\<lambda>th. th\<lparr>timer_activated := False\<rparr>) k, RT_EOK))"

text \<open>
  rt_timer_control SET_TIME and rt_timer_start on a thread timer: the timer leaves the timer
  list, gets its new period, is marked as set in the scheduler context and activated.
\<close>

definition thread_timer_start :: "tid \<Rightarrow> u32 \<Rightarrow> rt_kernel \<Rightarrow> rt_kernel" where
  "thread_timer_start t tick k =
    upd_thread t (\<lambda>th. th\<lparr>init_tick := tick, sched_flag_ttmr_set := True,
      timer_activated := True\<rparr>) k"

definition rt_sched_thread_timer_stop :: "tid \<Rightarrow> rt_kernel \<Rightarrow> rt_kernel \<times> int" where
  "rt_sched_thread_timer_stop t k =
    (if sched_flag_ttmr_set (threads k t)
     then (case rt_timer_stop t k of (k1, err) \<Rightarrow>
             (upd_thread t (\<lambda>th. th\<lparr>sched_flag_ttmr_set := False\<rparr>) k1, err))
     else (k, RT_EOK))"

definition rt_sched_thread_is_suspended :: "rt_kernel \<Rightarrow> tid \<Rightarrow> bool" where
  "rt_sched_thread_is_suspended k t =
    (case stat (threads k t) of Suspended f \<Rightarrow> True | _ \<Rightarrow> False)"

text \<open>scheduler_up.c: the status part of rt_sched_insert_thread.\<close>

definition rt_sched_insert_thread :: "tid \<Rightarrow> rt_kernel \<Rightarrow> rt_kernel" where
  "rt_sched_insert_thread t k =
    upd_thread t (\<lambda>th. th\<lparr>stat :=
      (if t = rt_current_thread k then RT_THREAD_RUNNING else RT_THREAD_READY)\<rparr>) k"

text \<open>
  scheduler_comm.c:229, on the suspended list that holds the thread's node: the node leaves
  the list only when the thread becomes ready.
\<close>

definition rt_sched_thread_ready ::
    "tid \<Rightarrow> tid list \<Rightarrow> rt_kernel \<Rightarrow> tid list \<times> rt_kernel \<times> int" where
  "rt_sched_thread_ready t susp k =
    (if \<not> rt_sched_thread_is_suspended k t then (susp, k, - RT_EINVAL)
     else
      (case (if sched_flag_ttmr_set (threads k t) then rt_sched_thread_timer_stop t k
             else (k, RT_EOK)) of
         (k1, err) \<Rightarrow>
           if err = 0 then (remove1 t susp, rt_sched_insert_thread t k1, err)
           else (susp, k1, err)))"

section \<open>The suspended list\<close>

definition rt_susp_list_dequeue ::
    "tid list \<Rightarrow> int \<Rightarrow> rt_kernel \<Rightarrow> tid option \<times> tid list \<times> rt_kernel" where
  "rt_susp_list_dequeue susp err k =
    (case susp of
       [] \<Rightarrow> (None, [], k)
     | t # _ \<Rightarrow>
        (case rt_sched_thread_ready t susp k of
           (susp', k', error) \<Rightarrow>
             if error \<noteq> 0 then (None, susp', k')
             else (Some t, susp',
                   if err \<ge> 0 then upd_thread t (\<lambda>th. th\<lparr>thread_error := err\<rparr>) k' else k')))"

lemma dequeue_shorter:
  "rt_susp_list_dequeue susp err k = (Some t, susp', k') \<Longrightarrow> length susp' < length susp"
  by (auto simp: rt_susp_list_dequeue_def rt_sched_thread_ready_def RT_EINVAL_def
      split: list.splits if_splits prod.splits)

function rt_susp_list_resume_all :: "tid list \<Rightarrow> int \<Rightarrow> rt_kernel \<Rightarrow> tid list \<times> rt_kernel" where
  "rt_susp_list_resume_all susp err k =
    (case rt_susp_list_dequeue susp err k of
       (None, susp', k') \<Rightarrow> (susp', k')
     | (Some t, susp', k') \<Rightarrow> rt_susp_list_resume_all susp' err k')"
  by auto
termination
  by (relation "measure (\<lambda>(susp, _). length susp)") (simp, simp, metis dequeue_shorter)

declare rt_susp_list_resume_all.simps [simp del]

text \<open>The search of the RT_IPC_FLAG_PRIO branch: before the first thread of a larger value.\<close>

fun prio_insert :: "rt_kernel \<Rightarrow> tid \<Rightarrow> tid list \<Rightarrow> tid list" where
  "prio_insert k t [] = [t]"
| "prio_insert k t (s # ss) = (if prio k t < prio k s then t # s # ss else s # prio_insert k t ss)"

datatype ipc_flag = RT_IPC_FLAG_FIFO | RT_IPC_FLAG_PRIO

definition rt_susp_list_enqueue :: "tid list \<Rightarrow> tid \<Rightarrow> ipc_flag \<Rightarrow> rt_kernel \<Rightarrow> tid list" where
  "rt_susp_list_enqueue susp t flag k =
    (case flag of RT_IPC_FLAG_FIFO \<Rightarrow> susp @ [t] | RT_IPC_FLAG_PRIO \<Rightarrow> prio_insert k t susp)"

definition rt_thread_suspend_to_list ::
    "tid \<Rightarrow> tid list \<Rightarrow> ipc_flag \<Rightarrow> suspend_flag \<Rightarrow> rt_kernel \<Rightarrow> tid list \<times> rt_kernel \<times> int" where
  "rt_thread_suspend_to_list t susp flag sf k =
    (case stat (threads k t) of
       Suspended old \<Rightarrow>
         (let k1 = (if sched_flag_ttmr_set (threads k t)
                    then fst (rt_sched_thread_timer_stop t k) else k);
              k2 = (if old < sf then upd_thread t (\<lambda>th. th\<lparr>stat := Suspended sf\<rparr>) k1 else k1)
          in (susp, k2, RT_EOK))
     | RT_THREAD_INIT \<Rightarrow> (susp, k, - RT_ERROR)
     | RT_THREAD_CLOSE \<Rightarrow> (susp, k, - RT_ERROR)
     | _ \<Rightarrow>
         (let k1 = upd_thread t (\<lambda>th. th\<lparr>stat := Suspended sf\<rparr>) k;
              susp' = rt_susp_list_enqueue susp t flag k1
          in (susp', fst (rt_sched_thread_timer_stop t k1), RT_EOK)))"

text \<open>
  thread.c:146, the callback of the thread timer.  \<open>None\<close> is the failed assertion that the
  thread is still suspended, which stops the system.
\<close>

definition thread_timeout :: "tid \<Rightarrow> tid list \<Rightarrow> rt_kernel \<Rightarrow> (tid list \<times> rt_kernel) option" where
  "thread_timeout t susp k =
    (if rt_sched_thread_is_suspended k t
     then Some (remove1 t susp,
                rt_sched_insert_thread t
                  (upd_thread t (\<lambda>th. th\<lparr>thread_error := - RT_ETIMEOUT\<rparr>) k))
     else None)"

text \<open>
  timer.c _timer_check: an expired one-shot timer is deactivated under the timer lock; the
  callback runs after the lock is released, so other code can run between the two.
\<close>

definition timer_expire :: "tid \<Rightarrow> rt_kernel \<Rightarrow> rt_kernel" where
  "timer_expire t k = upd_thread t (\<lambda>th. th\<lparr>timer_activated := False\<rparr>) k"

section \<open>Waiting lists without an expiry in flight\<close>

text \<open>
  A waiter is \<open>wakeable\<close> when it is suspended and its timer, if set, has not expired yet.
  Waking a list of such threads never fails.
\<close>

definition wakeable :: "rt_kernel \<Rightarrow> tid \<Rightarrow> bool" where
  "wakeable k t \<longleftrightarrow> rt_sched_thread_is_suspended k t \<and>
    (sched_flag_ttmr_set (threads k t) \<longrightarrow> timer_activated (threads k t))"

definition woken :: "tid \<Rightarrow> int \<Rightarrow> rt_kernel \<Rightarrow> rt_kernel" where
  "woken t err k = upd_thread t (\<lambda>th. th\<lparr>
     stat := (if t = rt_current_thread k then RT_THREAD_RUNNING else RT_THREAD_READY),
     thread_error := (if err \<ge> 0 then err else thread_error th),
     timer_activated := (if sched_flag_ttmr_set th then False else timer_activated th),
     sched_flag_ttmr_set := False\<rparr>) k"

lemma kernel_eqI:
  "rt_current_thread k = rt_current_thread k' \<Longrightarrow> (\<And>u. threads k u = threads k' u) \<Longrightarrow>
    (k :: rt_kernel) = k'"
  by (cases k, cases k') auto

lemma dequeue_Nil [simp]: "rt_susp_list_dequeue [] err k = (None, [], k)"
  by (simp add: rt_susp_list_dequeue_def)

lemma dequeue_wakeable [simp]:
  assumes "wakeable k t"
  shows "rt_susp_list_dequeue (t # ts) err k = (Some t, ts, woken t err k)"
  using assms
  by (auto simp: rt_susp_list_dequeue_def rt_sched_thread_ready_def wakeable_def woken_def
      rt_sched_thread_timer_stop_def rt_timer_stop_def rt_sched_insert_thread_def
      RT_EOK_def upd_thread_def intro!: kernel_eqI split: if_splits)

lemma threads_woken [simp]: "u \<noteq> t \<Longrightarrow> threads (woken t err k) u = threads k u"
  by (simp add: woken_def)

lemma wakeable_woken [simp]: "u \<noteq> t \<Longrightarrow> wakeable (woken t err k) u = wakeable k u"
  by (simp add: wakeable_def rt_sched_thread_is_suspended_def)

lemma resume_all_wakeable:
  "distinct ts \<Longrightarrow> \<forall>t\<in>set ts. wakeable k t \<Longrightarrow>
    rt_susp_list_resume_all ts err k = ([], fold (\<lambda>t. woken t err) ts k)"
proof (induction ts arbitrary: k)
  case Nil
  then show ?case by (subst rt_susp_list_resume_all.simps) simp
next
  case (Cons t ts)
  then have "wakeable (woken t err k) u" if "u \<in> set ts" for u
    using that wakeable_woken [of u t err k] by fastforce
  with Cons show ?case by (subst rt_susp_list_resume_all.simps) simp
qed

lemma threads_fold_woken:
  "u \<notin> set ts \<Longrightarrow> threads (fold (\<lambda>t. woken t err) ts k) u = threads k u"
  by (induction ts arbitrary: k) auto

lemma wakeable_fold_woken:
  "u \<notin> set ts \<Longrightarrow> wakeable (fold (\<lambda>t. woken t err) ts k) u = wakeable k u"
  by (induction ts arbitrary: k) auto

text \<open>Every thread of the list is released with the code, whatever its position.\<close>

lemma fold_woken_released:
  "distinct ts \<Longrightarrow> t \<in> set ts \<Longrightarrow> 0 \<le> err \<Longrightarrow>
    thread_error (threads (fold (\<lambda>t. woken t err) ts k) t) = err \<and>
    \<not> rt_sched_thread_is_suspended (fold (\<lambda>t. woken t err) ts k) t"
proof (induction ts arbitrary: k)
  case (Cons a ts)
  show ?case
  proof (cases "t = a")
    case True
    with Cons.prems have "t \<notin> set ts" by auto
    then show ?thesis
      using Cons.prems True
      by (simp add: rt_sched_thread_is_suspended_def threads_fold_woken) (simp add: woken_def)
  qed (use Cons in auto)
qed simp

section \<open>Priority order\<close>

definition prio_sorted :: "rt_kernel \<Rightarrow> tid list \<Rightarrow> bool" where
  "prio_sorted k ts = sorted_wrt (\<lambda>a b. prio k a \<le> prio k b) ts"

lemma set_prio_insert [simp]: "set (prio_insert k t ts) = insert t (set ts)"
  by (induction ts) auto

lemma distinct_prio_insert [simp]:
  "distinct (prio_insert k t ts) \<longleftrightarrow> t \<notin> set ts \<and> distinct ts"
  by (induction ts) auto

lemma length_prio_insert [simp]: "length (prio_insert k t ts) = Suc (length ts)"
  by (induction ts) auto

lemma prio_sorted_insert: "prio_sorted k ts \<Longrightarrow> prio_sorted k (prio_insert k t ts)"
  by (induction ts) (auto simp: prio_sorted_def)

text \<open>
  A new waiter goes behind every waiter whose priority value is not larger: equal priorities
  keep their order of arrival.
\<close>

lemma prio_insert_stable:
  "prio_sorted k ts \<Longrightarrow>
    prio_insert k t ts =
      filter (\<lambda>s. prio k s \<le> prio k t) ts @ t # filter (\<lambda>s. prio k t < prio k s) ts"
proof (induction ts)
  case (Cons s ss)
  show ?case
  proof (cases "prio k t < prio k s")
    case True
    with Cons.prems have "\<forall>u\<in>set ss. prio k t < prio k u"
      by (auto simp: prio_sorted_def)
    with True show ?thesis by (auto simp: filter_empty_conv)
  next
    case False
    with Cons show ?thesis by (auto simp: prio_sorted_def)
  qed
qed simp

lemma prio_sorted_cong:
  "(\<And>t. t \<in> set ts \<Longrightarrow> prio k t = prio k' t) \<Longrightarrow> prio_sorted k ts = prio_sorted k' ts"
  unfolding prio_sorted_def by (rule iffI; erule sorted_wrt_mono_rel [rotated]) auto

lemma prio_upd_thread [simp]:
  "(\<And>th. current_priority (f th) = current_priority th) \<Longrightarrow> prio (upd_thread t f k) u = prio k u"
  by (simp add: threads_upd_thread)

lemma prio_woken [simp]: "prio (woken t err k) u = prio k u"
  by (simp add: woken_def)

section \<open>Waking and suspending without an expiry in flight\<close>

lemma thread_ready_wakeable:
  assumes "wakeable k t"
  shows "\<exists>k'. rt_sched_thread_ready t ws k = (remove1 t ws, k', 0) \<and>
    upd_thread t (\<lambda>th. th\<lparr>thread_error := RT_EOK\<rparr>) k' = woken t RT_EOK k"
  using assms
  by (auto simp: rt_sched_thread_ready_def wakeable_def woken_def rt_sched_thread_timer_stop_def
      rt_timer_stop_def rt_sched_insert_thread_def RT_EOK_def upd_thread_def
      intro!: kernel_eqI split: if_splits)

lemma wakeable_upd_thread:
  "wakeable (upd_thread t f k) u =
    (if u = t then (case stat (f (threads k t)) of Suspended x \<Rightarrow> True | _ \<Rightarrow> False) \<and>
       (sched_flag_ttmr_set (f (threads k t)) \<longrightarrow> timer_activated (f (threads k t)))
     else wakeable k u)"
  by (simp add: wakeable_def rt_sched_thread_is_suspended_def threads_upd_thread)

lemma wakeable_upd_same [simp]:
  "(\<And>th. stat (f th) = stat th \<and> sched_flag_ttmr_set (f th) = sched_flag_ttmr_set th \<and>
     timer_activated (f th) = timer_activated th) \<Longrightarrow>
    wakeable (upd_thread t f k) u = wakeable k u"
  by (simp add: wakeable_def rt_sched_thread_is_suspended_def threads_upd_thread)

lemma suspend_wakeable:
  assumes "stat (threads k t) \<in> {RT_THREAD_RUNNING, RT_THREAD_READY}"
    and "rt_thread_suspend_to_list t ws flag sf k = (ws', k', ret)"
  shows "wakeable k' u = (u = t \<or> wakeable k u)"
    and "wakeable (thread_timer_start t tick k') u = (u = t \<or> wakeable k u)"
  using assms
  by (auto simp: rt_thread_suspend_to_list_def Let_def rt_sched_thread_timer_stop_def
      rt_timer_stop_def wakeable_upd_thread thread_timer_start_def split: if_splits)

lemma prio_sorted_filter: "prio_sorted k ts \<Longrightarrow> prio_sorted k (filter P ts)"
  unfolding prio_sorted_def by (rule sorted_wrt_filter)

lemma prio_sorted_remove1: "prio_sorted k ts \<Longrightarrow> prio_sorted k (remove1 t ts)"
  unfolding prio_sorted_def by (induction ts) (auto dest: notin_set_remove1)

end
