(* ===== verification/Ipc_Sem.thy ===== *)
theory Ipc_Sem
  imports Ipc_Thread
begin

text \<open>
  The counting semaphore of rt-thread/src/ipc.c (lines 321 to 822): initialisation, take in
  its blocking and non-blocking forms, release and control.  A take that has to wait is
  split where the code gives up the processor: \<open>rt_sem_take_main\<close> runs up to the call of
  rt_schedule and \<open>sem_take_resumed\<close> is what the thread does when it runs again.  The
  last section runs sequences of calls, timer expiries and timeout callbacks.
\<close>

section \<open>State\<close>

record rt_semaphore =
  sem_value :: u16
  sem_max_value :: u16
  sem_flag :: ipc_flag
  sem_waiters :: "tid list"

definition RT_SEM_VALUE_MAX :: u16 where "RT_SEM_VALUE_MAX = 65535"

text \<open>
  How a call ends: it returns a code, it leaves its thread suspended, or an RT_ASSERT
  stops the system.
\<close>

datatype ipc_outcome = Returned int | Blocked | Halted

section \<open>Operations\<close>

definition sem_object_init :: "u16 \<Rightarrow> ipc_flag \<Rightarrow> u16 \<Rightarrow> rt_semaphore" where
  "sem_object_init value flag max_value =
    \<lparr>sem_value = value, sem_max_value = max_value, sem_flag = flag, sem_waiters = []\<rparr>"

definition rt_sem_init :: "u32 \<Rightarrow> ipc_flag \<Rightarrow> rt_semaphore option" where
  "rt_sem_init value flag =
    (if value < 0x10000 then Some (sem_object_init (ucast value) flag RT_SEM_VALUE_MAX) else None)"

text \<open>rt_sem_create: \<open>alloc_ok\<close> is whether rt_object_allocate returned an object.\<close>

definition rt_sem_create :: "bool \<Rightarrow> u32 \<Rightarrow> ipc_flag \<Rightarrow> rt_semaphore option option" where
  "rt_sem_create alloc_ok value flag =
    (if value < 0x10000
     then Some (if alloc_ok then Some (sem_object_init (ucast value) flag RT_SEM_VALUE_MAX)
                else None)
     else None)"

definition rt_sem_take_main ::
    "int \<Rightarrow> suspend_flag \<Rightarrow> rt_semaphore \<Rightarrow> rt_kernel \<Rightarrow> ipc_outcome \<times> rt_semaphore \<times> rt_kernel" where
  "rt_sem_take_main timeout sf s k =
    (if sem_value s > 0
     then (Returned RT_EOK, s\<lparr>sem_value := sem_value s - 1\<rparr>, k)
     else if timeout = 0 then (Returned (- RT_ETIMEOUT), s, k)
     else
      (let t = rt_current_thread k;
           k1 = upd_thread t (\<lambda>th. th\<lparr>thread_error := RT_EINTR\<rparr>) k
       in case rt_thread_suspend_to_list t (sem_waiters s) (sem_flag s) sf k1 of
            (ws, k2, ret) \<Rightarrow>
              if ret \<noteq> RT_EOK then (Returned ret, s\<lparr>sem_waiters := ws\<rparr>, k2)
              else if timeout > 0
              then (if timeout < 0x7FFFFFFF
                    then (Blocked, s\<lparr>sem_waiters := ws\<rparr>,
                          thread_timer_start t (word_of_int timeout) k2)
                    else (Halted, s\<lparr>sem_waiters := ws\<rparr>, k2))
              else (Blocked, s\<lparr>sem_waiters := ws\<rparr>, k2)))"

definition sem_take_resumed :: "rt_thread \<Rightarrow> int" where
  "sem_take_resumed th =
    (if thread_error th \<noteq> RT_EOK
     then (if thread_error th > 0 then - thread_error th else thread_error th)
     else RT_EOK)"

definition rt_sem_take ::
    "int \<Rightarrow> rt_semaphore \<Rightarrow> rt_kernel \<Rightarrow> ipc_outcome \<times> rt_semaphore \<times> rt_kernel" where
  "rt_sem_take timeout = rt_sem_take_main timeout RT_UNINTERRUPTIBLE"

definition rt_sem_take_interruptible ::
    "int \<Rightarrow> rt_semaphore \<Rightarrow> rt_kernel \<Rightarrow> ipc_outcome \<times> rt_semaphore \<times> rt_kernel" where
  "rt_sem_take_interruptible timeout = rt_sem_take_main timeout RT_INTERRUPTIBLE"

definition rt_sem_take_killable ::
    "int \<Rightarrow> rt_semaphore \<Rightarrow> rt_kernel \<Rightarrow> ipc_outcome \<times> rt_semaphore \<times> rt_kernel" where
  "rt_sem_take_killable timeout = rt_sem_take_main timeout RT_KILLABLE"

definition rt_sem_trytake ::
    "rt_semaphore \<Rightarrow> rt_kernel \<Rightarrow> ipc_outcome \<times> rt_semaphore \<times> rt_kernel" where
  "rt_sem_trytake = rt_sem_take 0"

text \<open>Release returns the code; whether rt_schedule follows does not touch this state.\<close>

definition rt_sem_release :: "rt_semaphore \<Rightarrow> rt_kernel \<Rightarrow> int \<times> rt_semaphore \<times> rt_kernel" where
  "rt_sem_release s k =
    (if sem_waiters s \<noteq> []
     then (case rt_susp_list_dequeue (sem_waiters s) RT_EOK k of
             (_, ws, k') \<Rightarrow> (RT_EOK, s\<lparr>sem_waiters := ws\<rparr>, k'))
     else if sem_value s < sem_max_value s
     then (RT_EOK, s\<lparr>sem_value := sem_value s + 1\<rparr>, k)
     else (- RT_EFULL, s, k))"

datatype ipc_cmd = RT_IPC_CMD_UNKNOWN | RT_IPC_CMD_RESET | RT_IPC_CMD_GET_STATE | RT_IPC_CMD_SET_VLIMIT

definition rt_sem_control ::
    "ipc_cmd \<Rightarrow> u32 \<Rightarrow> rt_semaphore \<Rightarrow> rt_kernel \<Rightarrow> int \<times> rt_semaphore \<times> rt_kernel" where
  "rt_sem_control cmd arg s k =
    (case cmd of
       RT_IPC_CMD_RESET \<Rightarrow>
         (case rt_susp_list_resume_all (sem_waiters s) RT_ERROR k of
            (ws, k') \<Rightarrow> (RT_EOK, s\<lparr>sem_waiters := ws, sem_value := ucast arg\<rparr>, k'))
     | RT_IPC_CMD_SET_VLIMIT \<Rightarrow>
         (let max_value = (ucast arg :: u16)
          in if max_value > RT_SEM_VALUE_MAX \<or> max_value = 0 then (- RT_EINVAL, s, k)
             else
              (case (if max_value < sem_value s \<and> sem_waiters s \<noteq> []
                     then rt_susp_list_resume_all (sem_waiters s) RT_ERROR k
                     else (sem_waiters s, k)) of
                 (ws, k') \<Rightarrow> (RT_EOK, s\<lparr>sem_waiters := ws, sem_max_value := max_value\<rparr>, k')))
     | _ \<Rightarrow> (- RT_ERROR, s, k))"

text \<open>rt_sem_detach and rt_sem_delete wake every waiter before the object goes away.\<close>

definition rt_sem_detach :: "rt_semaphore \<Rightarrow> rt_kernel \<Rightarrow> tid list \<times> rt_kernel" where
  "rt_sem_detach s k = rt_susp_list_resume_all (sem_waiters s) RT_ERROR k"

definition rt_sem_delete :: "rt_semaphore \<Rightarrow> rt_kernel \<Rightarrow> tid list \<times> rt_kernel" where
  "rt_sem_delete s k = rt_susp_list_resume_all (sem_waiters s) RT_ERROR k"

section \<open>Semaphores without waiters\<close>

lemma release_no_waiters:
  assumes "sem_waiters s = []" "sem_max_value s = 65535" "rt_sem_release s k = (r, s', k')"
  shows "sem_waiters s' = []" "sem_max_value s' = 65535" "sem_value s' \<noteq> 0" "k' = k"
proof -
  have "sem_value s + 1 \<noteq> 0" if "sem_value s < 65535"
  proof -
    have "unat (sem_value s) < 65535" using that by (simp add: word_less_nat_alt)
    then have "unat (sem_value s + 1) = unat (sem_value s) + 1" by (simp add: unat_word_ariths)
    then show ?thesis by (metis add_is_0 unat_0 zero_neq_one)
  qed
  then show "sem_waiters s' = []" "sem_max_value s' = 65535" "sem_value s' \<noteq> 0" "k' = k"
    using assms by (auto simp: rt_sem_release_def split: if_splits)
qed

lemma take_token:
  assumes "sem_value s > 0" "rt_sem_take timeout s k = (out, s', k')"
  shows "out = Returned RT_EOK" "s' = s\<lparr>sem_value := sem_value s - 1\<rparr>" "k' = k"
  using assms by (auto simp: rt_sem_take_def rt_sem_take_main_def)

section \<open>Invariant\<close>

text \<open>
  Threads wait only on an empty semaphore, each at most once and suspended, in priority
  order when the object was created with RT_IPC_FLAG_PRIO.
\<close>

definition sem_inv :: "rt_semaphore \<Rightarrow> rt_kernel \<Rightarrow> bool" where
  "sem_inv s k \<longleftrightarrow>
    (sem_waiters s \<noteq> [] \<longrightarrow> sem_value s = 0) \<and>
    distinct (sem_waiters s) \<and>
    (\<forall>t\<in>set (sem_waiters s). rt_sched_thread_is_suspended k t) \<and>
    (sem_flag s = RT_IPC_FLAG_PRIO \<longrightarrow> prio_sorted k (sem_waiters s))"

lemma suspended_upd_thread:
  "rt_sched_thread_is_suspended (upd_thread t f k) u =
    (if u = t then (case stat (f (threads k t)) of Suspended x \<Rightarrow> True | _ \<Rightarrow> False)
     else rt_sched_thread_is_suspended k u)"
  by (simp add: rt_sched_thread_is_suspended_def threads_upd_thread)

lemma suspended_upd_same [simp]:
  "(\<And>th. stat (f th) = stat th) \<Longrightarrow>
    rt_sched_thread_is_suspended (upd_thread t f k) u = rt_sched_thread_is_suspended k u"
  by (simp add: rt_sched_thread_is_suspended_def threads_upd_thread)

lemma sem_inv_frame:
  assumes "sem_inv s k"
    and "\<And>u. rt_sched_thread_is_suspended k' u = rt_sched_thread_is_suspended k u"
    and "\<And>u. prio k' u = prio k u"
  shows "sem_inv s k'"
  using assms by (simp add: sem_inv_def prio_sorted_def)

lemma timer_stop_frame [simp]:
  "rt_sched_thread_is_suspended (fst (rt_sched_thread_timer_stop t k)) u =
    rt_sched_thread_is_suspended k u"
  "prio (fst (rt_sched_thread_timer_stop t k)) u = prio k u"
  "rt_current_thread (fst (rt_sched_thread_timer_stop t k)) = rt_current_thread k"
  by (auto simp: rt_sched_thread_timer_stop_def rt_timer_stop_def
      rt_sched_thread_is_suspended_def threads_upd_thread)

lemma timer_start_frame [simp]:
  "rt_sched_thread_is_suspended (thread_timer_start t tick k) u = rt_sched_thread_is_suspended k u"
  "prio (thread_timer_start t tick k) u = prio k u"
  by (auto simp: thread_timer_start_def rt_sched_thread_is_suspended_def threads_upd_thread)

text \<open>A running thread is put on the list; nothing else of the list or of the others changes.\<close>

lemma suspend_running:
  assumes "stat (threads k t) \<in> {RT_THREAD_RUNNING, RT_THREAD_READY}"
    and "rt_thread_suspend_to_list t ws flag sf k = (ws', k', ret)"
  shows "ret = RT_EOK" and "ws' = rt_susp_list_enqueue ws t flag k"
    and "rt_sched_thread_is_suspended k' u = (u = t \<or> rt_sched_thread_is_suspended k u)"
    and "prio k' u = prio k u" and "rt_current_thread k' = rt_current_thread k"
proof -
  let ?k1 = "upd_thread t (\<lambda>th. th\<lparr>stat := Suspended sf\<rparr>) k"
  have res: "ws' = rt_susp_list_enqueue ws t flag ?k1"
    "k' = fst (rt_sched_thread_timer_stop t ?k1)" "ret = RT_EOK"
    using assms by (auto simp: rt_thread_suspend_to_list_def Let_def)
  have "prio_insert ?k1 t ws = prio_insert k t ws"
    by (induction ws) simp_all
  then show "ws' = rt_susp_list_enqueue ws t flag k"
    by (auto simp: res rt_susp_list_enqueue_def split: ipc_flag.splits)
  show "ret = RT_EOK" by (fact res)
  show "rt_sched_thread_is_suspended k' u = (u = t \<or> rt_sched_thread_is_suspended k u)"
    "prio k' u = prio k u" "rt_current_thread k' = rt_current_thread k"
    by (simp_all add: res suspended_upd_thread)
qed

lemma sem_inv_enqueue:
  assumes "sem_inv s k" "sem_value s = 0" "t \<notin> set (sem_waiters s)"
    and "\<And>u. rt_sched_thread_is_suspended k' u = (u = t \<or> rt_sched_thread_is_suspended k u)"
    and "\<And>u. prio k' u = prio k u"
    and "\<And>u. prio k0 u = prio k u"
  shows "sem_inv (s\<lparr>sem_waiters := rt_susp_list_enqueue (sem_waiters s) t (sem_flag s) k0\<rparr>) k'"
proof -
  have "prio_insert k0 t ws = prio_insert k t ws" for ws
    by (induction ws) (simp_all add: assms(6))
  moreover have "prio_sorted k' ws = prio_sorted k ws" for ws
    by (rule prio_sorted_cong) (rule assms(5))
  ultimately show ?thesis
    using assms(1-4) prio_sorted_insert
    by (auto simp: sem_inv_def rt_susp_list_enqueue_def split: ipc_flag.splits)
qed

lemma sem_inv_take:
  assumes inv: "sem_inv s k"
    and run: "stat (threads k (rt_current_thread k)) = RT_THREAD_RUNNING"
    and take: "rt_sem_take_main timeout sf s k = (out, s', k')"
  shows "sem_inv s' k'"
proof -
  let ?t = "rt_current_thread k"
  let ?k1 = "upd_thread ?t (\<lambda>th. th\<lparr>thread_error := RT_EINTR\<rparr>) k"
  have notin: "?t \<notin> set (sem_waiters s)"
    using inv run by (auto simp: sem_inv_def rt_sched_thread_is_suspended_def)
  show ?thesis
  proof (cases "sem_value s > 0 \<or> timeout = 0")
    case True
    then show ?thesis using take inv
      by (auto simp: rt_sem_take_main_def sem_inv_def split: if_splits)
  next
    case False
    then have zero: "sem_value s = 0" by (simp add: word_neq_0_conv [symmetric] del: word_neq_0_conv)
    obtain ws k2 ret where susp: "rt_thread_suspend_to_list ?t (sem_waiters s) (sem_flag s) sf ?k1 =
        (ws, k2, ret)" by (cases "rt_thread_suspend_to_list ?t (sem_waiters s) (sem_flag s) sf ?k1")
    have "stat (threads ?k1 ?t) \<in> {RT_THREAD_RUNNING, RT_THREAD_READY}" using run by simp
    note sr = suspend_running [OF this susp]
    have base: "sem_inv (s\<lparr>sem_waiters := ws\<rparr>) k2"
      unfolding sr(2)
      by (rule sem_inv_enqueue [OF inv zero notin]) (simp_all add: sr(3,4))
    have "sem_inv (s\<lparr>sem_waiters := ws\<rparr>) (thread_timer_start ?t tick k2)" for tick
      using base by (rule sem_inv_frame) simp_all
    then show ?thesis
      using take False zero sr(1) base
      by (auto simp: rt_sem_take_main_def susp Let_def split: if_splits)
  qed
qed

text \<open>A thread leaving the list keeps the invariant when only its own status changes.\<close>

lemma sem_inv_leave:
  assumes "sem_inv s k" and "\<And>u. u \<noteq> t \<Longrightarrow> threads k' u = threads k u"
    and "\<And>u. prio k' u = prio k u"
  shows "sem_inv (s\<lparr>sem_waiters := remove1 t (sem_waiters s)\<rparr>) k'"
proof -
  have "prio_sorted k' ws = prio_sorted k ws" for ws
    by (rule prio_sorted_cong) (rule assms(3))
  then show ?thesis
    using assms(1,2)
    by (auto simp: sem_inv_def prio_sorted_remove1 rt_sched_thread_is_suspended_def)
qed

text \<open>
  A dequeue on a non-empty list either wakes the first thread or, when its timer has expired
  already, leaves the list as it is and clears the timer flag.
\<close>

lemma dequeue_cases:
  assumes "rt_sched_thread_is_suspended k t"
  obtains "wakeable k t"
      "rt_susp_list_dequeue (t # ts) err k = (Some t, ts, woken t err k)"
    | "\<not> wakeable k t"
      "rt_susp_list_dequeue (t # ts) err k =
        (None, t # ts, upd_thread t (\<lambda>th. th\<lparr>sched_flag_ttmr_set := False\<rparr>) k)"
proof (cases "wakeable k t")
  case True
  then show ?thesis using that(1) by simp
next
  case False
  then have "rt_susp_list_dequeue (t # ts) err k =
      (None, t # ts, upd_thread t (\<lambda>th. th\<lparr>sched_flag_ttmr_set := False\<rparr>) k)"
    using assms
    by (simp add: wakeable_def rt_susp_list_dequeue_def rt_sched_thread_ready_def
        rt_sched_thread_timer_stop_def rt_timer_stop_def RT_ERROR_def)
  with False show ?thesis using that(2) by simp
qed

lemma sem_inv_release:
  assumes inv: "sem_inv s k" and rel: "rt_sem_release s k = (r, s', k')"
  shows "sem_inv s' k'"
proof (cases "sem_waiters s")
  case Nil
  with inv rel show ?thesis
    by (auto simp: rt_sem_release_def sem_inv_def split: if_splits)
next
  case (Cons t ts)
  with inv have "rt_sched_thread_is_suspended k t" by (simp add: sem_inv_def)
  then show ?thesis
  proof (cases rule: dequeue_cases [where ts = ts and err = RT_EOK])
    case 1
    have "sem_inv (s\<lparr>sem_waiters := remove1 t (sem_waiters s)\<rparr>) (woken t RT_EOK k)"
      using inv by (rule sem_inv_leave) simp_all
    with 1 Cons rel show ?thesis by (simp add: rt_sem_release_def)
  next
    case 2
    have "sem_inv s (upd_thread t (\<lambda>th. th\<lparr>sched_flag_ttmr_set := False\<rparr>) k)"
      using inv by (rule sem_inv_frame) simp_all
    then have "sem_inv (s\<lparr>sem_waiters := t # ts\<rparr>)
        (upd_thread t (\<lambda>th. th\<lparr>sched_flag_ttmr_set := False\<rparr>) k)"
      by (simp add: sem_inv_def Cons)
    with 2 Cons rel show ?thesis by (auto simp: rt_sem_release_def)
  qed
qed

lemma sem_inv_timeout:
  assumes "sem_inv s k" and "thread_timeout t (sem_waiters s) k = Some (ws, k')"
  shows "sem_inv (s\<lparr>sem_waiters := ws\<rparr>) k'"
  using assms sem_inv_leave [OF assms(1), of t k']
  by (auto simp: thread_timeout_def rt_sched_insert_thread_def split: if_splits)

lemma sem_inv_expire: "sem_inv s k \<Longrightarrow> sem_inv s (timer_expire t k)"
  unfolding timer_expire_def by (erule sem_inv_frame) simp_all

text \<open>Waking all waiters, or all up to one whose timer has expired, keeps the invariant.\<close>

lemma sem_inv_resume_all:
  "sem_inv s k \<Longrightarrow> rt_susp_list_resume_all (sem_waiters s) err k = (ws, k') \<Longrightarrow>
    sem_inv (s\<lparr>sem_waiters := ws\<rparr>) k'"
proof (induction "sem_waiters s" arbitrary: s k)
  case Nil
  then show ?case by (simp add: rt_susp_list_resume_all.simps [of "[]"] sem_inv_def prio_sorted_def)
next
  case (Cons t ts)
  have "rt_sched_thread_is_suspended k t"
    using Cons.prems(1) Cons.hyps(2) [symmetric] by (simp add: sem_inv_def)
  then show ?case
  proof (cases rule: dequeue_cases [where ts = ts and err = err])
    case 1
    have "sem_inv (s\<lparr>sem_waiters := remove1 t (sem_waiters s)\<rparr>) (woken t err k)"
      using Cons.prems(1) by (rule sem_inv_leave) simp_all
    moreover have "remove1 t (sem_waiters s) = ts" by (simp add: Cons.hyps(2) [symmetric])
    moreover have "rt_susp_list_resume_all ts err (woken t err k) = (ws, k')"
      using Cons.prems(2) 1(2)
      by (simp add: Cons.hyps(2) [symmetric] rt_susp_list_resume_all.simps [of "t # ts"])
    ultimately show ?thesis using Cons.hyps(1) [of "s\<lparr>sem_waiters := ts\<rparr>" "woken t err k"] by simp
  next
    case 2
    then have r: "ws = t # ts" "k' = upd_thread t (\<lambda>th. th\<lparr>sched_flag_ttmr_set := False\<rparr>) k"
      using Cons.prems(2)
      by (simp_all add: Cons.hyps(2) [symmetric] rt_susp_list_resume_all.simps [of "t # ts"])
    have "sem_inv s k'" unfolding r(2) using Cons.prems(1) by (rule sem_inv_frame) simp_all
    then show ?thesis by (simp add: sem_inv_def r(1) Cons.hyps(2) [symmetric])
  qed
qed

lemma sem_inv_vlimit:
  assumes "sem_inv s k" "rt_sem_control RT_IPC_CMD_SET_VLIMIT arg s k = (r, s', k')"
  shows "sem_inv s' k'"
proof -
  have limit: "sem_inv (s1\<lparr>sem_max_value := m\<rparr>) k1 = sem_inv s1 k1" for s1 m k1
    by (simp add: sem_inv_def)
  show ?thesis
    using assms sem_inv_resume_all [OF assms(1), of RT_ERROR]
    by (auto simp: rt_sem_control_def Let_def limit split: if_splits prod.splits)
qed

section \<open>Sequences of events\<close>

text \<open>
  One semaphore among the threads of the system.  \<open>EvTake\<close> is a take by the current thread
  when it is running (rt_sem_take and its interruptible and killable variants), \<open>EvVlimit\<close> is
  rt_sem_control SET_VLIMIT, \<open>EvSwitch\<close> lets another thread run that is not suspended, \<open>EvExpire\<close>
  is the part of _timer_check before the callback and \<open>EvTimeout\<close> the callback, which may
  only run for a timer in \<open>sys_firing\<close>.  An event that is not enabled does nothing;
  \<open>None\<close> is a system stopped by an assertion.
\<close>

datatype sem_event =
    EvTake suspend_flag int
  | EvRelease
  | EvVlimit u32
  | EvSwitch tid
  | EvExpire tid
  | EvTimeout tid

record sem_sys =
  sys_sem :: rt_semaphore
  sys_kernel :: rt_kernel
  sys_firing :: "tid list"

fun sem_sys_step :: "sem_event \<Rightarrow> sem_sys \<Rightarrow> sem_sys option" where
  "sem_sys_step (EvTake sf timeout) y =
    (if stat (threads (sys_kernel y) (rt_current_thread (sys_kernel y))) = RT_THREAD_RUNNING
     then (case rt_sem_take_main timeout sf (sys_sem y) (sys_kernel y) of
             (out, s, k) \<Rightarrow> if out = Halted then None
                           else Some (y\<lparr>sys_sem := s, sys_kernel := k\<rparr>))
     else Some y)"
| "sem_sys_step EvRelease y =
    (case rt_sem_release (sys_sem y) (sys_kernel y) of
       (_, s, k) \<Rightarrow> Some (y\<lparr>sys_sem := s, sys_kernel := k\<rparr>))"
| "sem_sys_step (EvVlimit arg) y =
    (case rt_sem_control RT_IPC_CMD_SET_VLIMIT arg (sys_sem y) (sys_kernel y) of
       (_, s, k) \<Rightarrow> Some (y\<lparr>sys_sem := s, sys_kernel := k\<rparr>))"
| "sem_sys_step (EvSwitch t) y =
    (if stat (threads (sys_kernel y) t) = RT_THREAD_READY
     then Some (y\<lparr>sys_kernel :=
            (upd_thread t (\<lambda>th. th\<lparr>stat := RT_THREAD_RUNNING\<rparr>) (sys_kernel y))
              \<lparr>rt_current_thread := t\<rparr>\<rparr>)
     else Some y)"
| "sem_sys_step (EvExpire t) y =
    (if timer_activated (threads (sys_kernel y) t)
     then Some (y\<lparr>sys_kernel := timer_expire t (sys_kernel y), sys_firing := t # sys_firing y\<rparr>)
     else Some y)"
| "sem_sys_step (EvTimeout t) y =
    (if t \<in> set (sys_firing y)
     then (case thread_timeout t (sem_waiters (sys_sem y)) (sys_kernel y) of
             None \<Rightarrow> None
           | Some (ws, k) \<Rightarrow>
               Some (y\<lparr>sys_sem := (sys_sem y)\<lparr>sem_waiters := ws\<rparr>, sys_kernel := k,
                       sys_firing := remove1 t (sys_firing y)\<rparr>))
     else Some y)"

fun sem_sys_run :: "sem_event list \<Rightarrow> sem_sys \<Rightarrow> sem_sys option" where
  "sem_sys_run [] y = Some y"
| "sem_sys_run (e # es) y =
    (case sem_sys_step e y of None \<Rightarrow> None | Some y' \<Rightarrow> sem_sys_run es y')"

fun_cases sem_sys_run_Cons: "sem_sys_run (e # es) y = Some y'"

lemma sem_sys_step_inv:
  assumes "sem_inv (sys_sem y) (sys_kernel y)" "sem_sys_step e y = Some y'"
  shows "sem_inv (sys_sem y') (sys_kernel y')"
proof (cases e)
  case (EvTake sf timeout)
  with assms show ?thesis
    by (auto split: if_splits prod.splits dest: sem_inv_take)
next
  case (EvVlimit arg)
  with assms show ?thesis by (auto split: prod.splits dest: sem_inv_vlimit)
next
  case EvRelease
  with assms show ?thesis by (auto split: prod.splits dest: sem_inv_release)
next
  case (EvSwitch t)
  then show ?thesis using assms
    by (auto intro!: sem_inv_frame [OF assms(1)] split: if_splits
        simp: rt_sched_thread_is_suspended_def threads_upd_thread)
next
  case (EvExpire t)
  with assms show ?thesis by (auto split: if_splits dest: sem_inv_expire)
next
  case (EvTimeout t)
  with assms show ?thesis by (auto split: if_splits option.splits dest: sem_inv_timeout)
qed

lemma sem_sys_run_inv:
  "sem_inv (sys_sem y) (sys_kernel y) \<Longrightarrow> sem_sys_run es y = Some y' \<Longrightarrow>
    sem_inv (sys_sem y') (sys_kernel y')"
  by (induction es arbitrary: y) (auto split: option.splits dest: sem_sys_step_inv)

section \<open>Repeated releases\<close>

fun sem_release_n :: "nat \<Rightarrow> rt_semaphore \<Rightarrow> rt_kernel \<Rightarrow> rt_semaphore \<times> rt_kernel" where
  "sem_release_n 0 s k = (s, k)"
| "sem_release_n (Suc n) s k = (case rt_sem_release s k of (_, s', k') \<Rightarrow> sem_release_n n s' k')"

lemma release_wakeable:
  "sem_waiters s = t # ts \<Longrightarrow> wakeable k t \<Longrightarrow>
    rt_sem_release s k = (RT_EOK, s\<lparr>sem_waiters := ts\<rparr>, woken t RT_EOK k)"
  by (simp add: rt_sem_release_def)

lemma sem_release_n_wakes:
  "distinct (sem_waiters s) \<Longrightarrow> \<forall>t\<in>set (sem_waiters s). wakeable k t \<Longrightarrow>
    n \<le> length (sem_waiters s) \<Longrightarrow>
    sem_release_n n s k =
      (s\<lparr>sem_waiters := drop n (sem_waiters s)\<rparr>,
       fold (\<lambda>t. woken t RT_EOK) (take n (sem_waiters s)) k)"
proof (induction n arbitrary: s k)
  case (Suc n)
  then obtain t ts where ws: "sem_waiters s = t # ts" by (cases "sem_waiters s") auto
  with Suc.prems have "wakeable (woken t RT_EOK k) u" if "u \<in> set ts" for u
    using that wakeable_woken [of u t RT_EOK k] by fastforce
  with Suc ws show ?case by (simp add: release_wakeable)
qed simp

section \<open>Properties\<close>


definition idle_thread :: "byte \<Rightarrow> thread_stat \<Rightarrow> rt_thread" where
  "idle_thread p st = \<lparr>current_priority = p, thread_error = 0, stat = st,
     sched_flag_ttmr_set = False, timer_activated = False, init_tick = 0\<rparr>"

definition two_threads :: rt_kernel where
  "two_threads = \<lparr>rt_current_thread = 1,
     threads = (\<lambda>t. if t = 1 then idle_thread 9 RT_THREAD_RUNNING else idle_thread 8 RT_THREAD_READY)\<rparr>"


text \<open>
  Releases wake waiters from the front of the list and lose none: after \<open>n\<close> releases on a
  semaphore with at least \<open>n\<close> waiters, none of whose timers has expired, exactly the first
  \<open>n\<close> are ready and their rt_sem_take returns RT_EOK, the others are untouched, the value
  did not change, and with RT_IPC_FLAG_PRIO no thread was passed over by one of lower
  priority.
\<close>

theorem sem_releases_wake_in_order:
  assumes "sem_inv s k" and "\<forall>t\<in>set (sem_waiters s). wakeable k t"
    and "n \<le> length (sem_waiters s)" and "sem_release_n n s k = (s', k')"
  shows "sem_waiters s' = drop n (sem_waiters s) \<and> sem_value s' = sem_value s \<and>
    (\<forall>t\<in>set (take n (sem_waiters s)).
       \<not> rt_sched_thread_is_suspended k' t \<and> sem_take_resumed (threads k' t) = RT_EOK) \<and>
    (\<forall>t\<in>set (drop n (sem_waiters s)). threads k' t = threads k t) \<and>
    (sem_flag s = RT_IPC_FLAG_PRIO \<longrightarrow>
       (\<forall>a\<in>set (take n (sem_waiters s)). \<forall>b\<in>set (drop n (sem_waiters s)). prio k a \<le> prio k b))"
proof -
  let ?ws = "sem_waiters s"
  have d: "distinct ?ws" and sorted: "sem_flag s = RT_IPC_FLAG_PRIO \<Longrightarrow> prio_sorted k ?ws"
    using assms(1) by (simp_all add: sem_inv_def)
  have res: "s' = s\<lparr>sem_waiters := drop n ?ws\<rparr>" "k' = fold (\<lambda>t. woken t RT_EOK) (take n ?ws) k"
    using sem_release_n_wakes [OF d assms(2,3)] assms(4) by auto
  have "threads k' t = threads k t" if "t \<in> set (drop n ?ws)" for t
    unfolding res by (rule threads_fold_woken)
      (use that set_take_disj_set_drop_if_distinct [OF d order_refl, of n] in auto)
  moreover have "prio k a \<le> prio k b"
    if "sem_flag s = RT_IPC_FLAG_PRIO" "a \<in> set (take n ?ws)" "b \<in> set (drop n ?ws)" for a b
    using sorted [OF that(1)] that(2,3) append_take_drop_id [of n ?ws]
    unfolding prio_sorted_def by (metis sorted_wrt_append)
  ultimately show ?thesis
    using fold_woken_released [of "take n ?ws" _ RT_EOK k] d
    by (auto simp: res sem_take_resumed_def RT_EOK_def)
qed

text \<open>
  A release in the window between the expiry of the first waiter's timer and its timeout
  callback (the timer lock is dropped there) is lost: it returns RT_EOK, yet wakes nobody and
  leaves the value alone.  It also clears the thread's timer flag, so a second release makes
  the thread ready, and the pending callback then fails its assertion and stops the system.
\<close>

theorem sem_release_expired_waiter_lost:
  assumes "sem_waiters s = t # ts" and "rt_sched_thread_is_suspended k t"
    and "sched_flag_ttmr_set (threads k t)" and "\<not> timer_activated (threads k t)"
    and "rt_sem_release s k = (r1, s1, k1)" and "rt_sem_release s1 k1 = (r2, s2, k2)"
  shows "r1 = RT_EOK \<and> s1 = s \<and> rt_sched_thread_is_suspended k1 t \<and>
    r2 = RT_EOK \<and> sem_waiters s2 = ts \<and> thread_timeout t (sem_waiters s2) k2 = None"
proof -
  have nw: "\<not> wakeable k t" using assms(3,4) by (simp add: wakeable_def)
  let ?k1 = "upd_thread t (\<lambda>th. th\<lparr>sched_flag_ttmr_set := False\<rparr>) k"
  from assms(2) have "rt_susp_list_dequeue (t # ts) RT_EOK k = (None, t # ts, ?k1)"
    by (rule dequeue_cases) (use nw in simp_all)
  then have r1: "r1 = RT_EOK" "s1 = s" "k1 = ?k1"
    using assms(1,5) by (auto simp: rt_sem_release_def)
  have "wakeable ?k1 t" using assms(2) by (simp add: wakeable_def)
  then have r2: "r2 = RT_EOK" "s2 = s\<lparr>sem_waiters := ts\<rparr>" "k2 = woken t RT_EOK ?k1"
    using assms(1,6) r1 by (simp_all add: release_wakeable)
  then show ?thesis
    using r1 assms(2) by (simp add: thread_timeout_def woken_def rt_sched_thread_is_suspended_def)
qed

text \<open>Two waiters: thread 2 (priority 8, timed, its timer active or expired) and thread 1.\<close>

definition waiting_sem :: rt_semaphore where
  "waiting_sem = \<lparr>sem_value = 0, sem_max_value = 65535, sem_flag = RT_IPC_FLAG_PRIO,
     sem_waiters = [2, 1]\<rparr>"

definition waiting_pair :: "bool \<Rightarrow> rt_kernel" where
  "waiting_pair active = \<lparr>rt_current_thread = 0, threads = (\<lambda>t.
     if t = 2 then (idle_thread 8 (Suspended RT_UNINTERRUPTIBLE))
                     \<lparr>sched_flag_ttmr_set := True, timer_activated := active\<rparr>
     else idle_thread 9 (if t = 1 then Suspended RT_UNINTERRUPTIBLE else RT_THREAD_RUNNING))\<rparr>"

lemma waiting_pair_facts:
  "sem_inv waiting_sem (waiting_pair b)"
  "\<forall>t\<in>set (sem_waiters waiting_sem). wakeable (waiting_pair True) t"
  "rt_sched_thread_is_suspended (waiting_pair b) 2"
  "sched_flag_ttmr_set (threads (waiting_pair b) 2)"
  "\<not> timer_activated (threads (waiting_pair False) 2)"
  by (simp_all add: waiting_sem_def waiting_pair_def idle_thread_def sem_inv_def prio_sorted_def
      wakeable_def rt_sched_thread_is_suspended_def)

lemma sem_releases_wake_in_order_witness:
  "sem_waiters (fst (sem_release_n 1 waiting_sem (waiting_pair True))) = [1] \<and>
   sem_take_resumed (threads (snd (sem_release_n 1 waiting_sem (waiting_pair True))) 2) = RT_EOK"
proof -
  obtain s' k' where r: "sem_release_n 1 waiting_sem (waiting_pair True) = (s', k')"
    by (cases "sem_release_n 1 waiting_sem (waiting_pair True)")
  have "1 \<le> length (sem_waiters waiting_sem)" by (simp add: waiting_sem_def)
  from sem_releases_wake_in_order [OF waiting_pair_facts(1,2) this r]
  show ?thesis unfolding r by (simp add: waiting_sem_def)
qed

lemma sem_release_expired_waiter_lost_witness:
  "\<exists>s2 k1 k2. rt_sem_release waiting_sem (waiting_pair False) = (RT_EOK, waiting_sem, k1) \<and>
    rt_sem_release waiting_sem k1 = (RT_EOK, s2, k2) \<and>
    thread_timeout 2 (sem_waiters s2) k2 = None"
proof -
  obtain r1 s1 k1 where 1: "rt_sem_release waiting_sem (waiting_pair False) = (r1, s1, k1)"
    by (cases "rt_sem_release waiting_sem (waiting_pair False)")
  obtain r2 s2 k2 where 2: "rt_sem_release s1 k1 = (r2, s2, k2)"
    by (cases "rt_sem_release s1 k1")
  have "sem_waiters waiting_sem = 2 # [1]" by (simp add: waiting_sem_def)
  from sem_release_expired_waiter_lost [OF this waiting_pair_facts(3-5) 1 2] 1 2
  show ?thesis by auto
qed

end
