(* ===== verification/Ipc_Event.thy ===== *)
theory Ipc_Event
  imports Ipc_Sem
begin

text \<open>
  The event object of rt-thread/src/ipc.c (lines 1808 to 2318), through which wlh_app.c
  hands transport resets to its link-control thread.  An event is 32 flags; a thread waits
  for all (AND) or any (OR) flags of a set and may have them cleared when it gets them.  As
  for the semaphore, a receive that waits is split where the code calls rt_schedule:
  \<open>event_recv_resumed\<close> is what the thread does when it runs again.  The last sections
  compare rt_event_send with a direct description and run sequences of calls.
\<close>

section \<open>State\<close>

definition RT_EVENT_FLAG_AND :: byte where "RT_EVENT_FLAG_AND = 0x01"
definition RT_EVENT_FLAG_OR :: byte where "RT_EVENT_FLAG_OR = 0x02"
definition RT_EVENT_FLAG_CLEAR :: byte where "RT_EVENT_FLAG_CLEAR = 0x04"

record rt_event =
  ev_set :: u32
  ev_flag :: ipc_flag
  ev_waiters :: "tid list"

text \<open>The two members of struct rt_thread that only events use, kept beside the thread.\<close>

record thread_event =
  event_set :: u32
  event_info :: byte

record ev_state =
  ev_obj :: rt_event
  ev_wait :: "tid \<Rightarrow> thread_event"
  ev_kernel :: rt_kernel

abbreviation ev_waiting :: "ev_state \<Rightarrow> tid list" where
  "ev_waiting y \<equiv> ev_waiters (ev_obj y)"

abbreviation ev_bits :: "ev_state \<Rightarrow> u32" where
  "ev_bits y \<equiv> ev_set (ev_obj y)"

section \<open>Operations\<close>

definition rt_event_init :: "ipc_flag \<Rightarrow> rt_event" where
  "rt_event_init flag = \<lparr>ev_set = 0, ev_flag = flag, ev_waiters = []\<rparr>"

text \<open>rt_event_create: \<open>alloc_ok\<close> is whether rt_object_allocate returned an object.\<close>

definition rt_event_create :: "bool \<Rightarrow> ipc_flag \<Rightarrow> rt_event option" where
  "rt_event_create alloc_ok flag =
    (if alloc_ok then Some \<lparr>ev_set = 0, ev_flag = flag, ev_waiters = []\<rparr> else None)"

definition rt_event_detach :: "ev_state \<Rightarrow> tid list \<times> rt_kernel" where
  "rt_event_detach y = rt_susp_list_resume_all (ev_waiting y) RT_ERROR (ev_kernel y)"

definition rt_event_delete :: "ev_state \<Rightarrow> tid list \<times> rt_kernel" where
  "rt_event_delete y = rt_susp_list_resume_all (ev_waiting y) RT_ERROR (ev_kernel y)"

text \<open>
  The wake of one waiter in rt_event_send: the result of rt_sched_thread_ready is ignored,
  the node leaves the list only when it succeeds.
\<close>

definition event_wake :: "tid \<Rightarrow> ev_state \<Rightarrow> ev_state" where
  "event_wake t y =
    (case rt_sched_thread_ready t (ev_waiting y) (ev_kernel y) of
       (ws, k, _) \<Rightarrow> y\<lparr>ev_obj := (ev_obj y)\<lparr>ev_waiters := ws\<rparr>,
         ev_kernel := upd_thread t (\<lambda>th. th\<lparr>thread_error := RT_EOK\<rparr>) k\<rparr>)"

definition event_clear :: "thread_event \<Rightarrow> u32 \<Rightarrow> u32" where
  "event_clear w clr =
    (if event_info w AND RT_EVENT_FLAG_CLEAR \<noteq> 0 then clr OR event_set w else clr)"

text \<open>
  The loop of rt_event_send over the nodes of the list as it was at the start.  The first
  component is False when the loop is left with -RT_EINVAL.
\<close>

fun event_send_loop :: "tid list \<Rightarrow> u32 \<Rightarrow> ev_state \<Rightarrow> bool \<times> u32 \<times> ev_state" where
  "event_send_loop [] clr y = (True, clr, y)"
| "event_send_loop (t # ns) clr y =
    (let w = ev_wait y t
     in if event_info w AND RT_EVENT_FLAG_AND \<noteq> 0
        then if event_set w AND ev_bits y = event_set w
             then event_send_loop ns (event_clear w clr) (event_wake t y)
             else event_send_loop ns clr y
        else if event_info w AND RT_EVENT_FLAG_OR \<noteq> 0
        then if event_set w AND ev_bits y \<noteq> 0
             then (let w' = w\<lparr>event_set := event_set w AND ev_bits y\<rparr>
                   in event_send_loop ns (event_clear w' clr)
                        (event_wake t (y\<lparr>ev_wait := (ev_wait y)(t := w')\<rparr>)))
             else event_send_loop ns clr y
        else (False, clr, y))"

definition rt_event_send :: "u32 \<Rightarrow> ev_state \<Rightarrow> int \<times> ev_state" where
  "rt_event_send want y =
    (if want = 0 then (- RT_ERROR, y)
     else
      (let y1 = y\<lparr>ev_obj := (ev_obj y)\<lparr>ev_set := ev_bits y OR want\<rparr>\<rparr>
       in case event_send_loop (ev_waiting y1) 0 y1 of
            (ok, clr, y2) \<Rightarrow>
              if \<not> ok then (- RT_EINVAL, y2)
              else if clr \<noteq> 0
              then (RT_EOK, y2\<lparr>ev_obj := (ev_obj y2)\<lparr>ev_set := ev_bits y2 AND NOT clr\<rparr>\<rparr>)
              else (RT_EOK, y2)))"

text \<open>The test of _rt_event_recv, once one of the two flags is known to be there.\<close>

definition event_available :: "byte \<Rightarrow> u32 \<Rightarrow> u32 \<Rightarrow> bool" where
  "event_available option want bits =
    (if option AND RT_EVENT_FLAG_AND \<noteq> 0 then bits AND want = want else bits AND want \<noteq> 0)"

definition event_option_ok :: "byte \<Rightarrow> bool" where
  "event_option_ok option \<longleftrightarrow>
    option AND RT_EVENT_FLAG_AND \<noteq> 0 \<or> option AND RT_EVENT_FLAG_OR \<noteq> 0"

text \<open>
  The second component is what is stored through \<open>recved\<close>, \<open>None\<close> when the call returns
  without storing.
\<close>

definition event_recv_main ::
    "u32 \<Rightarrow> byte \<Rightarrow> int \<Rightarrow> suspend_flag \<Rightarrow> ev_state \<Rightarrow> ipc_outcome \<times> u32 option \<times> ev_state" where
  "event_recv_main want option timeout sf y =
    (if want = 0 then (Returned (- RT_ERROR), None, y)
     else
      (let t = rt_current_thread (ev_kernel y);
           e = ev_obj y;
           k1 = upd_thread t (\<lambda>th. th\<lparr>thread_error := - RT_EINTR\<rparr>) (ev_kernel y)
       in if \<not> event_option_ok option then (Halted, None, y\<lparr>ev_kernel := k1\<rparr>)
          else if event_available option want (ev_set e)
          then (Returned RT_EOK, Some (ev_set e AND want),
                y\<lparr>ev_kernel := upd_thread t (\<lambda>th. th\<lparr>thread_error := RT_EOK\<rparr>) k1,
                  ev_wait := (ev_wait y)
                    (t := \<lparr>event_set = ev_set e AND want, event_info = option\<rparr>),
                  ev_obj := (if option AND RT_EVENT_FLAG_CLEAR \<noteq> 0
                             then e\<lparr>ev_set := ev_set e AND NOT want\<rparr> else e)\<rparr>)
          else if timeout = 0
          then (Returned (- RT_ETIMEOUT), None,
                y\<lparr>ev_kernel := upd_thread t (\<lambda>th. th\<lparr>thread_error := - RT_ETIMEOUT\<rparr>) k1\<rparr>)
          else
           (let y1 = y\<lparr>ev_wait := (ev_wait y)(t := \<lparr>event_set = want, event_info = option\<rparr>)\<rparr>
            in case rt_thread_suspend_to_list t (ev_waiters e) (ev_flag e) sf k1 of
                 (ws, k2, ret) \<Rightarrow>
                   (let y2 = y1\<lparr>ev_obj := e\<lparr>ev_waiters := ws\<rparr>, ev_kernel := k2\<rparr>
                    in if ret \<noteq> RT_EOK then (Returned ret, None, y2)
                       else if timeout > 0
                       then (if timeout < 0x7FFFFFFF
                             then (Blocked, None,
                                   y2\<lparr>ev_kernel := thread_timer_start t (word_of_int timeout) k2\<rparr>)
                             else (Halted, None, y2))
                       else (Blocked, None, y2)))))"

definition event_recv_resumed :: "tid \<Rightarrow> ev_state \<Rightarrow> int \<times> u32 option" where
  "event_recv_resumed t y =
    (let err = thread_error (threads (ev_kernel y) t)
     in if err \<noteq> RT_EOK then (err, None) else (err, Some (event_set (ev_wait y t))))"

definition rt_event_recv :: "u32 \<Rightarrow> byte \<Rightarrow> int \<Rightarrow> ev_state \<Rightarrow> ipc_outcome \<times> u32 option \<times> ev_state" where
  "rt_event_recv want option timeout = event_recv_main want option timeout RT_UNINTERRUPTIBLE"

definition rt_event_recv_interruptible ::
    "u32 \<Rightarrow> byte \<Rightarrow> int \<Rightarrow> ev_state \<Rightarrow> ipc_outcome \<times> u32 option \<times> ev_state" where
  "rt_event_recv_interruptible want option timeout = event_recv_main want option timeout RT_INTERRUPTIBLE"

definition rt_event_recv_killable ::
    "u32 \<Rightarrow> byte \<Rightarrow> int \<Rightarrow> ev_state \<Rightarrow> ipc_outcome \<times> u32 option \<times> ev_state" where
  "rt_event_recv_killable want option timeout = event_recv_main want option timeout RT_KILLABLE"

definition rt_event_control :: "ipc_cmd \<Rightarrow> ev_state \<Rightarrow> int \<times> ev_state" where
  "rt_event_control cmd y =
    (if cmd = RT_IPC_CMD_RESET
     then (case rt_susp_list_resume_all (ev_waiting y) RT_ERROR (ev_kernel y) of
             (ws, k) \<Rightarrow> (RT_EOK, y\<lparr>ev_obj := (ev_obj y)\<lparr>ev_waiters := ws, ev_set := 0\<rparr>,
                                   ev_kernel := k\<rparr>))
     else (- RT_ERROR, y))"


section \<open>A direct description of rt_event_send\<close>

text \<open>
  A waiter is \<open>event_due\<close> when the flags satisfy it.  The description says for every waiter
  at once what the loop does one node at a time.
\<close>

definition event_due :: "ev_state \<Rightarrow> tid \<Rightarrow> bool" where
  "event_due y t = event_available (event_info (ev_wait y t)) (event_set (ev_wait y t)) (ev_bits y)"

definition event_got :: "ev_state \<Rightarrow> tid \<Rightarrow> thread_event" where
  "event_got y t = (ev_wait y t)\<lparr>event_set := event_set (ev_wait y t) AND ev_bits y\<rparr>"

definition event_deliver :: "tid list \<Rightarrow> ev_state \<Rightarrow> ev_state" where
  "event_deliver ts y =
    y\<lparr>ev_obj := (ev_obj y)\<lparr>ev_waiters := filter (\<lambda>t. t \<notin> set ts) (ev_waiting y)\<rparr>,
      ev_wait := (\<lambda>t. if t \<in> set ts then event_got y t else ev_wait y t),
      ev_kernel := fold (\<lambda>t. woken t RT_EOK) ts (ev_kernel y)\<rparr>"

definition event_cleared :: "tid list \<Rightarrow> ev_state \<Rightarrow> u32 \<Rightarrow> u32" where
  "event_cleared ts y clr = fold (\<lambda>t. event_clear (event_got y t)) ts clr"

definition event_send_spec :: "u32 \<Rightarrow> ev_state \<Rightarrow> ev_state" where
  "event_send_spec want y =
    (let y1 = y\<lparr>ev_obj := (ev_obj y)\<lparr>ev_set := ev_bits y OR want\<rparr>\<rparr>;
         due = filter (event_due y1) (ev_waiting y);
         y2 = event_deliver due y1
     in y2\<lparr>ev_obj := (ev_obj y2)\<lparr>ev_set := ev_bits y2 AND NOT (event_cleared due y1 0)\<rparr>\<rparr>)"

lemma event_wake_wakeable:
  assumes "wakeable (ev_kernel y) t"
  shows "event_wake t y = y\<lparr>ev_obj := (ev_obj y)\<lparr>ev_waiters := remove1 t (ev_waiting y)\<rparr>,
    ev_kernel := woken t RT_EOK (ev_kernel y)\<rparr>"
  using thread_ready_wakeable [OF assms, of "ev_waiting y"]
  by (auto simp: event_wake_def)

lemma event_state_eqI:
  "ev_obj y = ev_obj z \<Longrightarrow> (\<And>t. ev_wait y t = ev_wait z t) \<Longrightarrow> ev_kernel y = ev_kernel z \<Longrightarrow>
    (y :: ev_state) = z"
  by (cases y, cases z) auto

lemma deliver_frame [simp]:
  "ev_bits (event_deliver ts y) = ev_bits y"
  "ev_kernel (event_deliver ts y) = fold (\<lambda>t. woken t RT_EOK) ts (ev_kernel y)"
  "ev_flag (ev_obj (event_deliver ts y)) = ev_flag (ev_obj y)"
  "ev_waiting (event_deliver ts y) = filter (\<lambda>t. t \<notin> set ts) (ev_waiting y)"
  "u \<notin> set ts \<Longrightarrow> ev_wait (event_deliver ts y) u = ev_wait y u"
  by (simp_all add: event_deliver_def)

text \<open>One iteration: a waiter that is due is delivered, one that is not is passed over.\<close>

lemma event_send_loop_step:
  assumes "event_option_ok (event_info (ev_wait y t))" "wakeable (ev_kernel y) t"
    "distinct (ev_waiting y)"
  shows "event_send_loop (t # ns) clr y =
    (if event_due y t
     then event_send_loop ns (event_clear (event_got y t) clr) (event_deliver [t] y)
     else event_send_loop ns clr y)"
proof -
  have rem: "remove1 t (ev_waiting y) = filter (\<lambda>u. u \<noteq> t) (ev_waiting y)"
    using assms(3) by (simp add: distinct_remove1_removeAll removeAll_filter_not_eq) metis
  let ?y = "y\<lparr>ev_wait := (ev_wait y)(t := event_got y t)\<rparr>"
  have "wakeable (ev_kernel ?y) t" using assms(2) by simp
  note w = event_wake_wakeable [OF this] event_wake_wakeable [OF assms(2)]
  have 1: "event_wake t ?y = event_deliver [t] y"
    by (rule event_state_eqI) (auto simp: w event_deliver_def rem)
  have 2: "event_wake t y = event_deliver [t] y" if "event_set (ev_wait y t) AND ev_bits y = event_set (ev_wait y t)"
    using that by (intro event_state_eqI) (auto simp: w event_deliver_def rem event_got_def)
  have 3: "event_clear (ev_wait y t) clr = event_clear (event_got y t) clr"
    if "event_set (ev_wait y t) AND ev_bits y = event_set (ev_wait y t)"
    using that by (simp add: event_clear_def event_got_def)
  show ?thesis
    using assms(1) 1 2 3
    by (simp add: Let_def event_due_def event_available_def event_option_ok_def
        event_got_def [symmetric] and.commute [of "ev_bits y"])
qed

lemma deliver_append:
  "event_deliver ts (event_deliver [t] y) = event_deliver (t # ts) y"
  if "t \<notin> set ts" for t ts y
  using that
  by (intro event_state_eqI) (auto simp: event_deliver_def event_got_def intro!: filter_cong)

lemma event_got_deliver: "u \<noteq> t \<Longrightarrow> event_got (event_deliver [t] y) u = event_got y u"
  by (simp add: event_got_def)

lemma event_due_deliver: "u \<noteq> t \<Longrightarrow> event_due (event_deliver [t] y) u = event_due y u"
  by (simp add: event_due_def)

lemma event_send_loop_eq:
  "distinct ns \<Longrightarrow> distinct (ev_waiting y) \<Longrightarrow> \<forall>t\<in>set ns. wakeable (ev_kernel y) t \<Longrightarrow>
    \<forall>t\<in>set ns. event_option_ok (event_info (ev_wait y t)) \<Longrightarrow>
    event_send_loop ns clr y =
      (True, event_cleared (filter (event_due y) ns) y clr, event_deliver (filter (event_due y) ns) y)"
proof (induction ns arbitrary: clr y)
  case Nil
  show ?case by (simp add: event_cleared_def) (rule event_state_eqI; simp add: event_deliver_def)
next
  case (Cons t ns)
  have neq: "u \<noteq> t" if "u \<in> set ns" for u using Cons.prems(1) that by auto
  let ?z = "event_deliver [t] y"
  have fil: "filter (event_due ?z) ns = filter (event_due y) ns"
    by (rule filter_cong) (simp_all add: neq event_due_deliver)
  have clr: "event_cleared (filter (event_due y) ns) ?z c = event_cleared (filter (event_due y) ns) y c" for c
    unfolding event_cleared_def
    by (rule fold_cong) (auto simp: event_got_deliver neq)
  have "event_send_loop ns c ?z =
      (True, event_cleared (filter (event_due y) ns) y c, event_deliver (filter (event_due y) ns) ?z)" for c
    using Cons.IH [of ?z c] Cons.prems by (simp add: fil clr neq)
  moreover have "event_deliver (filter (event_due y) ns) ?z = event_deliver (t # filter (event_due y) ns) y"
    by (rule deliver_append) (use neq in auto)
  moreover have "event_send_loop (t # ns) clr y =
      (if event_due y t
       then event_send_loop ns (event_clear (event_got y t) clr) ?z
       else event_send_loop ns clr y)"
    by (rule event_send_loop_step) (use Cons.prems in auto)
  ultimately show ?case
    using Cons.IH [of y clr] Cons.prems by (simp add: event_cleared_def)
qed

section \<open>Invariant\<close>

text \<open>
  Threads that no expiry is in flight for: each waits once, for a proper set with a proper
  option, for something the flags do not give it now, and in priority order.
\<close>

definition event_inv :: "ev_state \<Rightarrow> bool" where
  "event_inv y \<longleftrightarrow>
    distinct (ev_waiting y) \<and>
    (\<forall>t\<in>set (ev_waiting y). wakeable (ev_kernel y) t \<and>
       event_option_ok (event_info (ev_wait y t)) \<and> \<not> event_due y t) \<and>
    (ev_flag (ev_obj y) = RT_IPC_FLAG_PRIO \<longrightarrow> prio_sorted (ev_kernel y) (ev_waiting y))"

lemma event_available_mono:
  "event_available option want (b AND NOT c) \<Longrightarrow> event_available option want b"
  unfolding event_available_def
  by (auto simp: bit_eq_iff bit_simps split: if_splits)

lemma prio_fold_woken [simp]: "prio (fold (\<lambda>t. woken t e) ts k) u = prio k u"
  by (induction ts arbitrary: k) simp_all

text \<open>rt_event_send does what the description says, in every state of the invariant.\<close>

lemma event_send_eq_spec:
  assumes "event_inv y" "want \<noteq> 0"
  shows "rt_event_send want y = (RT_EOK, event_send_spec want y)"
proof -
  let ?y1 = "y\<lparr>ev_obj := (ev_obj y)\<lparr>ev_set := ev_bits y OR want\<rparr>\<rparr>"
  have "event_send_loop (ev_waiting ?y1) 0 ?y1 =
      (True, event_cleared (filter (event_due ?y1) (ev_waiting ?y1)) ?y1 0,
       event_deliver (filter (event_due ?y1) (ev_waiting ?y1)) ?y1)"
    by (rule event_send_loop_eq) (use assms(1) in \<open>auto simp: event_inv_def\<close>)
  then show ?thesis
    using assms(2)
    by (simp add: rt_event_send_def event_send_spec_def Let_def)
qed

lemma event_inv_send:
  assumes inv: "event_inv y" and send: "rt_event_send want y = (r, y')"
  shows "event_inv y'"
proof (cases "want = 0")
  case True
  with assms show ?thesis by (simp add: rt_event_send_def)
next
  case False
  define y1 where "y1 = y\<lparr>ev_obj := (ev_obj y)\<lparr>ev_set := ev_bits y OR want\<rparr>\<rparr>"
  define due where "due = filter (event_due y1) (ev_waiting y)"
  have y': "y' = event_send_spec want y"
    using send event_send_eq_spec [OF inv False] by simp
  have ws: "ev_waiting y' = filter (\<lambda>t. \<not> event_due y1 t) (ev_waiting y)"
    by (auto simp: y' event_send_spec_def Let_def y1_def due_def intro!: filter_cong)
  have k: "ev_kernel y' = fold (\<lambda>t. woken t RT_EOK) due (ev_kernel y)"
    by (simp add: y' event_send_spec_def Let_def y1_def due_def)
  have keep: "wakeable (ev_kernel y') t = wakeable (ev_kernel y) t"
    "ev_wait y' t = ev_wait y t" "\<not> event_due y' t" if "t \<in> set (ev_waiting y')" for t
  proof -
    have t: "t \<notin> set due" "\<not> event_due y1 t" using that by (auto simp: ws due_def)
    show "wakeable (ev_kernel y') t = wakeable (ev_kernel y) t"
      unfolding k by (rule wakeable_fold_woken) (rule t)
    show w: "ev_wait y' t = ev_wait y t"
      using t by (simp add: y' event_send_spec_def Let_def y1_def due_def)
    have "ev_bits y' = ev_bits y1 AND NOT (event_cleared due y1 0)"
      by (simp add: y' event_send_spec_def Let_def y1_def due_def)
    then show "\<not> event_due y' t"
      using t(2) w event_available_mono by (auto simp: event_due_def y1_def)
  qed
  have sorted: "prio_sorted (ev_kernel y') ts = prio_sorted (ev_kernel y) ts" for ts
    by (rule prio_sorted_cong) (simp add: k)
  have flag: "ev_flag (ev_obj y') = ev_flag (ev_obj y)"
    by (simp add: y' event_send_spec_def Let_def)
  show ?thesis
    using inv keep unfolding event_inv_def flag sorted
    by (auto simp: ws prio_sorted_filter)
qed

text \<open>A receive by the running thread.\<close>

lemma event_inv_frame:
  assumes "event_inv y" "ev_obj y' = ev_obj y" "\<And>u. u \<in> set (ev_waiting y) \<Longrightarrow> ev_wait y' u = ev_wait y u"
    "\<And>u. u \<in> set (ev_waiting y) \<Longrightarrow> wakeable (ev_kernel y) u \<Longrightarrow> wakeable (ev_kernel y') u"
    "\<And>u. prio (ev_kernel y') u = prio (ev_kernel y) u"
  shows "event_inv y'"
proof -
  have "prio_sorted (ev_kernel y') ts = prio_sorted (ev_kernel y) ts" for ts
    by (rule prio_sorted_cong) (rule assms(5))
  then show ?thesis using assms(1-4) by (auto simp: event_inv_def event_due_def)
qed

lemma event_inv_clear:
  assumes "event_inv y"
  shows "event_inv (y\<lparr>ev_obj := (ev_obj y)\<lparr>ev_set := ev_bits y AND NOT c\<rparr>\<rparr>)"
  using assms event_available_mono by (auto simp: event_inv_def event_due_def)


lemma event_inv_recv:
  assumes inv: "event_inv y"
    and run: "stat (threads (ev_kernel y) (rt_current_thread (ev_kernel y))) = RT_THREAD_RUNNING"
    and recv: "event_recv_main want option timeout sf y = (out, r, y')" "out \<noteq> Halted"
  shows "event_inv y'"
proof -
  let ?t = "rt_current_thread (ev_kernel y)"
  let ?err = "\<lambda>e. upd_thread ?t (\<lambda>th. th\<lparr>thread_error := e\<rparr>)"
  let ?k1 = "?err (- RT_EINTR) (ev_kernel y)"
  have notin: "?t \<notin> set (ev_waiting y)"
    using inv run by (auto simp: event_inv_def wakeable_def rt_sched_thread_is_suspended_def)
  consider "want = 0" | "want \<noteq> 0" "\<not> event_option_ok option"
    | "want \<noteq> 0" "event_option_ok option" "event_available option want (ev_bits y)"
    | "want \<noteq> 0" "event_option_ok option" "\<not> event_available option want (ev_bits y)" "timeout = 0"
    | "want \<noteq> 0" "event_option_ok option" "\<not> event_available option want (ev_bits y)" "timeout \<noteq> 0"
    by blast
  then show ?thesis
  proof cases
    case 3
    let ?y1 = "y\<lparr>ev_kernel := ?err RT_EOK ?k1,
      ev_wait := (ev_wait y)(?t := \<lparr>event_set = ev_bits y AND want, event_info = option\<rparr>)\<rparr>"
    have y1: "event_inv ?y1"
      by (rule event_inv_frame [OF inv]) (use notin in auto)
    show ?thesis
      using recv 3 y1 event_inv_clear [OF y1, of want]
      by (auto simp: event_recv_main_def Let_def split: if_splits)
  next
    case 4
    have "event_inv (y\<lparr>ev_kernel := ?err (- RT_ETIMEOUT) ?k1\<rparr>)"
      by (rule event_inv_frame [OF inv]) auto
    with recv 4 show ?thesis by (simp add: event_recv_main_def Let_def)
  next
    case 5
    obtain ws k2 ret where susp:
      "rt_thread_suspend_to_list ?t (ev_waiting y) (ev_flag (ev_obj y)) sf ?k1 = (ws, k2, ret)"
      by (cases "rt_thread_suspend_to_list ?t (ev_waiting y) (ev_flag (ev_obj y)) sf ?k1")
    have r: "stat (threads ?k1 ?t) \<in> {RT_THREAD_RUNNING, RT_THREAD_READY}" using run by simp
    note sr = suspend_running [OF r susp]
    note wk = suspend_wakeable [OF r susp]
    let ?w = "(ev_wait y)(?t := \<lparr>event_set = want, event_info = option\<rparr>)"
    have set_ws: "set ws = insert ?t (set (ev_waiting y))" "distinct ws"
      using inv notin by (auto simp: sr(2) event_inv_def rt_susp_list_enqueue_def split: ipc_flag.splits)
    have base: "event_inv (y\<lparr>ev_wait := ?w, ev_obj := (ev_obj y)\<lparr>ev_waiters := ws\<rparr>, ev_kernel := k3\<rparr>)"
      if k3: "\<And>u. wakeable k3 u = (u = ?t \<or> wakeable ?k1 u)" "\<And>u. prio k3 u = prio ?k1 u" for k3
    proof -
      have "prio_sorted k3 ts = prio_sorted ?k1 ts" for ts
        by (rule prio_sorted_cong) (rule k3(2))
      moreover have "prio_sorted ?k1 ts = prio_sorted (ev_kernel y) ts" for ts
        by (rule prio_sorted_cong) simp
      ultimately have "prio_sorted k3 ws" if "ev_flag (ev_obj y) = RT_IPC_FLAG_PRIO"
        using inv that prio_sorted_insert [of ?k1 "ev_waiting y" ?t]
        by (simp add: event_inv_def sr(2) rt_susp_list_enqueue_def)
      then show ?thesis
        using inv 5 notin set_ws k3(1)
        by (auto simp: event_inv_def event_due_def)
    qed
    have "event_inv (y\<lparr>ev_wait := ?w, ev_obj := (ev_obj y)\<lparr>ev_waiters := ws\<rparr>, ev_kernel := k2\<rparr>)"
      by (rule base) (simp_all add: wk(1) sr(4))
    moreover have "event_inv (y\<lparr>ev_wait := ?w, ev_obj := (ev_obj y)\<lparr>ev_waiters := ws\<rparr>,
        ev_kernel := thread_timer_start ?t tick k2\<rparr>)" for tick
      by (rule base) (simp_all add: wk(2) sr(4))
    ultimately show ?thesis
      using recv 5 sr(1)
      by (auto simp: event_recv_main_def Let_def susp split: if_splits)
  qed (use inv recv in \<open>simp_all add: event_recv_main_def Let_def\<close>)
qed


lemma event_inv_no_waiters: "ev_waiting y = [] \<Longrightarrow> event_inv y"
  by (simp add: event_inv_def prio_sorted_def)

lemma event_reset_empties:
  assumes "event_inv y" "rt_event_control cmd y = (r, y')"
  shows "(cmd = RT_IPC_CMD_RESET \<and> r = RT_EOK \<and> ev_waiting y' = [] \<and> ev_bits y' = 0 \<and>
      ev_kernel y' = fold (\<lambda>t. woken t RT_ERROR) (ev_waiting y) (ev_kernel y)) \<or>
    (cmd \<noteq> RT_IPC_CMD_RESET \<and> r = - RT_ERROR \<and> y' = y)"
proof -
  have "rt_susp_list_resume_all (ev_waiting y) RT_ERROR (ev_kernel y) =
      ([], fold (\<lambda>t. woken t RT_ERROR) (ev_waiting y) (ev_kernel y))"
    by (rule resume_all_wakeable) (use assms(1) in \<open>auto simp: event_inv_def\<close>)
  then show ?thesis using assms(2) by (auto simp: rt_event_control_def split: if_splits)
qed

lemma event_inv_control:
  "event_inv y \<Longrightarrow> rt_event_control cmd y = (r, y') \<Longrightarrow> event_inv y'"
  using event_reset_empties [of y cmd r y'] event_inv_no_waiters by fastforce

lemma event_inv_timeout:
  assumes inv: "event_inv y" and to: "thread_timeout t (ev_waiting y) (timer_expire t (ev_kernel y)) = Some (ws, k')"
  shows "event_inv (y\<lparr>ev_obj := (ev_obj y)\<lparr>ev_waiters := ws\<rparr>, ev_kernel := k'\<rparr>)"
proof -
  have ws: "ws = remove1 t (ev_waiting y)"
    and k': "k' = rt_sched_insert_thread t (upd_thread t (\<lambda>th. th\<lparr>thread_error := - RT_ETIMEOUT\<rparr>)
      (timer_expire t (ev_kernel y)))"
    using to by (auto simp: thread_timeout_def split: if_splits)
  have w: "wakeable k' u = wakeable (ev_kernel y) u" if "u \<noteq> t" for u
    using that by (simp add: k' rt_sched_insert_thread_def timer_expire_def wakeable_upd_thread)
  have "prio_sorted k' ts = prio_sorted (ev_kernel y) ts" for ts
    by (rule prio_sorted_cong) (simp add: k' rt_sched_insert_thread_def timer_expire_def)
  then show ?thesis
    using inv w by (auto simp: event_inv_def ws event_due_def prio_sorted_remove1)
qed

section \<open>Sequences of calls\<close>

text \<open>
  One event object among the threads of the system: a receive by the running thread, a send
  from anywhere (rt_event_send is allowed in interrupts), a reset, a switch to a thread that
  is ready, and a timeout whose callback runs before any other operation on the event.
\<close>

inductive event_step :: "ev_state \<Rightarrow> ev_state \<Rightarrow> bool" where
  recv: "stat (threads (ev_kernel y) (rt_current_thread (ev_kernel y))) = RT_THREAD_RUNNING \<Longrightarrow>
    event_recv_main want option timeout sf y = (out, r, y') \<Longrightarrow> out \<noteq> Halted \<Longrightarrow> event_step y y'"
| send: "rt_event_send want y = (ret, y') \<Longrightarrow> event_step y y'"
| control: "rt_event_control cmd y = (ret, y') \<Longrightarrow> event_step y y'"
| switch: "stat (threads (ev_kernel y) t) = RT_THREAD_READY \<Longrightarrow>
    event_step y (y\<lparr>ev_kernel := (upd_thread t (\<lambda>th. th\<lparr>stat := RT_THREAD_RUNNING\<rparr>) (ev_kernel y))
      \<lparr>rt_current_thread := t\<rparr>\<rparr>)"
| timeout: "timer_activated (threads (ev_kernel y) t) \<Longrightarrow>
    thread_timeout t (ev_waiting y) (timer_expire t (ev_kernel y)) = Some (ws, k) \<Longrightarrow>
    event_step y (y\<lparr>ev_obj := (ev_obj y)\<lparr>ev_waiters := ws\<rparr>, ev_kernel := k\<rparr>)"

lemma event_step_inv: "event_step y y' \<Longrightarrow> event_inv y \<Longrightarrow> event_inv y'"
proof (induction rule: event_step.induct)
  case (switch y t)
  then show ?case
    by (intro event_inv_frame [OF switch(2)])
      (auto simp: wakeable_def rt_sched_thread_is_suspended_def threads_upd_thread)
qed (blast intro: event_inv_recv event_inv_send event_inv_control event_inv_timeout)+

lemma event_steps_inv: "event_step\<^sup>*\<^sup>* y y' \<Longrightarrow> event_inv y \<Longrightarrow> event_inv y'"
  by (induction rule: rtranclp_induct) (blast intro: event_step_inv)+

section \<open>Properties\<close>

text \<open>
  From rt_event_init on, whatever receives, sends, resets, thread switches and timeouts
  follow (a timeout callback running right after its expiry): no thread waits for flags that
  are set, every waiter is suspended, on the list once, with a valid option, in priority
  order with RT_IPC_FLAG_PRIO; so the -RT_EINVAL exit in the loop of rt_event_send is never
  taken.
\<close>

theorem event_no_due_waiter:
  assumes "ev_obj y0 = rt_event_init flag" "event_step\<^sup>*\<^sup>* y0 y"
  shows "event_inv y \<and> fst (rt_event_send want y) \<noteq> - RT_EINVAL"
proof -
  have inv: "event_inv y"
    by (rule event_steps_inv [OF assms(2)], rule event_inv_no_waiters)
      (simp add: assms(1) rt_event_init_def)
  moreover have "fst (rt_event_send want y) \<noteq> - RT_EINVAL"
  proof (cases "want = 0")
    case False
    then show ?thesis using event_send_eq_spec [OF inv] by (simp add: error_codes)
  qed (simp add: rt_event_send_def error_codes)
  ultimately show ?thesis ..
qed

text \<open>C27
  rt_event_send is a broadcast decided on one view of the flags, on an event whose waiters can
  all be woken (each is suspended, and none has a timer that has expired with its callback still
  to come; event_flag_lost_to_expired_waiter is that case), are on the list once, have asked
  for flags in a valid way and are not satisfied yet: with the new flags added, it wakes exactly
  the waiters they satisfy, each of their rt_event_recv calls returns RT_EOK with the waited-for
  flags that are set, the other waiters keep waiting untouched, and the flags asked to be cleared
  go only after all of them have been served.
\<close>

theorem event_send_broadcasts:
  assumes "event_inv y" "want \<noteq> 0" "rt_event_send want y = (r, y')"
  shows "r = RT_EOK \<and> y' = event_send_spec want y \<and>
    (\<forall>t\<in>set (ev_waiting y).
      if event_available (event_info (ev_wait y t)) (event_set (ev_wait y t)) (ev_bits y OR want)
      then t \<notin> set (ev_waiting y') \<and> \<not> rt_sched_thread_is_suspended (ev_kernel y') t \<and>
        event_recv_resumed t y' = (RT_EOK, Some (event_set (ev_wait y t) AND (ev_bits y OR want)))
      else t \<in> set (ev_waiting y') \<and> threads (ev_kernel y') t = threads (ev_kernel y) t \<and>
        ev_wait y' t = ev_wait y t)"
proof -
  define y1 where "y1 = y\<lparr>ev_obj := (ev_obj y)\<lparr>ev_set := ev_bits y OR want\<rparr>\<rparr>"
  define due where "due = filter (event_due y1) (ev_waiting y)"
  have y': "r = RT_EOK" "y' = event_send_spec want y"
    using assms(3) event_send_eq_spec [OF assms(1,2)] by simp_all
  have d: "distinct due" using assms(1) by (simp add: due_def event_inv_def)
  have eq: "ev_waiting y' = filter (\<lambda>t. t \<notin> set due) (ev_waiting y)"
    "ev_kernel y' = fold (\<lambda>t. woken t RT_EOK) due (ev_kernel y)"
    "ev_wait y' = (\<lambda>t. if t \<in> set due then event_got y1 t else ev_wait y t)"
    by (auto simp: y'(2) event_send_spec_def Let_def y1_def due_def event_deliver_def)
  have due: "t \<in> set due \<longleftrightarrow>
      event_available (event_info (ev_wait y t)) (event_set (ev_wait y t)) (ev_bits y OR want)"
    if "t \<in> set (ev_waiting y)" for t
    using that by (simp add: due_def event_due_def y1_def)
  have "thread_error (threads (ev_kernel y') t) = RT_EOK \<and>
      \<not> rt_sched_thread_is_suspended (ev_kernel y') t" if "t \<in> set due" for t
    unfolding eq by (rule fold_woken_released [OF d that]) (simp add: RT_EOK_def)
  then have "if event_available (event_info (ev_wait y t)) (event_set (ev_wait y t)) (ev_bits y OR want)
      then t \<notin> set (ev_waiting y') \<and> \<not> rt_sched_thread_is_suspended (ev_kernel y') t \<and>
        event_recv_resumed t y' = (RT_EOK, Some (event_set (ev_wait y t) AND (ev_bits y OR want)))
      else t \<in> set (ev_waiting y') \<and> threads (ev_kernel y') t = threads (ev_kernel y) t \<and>
        ev_wait y' t = ev_wait y t" if "t \<in> set (ev_waiting y)" for t
    using due [OF that] that
    by (cases "t \<in> set due")
      (simp_all add: event_recv_resumed_def Let_def eq(1,3) event_got_def y1_def,
       simp add: eq(2) threads_fold_woken)
  with y' show ?thesis by blast
qed


text \<open>
  When the flag the link-control thread waits for is sent to a waiter whose timer has
  expired but whose timeout callback has not run yet, the flag is cleared for that waiter
  although it is not woken: after the callback its rt_event_recv returns -RT_ETIMEOUT, the
  flag is gone, and the sender was told RT_EOK.
\<close>

theorem event_flag_lost_to_expired_waiter:
  assumes "ev_waiting y = [t]" "rt_sched_thread_is_suspended (ev_kernel y) t"
    and "sched_flag_ttmr_set (threads (ev_kernel y) t)"
    and "\<not> timer_activated (threads (ev_kernel y) t)"
    and "ev_wait y t = \<lparr>event_set = want, event_info = RT_EVENT_FLAG_OR OR RT_EVENT_FLAG_CLEAR\<rparr>"
    and "want \<noteq> 0" "rt_event_send want y = (r, y1)"
    and "thread_timeout t (ev_waiting y1) (ev_kernel y1) = Some (ws, k2)"
  shows "r = RT_EOK \<and> ev_bits y1 AND want = 0 \<and>
    event_recv_resumed t (y1\<lparr>ev_kernel := k2\<rparr>) = (- RT_ETIMEOUT, None)"
proof -
  let ?b = "ev_bits y OR want"
  have meet: "want AND ?b = want" "(?b AND NOT want) AND want = 0"
    by (auto simp: bit_eq_iff bit_simps)
  have "ev_bits y1 = ?b AND NOT want" "r = RT_EOK"
    using assms(1-7) meet(1)
    by (auto simp: rt_event_send_def Let_def RT_EVENT_FLAG_AND_def RT_EVENT_FLAG_OR_def
        RT_EVENT_FLAG_CLEAR_def event_clear_def event_wake_def split: prod.splits)
  moreover have "thread_error (threads k2 t) = - RT_ETIMEOUT"
    using assms(8) by (auto simp: thread_timeout_def rt_sched_insert_thread_def split: if_splits)
  ultimately show ?thesis
    using meet(2) by (simp add: event_recv_resumed_def error_codes)
qed

text \<open>
  A receive that is woken by a reset of the event returns the positive code RT_ERROR, while
  every other failure of rt_event_recv is a negative code and rt_sem_take, woken with the
  same thread error, negates it.
\<close>

theorem event_reset_returns_positive:
  assumes "event_inv y" "t \<in> set (ev_waiting y)"
    and "rt_event_control RT_IPC_CMD_RESET y = (r, y')"
  shows "event_recv_resumed t y' = (RT_ERROR, None) \<and> RT_ERROR > 0 \<and>
    sem_take_resumed (threads (ev_kernel y') t) = - RT_ERROR"
proof -
  have "distinct (ev_waiting y)" using assms(1) by (simp add: event_inv_def)
  moreover have "ev_kernel y' = fold (\<lambda>t. woken t RT_ERROR) (ev_waiting y) (ev_kernel y)"
    using event_reset_empties [OF assms(1,3)] by simp
  ultimately have "thread_error (threads (ev_kernel y') t) = RT_ERROR"
    using fold_woken_released [OF _ assms(2)] by (simp add: RT_ERROR_def)
  then show ?thesis by (simp add: event_recv_resumed_def sem_take_resumed_def error_codes)
qed

section \<open>Witnesses\<close>

text \<open>Thread 1 waits, with a timer, for the flag 1 and wants it cleared.\<close>

definition one_waiter :: "bool \<Rightarrow> ev_state" where
  "one_waiter active = \<lparr>ev_obj = \<lparr>ev_set = 0, ev_flag = RT_IPC_FLAG_PRIO, ev_waiters = [1]\<rparr>,
     ev_wait = (\<lambda>t. \<lparr>event_set = 1, event_info = RT_EVENT_FLAG_OR OR RT_EVENT_FLAG_CLEAR\<rparr>),
     ev_kernel = \<lparr>rt_current_thread = 0, threads = (\<lambda>t.
       if t = 1 then (idle_thread 8 (Suspended RT_UNINTERRUPTIBLE))
                       \<lparr>sched_flag_ttmr_set := True, timer_activated := active\<rparr>
       else idle_thread 9 RT_THREAD_RUNNING)\<rparr>\<rparr>"

lemma one_waiter_inv: "event_inv (one_waiter True)"
  by (simp add: event_inv_def one_waiter_def wakeable_def rt_sched_thread_is_suspended_def
      idle_thread_def event_option_ok_def event_due_def event_available_def prio_sorted_def
      RT_EVENT_FLAG_AND_def RT_EVENT_FLAG_OR_def RT_EVENT_FLAG_CLEAR_def)

lemma event_send_broadcasts_witness:
  "event_recv_resumed 1 (snd (rt_event_send 5 (one_waiter True))) = (RT_EOK, Some 1)"
proof -
  obtain r y' where s: "rt_event_send 5 (one_waiter True) = (r, y')"
    by (cases "rt_event_send 5 (one_waiter True)")
  have "(5 :: u32) \<noteq> 0" by simp
  note b = event_send_broadcasts [OF one_waiter_inv this s, THEN conjunct2, THEN conjunct2]
  have w: "ev_waiting (one_waiter True) = [1]" "event_set (ev_wait (one_waiter True) 1) = 1"
    "ev_bits (one_waiter True) = 0"
    "event_available (event_info (ev_wait (one_waiter True) 1)) 1 5"
    by (simp_all add: one_waiter_def event_available_def RT_EVENT_FLAG_AND_def
        RT_EVENT_FLAG_OR_def RT_EVENT_FLAG_CLEAR_def)
  have "1 \<in> set (ev_waiting (one_waiter True))" by (simp add: w)
  from bspec [OF b this] have "event_recv_resumed 1 y' = (RT_EOK, Some 1)"
    by (simp add: w del: One_nat_def)
  then show ?thesis by (simp add: s)
qed

lemma event_reset_returns_positive_witness:
  "event_recv_resumed 1 (snd (rt_event_control RT_IPC_CMD_RESET (one_waiter True))) = (1, None)"
proof -
  obtain r y' where c: "rt_event_control RT_IPC_CMD_RESET (one_waiter True) = (r, y')"
    by (cases "rt_event_control RT_IPC_CMD_RESET (one_waiter True)")
  have "1 \<in> set (ev_waiting (one_waiter True))" by (simp add: one_waiter_def)
  from event_reset_returns_positive [OF one_waiter_inv this c]
  show ?thesis by (simp add: c RT_ERROR_def)
qed

lemma event_flag_lost_to_expired_waiter_witness:
  "\<exists>y1 ws k2. rt_event_send 1 (one_waiter False) = (RT_EOK, y1) \<and> ev_bits y1 AND 1 = 0 \<and>
    thread_timeout 1 (ev_waiting y1) (ev_kernel y1) = Some (ws, k2) \<and>
    event_recv_resumed 1 (y1\<lparr>ev_kernel := k2\<rparr>) = (- 2, None)"
proof -
  obtain r y1 where s: "rt_event_send 1 (one_waiter False) = (r, y1)"
    by (cases "rt_event_send 1 (one_waiter False)")
  have "rt_sched_thread_is_suspended (ev_kernel y1) 1"
    using s
    by (auto simp: rt_event_send_def Let_def event_clear_def event_wake_def one_waiter_def
        RT_EVENT_FLAG_AND_def RT_EVENT_FLAG_OR_def RT_EVENT_FLAG_CLEAR_def idle_thread_def
        rt_sched_thread_ready_def rt_sched_thread_is_suspended_def rt_sched_thread_timer_stop_def
        rt_timer_stop_def error_codes threads_upd_thread)
  then obtain ws k2 where to: "thread_timeout 1 (ev_waiting y1) (ev_kernel y1) = Some (ws, k2)"
    by (simp add: thread_timeout_def)
  have "ev_waiting (one_waiter False) = [1]"
    "rt_sched_thread_is_suspended (ev_kernel (one_waiter False)) 1"
    "sched_flag_ttmr_set (threads (ev_kernel (one_waiter False)) 1)"
    "\<not> timer_activated (threads (ev_kernel (one_waiter False)) 1)"
    "ev_wait (one_waiter False) 1 = \<lparr>event_set = 1, event_info = RT_EVENT_FLAG_OR OR RT_EVENT_FLAG_CLEAR\<rparr>"
    "(1 :: u32) \<noteq> 0"
    by (simp_all add: one_waiter_def rt_sched_thread_is_suspended_def idle_thread_def)
  from event_flag_lost_to_expired_waiter [OF this s to] s to
  show ?thesis by (auto simp: RT_ETIMEOUT_def)
qed

text \<open>Thread 1 receives on a new event, waits, and an interrupt sends the flag.\<close>

definition new_event_state :: ev_state where
  "new_event_state = \<lparr>ev_obj = rt_event_init RT_IPC_FLAG_PRIO,
     ev_wait = (\<lambda>t. \<lparr>event_set = 0, event_info = 0\<rparr>), ev_kernel = two_threads\<rparr>"

lemma event_no_due_waiter_witness:
  "\<exists>r y1 y2. rt_event_recv 1 6 (-1) new_event_state = (Blocked, r, y1) \<and>
    rt_event_send 2 y1 = (RT_EOK, y2) \<and> ev_waiting y2 = [1] \<and>
    event_inv y2 \<and> fst (rt_event_send 1 y2) \<noteq> - RT_EINVAL"
proof -
  obtain out r y1 where 1: "event_recv_main 1 6 (-1) RT_UNINTERRUPTIBLE new_event_state = (out, r, y1)"
    by (cases "event_recv_main 1 6 (-1) RT_UNINTERRUPTIBLE new_event_state")
  obtain ret y2 where 2: "rt_event_send 2 y1 = (ret, y2)" by (cases "rt_event_send 2 y1")
  note defs = event_recv_main_def new_event_state_def rt_event_init_def two_threads_def
    idle_thread_def event_option_ok_def event_available_def RT_EVENT_FLAG_AND_def
    RT_EVENT_FLAG_OR_def rt_thread_suspend_to_list_def rt_susp_list_enqueue_def
    rt_sched_thread_timer_stop_def error_codes Let_def
  have b: "out = Blocked" using 1 by (simp add: defs)
  have w: "ev_waiting y2 = [1]" "ret = RT_EOK"
    using 1 2 by (auto simp: defs rt_event_send_def)
  have "event_step new_event_state y1"
    by (rule event_step.recv [OF _ 1]) (simp_all add: b, simp add: new_event_state_def two_threads_def idle_thread_def)
  moreover have "event_step y1 y2" by (rule event_step.send [OF 2])
  ultimately have "event_step\<^sup>*\<^sup>* new_event_state y2" by (meson rtranclp.simps)
  from event_no_due_waiter [OF _ this, of RT_IPC_FLAG_PRIO 1] 1 2 b w
  show ?thesis by (simp add: rt_event_recv_def) (simp add: new_event_state_def)
qed

end
