(* ===== verification/Eth_State.thy ===== *)
theory Eth_State
  imports Ipc_Sem
begin

text \<open>
  The state of applications/backends/eth_backend.c: the DMA descriptor rings shared with the
  Ethernet hardware, the transmit slots, the link and flow-control flags, the counters and
  the two registers the code reads back.  A descriptor is referred to by its index in its
  table; the bytes at Buffer1Addr are part of it.  Calls out of the module and writes to
  registers that are never read back are recorded in a log.
\<close>

unbundle bit_operations_syntax

section \<open>Constants (firmware_config.h, eth_backend.c, ch32v30x_eth.h)\<close>

definition WLH_ETH_RX_DESC_NUM :: u32 where "WLH_ETH_RX_DESC_NUM = 6"
definition WLH_ETH_TX_DESC_NUM :: u32 where "WLH_ETH_TX_DESC_NUM = 6"
definition WLH_ETH_PAUSE_QUANTA :: u16 where "WLH_ETH_PAUSE_QUANTA = 0x00f0"
definition WLH_ETH_MIN_FRAME :: u32 where "WLH_ETH_MIN_FRAME = 14"
definition WLH_ETH_MAX_FRAME :: u32 where "WLH_ETH_MAX_FRAME = 1518"
definition FL_SHIFT :: nat where "FL_SHIFT = 16"
definition ETH_MAX_PACKET_SIZE :: u32 where "ETH_MAX_PACKET_SIZE = 1536"

definition ETH_DMATxDesc_OWN :: u32 where "ETH_DMATxDesc_OWN = 0x80000000"
definition ETH_DMATxDesc_IC :: u32 where "ETH_DMATxDesc_IC = 0x40000000"
definition ETH_DMATxDesc_LS :: u32 where "ETH_DMATxDesc_LS = 0x20000000"
definition ETH_DMATxDesc_FS :: u32 where "ETH_DMATxDesc_FS = 0x10000000"
definition ETH_DMATxDesc_TCH :: u32 where "ETH_DMATxDesc_TCH = 0x00100000"
definition ETH_DMATxDesc_ES :: u32 where "ETH_DMATxDesc_ES = 0x00008000"
definition ETH_DMATxDesc_TBS1 :: u32 where "ETH_DMATxDesc_TBS1 = 0x00001FFF"

definition ETH_DMARxDesc_OWN :: u32 where "ETH_DMARxDesc_OWN = 0x80000000"
definition ETH_DMARxDesc_FL :: u32 where "ETH_DMARxDesc_FL = 0x3FFF0000"
definition ETH_DMARxDesc_ES :: u32 where "ETH_DMARxDesc_ES = 0x00008000"
definition ETH_DMARxDesc_FS :: u32 where "ETH_DMARxDesc_FS = 0x00000200"
definition ETH_DMARxDesc_LS :: u32 where "ETH_DMARxDesc_LS = 0x00000100"
definition ETH_DMARxDesc_RCH :: u32 where "ETH_DMARxDesc_RCH = 0x00004000"

definition ETH_DMA_IT_NIS :: u32 where "ETH_DMA_IT_NIS = 0x00010000"
definition ETH_DMA_IT_AIS :: u32 where "ETH_DMA_IT_AIS = 0x00008000"
definition ETH_DMA_IT_RBU :: u32 where "ETH_DMA_IT_RBU = 0x00000080"
definition ETH_DMA_IT_R :: u32 where "ETH_DMA_IT_R = 0x00000040"
definition ETH_DMA_IT_T :: u32 where "ETH_DMA_IT_T = 0x00000001"
definition ETH_DMASR_RBUS :: u32 where "ETH_DMASR_RBUS = 0x00000080"
definition ETH_DMASR_TBUS :: u32 where "ETH_DMASR_TBUS = 0x00000004"

definition ETH_MACFCR_PT :: u32 where "ETH_MACFCR_PT = 0xFFFF0000"
definition ETH_MACFCR_TFCE :: u32 where "ETH_MACFCR_TFCE = 0x00000002"
definition ETH_MACFCR_FCBBPA :: u32 where "ETH_MACFCR_FCBBPA = 0x00000001"

lemmas eth_tx_bits = ETH_DMATxDesc_OWN_def ETH_DMATxDesc_IC_def ETH_DMATxDesc_LS_def
  ETH_DMATxDesc_FS_def ETH_DMATxDesc_TCH_def ETH_DMATxDesc_ES_def ETH_DMATxDesc_TBS1_def

lemmas eth_rx_bits = ETH_DMARxDesc_OWN_def ETH_DMARxDesc_FL_def ETH_DMARxDesc_ES_def
  ETH_DMARxDesc_FS_def ETH_DMARxDesc_LS_def FL_SHIFT_def

lemmas eth_sizes = WLH_ETH_RX_DESC_NUM_def WLH_ETH_TX_DESC_NUM_def WLH_ETH_MIN_FRAME_def
  WLH_ETH_MAX_FRAME_def ETH_MAX_PACKET_SIZE_def

section \<open>State\<close>

text \<open>ETH_DMADESCTypeDef, with the buffer it points to and the index of the next one.\<close>

record dma_desc =
  d_status :: u32
  d_size :: u32
  d_buffer :: "byte list"
  d_next :: nat

record eth_tx_slot =
  slot_session :: u32
  slot_channel :: byte
  in_flight :: bool

datatype eth_speed =
  WLH_COPROC_ETH_SPEED_UNSPECIFIED | WLH_COPROC_ETH_SPEED_10M | WLH_COPROC_ETH_SPEED_100M

datatype eth_duplex =
  WLH_COPROC_ETH_DUPLEX_UNSPECIFIED | WLH_COPROC_ETH_DUPLEX_HALF | WLH_COPROC_ETH_DUPLEX_FULL

record eth_info =
  info_link_up :: bool
  info_mac :: "byte list"
  info_speed :: eth_speed
  info_duplex :: eth_duplex

datatype eth_event =
    RxComplete u32 byte int
  | TxPollDemand
  | RxPollDemand
  | LinkStateChanged bool eth_speed eth_duplex
  | InfoReady u32 int eth_info

record wlh_eth_stats =
  e_rx_frames :: u32
  e_rx_dropped :: u32
  e_rx_errors :: u32
  e_rx_backpressure :: u32
  e_rx_retries :: u32
  e_pause_frames :: u32
  e_resume_frames :: u32
  e_tx_frames :: u32
  e_tx_errors :: u32
  e_tx_rejected :: u32
  e_link_ups :: u32
  e_isr_rx :: u32
  e_isr_tx :: u32
  e_isr_rbu :: u32
  e_core_ready_wakes :: u32
  e_worker_wakes :: u32
  e_worker_empty_rx :: u32
  e_link_up :: bool
  e_duplex_full :: bool

record eth_backend =
  s_eth_sem :: rt_semaphore
  s_rx_desc :: "dma_desc list"
  s_tx_desc :: "dma_desc list"
  s_rx_cur :: nat
  s_tx_slots :: "eth_tx_slot list"
  s_tx_next :: u32
  s_link_up :: bool
  s_duplex_full :: bool
  s_link_speed :: eth_speed
  s_transport_dead :: bool
  s_rx_backpressured :: bool
  s_rx_credit_ready :: bool
  s_pause_active :: bool
  s_stats :: wlh_eth_stats
  r_DMASR :: u32
  r_MACFCR :: u32
  eth_log :: "eth_event list"

abbreviation upd_eth_stats :: "(wlh_eth_stats \<Rightarrow> wlh_eth_stats) \<Rightarrow> eth_backend \<Rightarrow> eth_backend" where
  "upd_eth_stats f b \<equiv> b\<lparr>s_stats := f (s_stats b)\<rparr>"

abbreviation eth_emit :: "eth_event \<Rightarrow> eth_backend \<Rightarrow> eth_backend" where
  "eth_emit e b \<equiv> b\<lparr>eth_log := eth_log b @ [e]\<rparr>"

definition zero_eth_stats :: wlh_eth_stats where
  "zero_eth_stats = \<lparr>e_rx_frames = 0, e_rx_dropped = 0, e_rx_errors = 0, e_rx_backpressure = 0,
     e_rx_retries = 0, e_pause_frames = 0, e_resume_frames = 0, e_tx_frames = 0, e_tx_errors = 0,
     e_tx_rejected = 0, e_link_ups = 0, e_isr_rx = 0, e_isr_tx = 0, e_isr_rbu = 0,
     e_core_ready_wakes = 0, e_worker_wakes = 0, e_worker_empty_rx = 0, e_link_up = False,
     e_duplex_full = False\<rparr>"

text \<open>The status register is cleared by writing ones.\<close>

definition write_DMASR :: "u32 \<Rightarrow> eth_backend \<Rightarrow> eth_backend" where
  "write_DMASR v b = b\<lparr>r_DMASR := r_DMASR b AND NOT v\<rparr>"

section \<open>Descriptor chains and initialisation\<close>

text \<open>
  ETH_DMATxDescChainInit and ETH_DMARxDescChainInit on a table; \<open>bufs\<close> are the packet buffers.
\<close>

definition ETH_DMATxDescChainInit :: "dma_desc list \<Rightarrow> byte list list \<Rightarrow> nat \<Rightarrow> dma_desc list" where
  "ETH_DMATxDescChainInit tab bufs n =
    map (\<lambda>i. (tab ! i)\<lparr>d_status := ETH_DMATxDesc_TCH OR ETH_DMATxDesc_IC, d_buffer := bufs ! i,
                       d_next := (if i < n - 1 then i + 1 else 0)\<rparr>) [0..<n]"

definition ETH_DMARxDescChainInit :: "dma_desc list \<Rightarrow> byte list list \<Rightarrow> nat \<Rightarrow> dma_desc list" where
  "ETH_DMARxDescChainInit tab bufs n =
    map (\<lambda>i. (tab ! i)\<lparr>d_status := ETH_DMARxDesc_OWN,
                       d_size := ETH_DMARxDesc_RCH OR ETH_MAX_PACKET_SIZE, d_buffer := bufs ! i,
                       d_next := (if i < n - 1 then i + 1 else 0)\<rparr>) [0..<n]"

text \<open>The tables and buffers are static and zero at the start.\<close>

definition zero_desc :: dma_desc where
  "zero_desc = \<lparr>d_status = 0, d_size = 0, d_buffer = [], d_next = 0\<rparr>"

definition zero_bufs :: "byte list list" where
  "zero_bufs = replicate 6 (replicate (unat ETH_MAX_PACKET_SIZE) 0)"

definition zero_backend :: "u32 \<Rightarrow> u32 \<Rightarrow> rt_semaphore \<Rightarrow> eth_backend" where
  "zero_backend dmasr macfcr sem = \<lparr>s_eth_sem = sem, s_rx_desc = replicate 6 zero_desc,
     s_tx_desc = replicate 6 zero_desc, s_rx_cur = 0,
     s_tx_slots = replicate 6 \<lparr>slot_session = 0, slot_channel = 0, in_flight = False\<rparr>, s_tx_next = 0,
     s_link_up = False, s_duplex_full = False, s_link_speed = WLH_COPROC_ETH_SPEED_UNSPECIFIED,
     s_transport_dead = False, s_rx_backpressured = False, s_rx_credit_ready = False,
     s_pause_active = False, s_stats = zero_eth_stats, r_DMASR = dmasr, r_MACFCR = macfcr,
     eth_log = []\<rparr>"

text \<open>
  emac_init without the register programming of emac_mac_config: \<open>phy_ok\<close> is the result of
  wlh_eth_phy_init.
\<close>

definition emac_init :: "bool \<Rightarrow> eth_backend \<Rightarrow> eth_backend option" where
  "emac_init phy_ok b =
    (if \<not> phy_ok then None
     else Some (b\<lparr>s_tx_desc := ETH_DMATxDescChainInit (s_tx_desc b) zero_bufs (unat WLH_ETH_TX_DESC_NUM),
                  s_rx_desc := ETH_DMARxDescChainInit (s_rx_desc b) zero_bufs (unat WLH_ETH_RX_DESC_NUM),
                  s_rx_cur := 0,
                  s_tx_slots := map (\<lambda>s. s\<lparr>in_flight := False\<rparr>) (s_tx_slots b)\<rparr>))"

text \<open>
  wlh_eth_backend_init on the zero state; \<open>sem_ok\<close> and \<open>threads_ok\<close>: the results of rt_sem_create
  and of the two rt_thread_create.
\<close>

definition wlh_eth_backend_init ::
    "bool \<Rightarrow> bool \<Rightarrow> bool \<Rightarrow> u32 \<Rightarrow> u32 \<Rightarrow> int \<times> eth_backend option" where
  "wlh_eth_backend_init sem_ok phy_ok threads_ok dmasr macfcr =
    (case rt_sem_create sem_ok 0 RT_IPC_FLAG_PRIO of
       Some (Some sem) \<Rightarrow>
         (case emac_init phy_ok (zero_backend dmasr macfcr sem) of
            None \<Rightarrow> (-1, None)
          | Some b \<Rightarrow> (if threads_ok then 0 else -1, Some b))
     | _ \<Rightarrow> (-1, None))"

end
