(* ===== verification/Eth_Tx.thy ===== *)
theory Eth_Tx
  imports Eth_State "HOL-Library.Multiset"
begin

text \<open>
  The host-to-wire direction of eth_backend.c: wlh_eth_rx_from_core arms the descriptor the
  transmit DMA fetches next, eth_tx_complete_scan completes the records whose transfer has
  ended.  The DMA is a step of the system: it fetches descriptors strictly in chain order,
  stops at one it does not own, and gives a descriptor back by writing its status word.
\<close>

section \<open>Operations\<close>

definition tx_owned :: "eth_backend \<Rightarrow> nat \<Rightarrow> bool" where
  "tx_owned b i \<longleftrightarrow> d_status (s_tx_desc b ! i) AND ETH_DMATxDesc_OWN \<noteq> 0"

text \<open>One turn of the loop of eth_tx_complete_scan.\<close>

definition eth_tx_complete_slot :: "nat \<Rightarrow> eth_backend \<Rightarrow> eth_backend" where
  "eth_tx_complete_slot i b =
    (let slot = s_tx_slots b ! i
     in if \<not> in_flight slot then b
        else
         (let st = d_status (s_tx_desc b ! i)
          in if st AND ETH_DMATxDesc_OWN \<noteq> 0 then b
             else
              (let status = (if st AND ETH_DMATxDesc_ES \<noteq> 0 then -1 else 0 :: int);
                   b1 = b\<lparr>s_tx_slots := (s_tx_slots b)[i := slot\<lparr>in_flight := False\<rparr>]\<rparr>;
                   b2 = upd_eth_stats (\<lambda>s. if status = 0 then s\<lparr>e_tx_frames := e_tx_frames s + 1\<rparr>
                                          else s\<lparr>e_tx_errors := e_tx_errors s + 1\<rparr>) b1
               in eth_emit (RxComplete (slot_session slot) (slot_channel slot) status) b2)))"

definition eth_tx_complete_scan :: "eth_backend \<Rightarrow> eth_backend" where
  "eth_tx_complete_scan b = fold eth_tx_complete_slot [0..<unat WLH_ETH_TX_DESC_NUM] b"

datatype eth_rx_result = REJECTED | PENDING

definition reject_frame :: "eth_backend \<Rightarrow> eth_rx_result \<times> eth_backend" where
  "reject_frame b = (REJECTED, upd_eth_stats (\<lambda>s. s\<lparr>e_tx_rejected := e_tx_rejected s + 1\<rparr>) b)"

text \<open>\<open>frame\<close> is \<open>None\<close> for a null pointer, else the bytes from there on.\<close>

definition wlh_eth_rx_from_core ::
    "u32 \<Rightarrow> byte \<Rightarrow> byte list option \<Rightarrow> u32 \<Rightarrow> eth_backend \<Rightarrow> eth_rx_result \<times> eth_backend" where
  "wlh_eth_rx_from_core session_id channel frame sz b =
    (case frame of
       None \<Rightarrow> reject_frame b
     | Some bytes \<Rightarrow>
         (if sz < WLH_ETH_MIN_FRAME \<or> sz > ETH_MAX_PACKET_SIZE \<or> \<not> s_link_up b \<or> s_transport_dead b
          then reject_frame b
          else
           (let i = unat (s_tx_next b); slot = s_tx_slots b ! i; desc = s_tx_desc b ! i
            in if in_flight slot then reject_frame b
               else
                (let desc' = desc\<lparr>d_buffer := blit (d_buffer desc) 0 (take (unat sz) bytes),
                                  d_size := sz AND ETH_DMATxDesc_TBS1,
                                  d_status := ETH_DMATxDesc_TCH OR ETH_DMATxDesc_IC OR
                                    ETH_DMATxDesc_LS OR ETH_DMATxDesc_FS OR ETH_DMATxDesc_OWN\<rparr>;
                     b1 = b\<lparr>s_tx_slots := (s_tx_slots b)[i := slot\<lparr>in_flight := True,
                              slot_session := session_id, slot_channel := channel\<rparr>],
                            s_tx_desc := (s_tx_desc b)[i := desc'],
                            s_tx_next := (s_tx_next b + 1) mod WLH_ETH_TX_DESC_NUM\<rparr>;
                     b2 = (if r_DMASR b1 AND ETH_DMASR_TBUS \<noteq> 0 then write_DMASR ETH_DMASR_TBUS b1
                           else b1)
                 in (PENDING, eth_emit TxPollDemand b2)))))"

definition wlh_eth_transport_dead :: "eth_backend \<Rightarrow> rt_kernel \<Rightarrow> eth_backend \<times> rt_kernel" where
  "wlh_eth_transport_dead b k =
    (let b1 = b\<lparr>s_transport_dead := True,
                s_tx_slots := map (\<lambda>s. s\<lparr>in_flight := False\<rparr>) (s_tx_slots b)\<rparr>
     in case rt_sem_release (s_eth_sem b1) k of (r, sem, k') \<Rightarrow> (b1\<lparr>s_eth_sem := sem\<rparr>, k'))"

definition wlh_eth_transport_alive :: "eth_backend \<Rightarrow> rt_kernel \<Rightarrow> eth_backend \<times> rt_kernel" where
  "wlh_eth_transport_alive b k =
    (let b1 = b\<lparr>s_transport_dead := False\<rparr>
     in case rt_sem_release (s_eth_sem b1) k of (r, sem, k') \<Rightarrow> (b1\<lparr>s_eth_sem := sem\<rparr>, k'))"

section \<open>The DMA and the system\<close>

text \<open>
  \<open>xt_hw\<close> is the descriptor the DMA fetches next, \<open>xt_wire\<close> the frames it has sent, \<open>xt_sent\<close> the
  frames the backend has accepted, with session and channel.
\<close>

record eth_tx_sys =
  xt_b :: eth_backend
  xt_hw :: nat
  xt_wire :: "byte list list"
  xt_sent :: "((u32 \<times> byte) \<times> byte list) list"

definition tx_frame :: "eth_backend \<Rightarrow> nat \<Rightarrow> byte list" where
  "tx_frame b i = take (unat (d_size (s_tx_desc b ! i) AND ETH_DMATxDesc_TBS1)) (d_buffer (s_tx_desc b ! i))"

definition tx_key :: "eth_backend \<Rightarrow> nat \<Rightarrow> u32 \<times> byte" where
  "tx_key b i = (slot_session (s_tx_slots b ! i), slot_channel (s_tx_slots b ! i))"

definition same_tx :: "eth_backend \<Rightarrow> eth_backend \<Rightarrow> bool" where
  "same_tx b' b \<longleftrightarrow> s_tx_desc b' = s_tx_desc b \<and> s_tx_slots b' = s_tx_slots b \<and>
     s_tx_next b' = s_tx_next b"

fun completions :: "eth_event list \<Rightarrow> (u32 \<times> byte) list" where
  "completions [] = []"
| "completions (RxComplete s c st # es) = (s, c) # completions es"
| "completions (e # es) = completions es"

lemma completions_append [simp]: "completions (a @ b) = completions a @ completions b"
  by (induction a rule: completions.induct) auto

text \<open>
  Submissions, turns of the completion scan, transfers of the DMA, and steps of the rest of
  the backend, which leave the transmit side alone and report no completion.
\<close>

inductive eth_tx_step :: "eth_tx_sys \<Rightarrow> eth_tx_sys \<Rightarrow> bool" where
  submit: "unat sz \<le> length bytes \<Longrightarrow>
    wlh_eth_rx_from_core session_id channel (Some bytes) sz (xt_b y) = (r, b') \<Longrightarrow>
    eth_tx_step y (y\<lparr>xt_b := b',
      xt_sent := xt_sent y @
        (if r = PENDING then [((session_id, channel), take (unat sz) bytes)] else [])\<rparr>)"
| scan: "i < 6 \<Longrightarrow> eth_tx_step y (y\<lparr>xt_b := eth_tx_complete_slot i (xt_b y)\<rparr>)"
| dma: "tx_owned (xt_b y) (xt_hw y) \<Longrightarrow> st AND ETH_DMATxDesc_OWN = 0 \<Longrightarrow>
    eth_tx_step y (y\<lparr>xt_b := (xt_b y)\<lparr>s_tx_desc := (s_tx_desc (xt_b y))[xt_hw y :=
          (s_tx_desc (xt_b y) ! xt_hw y)\<lparr>d_status := st\<rparr>]\<rparr>,
      xt_hw := d_next (s_tx_desc (xt_b y) ! xt_hw y),
      xt_wire := xt_wire y @ [tx_frame (xt_b y) (xt_hw y)]\<rparr>)"
| other: "same_tx b' (xt_b y) \<Longrightarrow> completions (eth_log b') = completions (eth_log (xt_b y)) \<Longrightarrow>
    eth_tx_step y (y\<lparr>xt_b := b'\<rparr>)"

inductive eth_tx_reach :: "eth_tx_sys \<Rightarrow> eth_tx_sys \<Rightarrow> bool" where
  eth_tx_refl: "eth_tx_reach y y"
| eth_tx_more: "eth_tx_reach y u \<Longrightarrow> eth_tx_step u v \<Longrightarrow> eth_tx_reach y v"

definition eth_tx_start :: "eth_backend \<Rightarrow> eth_tx_sys" where
  "eth_tx_start b = \<lparr>xt_b = b, xt_hw = 0, xt_wire = [], xt_sent = []\<rparr>"

section \<open>Ownership\<close>

text \<open>
  The \<open>a\<close> descriptors from the DMA's on are owned by it and are in flight; \<open>s_tx_next\<close> is the
  one after them.  \<open>done\<close> has been sent, \<open>pend\<close> is in the ring.
\<close>

definition ring6 :: "nat \<Rightarrow> nat \<Rightarrow> nat" where
  "ring6 h j = (h + j) mod 6"

definition tx_ring :: "eth_backend \<Rightarrow> nat \<Rightarrow> nat \<Rightarrow> bool" where
  "tx_ring b h a \<longleftrightarrow> length (s_tx_slots b) = 6 \<and> length (s_tx_desc b) = 6 \<and> h < 6 \<and> a \<le> 6 \<and>
    unat (s_tx_next b) = ring6 h a \<and>
    (\<forall>i<6. d_next (s_tx_desc b ! i) = (i + 1) mod 6 \<and> length (d_buffer (s_tx_desc b ! i)) = 1536 \<and>
       (tx_owned b i \<longrightarrow> in_flight (s_tx_slots b ! i))) \<and>
    (\<forall>j<6. tx_owned b (ring6 h j) \<longleftrightarrow> j < a)"

definition tx_pending :: "eth_backend \<Rightarrow> nat \<Rightarrow> nat \<Rightarrow> ((u32 \<times> byte) \<times> byte list) list" where
  "tx_pending b h a = map (\<lambda>j. (tx_key b (ring6 h j), tx_frame b (ring6 h j))) [0..<a]"

definition tx_finished :: "eth_backend \<Rightarrow> nat set" where
  "tx_finished b = {i. i < 6 \<and> in_flight (s_tx_slots b ! i) \<and> \<not> tx_owned b i}"

definition eth_tx_inv :: "eth_tx_sys \<Rightarrow> bool" where
  "eth_tx_inv y \<longleftrightarrow>
    (\<exists>a sent. tx_ring (xt_b y) (xt_hw y) a \<and>
       xt_sent y = sent @ tx_pending (xt_b y) (xt_hw y) a \<and> xt_wire y = map snd sent \<and>
       mset (map fst sent) = mset (completions (eth_log (xt_b y))) +
         image_mset (tx_key (xt_b y)) (mset_set (tx_finished (xt_b y))))"

lemma ring6_less [simp]: "ring6 h j < 6"
  by (simp add: ring6_def)

lemma ring6_Suc: "ring6 (ring6 h 1) j = ring6 h (Suc j)" "ring6 (ring6 h (Suc 0)) j = ring6 h (Suc j)"
  by (simp_all add: ring6_def mod_simps)

lemma ring6_0 [simp]: "h < 6 \<Longrightarrow> ring6 h 0 = h"
  by (simp add: ring6_def)

lemma ring6_inj_le: "j \<le> j' \<Longrightarrow> j' < 6 \<Longrightarrow> ring6 h j = ring6 h j' \<Longrightarrow> j = j'"
  using mod_eq_dvd_iff_nat [of "h + j" "h + j'" 6] by (auto simp: ring6_def dest: dvd_imp_le)

lemma ring6_inj: "j < 6 \<Longrightarrow> j' < 6 \<Longrightarrow> (ring6 h j = ring6 h j') = (j = j')"
  by (metis linorder_le_cases ring6_inj_le)

lemma ring6_surj: "i < 6 \<Longrightarrow> h < 6 \<Longrightarrow> \<exists>j<6. i = ring6 h j"
  by (rule exI [of _ "if h \<le> i then i - h else i + 6 - h"]) (auto simp: ring6_def)

lemma nth_list_update_eq_if: "xs[i := x] ! j = (if i = j \<and> i < length xs then x else xs ! j)"
  by (cases "i < length xs") (simp_all add: nth_list_update list_update_beyond)

lemma finite_tx_finished [simp]: "finite (tx_finished b)"
  by (simp add: tx_finished_def)


lemma tx_own_set [simp]:
  "(ETH_DMATxDesc_TCH OR ETH_DMATxDesc_IC OR ETH_DMATxDesc_LS OR ETH_DMATxDesc_FS OR ETH_DMATxDesc_OWN)
     AND ETH_DMATxDesc_OWN \<noteq> 0"
  "(ETH_DMATxDesc_TCH OR ETH_DMATxDesc_IC) AND ETH_DMATxDesc_OWN = 0"
  by (simp_all add: eth_tx_bits)

lemma unat_TBS1: "unat (sz AND ETH_DMATxDesc_TBS1) = unat sz mod 8192"
proof -
  have "sz AND ETH_DMATxDesc_TBS1 = take_bit 13 sz"
    by (simp add: eth_tx_bits take_bit_eq_mask mask_eq_exp_minus_1)
  moreover have "unat (take_bit 13 sz) = take_bit 13 (unat sz)" by (rule unsigned_take_bit_eq)
  ultimately show ?thesis by (simp add: take_bit_eq_mod)
qed

lemma frame_armed:
  assumes "unat sz \<le> 1536" "unat sz \<le> length bytes" "length buf = 1536"
  shows "take (unat (sz AND ETH_DMATxDesc_TBS1 AND ETH_DMATxDesc_TBS1))
    (blit buf 0 (take (unat sz) bytes)) = take (unat sz) bytes"
  using assms by (simp add: and.assoc unat_TBS1 blit_def)

lemma rx_from_core_cases:
  assumes "wlh_eth_rx_from_core session_id channel (Some bytes) sz b = (r, b')"
    and "unat sz \<le> length bytes"
  obtains (refused) "r = REJECTED" "same_tx b' b" "eth_log b' = eth_log b"
  | (armed) i where "r = PENDING" "i = unat (s_tx_next b)" "\<not> in_flight (s_tx_slots b ! i)"
      "14 \<le> unat sz" "unat sz \<le> 1536"
      "s_tx_slots b' = (s_tx_slots b)[i := (s_tx_slots b ! i)\<lparr>in_flight := True,
         slot_session := session_id, slot_channel := channel\<rparr>]"
      "s_tx_desc b' = (s_tx_desc b)[i := (s_tx_desc b ! i)\<lparr>
         d_buffer := blit (d_buffer (s_tx_desc b ! i)) 0 (take (unat sz) bytes),
         d_size := sz AND ETH_DMATxDesc_TBS1,
         d_status := ETH_DMATxDesc_TCH OR ETH_DMATxDesc_IC OR ETH_DMATxDesc_LS OR
           ETH_DMATxDesc_FS OR ETH_DMATxDesc_OWN\<rparr>]"
      "s_tx_next b' = (s_tx_next b + 1) mod 6"
      "completions (eth_log b') = completions (eth_log b)"
proof (cases "sz < WLH_ETH_MIN_FRAME \<or> sz > ETH_MAX_PACKET_SIZE \<or> \<not> s_link_up b \<or>
    s_transport_dead b \<or> in_flight (s_tx_slots b ! unat (s_tx_next b))")
  case True
  then show ?thesis
    using assms refused
    by (auto simp: wlh_eth_rx_from_core_def reject_frame_def same_tx_def Let_def split: if_splits)
next
  case False
  moreover have "14 \<le> unat sz" "unat sz \<le> 1536"
    using False by (simp_all add: eth_sizes word_le_nat_alt not_less)
  ultimately show ?thesis
    using assms by (intro armed [OF _ refl])
      (auto simp: wlh_eth_rx_from_core_def Let_def write_DMASR_def WLH_ETH_TX_DESC_NUM_def)
qed

lemma unat_next6: "unat (n :: u32) < 6 \<Longrightarrow> unat ((n + 1) mod 6) = (unat n + 1) mod 6"
  by (simp add: unat_mod unat_add_u32)

lemma tx_ring_owned:
  assumes "tx_ring b h a" "i < 6"
  shows "tx_owned b i \<longleftrightarrow> (\<exists>j<a. i = ring6 h j)"
proof -
  obtain j where j: "j < 6" "i = ring6 h j" using ring6_surj [of i h] assms by (auto simp: tx_ring_def)
  have "a \<le> 6" using assms(1) by (simp add: tx_ring_def)
  then show ?thesis
    using assms(1) j ring6_inj by (fastforce simp: tx_ring_def)
qed

lemma eth_tx_scan_inv:
  assumes "i < 6" "eth_tx_inv y"
  shows "eth_tx_inv (y\<lparr>xt_b := eth_tx_complete_slot i (xt_b y)\<rparr>)"
proof (cases "i \<in> tx_finished (xt_b y)")
  case False
  then have "eth_tx_complete_slot i (xt_b y) = xt_b y"
    using assms(1) by (auto simp: eth_tx_complete_slot_def tx_finished_def tx_owned_def Let_def)
  then show ?thesis using assms(2) by simp
next
  case True
  let ?b = "xt_b y" and ?b' = "eth_tx_complete_slot i (xt_b y)"
  obtain a sent where r: "tx_ring ?b (xt_hw y) a"
      and s: "xt_sent y = sent @ tx_pending ?b (xt_hw y) a" "xt_wire y = map snd sent"
      and m: "mset (map fst sent) = mset (completions (eth_log ?b)) +
         image_mset (tx_key ?b) (mset_set (tx_finished ?b))"
    using assms(2) by (auto simp: eth_tx_inv_def)
  have b': "s_tx_slots ?b' = (s_tx_slots ?b)[i := (s_tx_slots ?b ! i)\<lparr>in_flight := False\<rparr>]"
    "s_tx_desc ?b' = s_tx_desc ?b" "s_tx_next ?b' = s_tx_next ?b"
    "completions (eth_log ?b') = completions (eth_log ?b) @ [tx_key ?b i]"
    using True by (auto simp: eth_tx_complete_slot_def tx_finished_def tx_owned_def Let_def tx_key_def)
  have own: "tx_owned ?b' = tx_owned ?b" by (simp add: tx_owned_def b' fun_eq_iff)
  have len: "length (s_tx_slots ?b) = 6" using r by (simp add: tx_ring_def)
  have key: "tx_key ?b' = tx_key ?b"
    using len assms(1) by (auto simp: tx_key_def b' fun_eq_iff nth_list_update_eq_if)
  have fin: "tx_finished ?b = insert i (tx_finished ?b')" "i \<notin> tx_finished ?b'"
    using True len by (auto simp: tx_finished_def own b' nth_list_update split: if_splits)
  have "tx_ring ?b' (xt_hw y) a"
    using r True len by (auto simp: tx_ring_def own b' nth_list_update tx_finished_def)
  moreover have "tx_pending ?b' (xt_hw y) a = tx_pending ?b (xt_hw y) a"
    by (simp add: tx_pending_def key tx_frame_def b')
  moreover have "mset (map fst sent) = mset (completions (eth_log ?b')) +
         image_mset (tx_key ?b') (mset_set (tx_finished ?b'))"
    using m fin(2) unfolding key b'(4) fin(1) by simp
  ultimately show ?thesis using s by (auto simp: eth_tx_inv_def)
qed


lemma eth_tx_dma_inv:
  assumes own: "tx_owned (xt_b y) (xt_hw y)" and st: "st AND ETH_DMATxDesc_OWN = 0"
    and y': "y' = y\<lparr>xt_b := (xt_b y)\<lparr>s_tx_desc := (s_tx_desc (xt_b y))[xt_hw y :=
          (s_tx_desc (xt_b y) ! xt_hw y)\<lparr>d_status := st\<rparr>]\<rparr>,
      xt_hw := d_next (s_tx_desc (xt_b y) ! xt_hw y),
      xt_wire := xt_wire y @ [tx_frame (xt_b y) (xt_hw y)]\<rparr>"
    and inv: "eth_tx_inv y"
  shows "eth_tx_inv y'"
proof -
  let ?b = "xt_b y" and ?h = "xt_hw y" and ?b' = "xt_b y'"
  obtain a sent where r: "tx_ring ?b ?h a"
      and s: "xt_sent y = sent @ tx_pending ?b ?h a" "xt_wire y = map snd sent"
      and m: "mset (map fst sent) = mset (completions (eth_log ?b)) +
         image_mset (tx_key ?b) (mset_set (tx_finished ?b))"
    using inv by (auto simp: eth_tx_inv_def)
  have h: "?h < 6" "length (s_tx_desc ?b) = 6" "xt_hw y' = ring6 ?h 1"
    using r by (auto simp: tx_ring_def y' ring6_def)
  obtain a' where a: "a = Suc a'"
    using own r h(1) by (cases a) (auto simp: tx_ring_def dest: spec [of _ 0])
  have own': "tx_owned ?b' i = (tx_owned ?b i \<and> i \<noteq> ?h)" for i
    using st h by (auto simp: tx_owned_def y' nth_list_update_eq_if)
  have key: "tx_key ?b' = tx_key ?b" by (simp add: tx_key_def y' fun_eq_iff)
  have frame: "tx_frame ?b' = tx_frame ?b"
    by (auto simp: tx_frame_def y' fun_eq_iff nth_list_update_eq_if)
  have fin: "tx_finished ?b' = insert ?h (tx_finished ?b)" "?h \<notin> tx_finished ?b"
    using own r h by (auto simp: tx_finished_def own' tx_ring_def) (auto simp: y')
  have "tx_ring ?b' (xt_hw y') a'"
  proof -
    have "tx_owned ?b' (ring6 (ring6 ?h 1) j) \<longleftrightarrow> j < a'" if j: "j < 6" for j
    proof (cases "j = 5")
      case True
      then have "ring6 (ring6 ?h 1) j = ?h" using h(1) ring6_Suc(1) [of ?h 5] by (simp add: ring6_def)
      then show ?thesis using True r a by (simp add: own' tx_ring_def)
    next
      case False
      then have "Suc j < 6" using j by simp
      moreover have "ring6 ?h (Suc j) \<noteq> ?h"
        using ring6_inj [of "Suc j" 0 ?h] h(1) \<open>Suc j < 6\<close> by simp
      ultimately show ?thesis using r a by (auto simp: own' ring6_Suc tx_ring_def)
    qed
    moreover have "unat (s_tx_next ?b') = ring6 (xt_hw y') a'"
      using r a by (simp add: h(3) ring6_Suc tx_ring_def) (simp add: y')
    ultimately show ?thesis
      using r a h by (auto simp: tx_ring_def h(3) own') (auto simp: y' nth_list_update_eq_if)
  qed
  moreover have "tx_pending ?b ?h a = (tx_key ?b ?h, tx_frame ?b ?h) # tx_pending ?b' (xt_hw y') a'"
    using h by (simp add: tx_pending_def a key frame ring6_Suc map_upt_Suc del: upt_Suc)
  moreover have "mset (map fst (sent @ [(tx_key ?b ?h, tx_frame ?b ?h)])) =
      mset (completions (eth_log ?b')) + image_mset (tx_key ?b') (mset_set (tx_finished ?b'))"
    using m fin unfolding key by (simp add: y')
  ultimately show ?thesis using s
    by (auto simp: eth_tx_inv_def y' intro!: exI [of _ a'])
qed


lemma eth_tx_submit_inv:
  assumes len: "unat sz \<le> length bytes"
    and sub: "wlh_eth_rx_from_core session_id channel (Some bytes) sz (xt_b y) = (r, b')"
    and y': "y' = y\<lparr>xt_b := b', xt_sent := xt_sent y @
        (if r = PENDING then [((session_id, channel), take (unat sz) bytes)] else [])\<rparr>"
    and inv: "eth_tx_inv y"
  shows "eth_tx_inv y'"
  using sub len
proof (cases rule: rx_from_core_cases)
  case refused
  then have "tx_owned b' = tx_owned (xt_b y)" "tx_key b' = tx_key (xt_b y)"
    "tx_frame b' = tx_frame (xt_b y)" "tx_finished b' = tx_finished (xt_b y)"
    by (simp_all add: same_tx_def tx_owned_def tx_key_def tx_frame_def tx_finished_def fun_eq_iff)
  with refused inv show ?thesis
    by (simp add: eth_tx_inv_def y' tx_ring_def tx_pending_def same_tx_def)
next
  case (armed i)
  let ?b = "xt_b y" and ?h = "xt_hw y"
  obtain a sent where ring: "tx_ring ?b ?h a"
      and s: "xt_sent y = sent @ tx_pending ?b ?h a" "xt_wire y = map snd sent"
      and m: "mset (map fst sent) = mset (completions (eth_log ?b)) +
         image_mset (tx_key ?b) (mset_set (tx_finished ?b))"
    using inv by (auto simp: eth_tx_inv_def)
  have i: "i = ring6 ?h a" "i < 6" "a \<le> 6" "?h < 6" "length (s_tx_desc ?b) = 6"
      "length (s_tx_slots ?b) = 6" "length (d_buffer (s_tx_desc ?b ! i)) = 1536"
    using ring armed(2) by (auto simp: tx_ring_def)
  have free: "\<not> tx_owned ?b i" using ring armed(3) i(2) by (auto simp: tx_ring_def)
  have a: "a < 6"
  proof (rule ccontr)
    assume "\<not> a < 6"
    then have "a = 6" using i(3) by simp
    then have "i = ?h" using i(1,4) by (simp add: ring6_def)
    then show False using free ring \<open>a = 6\<close> i(4) by (auto simp: tx_ring_def dest: spec [of _ 0])
  qed
  have own: "tx_owned b' k = (tx_owned ?b k \<or> k = i)" for k
    using i(2,5) by (auto simp: tx_owned_def armed(7) nth_list_update_eq_if)
  have key: "tx_key b' k = (if k = i then (session_id, channel) else tx_key ?b k)" for k
    using i(2,6) by (auto simp: tx_key_def armed(6) nth_list_update_eq_if)
  have frame: "tx_frame b' k = (if k = i then take (unat sz) bytes else tx_frame ?b k)" for k
    using i(2,5,7) frame_armed [OF armed(5) len]
    by (auto simp: tx_frame_def armed(7) nth_list_update_eq_if)
  have fin: "tx_finished b' = tx_finished ?b" "i \<notin> tx_finished ?b"
    using i(2,6) armed(3) free by (auto simp: tx_finished_def own armed(6) nth_list_update_eq_if)
  have below: "ring6 ?h j \<noteq> i" if "j < a" for j
    using that a ring6_inj [of j a ?h] by (simp add: i(1))
  have buf: "length (blit (d_buffer (s_tx_desc ?b ! i)) 0 (take (unat sz) bytes)) = 1536"
    using i(7) armed(5) by (simp add: blit_def)
  have "tx_ring b' ?h (Suc a)"
  proof -
    have "unat (s_tx_next b') = ring6 ?h (Suc a)"
    proof -
      have "unat (s_tx_next ?b) = (?h + a) mod 6" using armed(2) i(1) by (simp add: ring6_def)
      then show ?thesis
        using unat_next6 [of "s_tx_next ?b"] by (simp add: armed(8) ring6_def mod_Suc_eq)
    qed
    moreover have "tx_owned b' (ring6 ?h j) \<longleftrightarrow> j < Suc a" if "j < 6" for j
      using ring that a ring6_inj [of j a ?h] by (auto simp: own i(1) tx_ring_def)
    ultimately show ?thesis
      using ring a i(2,5,6,7) by (auto simp: tx_ring_def own)
        (auto simp: armed(6,7) nth_list_update_eq_if buf)
  qed
  moreover have "tx_pending b' ?h (Suc a) = tx_pending ?b ?h a @ [((session_id, channel), take (unat sz) bytes)]"
    using below by (simp add: tx_pending_def key frame i(1) [symmetric])
  moreover have "image_mset (tx_key b') (mset_set (tx_finished b')) =
      image_mset (tx_key ?b) (mset_set (tx_finished ?b))"
    using fin by (auto simp: key intro!: image_mset_cong)
  ultimately show ?thesis using s m armed(1,9)
    by (auto simp: eth_tx_inv_def y' intro!: exI [of _ "Suc a"])
qed

lemma eth_tx_step_inv: "eth_tx_step y y' \<Longrightarrow> eth_tx_inv y \<Longrightarrow> eth_tx_inv y'"
proof (induction rule: eth_tx_step.induct)
  case (submit sz bytes session_id channel y r b')
  then show ?case using eth_tx_submit_inv [OF submit(1,2) refl submit(3)] by simp
next
  case (scan i y)
  then show ?case by (rule eth_tx_scan_inv)
next
  case (dma y st)
  then show ?case using eth_tx_dma_inv [OF dma(1,2) refl dma(3)] by simp
next
  case (other b' y)
  then have "tx_owned b' = tx_owned (xt_b y)" "tx_key b' = tx_key (xt_b y)"
    "tx_frame b' = tx_frame (xt_b y)" "tx_finished b' = tx_finished (xt_b y)"
    by (simp_all add: same_tx_def tx_owned_def tx_key_def tx_frame_def tx_finished_def fun_eq_iff)
  with other show ?case by (simp add: eth_tx_inv_def tx_ring_def tx_pending_def same_tx_def)
qed

lemma eth_tx_reach_inv: "eth_tx_reach y y' \<Longrightarrow> eth_tx_inv y \<Longrightarrow> eth_tx_inv y'"
  by (induction rule: eth_tx_reach.induct) (auto intro: eth_tx_step_inv)


section \<open>Initialisation and the scan\<close>

lemma length_zero_bufs: "i < 6 \<Longrightarrow> length (zero_bufs ! i) = 1536"
  by (simp add: zero_bufs_def ETH_MAX_PACKET_SIZE_def)

lemma init_backend:
  assumes "wlh_eth_backend_init True True True dmasr macfcr = (0, Some b)"
  shows "s_tx_desc b = ETH_DMATxDescChainInit (replicate 6 zero_desc) zero_bufs 6"
    and "s_rx_desc b = ETH_DMARxDescChainInit (replicate 6 zero_desc) zero_bufs 6"
    and "s_tx_slots b = replicate 6 \<lparr>slot_session = 0, slot_channel = 0, in_flight = False\<rparr>"
    and "s_tx_next b = 0" "s_rx_cur b = 0" "eth_log b = []" "s_stats b = zero_eth_stats"
    and "s_eth_sem b = sem_object_init 0 RT_IPC_FLAG_PRIO RT_SEM_VALUE_MAX"
    and "\<not> s_rx_backpressured b" "\<not> s_rx_credit_ready b" "\<not> s_pause_active b" "\<not> s_link_up b"
    and "\<not> s_transport_dead b"
  using assms by (auto simp: wlh_eth_backend_init_def emac_init_def rt_sem_create_def zero_backend_def
      eth_sizes)

lemma next6: "\<not> i < 5 \<Longrightarrow> i < 6 \<Longrightarrow> Suc i mod 6 = 0"
  by (cases "i = 5") auto

lemma eth_tx_start_inv:
  assumes "wlh_eth_backend_init True True True dmasr macfcr = (0, Some b)"
  shows "eth_tx_inv (eth_tx_start b)"
proof -
  note i = init_backend [OF assms]
  have free: "\<not> tx_owned b j" if "j < 6" for j
    using that by (simp add: tx_owned_def i(1) ETH_DMATxDescChainInit_def)
  have "tx_ring b 0 0"
    using free next6
    by (simp add: tx_ring_def i(1,3,4) ETH_DMATxDescChainInit_def length_zero_bufs)
  moreover have "tx_finished b = {}" by (auto simp: tx_finished_def i(3))
  ultimately show ?thesis
    by (simp add: eth_tx_inv_def eth_tx_start_def tx_pending_def i(6) exI [of _ 0])
qed

lemma scan_slot_effect:
  assumes "length (s_tx_slots b) = 6" "i < 6"
  shows "tx_finished (eth_tx_complete_slot i b) = tx_finished b - {i}"
    and "length (s_tx_slots (eth_tx_complete_slot i b)) = 6"
    and "tx_key (eth_tx_complete_slot i b) = tx_key b"
    and "completions (eth_log (eth_tx_complete_slot i b)) =
      completions (eth_log b) @ (if i \<in> tx_finished b then [tx_key b i] else [])"
proof -
  let ?b' = "eth_tx_complete_slot i b"
  show "tx_finished ?b' = tx_finished b - {i}"
    using assms by (auto simp: tx_finished_def eth_tx_complete_slot_def Let_def tx_owned_def
        nth_list_update_eq_if split: if_splits)
  show "length (s_tx_slots ?b') = 6"
    using assms by (simp add: eth_tx_complete_slot_def Let_def)
  show "tx_key ?b' = tx_key b"
    by (auto simp: tx_key_def eth_tx_complete_slot_def Let_def fun_eq_iff nth_list_update_eq_if)
  show "completions (eth_log ?b') =
      completions (eth_log b) @ (if i \<in> tx_finished b then [tx_key b i] else [])"
    using assms by (auto simp: tx_finished_def eth_tx_complete_slot_def Let_def tx_owned_def tx_key_def)
qed

lemma scan_slots:
  assumes "length (s_tx_slots b) = 6" "set is \<subseteq> {..<6}" "distinct is"
  shows "tx_finished (fold eth_tx_complete_slot is b) = tx_finished b - set is \<and>
    completions (eth_log (fold eth_tx_complete_slot is b)) =
      completions (eth_log b) @ map (tx_key b) (filter (\<lambda>i. i \<in> tx_finished b) is)"
  using assms
proof (induction "is" arbitrary: b)
  case (Cons i "is")
  then have i: "i < 6" by simp
  note e = scan_slot_effect [OF Cons.prems(1) i]
  have "i \<notin> set is" using Cons.prems(3) by simp
  then have "filter (\<lambda>j. j \<in> tx_finished b - {i}) is = filter (\<lambda>j. j \<in> tx_finished b) is"
    by (intro filter_cong) auto
  with Cons.IH [OF e(2)] Cons.prems e show ?case by auto
qed simp

section \<open>Properties\<close>

text \<open>C5
  Host-to-wire frames go out in order and exactly once, as long as the transport is not reset
  (wlh_eth_transport_dead gives up the frames in flight, eth_tx_reset_overwrites_owned).  From an
  initialised backend, under every interleaving of submissions by the core, the worker's
  completion scan, transfers by the DMA and the rest of the backend but that call, the frames on
  the wire are, byte for byte and in order, a prefix of the frames the backend has accepted, at
  most six accepted frames are not sent yet, and the completions reported to the core are for
  sent frames, once each.
\<close>

theorem eth_tx_in_order_once:
  assumes "wlh_eth_backend_init True True True dmasr macfcr = (0, Some b)"
    and "eth_tx_reach (eth_tx_start b) y"
  shows "\<exists>sent pending. xt_sent y = sent @ pending \<and> xt_wire y = map snd sent \<and>
    length pending \<le> 6 \<and> mset (completions (eth_log (xt_b y))) \<subseteq># mset (map fst sent)"
proof -
  obtain a sent where "tx_ring (xt_b y) (xt_hw y) a" "xt_wire y = map snd sent"
      "xt_sent y = sent @ tx_pending (xt_b y) (xt_hw y) a"
      "mset (completions (eth_log (xt_b y))) \<subseteq># mset (map fst sent)"
    using eth_tx_reach_inv [OF assms(2) eth_tx_start_inv [OF assms(1)]]
    by (auto simp: eth_tx_inv_def)
  then show ?thesis
    by (intro exI [of _ sent] exI [of _ "tx_pending (xt_b y) (xt_hw y) a"])
       (simp add: tx_pending_def tx_ring_def)
qed

text \<open>
  The ownership protocol of the transmit ring: in every reachable state a descriptor the DMA
  owns belongs to a slot in flight, so that its buffer is not given to another frame, and the
  armed descriptors are exactly those from the one the DMA fetches next: none is left behind
  a suspended DMA.
\<close>

theorem eth_tx_ownership:
  assumes "wlh_eth_backend_init True True True dmasr macfcr = (0, Some b)"
    and "eth_tx_reach (eth_tx_start b) y"
  shows "(\<forall>i<6. tx_owned (xt_b y) i \<longrightarrow> in_flight (s_tx_slots (xt_b y) ! i)) \<and>
    (\<exists>a\<le>6. unat (s_tx_next (xt_b y)) = (xt_hw y + a) mod 6 \<and>
      (\<forall>i<6. tx_owned (xt_b y) i \<longleftrightarrow> (\<exists>j<a. i = (xt_hw y + j) mod 6)))"
proof -
  obtain a where r: "tx_ring (xt_b y) (xt_hw y) a"
    using eth_tx_reach_inv [OF assms(2) eth_tx_start_inv [OF assms(1)]]
    by (auto simp: eth_tx_inv_def)
  then have "\<forall>i<6. tx_owned (xt_b y) i \<longleftrightarrow> (\<exists>j<a. i = (xt_hw y + j) mod 6)"
    using tx_ring_owned [OF r] by (simp add: ring6_def)
  with r show ?thesis by (auto simp: tx_ring_def ring6_def)
qed

text \<open>
  The completion scan misses nothing: after one scan no slot is in flight whose transfer has
  ended, and exactly the slots that were in that state have been completed, in slot order,
  with their own session and channel.
\<close>

theorem eth_tx_scan_complete:
  assumes "length (s_tx_slots b) = 6"
  shows "tx_finished (eth_tx_complete_scan b) = {} \<and>
    completions (eth_log (eth_tx_complete_scan b)) = completions (eth_log b) @
      map (tx_key b) (filter (\<lambda>i. in_flight (s_tx_slots b ! i) \<and> \<not> tx_owned b i) [0..<6])"
proof -
  have "filter (\<lambda>i. i \<in> tx_finished b) [0..<6] =
      filter (\<lambda>i. in_flight (s_tx_slots b ! i) \<and> \<not> tx_owned b i) [0..<6]"
    by (intro filter_cong) (auto simp: tx_finished_def)
  moreover have "tx_finished b - set [0..<6] = {}" by (auto simp: tx_finished_def)
  moreover have "set [0..<6] \<subseteq> {..<6::nat}" by auto
  ultimately show ?thesis
    using scan_slots [OF assms, of "[0..<6]"]
    by (simp add: eth_tx_complete_scan_def WLH_ETH_TX_DESC_NUM_def del: set_upt)
qed

text \<open>
  A limit: a transport reset forgets frames the DMA still owns.  When the ring is full of armed
  descriptors, wlh_eth_transport_dead marks every slot free, and after
  wlh_eth_transport_alive the next frame of the core is accepted and overwrites the buffer of
  the descriptor the DMA has not sent yet, which it still owns.
\<close>

theorem eth_tx_reset_overwrites_owned:
  assumes "length (s_tx_slots b) = 6" "length (s_tx_desc b) = 6" "unat (s_tx_next b) < 6"
    and "\<forall>i<6. tx_owned b i \<and> length (d_buffer (s_tx_desc b ! i)) = 1536" and "s_link_up b"
    and "14 \<le> unat sz" "unat sz \<le> 1536" "unat sz \<le> length bytes"
    and "wlh_eth_transport_dead b k = (b1, k1)" "wlh_eth_transport_alive b1 k1 = (b2, k2)"
    and "wlh_eth_rx_from_core session_id channel (Some bytes) sz b2 = (r, b3)"
  shows "r = PENDING \<and> tx_owned b2 (unat (s_tx_next b)) \<and>
    tx_frame b2 (unat (s_tx_next b)) = tx_frame b (unat (s_tx_next b)) \<and>
    tx_frame b3 (unat (s_tx_next b)) = take (unat sz) bytes"
proof -
  let ?i = "unat (s_tx_next b)"
  have b2: "s_tx_desc b2 = s_tx_desc b" "s_tx_next b2 = s_tx_next b" "s_link_up b2"
      "\<not> s_transport_dead b2" "\<not> in_flight (s_tx_slots b2 ! ?i)"
    using assms(1,3,5,9,10)
    by (auto simp: wlh_eth_transport_dead_def wlh_eth_transport_alive_def Let_def split: prod.splits)
  have desc: "length (s_tx_desc b) = 6" "length (d_buffer (s_tx_desc b ! ?i)) = 1536"
    using assms(2-4) by simp_all
  from assms(11,8) have "r = PENDING \<and> tx_frame b3 ?i = take (unat sz) bytes"
  proof (cases rule: rx_from_core_cases)
    case refused
    then show ?thesis
      using assms(6,7,11) b2
      by (auto simp: wlh_eth_rx_from_core_def reject_frame_def Let_def eth_sizes word_less_nat_alt)
  next
    case (armed i)
    then show ?thesis
      using frame_armed [OF armed(5) assms(8) desc(2)] b2(1,2) desc(1) assms(3)
      by (simp add: tx_frame_def)
  qed
  then show ?thesis using assms(3,4) b2(1) by (simp add: tx_owned_def tx_frame_def)
qed


section \<open>Witnesses\<close>

lemma demo_eth_init: "\<exists>b. wlh_eth_backend_init True True True 0 0 = (0, Some b)"
  by (simp add: wlh_eth_backend_init_def emac_init_def rt_sem_create_def)

lemma demo_eth_sent:
  assumes "wlh_eth_backend_init True True True 0 0 = (0, Some b)"
  shows "\<exists>y. eth_tx_reach (eth_tx_start b) y \<and> xt_sent y = [((7, 3), replicate 20 1)]"
proof -
  note i = init_backend [OF assms]
  let ?y = "(eth_tx_start b)\<lparr>xt_b := b\<lparr>s_link_up := True\<rparr>\<rparr>"
  have 1: "eth_tx_step (eth_tx_start b) ?y"
    by (rule other) (simp_all add: same_tx_def eth_tx_start_def)
  obtain r b' where s: "wlh_eth_rx_from_core 7 3 (Some (replicate 20 1)) 20 (xt_b ?y) = (r, b')"
    by (cases "wlh_eth_rx_from_core 7 3 (Some (replicate 20 1)) 20 (xt_b ?y)")
  have "r = PENDING"
    using s i(3,4,13)
    by (auto simp: wlh_eth_rx_from_core_def Let_def eth_sizes reject_frame_def eth_tx_start_def
        split: if_splits)
  with submit [OF _ s] have "eth_tx_step ?y (?y\<lparr>xt_b := b', xt_sent := [((7, 3), replicate 20 1)]\<rparr>)"
    by (simp add: eth_tx_start_def)
  from eth_tx_more [OF eth_tx_more [OF eth_tx_refl 1] this] show ?thesis by fastforce
qed

lemma eth_tx_in_order_once_witness:
  "\<exists>b y sent pending. eth_tx_reach (eth_tx_start b) y \<and> xt_sent y = [((7, 3), replicate 20 1)] \<and>
    xt_sent y = sent @ pending \<and> xt_wire y = map snd sent"
proof -
  obtain b where b: "wlh_eth_backend_init True True True 0 0 = (0, Some b)" using demo_eth_init by blast
  obtain y where y: "eth_tx_reach (eth_tx_start b) y" "xt_sent y = [((7, 3), replicate 20 1)]"
    using demo_eth_sent [OF b] by blast
  from eth_tx_in_order_once [OF b y(1)] y show ?thesis by metis
qed

lemma eth_tx_ownership_witness:
  "\<exists>b y. eth_tx_reach (eth_tx_start b) y \<and> xt_sent y = [((7, 3), replicate 20 1)] \<and>
    (\<forall>i<6. tx_owned (xt_b y) i \<longrightarrow> in_flight (s_tx_slots (xt_b y) ! i))"
proof -
  obtain b where b: "wlh_eth_backend_init True True True 0 0 = (0, Some b)" using demo_eth_init by blast
  obtain y where y: "eth_tx_reach (eth_tx_start b) y" "xt_sent y = [((7, 3), replicate 20 1)]"
    using demo_eth_sent [OF b] by blast
  from eth_tx_ownership [OF b y(1)] y show ?thesis by metis
qed

lemma eth_tx_scan_complete_witness:
  "\<exists>b. length (s_tx_slots b) = 6 \<and> tx_finished (eth_tx_complete_scan b) = {}"
proof -
  have "length (s_tx_slots (zero_backend 0 0 (sem_object_init 0 RT_IPC_FLAG_PRIO RT_SEM_VALUE_MAX))) = 6"
    by (simp add: zero_backend_def)
  with eth_tx_scan_complete [OF this] show ?thesis by blast
qed

text \<open>A backend with six armed frames.\<close>

definition full_backend :: eth_backend where
  "full_backend = (zero_backend 0 0 (sem_object_init 0 RT_IPC_FLAG_PRIO RT_SEM_VALUE_MAX))
     \<lparr>s_link_up := True,
      s_tx_slots := replicate 6 \<lparr>slot_session = 1, slot_channel = 3, in_flight = True\<rparr>,
      s_tx_desc := replicate 6 \<lparr>d_status = ETH_DMATxDesc_OWN, d_size = 60,
        d_buffer = replicate 1536 0, d_next = 0\<rparr>\<rparr>"

lemma full_backend_facts:
  "length (s_tx_slots full_backend) = 6" "length (s_tx_desc full_backend) = 6"
  "unat (s_tx_next full_backend) < 6" "s_link_up full_backend"
  "\<forall>i<6. tx_owned full_backend i \<and> length (d_buffer (s_tx_desc full_backend ! i)) = 1536"
  by (simp_all add: full_backend_def zero_backend_def tx_owned_def eth_tx_bits)

lemma eth_tx_reset_overwrites_owned_witness:
  "\<exists>b1 k1 b2 k2 r b3. wlh_eth_transport_dead full_backend two_threads = (b1, k1) \<and>
    wlh_eth_transport_alive b1 k1 = (b2, k2) \<and>
    wlh_eth_rx_from_core 2 3 (Some (replicate 20 1)) 20 b2 = (r, b3) \<and> r = PENDING \<and>
    tx_owned b2 0 \<and> tx_frame b3 0 = replicate 20 1"
proof -
  obtain b1 k1 where 1: "wlh_eth_transport_dead full_backend two_threads = (b1, k1)"
    by (cases "wlh_eth_transport_dead full_backend two_threads")
  obtain b2 k2 where 2: "wlh_eth_transport_alive b1 k1 = (b2, k2)"
    by (cases "wlh_eth_transport_alive b1 k1")
  obtain r b3 where 3: "wlh_eth_rx_from_core 2 3 (Some (replicate 20 1)) 20 b2 = (r, b3)"
    by (cases "wlh_eth_rx_from_core 2 3 (Some (replicate 20 1)) 20 b2")
  have "s_tx_next full_backend = 0" by (simp add: full_backend_def zero_backend_def)
  with eth_tx_reset_overwrites_owned [OF full_backend_facts(1-3,5,4) _ _ _ 1 2 3] 1 2 3
  show ?thesis by auto
qed

end
