(* ===== verification/Link_Control.thy ===== *)
theory Link_Control
  imports Ipc_Event Eth_Tx
begin

text \<open>
  The link-control thread of applications/app/wlh_app.c, which restarts the core when the
  transport reports a reset.  The reset callback runs on the USB transmit thread: it cuts the
  Ethernet backend off from the core and sets a flag of an event; the thread waits for the
  flag, lets the bus settle, stops the core, waits again, starts it and opens the backend.
  The core is a parameter (\<open>core_stop\<close>, \<open>core_start\<close>).
\<close>

section \<open>The link-control thread\<close>

definition LINK_EVENT_TRANSPORT_RESET :: u32 where "LINK_EVENT_TRANSPORT_RESET = 1"

text \<open>
  The thread is about to call rt_event_recv, suspended in it, in the delay before the core is
  stopped, or in the delay before it is started.
\<close>

datatype link_pc = LkRecv | LkBlocked | LkSettle | LkReclaim

record 'c wlh_app =
  link_events :: ev_state
  app_eth :: eth_backend
  app_core :: 'c
  link_pc :: link_pc

definition on_transport_reset :: "'c wlh_app \<Rightarrow> 'c wlh_app" where
  "on_transport_reset a =
    (case wlh_eth_transport_dead (app_eth a) (ev_kernel (link_events a)) of
       (b, k) \<Rightarrow> a\<lparr>app_eth := b,
         link_events := snd (rt_event_send LINK_EVENT_TRANSPORT_RESET ((link_events a)\<lparr>ev_kernel := k\<rparr>))\<rparr>)"

definition link_running :: "tid \<Rightarrow> 'c wlh_app \<Rightarrow> bool" where
  "link_running tt a \<longleftrightarrow> rt_current_thread (ev_kernel (link_events a)) = tt \<and>
     stat (threads (ev_kernel (link_events a)) tt) = RT_THREAD_RUNNING"

text \<open>
  The thread from one of its places to the next.  The result of rt_event_recv and the flags it
  stores are not looked at.
\<close>

definition link_control_thread ::
    "('c \<Rightarrow> 'c \<times> bool) \<Rightarrow> ('c \<Rightarrow> 'c \<times> bool) \<Rightarrow> 'c wlh_app \<Rightarrow> 'c wlh_app option" where
  "link_control_thread core_stop core_start a =
    (case link_pc a of
       LkRecv \<Rightarrow>
        (case rt_event_recv LINK_EVENT_TRANSPORT_RESET (RT_EVENT_FLAG_OR OR RT_EVENT_FLAG_CLEAR) (-1) (link_events a) of
           (Blocked, _, y) \<Rightarrow> Some (a\<lparr>link_events := y, link_pc := LkBlocked\<rparr>)
         | (Returned _, _, y) \<Rightarrow> Some (a\<lparr>link_events := y, link_pc := LkSettle\<rparr>)
         | (Halted, _, _) \<Rightarrow> None)
     | LkBlocked \<Rightarrow> Some (a\<lparr>link_pc := LkSettle\<rparr>)
     | LkSettle \<Rightarrow> Some (a\<lparr>app_core := fst (core_stop (app_core a)), link_pc := LkReclaim\<rparr>)
     | LkReclaim \<Rightarrow>
        (case core_start (app_core a) of
           (c, ok) \<Rightarrow>
             if ok
             then (case wlh_eth_transport_alive (app_eth a) (ev_kernel (link_events a)) of
                     (b, k) \<Rightarrow> Some (a\<lparr>app_core := c, app_eth := b, link_events := (link_events a)\<lparr>ev_kernel := k\<rparr>,
                                 link_pc := LkRecv\<rparr>))
             else Some (a\<lparr>app_core := c, link_pc := LkRecv\<rparr>)))"

section \<open>The system\<close>

text \<open>
  The link-control thread \<open>tt\<close>, the reset callback, and everything else.  The callback runs on the
  transmit thread, which has a higher priority, so the thread sees its two calls as one.  How
  long the thread sleeps in a delay is left open.
\<close>

abbreviation link_kernel :: "'c wlh_app \<Rightarrow> rt_kernel" where
  "link_kernel a \<equiv> ev_kernel (link_events a)"

abbreviation reset_flag :: "'c wlh_app \<Rightarrow> bool" where
  "reset_flag a \<equiv> ev_bits (link_events a) AND LINK_EVENT_TRANSPORT_RESET \<noteq> 0"

definition link_waits :: "tid \<Rightarrow> 'c wlh_app \<Rightarrow> bool" where
  "link_waits tt a \<longleftrightarrow> link_pc a = LkBlocked \<and> rt_sched_thread_is_suspended (link_kernel a) tt"

text \<open>No restart of the core is going on: the thread has not left rt_event_recv.\<close>

definition link_idle :: "tid \<Rightarrow> 'c wlh_app \<Rightarrow> bool" where
  "link_idle tt a \<longleftrightarrow> link_pc a = LkRecv \<or> link_waits tt a"

definition app_others :: "tid \<Rightarrow> 'c wlh_app \<Rightarrow> 'c wlh_app \<Rightarrow> bool" where
  "app_others tt a b \<longleftrightarrow>
    link_pc b = link_pc a \<and> ev_obj (link_events b) = ev_obj (link_events a) \<and>
    ev_wait (link_events b) tt = ev_wait (link_events a) tt \<and> s_transport_dead (app_eth b) = s_transport_dead (app_eth a) \<and>
    tt \<notin> set (sem_waiters (s_eth_sem (app_eth b))) \<and>
    (link_waits tt a \<longrightarrow> wakeable (link_kernel b) tt) \<and>
    (link_pc a = LkBlocked \<and> \<not> link_waits tt a \<longrightarrow> \<not> rt_sched_thread_is_suspended (link_kernel b) tt)"

text \<open>With \<open>late\<close> a reset may be reported at any time, otherwise only when no restart is going on.\<close>

inductive app_step ::
    "('c \<Rightarrow> 'c \<times> bool) \<Rightarrow> ('c \<Rightarrow> 'c \<times> bool) \<Rightarrow> bool \<Rightarrow> tid \<Rightarrow> 'c wlh_app \<Rightarrow> 'c wlh_app \<Rightarrow> bool"
  for core_stop core_start late tt where
  thread: "link_running tt a \<Longrightarrow> link_control_thread core_stop core_start a = Some b \<Longrightarrow>
    app_step core_stop core_start late tt a b"
| reset: "late \<or> link_idle tt a \<Longrightarrow> app_step core_stop core_start late tt a (on_transport_reset a)"
| others: "app_others tt a b \<Longrightarrow> app_step core_stop core_start late tt a b"

definition app_start :: "tid \<Rightarrow> 'c wlh_app \<Rightarrow> bool" where
  "app_start tt a \<longleftrightarrow> link_pc a = LkRecv \<and> ev_obj (link_events a) = rt_event_init RT_IPC_FLAG_PRIO \<and>
     \<not> s_transport_dead (app_eth a) \<and> tt \<notin> set (sem_waiters (s_eth_sem (app_eth a)))"

inductive app_reach ::
    "('c \<Rightarrow> 'c \<times> bool) \<Rightarrow> ('c \<Rightarrow> 'c \<times> bool) \<Rightarrow> bool \<Rightarrow> tid \<Rightarrow> 'c wlh_app \<Rightarrow> bool"
  for core_stop core_start late tt where
  init: "app_start tt a \<Longrightarrow> app_reach core_stop core_start late tt a"
| step: "app_reach core_stop core_start late tt a \<Longrightarrow> app_step core_stop core_start late tt a b \<Longrightarrow>
    app_reach core_stop core_start late tt b"

section \<open>What the operations do to the thread\<close>

lemma release_other_thread:
  assumes "rt_sem_release s k = (r, s', k')" "tt \<notin> set (sem_waiters s)"
  shows "threads k' tt = threads k tt" "rt_current_thread k' = rt_current_thread k" "tt \<notin> set (sem_waiters s')"
  using assms by (auto simp: rt_sem_release_def rt_susp_list_dequeue_def rt_sched_thread_ready_def
      rt_sched_thread_timer_stop_def rt_timer_stop_def rt_sched_insert_thread_def
      split: if_splits list.splits prod.splits dest: notin_set_remove1)

definition link_inv :: "tid \<Rightarrow> 'c wlh_app \<Rightarrow> bool" where
  "link_inv tt a \<longleftrightarrow> tt \<notin> set (sem_waiters (s_eth_sem (app_eth a))) \<and>
    (if link_waits tt a
     then ev_waiting (link_events a) = [tt] \<and> wakeable (link_kernel a) tt \<and> \<not> reset_flag a \<and>
       ev_wait (link_events a) tt = \<lparr>event_set = 1, event_info = RT_EVENT_FLAG_OR OR RT_EVENT_FLAG_CLEAR\<rparr>
     else ev_waiting (link_events a) = [])"

lemma suspended_cong: "threads k' tt = threads k tt \<Longrightarrow> rt_sched_thread_is_suspended k' tt = rt_sched_thread_is_suspended k tt"
  by (simp add: rt_sched_thread_is_suspended_def)

lemma link_wakeable_cong: "threads k' tt = threads k tt \<Longrightarrow> wakeable k' tt = wakeable k tt"
  by (simp add: wakeable_def rt_sched_thread_is_suspended_def)

lemma reset_bit_cleared: "(x AND - 2) AND (1 :: u32) = 0"
  by (simp add: and.assoc)

lemma reset_bit_set: "(x OR 1) AND (1 :: u32) \<noteq> 0"
  by (simp add: bit.conj_disj_distrib2)

text \<open>rt_event_send with the flag, when nobody waits and when the thread does.\<close>

lemma send_nobody:
  "ev_waiting y = [] \<Longrightarrow> snd (rt_event_send LINK_EVENT_TRANSPORT_RESET y) =
     y\<lparr>ev_obj := (ev_obj y)\<lparr>ev_set := ev_bits y OR LINK_EVENT_TRANSPORT_RESET\<rparr>\<rparr>"
  by (simp add: rt_event_send_def LINK_EVENT_TRANSPORT_RESET_def)

lemma send_waiting:
  assumes "ev_waiting y = [tt]" "wakeable (ev_kernel y) tt" "ev_bits y AND LINK_EVENT_TRANSPORT_RESET = 0"
    and "ev_wait y tt = \<lparr>event_set = 1, event_info = RT_EVENT_FLAG_OR OR RT_EVENT_FLAG_CLEAR\<rparr>"
  defines "z \<equiv> snd (rt_event_send LINK_EVENT_TRANSPORT_RESET y)"
  shows "ev_waiting z = []" "ev_bits z AND LINK_EVENT_TRANSPORT_RESET = 0" "ev_kernel z = woken tt RT_EOK (ev_kernel y)"
proof -
  note flags = LINK_EVENT_TRANSPORT_RESET_def RT_EVENT_FLAG_OR_def RT_EVENT_FLAG_CLEAR_def RT_EVENT_FLAG_AND_def
  have inv: "event_inv y"
    using assms(1-4) by (simp add: event_inv_def event_option_ok_def event_due_def event_available_def prio_sorted_def flags
        and.commute)
  have due: "event_due (y\<lparr>ev_obj := (ev_obj y)\<lparr>ev_set := ev_bits y OR LINK_EVENT_TRANSPORT_RESET\<rparr>\<rparr>) tt"
    using assms(4) by (simp add: event_due_def event_available_def flags bit.conj_disj_distrib2)
  have "z = event_send_spec LINK_EVENT_TRANSPORT_RESET y"
    unfolding z_def using event_send_eq_spec [OF inv, of LINK_EVENT_TRANSPORT_RESET] by (simp add: LINK_EVENT_TRANSPORT_RESET_def)
  then show "ev_waiting z = []" "ev_bits z AND LINK_EVENT_TRANSPORT_RESET = 0" "ev_kernel z = woken tt RT_EOK (ev_kernel y)"
    using assms(1,4) due
    by (simp_all add: event_send_spec_def Let_def event_cleared_def event_clear_def event_got_def flags bit.conj_disj_distrib2
        reset_bit_cleared)
qed

lemma recv_taken:
  assumes "ev_bits y AND LINK_EVENT_TRANSPORT_RESET \<noteq> 0"
  shows "\<exists>r z. rt_event_recv LINK_EVENT_TRANSPORT_RESET (RT_EVENT_FLAG_OR OR RT_EVENT_FLAG_CLEAR) (-1) y = (Returned RT_EOK, r, z) \<and>
     ev_waiting z = ev_waiting y \<and> ev_bits z AND LINK_EVENT_TRANSPORT_RESET = 0"
  using assms by (simp add: rt_event_recv_def event_recv_main_def event_option_ok_def event_available_def Let_def
      LINK_EVENT_TRANSPORT_RESET_def RT_EVENT_FLAG_OR_def RT_EVENT_FLAG_CLEAR_def RT_EVENT_FLAG_AND_def reset_bit_cleared)

lemma recv_blocks:
  assumes "ev_bits y AND LINK_EVENT_TRANSPORT_RESET = 0" "ev_waiting y = []" "rt_current_thread (ev_kernel y) = tt"
    and "stat (threads (ev_kernel y) tt) = RT_THREAD_RUNNING"
  shows "\<exists>r z. rt_event_recv LINK_EVENT_TRANSPORT_RESET (RT_EVENT_FLAG_OR OR RT_EVENT_FLAG_CLEAR) (-1) y = (Blocked, r, z) \<and>
     ev_waiting z = [tt] \<and> ev_bits z = ev_bits y \<and> wakeable (ev_kernel z) tt \<and>
     ev_wait z tt = \<lparr>event_set = 1, event_info = RT_EVENT_FLAG_OR OR RT_EVENT_FLAG_CLEAR\<rparr>"
  using assms by (cases "ev_flag (ev_obj y)") (simp_all add: rt_event_recv_def event_recv_main_def event_option_ok_def event_available_def Let_def
      LINK_EVENT_TRANSPORT_RESET_def RT_EVENT_FLAG_OR_def RT_EVENT_FLAG_CLEAR_def RT_EVENT_FLAG_AND_def
      rt_thread_suspend_to_list_def rt_susp_list_enqueue_def rt_sched_thread_timer_stop_def rt_timer_stop_def
      wakeable_def rt_sched_thread_is_suspended_def error_codes threads_upd_thread)

text \<open>The callback: what it leaves of the thread, with a restart owed in every case.\<close>

lemma reset_effect:
  assumes "link_inv tt a"
  defines "b \<equiv> on_transport_reset a"
  shows "link_inv tt b" "link_pc b = link_pc a" "app_core b = app_core a" "s_transport_dead (app_eth b)"
    and "link_waits tt a \<Longrightarrow> \<not> link_waits tt b \<and> \<not> reset_flag b" "\<not> link_waits tt a \<Longrightarrow> \<not> link_waits tt b \<and> reset_flag b"
    and "\<not> link_waits tt a \<Longrightarrow> threads (link_kernel b) tt = threads (link_kernel a) tt"
proof -
  obtain e k where d: "wlh_eth_transport_dead (app_eth a) (link_kernel a) = (e, k)"
    by (cases "wlh_eth_transport_dead (app_eth a) (link_kernel a)")
  have tn: "tt \<notin> set (sem_waiters (s_eth_sem (app_eth a)))"
    using assms(1) by (simp add: link_inv_def)
  obtain r sm where rel: "rt_sem_release (s_eth_sem (app_eth a)) (link_kernel a) = (r, sm, k)" and e: "s_eth_sem e = sm" "s_transport_dead e"
    using d by (auto simp: wlh_eth_transport_dead_def Let_def split: prod.splits)
  note k = release_other_thread [OF rel tn]
  let ?y = "(link_events a)\<lparr>ev_kernel := k\<rparr>"
  have b: "b = a\<lparr>app_eth := e, link_events := snd (rt_event_send LINK_EVENT_TRANSPORT_RESET ?y)\<rparr>"
    by (simp add: b_def on_transport_reset_def d)
  show "link_pc b = link_pc a" "app_core b = app_core a" "s_transport_dead (app_eth b)"
    by (simp_all add: b e)
  have *: "(link_waits tt a \<longrightarrow> \<not> link_waits tt b \<and> \<not> reset_flag b) \<and> (\<not> link_waits tt a \<longrightarrow> \<not> link_waits tt b \<and> reset_flag b) \<and>
      ev_waiting (link_events b) = [] \<and> (\<not> link_waits tt a \<longrightarrow> threads (link_kernel b) tt = threads (link_kernel a) tt)"
  proof (cases "link_waits tt a")
    case True
    then have "ev_waiting ?y = [tt]" "wakeable (ev_kernel ?y) tt" "ev_bits ?y AND LINK_EVENT_TRANSPORT_RESET = 0"
      "ev_wait ?y tt = \<lparr>event_set = 1, event_info = RT_EVENT_FLAG_OR OR RT_EVENT_FLAG_CLEAR\<rparr>"
      using assms(1) by (simp_all add: link_inv_def link_wakeable_cong [OF k(1)])
    from send_waiting [OF this] show ?thesis
      using True by (simp add: b link_waits_def rt_sched_thread_is_suspended_def woken_def)
  next
    case False
    then have "ev_waiting ?y = []"
      using assms(1) by (simp add: link_inv_def)
    from send_nobody [OF this] show ?thesis
      using False \<open>ev_waiting ?y = []\<close> by (simp add: b link_waits_def suspended_cong [OF k(1)] k(1) LINK_EVENT_TRANSPORT_RESET_def reset_bit_set)
  qed
  then show "link_waits tt a \<Longrightarrow> \<not> link_waits tt b \<and> \<not> reset_flag b" "\<not> link_waits tt a \<Longrightarrow> \<not> link_waits tt b \<and> reset_flag b"
    "\<not> link_waits tt a \<Longrightarrow> threads (link_kernel b) tt = threads (link_kernel a) tt"
    by blast+
  show "link_inv tt b"
    using * k(3) by (auto simp: link_inv_def b e(1))
qed

lemma link_inv_cong:
  assumes "link_inv tt a" "link_pc b = link_pc a" "link_events b = link_events a" "app_eth b = app_eth a"
  shows "link_inv tt b"
  using assms by (simp add: link_inv_def link_waits_def)

lemma thread_recv:
  assumes "link_inv tt a" "link_running tt a" "link_pc a = LkRecv" "link_control_thread core_stop core_start a = Some b"
  shows "link_inv tt b \<and> app_eth b = app_eth a \<and> \<not> reset_flag b \<and> (if reset_flag a then link_pc b = LkSettle else link_waits tt b)"
proof (cases "reset_flag a")
  case True
  obtain r z where "rt_event_recv LINK_EVENT_TRANSPORT_RESET (RT_EVENT_FLAG_OR OR RT_EVENT_FLAG_CLEAR) (-1) (link_events a) =
      (Returned RT_EOK, r, z)" "ev_waiting z = ev_waiting (link_events a)" "ev_bits z AND LINK_EVENT_TRANSPORT_RESET = 0"
    using recv_taken [OF True] by blast
  then show ?thesis
    using assms True by (auto simp: link_control_thread_def link_inv_def link_waits_def)
next
  case False
  have w: "ev_waiting (link_events a) = []"
    using assms(1,3) by (simp add: link_inv_def link_waits_def)
  obtain r z where "rt_event_recv LINK_EVENT_TRANSPORT_RESET (RT_EVENT_FLAG_OR OR RT_EVENT_FLAG_CLEAR) (-1) (link_events a) =
      (Blocked, r, z)" "ev_waiting z = [tt]" "ev_bits z = ev_bits (link_events a)" "wakeable (ev_kernel z) tt"
    "ev_wait z tt = \<lparr>event_set = 1, event_info = RT_EVENT_FLAG_OR OR RT_EVENT_FLAG_CLEAR\<rparr>"
    using recv_blocks [OF _ w] False assms(2) by (auto simp: link_running_def)
  then show ?thesis
    using assms False by (auto simp: link_control_thread_def link_inv_def link_waits_def wakeable_def)
qed

text \<open>The end of a restart.\<close>

lemma thread_reclaim:
  assumes "link_pc a = LkReclaim" "link_control_thread core_stop core_start a = Some b"
  shows "link_pc b = LkRecv" "ev_obj (link_events b) = ev_obj (link_events a)" "link_inv tt a \<Longrightarrow> link_inv tt b"
    and "s_transport_dead (app_eth b) = (s_transport_dead (app_eth a) \<and> \<not> snd (core_start (app_core a)))"
proof -
  obtain c ok where c: "core_start (app_core a) = (c, ok)"
    by (cases "core_start (app_core a)")
  obtain e k where d: "wlh_eth_transport_alive (app_eth a) (link_kernel a) = (e, k)"
    by (cases "wlh_eth_transport_alive (app_eth a) (link_kernel a)")
  obtain r sm where rel: "rt_sem_release (s_eth_sem (app_eth a)) (link_kernel a) = (r, sm, k)"
    and e: "s_eth_sem e = sm" "\<not> s_transport_dead e"
    using d by (auto simp: wlh_eth_transport_alive_def Let_def split: prod.splits)
  have b: "b = (if ok then a\<lparr>app_core := c, app_eth := e, link_events := (link_events a)\<lparr>ev_kernel := k\<rparr>, link_pc := LkRecv\<rparr>
                else a\<lparr>app_core := c, link_pc := LkRecv\<rparr>)"
    using assms c d by (auto simp: link_control_thread_def)
  show "link_pc b = LkRecv" "ev_obj (link_events b) = ev_obj (link_events a)"
    "s_transport_dead (app_eth b) = (s_transport_dead (app_eth a) \<and> \<not> snd (core_start (app_core a)))"
    using c e by (simp_all add: b)
  show "link_inv tt b" if "link_inv tt a"
    using that assms(1) release_other_thread(3) [OF rel, of tt] e by (auto simp: link_inv_def link_waits_def b)
qed

lemma thread_effect:
  assumes "link_inv tt a" "link_running tt a" "link_control_thread core_stop core_start a = Some b"
  shows "link_inv tt b"
proof (cases "link_pc a")
  case LkRecv
  then show ?thesis using thread_recv [OF assms(1,2) _ assms(3)] by blast
next
  case LkBlocked
  have "\<not> link_waits tt a"
    using assms(2) by (simp add: link_running_def link_waits_def rt_sched_thread_is_suspended_def)
  then show ?thesis
    using assms(1,3) LkBlocked by (auto simp: link_control_thread_def link_inv_def link_waits_def)
next
  case LkSettle
  then show ?thesis
    using assms(1,3) by (auto simp: link_control_thread_def link_inv_def link_waits_def)
next
  case LkReclaim
  then show ?thesis using thread_reclaim(3) [OF _ assms(3)] assms(1) by blast
qed

lemma others_effect:
  assumes "app_others tt a b" "link_inv tt a"
  shows "link_inv tt b" "link_pc b = link_pc a" "link_waits tt b = link_waits tt a"
    "ev_bits (link_events b) = ev_bits (link_events a)" "s_transport_dead (app_eth b) = s_transport_dead (app_eth a)"
proof -
  show w: "link_waits tt b = link_waits tt a" and "link_pc b = link_pc a"
    and bits: "ev_bits (link_events b) = ev_bits (link_events a)"
    and "s_transport_dead (app_eth b) = s_transport_dead (app_eth a)"
    using assms(1) by (auto simp: app_others_def link_waits_def wakeable_def)
  show "link_inv tt b"
    using assms w by (auto simp: app_others_def link_inv_def)
qed

lemma reach_link_inv:
  "app_reach core_stop core_start late tt a \<Longrightarrow> link_inv tt a"
proof (induction rule: app_reach.induct)
  case (init a)
  then show ?case
    by (simp add: app_start_def link_inv_def link_waits_def rt_event_init_def)
next
  case (step a b)
  from step.hyps(2) show ?case
    by cases (use step.IH thread_effect reset_effect(1) others_effect(1) in blast)+
qed

section \<open>The invariants\<close>

definition cut_inv :: "tid \<Rightarrow> 'c wlh_app \<Rightarrow> bool" where
  "cut_inv tt a \<longleftrightarrow> (\<not> link_idle tt a \<longrightarrow> s_transport_dead (app_eth a)) \<and>
     (reset_flag a \<longrightarrow> link_pc a = LkRecv \<and> s_transport_dead (app_eth a))"

definition owed :: "tid \<Rightarrow> 'c wlh_app \<Rightarrow> bool" where
  "owed tt a \<longleftrightarrow> \<not> link_idle tt a \<or> link_pc a = LkRecv \<and> reset_flag a"

lemma cut_step:
  assumes "app_step core_stop core_start False tt a b" "link_inv tt a" "cut_inv tt a"
  shows "cut_inv tt b"
  using assms(1)
proof cases
  case thread
  show ?thesis
  proof (cases "link_pc a")
    case LkRecv
    then show ?thesis
      using thread_recv [OF assms(2) thread(1) LkRecv thread(2)] assms(3)
      by (auto simp: cut_inv_def link_idle_def link_waits_def split: if_splits)
  next
    case LkBlocked
    have "\<not> link_waits tt a"
      using thread(1) by (simp add: link_running_def link_waits_def rt_sched_thread_is_suspended_def)
    then show ?thesis
      using thread(2) assms(3) LkBlocked by (auto simp: link_control_thread_def cut_inv_def link_idle_def)
  next
    case LkSettle
    then show ?thesis
      using thread(2) assms(3) by (auto simp: link_control_thread_def cut_inv_def link_idle_def link_waits_def)
  next
    case LkReclaim
    then show ?thesis
      using thread_reclaim(1,2) [OF LkReclaim thread(2)] assms(3) by (auto simp: cut_inv_def link_idle_def)
  qed
next
  case reset
  note r = reset_effect [OF assms(2)]
  have "link_pc a = LkRecv \<or> link_waits tt a"
    using reset(2) by (simp add: link_idle_def)
  then show ?thesis
    using r(2,4,5,6) reset(1) by (auto simp: cut_inv_def)
next
  case others
  then show ?thesis
    using others_effect [OF others assms(2)] assms(3) by (simp add: cut_inv_def link_idle_def)
qed

lemma owed_step:
  assumes "app_step core_stop core_start late tt a b" "link_inv tt a" "\<forall>c. snd (core_start c)"
    and "s_transport_dead (app_eth a) \<longrightarrow> owed tt a" "s_transport_dead (app_eth b)"
  shows "owed tt b"
  using assms(1)
proof cases
  case thread
  show ?thesis
  proof (cases "link_pc a")
    case LkRecv
    then show ?thesis
      using thread_recv [OF assms(2) thread(1) LkRecv thread(2)] assms(4,5)
      by (auto simp: owed_def link_idle_def link_waits_def split: if_splits)
  next
    case LkReclaim
    then show ?thesis
      using thread_reclaim(4) [OF LkReclaim thread(2)] assms(3,5) by simp
  qed (use thread(2) in \<open>auto simp: link_control_thread_def owed_def link_idle_def link_waits_def\<close>)
next
  case reset
  note r = reset_effect [OF assms(2)]
  show ?thesis
    using r(2,5,6) reset(1) by (cases "link_waits tt a") (auto simp: owed_def link_idle_def link_waits_def)
next
  case others
  then show ?thesis
    using others_effect [OF others assms(2)] assms(4,5) by (simp add: owed_def link_idle_def)
qed

section \<open>Turns of the thread\<close>

text \<open>The thread alone, from place to place.\<close>

fun link_turns :: "('c \<Rightarrow> 'c \<times> bool) \<Rightarrow> ('c \<Rightarrow> 'c \<times> bool) \<Rightarrow> nat \<Rightarrow> 'c wlh_app \<Rightarrow> 'c wlh_app option" where
  "link_turns core_stop core_start 0 a = Some a"
| "link_turns core_stop core_start (Suc n) a =
    (case link_control_thread core_stop core_start a of None \<Rightarrow> None | Some b \<Rightarrow> link_turns core_stop core_start n b)"

lemma turns_reclaim:
  assumes "link_pc a = LkReclaim" "\<forall>c. snd (core_start c)"
  shows "\<exists>b. link_turns core_stop core_start 1 a = Some b \<and> link_pc b = LkRecv \<and> \<not> s_transport_dead (app_eth b) \<and>
     reset_flag b = reset_flag a"
proof -
  have "link_control_thread core_stop core_start a \<noteq> None"
    using assms(1) by (simp add: link_control_thread_def split: prod.splits)
  then obtain b where b: "link_control_thread core_stop core_start a = Some b"
    by blast
  then show ?thesis
    using thread_reclaim(1,2,4) [OF assms(1) b] assms(2) by simp
qed

lemma turns_settle:
  assumes "link_pc a = LkSettle" "\<forall>c. snd (core_start c)"
  shows "\<exists>b. link_turns core_stop core_start 2 a = Some b \<and> link_pc b = LkRecv \<and> \<not> s_transport_dead (app_eth b) \<and>
     reset_flag b = reset_flag a"
proof -
  let ?c = "a\<lparr>app_core := fst (core_stop (app_core a)), link_pc := LkReclaim\<rparr>"
  have "link_control_thread core_stop core_start a = Some ?c"
    using assms(1) by (simp add: link_control_thread_def)
  then show ?thesis
    using turns_reclaim [of ?c core_start core_stop] assms(2) by (simp add: numeral_2_eq_2)
qed

lemma turns_blocked:
  assumes "link_pc a = LkBlocked" "\<forall>c. snd (core_start c)"
  shows "\<exists>b. link_turns core_stop core_start 3 a = Some b \<and> link_pc b = LkRecv \<and> \<not> s_transport_dead (app_eth b) \<and>
     reset_flag b = reset_flag a"
proof -
  let ?c = "a\<lparr>link_pc := LkSettle\<rparr>"
  have "link_control_thread core_stop core_start a = Some ?c"
    using assms(1) by (simp add: link_control_thread_def)
  then show ?thesis
    using turns_settle [of ?c core_start core_stop] assms(2) by (simp add: numeral_3_eq_3 numeral_2_eq_2)
qed

lemma turns_to_open:
  assumes "\<not> link_idle tt a" "\<forall>c. snd (core_start c)"
  shows "\<exists>n\<le>3. \<exists>b. link_turns core_stop core_start n a = Some b \<and> link_pc b = LkRecv \<and> \<not> s_transport_dead (app_eth b) \<and>
     reset_flag b = reset_flag a"
proof (cases "link_pc a")
  case LkRecv
  then show ?thesis using assms(1) by (simp add: link_idle_def)
next
  case LkBlocked
  then show ?thesis using turns_blocked [OF _ assms(2)] by blast
next
  case LkSettle
  then show ?thesis using turns_settle [OF _ assms(2)] by (intro exI [of _ 2]) simp
next
  case LkReclaim
  then show ?thesis using turns_reclaim [OF _ assms(2)] by (intro exI [of _ 1]) simp
qed

lemma thread_takes_flag:
  assumes "link_pc a = LkRecv" "reset_flag a"
  shows "\<exists>b. link_control_thread core_stop core_start a = Some b \<and> link_pc b = LkSettle \<and> app_eth b = app_eth a"
  using recv_taken [OF assms(2)] assms(1) by (auto simp: link_control_thread_def)

lemma turns_snoc:
  "link_turns core_stop core_start n a = Some b \<Longrightarrow> link_control_thread core_stop core_start b = Some c \<Longrightarrow>
     link_turns core_stop core_start (Suc n) a = Some c"
proof (induction n arbitrary: a)
  case (Suc n)
  then obtain t where t: "link_control_thread core_stop core_start a = Some t" "link_turns core_stop core_start n t = Some b"
    by (auto split: option.splits)
  then show ?case
    using Suc.IH [OF t(2) Suc.prems(2)] by (subst link_turns.simps(2)) (simp only: option.case t(1))
qed simp

section \<open>A run\<close>

text \<open>Thread 1 waits, a reset is reported, and the thread goes on to its first delay.  The core is a flag.\<close>

definition link_demo :: "bool wlh_app" where
  "link_demo = \<lparr>link_events = \<lparr>ev_obj = rt_event_init RT_IPC_FLAG_PRIO, ev_wait = (\<lambda>t. \<lparr>event_set = 0, event_info = 0\<rparr>),
       ev_kernel = two_threads\<rparr>,
     app_eth = zero_backend 0 0 (sem_object_init 0 RT_IPC_FLAG_PRIO RT_SEM_VALUE_MAX), app_core = True, link_pc = LkRecv\<rparr>"

definition demo_stop :: "bool \<Rightarrow> bool \<times> bool" where "demo_stop c = (False, True)"
definition demo_start :: "bool \<Rightarrow> bool \<times> bool" where "demo_start c = (True, True)"

lemma link_demo_run:
  obtains a where "app_reach demo_stop demo_start late 1 a" "link_pc a = LkSettle" "s_transport_dead (app_eth a)"
proof -
  have r0: "app_reach demo_stop demo_start late 1 link_demo"
    by (rule app_reach.init) (simp add: app_start_def link_demo_def zero_backend_def sem_object_init_def)
  have l0: "link_running 1 link_demo" "link_pc link_demo = LkRecv" "\<not> reset_flag link_demo"
    by (simp_all add: link_running_def link_demo_def two_threads_def idle_thread_def rt_event_init_def)
  have "link_control_thread demo_stop demo_start link_demo \<noteq> None"
    by (simp add: link_control_thread_def link_demo_def rt_event_recv_def event_recv_main_def rt_event_init_def
        event_option_ok_def RT_EVENT_FLAG_OR_def RT_EVENT_FLAG_AND_def RT_EVENT_FLAG_CLEAR_def Let_def
        split: prod.splits ipc_outcome.splits)
  then obtain b where b: "link_control_thread demo_stop demo_start link_demo = Some b"
    by blast
  have i0: "link_inv 1 link_demo"
    by (rule reach_link_inv [OF r0])
  have wb: "link_waits 1 b" and ib: "link_inv 1 b"
    using thread_recv [OF i0 l0(1,2) b] l0(3) by simp_all
  have r1: "app_reach demo_stop demo_start late 1 b"
    by (rule app_reach.step [OF r0 app_step.thread [OF l0(1) b]])
  let ?c = "on_transport_reset b"
  have r2: "app_reach demo_stop demo_start late 1 ?c"
    by (rule app_reach.step [OF r1 app_step.reset]) (use wb in \<open>simp add: link_idle_def\<close>)
  note e = reset_effect [OF ib]
  let ?k = "two_threads"
  let ?d = "?c\<lparr>link_events := (link_events ?c)\<lparr>ev_kernel := ?k\<rparr>\<rparr>"
  have "link_pc ?c = LkBlocked"
    using e(2) wb by (simp add: link_waits_def)
  moreover have k: "stat (threads ?k 1) = RT_THREAD_RUNNING" "rt_current_thread ?k = 1"
    by (simp_all add: two_threads_def idle_thread_def)
  moreover have "app_others 1 ?c ?d"
    using e(1) e(5) [OF wb] k by (simp add: app_others_def link_inv_def rt_sched_thread_is_suspended_def)
  ultimately have d: "app_reach demo_stop demo_start late 1 ?d" "link_pc ?d = LkBlocked" "link_running 1 ?d"
    using app_reach.step [OF r2 app_step.others] by (auto simp: link_running_def)
  let ?e = "?d\<lparr>link_pc := LkSettle\<rparr>"
  have "link_control_thread demo_stop demo_start ?d = Some ?e"
    using d(2) by (simp add: link_control_thread_def)
  then have "app_reach demo_stop demo_start late 1 ?e"
    by (rule app_reach.step [OF d(1) app_step.thread [OF d(3)]])
  then show thesis
    using that [of ?e] e(4) by simp
qed

section \<open>Properties\<close>

text \<open>C22
  The core is not torn down under the Ethernet backend, as long as no reset is reported while a
  restart is going on: from the moment the link-control thread has been woken until it opens
  the backend again, so at the stop of the core and at its start, the backend is cut off.
\<close>

theorem core_restarted_behind_cut:
  assumes "app_reach core_stop core_start False tt a" "\<not> link_idle tt a"
  shows "s_transport_dead (app_eth a)"
proof -
  have "cut_inv tt a"
    using assms(1)
  proof (induction rule: app_reach.induct)
    case (init a)
    then show ?case
      by (simp add: app_start_def cut_inv_def link_idle_def rt_event_init_def)
  next
    case (step a b)
    then show ?case
      using cut_step reach_link_inv by blast
  qed
  then show ?thesis
    using assms(2) by (simp add: cut_inv_def)
qed

theorem core_restarted_behind_cut_witness:
  "\<exists>a. app_reach demo_stop demo_start False 1 a \<and> link_pc a = LkSettle \<and> s_transport_dead (app_eth a)"
proof -
  obtain a where a: "app_reach demo_stop demo_start False 1 a" "link_pc a = LkSettle"
    by (rule link_demo_run)
  have "\<not> link_idle 1 a"
    using a(2) by (simp add: link_idle_def link_waits_def)
  from core_restarted_behind_cut [OF a(1) this] show ?thesis
    using a by blast
qed

text \<open>C23
  No reset is forgotten, whenever it is reported, provided that every start of the core succeeds
  (after a failed start, wlh_app.c:113-116, the backend stays cut off).  While the backend is cut
  off a restart is owed, and the thread, once it runs, opens the backend again after at most
  three turns.
\<close>

theorem reset_is_served:
  assumes "app_reach core_stop core_start late tt a" "\<forall>c. snd (core_start c)" "s_transport_dead (app_eth a)"
  shows "\<exists>n\<le>3. \<exists>b. link_turns core_stop core_start n a = Some b \<and> link_pc b = LkRecv \<and> \<not> s_transport_dead (app_eth b)"
proof -
  have "s_transport_dead (app_eth a) \<longrightarrow> owed tt a"
    using assms(1)
  proof (induction rule: app_reach.induct)
    case (init a)
    then show ?case
      by (simp add: app_start_def)
  next
    case (step a b)
    then show ?case
      using owed_step [OF step.hyps(2) reach_link_inv [OF step.hyps(1)] assms(2)] by blast
  qed
  then consider "\<not> link_idle tt a" | "link_pc a = LkRecv" "reset_flag a"
    using assms(3) by (auto simp: owed_def)
  then show ?thesis
  proof cases
    case 1
    then show ?thesis using turns_to_open [OF _ assms(2)] by blast
  next
    case 2
    obtain b where b: "link_control_thread core_stop core_start a = Some b" "link_pc b = LkSettle"
      using thread_takes_flag [OF 2] by blast
    from turns_settle [OF b(2) assms(2), of core_stop] b(1) show ?thesis
      by (intro exI [of _ 3]) (auto simp: numeral_3_eq_3 numeral_2_eq_2)
  qed
qed

theorem reset_is_served_witness:
  "\<exists>a n b. app_reach demo_stop demo_start True 1 a \<and> s_transport_dead (app_eth a) \<and>
     link_turns demo_stop demo_start n a = Some b \<and> \<not> s_transport_dead (app_eth b)"
proof -
  obtain a where a: "app_reach demo_stop demo_start True 1 a" "s_transport_dead (app_eth a)"
    by (rule link_demo_run)
  have "\<forall>c. snd (demo_start c)"
    by (simp add: demo_start_def)
  from reset_is_served [OF a(1) this a(2)] show ?thesis
    using a by blast
qed

text \<open>C40
  A reset that is reported while a restart is going on makes the thread stop the core with the
  backend open.  The end of the first restart undoes the cut of the second reset, whose flag
  is still set: after at most four turns the thread is about to stop the running core while the
  backend may call it.  Repeated reports are not coalesced either: they cost a second restart.
\<close>

theorem late_reset_stops_open_core:
  assumes "app_reach core_stop core_start late tt a" "\<forall>c. snd (core_start c)" "\<not> link_idle tt a"
  shows "\<exists>n\<le>4. \<exists>b. link_turns core_stop core_start n (on_transport_reset a) = Some b \<and> link_pc b = LkSettle \<and>
    \<not> s_transport_dead (app_eth b)"
proof -
  have nw: "\<not> link_waits tt a"
    using assms(3) by (simp add: link_idle_def)
  note r = reset_effect [OF reach_link_inv [OF assms(1)]]
  have "\<not> link_idle tt (on_transport_reset a)"
    using r(2,6) nw assms(3) by (simp add: link_idle_def)
  from turns_to_open [OF this assms(2), of core_stop] obtain n b where
    n: "n \<le> 3" "link_turns core_stop core_start n (on_transport_reset a) = Some b" "link_pc b = LkRecv"
      "\<not> s_transport_dead (app_eth b)" "reset_flag b"
    using r(6) [OF nw] by blast
  obtain c where "link_control_thread core_stop core_start b = Some c" "link_pc c = LkSettle" "app_eth c = app_eth b"
    using thread_takes_flag [OF n(3,5)] by blast
  then show ?thesis
    using turns_snoc [OF n(2)] n(1,4) by (intro exI [of _ "Suc n"]) auto
qed

theorem late_reset_stops_open_core_witness:
  "\<exists>a n b. app_reach demo_stop demo_start True 1 a \<and> link_pc a = LkSettle \<and>
     link_turns demo_stop demo_start n (on_transport_reset a) = Some b \<and> link_pc b = LkSettle \<and> \<not> s_transport_dead (app_eth b)"
proof -
  obtain a where a: "app_reach demo_stop demo_start True 1 a" "link_pc a = LkSettle"
    by (rule link_demo_run)
  have "\<forall>c. snd (demo_start c)" "\<not> link_idle 1 a"
    using a(2) by (simp_all add: demo_start_def link_idle_def link_waits_def)
  from late_reset_stops_open_core [OF a(1) this] show ?thesis
    using a by blast
qed

end
