(* ===== verification/Eth_Phy.thy ===== *)
theory Eth_Phy
  imports Wlh_Prelude
begin

text \<open>
  applications/backends/eth_phy.c: bounded waits, the reset of EMAC and PHY, the
  advertisement of pause frames, the PHY setup of the CH32V317 and the link status.  The PHY
  is the world outside: a read of one of its registers is a function \<open>rd\<close> of its state that
  may change it (status bits are latched), a write is \<open>wr\<close>.  Time is a function of the
  number of polls.
\<close>

unbundle bit_operations_syntax

section \<open>Constants\<close>

definition PHY_BMCR :: u16 where "PHY_BMCR = 0"
definition PHY_BSR :: u16 where "PHY_BSR = 1"
definition PHY_ANAR :: u16 where "PHY_ANAR = 4"
definition PHY_Reset :: u16 where "PHY_Reset = 0x8000"
definition PHY_AutoNegotiation :: u16 where "PHY_AutoNegotiation = 0x1000"
definition PHY_Restart_AutoNegotiation :: u16 where "PHY_Restart_AutoNegotiation = 0x0200"
definition PHY_Linked_Status :: u16 where "PHY_Linked_Status = 0x0004"
definition PHY_BMCR_FULL_DUPLEX :: u16 where "PHY_BMCR_FULL_DUPLEX = 0x0100"
definition PHY_BMCR_SPEED_100M :: u16 where "PHY_BMCR_SPEED_100M = 0x2000"
definition PHY_ANAR_SYMMETRIC_PAUSE :: u16 where "PHY_ANAR_SYMMETRIC_PAUSE = 0x0400"

definition ETH_Speed_100M :: u32 where "ETH_Speed_100M = 0x00004000"
definition ETH_Speed_1000M :: u32 where "ETH_Speed_1000M = 0x00008000"
definition ETH_Mode_FullDuplex :: u32 where "ETH_Mode_FullDuplex = 0x00000800"
definition ETH_Internal_Pull_Up_Res_Enable :: u32 where "ETH_Internal_Pull_Up_Res_Enable = 0x00100000"

lemmas phy_bits = PHY_Reset_def PHY_AutoNegotiation_def PHY_Restart_AutoNegotiation_def
  PHY_Linked_Status_def PHY_BMCR_FULL_DUPLEX_def PHY_BMCR_SPEED_100M_def
  PHY_ANAR_SYMMETRIC_PAUSE_def

lemmas mac_bits = ETH_Speed_100M_def ETH_Speed_1000M_def ETH_Mode_FullDuplex_def

text \<open>Whether the build is for the CH32V317 (WLH_TARGET_CH32V317).\<close>

datatype target = CH32V307 | CH32V317

record wlh_eth_phy_status =
  link_up :: bool
  full_duplex :: bool
  speed_mbps :: u16

section \<open>Bounded waits\<close>

text \<open>
  A polling loop: \<open>ready n\<close> is the answer of the n-th poll, \<open>now n\<close> the time in milliseconds at
  the check that follows it.  This is the loop of wait_for_pll3 and of the two waits of
  reset_emac_and_phy; the subtraction wraps like the tick.
\<close>

partial_function (option) poll_wait :: "(nat \<Rightarrow> bool) \<Rightarrow> (nat \<Rightarrow> u32) \<Rightarrow> u32 \<Rightarrow> nat \<Rightarrow> int option" where
  "poll_wait ready now start n =
    (if ready n then Some 0
     else if now n - start > 500 then Some (-1)
     else poll_wait ready now start (n + 1))"

definition wait_for_pll3 :: "(nat \<Rightarrow> bool) \<Rightarrow> (nat \<Rightarrow> u32) \<Rightarrow> u32 \<Rightarrow> int option" where
  "wait_for_pll3 pll3_ready now start = poll_wait pll3_ready now start 0"

text \<open>
  \<open>mac_ready\<close> and \<open>phy_ready\<close>: the reset bit of DMABMR and of the PHY's control register has
  cleared; each loop has its own start time and clock.
\<close>

definition reset_emac_and_phy ::
    "(nat \<Rightarrow> bool) \<Rightarrow> (nat \<Rightarrow> u32) \<Rightarrow> u32 \<Rightarrow> (nat \<Rightarrow> bool) \<Rightarrow> (nat \<Rightarrow> u32) \<Rightarrow> u32 \<Rightarrow> int option" where
  "reset_emac_and_phy mac_ready now1 start1 phy_ready now2 start2 =
    (case poll_wait mac_ready now1 start1 0 of
       None \<Rightarrow> None
     | Some r \<Rightarrow> if r \<noteq> 0 then Some (-1) else poll_wait phy_ready now2 start2 0)"

lemma poll_wait_returns:
  assumes "\<exists>m\<ge>n. ready m \<or> now m - start > 500"
  shows "\<exists>m\<ge>n. (\<forall>i. n \<le> i \<and> i < m \<longrightarrow> \<not> ready i \<and> now i - start \<le> 500) \<and>
    poll_wait ready now start n = Some (if ready m then 0 else -1) \<and>
    (ready m \<or> now m - start > 500)"
proof -
  obtain m where m: "m \<ge> n" "ready m \<or> now m - start > 500" using assms by blast
  then show ?thesis
  proof (induction "m - n" arbitrary: n)
    case 0
    then have "n = m" by simp
    with 0 poll_wait.simps [of ready now start n] show ?case by (intro exI [of _ m]) auto
  next
    case (Suc d)
    show ?case
    proof (cases "ready n \<or> now n - start > 500")
      case True
      with poll_wait.simps [of ready now start n] show ?thesis by (intro exI [of _ n]) auto
    next
      case False
      have "d = m - (n + 1)" "m \<ge> n + 1" using Suc(2) by auto
      from Suc(1) [OF this Suc(4)] obtain l where l: "l \<ge> n + 1"
          "\<forall>i. n + 1 \<le> i \<and> i < l \<longrightarrow> \<not> ready i \<and> now i - start \<le> 500"
          "poll_wait ready now start (n + 1) = Some (if ready l then 0 else -1)"
          "ready l \<or> now l - start > 500"
        by blast
      have "\<not> ready i \<and> now i - start \<le> 500" if "n \<le> i \<and> i < l" for i
        using that l(2) False by (cases "i = n") (auto simp: not_less)
      moreover have "poll_wait ready now start n = poll_wait ready now start (n + 1)"
        using False by (subst poll_wait.simps) simp
      ultimately show ?thesis using l by (intro exI [of _ l]) auto
    qed
  qed
qed

section \<open>PHY registers\<close>

definition advertise_symmetric_pause ::
    "(u16 \<Rightarrow> 'p \<Rightarrow> u16 \<times> 'p) \<Rightarrow> (u16 \<Rightarrow> u16 \<Rightarrow> 'p \<Rightarrow> 'p) \<Rightarrow> 'p \<Rightarrow> 'p" where
  "advertise_symmetric_pause rd wr p =
    (case rd PHY_ANAR p of
       (anar, p1) \<Rightarrow>
         if anar AND PHY_ANAR_SYMMETRIC_PAUSE \<noteq> 0 then p1
         else (case rd PHY_BMCR (wr PHY_ANAR (anar OR PHY_ANAR_SYMMETRIC_PAUSE) p1) of
                 (bmcr, p2) \<Rightarrow>
                   if bmcr AND PHY_AutoNegotiation \<noteq> 0
                   then wr PHY_BMCR (bmcr OR PHY_Restart_AutoNegotiation) p2
                   else p2))"

definition configure_v317_phy ::
    "(u16 \<Rightarrow> 'p \<Rightarrow> u16 \<times> 'p) \<Rightarrow> (u16 \<Rightarrow> u16 \<Rightarrow> 'p \<Rightarrow> 'p) \<Rightarrow> 'p \<Rightarrow> 'p" where
  "configure_v317_phy rd wr p =
    (case rd 28 (wr 0x1f 0 p) of
       (v1, p1) \<Rightarrow>
         (case rd 16 (wr 0x1f 0x07 (wr 28 (v1 OR push_bit 13 1) p1)) of
            (v2, p2) \<Rightarrow>
              (let v3 = (v2 AND NOT (push_bit 4 0xff)) OR push_bit 4 0x23
               in wr 0x1f 0 (wr 16 v3 p2))))"

text \<open>wlh_eth_phy_init after the clocks are programmed; \<open>None\<close> when a wait does not end.\<close>

definition wlh_eth_phy_init ::
    "target \<Rightarrow> int option \<Rightarrow> int option \<Rightarrow> (u16 \<Rightarrow> 'p \<Rightarrow> u16 \<times> 'p) \<Rightarrow> (u16 \<Rightarrow> u16 \<Rightarrow> 'p \<Rightarrow> 'p) \<Rightarrow>
      'p \<Rightarrow> (int \<times> 'p) option" where
  "wlh_eth_phy_init tgt pll3 reset rd wr p =
    (case pll3 of
       None \<Rightarrow> None
     | Some r \<Rightarrow>
         if r \<noteq> 0 then Some (-1, p)
         else (case reset of
                 None \<Rightarrow> None
               | Some r2 \<Rightarrow>
                   if r2 \<noteq> 0 then Some (-1, p)
                   else Some (0, advertise_symmetric_pause rd wr
                                   (case tgt of CH32V317 \<Rightarrow> configure_v317_phy rd wr p
                                    | CH32V307 \<Rightarrow> p))))"

definition wlh_eth_phy_configure_mac :: "target \<Rightarrow> u32 \<Rightarrow> u32" where
  "wlh_eth_phy_configure_mac tgt maccr =
    (case tgt of CH32V317 \<Rightarrow> maccr AND NOT ETH_Internal_Pull_Up_Res_Enable
     | CH32V307 \<Rightarrow> maccr OR ETH_Internal_Pull_Up_Res_Enable)"

definition wlh_eth_phy_read_status ::
    "target \<Rightarrow> (u16 \<Rightarrow> 'p \<Rightarrow> u16 \<times> 'p) \<Rightarrow> 'p \<Rightarrow> u32 \<Rightarrow> wlh_eth_phy_status \<times> 'p \<times> u32" where
  "wlh_eth_phy_read_status tgt rd p maccr =
    (case rd PHY_BSR p of
       (_, p1) \<Rightarrow>
         (case rd PHY_BSR p1 of
            (bsr, p2) \<Rightarrow>
              if bsr AND PHY_Linked_Status = 0
              then (\<lparr>link_up = False, full_duplex = False, speed_mbps = 0\<rparr>, p2, maccr)
              else
               (case rd PHY_BMCR p2 of
                  (bmcr, p3) \<Rightarrow>
                    (let fd = (bmcr AND PHY_BMCR_FULL_DUPLEX \<noteq> 0);
                         speed = (case tgt of
                                    CH32V317 \<Rightarrow> if bmcr AND PHY_BMCR_SPEED_100M \<noteq> 0 then 100 else 10
                                  | CH32V307 \<Rightarrow> 10);
                         m1 = maccr AND NOT (ETH_Speed_100M OR ETH_Speed_1000M OR ETH_Mode_FullDuplex);
                         m2 = (if speed = 100 then m1 OR ETH_Speed_100M else m1);
                         m3 = (if fd then m2 OR ETH_Mode_FullDuplex else m2)
                     in (\<lparr>link_up = True, full_duplex = fd, speed_mbps = speed\<rparr>, p3, m3)))))"

section \<open>Bits of MACCR\<close>

lemma bit_single: "k < 32 \<Longrightarrow> bit (push_bit k 1 :: u32) i = (i = k)"
  by (auto simp: bit_exp_iff)

lemma bit_mac_consts:
  "bit ETH_Speed_100M i = (i = 14)" "bit ETH_Speed_1000M i = (i = 15)"
  "bit ETH_Mode_FullDuplex i = (i = 11)"
  using bit_single [of 14 i] bit_single [of 15 i] bit_single [of 11 i] by (simp_all add: mac_bits)

definition mac_set_mode :: "bool \<Rightarrow> bool \<Rightarrow> u32 \<Rightarrow> u32" where
  "mac_set_mode fast fd maccr =
    (let m1 = maccr AND NOT (ETH_Speed_100M OR ETH_Speed_1000M OR ETH_Mode_FullDuplex);
         m2 = (if fast then m1 OR ETH_Speed_100M else m1)
     in (if fd then m2 OR ETH_Mode_FullDuplex else m2))"

lemma bit_mac_set_mode:
  "bit (mac_set_mode fast fd maccr) i =
    (if i = 14 then fast else if i = 15 then False else if i = 11 then fd else bit maccr i)"
proof (cases "i < 32")
  case True
  then show ?thesis
    by (simp add: mac_set_mode_def Let_def bit_or_iff bit_and_iff bit_not_iff bit_mac_consts)
next
  case False
  then show ?thesis using bit_imp_le_length [of _ i] by fastforce
qed

section \<open>Properties\<close>

text \<open>
  The waits of the PHY initialisation are bounded: when the clock passes 500 ms after the start
  (modulo 2^32), the loop ends; it reports success exactly when the flag is seen at a poll
  before the first check beyond 500 ms.
\<close>

theorem phy_wait_bounded:
  assumes "now n - start > 500"
  shows "\<exists>m\<le>n. wait_for_pll3 ready now start = Some (if ready m then 0 else -1) \<and>
    (\<forall>i<m. \<not> ready i \<and> now i - start \<le> 500) \<and> (ready m \<or> now m - start > 500)"
proof -
  obtain m where m: "\<forall>i. i < m \<longrightarrow> \<not> ready i \<and> now i - start \<le> 500"
      "poll_wait ready now start 0 = Some (if ready m then 0 else -1)" "ready m \<or> now m - start > 500"
    using poll_wait_returns [of 0 ready now start] assms by auto
  have "m \<le> n" using m(1) assms by (meson leD linorder_le_less_linear)
  with m show ?thesis by (auto simp: wait_for_pll3_def)
qed

lemma phy_wait_bounded_witness:
  "wait_for_pll3 (\<lambda>_. False) (\<lambda>n. word_of_nat (100 * n)) 0 = Some (-1)"
  using phy_wait_bounded [of "\<lambda>n. word_of_nat (100 * n)" 6 0 "\<lambda>_. False"] by auto

text \<open>
  The MAC follows the PHY: after reading the status of a link that is up, the speed and duplex
  bits of MACCR are those of the status and every other bit is as before; while the link is
  down MACCR is not touched.  The status is that of the second read of the latched register.
\<close>

theorem phy_status_programs_mac:
  assumes "wlh_eth_phy_read_status tgt rd p maccr = (s, p', m)"
  shows "link_up s = (fst (rd PHY_BSR (snd (rd PHY_BSR p))) AND PHY_Linked_Status \<noteq> 0) \<and>
    (if link_up s
     then bit m 14 = (speed_mbps s = 100) \<and> \<not> bit m 15 \<and> bit m 11 = full_duplex s \<and>
       (speed_mbps s = 10 \<or> speed_mbps s = 100 \<and> tgt = CH32V317) \<and>
       (\<forall>i. i \<noteq> 11 \<and> i \<noteq> 14 \<and> i \<noteq> 15 \<longrightarrow> bit m i = bit maccr i)
     else m = maccr \<and> speed_mbps s = 0 \<and> \<not> full_duplex s)"
proof -
  obtain b1 p1 where 1: "rd PHY_BSR p = (b1, p1)" by (cases "rd PHY_BSR p")
  obtain b2 p2 where 2: "rd PHY_BSR p1 = (b2, p2)" by (cases "rd PHY_BSR p1")
  obtain b3 p3 where 3: "rd PHY_BMCR p2 = (b3, p3)" by (cases "rd PHY_BMCR p2")
  show ?thesis
  proof (cases "b2 AND PHY_Linked_Status = 0")
    case True
    then show ?thesis using assms 1 2 by (auto simp: wlh_eth_phy_read_status_def)
  next
    case False
    define fd where "fd \<longleftrightarrow> b3 AND PHY_BMCR_FULL_DUPLEX \<noteq> 0"
    define speed :: u16 where "speed = (case tgt of
        CH32V317 \<Rightarrow> if b3 AND PHY_BMCR_SPEED_100M \<noteq> 0 then 100 else 10 | CH32V307 \<Rightarrow> 10)"
    have s: "s = \<lparr>link_up = True, full_duplex = fd, speed_mbps = speed\<rparr>"
      and m: "m = mac_set_mode (speed = 100) fd maccr"
      using assms 1 2 3 False
      by (simp_all add: wlh_eth_phy_read_status_def Let_def fd_def speed_def mac_set_mode_def)
    have "speed = 10 \<or> speed = 100 \<and> tgt = CH32V317"
      by (simp add: speed_def split: target.split)
    then show ?thesis using 1 2 False by (simp add: s m bit_mac_set_mode)
  qed
qed

lemma phy_status_programs_mac_witness:
  "\<exists>s p' m. wlh_eth_phy_read_status CH32V317 (\<lambda>r p. (if r = PHY_BSR then 4 else 0x2100, p)) () 0x8003 =
      (s, p', m) \<and> link_up s \<and> speed_mbps s = 100 \<and> bit m 14 \<and> bit m 11 \<and> \<not> bit m 15"
proof -
  let ?rd = "\<lambda>r p. (if r = PHY_BSR then 4 else 0x2100 :: u16, p :: unit)"
  obtain s p' m where r: "wlh_eth_phy_read_status CH32V317 ?rd () 0x8003 = (s, p', m)"
    by (cases "wlh_eth_phy_read_status CH32V317 ?rd () 0x8003")
  have "link_up s" "speed_mbps s = 100" "full_duplex s"
    using r by (auto simp: wlh_eth_phy_read_status_def Let_def PHY_BSR_def PHY_BMCR_def phy_bits)
  with phy_status_programs_mac [OF r] r show ?thesis by auto
qed

end
