(* ===== verification/Eth_Rx.thy ===== *)
theory Eth_Rx
  imports Eth_Tx Eth_Phy
begin

text \<open>
  The wire-to-host direction of eth_backend.c: the interrupt handler, flow control, the drain
  of the receive ring into the core with backpressure by retaining a descriptor, the worker
  thread, the link thread and the accessors.  The core is outside the sources: \<open>eth_send\<close> is a
  step of an arbitrary core state with the result of wlh_coproc_ethernet_eth_send, and
  \<open>core_ready\<close> says whether its diagnostics report a READY session.
\<close>

section \<open>Interrupt handler\<close>

definition ETH_DMAClearITPendingBit :: "u32 \<Rightarrow> eth_backend \<Rightarrow> eth_backend" where
  "ETH_DMAClearITPendingBit it = write_DMASR it"

text \<open>One of the if statements of the handler: count, decide on the wake-up, clear the bit.\<close>

definition irq_source ::
    "u32 \<Rightarrow> u32 \<Rightarrow> (wlh_eth_stats \<Rightarrow> wlh_eth_stats) \<Rightarrow> (eth_backend \<Rightarrow> bool) \<Rightarrow> eth_backend \<times> bool \<Rightarrow>
      eth_backend \<times> bool" where
  "irq_source sr it tally wake bw =
    (case bw of (b, wake_worker) \<Rightarrow>
       if sr AND it \<noteq> 0
       then (ETH_DMAClearITPendingBit it (upd_eth_stats tally b), wake_worker \<or> wake b)
       else (b, wake_worker))"

definition ETH_IRQHandler :: "eth_backend \<Rightarrow> rt_kernel \<Rightarrow> eth_backend \<times> rt_kernel" where
  "ETH_IRQHandler b k =
    (let sr = r_DMASR b;
         unblocked = (\<lambda>b. \<not> s_rx_backpressured b);
         (b', wake_worker) =
           irq_source sr ETH_DMA_IT_NIS (\<lambda>s. s) (\<lambda>_. False)
             (irq_source sr ETH_DMA_IT_AIS (\<lambda>s. s) unblocked
               (irq_source sr ETH_DMA_IT_RBU (\<lambda>s. s\<lparr>e_isr_rbu := e_isr_rbu s + 1\<rparr>) unblocked
                 (irq_source sr ETH_DMA_IT_T (\<lambda>s. s\<lparr>e_isr_tx := e_isr_tx s + 1\<rparr>) (\<lambda>_. True)
                   (irq_source sr ETH_DMA_IT_R (\<lambda>s. s\<lparr>e_isr_rx := e_isr_rx s + 1\<rparr>) unblocked
                     (b, False)))))
     in if wake_worker
        then (case rt_sem_release (s_eth_sem b') k of (r, sem, k') \<Rightarrow> (b'\<lparr>s_eth_sem := sem\<rparr>, k'))
        else (b', k))"

section \<open>Flow control\<close>

definition ETH_InitiatePauseControlFrame :: "eth_backend \<Rightarrow> eth_backend" where
  "ETH_InitiatePauseControlFrame b = b\<lparr>r_MACFCR := r_MACFCR b OR ETH_MACFCR_FCBBPA\<rparr>"

definition eth_flow_control_request :: "u16 \<Rightarrow> eth_backend \<Rightarrow> bool \<times> eth_backend" where
  "eth_flow_control_request pause_quanta b =
    (if \<not> s_link_up b \<or> \<not> s_duplex_full b then (False, b)
     else if r_MACFCR b AND ETH_MACFCR_FCBBPA \<noteq> 0 then (False, b)
     else
      (let macfcr = (r_MACFCR b AND NOT ETH_MACFCR_PT) OR
             (push_bit 16 (ucast pause_quanta) OR ETH_MACFCR_TFCE);
           b1 = ETH_InitiatePauseControlFrame (b\<lparr>r_MACFCR := macfcr\<rparr>)
       in (True, upd_eth_stats (\<lambda>s. if pause_quanta \<noteq> 0
                   then s\<lparr>e_pause_frames := e_pause_frames s + 1\<rparr>
                   else s\<lparr>e_resume_frames := e_resume_frames s + 1\<rparr>) b1)))"

definition eth_pause_upstream :: "eth_backend \<Rightarrow> eth_backend" where
  "eth_pause_upstream b =
    (if \<not> s_link_up b \<or> \<not> s_duplex_full b then b
     else snd (eth_flow_control_request WLH_ETH_PAUSE_QUANTA (b\<lparr>s_pause_active := True\<rparr>)))"

definition eth_resume_upstream :: "eth_backend \<Rightarrow> eth_backend" where
  "eth_resume_upstream b =
    (if s_pause_active b
     then (case eth_flow_control_request 0 b of
             (sent, b1) \<Rightarrow> if sent then b1\<lparr>s_pause_active := False\<rparr> else b1)
     else b)"

section \<open>Draining the receive ring\<close>

datatype send_result = WLH_COPROC_OK | WLH_COPROC_NO_CREDIT | WLH_COPROC_FAILED

datatype rx_outcome = Delivered "byte list" | Dropped | Errored

datatype rx_turn = RxNext rx_outcome | RxIdle | RxBlocked

definition rx_owned :: "eth_backend \<Rightarrow> nat \<Rightarrow> bool" where
  "rx_owned b i \<longleftrightarrow> d_status (s_rx_desc b ! i) AND ETH_DMARxDesc_OWN \<noteq> 0"

text \<open>A whole frame without error in one descriptor, and its length without the CRC.\<close>

definition rx_good :: "u32 \<Rightarrow> bool" where
  "rx_good st \<longleftrightarrow> st AND ETH_DMARxDesc_ES = 0 \<and> st AND ETH_DMARxDesc_FS \<noteq> 0 \<and>
     st AND ETH_DMARxDesc_LS \<noteq> 0"

definition rx_length :: "u32 \<Rightarrow> u32" where
  "rx_length st = (let len = drop_bit FL_SHIFT (st AND ETH_DMARxDesc_FL)
     in if len \<ge> 4 then len - 4 else len)"

definition rx_rearm_desc :: "eth_backend \<Rightarrow> eth_backend" where
  "rx_rearm_desc b =
    (let i = s_rx_cur b; desc = s_rx_desc b ! i
     in b\<lparr>s_rx_desc := (s_rx_desc b)[i := desc\<lparr>d_status := ETH_DMARxDesc_OWN\<rparr>],
          s_rx_cur := d_next desc\<rparr>)"

definition rx_block :: "eth_backend \<Rightarrow> eth_backend" where
  "rx_block b =
    eth_pause_upstream
      ((upd_eth_stats (\<lambda>s. if s_rx_backpressured b
          then s\<lparr>e_rx_retries := e_rx_retries s + 1\<rparr>
          else s\<lparr>e_rx_backpressure := e_rx_backpressure s + 1\<rparr>) b)\<lparr>s_rx_backpressured := True\<rparr>)"

definition rx_count :: "rx_outcome \<Rightarrow> eth_backend \<Rightarrow> eth_backend" where
  "rx_count oc = upd_eth_stats (\<lambda>s. case oc of
      Delivered f \<Rightarrow> s\<lparr>e_rx_frames := e_rx_frames s + 1\<rparr>
    | Dropped \<Rightarrow> s\<lparr>e_rx_dropped := e_rx_dropped s + 1\<rparr>
    | Errored \<Rightarrow> s\<lparr>e_rx_errors := e_rx_errors s + 1\<rparr>)"

text \<open>
  One turn of the loop of eth_rx_drain; \<open>None\<close> is an access outside the descriptor table.
\<close>

definition eth_rx_turn ::
    "('c \<Rightarrow> byte list \<Rightarrow> 'c \<times> send_result) \<Rightarrow> bool \<Rightarrow> eth_backend \<Rightarrow> 'c \<Rightarrow>
      (rx_turn \<times> eth_backend \<times> 'c) option" where
  "eth_rx_turn eth_send ready b c =
    (if s_rx_cur b \<ge> length (s_rx_desc b) then None
     else
      (let desc = s_rx_desc b ! s_rx_cur b; st = d_status desc
       in if st AND ETH_DMARxDesc_OWN \<noteq> 0
          then Some (RxIdle,
                 if r_DMASR b AND ETH_DMASR_RBUS \<noteq> 0
                 then eth_emit RxPollDemand (write_DMASR ETH_DMASR_RBUS b) else b, c)
          else if \<not> rx_good st then Some (RxNext Errored, rx_rearm_desc (rx_count Errored b), c)
          else
           (let len = rx_length st
            in if ready \<and> len \<ge> WLH_ETH_MIN_FRAME \<and> len \<le> WLH_ETH_MAX_FRAME
               then (case eth_send c (take (unat len) (d_buffer desc)) of
                       (c', WLH_COPROC_OK) \<Rightarrow>
                         (let oc = Delivered (take (unat len) (d_buffer desc))
                          in Some (RxNext oc, rx_rearm_desc (rx_count oc b), c'))
                     | (c', WLH_COPROC_NO_CREDIT) \<Rightarrow> Some (RxBlocked, rx_block b, c')
                     | (c', WLH_COPROC_FAILED) \<Rightarrow>
                         Some (RxNext Dropped, rx_rearm_desc (rx_count Dropped b), c'))
               else Some (RxNext Dropped, rx_rearm_desc (rx_count Dropped b), c))))"

text \<open>What follows the loop.\<close>

definition eth_rx_after :: "bool \<Rightarrow> nat \<Rightarrow> eth_backend \<Rightarrow> eth_backend" where
  "eth_rx_after blocked drained b =
    (let b1 = (if \<not> blocked \<and> s_rx_backpressured b
               then eth_resume_upstream (b\<lparr>s_rx_backpressured := False\<rparr>) else b);
         b2 = (if \<not> s_rx_backpressured b1 \<and> s_pause_active b1 then eth_resume_upstream b1 else b1)
     in if drained = 0
        then upd_eth_stats (\<lambda>s. s\<lparr>e_worker_empty_rx := e_worker_empty_rx s + 1\<rparr>) b2 else b2)"

text \<open>
  The loop with nothing else happening: the exit, the number of descriptors it has looked at
  with the CPU as owner, and the state.
\<close>

partial_function (option) eth_rx_loop ::
    "('c \<Rightarrow> byte list \<Rightarrow> 'c \<times> send_result) \<Rightarrow> bool \<Rightarrow> nat \<Rightarrow> eth_backend \<Rightarrow> 'c \<Rightarrow>
      (bool \<times> nat \<times> eth_backend \<times> 'c) option" where
  "eth_rx_loop eth_send ready drained b c =
    (case eth_rx_turn eth_send ready b c of
       None \<Rightarrow> None
     | Some (turn, b', c') \<Rightarrow>
         (case turn of
            RxIdle \<Rightarrow> Some (False, drained, b', c')
          | RxBlocked \<Rightarrow> Some (True, drained + 1, b', c')
          | RxNext oc \<Rightarrow> eth_rx_loop eth_send ready (drained + 1) b' c'))"

definition eth_rx_drain ::
    "('c \<Rightarrow> byte list \<Rightarrow> 'c \<times> send_result) \<Rightarrow> ('c \<Rightarrow> bool) \<Rightarrow> eth_backend \<Rightarrow> 'c \<Rightarrow>
      (eth_backend \<times> 'c) option" where
  "eth_rx_drain eth_send core_ready b c =
    (case eth_rx_loop eth_send (\<not> s_transport_dead b \<and> core_ready c \<and> s_link_up b) 0 b c of
       None \<Rightarrow> None
     | Some (blocked, drained, b', c') \<Rightarrow> Some (eth_rx_after blocked drained b', c'))"

section \<open>The worker and the callbacks\<close>

text \<open>The body of eth_worker_thread after rt_sem_take.\<close>

definition eth_worker_check :: "eth_backend \<Rightarrow> bool \<times> eth_backend" where
  "eth_worker_check b =
    (let retry_rx = s_rx_credit_ready b; b1 = b\<lparr>s_rx_credit_ready := False\<rparr>
     in (\<not> s_rx_backpressured b1 \<or> retry_rx \<or> s_transport_dead b1 \<or> \<not> s_link_up b1, b1))"

definition eth_worker_pass ::
    "('c \<Rightarrow> byte list \<Rightarrow> 'c \<times> send_result) \<Rightarrow> ('c \<Rightarrow> bool) \<Rightarrow> eth_backend \<Rightarrow> 'c \<Rightarrow>
      (eth_backend \<times> 'c) option" where
  "eth_worker_pass eth_send core_ready b c =
    (let b1 = eth_tx_complete_scan
           (upd_eth_stats (\<lambda>s. s\<lparr>e_worker_wakes := e_worker_wakes s + 1\<rparr>) b)
     in case eth_worker_check b1 of
          (go, b2) \<Rightarrow> if go then eth_rx_drain eth_send core_ready b2 c else Some (b2, c))"

text \<open>\<open>eth_channel\<close> is the number of the ETHERNET_ETH channel in the core's header.\<close>

definition wlh_eth_tx_ready :: "byte \<Rightarrow> byte \<Rightarrow> eth_backend \<Rightarrow> rt_kernel \<Rightarrow> eth_backend \<times> rt_kernel" where
  "wlh_eth_tx_ready eth_channel channel b k =
    (if channel \<noteq> eth_channel then (b, k)
     else
      (let b1 = upd_eth_stats (\<lambda>s. s\<lparr>e_core_ready_wakes := e_core_ready_wakes s + 1\<rparr>)
             (b\<lparr>s_rx_credit_ready := True\<rparr>)
       in case rt_sem_release (s_eth_sem b1) k of (r, sem, k') \<Rightarrow> (b1\<lparr>s_eth_sem := sem\<rparr>, k')))"

section \<open>Link thread and accessors\<close>

definition eth_link_report :: "bool \<Rightarrow> bool \<Rightarrow> eth_backend \<Rightarrow> eth_backend" where
  "eth_link_report core_ready up b =
    (if s_transport_dead b then b
     else if \<not> core_ready then b
     else if up
     then eth_emit (LinkStateChanged True (s_link_speed b)
            (if s_duplex_full b then WLH_COPROC_ETH_DUPLEX_FULL else WLH_COPROC_ETH_DUPLEX_HALF)) b
     else eth_emit (LinkStateChanged False WLH_COPROC_ETH_SPEED_UNSPECIFIED
            WLH_COPROC_ETH_DUPLEX_UNSPECIFIED) b)"

text \<open>One poll of eth_link_thread; \<open>last\<close> holds its three local variables.\<close>

definition eth_link_poll ::
    "bool \<Rightarrow> wlh_eth_phy_status \<Rightarrow> wlh_eth_phy_status \<Rightarrow> eth_backend \<Rightarrow> rt_kernel \<Rightarrow>
      wlh_eth_phy_status \<times> eth_backend \<times> rt_kernel" where
  "eth_link_poll core_ready status last_st b k =
    (let was_up = link_up last_st;
         changed = (link_up status \<noteq> link_up last_st \<or>
           link_up status \<and> (speed_mbps status \<noteq> speed_mbps last_st \<or>
             full_duplex status \<noteq> full_duplex last_st))
     in if \<not> changed then (last_st, b, k)
        else
         (let b1 = b\<lparr>s_link_up := link_up status, s_duplex_full := full_duplex status\<rparr>;
              b2 = (if \<not> link_up status \<or> \<not> full_duplex status
                    then b1\<lparr>s_pause_active := False\<rparr> else b1);
              b3 = b2\<lparr>s_link_speed :=
                 (if speed_mbps status = 100 then WLH_COPROC_ETH_SPEED_100M
                  else if speed_mbps status = 10 then WLH_COPROC_ETH_SPEED_10M
                  else WLH_COPROC_ETH_SPEED_UNSPECIFIED)\<rparr>;
              b4 = (if link_up status
                    then (if \<not> was_up
                          then upd_eth_stats (\<lambda>s. s\<lparr>e_link_ups := e_link_ups s + 1\<rparr>) b3 else b3)
                    else b3\<lparr>s_link_speed := WLH_COPROC_ETH_SPEED_UNSPECIFIED\<rparr>);
              b5 = eth_link_report core_ready (link_up status) b4
          in case rt_sem_release (s_eth_sem b5) k of
               (r, sem, k') \<Rightarrow> (status, b5\<lparr>s_eth_sem := sem\<rparr>, k')))"

definition eth_mac :: "byte list" where
  "eth_mac = [0x02, 0x57, 0x4c, 0x00, 0x00, 0x01]"

definition wlh_eth_get_info :: "u32 \<Rightarrow> eth_backend \<Rightarrow> int \<times> eth_backend" where
  "wlh_eth_get_info operation_id b =
    (0, eth_emit (InfoReady operation_id 0
      \<lparr>info_link_up = s_link_up b, info_mac = eth_mac,
       info_speed = (if s_link_up b then s_link_speed b else WLH_COPROC_ETH_SPEED_UNSPECIFIED),
       info_duplex = (if s_link_up b
          then (if s_duplex_full b then WLH_COPROC_ETH_DUPLEX_FULL else WLH_COPROC_ETH_DUPLEX_HALF)
          else WLH_COPROC_ETH_DUPLEX_UNSPECIFIED)\<rparr>) b)"

definition wlh_eth_get_stats :: "eth_backend \<Rightarrow> wlh_eth_stats" where
  "wlh_eth_get_stats b = (s_stats b)\<lparr>e_link_up := s_link_up b, e_duplex_full := s_duplex_full b\<rparr>"

section \<open>The system\<close>

text \<open>
  The worker between its calls, the receive DMA, the interrupt handler, and the calls of the
  core, of the transport and of the link thread, interleaved.  \<open>er_hw\<close> is the descriptor the
  DMA fills next, \<open>er_in\<close> what it has written (status and buffer), \<open>er_out\<close> what the worker has
  done with each, \<open>er_sent\<close> the calls of \<open>eth_send\<close>: a turn runs with a core that notes the very
  argument of each call and its result.
\<close>

definition noted_send ::
    "('c \<Rightarrow> byte list \<Rightarrow> 'c \<times> send_result) \<Rightarrow> 'c \<times> (byte list \<times> send_result) list \<Rightarrow> byte list \<Rightarrow>
      ('c \<times> (byte list \<times> send_result) list) \<times> send_result" where
  "noted_send eth_send cl frame =
    (case eth_send (fst cl) frame of (c', r) \<Rightarrow> ((c', snd cl @ [(frame, r)]), r))"

datatype wk_pc = WkWait | WkScan | WkCheck | WkStart | WkLoop bool nat | WkAfter bool nat

record 'c eth_rx_sys =
  er_b :: eth_backend
  er_k :: rt_kernel
  er_core :: 'c
  er_pc :: wk_pc
  er_hw :: nat
  er_in :: "(u32 \<times> byte list) list"
  er_out :: "rx_outcome list"
  er_sent :: "(byte list \<times> send_result) list"

inductive eth_rx_step ::
    "('c \<Rightarrow> byte list \<Rightarrow> 'c \<times> send_result) \<Rightarrow> ('c \<Rightarrow> bool) \<Rightarrow> byte \<Rightarrow> 'c eth_rx_sys \<Rightarrow> 'c eth_rx_sys \<Rightarrow> bool"
  for eth_send core_ready eth_channel where
  wake: "er_pc y = WkWait \<Longrightarrow> sem_value (s_eth_sem (er_b y)) > 0 \<Longrightarrow>
    rt_sem_take (-1) (s_eth_sem (er_b y)) (er_k y) = (out, sem, k') \<Longrightarrow>
    eth_rx_step eth_send core_ready eth_channel y
      (y\<lparr>er_b := upd_eth_stats (\<lambda>s. s\<lparr>e_worker_wakes := e_worker_wakes s + 1\<rparr>)
           ((er_b y)\<lparr>s_eth_sem := sem\<rparr>), er_k := k', er_pc := WkScan\<rparr>)"
| scan: "er_pc y = WkScan \<Longrightarrow>
    eth_rx_step eth_send core_ready eth_channel y
      (y\<lparr>er_b := eth_tx_complete_scan (er_b y), er_pc := WkCheck\<rparr>)"
| check: "er_pc y = WkCheck \<Longrightarrow> eth_worker_check (er_b y) = (go, b') \<Longrightarrow>
    eth_rx_step eth_send core_ready eth_channel y
      (y\<lparr>er_b := b', er_pc := (if go then WkStart else WkWait)\<rparr>)"
| start: "er_pc y = WkStart \<Longrightarrow>
    eth_rx_step eth_send core_ready eth_channel y
      (y\<lparr>er_pc := WkLoop (\<not> s_transport_dead (er_b y) \<and> core_ready (er_core y) \<and> s_link_up (er_b y)) 0\<rparr>)"
| turn: "er_pc y = WkLoop ready n \<Longrightarrow>
    eth_rx_turn (noted_send eth_send) ready (er_b y) (er_core y, er_sent y) = Some (t, b', c', sent') \<Longrightarrow>
    eth_rx_step eth_send core_ready eth_channel y
      (y\<lparr>er_b := b', er_core := c', er_sent := sent',
         er_pc := (case t of RxIdle \<Rightarrow> WkAfter False n | RxBlocked \<Rightarrow> WkAfter True (n + 1)
                   | RxNext oc \<Rightarrow> WkLoop ready (n + 1)),
         er_out := er_out y @ (case t of RxNext oc \<Rightarrow> [oc] | _ \<Rightarrow> [])\<rparr>)"
| after: "er_pc y = WkAfter blocked n \<Longrightarrow>
    eth_rx_step eth_send core_ready eth_channel y
      (y\<lparr>er_b := eth_rx_after blocked n (er_b y), er_pc := WkWait\<rparr>)"
| dma: "rx_owned (er_b y) (er_hw y) \<Longrightarrow> st AND ETH_DMARxDesc_OWN = 0 \<Longrightarrow> length buf = 1536 \<Longrightarrow>
    eth_rx_step eth_send core_ready eth_channel y
      (y\<lparr>er_b := (er_b y)\<lparr>s_rx_desc := (s_rx_desc (er_b y))[er_hw y :=
             (s_rx_desc (er_b y) ! er_hw y)\<lparr>d_status := st, d_buffer := buf\<rparr>],
           r_DMASR := r_DMASR (er_b y) OR (ETH_DMA_IT_R OR ETH_DMA_IT_NIS)\<rparr>,
         er_hw := d_next (s_rx_desc (er_b y) ! er_hw y), er_in := er_in y @ [(st, buf)]\<rparr>)"
| starved: "\<not> rx_owned (er_b y) (er_hw y) \<Longrightarrow>
    eth_rx_step eth_send core_ready eth_channel y
      (y\<lparr>er_b := (er_b y)\<lparr>r_DMASR := r_DMASR (er_b y) OR (ETH_DMA_IT_RBU OR ETH_DMA_IT_AIS)\<rparr>\<rparr>)"
| isr: "ETH_IRQHandler (er_b y) (er_k y) = (b', k') \<Longrightarrow>
    eth_rx_step eth_send core_ready eth_channel y (y\<lparr>er_b := b', er_k := k'\<rparr>)"
| credit: "wlh_eth_tx_ready eth_channel channel (er_b y) (er_k y) = (b', k') \<Longrightarrow>
    eth_rx_step eth_send core_ready eth_channel y (y\<lparr>er_b := b', er_k := k'\<rparr>)"
| link: "eth_link_poll (core_ready (er_core y)) status last_st (er_b y) (er_k y) = (last', b', k') \<Longrightarrow>
    eth_rx_step eth_send core_ready eth_channel y (y\<lparr>er_b := b', er_k := k'\<rparr>)"
| dead: "wlh_eth_transport_dead (er_b y) (er_k y) = (b', k') \<Longrightarrow>
    eth_rx_step eth_send core_ready eth_channel y (y\<lparr>er_b := b', er_k := k'\<rparr>)"
| alive: "wlh_eth_transport_alive (er_b y) (er_k y) = (b', k') \<Longrightarrow>
    eth_rx_step eth_send core_ready eth_channel y (y\<lparr>er_b := b', er_k := k'\<rparr>)"
| submit: "wlh_eth_rx_from_core session_id channel frame sz (er_b y) = (r, b') \<Longrightarrow>
    eth_rx_step eth_send core_ready eth_channel y (y\<lparr>er_b := b'\<rparr>)"
| core_moves: "eth_rx_step eth_send core_ready eth_channel y (y\<lparr>er_core := c'\<rparr>)"

inductive eth_rx_reach ::
    "('c \<Rightarrow> byte list \<Rightarrow> 'c \<times> send_result) \<Rightarrow> ('c \<Rightarrow> bool) \<Rightarrow> byte \<Rightarrow> 'c eth_rx_sys \<Rightarrow> 'c eth_rx_sys \<Rightarrow> bool"
  for eth_send core_ready eth_channel where
  eth_rx_refl: "eth_rx_reach eth_send core_ready eth_channel y y"
| eth_rx_more: "eth_rx_reach eth_send core_ready eth_channel y u \<Longrightarrow>
    eth_rx_step eth_send core_ready eth_channel u v \<Longrightarrow> eth_rx_reach eth_send core_ready eth_channel y v"

definition eth_rx_start :: "eth_backend \<Rightarrow> rt_kernel \<Rightarrow> 'c \<Rightarrow> 'c eth_rx_sys" where
  "eth_rx_start b k c = \<lparr>er_b = b, er_k = k, er_core = c, er_pc = WkWait, er_hw = 0, er_in = [],
     er_out = [], er_sent = []\<rparr>"

section \<open>What each operation leaves alone\<close>

text \<open>The receive ring and its three counters.\<close>

definition same_rx :: "eth_backend \<Rightarrow> eth_backend \<Rightarrow> bool" where
  "same_rx b' b \<longleftrightarrow> s_rx_desc b' = s_rx_desc b \<and> s_rx_cur b' = s_rx_cur b \<and>
     e_rx_frames (s_stats b') = e_rx_frames (s_stats b) \<and>
     e_rx_dropped (s_stats b') = e_rx_dropped (s_stats b) \<and>
     e_rx_errors (s_stats b') = e_rx_errors (s_stats b)"

lemma same_rx_trans: "same_rx b2 b1 \<Longrightarrow> same_rx b1 b \<Longrightarrow> same_rx b2 b"
  by (simp add: same_rx_def)

lemma flow_same_rx:
  "same_rx (snd (eth_flow_control_request q b)) b" "same_rx (eth_pause_upstream b) b"
  "same_rx (eth_resume_upstream b) b" "same_rx (eth_rx_after blocked n b) b"
  by (auto simp: same_rx_def eth_flow_control_request_def eth_pause_upstream_def eth_resume_upstream_def
      eth_rx_after_def ETH_InitiatePauseControlFrame_def Let_def split: prod.splits)

lemma scan_same_rx: "same_rx (eth_tx_complete_slot i b) b" "same_rx (eth_tx_complete_scan b) b"
proof -
  show 1: "same_rx (eth_tx_complete_slot i b) b" for i b
    by (simp add: same_rx_def eth_tx_complete_slot_def Let_def)
  have "same_rx (fold eth_tx_complete_slot is b) b" for "is"
  proof (induction "is" arbitrary: b)
    case (Cons i "is")
    from same_rx_trans [OF Cons [of "eth_tx_complete_slot i b"] 1] show ?case by simp
  qed (simp add: same_rx_def)
  then show "same_rx (eth_tx_complete_scan b) b" by (simp add: eth_tx_complete_scan_def)
qed

text \<open>The flags, the rings and the semaphore, which the interrupt sources do not change.\<close>

definition same_flags :: "eth_backend \<Rightarrow> eth_backend \<Rightarrow> bool" where
  "same_flags b' b \<longleftrightarrow> s_eth_sem b' = s_eth_sem b \<and> s_rx_credit_ready b' = s_rx_credit_ready b \<and>
     s_pause_active b' = s_pause_active b \<and> s_link_up b' = s_link_up b \<and>
     s_duplex_full b' = s_duplex_full b \<and> s_rx_backpressured b' = s_rx_backpressured b"

lemma irq_source_same:
  assumes "\<And>s. e_rx_frames (tally s) = e_rx_frames s \<and> e_rx_dropped (tally s) = e_rx_dropped s \<and>
      e_rx_errors (tally s) = e_rx_errors s"
  shows "same_rx (fst bw) b \<Longrightarrow> same_rx (fst (irq_source sr it tally wake bw)) b"
    and "same_flags (fst bw) b \<Longrightarrow> same_flags (fst (irq_source sr it tally wake bw)) b"
    and "same_tx (fst bw) b \<Longrightarrow> same_tx (fst (irq_source sr it tally wake bw)) b"
    and "eth_log (fst bw) = eth_log b \<Longrightarrow> eth_log (fst (irq_source sr it tally wake bw)) = eth_log b"
  using assms by (cases bw; simp add: irq_source_def same_rx_def same_flags_def same_tx_def
      ETH_DMAClearITPendingBit_def write_DMASR_def)+

lemma irq_cases:
  assumes "ETH_IRQHandler b k = (b', k')"
  obtains b1 wake where "same_rx b1 b" "same_flags b1 b" "same_tx b1 b" "eth_log b1 = eth_log b"
    "b' = (if wake then b1\<lparr>s_eth_sem := fst (snd (rt_sem_release (s_eth_sem b1) k))\<rparr> else b1)"
proof -
  define u where "u = (\<lambda>b :: eth_backend. \<not> s_rx_backpressured b)"
  define q where "q = irq_source (r_DMASR b) ETH_DMA_IT_NIS (\<lambda>s. s) (\<lambda>_. False)
             (irq_source (r_DMASR b) ETH_DMA_IT_AIS (\<lambda>s. s) u
               (irq_source (r_DMASR b) ETH_DMA_IT_RBU (\<lambda>s. s\<lparr>e_isr_rbu := e_isr_rbu s + 1\<rparr>) u
                 (irq_source (r_DMASR b) ETH_DMA_IT_T (\<lambda>s. s\<lparr>e_isr_tx := e_isr_tx s + 1\<rparr>) (\<lambda>_. True)
                   (irq_source (r_DMASR b) ETH_DMA_IT_R (\<lambda>s. s\<lparr>e_isr_rx := e_isr_rx s + 1\<rparr>) u
                     (b, False)))))"
  have "same_rx (fst q) b" "same_flags (fst q) b" "same_tx (fst q) b" "eth_log (fst q) = eth_log b"
    unfolding q_def by (intro irq_source_same; simp add: same_rx_def same_flags_def same_tx_def)+
  moreover have "b' = (if snd q then (fst q)\<lparr>s_eth_sem := fst (snd (rt_sem_release (s_eth_sem (fst q)) k))\<rparr>
      else fst q)"
    using assms unfolding ETH_IRQHandler_def Let_def u_def [symmetric] q_def [symmetric]
    by (auto split: prod.splits if_splits)
  ultimately show thesis by (rule that)
qed

lemma calls_same_rx:
  "ETH_IRQHandler b k = (b', k') \<Longrightarrow> same_rx b' b"
  "wlh_eth_tx_ready ch ch' b k = (b', k') \<Longrightarrow> same_rx b' b"
  "wlh_eth_transport_dead b k = (b', k') \<Longrightarrow> same_rx b' b"
  "wlh_eth_transport_alive b k = (b', k') \<Longrightarrow> same_rx b' b"
  "eth_worker_check b = (go, b') \<Longrightarrow> same_rx b' b"
proof -
  assume "ETH_IRQHandler b k = (b', k')"
  then show "same_rx b' b" by (rule irq_cases) (auto simp: same_rx_def)
qed (auto simp: same_rx_def wlh_eth_tx_ready_def wlh_eth_transport_dead_def wlh_eth_transport_alive_def
      eth_worker_check_def Let_def split: prod.splits if_splits)

lemma from_core_same_rx: "wlh_eth_rx_from_core sid chn frame sz b = (r, b') \<Longrightarrow> same_rx b' b"
  by (auto simp: same_rx_def wlh_eth_rx_from_core_def reject_frame_def write_DMASR_def Let_def
      split: if_splits option.splits)

lemma link_report_frame:
  "same_rx (eth_link_report cr up b) b" "same_flags (eth_link_report cr up b) b"
  "same_tx (eth_link_report cr up b) b"
  "completions (eth_log (eth_link_report cr up b)) = completions (eth_log b)"
  by (simp_all add: eth_link_report_def same_rx_def same_flags_def same_tx_def)

text \<open>A poll that changes the link: the fields it leaves alone, and the new flags.\<close>

lemma link_poll_cases:
  assumes "eth_link_poll cr st ls b k = (ls', b', k')"
  obtains "b' = b" | b1 where "same_rx b1 b" "s_eth_sem b1 = s_eth_sem b"
      "s_rx_credit_ready b1 = s_rx_credit_ready b" "s_link_up b1 = link_up st"
      "s_duplex_full b1 = full_duplex st"
      "s_pause_active b1 = (s_pause_active b \<and> link_up st \<and> full_duplex st)"
      "b' = b1\<lparr>s_eth_sem := fst (snd (rt_sem_release (s_eth_sem b1) k))\<rparr>"
proof (cases "link_up st \<noteq> link_up ls \<or> link_up st \<and> (speed_mbps st \<noteq> speed_mbps ls \<or>
             full_duplex st \<noteq> full_duplex ls)")
  case False
  then show ?thesis using assms that(1) by (simp add: eth_link_poll_def Let_def)
next
  case True
  define b4 where "b4 = (let b1 = b\<lparr>s_link_up := link_up st, s_duplex_full := full_duplex st\<rparr>;
              b2 = (if \<not> link_up st \<or> \<not> full_duplex st
                    then b1\<lparr>s_pause_active := False\<rparr> else b1);
              b3 = b2\<lparr>s_link_speed :=
                 (if speed_mbps st = 100 then WLH_COPROC_ETH_SPEED_100M
                  else if speed_mbps st = 10 then WLH_COPROC_ETH_SPEED_10M
                  else WLH_COPROC_ETH_SPEED_UNSPECIFIED)\<rparr>
     in (if link_up st
                    then (if \<not> link_up ls
                          then upd_eth_stats (\<lambda>s. s\<lparr>e_link_ups := e_link_ups s + 1\<rparr>) b3 else b3)
                    else b3\<lparr>s_link_speed := WLH_COPROC_ETH_SPEED_UNSPECIFIED\<rparr>))"
  have b4: "same_rx b4 b" "s_eth_sem b4 = s_eth_sem b" "s_rx_credit_ready b4 = s_rx_credit_ready b"
      "s_link_up b4 = link_up st" "s_duplex_full b4 = full_duplex st"
      "s_pause_active b4 = (s_pause_active b \<and> link_up st \<and> full_duplex st)"
    by (simp_all add: b4_def same_rx_def Let_def)
  show ?thesis
  proof (rule that(2) [of "eth_link_report cr (link_up st) b4"])
    show "same_rx (eth_link_report cr (link_up st) b4) b"
      using same_rx_trans [OF link_report_frame(1) b4(1)] .
    show "b' = (eth_link_report cr (link_up st) b4)\<lparr>s_eth_sem :=
        fst (snd (rt_sem_release (s_eth_sem (eth_link_report cr (link_up st) b4)) k))\<rparr>"
      using assms True unfolding eth_link_poll_def b4_def Let_def by (auto split: prod.splits)
  qed (use b4 link_report_frame(2) [of cr "link_up st" b4] in \<open>simp_all add: same_flags_def\<close>)
qed


section \<open>Turns of the drain loop\<close>

definition rx_fits :: "u32 \<times> byte list \<Rightarrow> rx_outcome \<Rightarrow> bool" where
  "rx_fits d oc = (case oc of
      Delivered f \<Rightarrow> rx_good (fst d) \<and> 14 \<le> unat (rx_length (fst d)) \<and>
        unat (rx_length (fst d)) \<le> 1518 \<and> f = take (unat (rx_length (fst d))) (snd d)
    | Dropped \<Rightarrow> rx_good (fst d)
    | Errored \<Rightarrow> \<not> rx_good (fst d))"

definition rx_counts :: "rx_outcome list \<Rightarrow> eth_backend \<Rightarrow> bool" where
  "rx_counts out b \<longleftrightarrow>
    e_rx_frames (s_stats b) = word_of_nat (length (filter (\<lambda>oc. \<exists>f. oc = Delivered f) out)) \<and>
    e_rx_dropped (s_stats b) = word_of_nat (length (filter (\<lambda>oc. oc = Dropped) out)) \<and>
    e_rx_errors (s_stats b) = word_of_nat (length (filter (\<lambda>oc. oc = Errored) out))"

lemma rx_counts_same: "same_rx b' b \<Longrightarrow> rx_counts out b' = rx_counts out b"
  by (simp add: rx_counts_def same_rx_def)

lemma rx_counts_step: "rx_counts out b \<Longrightarrow> rx_counts (out @ [oc]) (rx_rearm_desc (rx_count oc b))"
  by (cases oc) (simp_all add: rx_counts_def rx_count_def rx_rearm_desc_def Let_def)

lemma rx_block_frame: "same_rx (rx_block b) b" "s_rx_backpressured (rx_block b)"
  "s_eth_sem (rx_block b) = s_eth_sem b" "s_rx_credit_ready (rx_block b) = s_rx_credit_ready b"
  "s_link_up (rx_block b) = s_link_up b" "s_duplex_full (rx_block b) = s_duplex_full b"
  "s_pause_active (rx_block b) \<Longrightarrow> s_pause_active b \<or> s_link_up b \<and> s_duplex_full b"
  by (cases "s_link_up b"; cases "s_duplex_full b"; auto simp: rx_block_def same_rx_def
      eth_pause_upstream_def eth_flow_control_request_def ETH_InitiatePauseControlFrame_def Let_def)+

lemma turn_cases:
  assumes "eth_rx_turn eth_send ready b c = Some (t, b', c')"
  obtains (idle) "t = RxIdle" "same_rx b' b" "same_flags b' b" "rx_owned b (s_rx_cur b)" "c' = c"
  | (blocked) "t = RxBlocked" "b' = rx_block b" "\<not> rx_owned b (s_rx_cur b)" "ready"
  | (moved) oc where "t = RxNext oc" "\<not> rx_owned b (s_rx_cur b)" "b' = rx_rearm_desc (rx_count oc b)"
      "rx_fits (d_status (s_rx_desc b ! s_rx_cur b), d_buffer (s_rx_desc b ! s_rx_cur b)) oc"
proof -
  let ?d = "s_rx_desc b ! s_rx_cur b" and ?len = "rx_length (d_status (s_rx_desc b ! s_rx_cur b))"
  have r: "s_rx_cur b < length (s_rx_desc b)"
    using assms by (simp add: eth_rx_turn_def split: if_splits)
  consider "rx_owned b (s_rx_cur b)" | "\<not> rx_owned b (s_rx_cur b)" "\<not> rx_good (d_status ?d)"
    | "\<not> rx_owned b (s_rx_cur b)" "rx_good (d_status ?d)"
      "\<not> (ready \<and> ?len \<ge> WLH_ETH_MIN_FRAME \<and> ?len \<le> WLH_ETH_MAX_FRAME)"
    | "\<not> rx_owned b (s_rx_cur b)" "rx_good (d_status ?d)" "ready"
      "14 \<le> unat ?len" "unat ?len \<le> 1518"
    by (auto simp: eth_sizes word_le_nat_alt)
  then show ?thesis
  proof cases
    case 1
    then show ?thesis using assms r idle
      by (auto simp: eth_rx_turn_def rx_owned_def Let_def same_rx_def same_flags_def write_DMASR_def)
  next
    case 2
    then show ?thesis using assms r moved [of Errored]
      by (auto simp: eth_rx_turn_def rx_owned_def Let_def rx_fits_def)
  next
    case 3
    then have "Some (t, b', c') = Some (RxNext Dropped, rx_rearm_desc (rx_count Dropped b), c)"
      using assms r
      by (cases ready; cases "?len \<ge> WLH_ETH_MIN_FRAME"; cases "?len \<le> WLH_ETH_MAX_FRAME")
         (simp_all add: eth_rx_turn_def rx_owned_def Let_def)
    with 3 show ?thesis using moved [of Dropped] by (simp add: rx_fits_def)
  next
    case 4
    obtain c1 res where e: "eth_send c (take (unat ?len) (d_buffer ?d)) = (c1, res)"
      by (cases "eth_send c (take (unat ?len) (d_buffer ?d))")
    have "?len \<ge> WLH_ETH_MIN_FRAME" "?len \<le> WLH_ETH_MAX_FRAME"
      using 4 by (simp_all add: eth_sizes word_le_nat_alt)
    with 4 assms r e show ?thesis
      using blocked moved [of Dropped] moved [of "Delivered (take (unat ?len) (d_buffer ?d))"]
      by (cases res) (auto simp: eth_rx_turn_def rx_owned_def Let_def rx_fits_def)
  qed
qed

section \<open>The receive ring\<close>

text \<open>The \<open>a\<close> descriptors from the current one on are the CPU's; then comes the DMA's next one.\<close>

definition rx_ring :: "eth_backend \<Rightarrow> nat \<Rightarrow> nat \<Rightarrow> bool" where
  "rx_ring b h a \<longleftrightarrow> length (s_rx_desc b) = 6 \<and> s_rx_cur b < 6 \<and> a \<le> 6 \<and> h = ring6 (s_rx_cur b) a \<and>
    (\<forall>i<6. d_next (s_rx_desc b ! i) = (i + 1) mod 6 \<and> length (d_buffer (s_rx_desc b ! i)) = 1536) \<and>
    (\<forall>j<6. rx_owned b (ring6 (s_rx_cur b) j) \<longleftrightarrow> \<not> j < a)"

definition rx_entry :: "eth_backend \<Rightarrow> nat \<Rightarrow> u32 \<times> byte list" where
  "rx_entry b i = (d_status (s_rx_desc b ! i), d_buffer (s_rx_desc b ! i))"

definition rx_waiting :: "eth_backend \<Rightarrow> nat \<Rightarrow> (u32 \<times> byte list) list" where
  "rx_waiting b a = map (\<lambda>j. rx_entry b (ring6 (s_rx_cur b) j)) [0..<a]"

definition eth_rx_inv :: "'c eth_rx_sys \<Rightarrow> bool" where
  "eth_rx_inv y \<longleftrightarrow>
    (\<exists>a taken. rx_ring (er_b y) (er_hw y) a \<and> er_in y = taken @ rx_waiting (er_b y) a \<and>
       list_all2 rx_fits taken (er_out y) \<and> rx_counts (er_out y) (er_b y))"

lemma rx_inv_still:
  assumes "eth_rx_inv y" "same_rx (er_b y') (er_b y)" "er_hw y' = er_hw y" "er_in y' = er_in y"
    and "er_out y' = er_out y"
  shows "eth_rx_inv y'"
proof -
  have "rx_owned (er_b y') = rx_owned (er_b y)" "rx_entry (er_b y') = rx_entry (er_b y)"
    using assms(2) by (simp_all add: rx_owned_def rx_entry_def same_rx_def fun_eq_iff)
  with assms rx_counts_same [OF assms(2)] show ?thesis
    by (simp add: eth_rx_inv_def rx_ring_def rx_waiting_def same_rx_def)
qed

lemma rx_ring_rearm:
  assumes r: "rx_ring b h a" and free: "\<not> rx_owned b (s_rx_cur b)"
  shows "\<exists>a'. a = Suc a' \<and> rx_ring (rx_rearm_desc (rx_count oc b)) h a' \<and>
    rx_waiting b a = rx_entry b (s_rx_cur b) # rx_waiting (rx_rearm_desc (rx_count oc b)) a'"
proof -
  let ?c = "s_rx_cur b" and ?b' = "rx_rearm_desc (rx_count oc b)"
  have c: "?c < 6" "length (s_rx_desc b) = 6" using r by (simp_all add: rx_ring_def)
  obtain a' where a: "a = Suc a'"
    using free r c(1) by (cases a) (auto simp: rx_ring_def dest: spec [of _ 0])
  have desc: "s_rx_desc ?b' = (s_rx_desc b)[?c := (s_rx_desc b ! ?c)\<lparr>d_status := ETH_DMARxDesc_OWN\<rparr>]"
    and cur: "s_rx_cur ?b' = ring6 ?c 1"
    using r c by (simp_all add: rx_rearm_desc_def rx_count_def Let_def rx_ring_def ring6_def)
  have own: "rx_owned ?b' i = (rx_owned b i \<or> i = ?c)" for i
    using c by (auto simp: rx_owned_def desc nth_list_update_eq_if eth_rx_bits)
  have entry: "rx_entry ?b' i = rx_entry b i" if "i \<noteq> ?c" for i
    using that by (simp add: rx_entry_def desc nth_list_update_eq_if)
  have ne: "ring6 ?c (Suc j) \<noteq> ?c" if "Suc j < 6" for j
    using ring6_inj [of "Suc j" 0 ?c] that c(1) by simp
  have "rx_ring ?b' h a'"
  proof -
    have "rx_owned ?b' (ring6 (ring6 ?c 1) j) \<longleftrightarrow> \<not> j < a'" if j: "j < 6" for j
    proof (cases "j = 5")
      case True
      then have "ring6 (ring6 ?c 1) j = ?c" using c(1) ring6_Suc(1) [of ?c 5] by (simp add: ring6_def)
      then show ?thesis using True r a by (simp add: own rx_ring_def)
    next
      case False
      then have "Suc j < 6" using j by simp
      then show ?thesis using r a ne [of j] by (auto simp: own ring6_Suc rx_ring_def)
    qed
    then show ?thesis
      using r a c by (simp add: rx_ring_def cur ring6_Suc) (auto simp: desc nth_list_update_eq_if)
  qed
  moreover have "rx_waiting b a = rx_entry b ?c # rx_waiting ?b' a'"
  proof -
    have "map (\<lambda>j. rx_entry b (ring6 ?c (Suc j))) [0..<a'] =
        map (\<lambda>j. rx_entry ?b' (ring6 ?c (Suc j))) [0..<a']"
      using ne a r entry by (auto simp: rx_ring_def)
    then show ?thesis
      using c(1) by (simp add: rx_waiting_def a cur ring6_Suc map_upt_Suc del: upt_Suc)
  qed
  ultimately show ?thesis using a by blast
qed

lemma rx_moved_inv:
  assumes inv: "eth_rx_inv y" and free: "\<not> rx_owned (er_b y) (s_rx_cur (er_b y))"
    and b': "b' = rx_rearm_desc (rx_count oc (er_b y))"
    and fits: "rx_fits (rx_entry (er_b y) (s_rx_cur (er_b y))) oc"
    and y': "er_b y' = b'" "er_hw y' = er_hw y" "er_in y' = er_in y" "er_out y' = er_out y @ [oc]"
  shows "eth_rx_inv y'"
proof -
  let ?b = "er_b y"
  obtain a taken where r: "rx_ring ?b (er_hw y) a" and s: "er_in y = taken @ rx_waiting ?b a"
      "list_all2 rx_fits taken (er_out y)" "rx_counts (er_out y) ?b"
    using inv by (auto simp: eth_rx_inv_def)
  obtain a' where "rx_ring b' (er_hw y) a'"
      "rx_waiting ?b a = rx_entry ?b (s_rx_cur ?b) # rx_waiting b' a'"
    using rx_ring_rearm [OF r free] b' by blast
  with s fits rx_counts_step [OF s(3)] show ?thesis unfolding eth_rx_inv_def
    by (intro exI [of _ a'] exI [of _ "taken @ [rx_entry ?b (s_rx_cur ?b)]"])
       (simp add: y' b' list_all2_appendI)
qed

lemma rx_dma_inv:
  assumes inv: "eth_rx_inv y" and own: "rx_owned (er_b y) (er_hw y)"
    and st: "st AND ETH_DMARxDesc_OWN = 0" and len: "length buf = 1536"
    and y': "same_rx (er_b y') ((er_b y)\<lparr>s_rx_desc := (s_rx_desc (er_b y))[er_hw y :=
             (s_rx_desc (er_b y) ! er_hw y)\<lparr>d_status := st, d_buffer := buf\<rparr>]\<rparr>)"
      "er_hw y' = d_next (s_rx_desc (er_b y) ! er_hw y)" "er_in y' = er_in y @ [(st, buf)]"
      "er_out y' = er_out y"
  shows "eth_rx_inv y'"
proof -
  let ?b = "er_b y" and ?b' = "er_b y'" and ?h = "er_hw y" and ?c = "s_rx_cur (er_b y)"
  obtain a taken where r: "rx_ring ?b ?h a" and s: "er_in y = taken @ rx_waiting ?b a"
      "list_all2 rx_fits taken (er_out y)" "rx_counts (er_out y) ?b"
    using inv by (auto simp: eth_rx_inv_def)
  have h: "?h = ring6 ?c a" "?h < 6" "?c < 6" "length (s_rx_desc ?b) = 6" "a \<le> 6"
    using r by (auto simp: rx_ring_def)
  have desc: "s_rx_desc ?b' = (s_rx_desc ?b)[?h := (s_rx_desc ?b ! ?h)\<lparr>d_status := st, d_buffer := buf\<rparr>]"
    and cur: "s_rx_cur ?b' = ?c"
    using y'(1) by (simp_all add: same_rx_def)
  have a: "a < 6"
  proof (rule ccontr)
    assume "\<not> a < 6"
    then have "a = 6" using h(5) by simp
    then have "?h = ring6 ?c 0" using h(1,3) by (simp add: ring6_def)
    moreover have "\<not> rx_owned ?b (ring6 ?c 0)"
      using r \<open>a = 6\<close> by (auto simp: rx_ring_def simp del: ring6_0)
    ultimately show False using own by simp
  qed
  have own': "rx_owned ?b' i = (rx_owned ?b i \<and> i \<noteq> ?h)" for i
    using st h by (auto simp: rx_owned_def desc nth_list_update_eq_if)
  have entry: "rx_entry ?b' i = (if i = ?h then (st, buf) else rx_entry ?b i)" for i
    using h by (auto simp: rx_entry_def desc nth_list_update_eq_if)
  have below: "ring6 ?c j \<noteq> ?h" if "j < a" for j
    using that a ring6_inj [of j a ?c] by (simp add: h(1))
  have "rx_ring ?b' (er_hw y') (Suc a)"
  proof -
    have "er_hw y' = ring6 ?c (Suc a)"
      using r h(2) by (simp add: y'(2) rx_ring_def) (simp add: ring6_def mod_Suc_eq)
    moreover have "rx_owned ?b' (ring6 ?c j) \<longleftrightarrow> \<not> j < Suc a" if "j < 6" for j
      using r that a ring6_inj [of j a ?c] by (auto simp: own' h(1) rx_ring_def)
    ultimately show ?thesis
      using r a len by (simp add: rx_ring_def cur) (auto simp: desc nth_list_update_eq_if)
  qed
  moreover have "rx_waiting ?b' (Suc a) = rx_waiting ?b a @ [(st, buf)]"
    using below by (simp add: rx_waiting_def cur entry h(1) [symmetric])
  moreover have "rx_counts (er_out y') ?b'"
    using s(3) y'(1) by (simp add: y'(4) rx_counts_def same_rx_def)
  ultimately show ?thesis
    using s unfolding eth_rx_inv_def
    by (intro exI [of _ "Suc a"] exI [of _ taken]) (simp add: y')
qed


lemma eth_rx_step_inv:
  "eth_rx_step eth_send core_ready ch y y' \<Longrightarrow> eth_rx_inv y \<Longrightarrow> eth_rx_inv y'"
proof (induction rule: eth_rx_step.induct)
  case (turn y ready n t b' c' sent')
  from turn(2) show ?case
  proof (cases rule: turn_cases)
    case idle
    with turn(3) show ?thesis by (elim rx_inv_still) simp_all
  next
    case blocked
    with turn(3) show ?thesis by (elim rx_inv_still) (simp_all add: rx_block_frame)
  next
    case (moved oc)
    with turn(3) show ?thesis
      by (elim rx_moved_inv [of _ _ oc]) (simp_all add: rx_entry_def)
  qed
next
  case (dma y st buf)
  from dma(4,1-3) show ?case by (rule rx_dma_inv) (simp_all add: same_rx_def)
qed (erule rx_inv_still;
  simp add: calls_same_rx from_core_same_rx scan_same_rx flow_same_rx;
  auto simp: same_rx_def elim: link_poll_cases)+

text \<open>The frames the core has accepted are the delivered ones, byte for byte.\<close>

definition accepted :: "(byte list \<times> send_result) list \<Rightarrow> byte list list" where
  "accepted sent = map fst (filter (\<lambda>s. snd s = WLH_COPROC_OK) sent)"

definition delivered :: "rx_outcome list \<Rightarrow> byte list list" where
  "delivered out = concat (map (\<lambda>oc. case oc of Delivered f \<Rightarrow> [f] | _ \<Rightarrow> []) out)"

lemma turn_sends:
  assumes "eth_rx_turn (noted_send eth_send) ready b (c, sent) = Some (t, b', c', sent')"
  shows "accepted sent' = accepted sent @ delivered (case t of RxNext oc \<Rightarrow> [oc] | _ \<Rightarrow> [])"
proof -
  let ?f = "take (unat (rx_length (d_status (s_rx_desc b ! s_rx_cur b)))) (d_buffer (s_rx_desc b ! s_rx_cur b))"
  obtain c1 res where e: "eth_send c ?f = (c1, res)" by (cases "eth_send c ?f")
  then have n: "noted_send eth_send (c, sent) ?f = ((c1, sent @ [(?f, res)]), res)"
    by (simp add: noted_send_def)
  show ?thesis using assms n
    by (cases res) (auto simp: eth_rx_turn_def Let_def accepted_def delivered_def split: if_splits)
qed

lemma eth_rx_step_sends:
  "eth_rx_step eth_send core_ready ch y y' \<Longrightarrow> accepted (er_sent y) = delivered (er_out y) \<Longrightarrow>
    accepted (er_sent y') = delivered (er_out y')"
proof (induction rule: eth_rx_step.induct)
  case (turn y ready n t b' c' sent')
  from turn_sends [OF turn(2)] turn(3) show ?case by (simp add: delivered_def)
qed simp_all

lemma eth_rx_reach_sends:
  "eth_rx_reach eth_send core_ready ch y y' \<Longrightarrow> accepted (er_sent y) = delivered (er_out y) \<Longrightarrow>
    accepted (er_sent y') = delivered (er_out y')"
  by (induction rule: eth_rx_reach.induct) (blast intro: eth_rx_step_sends)+

section \<open>Wake-ups and pause frames\<close>

definition eth_ctl_inv :: "'c eth_rx_sys \<Rightarrow> bool" where
  "eth_ctl_inv y \<longleftrightarrow>
    (let b = er_b y
     in sem_waiters (s_eth_sem b) = [] \<and> sem_max_value (s_eth_sem b) = 65535 \<and>
        (s_rx_credit_ready b \<longrightarrow>
           sem_value (s_eth_sem b) \<noteq> 0 \<or> er_pc y = WkScan \<or> er_pc y = WkCheck) \<and>
        (s_pause_active b \<longrightarrow> s_link_up b \<and> s_duplex_full b))"

text \<open>The fields of the invariant are kept, a pause at most ends.\<close>

definition quiet :: "eth_backend \<Rightarrow> eth_backend \<Rightarrow> bool" where
  "quiet b' b \<longleftrightarrow> s_eth_sem b' = s_eth_sem b \<and> s_rx_credit_ready b' = s_rx_credit_ready b \<and>
     s_link_up b' = s_link_up b \<and> s_duplex_full b' = s_duplex_full b \<and>
     (s_pause_active b' \<longrightarrow> s_pause_active b)"

lemma quiet_trans: "quiet b2 b1 \<Longrightarrow> quiet b1 b \<Longrightarrow> quiet b2 b"
  by (simp add: quiet_def)

lemma quiet_ops:
  "same_flags b' b \<Longrightarrow> quiet b' b" "quiet (eth_resume_upstream b) b" "quiet (eth_rx_after blocked n b) b"
  "quiet (rx_rearm_desc (rx_count oc b)) b"
proof -
  show "same_flags b' b \<Longrightarrow> quiet b' b" by (simp add: same_flags_def quiet_def)
  show 1: "quiet (eth_resume_upstream b) b" for b
    by (auto simp: quiet_def eth_resume_upstream_def eth_flow_control_request_def
        ETH_InitiatePauseControlFrame_def Let_def split: prod.splits)
  have 2: "quiet (eth_resume_upstream (b\<lparr>s_rx_backpressured := False\<rparr>)) b" for b
    using 1 [of "b\<lparr>s_rx_backpressured := False\<rparr>"] by (simp add: quiet_def)
  show "quiet (eth_rx_after blocked n b) b"
    using 1 [of b] 2 [of b] quiet_trans [OF 1 2, of b]
    by (simp add: eth_rx_after_def Let_def) (simp add: quiet_def)
  show "quiet (rx_rearm_desc (rx_count oc b)) b"
    by (simp add: quiet_def rx_rearm_desc_def rx_count_def Let_def)
qed

lemma scan_quiet: "quiet (eth_tx_complete_scan b) b"
proof -
  have "quiet (fold eth_tx_complete_slot is b) b" for "is"
  proof (induction "is" arbitrary: b)
    case (Cons i "is")
    have "quiet (eth_tx_complete_slot i b) b" by (simp add: quiet_def eth_tx_complete_slot_def Let_def)
    from quiet_trans [OF Cons [of "eth_tx_complete_slot i b"] this] show ?case by simp
  qed (simp add: quiet_def)
  then show ?thesis by (simp add: eth_tx_complete_scan_def)
qed

lemma from_core_quiet: "wlh_eth_rx_from_core sid chn frame sz b = (r, b') \<Longrightarrow> quiet b' b"
  by (auto simp: quiet_def wlh_eth_rx_from_core_def reject_frame_def write_DMASR_def Let_def
      split: if_splits option.splits)

lemma ctl_quiet:
  assumes "eth_ctl_inv y" "quiet (er_b y') (er_b y)"
    and "er_pc y = WkScan \<or> er_pc y = WkCheck \<longrightarrow> er_pc y' = WkScan \<or> er_pc y' = WkCheck"
  shows "eth_ctl_inv y'"
  using assms by (auto simp: eth_ctl_inv_def quiet_def Let_def)

lemma ctl_pause: "eth_ctl_inv y \<Longrightarrow> s_pause_active (er_b y) \<longrightarrow> s_link_up (er_b y) \<and> s_duplex_full (er_b y)"
  by (simp add: eth_ctl_inv_def Let_def)

text \<open>A call that ends with a release of the semaphore.\<close>

lemma ctl_release:
  assumes "eth_ctl_inv y" "er_pc y' = er_pc y" "s_eth_sem b1 = s_eth_sem (er_b y)"
    and "s_pause_active b1 \<longrightarrow> s_link_up b1 \<and> s_duplex_full b1"
    and "er_b y' = b1\<lparr>s_eth_sem := fst (snd (rt_sem_release (s_eth_sem b1) k))\<rparr>"
  shows "eth_ctl_inv y'"
proof -
  have w: "sem_waiters (s_eth_sem b1) = []" "sem_max_value (s_eth_sem b1) = 65535"
    using assms(1,3) by (simp_all add: eth_ctl_inv_def Let_def)
  obtain r sem k' where rel: "rt_sem_release (s_eth_sem b1) k = (r, sem, k')"
    by (cases "rt_sem_release (s_eth_sem b1) k")
  from release_no_waiters [OF w rel] assms(4) show ?thesis
    by (simp add: eth_ctl_inv_def Let_def assms(5) rel)
qed

lemma eth_rx_step_ctl:
  "eth_rx_step eth_send core_ready ch y y' \<Longrightarrow> eth_ctl_inv y \<Longrightarrow> eth_ctl_inv y'"
proof (induction rule: eth_rx_step.induct)
  case (wake y out sem k')
  from take_token [OF wake(2,3)] wake(1,4) show ?case
    by (auto simp: eth_ctl_inv_def Let_def)
next
  case (scan y)
  then show ?case using scan_quiet by (elim ctl_quiet) simp_all
next
  case (check y go b')
  then show ?case by (auto simp: eth_ctl_inv_def eth_worker_check_def Let_def)
next
  case (start y)
  then show ?case by (elim ctl_quiet) (simp_all add: quiet_def)
next
  case (turn y ready n t b' c' sent')
  from turn(2) show ?case
  proof (cases rule: turn_cases)
    case idle
    with turn(1,3) quiet_ops(1) show ?thesis by (elim ctl_quiet) simp_all
  next
    case blocked
    with turn(1,3) rx_block_frame [of "er_b y"] show ?thesis
      by (auto simp: eth_ctl_inv_def Let_def)
  next
    case (moved oc)
    with turn(1,3) quiet_ops(4) show ?thesis by (elim ctl_quiet) simp_all
  qed
next
  case (after y blocked n)
  then show ?case using quiet_ops(3) by (elim ctl_quiet) simp_all
next
  case (dma y st buf)
  then show ?case by (elim ctl_quiet) (simp_all add: quiet_def)
next
  case (starved y)
  then show ?case by (elim ctl_quiet) (simp_all add: quiet_def)
next
  case (isr y b' k')
  from isr(1) show ?case
  proof (rule irq_cases)
    fix b1 wake
    assume b1: "same_flags b1 (er_b y)"
      and b': "b' = (if wake then b1\<lparr>s_eth_sem := fst (snd (rt_sem_release (s_eth_sem b1) (er_k y)))\<rparr>
        else b1)"
    show ?thesis
    proof (cases wake)
      case True
      with isr(2) b1 b' ctl_pause [OF isr(2)] show ?thesis
        by (elim ctl_release [of _ _ b1 "er_k y"]) (simp_all add: same_flags_def)
    next
      case False
      with isr(2) b' quiet_ops(1) [OF b1] show ?thesis by (elim ctl_quiet) simp_all
    qed
  qed
next
  case (credit channel y b' k')
  let ?b1 = "upd_eth_stats (\<lambda>s. s\<lparr>e_core_ready_wakes := e_core_ready_wakes s + 1\<rparr>)
      ((er_b y)\<lparr>s_rx_credit_ready := True\<rparr>)"
  show ?case
  proof (cases "channel = ch")
    case True
    with credit ctl_pause [OF credit(2)] show ?thesis
      by (elim ctl_release [of _ _ ?b1 "er_k y"])
        (auto simp: wlh_eth_tx_ready_def Let_def split: prod.splits)
  next
    case False
    with credit show ?thesis by (simp add: wlh_eth_tx_ready_def eth_ctl_inv_def Let_def)
  qed
next
  case (link y status last_st last' b' k')
  from link(1) show ?case
  proof (rule link_poll_cases)
    assume "b' = er_b y"
    with link(2) show ?thesis by (simp add: eth_ctl_inv_def Let_def)
  next
    fix b1
    assume "s_eth_sem b1 = s_eth_sem (er_b y)" "s_link_up b1 = link_up status"
      "s_duplex_full b1 = full_duplex status"
      "s_pause_active b1 = (s_pause_active (er_b y) \<and> link_up status \<and> full_duplex status)"
      "b' = b1\<lparr>s_eth_sem := fst (snd (rt_sem_release (s_eth_sem b1) (er_k y)))\<rparr>"
    with link(2) show ?thesis by (elim ctl_release [of _ _ b1 "er_k y"]) simp_all
  qed
next
  case (dead y b' k')
  let ?b1 = "(er_b y)\<lparr>s_transport_dead := True,
      s_tx_slots := map (\<lambda>s. s\<lparr>in_flight := False\<rparr>) (s_tx_slots (er_b y))\<rparr>"
  from dead ctl_pause [OF dead(2)] show ?case
    by (elim ctl_release [of _ _ ?b1 "er_k y"])
      (auto simp: wlh_eth_transport_dead_def Let_def split: prod.splits)
next
  case (alive y b' k')
  let ?b1 = "(er_b y)\<lparr>s_transport_dead := False\<rparr>"
  from alive ctl_pause [OF alive(2)] show ?case
    by (elim ctl_release [of _ _ ?b1 "er_k y"])
      (auto simp: wlh_eth_transport_alive_def Let_def split: prod.splits)
next
  case (submit session_id channel frame sz y r b')
  then show ?case using from_core_quiet by (elim ctl_quiet) auto
next
  case (core_moves y c')
  then show ?case by (simp add: eth_ctl_inv_def Let_def)
qed

lemma eth_rx_reach_inv:
  "eth_rx_reach eth_send core_ready ch y y' \<Longrightarrow> eth_rx_inv y \<Longrightarrow> eth_ctl_inv y \<Longrightarrow>
     eth_rx_inv y' \<and> eth_ctl_inv y'"
  by (induction rule: eth_rx_reach.induct) (auto intro: eth_rx_step_inv eth_rx_step_ctl)

section \<open>The drain loop ends\<close>

lemma rx_loop_returns:
  assumes "rx_ring b h a"
  shows "\<exists>blocked n' b' c'. eth_rx_loop eth_send ready n b c = Some (blocked, n', b', c') \<and>
    n' \<le> n + a \<and> (if blocked then ready \<and> s_rx_backpressured b' \<and> \<not> rx_owned b' (s_rx_cur b')
      else \<forall>i<6. rx_owned b' i)"
  using assms
proof (induction a arbitrary: n b c)
  case 0
  have own: "rx_owned b i" if "i < 6" for i
    using ring6_surj [of i "s_rx_cur b"] that 0 by (auto simp: rx_ring_def)
  moreover have "s_rx_cur b < 6" "length (s_rx_desc b) = 6" using 0 by (simp_all add: rx_ring_def)
  ultimately show ?case
    by (subst eth_rx_loop.simps)
      (auto simp: eth_rx_turn_def rx_owned_def Let_def write_DMASR_def)
next
  case (Suc a)
  have c: "s_rx_cur b < 6" "length (s_rx_desc b) = 6" using Suc.prems by (simp_all add: rx_ring_def)
  have free: "\<not> rx_owned b (s_rx_cur b)"
    using Suc.prems c(1) by (auto simp: rx_ring_def dest: spec [of _ 0])
  have "eth_rx_turn eth_send ready b c \<noteq> None"
    using c by (auto simp: eth_rx_turn_def Let_def split: prod.splits send_result.splits)
  then obtain t b1 c1 where t: "eth_rx_turn eth_send ready b c = Some (t, b1, c1)" by auto
  then show ?case
  proof (cases rule: turn_cases)
    case idle
    with free show ?thesis by simp
  next
    case blocked
    then have "\<not> rx_owned b1 (s_rx_cur b1)"
      using free rx_block_frame(1) [of b] by (simp add: rx_owned_def same_rx_def)
    with blocked t rx_block_frame(2) show ?thesis
      by (subst eth_rx_loop.simps) (auto simp: blocked)
  next
    case (moved oc)
    then obtain a' where "rx_ring b1 h a'" "Suc a = Suc a'"
      using rx_ring_rearm [OF Suc.prems free] by blast
    with Suc.IH [of b1 "n + 1" c1] obtain bl n' b' c' where
      "eth_rx_loop eth_send ready (n + 1) b1 c1 = Some (bl, n', b', c')" "n' \<le> n + 1 + a"
      "if bl then ready \<and> s_rx_backpressured b' \<and> \<not> rx_owned b' (s_rx_cur b') else \<forall>i<6. rx_owned b' i"
      by auto
    with t moved(1) show ?thesis by (subst eth_rx_loop.simps) auto
  qed
qed

lemma rx_after_keeps: "rx_owned (eth_rx_after blocked n b) = rx_owned b"
  "s_rx_cur (eth_rx_after blocked n b) = s_rx_cur b"
  using flow_same_rx(4) [of blocked n b] by (simp_all add: same_rx_def rx_owned_def fun_eq_iff)

lemma resume_clears:
  "r_MACFCR b AND ETH_MACFCR_FCBBPA = 0 \<Longrightarrow> s_link_up b \<Longrightarrow> s_duplex_full b \<Longrightarrow>
     \<not> s_pause_active (eth_resume_upstream b)"
  "s_rx_backpressured (eth_resume_upstream b) = s_rx_backpressured b"
  by (auto simp: eth_resume_upstream_def eth_flow_control_request_def Let_def
      ETH_InitiatePauseControlFrame_def split: prod.splits)

lemma rx_after_unblocked:
  "\<not> s_rx_backpressured (eth_rx_after False n b)"
  "s_rx_backpressured (eth_rx_after True n b) = s_rx_backpressured b"
  by (auto simp: eth_rx_after_def Let_def resume_clears(2))

section \<open>The transmit side is left alone\<close>

lemma flow_same_tx:
  "same_tx (snd (eth_flow_control_request q b)) b" "same_tx (eth_pause_upstream b) b"
  "same_tx (eth_resume_upstream b) b" "same_tx (rx_block b) b" "same_tx (eth_rx_after blocked n b) b"
  "same_tx (rx_rearm_desc (rx_count oc b)) b"
  "eth_log (eth_resume_upstream b) = eth_log b" "eth_log (rx_block b) = eth_log b"
  "eth_log (eth_rx_after blocked n b) = eth_log b"
  by (auto simp: same_tx_def eth_flow_control_request_def eth_pause_upstream_def eth_resume_upstream_def
      eth_rx_after_def rx_block_def rx_rearm_desc_def rx_count_def
      ETH_InitiatePauseControlFrame_def Let_def split: prod.splits)

text \<open>Each of these is a step \<open>other\<close> of the transmit system.\<close>

lemma eth_rx_turn_same_tx:
  assumes "eth_rx_turn eth_send ready b c = Some (t, b', c')"
  shows "same_tx b' b" and "completions (eth_log b') = completions (eth_log b)"
proof -
  have "same_tx b' b \<and> completions (eth_log b') = completions (eth_log b)"
    using assms
  proof (cases rule: turn_cases)
    case idle
    with assms show ?thesis
      by (auto simp: eth_rx_turn_def Let_def same_tx_def write_DMASR_def rx_owned_def split: if_splits)
  next
    case blocked
    then show ?thesis by (simp add: flow_same_tx)
  next
    case (moved oc)
    then show ?thesis by (simp add: flow_same_tx) (simp add: rx_rearm_desc_def rx_count_def Let_def)
  qed
  then show "same_tx b' b" "completions (eth_log b') = completions (eth_log b)" by simp_all
qed

lemma irq_bits:
  "ETH_DMA_IT_R \<noteq> 0" "ETH_DMA_IT_NIS \<noteq> 0"
  "ETH_DMA_IT_R AND ETH_DMA_IT_T = 0" "ETH_DMA_IT_R AND ETH_DMA_IT_RBU = 0"
  "ETH_DMA_IT_R AND ETH_DMA_IT_AIS = 0" "ETH_DMA_IT_NIS AND ETH_DMA_IT_T = 0"
  "ETH_DMA_IT_NIS AND ETH_DMA_IT_RBU = 0" "ETH_DMA_IT_NIS AND ETH_DMA_IT_AIS = 0"
  by (simp_all add: ETH_DMA_IT_R_def ETH_DMA_IT_NIS_def ETH_DMA_IT_T_def ETH_DMA_IT_RBU_def
      ETH_DMA_IT_AIS_def)

lemma clear_then_test: "((x AND NOT (a :: u32)) AND NOT b) AND a = 0"
  by (rule bit_eqI) (auto simp: bit_simps)

lemma after_DMASR: "r_DMASR (eth_rx_after blocked n b) = r_DMASR b"
  by (auto simp: eth_rx_after_def eth_resume_upstream_def eth_flow_control_request_def
      ETH_InitiatePauseControlFrame_def Let_def split: prod.splits)

section \<open>Initial state\<close>

lemma eth_rx_start_inv:
  assumes "wlh_eth_backend_init True True True dmasr macfcr = (0, Some b)"
  shows "eth_rx_inv (eth_rx_start b k c)" and "eth_ctl_inv (eth_rx_start b k c)"
proof -
  note i = init_backend [OF assms]
  have own: "rx_owned b j" if "j < 6" for j
    using that by (simp add: rx_owned_def i(2) ETH_DMARxDescChainInit_def eth_rx_bits)
  have "rx_ring b 0 0"
    using own next6
    by (simp add: rx_ring_def i(2,5) ETH_DMARxDescChainInit_def length_zero_bufs)
  moreover have "rx_counts [] b" by (simp add: rx_counts_def i(7) zero_eth_stats_def)
  ultimately show "eth_rx_inv (eth_rx_start b k c)"
    unfolding eth_rx_inv_def
    by (intro exI [of _ 0] exI [of _ "[]"]) (simp add: eth_rx_start_def rx_waiting_def)
  show "eth_ctl_inv (eth_rx_start b k c)"
    using i(8,10,11)
    by (simp add: eth_ctl_inv_def eth_rx_start_def sem_object_init_def RT_SEM_VALUE_MAX_def)
qed

section \<open>Properties\<close>

text \<open>C4
  No received frame is lost or delivered twice, whatever the interleaving of the DMA, the
  interrupt handler, the worker, credit notifications, link changes and transport resets, from
  an initialised backend: what the DMA has written is, in order, what the worker has dealt with
  followed by at most six descriptors still waiting; each frame dealt with was delivered (only
  the CRC stripped, 14 to 1518 bytes, no error in its descriptor), or counted as dropped, or
  counted as erroneous; the frames that the core's send function was called with and accepted
  are exactly the delivered ones, in order; and the three counters are these numbers (modulo
  2^32).
\<close>

theorem eth_rx_no_loss:
  assumes "wlh_eth_backend_init True True True dmasr macfcr = (0, Some b)"
    and "eth_rx_reach eth_send core_ready ch (eth_rx_start b k c) y"
  shows "\<exists>taken waiting. er_in y = taken @ waiting \<and> length waiting \<le> 6 \<and>
    list_all2 rx_fits taken (er_out y) \<and> accepted (er_sent y) = delivered (er_out y) \<and>
    rx_counts (er_out y) (er_b y)"
proof -
  obtain a taken where "rx_ring (er_b y) (er_hw y) a" "er_in y = taken @ rx_waiting (er_b y) a"
      "list_all2 rx_fits taken (er_out y)" "rx_counts (er_out y) (er_b y)"
    using eth_rx_reach_inv [OF assms(2) eth_rx_start_inv [OF assms(1)]]
    by (auto simp: eth_rx_inv_def)
  moreover have "accepted (er_sent y) = delivered (er_out y)"
    using eth_rx_reach_sends [OF assms(2)]
    by (simp add: eth_rx_start_def accepted_def delivered_def)
  ultimately show ?thesis
    by (intro exI [of _ taken] exI [of _ "rx_waiting (er_b y) a"])
       (simp add: rx_waiting_def rx_ring_def)
qed

text \<open>C35
  Credit notifications and pause frames: in every reachable state a credit notification that
  the worker has not looked at yet keeps a token in the semaphore until the worker is on its
  way to look, so that a retained frame is retried; and a pause is in force only on a
  full-duplex link that is up.
\<close>

theorem eth_credit_and_pause:
  assumes "wlh_eth_backend_init True True True dmasr macfcr = (0, Some b)"
    and "eth_rx_reach eth_send core_ready ch (eth_rx_start b k c) y"
  shows "(s_rx_credit_ready (er_b y) \<and> er_pc y \<noteq> WkScan \<and> er_pc y \<noteq> WkCheck \<longrightarrow>
      0 < sem_value (s_eth_sem (er_b y))) \<and>
    (s_pause_active (er_b y) \<longrightarrow> s_link_up (er_b y) \<and> s_duplex_full (er_b y))"
  using eth_rx_reach_inv [OF assms(2) eth_rx_start_inv [OF assms(1)]]
  by (auto simp: eth_ctl_inv_def Let_def word_gt_0)

text \<open>
  The drain loop ends, for every core: from a well-formed receive ring with \<open>a\<close> descriptors of
  the CPU it looks at no more than \<open>a\<close> of them when the DMA adds none, and it leaves either
  every descriptor with the DMA and no backpressure, or, only while forwarding, backpressure
  with the refused frame still in its descriptor.
\<close>

theorem eth_rx_drain_ends:
  assumes "rx_ring b h a"
  shows "\<exists>b' c'. eth_rx_drain eth_send core_ready b c = Some (b', c') \<and>
    ((\<forall>i<6. rx_owned b' i) \<and> \<not> s_rx_backpressured b' \<or>
     s_rx_backpressured b' \<and> \<not> rx_owned b' (s_rx_cur b') \<and>
       core_ready c \<and> s_link_up b \<and> \<not> s_transport_dead b)"
proof -
  let ?ready = "\<not> s_transport_dead b \<and> core_ready c \<and> s_link_up b"
  obtain bl n' b1 c1 where l: "eth_rx_loop eth_send ?ready 0 b c = Some (bl, n', b1, c1)"
      "if bl then ?ready \<and> s_rx_backpressured b1 \<and> \<not> rx_owned b1 (s_rx_cur b1)
       else \<forall>i<6. rx_owned b1 i"
    using rx_loop_returns [OF assms, of eth_send ?ready 0 c] by blast
  then show ?thesis
    by (cases bl) (auto simp: eth_rx_drain_def rx_after_keeps rx_after_unblocked)
qed

text \<open>
  A limit of the wake-ups: the interrupt handler does not wake the worker while backpressure is
  on, and the drain loop clears backpressure only after it has seen the ring empty.  A frame
  that arrives in between finds its interrupt swallowed: the worker goes to wait with no token,
  no backpressure, and a received frame in the ring.
\<close>

theorem eth_rx_wakeup_swallowed:
  assumes "er_pc y = WkAfter False n" and "s_rx_backpressured (er_b y)"
    and "sem_value (s_eth_sem (er_b y)) = 0" and "rx_ring (er_b y) (er_hw y) 0"
    and "r_DMASR (er_b y) AND (ETH_DMA_IT_T OR ETH_DMA_IT_RBU OR ETH_DMA_IT_AIS) = 0"
    and "st AND ETH_DMARxDesc_OWN = 0" and "length buf = 1536"
  shows "\<exists>y'. eth_rx_reach eth_send core_ready ch y y' \<and> er_in y' = er_in y @ [(st, buf)] \<and>
    er_pc y' = WkWait \<and> sem_value (s_eth_sem (er_b y')) = 0 \<and> \<not> s_rx_backpressured (er_b y') \<and>
    \<not> rx_owned (er_b y') (s_rx_cur (er_b y')) \<and> r_DMASR (er_b y') AND ETH_DMA_IT_R = 0"
proof -
  let ?b = "er_b y"
  have c: "s_rx_cur ?b < 6" "length (s_rx_desc ?b) = 6" "er_hw y = s_rx_cur ?b" "rx_owned ?b (er_hw y)"
    using assms(4) by (auto simp: rx_ring_def dest: spec [of _ 0])
  let ?b1 = "?b\<lparr>s_rx_desc := (s_rx_desc ?b)[er_hw y := (s_rx_desc ?b ! er_hw y)\<lparr>d_status := st,
      d_buffer := buf\<rparr>], r_DMASR := r_DMASR ?b OR (ETH_DMA_IT_R OR ETH_DMA_IT_NIS)\<rparr>"
  let ?y1 = "y\<lparr>er_b := ?b1, er_hw := d_next (s_rx_desc ?b ! er_hw y), er_in := er_in y @ [(st, buf)]\<rparr>"
  have s1: "eth_rx_step eth_send core_ready ch y ?y1" by (rule eth_rx_step.dma [OF c(4) assms(6,7)])
  define sr where "sr = r_DMASR ?b1"
  have sr: "sr AND ETH_DMA_IT_R \<noteq> 0" "sr AND ETH_DMA_IT_NIS \<noteq> 0" "sr AND ETH_DMA_IT_T = 0"
      "sr AND ETH_DMA_IT_RBU = 0" "sr AND ETH_DMA_IT_AIS = 0"
    using assms(5) irq_bits
    by (simp_all add: sr_def bit.conj_disj_distrib bit.conj_disj_distrib2 or_eq_0_iff)
  let ?b2 = "ETH_DMAClearITPendingBit ETH_DMA_IT_NIS (ETH_DMAClearITPendingBit ETH_DMA_IT_R
      (upd_eth_stats (\<lambda>s. s\<lparr>e_isr_rx := e_isr_rx s + 1\<rparr>) ?b1))"
  have irq: "ETH_IRQHandler ?b1 (er_k y) = (?b2, er_k y)"
    using sr assms(2) unfolding ETH_IRQHandler_def sr_def [symmetric]
    by (simp add: irq_source_def Let_def ETH_DMAClearITPendingBit_def write_DMASR_def)
  let ?y2 = "?y1\<lparr>er_b := ?b2, er_k := er_k y\<rparr>"
  have s2: "eth_rx_step eth_send core_ready ch ?y1 ?y2"
    using eth_rx_step.isr [of ?y1 ?b2 "er_k y" eth_send core_ready ch] irq by simp
  let ?y3 = "?y2\<lparr>er_b := eth_rx_after False n ?b2, er_pc := WkWait\<rparr>"
  have s3: "eth_rx_step eth_send core_ready ch ?y2 ?y3"
    using eth_rx_step.after [of ?y2 False n eth_send core_ready ch] assms(1) by simp
  have keep: "same_rx (eth_rx_after False n ?b2) ?b2" "quiet (eth_rx_after False n ?b2) ?b2"
    "r_DMASR (eth_rx_after False n ?b2) = r_DMASR ?b2"
    by (rule flow_same_rx quiet_ops after_DMASR)+
  have "\<not> rx_owned (er_b ?y3) (s_rx_cur (er_b ?y3))"
    using c(1-3) assms(6) keep(1)
    by (simp add: rx_owned_def same_rx_def ETH_DMAClearITPendingBit_def write_DMASR_def)
  moreover have "sem_value (s_eth_sem (er_b ?y3)) = 0"
    using keep(2) assms(3)
    by (simp add: quiet_def ETH_DMAClearITPendingBit_def write_DMASR_def)
  moreover have "r_DMASR (er_b ?y3) AND ETH_DMA_IT_R = 0"
    using keep(3) by (simp add: ETH_DMAClearITPendingBit_def write_DMASR_def clear_then_test)
  ultimately show ?thesis
    using eth_rx_more [OF eth_rx_more [OF eth_rx_more [OF eth_rx_refl s1] s2] s3]
      rx_after_unblocked(1) [of n ?b2]
    by (intro exI [of _ ?y3]) simp
qed

text \<open>
  A flow-control request on a full-duplex link with an idle MAC writes exactly the given pause
  time into the upper half of MACFCR, enables transmit flow control and starts the control
  frame, leaves the other bits alone and counts one pause or resume frame; with the link
  down, half duplex or a busy MAC it changes nothing and says so.
\<close>

theorem eth_flow_control_register:
  assumes "eth_flow_control_request q b = (sent, b')"
  shows "sent = (s_link_up b \<and> s_duplex_full b \<and> r_MACFCR b AND ETH_MACFCR_FCBBPA = 0) \<and>
    (if sent
     then drop_bit 16 (r_MACFCR b') = ucast q \<and> bit (r_MACFCR b') 0 \<and> bit (r_MACFCR b') 1 \<and>
       (\<forall>i. 2 \<le> i \<and> i < 16 \<longrightarrow> bit (r_MACFCR b') i = bit (r_MACFCR b) i) \<and>
       e_pause_frames (s_stats b') + e_resume_frames (s_stats b') =
         e_pause_frames (s_stats b) + e_resume_frames (s_stats b) + 1
     else b' = b)"
proof (cases "s_link_up b \<and> s_duplex_full b \<and> r_MACFCR b AND ETH_MACFCR_FCBBPA = 0")
  case False
  then show ?thesis using assms by (auto simp: eth_flow_control_request_def split: if_splits)
next
  case True
  have cb: "bit ETH_MACFCR_PT i = (16 \<le> i \<and> i < 32)" "bit ETH_MACFCR_TFCE i = (i = 1)"
    "bit ETH_MACFCR_FCBBPA i = (i = 0)" for i
  proof -
    have pt: "ETH_MACFCR_PT = push_bit 16 (mask 16)"
      by (simp add: ETH_MACFCR_PT_def mask_eq_exp_minus_1)
    show "bit ETH_MACFCR_PT i = (16 \<le> i \<and> i < 32)"
      unfolding pt bit_push_bit_iff bit_mask_iff by auto
    show "bit ETH_MACFCR_TFCE i = (i = 1)" "bit ETH_MACFCR_FCBBPA i = (i = 0)"
      using bit_single [of 1 i] bit_single [of 0 i]
      by (simp_all add: ETH_MACFCR_TFCE_def ETH_MACFCR_FCBBPA_def)
  qed
  have b': "sent" "r_MACFCR b' = ((r_MACFCR b AND NOT ETH_MACFCR_PT) OR
      (push_bit 16 (ucast q) OR ETH_MACFCR_TFCE)) OR ETH_MACFCR_FCBBPA"
    "s_stats b' = (if q \<noteq> 0 then (s_stats b)\<lparr>e_pause_frames := e_pause_frames (s_stats b) + 1\<rparr>
       else (s_stats b)\<lparr>e_resume_frames := e_resume_frames (s_stats b) + 1\<rparr>)"
    using assms True
    by (auto simp: eth_flow_control_request_def ETH_InitiatePauseControlFrame_def Let_def)
  have bits: "bit (r_MACFCR b') i = (if i < 2 then True else if i < 16 then bit (r_MACFCR b) i
      else i < 32 \<and> bit q (i - 16))" if "i < 32" for i
    using that by (auto simp: b'(2) bit_or_iff bit_and_iff bit_not_iff cb bit_push_bit_iff bit_ucast_iff)
  have "drop_bit 16 (r_MACFCR b') = ucast q"
  proof (rule bit_word_eqI)
    fix i assume "i < LENGTH(32)"
    then have i: "i < 32" by simp
    show "bit (drop_bit 16 (r_MACFCR b')) i = bit (ucast q :: u32) i"
    proof (cases "i < 16")
      case True
      then show ?thesis using bits [of "16 + i"] by (simp add: bit_drop_bit_eq bit_ucast_iff)
    next
      case False
      then have "\<not> bit (r_MACFCR b') (16 + i)" "\<not> bit q i"
        using bit_imp_le_length [of "r_MACFCR b'" "16 + i"] bit_imp_le_length [of q i] by auto
      then show ?thesis by (simp add: bit_drop_bit_eq bit_ucast_iff)
    qed
  qed
  with b'(1,3) bits show ?thesis using True by simp
qed

section \<open>Witnesses\<close>

lemma demo_eth_received:
  assumes "wlh_eth_backend_init True True True 0 0 = (0, Some b)"
  shows "\<exists>y. eth_rx_reach (\<lambda>c f. (c @ [f], WLH_COPROC_OK)) (\<lambda>_. True) 3
      (eth_rx_start b two_threads ([] :: byte list list)) y \<and>
    er_in y = [(0x00440300, replicate 1536 0)]"
proof -
  note i = init_backend [OF assms]
  let ?y = "eth_rx_start b two_threads ([] :: byte list list)"
  have "rx_owned (er_b ?y) (er_hw ?y)"
    by (simp add: eth_rx_start_def rx_owned_def i(2) ETH_DMARxDescChainInit_def eth_rx_bits)
  from eth_rx_more [OF eth_rx_refl eth_rx_step.dma [OF this, where st = "0x00440300"
      and buf = "replicate 1536 0"]]
  show ?thesis by (fastforce simp: eth_rx_bits eth_rx_start_def)
qed

lemma eth_rx_no_loss_witness:
  "\<exists>b y taken waiting. eth_rx_reach (\<lambda>c f. (c @ [f], WLH_COPROC_OK)) (\<lambda>_. True) 3
      (eth_rx_start b two_threads ([] :: byte list list)) y \<and>
    er_in y = [(0x00440300, replicate 1536 0)] \<and> er_in y = taken @ waiting \<and>
    list_all2 rx_fits taken (er_out y) \<and> accepted (er_sent y) = delivered (er_out y)"
proof -
  obtain b where b: "wlh_eth_backend_init True True True 0 0 = (0, Some b)" using demo_eth_init by blast
  obtain y where y: "eth_rx_reach (\<lambda>c f. (c @ [f], WLH_COPROC_OK)) (\<lambda>_. True) 3
      (eth_rx_start b two_threads ([] :: byte list list)) y" "er_in y = [(0x00440300, replicate 1536 0)]"
    using demo_eth_received [OF b] by blast
  from eth_rx_no_loss [OF b y(1)] y show ?thesis by metis
qed

lemma eth_credit_and_pause_witness:
  "\<exists>b y. eth_rx_reach (\<lambda>c f. (c, WLH_COPROC_OK)) (\<lambda>_. True) 3 (eth_rx_start b two_threads (0 :: nat)) y \<and>
    s_rx_credit_ready (er_b y) \<and> 0 < sem_value (s_eth_sem (er_b y))"
proof -
  obtain b where b: "wlh_eth_backend_init True True True 0 0 = (0, Some b)" using demo_eth_init by blast
  let ?y = "eth_rx_start b two_threads (0 :: nat)"
  obtain b' k' where c: "wlh_eth_tx_ready 3 3 (er_b ?y) (er_k ?y) = (b', k')"
    by (cases "wlh_eth_tx_ready 3 3 (er_b ?y) (er_k ?y)")
  have r: "eth_rx_reach (\<lambda>c f. (c, WLH_COPROC_OK)) (\<lambda>_. True) 3 ?y (?y\<lparr>er_b := b', er_k := k'\<rparr>)"
    by (rule eth_rx_more [OF eth_rx_refl eth_rx_step.credit [OF c]])
  have f: "s_rx_credit_ready b'"
    using c by (auto simp: wlh_eth_tx_ready_def Let_def split: prod.splits)
  have "0 < sem_value (s_eth_sem b')"
    using eth_credit_and_pause [OF b r] f by (simp add: eth_rx_start_def)
  with r f show ?thesis by (intro exI [of _ b] exI [of _ "?y\<lparr>er_b := b', er_k := k'\<rparr>"]) simp
qed

lemma eth_rx_drain_ends_witness:
  "\<exists>b b' c'. eth_rx_drain (\<lambda>c f. (c @ [f], WLH_COPROC_NO_CREDIT)) (\<lambda>_. True) b ([] :: byte list list) =
    Some (b', c') \<and> (\<forall>i<6. rx_owned b' i)"
proof -
  obtain b where b: "wlh_eth_backend_init True True True 0 0 = (0, Some b)" using demo_eth_init by blast
  have "rx_ring b 0 0"
    using init_backend(2,5) [OF b] next6
    by (simp add: rx_ring_def ETH_DMARxDescChainInit_def length_zero_bufs rx_owned_def eth_rx_bits)
  from eth_rx_drain_ends [OF this, of "\<lambda>c f. (c @ [f], WLH_COPROC_NO_CREDIT)" "\<lambda>_. True" "[]"]
    init_backend(12) [OF b]
  show ?thesis by auto
qed

lemma eth_rx_wakeup_swallowed_witness:
  "\<exists>y y'. er_pc y = WkAfter False 1 \<and> s_rx_backpressured (er_b y) \<and>
    eth_rx_reach (\<lambda>c f. (c, WLH_COPROC_OK)) (\<lambda>_. True) 3 y y' \<and>
    er_pc (y' :: nat eth_rx_sys) = WkWait \<and> sem_value (s_eth_sem (er_b y')) = 0 \<and>
    \<not> rx_owned (er_b y') (s_rx_cur (er_b y'))"
proof -
  obtain b where b: "wlh_eth_backend_init True True True 0 0 = (0, Some b)" using demo_eth_init by blast
  note i = init_backend [OF b]
  have d: "r_DMASR b = 0"
    using b by (auto simp: wlh_eth_backend_init_def emac_init_def rt_sem_create_def zero_backend_def)
  let ?y = "(eth_rx_start b two_threads (0 :: nat))\<lparr>er_pc := WkAfter False 1,
      er_b := b\<lparr>s_rx_backpressured := True\<rparr>\<rparr>"
  have "rx_ring (er_b ?y) (er_hw ?y) 0"
    using i(2,5) next6
    by (simp add: rx_ring_def ETH_DMARxDescChainInit_def length_zero_bufs rx_owned_def eth_rx_bits
        eth_rx_start_def)
  moreover have p: "er_pc ?y = WkAfter False 1" "s_rx_backpressured (er_b ?y)"
    and "sem_value (s_eth_sem (er_b ?y)) = 0"
    "r_DMASR (er_b ?y) AND (ETH_DMA_IT_T OR ETH_DMA_IT_RBU OR ETH_DMA_IT_AIS) = 0"
    using d i(8) by (simp_all add: sem_object_init_def)
  ultimately obtain y' where y': "eth_rx_reach (\<lambda>c f. (c, WLH_COPROC_OK)) (\<lambda>_. True) 3 ?y y'"
      "er_pc y' = WkWait" "sem_value (s_eth_sem (er_b y')) = 0"
      "\<not> rx_owned (er_b y') (s_rx_cur (er_b y'))"
    using eth_rx_wakeup_swallowed [of ?y 1 0 "replicate 1536 0" "\<lambda>c f. (c, WLH_COPROC_OK)" "\<lambda>_. True" 3]
    by auto
  show ?thesis by (rule exI [of _ ?y], rule exI [of _ y']) (intro conjI p y')
qed

lemma eth_flow_control_register_witness:
  "\<exists>b'. eth_flow_control_request 0xf0 (full_backend\<lparr>s_duplex_full := True\<rparr>) = (True, b') \<and>
    drop_bit 16 (r_MACFCR b') = 0xf0"
proof -
  obtain sent b' where r: "eth_flow_control_request 0xf0 (full_backend\<lparr>s_duplex_full := True\<rparr>) = (sent, b')"
    by (cases "eth_flow_control_request 0xf0 (full_backend\<lparr>s_duplex_full := True\<rparr>)")
  have "sent" using r
    by (auto simp: eth_flow_control_request_def full_backend_def zero_backend_def Let_def)
  with eth_flow_control_register [OF r] r show ?thesis by simp
qed

end
