(* ===== verification/Ring_Buffer.thy ===== *)
theory Ring_Buffer
  imports Wlh_Prelude
begin

text \<open>
  The ring buffer of rt-thread/components/drivers/ipc/ringbuffer.c (struct in
  include/ipc/ringbuffer.h): two 31-bit indices with a mirror bit each, over a pool of
  \<open>buffer_size\<close> bytes.  The theory models every data operation at the width of the C
  fields, proves that each keeps the representation invariant, and shows that the buffer
  refines a bounded byte queue (\<open>rb_contents\<close>).  The queue laws are the interface
  \<open>byte_fifo\<close>, interpreted on the model at the end; the USB receive path uses it.
\<close>

section \<open>State\<close>

text \<open>
  The pool that \<open>buffer_ptr\<close> points to is a list of bytes; a one-bit field is a \<open>bool\<close>, a
  31-bit field a \<open>31 word\<close>, and \<open>buffer_size\<close> (rt_int32_t) the 32-bit pattern.
\<close>

record rt_ringbuffer =
  buffer_ptr :: "byte list"
  read_mirror :: bool
  read_index :: "31 word"
  write_mirror :: bool
  write_index :: "31 word"
  buffer_size :: u32

datatype rt_ringbuffer_state =
    RT_RINGBUFFER_EMPTY
  | RT_RINGBUFFER_FULL
  | RT_RINGBUFFER_HALFFULL

abbreviation ridx32 :: "rt_ringbuffer \<Rightarrow> u32" where
  "ridx32 rb \<equiv> ucast (read_index rb)"

abbreviation widx32 :: "rt_ringbuffer \<Rightarrow> u32" where
  "widx32 rb \<equiv> ucast (write_index rb)"

section \<open>Operations\<close>

definition rt_ringbuffer_status :: "rt_ringbuffer \<Rightarrow> rt_ringbuffer_state" where
  "rt_ringbuffer_status rb =
    (if read_index rb = write_index rb
     then (if read_mirror rb = write_mirror rb then RT_RINGBUFFER_EMPTY else RT_RINGBUFFER_FULL)
     else RT_RINGBUFFER_HALFFULL)"

text \<open>\<open>None\<close> is the failed RT_ASSERT(size > 0), which stops the system.\<close>

definition rt_ringbuffer_init :: "byte list \<Rightarrow> u32 \<Rightarrow> rt_ringbuffer option" where
  "rt_ringbuffer_init pool sz =
    (if 0 < sint sz
     then Some \<lparr>buffer_ptr = pool, read_mirror = False, read_index = 0,
                write_mirror = False, write_index = 0,
                buffer_size = RT_ALIGN_DOWN sz RT_ALIGN_SIZE\<rparr>
     else None)"

definition rt_ringbuffer_data_len :: "rt_ringbuffer \<Rightarrow> u32" where
  "rt_ringbuffer_data_len rb =
    (case rt_ringbuffer_status rb of
       RT_RINGBUFFER_EMPTY \<Rightarrow> 0
     | RT_RINGBUFFER_FULL \<Rightarrow> buffer_size rb
     | RT_RINGBUFFER_HALFFULL \<Rightarrow>
         (let wi = widx32 rb; ri = ridx32 rb
          in if wi > ri then wi - ri else buffer_size rb - (ri - wi)))"

definition rt_ringbuffer_space_len :: "rt_ringbuffer \<Rightarrow> u32" where
  "rt_ringbuffer_space_len rb = buffer_size rb - rt_ringbuffer_data_len rb"

definition rt_ringbuffer_get_size :: "rt_ringbuffer \<Rightarrow> u32" where
  "rt_ringbuffer_get_size rb = buffer_size rb"

text \<open>The two copies shared by put and put_force, at the current write index.\<close>

definition rb_copy_in :: "rt_ringbuffer \<Rightarrow> byte list \<Rightarrow> u32 \<Rightarrow> rt_ringbuffer" where
  "rb_copy_in rb ptr len =
    (if buffer_size rb - widx32 rb > len
     then rb\<lparr>buffer_ptr := blit (buffer_ptr rb) (unat (write_index rb)) (take (unat len) ptr),
             write_index := ucast (widx32 rb + len)\<rparr>
     else (let k = buffer_size rb - widx32 rb
           in rb\<lparr>buffer_ptr :=
                  blit (blit (buffer_ptr rb) (unat (write_index rb)) (take (unat k) ptr))
                       0 (take (unat (len - k)) (drop (unat k) ptr)),
                 write_mirror := \<not> write_mirror rb,
                 write_index := ucast (len - k)\<rparr>))"

definition rt_ringbuffer_put :: "rt_ringbuffer \<Rightarrow> byte list \<Rightarrow> u32 \<Rightarrow> rt_ringbuffer \<times> u32" where
  "rt_ringbuffer_put rb ptr len0 =
    (let sz = rt_ringbuffer_space_len rb
     in if sz = 0 then (rb, 0)
        else (let len = (if sz < len0 then sz else len0)
              in (rb_copy_in rb ptr len, len)))"

definition rt_ringbuffer_put_force ::
    "rt_ringbuffer \<Rightarrow> byte list \<Rightarrow> u32 \<Rightarrow> rt_ringbuffer \<times> u32" where
  "rt_ringbuffer_put_force rb ptr0 len0 =
    (let space_length = rt_ringbuffer_space_len rb;
         ptr = (if len0 > buffer_size rb then drop (unat (len0 - buffer_size rb)) ptr0 else ptr0);
         len = (if len0 > buffer_size rb then buffer_size rb else len0);
         rb1 = rb_copy_in rb ptr len
     in if buffer_size rb - widx32 rb > len
        then (if len > space_length then rb1\<lparr>read_index := write_index rb1\<rparr> else rb1, len)
        else (if len > space_length
              then rb1\<lparr>read_mirror :=
                         (if write_index rb1 \<le> read_index rb1 then \<not> read_mirror rb1
                          else read_mirror rb1),
                       read_index := write_index rb1\<rparr>
              else rb1, len))"

text \<open>
  \<open>get\<close> returns the buffer after the call, the bytes written to the caller's array and the
  returned length.
\<close>

definition rt_ringbuffer_get ::
    "rt_ringbuffer \<Rightarrow> u32 \<Rightarrow> rt_ringbuffer \<times> byte list \<times> u32" where
  "rt_ringbuffer_get rb len0 =
    (let sz = rt_ringbuffer_data_len rb
     in if sz = 0 then (rb, [], 0)
        else
         (let len = (if sz < len0 then sz else len0)
          in if buffer_size rb - ridx32 rb > len
             then (rb\<lparr>read_index := ucast (ridx32 rb + len)\<rparr>,
                   take (unat len) (drop (unat (read_index rb)) (buffer_ptr rb)), len)
             else (let k = buffer_size rb - ridx32 rb
                   in (rb\<lparr>read_mirror := \<not> read_mirror rb, read_index := ucast (len - k)\<rparr>,
                       take (unat k) (drop (unat (read_index rb)) (buffer_ptr rb)) @
                       take (unat (len - k)) (buffer_ptr rb), len))))"

text \<open>
  The zero-copy reads return the index that \<open>*ptr\<close> points to (\<open>None\<close> for RT_NULL) and the
  contiguous length.
\<close>

definition rt_ringbuffer_get_direct :: "rt_ringbuffer \<Rightarrow> rt_ringbuffer \<times> nat option \<times> u32" where
  "rt_ringbuffer_get_direct rb =
    (let sz = rt_ringbuffer_data_len rb
     in if sz = 0 then (rb, None, 0)
        else if buffer_size rb - ridx32 rb > sz
        then (rb\<lparr>read_index := ucast (ridx32 rb + sz)\<rparr>, Some (unat (read_index rb)), sz)
        else (rb\<lparr>read_mirror := \<not> read_mirror rb, read_index := 0\<rparr>,
              Some (unat (read_index rb)), buffer_size rb - ridx32 rb))"

definition rt_ringbuffer_peek :: "rt_ringbuffer \<Rightarrow> nat option \<times> u32" where
  "rt_ringbuffer_peek rb =
    (let sz = rt_ringbuffer_data_len rb
     in if sz = 0 then (None, 0)
        else if buffer_size rb - ridx32 rb > sz then (Some (unat (read_index rb)), sz)
        else (Some (unat (read_index rb)), buffer_size rb - ridx32 rb))"

definition rt_ringbuffer_putchar :: "rt_ringbuffer \<Rightarrow> byte \<Rightarrow> rt_ringbuffer \<times> u32" where
  "rt_ringbuffer_putchar rb ch =
    (if rt_ringbuffer_space_len rb = 0 then (rb, 0)
     else
      (let rb1 = rb\<lparr>buffer_ptr := (buffer_ptr rb)[unat (write_index rb) := ch]\<rparr>
       in (if widx32 rb = buffer_size rb - 1
           then rb1\<lparr>write_mirror := \<not> write_mirror rb, write_index := 0\<rparr>
           else rb1\<lparr>write_index := write_index rb + 1\<rparr>, 1)))"

definition rt_ringbuffer_putchar_force :: "rt_ringbuffer \<Rightarrow> byte \<Rightarrow> rt_ringbuffer \<times> u32" where
  "rt_ringbuffer_putchar_force rb ch =
    (let old_state = rt_ringbuffer_status rb;
         rb1 = rb\<lparr>buffer_ptr := (buffer_ptr rb)[unat (write_index rb) := ch]\<rparr>
     in (if widx32 rb = buffer_size rb - 1
         then (let rb2 = rb1\<lparr>write_mirror := \<not> write_mirror rb, write_index := 0\<rparr>
               in if old_state = RT_RINGBUFFER_FULL
                  then rb2\<lparr>read_mirror := \<not> read_mirror rb, read_index := write_index rb2\<rparr>
                  else rb2)
         else (let rb2 = rb1\<lparr>write_index := write_index rb + 1\<rparr>
               in if old_state = RT_RINGBUFFER_FULL
                  then rb2\<lparr>read_index := write_index rb2\<rparr> else rb2), 1))"

definition rt_ringbuffer_getchar :: "rt_ringbuffer \<Rightarrow> rt_ringbuffer \<times> byte option \<times> u32" where
  "rt_ringbuffer_getchar rb =
    (if rt_ringbuffer_data_len rb = 0 then (rb, None, 0)
     else
      (if ridx32 rb = buffer_size rb - 1
       then rb\<lparr>read_mirror := \<not> read_mirror rb, read_index := 0\<rparr>
       else rb\<lparr>read_index := read_index rb + 1\<rparr>,
       Some (buffer_ptr rb ! unat (read_index rb)), 1))"

definition rt_ringbuffer_reset :: "rt_ringbuffer \<Rightarrow> rt_ringbuffer" where
  "rt_ringbuffer_reset rb =
    rb\<lparr>read_mirror := False, read_index := 0, write_mirror := False, write_index := 0\<rparr>"

section \<open>Abstraction and representation invariant\<close>

definition rb_cap :: "rt_ringbuffer \<Rightarrow> nat" where
  "rb_cap rb = unat (buffer_size rb)"

definition rb_used :: "rt_ringbuffer \<Rightarrow> nat" where
  "rb_used rb = unat (rt_ringbuffer_data_len rb)"

definition rb_contents :: "rt_ringbuffer \<Rightarrow> byte list" where
  "rb_contents rb = window (buffer_ptr rb) (rb_cap rb) (unat (read_index rb)) (rb_used rb)"

text \<open>
  Both indices lie in the pool, the pool is at least as long as \<open>buffer_size\<close>, and the
  writer is ahead of the reader: behind it in position only when the mirrors differ.
\<close>

definition rb_inv :: "rt_ringbuffer \<Rightarrow> bool" where
  "rb_inv rb \<longleftrightarrow>
    0 < rb_cap rb \<and> rb_cap rb < 2 ^ 31 \<and> rb_cap rb \<le> length (buffer_ptr rb) \<and>
    unat (read_index rb) < rb_cap rb \<and> unat (write_index rb) < rb_cap rb \<and>
    (if read_mirror rb = write_mirror rb
     then unat (read_index rb) \<le> unat (write_index rb)
     else unat (write_index rb) \<le> unat (read_index rb))"

section \<open>From words to natural numbers\<close>

lemma unat_index32 [word_nat]: "unat (ucast (x :: 31 word) :: u32) = unat x"
proof -
  have "unat x < 2 ^ LENGTH(31)" by (rule unsigned_less)
  then have "unat x < 2 ^ 32" by simp
  then show ?thesis
    by (simp add: unsigned_ucast_eq unsigned_take_bit_eq take_bit_nat_eq_self)
qed

lemma unat_index31 [word_nat]:
  "unat (y :: u32) < 2 ^ 31 \<Longrightarrow> unat (ucast y :: 31 word) = unat y"
  by (simp add: unsigned_ucast_eq unsigned_take_bit_eq take_bit_nat_eq_self)

lemma unat_space_left [word_nat]:
  "rb_inv rb \<Longrightarrow> unat (buffer_size rb - widx32 rb) = rb_cap rb - unat (write_index rb)"
  "rb_inv rb \<Longrightarrow> unat (buffer_size rb - ridx32 rb) = rb_cap rb - unat (read_index rb)"
  by (auto simp: rb_inv_def rb_cap_def unat_sub_u32 unat_index32)

lemma rb_used_eq:
  assumes "rb_inv rb"
  shows "rb_used rb =
    (if read_mirror rb = write_mirror rb
     then unat (write_index rb) - unat (read_index rb)
     else rb_cap rb - unat (read_index rb) + unat (write_index rb))"
  using assms
  by (auto simp: rb_used_def rb_inv_def rb_cap_def rt_ringbuffer_data_len_def
      rt_ringbuffer_status_def Let_def word_less_nat_alt unat_sub_u32 unat_index32
      word_unat_eq_iff split: if_splits)

lemma rb_used_le: "rb_inv rb \<Longrightarrow> rb_used rb \<le> rb_cap rb"
  by (auto simp: rb_used_eq rb_inv_def split: if_splits)

lemma unat_space_len [word_nat]:
  "rb_inv rb \<Longrightarrow> unat (rt_ringbuffer_space_len rb) = rb_cap rb - rb_used rb"
  using rb_used_le [of rb]
  by (simp add: rt_ringbuffer_space_len_def rb_cap_def rb_used_def unat_sub_u32)

lemma unat_data_len [word_nat]: "unat (rt_ringbuffer_data_len rb) = rb_used rb"
  by (simp add: rb_used_def)

lemma length_rb_contents [simp]: "length (rb_contents rb) = rb_used rb"
  by (simp add: rb_contents_def)

text \<open>The writer stands where the window of stored bytes ends.\<close>

lemma write_index_eq:
  assumes "rb_inv rb"
  shows "unat (write_index rb) = (unat (read_index rb) + rb_used rb) mod rb_cap rb"
  using assms rb_used_le [OF assms] by (auto simp: rb_used_eq rb_inv_def ring_index_cases split: if_splits)

section \<open>The shared copy\<close>

lemma copy_in_word:
  assumes inv: "rb_inv rb"
  shows "(buffer_size rb - widx32 rb > len) = (unat (write_index rb) + unat len < rb_cap rb)"
    and "\<not> unat (write_index rb) + unat len < rb_cap rb \<Longrightarrow>
      unat (len - (buffer_size rb - widx32 rb)) =
        unat len - (rb_cap rb - unat (write_index rb))"
    and "unat (write_index rb) + unat len < rb_cap rb \<Longrightarrow>
      unat (ucast (widx32 rb + len) :: 31 word) = unat (write_index rb) + unat len"
proof -
  let ?w = "unat (write_index rb)" and ?c = "rb_cap rb"
  have left: "unat (buffer_size rb - widx32 rb) = ?c - ?w"
    using inv by (rule unat_space_left)
  have w: "?w < ?c" and c: "?c < 2 ^ 31" using inv by (auto simp: rb_inv_def)
  show "(buffer_size rb - widx32 rb > len) = (?w + unat len < ?c)"
    using w by (auto simp: word_less_nat_alt left)
  show "unat (len - (buffer_size rb - widx32 rb)) = unat len - (?c - ?w)"
    if "\<not> ?w + unat len < ?c"
    using that w by (simp add: unat_sub_u32 left)
  show "unat (ucast (widx32 rb + len) :: 31 word) = ?w + unat len"
    if "?w + unat len < ?c"
    using that c by (simp add: unat_index31 unat_add_u32 unat_index32)
qed

lemma rb_copy_in_ptr:
  assumes inv: "rb_inv rb" and "unat len \<le> rb_cap rb" and "unat len \<le> length ptr"
  shows "buffer_ptr (rb_copy_in rb ptr len) =
      ring_write (buffer_ptr rb) (rb_cap rb) (unat (write_index rb)) (take (unat len) ptr)"
  using assms(3) unat_space_left(1) [OF inv] copy_in_word [OF inv, of len]
  by (auto simp: rb_copy_in_def ring_write_def Let_def drop_take min_def)

lemma rb_copy_in_fields:
  assumes inv: "rb_inv rb" and cap: "unat len \<le> rb_cap rb"
  shows "unat (write_index (rb_copy_in rb ptr len)) =
      (unat (write_index rb) + unat len) mod rb_cap rb"
    and "write_mirror (rb_copy_in rb ptr len) =
      (if unat (write_index rb) + unat len < rb_cap rb then write_mirror rb
       else \<not> write_mirror rb)"
    and "read_mirror (rb_copy_in rb ptr len) = read_mirror rb"
    and "read_index (rb_copy_in rb ptr len) = read_index rb"
    and "buffer_size (rb_copy_in rb ptr len) = buffer_size rb"
proof -
  have w: "unat (write_index rb) < rb_cap rb" and c: "rb_cap rb < 2 ^ 31"
    using inv by (auto simp: rb_inv_def)
  show "unat (write_index (rb_copy_in rb ptr len)) =
      (unat (write_index rb) + unat len) mod rb_cap rb"
    using w c cap copy_in_word [OF inv, of len]
    by (auto simp: rb_copy_in_def Let_def unat_index31 ring_index_cases)
  show "write_mirror (rb_copy_in rb ptr len) =
      (if unat (write_index rb) + unat len < rb_cap rb then write_mirror rb
       else \<not> write_mirror rb)"
    by (simp add: rb_copy_in_def copy_in_word [OF inv] Let_def)
qed (simp_all add: rb_copy_in_def Let_def)

lemma rb_cap_copy_in [simp]: "rb_cap (rb_copy_in rb ptr len) = rb_cap rb"
  by (simp add: rb_cap_def rb_copy_in_def Let_def)

lemma length_copy_in:
  assumes "rb_inv rb" "unat len \<le> rb_cap rb" "unat len \<le> length ptr"
  shows "length (buffer_ptr (rb_copy_in rb ptr len)) = length (buffer_ptr rb)"
  using assms by (simp add: rb_copy_in_ptr rb_inv_def)

lemma rb_inv_copy_in:
  assumes inv: "rb_inv rb" and fit: "unat len \<le> rb_cap rb - rb_used rb"
    and src: "unat len \<le> length ptr"
  shows "rb_inv (rb_copy_in rb ptr len)"
proof -
  have cap: "unat len \<le> rb_cap rb" using fit by simp
  show ?thesis
    using inv fit rb_used_eq [OF inv] length_copy_in [OF inv cap src]
    unfolding rb_inv_def rb_cap_copy_in rb_copy_in_fields [OF inv cap]
    by (auto simp: ring_index_cases split: if_splits)
qed

lemma rb_used_copy_in:
  assumes inv: "rb_inv rb" and fit: "unat len \<le> rb_cap rb - rb_used rb"
    and src: "unat len \<le> length ptr"
  shows "rb_used (rb_copy_in rb ptr len) =
    (if unat len = 0 then rb_used rb else rb_used rb + unat len)"
proof -
  have cap: "unat len \<le> rb_cap rb" using fit by simp
  show ?thesis
    using inv fit rb_used_eq [OF inv] rb_used_eq [OF rb_inv_copy_in [OF assms]]
    unfolding rb_cap_copy_in rb_copy_in_fields [OF inv cap] rb_inv_def
    by (auto simp: ring_index_cases split: if_splits)
qed

lemma rb_contents_copy_in:
  assumes inv: "rb_inv rb" and fit: "unat len \<le> rb_cap rb - rb_used rb"
    and src: "unat len \<le> length ptr"
  shows "rb_contents (rb_copy_in rb ptr len) = rb_contents rb @ take (unat len) ptr"
proof -
  have cap: "unat len \<le> rb_cap rb" using fit by simp
  have len: "length (take (unat len) ptr) = unat len" using src by simp
  have n: "rb_used (rb_copy_in rb ptr len) = rb_used rb + length (take (unat len) ptr)"
    unfolding rb_used_copy_in [OF assms] len by simp
  have "rb_used rb + length (take (unat len) ptr) \<le> rb_cap rb"
    using fit rb_used_le [OF inv] len by simp
  moreover have "unat (read_index rb) < rb_cap rb" "rb_cap rb \<le> length (buffer_ptr rb)"
    using inv by (auto simp: rb_inv_def)
  ultimately show ?thesis
    unfolding rb_contents_def n rb_cap_copy_in rb_copy_in_ptr [OF inv cap src]
      rb_copy_in_fields(4) [OF inv cap]
    using write_index_eq [OF inv] by (intro window_ring_write)
qed

section \<open>Each operation on the abstract queue\<close>

lemma sint_pos_u32:
  assumes "0 < sint (x :: u32)"
  shows "unat x < 2 ^ 31"
proof (rule ccontr)
  assume "\<not> unat x < 2 ^ 31"
  then have "(2147483648 :: nat) \<le> unat x" by simp
  then have "int 2147483648 \<le> int (unat x)" by (simp only: of_nat_le_iff)
  then have lo: "2147483648 \<le> uint x" by simp
  have hi: "uint x < 4294967296" using uint_bounded [of x] by simp
  have "uint x div 2147483648 = 1" using lo hi by arith
  then have "bit (uint x) 31" by (simp add: bit_iff_odd)
  moreover have "take_bit 32 (uint x) = uint x" using hi by (simp add: take_bit_int_eq_self)
  ultimately have "sint x = uint x - 4294967296"
    by (simp add: sint_uint signed_take_bit_eq_take_bit_minus)
  with hi assms show False by simp
qed

lemma rb_init:
  assumes "0 < sint sz" and "8 \<le> unat sz" and "unat sz \<le> length pool"
  shows "\<exists>rb. rt_ringbuffer_init pool sz = Some rb \<and> rb_inv rb \<and> rb_contents rb = [] \<and>
    rb_cap rb = unat sz div 8 * 8"
  using assms sint_pos_u32 [OF assms(1)]
  by (auto simp: rt_ringbuffer_init_def rb_inv_def rb_cap_def rb_contents_def rb_used_def
      rt_ringbuffer_data_len_def rt_ringbuffer_status_def window_def
      unat_RT_ALIGN_DOWN_8 div_greater_zero_iff)

lemma rb_put:
  assumes inv: "rb_inv rb" and src: "unat len \<le> length ptr"
    and put: "rt_ringbuffer_put rb ptr len = (rb', n)"
  shows "rb_inv rb'" and "rb_cap rb' = rb_cap rb"
    and "unat n = min (unat len) (rb_cap rb - rb_used rb)"
    and "rb_contents rb' = rb_contents rb @ take (unat n) ptr"
proof -
  let ?sp = "rt_ringbuffer_space_len rb"
  let ?l = "if ?sp < len then ?sp else len"
  have sp: "unat ?sp = rb_cap rb - rb_used rb" using inv by (rule unat_space_len)
  have l: "unat ?l = min (unat len) (rb_cap rb - rb_used rb)"
    using sp by (auto simp: word_less_nat_alt)
  have res: "rb' = (if ?sp = 0 then rb else rb_copy_in rb ptr ?l) \<and> n = (if ?sp = 0 then 0 else ?l)"
    using put by (auto simp: rt_ringbuffer_put_def Let_def split: if_splits)
  have fit: "unat ?l \<le> rb_cap rb - rb_used rb" "unat ?l \<le> length ptr"
    using l src by auto
  show "rb_inv rb'" using res inv rb_inv_copy_in [OF inv fit] by simp
  show "rb_cap rb' = rb_cap rb" using res by simp
  show "unat n = min (unat len) (rb_cap rb - rb_used rb)"
    using res l sp by (auto simp: word_unat_eq_iff)
  show "rb_contents rb' = rb_contents rb @ take (unat n) ptr"
    using res rb_contents_copy_in [OF inv fit] by simp
qed

text \<open>Every read moves the reader over a prefix of the stored bytes.\<close>

lemma rb_advance_read:
  assumes inv: "rb_inv rb" and n: "n \<le> rb_used rb"
    and same: "buffer_ptr rb' = buffer_ptr rb" "buffer_size rb' = buffer_size rb"
      "write_index rb' = write_index rb" "write_mirror rb' = write_mirror rb"
    and ri: "unat (read_index rb') = (unat (read_index rb) + n) mod rb_cap rb"
    and rm: "read_mirror rb' =
      (if unat (read_index rb) + n < rb_cap rb then read_mirror rb else \<not> read_mirror rb)"
  shows "rb_inv rb'" and "rb_cap rb' = rb_cap rb" and "rb_used rb' = rb_used rb - n"
    and "rb_contents rb' = drop n (rb_contents rb)"
proof -
  show cap: "rb_cap rb' = rb_cap rb" by (simp add: rb_cap_def same)
  have nc: "n \<le> rb_cap rb" using n rb_used_le [OF inv] by simp
  show inv': "rb_inv rb'"
    using inv rb_used_eq [OF inv] n ri rm cap nc
    by (auto simp: rb_inv_def same ring_index_cases split: if_splits)
  show used: "rb_used rb' = rb_used rb - n"
    using inv rb_used_eq [OF inv] rb_used_eq [OF inv'] n ri rm cap nc
    by (auto simp: rb_inv_def same ring_index_cases split: if_splits)
  show "rb_contents rb' = drop n (rb_contents rb)"
    using n by (simp add: rb_contents_def used cap same ri drop_window)
qed

lemma rb_read_window:
  assumes inv: "rb_inv rb" and n: "n \<le> rb_used rb"
  shows "take n (rb_contents rb) =
    (if unat (read_index rb) + n < rb_cap rb
     then take n (drop (unat (read_index rb)) (buffer_ptr rb))
     else take (rb_cap rb - unat (read_index rb)) (drop (unat (read_index rb)) (buffer_ptr rb)) @
       take (n - (rb_cap rb - unat (read_index rb))) (buffer_ptr rb))"
  using inv rb_used_le [OF inv] n
  by (auto simp: rb_inv_def rb_contents_def take_window window_straight window_wrapped)

lemma rb_get:
  assumes inv: "rb_inv rb" and get: "rt_ringbuffer_get rb len = (rb', d, n)"
  shows "rb_inv rb'" and "rb_cap rb' = rb_cap rb"
    and "unat n = min (unat len) (rb_used rb)"
    and "d = take (unat n) (rb_contents rb)"
    and "rb_contents rb' = drop (unat n) (rb_contents rb)"
proof -
  let ?u = "rb_used rb" and ?r = "unat (read_index rb)" and ?c = "rb_cap rb"
  define l where
    "l = (if rt_ringbuffer_data_len rb < len then rt_ringbuffer_data_len rb else len)"
  have used: "unat (rt_ringbuffer_data_len rb) = ?u" by (rule unat_data_len)
  have l: "unat l = min (unat len) ?u"
    using used by (auto simp: word_less_nat_alt l_def)
  have left: "unat (buffer_size rb - ridx32 rb) = ?c - ?r"
    using inv by (rule unat_space_left)
  have b: "?r < ?c" "?c < 2 ^ 31" using inv by (auto simp: rb_inv_def)
  have u: "?u \<le> ?c" using inv by (rule rb_used_le)
  have cond: "(buffer_size rb - ridx32 rb > l) = (?r + unat l < ?c)"
    using b by (auto simp: word_less_nat_alt left)
  have rest: "unat (l - (buffer_size rb - ridx32 rb)) = unat l - (?c - ?r)"
    if "\<not> ?r + unat l < ?c"
    using that b by (simp add: unat_sub_u32 left)
  have idx: "unat (ucast (ridx32 rb + l) :: 31 word) = ?r + unat l" if "?r + unat l < ?c"
    using that b by (simp add: unat_index31 unat_add_u32 unat_index32)
  have zero: "rt_ringbuffer_data_len rb = 0 \<longleftrightarrow> ?u = 0"
    using used by (simp add: word_unat_eq_iff)
  have res: "rt_ringbuffer_get rb len =
    (if ?u = 0 then (rb, [], 0)
     else if ?r + unat l < ?c
     then (rb\<lparr>read_index := ucast (ridx32 rb + l)\<rparr>,
           take (unat l) (drop ?r (buffer_ptr rb)), l)
     else (rb\<lparr>read_mirror := \<not> read_mirror rb,
              read_index := ucast (l - (buffer_size rb - ridx32 rb))\<rparr>,
           take (?c - ?r) (drop ?r (buffer_ptr rb)) @
           take (unat l - (?c - ?r)) (buffer_ptr rb), l))"
    using rest by (auto simp: rt_ringbuffer_get_def Let_def left zero cond simp flip: l_def)
  have n: "unat n = min (unat len) ?u"
    using get l by (auto simp: res split: if_splits)
  have adv: "unat (read_index rb') = (?r + unat n) mod ?c"
    "read_mirror rb' = (if ?r + unat n < ?c then read_mirror rb else \<not> read_mirror rb)"
    using get b u l rest idx
    by (auto simp: res ring_index_cases unat_index31 split: if_splits)
  have same: "buffer_ptr rb' = buffer_ptr rb" "buffer_size rb' = buffer_size rb"
      "write_index rb' = write_index rb" "write_mirror rb' = write_mirror rb"
    using get by (auto simp: res split: if_splits)
  have nu: "unat n \<le> ?u" using n by simp
  show "unat n = min (unat len) ?u" by (rule n)
  show "rb_inv rb'" and "rb_cap rb' = ?c" and "rb_contents rb' = drop (unat n) (rb_contents rb)"
    by (rule rb_advance_read [OF inv nu same adv])+
  show "d = take (unat n) (rb_contents rb)"
    using get rb_read_window [OF inv nu] l by (auto simp: res split: if_splits)
qed

text \<open>The zero-copy reads hand out the first contiguous run of the stored bytes.\<close>

lemma rb_run_word:
  assumes inv: "rb_inv rb"
  shows "rt_ringbuffer_data_len rb = 0 \<longleftrightarrow> rb_used rb = 0"
    and "(buffer_size rb - ridx32 rb > rt_ringbuffer_data_len rb) =
      (unat (read_index rb) + rb_used rb < rb_cap rb)"
    and "unat (buffer_size rb - ridx32 rb) = rb_cap rb - unat (read_index rb)"
  using inv unat_space_left(2) [OF inv]
  by (auto simp: rb_used_def word_unat_eq_iff word_less_nat_alt rb_inv_def)

definition rb_run :: "rt_ringbuffer \<Rightarrow> nat" where
  "rb_run rb = min (rb_used rb) (rb_cap rb - unat (read_index rb))"

lemma rb_peek:
  assumes inv: "rb_inv rb" and peek: "rt_ringbuffer_peek rb = (p, n)"
  shows "unat n = rb_run rb"
    and "p = (if rb_used rb = 0 then None else Some (unat (read_index rb)))"
    and "p = Some i \<Longrightarrow> take (unat n) (drop i (buffer_ptr rb)) = take (unat n) (rb_contents rb)"
    and "(rb_used rb = 0) = (unat n = 0)"
proof -
  have b: "unat (read_index rb) < rb_cap rb" using inv by (simp add: rb_inv_def)
  show n: "unat n = rb_run rb"
    using peek b unat_data_len [of rb]
    by (auto simp: rt_ringbuffer_peek_def Let_def rb_run_word [OF inv] rb_run_def
        split: if_splits)
  show p: "p = (if rb_used rb = 0 then None else Some (unat (read_index rb)))"
    using peek by (auto simp: rt_ringbuffer_peek_def Let_def rb_run_word [OF inv] split: if_splits)
  show "(rb_used rb = 0) = (unat n = 0)" using b n by (auto simp: rb_run_def)
  have "rb_run rb \<le> rb_used rb" by (simp add: rb_run_def)
  then have "take (rb_run rb) (rb_contents rb) =
      take (rb_run rb) (drop (unat (read_index rb)) (buffer_ptr rb))"
    using rb_read_window [OF inv, of "rb_run rb"] b by (auto simp: rb_run_def)
  then show "take (unat n) (drop i (buffer_ptr rb)) = take (unat n) (rb_contents rb)"
    if "p = Some i"
    using that p n by (auto split: if_splits)
qed

lemma rb_get_direct:
  assumes inv: "rb_inv rb" and get: "rt_ringbuffer_get_direct rb = (rb', p, n)"
  shows "(p, n) = rt_ringbuffer_peek rb"
    and "rb_inv rb'" and "rb_cap rb' = rb_cap rb"
    and "rb_contents rb' = drop (unat n) (rb_contents rb)"
    and "buffer_ptr rb' = buffer_ptr rb"
proof -
  have b: "unat (read_index rb) < rb_cap rb" "rb_cap rb < 2 ^ 31"
    using inv by (auto simp: rb_inv_def)
  show pn: "(p, n) = rt_ringbuffer_peek rb"
    using get by (auto simp: rt_ringbuffer_get_direct_def rt_ringbuffer_peek_def Let_def
        split: if_splits)
  have n: "unat n = rb_run rb" using rb_peek(1) [OF inv pn [symmetric]] .
  then have nu: "unat n \<le> rb_used rb" by (simp add: rb_run_def)
  have same: "buffer_ptr rb' = buffer_ptr rb" "buffer_size rb' = buffer_size rb"
      "write_index rb' = write_index rb" "write_mirror rb' = write_mirror rb"
    using get by (auto simp: rt_ringbuffer_get_direct_def Let_def split: if_splits)
  have idx: "unat (ucast (ridx32 rb + rt_ringbuffer_data_len rb) :: 31 word) =
      unat (read_index rb) + rb_used rb" if "unat (read_index rb) + rb_used rb < rb_cap rb"
    using that b unat_data_len [of rb]
    by (simp add: unat_index31 unat_add_u32 unat_index32)
  have adv: "unat (read_index rb') = (unat (read_index rb) + unat n) mod rb_cap rb"
    "read_mirror rb' =
      (if unat (read_index rb) + unat n < rb_cap rb then read_mirror rb else \<not> read_mirror rb)"
    using get b n rb_used_le [OF inv] idx
    by (auto simp: rt_ringbuffer_get_direct_def Let_def rb_run_word [OF inv] rb_run_def
        ring_index_cases split: if_splits)
  show "rb_inv rb'" and "rb_cap rb' = rb_cap rb"
    and "rb_contents rb' = drop (unat n) (rb_contents rb)"
    by (rule rb_advance_read [OF inv nu same adv])+
  show "buffer_ptr rb' = buffer_ptr rb" by (rule same)
qed

text \<open>
  A forced put that does not fit leaves the buffer full, with the newest \<open>buffer_size\<close> bytes.
\<close>

lemma rb_full_overwrite:
  assumes inv: "rb_inv rb" and len: "unat len \<le> rb_cap rb" "unat len \<le> length ptr"
    and over: "rb_cap rb - rb_used rb < unat len"
    and rb1: "rb1 = rb_copy_in rb ptr len"
    and same: "buffer_ptr rb' = buffer_ptr rb1" "buffer_size rb' = buffer_size rb1"
      "write_index rb' = write_index rb1" "write_mirror rb' = write_mirror rb1"
      "read_index rb' = write_index rb1" "read_mirror rb' = (\<not> write_mirror rb1)"
  shows "rb_inv rb'" and "rb_cap rb' = rb_cap rb"
    and "rb_contents rb' =
      drop (rb_used rb + unat len - rb_cap rb) (rb_contents rb) @ take (unat len) ptr"
proof -
  let ?c = "rb_cap rb" and ?w = "unat (write_index rb)"
  have b: "?w < ?c" "unat (read_index rb) < ?c" "?c \<le> length (buffer_ptr rb)" "?c < 2 ^ 31"
    using inv by (auto simp: rb_inv_def)
  note f = rb_copy_in_fields [OF inv len(1), of ptr]
  show cap: "rb_cap rb' = ?c" by (simp add: rb_cap_def same rb1 f)
  have lenp: "length (buffer_ptr rb1) = length (buffer_ptr rb)"
    unfolding rb1 by (rule length_copy_in [OF inv len])
  have wi: "unat (write_index rb1) = (?w + unat len) mod ?c" unfolding rb1 by (rule f)
  show inv': "rb_inv rb'"
    using b cap lenp wi by (auto simp: rb_inv_def same)
  have used: "rb_used rb' = ?c"
    using rb_used_eq [OF inv'] b wi by (simp add: same cap)
  have "rb_contents rb' = window (buffer_ptr rb1) ?c ((?w + unat len) mod ?c) ?c"
    unfolding rb_contents_def used cap same wi ..
  also have "\<dots> = drop (rb_used rb + unat len - ?c) (rb_contents rb) @ take (unat len) ptr"
  proof -
    have lt: "length (take (unat len) ptr) = unat len" using len(2) by simp
    show ?thesis
      unfolding rb1 rb_copy_in_ptr [OF inv len] rb_contents_def
      by (rule window_ring_overwrite [where d = "take (unat len) ptr", unfolded lt])
        (use b len over rb_used_le [OF inv] write_index_eq [OF inv] in simp_all)
  qed
  finally show "rb_contents rb' =
      drop (rb_used rb + unat len - ?c) (rb_contents rb) @ take (unat len) ptr" .
qed

lemma overwrite_mirrors:
  assumes inv: "rb_inv rb" and len: "unat len \<le> rb_cap rb"
    and over: "rb_cap rb - rb_used rb < unat len"
    and rb1: "rb1 = rb_copy_in rb ptr len"
  shows "unat (write_index rb) + unat len < rb_cap rb \<Longrightarrow> read_mirror rb1 = (\<not> write_mirror rb1)"
    and "\<not> unat (write_index rb) + unat len < rb_cap rb \<Longrightarrow>
      (if write_index rb1 \<le> read_index rb1 then \<not> read_mirror rb1 else read_mirror rb1) =
        (\<not> write_mirror rb1)"
  using inv over rb_used_eq [OF inv] len
  unfolding rb1 word_le_nat_alt rb_copy_in_fields [OF inv len] rb_inv_def
  by (auto simp: ring_index_cases split: if_splits)

lemma rb_put_force:
  assumes inv: "rb_inv rb" and src: "unat len \<le> length ptr"
    and put: "rt_ringbuffer_put_force rb ptr len = (rb', n)"
  shows "rb_inv rb'" and "rb_cap rb' = rb_cap rb" and "unat n = min (unat len) (rb_cap rb)"
    and "rb_contents rb' =
      drop (rb_used rb + unat len - rb_cap rb) (rb_contents rb @ take (unat len) ptr)"
proof -
  let ?c = "rb_cap rb"
  define k where "k = unat len - ?c"
  define l where "l = (if len > buffer_size rb then buffer_size rb else len)"
  define p where
    "p = (if len > buffer_size rb then drop (unat (len - buffer_size rb)) ptr else ptr)"
  define rb1 where "rb1 = rb_copy_in rb p l"
  have big: "(len > buffer_size rb) = (unat len > ?c)"
    by (simp add: word_less_nat_alt rb_cap_def)
  have l: "unat l = min (unat len) ?c" by (auto simp: l_def big rb_cap_def)
  have p: "p = drop k ptr"
    using big by (auto simp: p_def k_def unat_sub_u32 rb_cap_def)
  have lp: "unat l \<le> length p" "unat l \<le> ?c" using l p src by (auto simp: k_def)
  have data: "take (unat l) p = drop k (take (unat len) ptr)"
    unfolding p using l src by (auto simp: k_def drop_take min_def)
  have sp: "(l > rt_ringbuffer_space_len rb) = (?c - rb_used rb < unat l)"
    by (simp add: word_less_nat_alt unat_space_len [OF inv])
  note cond = copy_in_word(1) [OF inv, of l]
  have res: "rb' = (if \<not> ?c - rb_used rb < unat l then rb1
      else if unat (write_index rb) + unat l < ?c then rb1\<lparr>read_index := write_index rb1\<rparr>
      else rb1\<lparr>read_mirror :=
                 (if write_index rb1 \<le> read_index rb1 then \<not> read_mirror rb1
                  else read_mirror rb1),
               read_index := write_index rb1\<rparr>)" and n: "n = l"
    using put
    by (auto simp: rt_ringbuffer_put_force_def Let_def sp cond
        simp flip: l_def p_def rb1_def split: if_splits)
  show "unat n = min (unat len) ?c" using l n by simp
  have "rb_inv rb' \<and> rb_cap rb' = ?c \<and> rb_contents rb' =
      drop (rb_used rb + unat len - ?c) (rb_contents rb @ take (unat len) ptr)"
  proof (cases "?c - rb_used rb < unat l")
    case False
    then have fit: "unat l \<le> ?c - rb_used rb" by simp
    have "rb_contents rb @ drop k (take (unat len) ptr) =
      drop (rb_used rb + unat len - ?c) (rb_contents rb @ take (unat len) ptr)"
    proof (cases "unat len \<le> ?c")
      case True
      with fit l rb_used_le [OF inv] have "k = 0" "rb_used rb + unat len - ?c = 0"
        by (simp_all add: k_def)
      then show ?thesis by simp
    next
      case False
      then have "unat l = ?c" using l by simp
      moreover have "0 < ?c" using inv by (simp add: rb_inv_def)
      ultimately have "rb_used rb = 0" using fit by linarith
      moreover from this have "rb_contents rb = []" using length_rb_contents by (metis length_0_conv)
      ultimately show ?thesis by (simp add: k_def)
    qed
    then show ?thesis
      using False res rb_inv_copy_in [OF inv fit lp(1)] rb_contents_copy_in [OF inv fit lp(1)]
      by (simp add: rb1_def data)
  next
    case True
    have fields: "buffer_ptr rb' = buffer_ptr rb1" "buffer_size rb' = buffer_size rb1"
      "write_index rb' = write_index rb1" "write_mirror rb' = write_mirror rb1"
      "read_index rb' = write_index rb1"
      using True res by (auto split: if_splits)
    have mir: "read_mirror rb' = (\<not> write_mirror rb1)"
      using True res overwrite_mirrors [OF inv lp(2) True rb1_def]
      by (cases "unat (write_index rb) + unat l < ?c") auto
    note full = rb_full_overwrite [OF inv lp(2,1) True rb1_def fields mir]
    have "drop (rb_used rb + unat l - ?c) (rb_contents rb) @ drop k (take (unat len) ptr) =
      drop (rb_used rb + unat len - ?c) (rb_contents rb @ take (unat len) ptr)"
      using rb_used_le [OF inv] True l by (auto simp: k_def min_def)
    then show ?thesis using full by (simp add: data)
  qed
  then show "rb_inv rb'" and "rb_cap rb' = ?c" and "rb_contents rb' =
      drop (rb_used rb + unat len - ?c) (rb_contents rb @ take (unat len) ptr)"
    by simp_all
qed

section \<open>The byte-wise operations are the block operations on one byte\<close>

lemma blit_one: "i < length buf \<Longrightarrow> blit buf i [x] = buf[i := x]"
  by (simp add: blit_def upd_conv_take_nth_drop)

lemma last_index_word:
  assumes inv: "rb_inv rb"
  shows "(widx32 rb = buffer_size rb - 1) = (\<not> unat (write_index rb) + 1 < rb_cap rb)"
    and "(ridx32 rb = buffer_size rb - 1) = (\<not> unat (read_index rb) + 1 < rb_cap rb)"
proof -
  have b: "unat (write_index rb) < rb_cap rb" "unat (read_index rb) < rb_cap rb"
    using inv by (auto simp: rb_inv_def)
  have "unat (buffer_size rb - 1) = rb_cap rb - 1"
    using b by (simp add: rb_cap_def unat_sub_u32)
  then show "(widx32 rb = buffer_size rb - 1) = (\<not> unat (write_index rb) + 1 < rb_cap rb)"
    and "(ridx32 rb = buffer_size rb - 1) = (\<not> unat (read_index rb) + 1 < rb_cap rb)"
    using b by (auto simp: word_unat_eq_iff unat_index32)
qed

lemma succ_index_word:
  "unat (i :: 31 word) + 1 < 2 ^ 31 \<Longrightarrow> (ucast (ucast i + 1 :: u32) :: 31 word) = i + 1"
  by (simp add: word_unat_eq_iff unat_index31 unat_add_u32 unat_index32 unat_word_ariths)

lemma rb_copy_in_one:
  assumes inv: "rb_inv rb"
  shows "rb_copy_in rb [ch] 1 =
    (let rb1 = rb\<lparr>buffer_ptr := (buffer_ptr rb)[unat (write_index rb) := ch]\<rparr>
     in if widx32 rb = buffer_size rb - 1
        then rb1\<lparr>write_mirror := \<not> write_mirror rb, write_index := 0\<rparr>
        else rb1\<lparr>write_index := write_index rb + 1\<rparr>)"
proof -
  have b: "unat (write_index rb) < rb_cap rb" "rb_cap rb \<le> length (buffer_ptr rb)"
    "rb_cap rb < 2 ^ 31" using inv by (auto simp: rb_inv_def)
  note w = copy_in_word [OF inv, of 1]
  show ?thesis
  proof (cases "unat (write_index rb) + 1 < rb_cap rb")
    case True
    then show ?thesis
      using b w by (simp add: rb_copy_in_def last_index_word [OF inv] blit_one succ_index_word)
  next
    case False
    then have "unat (1 - (buffer_size rb - widx32 rb)) = 0"
      using w(2) b by simp
    then have one: "1 - (buffer_size rb - widx32 rb) = 0" by (simp add: word_unat_eq_iff)
    then have k: "buffer_size rb - widx32 rb = 1" by simp
    with False show ?thesis
      using b w by (simp add: rb_copy_in_def last_index_word [OF inv] blit_one k) (simp add: blit_def)
  qed
qed

lemma rb_putchar_eq_put:
  assumes inv: "rb_inv rb"
  shows "rt_ringbuffer_putchar rb ch = rt_ringbuffer_put rb [ch] 1"
proof -
  have "\<not> rt_ringbuffer_space_len rb < 1" if "rt_ringbuffer_space_len rb \<noteq> 0"
    using that by (simp add: word_less_nat_alt word_unat_eq_iff)
  then show ?thesis
    by (auto simp: rt_ringbuffer_putchar_def rt_ringbuffer_put_def rb_copy_in_one [OF inv] Let_def)
qed

lemma rb_getchar_eq_get:
  assumes inv: "rb_inv rb"
  shows "rt_ringbuffer_getchar rb =
    (case rt_ringbuffer_get rb 1 of (rb', d, n) \<Rightarrow>
       (rb', if n = 0 then None else Some (hd d), n))"
proof -
  have b: "unat (read_index rb) < rb_cap rb" "rb_cap rb \<le> length (buffer_ptr rb)"
    "rb_cap rb < 2 ^ 31" using inv by (auto simp: rb_inv_def)
  have one: "(if rt_ringbuffer_data_len rb < 1 then rt_ringbuffer_data_len rb else 1) = 1"
    if "rt_ringbuffer_data_len rb \<noteq> 0"
    using that by (simp add: word_less_nat_alt word_unat_eq_iff)
  have left: "unat (buffer_size rb - ridx32 rb) = rb_cap rb - unat (read_index rb)"
    using inv by (rule unat_space_left)
  have cond: "(buffer_size rb - ridx32 rb > 1) = (unat (read_index rb) + 1 < rb_cap rb)"
    using b by (auto simp: word_less_nat_alt left)
  have hd: "hd (take 1 (drop (unat (read_index rb)) (buffer_ptr rb)) @ xs) =
      buffer_ptr rb ! unat (read_index rb)" for xs
    using b by (simp add: take_Suc hd_append hd_drop_conv_nth)
  have k: "buffer_size rb - ridx32 rb = 1" if "\<not> unat (read_index rb) + 1 < rb_cap rb"
  proof -
    have "rb_cap rb - unat (read_index rb) = 1" using that b by linarith
    with left show ?thesis by (simp add: word_unat_eq_iff)
  qed
  show ?thesis
    using b one k hd [of "[]"]
    by (auto simp: rt_ringbuffer_getchar_def rt_ringbuffer_get_def Let_def cond
        last_index_word [OF inv] succ_index_word hd)
qed

lemma rb_putchar_force_eq_put_force:
  assumes inv: "rb_inv rb"
  shows "rt_ringbuffer_putchar_force rb ch = rt_ringbuffer_put_force rb [ch] 1"
proof -
  have b: "unat (write_index rb) < rb_cap rb" using inv by (auto simp: rb_inv_def)
  have big: "buffer_size rb \<noteq> 0"
    using b by (auto simp: rb_cap_def)
  have full: "(rt_ringbuffer_space_len rb = 0) = (rt_ringbuffer_status rb = RT_RINGBUFFER_FULL)"
  proof -
    have "(rt_ringbuffer_space_len rb = 0) = (rb_used rb = rb_cap rb)"
      using unat_space_len [OF inv] rb_used_le [OF inv] by (auto simp: word_unat_eq_iff)
    also have "\<dots> = (rt_ringbuffer_status rb = RT_RINGBUFFER_FULL)"
      using rb_used_eq [OF inv] inv
      by (auto simp: rt_ringbuffer_status_def rb_inv_def word_unat_eq_iff split: if_splits)
    finally show ?thesis .
  qed
  have first: "(buffer_size rb - widx32 rb > 1) = (\<not> widx32 rb = buffer_size rb - 1)"
    by (simp add: copy_in_word [OF inv] last_index_word [OF inv])
  show ?thesis
    by (auto simp: rt_ringbuffer_putchar_force_def rt_ringbuffer_put_force_def big full first
        rb_copy_in_one [OF inv] Let_def)
qed

lemma rb_reset:
  assumes "rb_inv rb"
  shows "rb_inv (rt_ringbuffer_reset rb)" and "rb_contents (rt_ringbuffer_reset rb) = []"
    and "rb_cap (rt_ringbuffer_reset rb) = rb_cap rb"
  using assms
  by (auto simp: rt_ringbuffer_reset_def rb_inv_def rb_cap_def rb_contents_def rb_used_def
      rt_ringbuffer_data_len_def rt_ringbuffer_status_def window_def)

section \<open>The bounded byte queue, as an interface\<close>

text \<open>
  What a client of a byte queue relies on: a put appends what fits, a get removes from the
  front, and the reported space is the capacity left.
\<close>

locale byte_fifo =
  fixes inv :: "'q \<Rightarrow> bool" and contents :: "'q \<Rightarrow> byte list" and cap :: "'q \<Rightarrow> nat"
    and put :: "'q \<Rightarrow> byte list \<Rightarrow> u32 \<Rightarrow> 'q \<times> u32"
    and get :: "'q \<Rightarrow> u32 \<Rightarrow> 'q \<times> byte list \<times> u32"
    and space :: "'q \<Rightarrow> u32"
  assumes bounded: "inv q \<Longrightarrow> length (contents q) \<le> cap q"
    and space_law: "inv q \<Longrightarrow> unat (space q) = cap q - length (contents q)"
    and put_law: "inv q \<Longrightarrow> unat n \<le> length d \<Longrightarrow> put q d n = (q', m) \<Longrightarrow>
      inv q' \<and> cap q' = cap q \<and> unat m = min (unat n) (cap q - length (contents q)) \<and>
      contents q' = contents q @ take (unat m) d"
    and get_law: "inv q \<Longrightarrow> get q n = (q', d, m) \<Longrightarrow>
      inv q' \<and> cap q' = cap q \<and> unat m = min (unat n) (length (contents q)) \<and>
      d = take (unat m) (contents q) \<and> contents q' = drop (unat m) (contents q)"
begin

lemma put_fits:
  assumes "inv q" "unat n \<le> length d" "n \<le> space q" "put q d n = (q', m)"
  shows "m = n" and "inv q'" and "cap q' = cap q" and "contents q' = contents q @ take (unat n) d"
  using put_law [OF assms(1,2,4)] space_law [OF assms(1)] assms(3)
  by (auto simp: word_le_nat_alt word_unat_eq_iff)

lemma get_zero_iff:
  assumes "inv q" "n \<noteq> 0" "get q n = (q', d, m)"
  shows "m = 0 \<longleftrightarrow> contents q = []"
  using get_law [OF assms(1,3)] assms(2) by (auto simp: word_unat_eq_iff min_def split: if_splits)

lemma get_progress:
  assumes "inv q" "get q n = (q', d, m)" "m \<noteq> 0"
  shows "length (contents q') < length (contents q)"
  using get_law [OF assms(1,2)] assms(3) by (auto simp: word_unat_eq_iff)

lemma get_split:
  assumes "inv q" "get q n = (q', d, m)"
  shows "d @ contents q' = contents q" and "length d = unat m" and "inv q'" and "cap q' = cap q"
  using get_law [OF assms] by auto

lemma put_get_order:
  assumes "inv q" "unat n \<le> length d" "n \<le> space q" "put q d n = (q1, m1)"
    and "get q1 k = (q2, e, m2)" "length (contents q) + unat n \<le> unat k"
  shows "e = contents q @ take (unat n) d" and "contents q2 = []"
  using put_fits [OF assms(1-4)] get_law [OF _ assms(5)] assms(2,6) by auto

end

interpretation rbq: byte_fifo rb_inv rb_contents rb_cap rt_ringbuffer_put rt_ringbuffer_get
  rt_ringbuffer_space_len
proof unfold_locales
  fix q assume inv: "rb_inv q"
  show "length (rb_contents q) \<le> rb_cap q" using rb_used_le [OF inv] by simp
  show "unat (rt_ringbuffer_space_len q) = rb_cap q - length (rb_contents q)"
    using unat_space_len [OF inv] by simp
  fix n d q' m assume "unat n \<le> length d" "rt_ringbuffer_put q d n = (q', m)"
  then show "rb_inv q' \<and> rb_cap q' = rb_cap q \<and>
      unat m = min (unat n) (rb_cap q - length (rb_contents q)) \<and>
      rb_contents q' = rb_contents q @ take (unat m) d"
    using rb_put [OF inv] by simp
next
  fix q n q' d m assume inv: "rb_inv q" and "rt_ringbuffer_get q n = (q', d, m)"
  then show "rb_inv q' \<and> rb_cap q' = rb_cap q \<and> unat m = min (unat n) (length (rb_contents q)) \<and>
      d = take (unat m) (rb_contents q) \<and> rb_contents q' = drop (unat m) (rb_contents q)"
    using rb_get [OF inv] by simp
qed

section \<open>Properties\<close>

text \<open>
  Runs of calls and their results (the bytes handed to the caller and the returned number), on
  the model and on a plain bounded queue.  A zero-copy read hands out the bytes of the pool
  that its pointer and length name.  The queue does not know where the pool ends: it allows a
  zero-copy read to stop anywhere, but to give nothing only when there is nothing.
\<close>

datatype rb_op =
    OpPut "byte list"
  | OpPutForce "byte list"
  | OpGet u32
  | OpPutchar byte
  | OpPutcharForce byte
  | OpGetchar
  | OpGetDirect
  | OpPeek
  | OpDataLen
  | OpSpaceLen
  | OpReset

fun rb_direct :: "byte list \<Rightarrow> nat option \<times> u32 \<Rightarrow> byte list \<times> nat" where
  "rb_direct pool (None, n) = ([], unat n)"
| "rb_direct pool (Some i, n) = (take (unat n) (drop i pool), unat n)"

fun rb_exec :: "rb_op \<Rightarrow> rt_ringbuffer \<Rightarrow> (byte list \<times> nat) \<times> rt_ringbuffer" where
  "rb_exec (OpPut d) rb =
    (case rt_ringbuffer_put rb d (word_of_nat (length d)) of (rb', n) \<Rightarrow> (([], unat n), rb'))"
| "rb_exec (OpPutForce d) rb =
    (case rt_ringbuffer_put_force rb d (word_of_nat (length d)) of (rb', n) \<Rightarrow> (([], unat n), rb'))"
| "rb_exec (OpGet n) rb =
    (case rt_ringbuffer_get rb n of (rb', d, m) \<Rightarrow> ((d, unat m), rb'))"
| "rb_exec (OpPutchar ch) rb =
    (case rt_ringbuffer_putchar rb ch of (rb', n) \<Rightarrow> (([], unat n), rb'))"
| "rb_exec (OpPutcharForce ch) rb =
    (case rt_ringbuffer_putchar_force rb ch of (rb', n) \<Rightarrow> (([], unat n), rb'))"
| "rb_exec OpGetchar rb =
    (case rt_ringbuffer_getchar rb of
       (rb', ch, n) \<Rightarrow> ((case ch of None \<Rightarrow> [] | Some c \<Rightarrow> [c], unat n), rb'))"
| "rb_exec OpGetDirect rb =
    (case rt_ringbuffer_get_direct rb of (rb', pn) \<Rightarrow> (rb_direct (buffer_ptr rb) pn, rb'))"
| "rb_exec OpPeek rb = (rb_direct (buffer_ptr rb) (rt_ringbuffer_peek rb), rb)"
| "rb_exec OpDataLen rb = (([], unat (rt_ringbuffer_data_len rb)), rb)"
| "rb_exec OpSpaceLen rb = (([], unat (rt_ringbuffer_space_len rb)), rb)"
| "rb_exec OpReset rb = (([], 0), rt_ringbuffer_reset rb)"

definition queue_put :: "nat \<Rightarrow> byte list \<Rightarrow> byte list \<Rightarrow> (byte list \<times> nat) \<times> byte list" where
  "queue_put cap d q = (let n = min (length d) (cap - length q) in (([], n), q @ take n d))"

definition queue_put_force :: "nat \<Rightarrow> byte list \<Rightarrow> byte list \<Rightarrow> (byte list \<times> nat) \<times> byte list" where
  "queue_put_force cap d q =
    (([], min (length d) cap), drop (length q + length d - cap) (q @ d))"

definition queue_get :: "nat \<Rightarrow> byte list \<Rightarrow> (byte list \<times> nat) \<times> byte list" where
  "queue_get n q = ((take n q, min n (length q)), drop n q)"

fun queue_allows :: "nat \<Rightarrow> rb_op \<Rightarrow> byte list \<Rightarrow> byte list \<times> nat \<Rightarrow> byte list \<Rightarrow> bool" where
  "queue_allows cap (OpPut d) q r q' = ((r, q') = queue_put cap d q)"
| "queue_allows cap (OpPutForce d) q r q' = ((r, q') = queue_put_force cap d q)"
| "queue_allows cap (OpGet n) q r q' = ((r, q') = queue_get (unat n) q)"
| "queue_allows cap (OpPutchar ch) q r q' = ((r, q') = queue_put cap [ch] q)"
| "queue_allows cap (OpPutcharForce ch) q r q' = ((r, q') = queue_put_force cap [ch] q)"
| "queue_allows cap OpGetchar q r q' = ((r, q') = queue_get 1 q)"
| "queue_allows cap OpGetDirect q r q' =
    (r = (take (snd r) q, snd r) \<and> snd r \<le> length q \<and> (q \<noteq> [] \<longrightarrow> 0 < snd r) \<and> q' = drop (snd r) q)"
| "queue_allows cap OpPeek q r q' =
    (r = (take (snd r) q, snd r) \<and> snd r \<le> length q \<and> (q \<noteq> [] \<longrightarrow> 0 < snd r) \<and> q' = q)"
| "queue_allows cap OpDataLen q r q' = (r = ([], length q) \<and> q' = q)"
| "queue_allows cap OpSpaceLen q r q' = (r = ([], cap - length q) \<and> q' = q)"
| "queue_allows cap OpReset q r q' = (r = ([], 0) \<and> q' = [])"

fun run_ops :: "(rb_op \<Rightarrow> 's \<Rightarrow> 'r \<times> 's) \<Rightarrow> rb_op list \<Rightarrow> 's \<Rightarrow> 'r list \<times> 's" where
  "run_ops f [] s = ([], s)"
| "run_ops f (x # xs) s =
    (case f x s of (r, s1) \<Rightarrow> (case run_ops f xs s1 of (rs, s2) \<Rightarrow> (r # rs, s2)))"

fun queue_run :: "nat \<Rightarrow> rb_op list \<Rightarrow> byte list \<Rightarrow> (byte list \<times> nat) list \<Rightarrow> byte list \<Rightarrow> bool" where
  "queue_run cap (x # xs) q (r # rs) q' =
    (\<exists>q1. queue_allows cap x q r q1 \<and> queue_run cap xs q1 rs q')"
| "queue_run cap xs q rs q' = (xs = [] \<and> rs = [] \<and> q' = q)"

fun rb_op_ok :: "rb_op \<Rightarrow> bool" where
  "rb_op_ok (OpPut d) = (length d < 2 ^ 32)"
| "rb_op_ok (OpPutForce d) = (length d < 2 ^ 32)"
| "rb_op_ok _ = True"

lemma unat_word_of_length: "length d < 2 ^ 32 \<Longrightarrow> unat (word_of_nat (length d) :: u32) = length d"
  by (simp add: unat_of_nat)

lemma rb_put_refines:
  assumes inv: "rb_inv rb" and n: "unat n = length d" and put: "rt_ringbuffer_put rb d n = (rb', m)"
  shows "rb_inv rb' \<and> rb_cap rb' = rb_cap rb \<and>
    (([], unat m), rb_contents rb') = queue_put (rb_cap rb) d (rb_contents rb)"
  using rbq.put_law [OF inv _ put] n by (simp add: queue_put_def Let_def)

lemma rb_put_force_refines:
  assumes inv: "rb_inv rb" and n: "unat n = length d" and put: "rt_ringbuffer_put_force rb d n = (rb', m)"
  shows "rb_inv rb' \<and> rb_cap rb' = rb_cap rb \<and>
    (([], unat m), rb_contents rb') = queue_put_force (rb_cap rb) d (rb_contents rb)"
  using rb_put_force [OF inv _ put] n by (simp add: queue_put_force_def)

lemma rb_get_refines:
  assumes inv: "rb_inv rb" and get: "rt_ringbuffer_get rb n = (rb', d, m)"
  shows "rb_inv rb' \<and> rb_cap rb' = rb_cap rb \<and>
    ((d, unat m), rb_contents rb') = queue_get (unat n) (rb_contents rb)"
  using rbq.get_law [OF inv get] by (auto simp: queue_get_def min_def)

lemma rb_direct_read:
  assumes inv: "rb_inv rb" and peek: "rt_ringbuffer_peek rb = (p, n)"
  shows "rb_direct (buffer_ptr rb) (p, n) = (take (unat n) (rb_contents rb), unat n)"
    and "unat n \<le> rb_used rb" and "rb_contents rb \<noteq> [] \<longrightarrow> 0 < unat n"
proof -
  note pk = rb_peek [OF inv peek]
  show "unat n \<le> rb_used rb" using pk(1) by (simp add: rb_run_def)
  show "rb_contents rb \<noteq> [] \<longrightarrow> 0 < unat n"
    using pk(4) length_rb_contents [of rb] by (cases "rb_contents rb") (simp_all del: length_rb_contents)
  show "rb_direct (buffer_ptr rb) (p, n) = (take (unat n) (rb_contents rb), unat n)"
    using pk by (cases p) (auto split: if_splits)
qed

lemma rb_exec_refines:
  assumes inv: "rb_inv rb" and ok: "rb_op_ok x" and exec: "rb_exec x rb = (r, rb')"
  shows "rb_inv rb' \<and> rb_cap rb' = rb_cap rb \<and>
    queue_allows (rb_cap rb) x (rb_contents rb) r (rb_contents rb')"
proof (cases x)
  case (OpPut d)
  with ok have "unat (word_of_nat (length d) :: u32) = length d" by (simp add: unat_word_of_length)
  from rb_put_refines [OF inv this] OpPut exec show ?thesis by (auto split: prod.splits)
next
  case (OpPutForce d)
  with ok have "unat (word_of_nat (length d) :: u32) = length d" by (simp add: unat_word_of_length)
  from rb_put_force_refines [OF inv this] OpPutForce exec show ?thesis by (auto split: prod.splits)
next
  case (OpGet n)
  with exec show ?thesis using rb_get_refines [OF inv] by (auto split: prod.splits)
next
  case (OpPutchar ch)
  with exec show ?thesis
    using rb_put_refines [OF inv, of 1 "[ch]"]
    by (auto simp: rb_putchar_eq_put [OF inv] split: prod.splits)
next
  case (OpPutcharForce ch)
  with exec show ?thesis
    using rb_put_force_refines [OF inv, of 1 "[ch]"]
    by (auto simp: rb_putchar_force_eq_put_force [OF inv] split: prod.splits)
next
  case OpGetchar
  obtain rb1 d m where get: "rt_ringbuffer_get rb 1 = (rb1, d, m)"
    by (cases "rt_ringbuffer_get rb 1")
  have "rb' = rb1" "r = (if m = 0 then [] else [hd d], unat m)"
    using exec OpGetchar get by (auto simp: rb_getchar_eq_get [OF inv])
  moreover have "(if m = 0 then [] else [hd d]) = d"
    using rbq.get_law [OF inv get] by (cases "rb_contents rb") (auto simp: word_unat_eq_iff)
  ultimately show ?thesis using rb_get_refines [OF inv get] OpGetchar by simp
next
  case OpGetDirect
  obtain p n where get: "rt_ringbuffer_get_direct rb = (rb', p, n)"
    and r: "r = rb_direct (buffer_ptr rb) (p, n)"
    using exec OpGetDirect by (auto split: prod.splits)
  note g = rb_get_direct [OF inv get] rb_direct_read [OF inv rb_get_direct(1) [OF inv get, symmetric]]
  with OpGetDirect r show ?thesis by simp
next
  case OpPeek
  obtain p n where "rt_ringbuffer_peek rb = (p, n)" by (cases "rt_ringbuffer_peek rb")
  from rb_direct_read [OF inv this] this OpPeek exec inv show ?thesis by auto
next
  case OpDataLen
  with exec inv unat_data_len [of rb] show ?thesis by auto
next
  case OpSpaceLen
  with exec inv unat_space_len [OF inv] show ?thesis by auto
next
  case OpReset
  with exec rb_reset [OF inv] show ?thesis by auto
qed

lemma rb_run_refines:
  assumes "rb_inv rb" "\<forall>x\<in>set xs. rb_op_ok x" "run_ops rb_exec xs rb = (rs, rb')"
  shows "rb_inv rb' \<and> rb_cap rb' = rb_cap rb \<and>
    queue_run (rb_cap rb) xs (rb_contents rb) rs (rb_contents rb')"
  using assms
proof (induction xs arbitrary: rb rs)
  case (Cons x xs)
  obtain r rb1 rs1 where 1: "rb_exec x rb = (r, rb1)" "run_ops rb_exec xs rb1 = (rs1, rb')" "rs = r # rs1"
    using Cons.prems(3) by (auto split: prod.splits)
  have "rb_inv rb1 \<and> rb_cap rb1 = rb_cap rb \<and>
      queue_allows (rb_cap rb) x (rb_contents rb) r (rb_contents rb1)"
    using rb_exec_refines [OF Cons.prems(1) _ 1(1)] Cons.prems(2) by simp
  with Cons.IH [of rb1 rs1] Cons.prems(2) 1 show ?case by auto
qed simp

text \<open>C6
  The ring buffer refines a bounded byte queue of capacity size rounded down to a multiple of
  8, for a size of at least 8 that rt_ringbuffer_init accepts and a pool of that length: from
  rt_ringbuffer_init on, every sequence of put, put_force, get, putchar, putchar_force, getchar,
  get_direct, peek, data_len, space_len and reset (puts of less than 2^32 bytes) returns, call by
  call, the same bytes and the same counts as the queue (put drops what does not fit, put_force
  drops the oldest), and holds the same contents; get_direct and peek hand out a front part of the contents, not empty
  unless the queue is, and get_direct removes it.  This covers the mirror bits, both wrap-around
  copies and the empty/full distinction.
\<close>

theorem ringbuffer_refines_queue:
  assumes "rt_ringbuffer_init pool sz = Some rb" and "8 \<le> unat sz" and "unat sz \<le> length pool"
    and "\<forall>x\<in>set xs. rb_op_ok x" and "run_ops rb_exec xs rb = (rs, rb')"
  shows "queue_run (unat sz div 8 * 8) xs [] rs (rb_contents rb') \<and> rb_inv rb'"
proof -
  have "0 < sint sz" using assms(1) by (auto simp: rt_ringbuffer_init_def split: if_splits)
  with rb_init [OF this assms(2,3)] assms(1)
  have "rb_inv rb" "rb_contents rb = []" "rb_cap rb = unat sz div 8 * 8" by auto
  with rb_run_refines [OF _ assms(4,5)] show ?thesis by simp
qed

lemma ringbuffer_refines_queue_witness:
  "\<exists>rb r rs rb'. rt_ringbuffer_init (replicate 9 0) 9 = Some rb \<and>
    run_ops rb_exec [OpPut [1, 2, 3, 4, 5, 6], OpGet 5, OpPut [7, 8, 9, 10, 11, 12, 13, 14],
      OpPutForce [15, 16], OpGetchar, OpPutchar 17, OpGet 100] rb = (rs, rb') \<and>
    rs = [([], 6), ([1, 2, 3, 4, 5], 5), ([], 7), ([], 2), ([8], 1), ([], 1),
          ([9, 10, 11, 12, 13, 15, 16, 17], 8)] \<and> rb_contents rb' = []"
proof -
  let ?xs = "[OpPut [1, 2, 3, 4, 5, 6], OpGet 5, OpPut [7, 8, 9, 10, 11, 12, 13, 14],
      OpPutForce [15, 16], OpGetchar, OpPutchar 17, OpGet 100]"
  obtain rb where init: "rt_ringbuffer_init (replicate 9 0) 9 = Some rb"
    by (simp add: rt_ringbuffer_init_def)
  obtain rs rb' where run: "run_ops rb_exec ?xs rb = (rs, rb')"
    by (cases "run_ops rb_exec ?xs rb")
  have "length rs = 7" using run by (auto split: prod.splits)
  then obtain r1 r2 r3 r4 r5 r6 r7 where rs: "rs = [r1, r2, r3, r4, r5, r6, r7]"
    by (auto simp: numeral_eq_Suc length_Suc_conv)
  have "queue_run (unat (9 :: u32) div 8 * 8) ?xs [] rs (rb_contents rb') \<and> rb_inv rb'"
    by (rule ringbuffer_refines_queue [OF init _ _ _ run]) simp_all
  with init run show ?thesis
    by (auto simp: rs queue_put_def queue_put_force_def queue_get_def Let_def)
qed

end
