(* ===== verification/Ipc_Mq.thy ===== *)
theory Ipc_Mq
  imports Ipc_Sem "HOL-Library.Multiset"
begin

text \<open>
  The message queue of rt-thread/src/ipc.c (lines 3117 to 4057, without
  RT_USING_MESSAGEQUEUE_PRIORITY), on its pool of message nodes linked by pointers: the list of
  queued messages with head and tail, and the list of free nodes.  A node is named by its
  number in the pool (its address is msg_pool + number * node size).  Every operation is
  composed of the parts that run with the queue's lock held, because other threads and
  interrupts run between them; a call that has to wait is split at rt_schedule.  The theory
  shows that the linked lists stay two disjoint chains over the pool under every
  interleaving of those parts, and that the queue is a bounded FIFO of byte strings, the
  interface \<open>msg_queue\<close>.
\<close>

section \<open>State\<close>

record rt_mq_message =
  mq_next :: "nat option"
  mq_length :: u32
  mq_bytes :: "byte list"

record rt_messagequeue =
  mq_flag :: ipc_flag
  msg_pool :: "nat \<Rightarrow> rt_mq_message"
  msg_size :: u16
  max_msgs :: u16
  entry :: u16
  msg_queue_head :: "nat option"
  msg_queue_tail :: "nat option"
  msg_queue_free :: "nat option"
  mq_receivers :: "tid list"
  mq_senders :: "tid list"

definition RT_MQ_ENTRY_MAX :: u16 where "RT_MQ_ENTRY_MAX = 65535"

text \<open>sizeof(struct rt_mq_message): a pointer and a length.\<close>

definition sizeof_mq_message :: u32 where "sizeof_mq_message = 8"

abbreviation node_upd ::
    "nat \<Rightarrow> (rt_mq_message \<Rightarrow> rt_mq_message) \<Rightarrow> (nat \<Rightarrow> rt_mq_message) \<Rightarrow> nat \<Rightarrow> rt_mq_message" where
  "node_upd i f p \<equiv> p(i := f (p i))"

section \<open>Initialisation\<close>

text \<open>The loop that threads every node of the pool on the free list.\<close>

fun mq_free_init ::
    "nat \<Rightarrow> nat \<Rightarrow> (nat \<Rightarrow> rt_mq_message) \<times> nat option \<Rightarrow> (nat \<Rightarrow> rt_mq_message) \<times> nat option" where
  "mq_free_init temp 0 st = st"
| "mq_free_init temp (Suc n) (p, free) =
    mq_free_init (Suc temp) n (node_upd temp (\<lambda>m. m\<lparr>mq_next := free\<rparr>) p, Some temp)"

definition mq_empty ::
    "(nat \<Rightarrow> rt_mq_message) \<Rightarrow> u16 \<Rightarrow> u16 \<Rightarrow> ipc_flag \<Rightarrow> rt_messagequeue" where
  "mq_empty pool msg_sz max_n flag =
    (case mq_free_init 0 (unat max_n) (pool, None) of
       (p, free) \<Rightarrow>
         \<lparr>mq_flag = flag, msg_pool = p, msg_size = msg_sz, max_msgs = max_n, entry = 0,
          msg_queue_head = None, msg_queue_tail = None, msg_queue_free = free,
          mq_receivers = [], mq_senders = []\<rparr>)"

text \<open>
  rt_mq_init on a pool of \<open>pool_size\<close> bytes: the error -RT_EINVAL is \<open>Inl\<close>.  The node size must not
  wrap to 0, which would divide by zero.
\<close>

definition rt_mq_init ::
    "(nat \<Rightarrow> rt_mq_message) \<Rightarrow> u32 \<Rightarrow> u32 \<Rightarrow> ipc_flag \<Rightarrow> int + rt_messagequeue" where
  "rt_mq_init pool msg_sz pool_size flag =
    (let msg_align_size = RT_ALIGN msg_sz RT_ALIGN_SIZE;
         n = (ucast (pool_size div (msg_align_size + sizeof_mq_message)) :: u16)
     in if n = 0 then Inl (- RT_EINVAL) else Inr (mq_empty pool (ucast msg_sz) n flag))"

text \<open>
  rt_mq_create: \<open>obj_ok\<close> is whether rt_object_allocate returned an object, and \<open>alloc\<close> what
  RT_KERNEL_MALLOC returns for a request of that many bytes.
\<close>

definition rt_mq_create ::
    "bool \<Rightarrow> (u32 \<Rightarrow> (nat \<Rightarrow> rt_mq_message) option) \<Rightarrow> u32 \<Rightarrow> u32 \<Rightarrow> ipc_flag \<Rightarrow>
      rt_messagequeue option" where
  "rt_mq_create obj_ok alloc msg_sz max_n flag =
    (if \<not> obj_ok then None
     else
      (let msg_align_size = RT_ALIGN msg_sz RT_ALIGN_SIZE;
           n = (ucast max_n :: u16)
       in case alloc ((msg_align_size + sizeof_mq_message) * ucast n) of
            None \<Rightarrow> None
          | Some pool \<Rightarrow> Some (mq_empty pool (ucast msg_sz) n flag)))"

section \<open>The locked parts of send and receive\<close>

definition mq_take_free :: "nat \<Rightarrow> rt_messagequeue \<Rightarrow> rt_messagequeue" where
  "mq_take_free m q = q\<lparr>msg_queue_free := mq_next (msg_pool q m)\<rparr>"

text \<open>Outside the lock: the node belongs to the sender.\<close>

definition mq_fill :: "nat \<Rightarrow> byte list \<Rightarrow> u32 \<Rightarrow> rt_messagequeue \<Rightarrow> rt_messagequeue" where
  "mq_fill m buf sz q =
    q\<lparr>msg_pool := node_upd m (\<lambda>n. n\<lparr>mq_next := None, mq_length := sz,
        mq_bytes := blit (mq_bytes n) 0 (take (unat sz) buf)\<rparr>) (msg_pool q)\<rparr>"

text \<open>rt_mq_urgent fills the node without touching its link.\<close>

definition mq_fill_urgent :: "nat \<Rightarrow> byte list \<Rightarrow> u32 \<Rightarrow> rt_messagequeue \<Rightarrow> rt_messagequeue" where
  "mq_fill_urgent m buf sz q =
    q\<lparr>msg_pool := node_upd m (\<lambda>n. n\<lparr>mq_length := sz,
        mq_bytes := blit (mq_bytes n) 0 (take (unat sz) buf)\<rparr>) (msg_pool q)\<rparr>"

text \<open>The count of entries and the wake-up of one receiver, common to send and urgent.\<close>

definition mq_announce :: "rt_messagequeue \<Rightarrow> rt_kernel \<Rightarrow> int \<times> rt_messagequeue \<times> rt_kernel" where
  "mq_announce q k =
    (if entry q < RT_MQ_ENTRY_MAX
     then (case rt_susp_list_dequeue (mq_receivers q) RT_EOK k of
             (_, ws, k') \<Rightarrow> (RT_EOK, q\<lparr>entry := entry q + 1, mq_receivers := ws\<rparr>, k'))
     else (- RT_EFULL, q, k))"

definition mq_link_tail ::
    "nat \<Rightarrow> rt_messagequeue \<Rightarrow> rt_kernel \<Rightarrow> int \<times> rt_messagequeue \<times> rt_kernel" where
  "mq_link_tail m q k =
    (let q1 = (case msg_queue_tail q of
                 None \<Rightarrow> q
               | Some t \<Rightarrow>
                   q\<lparr>msg_pool := node_upd t (\<lambda>n. n\<lparr>mq_next := Some m\<rparr>) (msg_pool q)\<rparr>);
         q2 = q1\<lparr>msg_queue_tail := Some m,
                 msg_queue_head := (if msg_queue_head q1 = None then Some m else msg_queue_head q1)\<rparr>
     in mq_announce q2 k)"

definition mq_link_head ::
    "nat \<Rightarrow> rt_messagequeue \<Rightarrow> rt_kernel \<Rightarrow> int \<times> rt_messagequeue \<times> rt_kernel" where
  "mq_link_head m q k =
    (let q1 = q\<lparr>msg_pool := node_upd m (\<lambda>n. n\<lparr>mq_next := msg_queue_head q\<rparr>) (msg_pool q),
               msg_queue_head := Some m,
               msg_queue_tail := (if msg_queue_tail q = None then Some m else msg_queue_tail q)\<rparr>
     in mq_announce q1 k)"

definition mq_unlink :: "nat \<Rightarrow> rt_messagequeue \<Rightarrow> rt_messagequeue" where
  "mq_unlink m q =
    q\<lparr>msg_queue_head := mq_next (msg_pool q m),
      msg_queue_tail := (if msg_queue_tail q = Some m then None else msg_queue_tail q),
      entry := (if entry q > 0 then entry q - 1 else entry q)\<rparr>"

definition mq_copy_out :: "nat \<Rightarrow> u32 \<Rightarrow> rt_messagequeue \<Rightarrow> byte list" where
  "mq_copy_out m sz q =
    (let len = mq_length (msg_pool q m)
     in take (unat (if len > sz then sz else len)) (mq_bytes (msg_pool q m)))"

definition mq_put_free :: "nat \<Rightarrow> rt_messagequeue \<Rightarrow> rt_kernel \<Rightarrow> rt_messagequeue \<times> rt_kernel" where
  "mq_put_free m q k =
    (let q1 = q\<lparr>msg_pool := node_upd m (\<lambda>n. n\<lparr>mq_next := msg_queue_free q\<rparr>) (msg_pool q),
               msg_queue_free := Some m\<rparr>
     in case rt_susp_list_dequeue (mq_senders q1) RT_EOK k of
          (_, ws, k') \<Rightarrow> (q1\<lparr>mq_senders := ws\<rparr>, k'))"

section \<open>The calls\<close>

text \<open>
  \<open>timeout\<close> is the bit pattern of the rt_int32_t argument.  The waiting part common to send
  and receive: the error code of the thread is preset, the thread is suspended to the list, and
  the thread timer is started for a positive timeout (a timeout of RT_TICK_MAX / 2 or more
  fails the assertion of rt_timer_control).
\<close>

definition mq_suspend ::
    "u32 \<Rightarrow> suspend_flag \<Rightarrow> tid list \<Rightarrow> ipc_flag \<Rightarrow> rt_kernel \<Rightarrow> ipc_outcome \<times> tid list \<times> rt_kernel" where
  "mq_suspend timeout sf ws flag k =
    (let t = rt_current_thread k
     in case rt_thread_suspend_to_list t ws flag sf k of
          (ws', k2, ret) \<Rightarrow>
            if ret \<noteq> RT_EOK then (Returned ret, ws', k2)
            else if sint timeout > 0
            then (if timeout < 0x7FFFFFFF then (Blocked, ws', thread_timer_start t timeout k2)
                  else (Halted, ws', k2))
            else (Blocked, ws', k2))"

definition mq_set_error :: "int \<Rightarrow> rt_kernel \<Rightarrow> rt_kernel" where
  "mq_set_error err k = upd_thread (rt_current_thread k) (\<lambda>th. th\<lparr>thread_error := err\<rparr>) k"

text \<open>
  The sender from the head of its loop: it waits on a full queue, and otherwise takes a free
  node, fills it and links it.
\<close>

definition mq_send_loop ::
    "byte list \<Rightarrow> u32 \<Rightarrow> u32 \<Rightarrow> suspend_flag \<Rightarrow> rt_messagequeue \<Rightarrow> rt_kernel \<Rightarrow>
      ipc_outcome \<times> rt_messagequeue \<times> rt_kernel" where
  "mq_send_loop buf sz timeout sf q k =
    (case msg_queue_free q of
       None \<Rightarrow>
         (let k1 = mq_set_error (- RT_EINTR) k
          in if timeout = 0 then (Returned (- RT_EFULL), q, k1)
             else (case mq_suspend timeout sf (mq_senders q) (mq_flag q) k1 of
                     (out, ws, k2) \<Rightarrow> (out, q\<lparr>mq_senders := ws\<rparr>, k2)))
     | Some m \<Rightarrow>
         (case mq_link_tail m (mq_fill m buf sz (mq_take_free m q)) k of
            (r, q', k') \<Rightarrow> (Returned r, q', k')))"

definition rt_mq_send_wait_main ::
    "byte list \<Rightarrow> u32 \<Rightarrow> u32 \<Rightarrow> suspend_flag \<Rightarrow> rt_messagequeue \<Rightarrow> rt_kernel \<Rightarrow>
      ipc_outcome \<times> rt_messagequeue \<times> rt_kernel" where
  "rt_mq_send_wait_main buf sz timeout sf q k =
    (if sz = 0 then (Halted, q, k)
     else if sz > ucast (msg_size q) then (Returned (- RT_ERROR), q, k)
     else if msg_queue_free q = None \<and> timeout = 0 then (Returned (- RT_EFULL), q, k)
     else mq_send_loop buf sz timeout sf q k)"

text \<open>
  What a waiting sender does when it runs again, \<open>elapsed\<close> ticks later: it returns its error
  code, or goes back to the loop with the rest of its timeout.
\<close>

definition mq_rest_timeout :: "u32 \<Rightarrow> u32 \<Rightarrow> u32" where
  "mq_rest_timeout timeout elapsed =
    (if sint timeout > 0 then (if sint (timeout - elapsed) < 0 then 0 else timeout - elapsed)
     else timeout)"

definition mq_send_resumed ::
    "u32 \<Rightarrow> byte list \<Rightarrow> u32 \<Rightarrow> u32 \<Rightarrow> suspend_flag \<Rightarrow> rt_messagequeue \<Rightarrow> rt_kernel \<Rightarrow>
      ipc_outcome \<times> rt_messagequeue \<times> rt_kernel" where
  "mq_send_resumed elapsed buf sz timeout sf q k =
    (let err = thread_error (threads k (rt_current_thread k))
     in if err \<noteq> RT_EOK then (Returned err, q, k)
        else mq_send_loop buf sz (mq_rest_timeout timeout elapsed) sf q k)"

definition rt_mq_send_wait ::
    "byte list \<Rightarrow> u32 \<Rightarrow> u32 \<Rightarrow> rt_messagequeue \<Rightarrow> rt_kernel \<Rightarrow>
      ipc_outcome \<times> rt_messagequeue \<times> rt_kernel" where
  "rt_mq_send_wait buf sz timeout = rt_mq_send_wait_main buf sz timeout RT_UNINTERRUPTIBLE"

definition rt_mq_send ::
    "byte list \<Rightarrow> u32 \<Rightarrow> rt_messagequeue \<Rightarrow> rt_kernel \<Rightarrow> ipc_outcome \<times> rt_messagequeue \<times> rt_kernel" where
  "rt_mq_send buf sz = rt_mq_send_wait buf sz 0"

definition rt_mq_send_wait_interruptible ::
    "byte list \<Rightarrow> u32 \<Rightarrow> u32 \<Rightarrow> rt_messagequeue \<Rightarrow> rt_kernel \<Rightarrow>
      ipc_outcome \<times> rt_messagequeue \<times> rt_kernel" where
  "rt_mq_send_wait_interruptible buf sz timeout = rt_mq_send_wait_main buf sz timeout RT_INTERRUPTIBLE"

definition rt_mq_send_wait_killable ::
    "byte list \<Rightarrow> u32 \<Rightarrow> u32 \<Rightarrow> rt_messagequeue \<Rightarrow> rt_kernel \<Rightarrow>
      ipc_outcome \<times> rt_messagequeue \<times> rt_kernel" where
  "rt_mq_send_wait_killable buf sz timeout = rt_mq_send_wait_main buf sz timeout RT_KILLABLE"

definition rt_mq_send_interruptible ::
    "byte list \<Rightarrow> u32 \<Rightarrow> rt_messagequeue \<Rightarrow> rt_kernel \<Rightarrow> ipc_outcome \<times> rt_messagequeue \<times> rt_kernel" where
  "rt_mq_send_interruptible buf sz = rt_mq_send_wait_interruptible buf sz 0"

definition rt_mq_send_killable ::
    "byte list \<Rightarrow> u32 \<Rightarrow> rt_messagequeue \<Rightarrow> rt_kernel \<Rightarrow> ipc_outcome \<times> rt_messagequeue \<times> rt_kernel" where
  "rt_mq_send_killable buf sz = rt_mq_send_wait_killable buf sz 0"

definition rt_mq_urgent ::
    "byte list \<Rightarrow> u32 \<Rightarrow> rt_messagequeue \<Rightarrow> rt_kernel \<Rightarrow> ipc_outcome \<times> rt_messagequeue \<times> rt_kernel" where
  "rt_mq_urgent buf sz q k =
    (if sz = 0 then (Halted, q, k)
     else if sz > ucast (msg_size q) then (Returned (- RT_ERROR), q, k)
     else
      (case msg_queue_free q of
         None \<Rightarrow> (Returned (- RT_EFULL), q, k)
       | Some m \<Rightarrow>
           (case mq_link_head m (mq_fill_urgent m buf sz (mq_take_free m q)) k of
              (r, q', k') \<Rightarrow> (Returned r, q', k'))))"

text \<open>
  The receiver from the head of its loop.  It returns the length copied, with the bytes; an
  empty list of messages while \<open>entry\<close> is positive would be a null pointer access (\<open>Halted\<close>).
\<close>

definition mq_recv_loop ::
    "u32 \<Rightarrow> u32 \<Rightarrow> suspend_flag \<Rightarrow> rt_messagequeue \<Rightarrow> rt_kernel \<Rightarrow>
      ipc_outcome \<times> byte list \<times> rt_messagequeue \<times> rt_kernel" where
  "mq_recv_loop sz timeout sf q k =
    (if entry q = 0
     then
      (let k1 = mq_set_error (- RT_EINTR) k
       in if timeout = 0 then (Returned (- RT_ETIMEOUT), [], q, mq_set_error (- RT_ETIMEOUT) k1)
          else (case mq_suspend timeout sf (mq_receivers q) (mq_flag q) k1 of
                  (out, ws, k2) \<Rightarrow> (out, [], q\<lparr>mq_receivers := ws\<rparr>, k2)))
     else
      (case msg_queue_head q of
         None \<Rightarrow> (Halted, [], q, k)
       | Some m \<Rightarrow>
           (let q1 = mq_unlink m q;
                data = mq_copy_out m sz q1
            in case mq_put_free m q1 k of
                 (q2, k') \<Rightarrow> (Returned (int (length data)), data, q2, k'))))"

definition rt_mq_recv_main ::
    "u32 \<Rightarrow> u32 \<Rightarrow> suspend_flag \<Rightarrow> rt_messagequeue \<Rightarrow> rt_kernel \<Rightarrow>
      ipc_outcome \<times> byte list \<times> rt_messagequeue \<times> rt_kernel" where
  "rt_mq_recv_main sz timeout sf q k =
    (if sz = 0 then (Halted, [], q, k)
     else if entry q = 0 \<and> timeout = 0 then (Returned (- RT_ETIMEOUT), [], q, k)
     else mq_recv_loop sz timeout sf q k)"

definition mq_recv_resumed ::
    "u32 \<Rightarrow> u32 \<Rightarrow> u32 \<Rightarrow> suspend_flag \<Rightarrow> rt_messagequeue \<Rightarrow> rt_kernel \<Rightarrow>
      ipc_outcome \<times> byte list \<times> rt_messagequeue \<times> rt_kernel" where
  "mq_recv_resumed elapsed sz timeout sf q k =
    (let err = thread_error (threads k (rt_current_thread k))
     in if err \<noteq> RT_EOK then (Returned err, [], q, k)
        else mq_recv_loop sz (mq_rest_timeout timeout elapsed) sf q k)"

definition rt_mq_recv ::
    "u32 \<Rightarrow> u32 \<Rightarrow> rt_messagequeue \<Rightarrow> rt_kernel \<Rightarrow>
      ipc_outcome \<times> byte list \<times> rt_messagequeue \<times> rt_kernel" where
  "rt_mq_recv sz timeout = rt_mq_recv_main sz timeout RT_UNINTERRUPTIBLE"

definition rt_mq_recv_interruptible ::
    "u32 \<Rightarrow> u32 \<Rightarrow> rt_messagequeue \<Rightarrow> rt_kernel \<Rightarrow>
      ipc_outcome \<times> byte list \<times> rt_messagequeue \<times> rt_kernel" where
  "rt_mq_recv_interruptible sz timeout = rt_mq_recv_main sz timeout RT_INTERRUPTIBLE"

definition rt_mq_recv_killable ::
    "u32 \<Rightarrow> u32 \<Rightarrow> rt_messagequeue \<Rightarrow> rt_kernel \<Rightarrow>
      ipc_outcome \<times> byte list \<times> rt_messagequeue \<times> rt_kernel" where
  "rt_mq_recv_killable sz timeout = rt_mq_recv_main sz timeout RT_KILLABLE"

text \<open>
  The loop of rt_mq_control RESET that moves every queued node to the free list.  It follows
  pointers until NULL, so it may not end on an ill-formed list: \<open>None\<close>.
\<close>

partial_function (option) mq_release_all :: "rt_messagequeue \<Rightarrow> rt_messagequeue option" where
  "mq_release_all q =
    (case msg_queue_head q of
       None \<Rightarrow> Some q
     | Some m \<Rightarrow>
         mq_release_all
           (q\<lparr>msg_queue_head := mq_next (msg_pool q m),
              msg_queue_tail := (if msg_queue_tail q = Some m then None else msg_queue_tail q),
              msg_pool := node_upd m (\<lambda>n. n\<lparr>mq_next := msg_queue_free q\<rparr>) (msg_pool q),
              msg_queue_free := Some m\<rparr>))"

definition rt_mq_control ::
    "ipc_cmd \<Rightarrow> rt_messagequeue \<Rightarrow> rt_kernel \<Rightarrow> (int \<times> rt_messagequeue \<times> rt_kernel) option" where
  "rt_mq_control cmd q k =
    (if cmd = RT_IPC_CMD_RESET
     then
      (case rt_susp_list_resume_all (mq_receivers q) RT_ERROR k of
         (rs, k1) \<Rightarrow>
           (case rt_susp_list_resume_all (mq_senders q) RT_ERROR k1 of
              (ss, k2) \<Rightarrow>
                (case mq_release_all (q\<lparr>mq_receivers := rs, mq_senders := ss\<rparr>) of
                   None \<Rightarrow> None
                 | Some q1 \<Rightarrow> Some (RT_EOK, q1\<lparr>entry := 0\<rparr>, k2))))
     else Some (- RT_ERROR, q, k))"

text \<open>
  rt_mq_detach and rt_mq_delete wake both lists before the object goes away; rt_mq_delete then
  gives the pool and the object back to the heap \<open>h\<close>.
\<close>

definition rt_mq_detach ::
    "rt_messagequeue \<Rightarrow> rt_kernel \<Rightarrow> tid list \<times> tid list \<times> rt_kernel" where
  "rt_mq_detach q k =
    (case rt_susp_list_resume_all (mq_receivers q) RT_ERROR k of
       (rs, k1) \<Rightarrow> (case rt_susp_list_resume_all (mq_senders q) RT_ERROR k1 of
                     (ss, k2) \<Rightarrow> (rs, ss, k2)))"

definition rt_mq_delete ::
    "('h \<Rightarrow> 'h) \<Rightarrow> ('h \<Rightarrow> 'h) \<Rightarrow> rt_messagequeue \<Rightarrow> rt_kernel \<Rightarrow> 'h \<Rightarrow> tid list \<times> tid list \<times> rt_kernel \<times> 'h" where
  "rt_mq_delete free_pool delete_object q k h =
    (case rt_susp_list_resume_all (mq_receivers q) RT_ERROR k of
       (rs, k1) \<Rightarrow> (case rt_susp_list_resume_all (mq_senders q) RT_ERROR k1 of
                     (ss, k2) \<Rightarrow> (rs, ss, k2, delete_object (free_pool h))))"

section \<open>The two chains\<close>

fun mq_chain :: "(nat \<Rightarrow> rt_mq_message) \<Rightarrow> nat option \<Rightarrow> nat list \<Rightarrow> bool" where
  "mq_chain p x [] = (x = None)"
| "mq_chain p x (i # is) = (x = Some i \<and> mq_chain p (mq_next (p i)) is)"

text \<open>
  \<open>mq_wf q qs fs hs\<close>: the queued nodes are \<open>qs\<close>, the free ones \<open>fs\<close>, and \<open>hs\<close> are held by
  calls that are between their locked parts; together they are the pool, once each.
\<close>

definition mq_wf :: "rt_messagequeue \<Rightarrow> nat list \<Rightarrow> nat list \<Rightarrow> nat list \<Rightarrow> bool" where
  "mq_wf q qs fs hs \<longleftrightarrow>
    mq_chain (msg_pool q) (msg_queue_head q) qs \<and>
    mq_chain (msg_pool q) (msg_queue_free q) fs \<and>
    distinct (qs @ fs @ hs) \<and> set (qs @ fs @ hs) = {..<unat (max_msgs q)} \<and>
    msg_queue_tail q = (if qs = [] then None else Some (last qs)) \<and>
    unat (entry q) = length qs \<and>
    (\<forall>i<unat (max_msgs q). unat (msg_size q) \<le> length (mq_bytes (msg_pool q i))) \<and>
    (\<forall>i\<in>set qs. unat (mq_length (msg_pool q i)) \<le> unat (msg_size q))"

definition mq_payload :: "(nat \<Rightarrow> rt_mq_message) \<Rightarrow> nat \<Rightarrow> byte list" where
  "mq_payload p i = take (unat (mq_length (p i))) (mq_bytes (p i))"

text \<open>The nodes reached by following \<open>n\<close> links, and the messages of the queue, oldest first.\<close>

fun mq_walk :: "(nat \<Rightarrow> rt_mq_message) \<Rightarrow> nat \<Rightarrow> nat option \<Rightarrow> nat list" where
  "mq_walk p 0 x = []"
| "mq_walk p (Suc n) None = []"
| "mq_walk p (Suc n) (Some i) = i # mq_walk p n (mq_next (p i))"

definition mq_messages :: "rt_messagequeue \<Rightarrow> byte list list" where
  "mq_messages q =
    map (mq_payload (msg_pool q)) (mq_walk (msg_pool q) (unat (entry q)) (msg_queue_head q))"

definition mq_inv :: "rt_messagequeue \<Rightarrow> bool" where
  "mq_inv q \<longleftrightarrow>
    (let qs = mq_walk (msg_pool q) (unat (entry q)) (msg_queue_head q);
         fs = mq_walk (msg_pool q) (unat (max_msgs q) - length qs) (msg_queue_free q)
     in mq_wf q qs fs [])"

lemma mq_walk_chain: "mq_chain p x qs \<Longrightarrow> mq_walk p (length qs) x = qs"
  by (induction qs arbitrary: x) auto

lemma mq_chain_cong:
  "(\<And>i. i \<in> set qs \<Longrightarrow> mq_next (p i) = mq_next (p' i)) \<Longrightarrow> mq_chain p x qs = mq_chain p' x qs"
  by (induction qs arbitrary: x) auto

lemma mq_chain_node_upd [simp]:
  "m \<notin> set qs \<Longrightarrow> mq_chain (p(m := n)) x qs = mq_chain p x qs"
  by (rule mq_chain_cong) auto

lemma mq_chain_append_tail:
  "mq_chain p x qs \<Longrightarrow> qs \<noteq> [] \<Longrightarrow> distinct qs \<Longrightarrow> m \<notin> set qs \<Longrightarrow> mq_next (p m) = None \<Longrightarrow>
    mq_chain (node_upd (last qs) (\<lambda>n. n\<lparr>mq_next := Some m\<rparr>) p) x (qs @ [m])"
proof (induction qs arbitrary: x)
  case (Cons i qs)
  then show ?case by (cases qs) auto
qed simp

lemma mq_wf_length:
  assumes "mq_wf q qs fs hs"
  shows "length qs + length fs + length hs = unat (max_msgs q)"
proof -
  have d: "distinct (qs @ fs @ hs)" and st: "set (qs @ fs @ hs) = {..<unat (max_msgs q)}"
    using assms unfolding mq_wf_def by blast+
  from distinct_card [OF d] show ?thesis unfolding st by simp
qed

lemma mq_wf_walk:
  assumes "mq_wf q qs fs hs"
  shows "mq_walk (msg_pool q) (unat (entry q)) (msg_queue_head q) = qs"
    and "hs = [] \<Longrightarrow> mq_walk (msg_pool q) (unat (max_msgs q) - length qs) (msg_queue_free q) = fs"
proof -
  show "mq_walk (msg_pool q) (unat (entry q)) (msg_queue_head q) = qs"
    using assms mq_walk_chain by (simp add: mq_wf_def)
  have "length fs = unat (max_msgs q) - length qs" if "hs = []"
    using mq_wf_length [OF assms] that by simp
  then show "mq_walk (msg_pool q) (unat (max_msgs q) - length qs) (msg_queue_free q) = fs"
    if "hs = []"
    using that assms mq_walk_chain [of "msg_pool q" "msg_queue_free q" fs] by (simp add: mq_wf_def)
qed

lemma mq_inv_iff:
  "mq_inv q \<longleftrightarrow> (\<exists>qs fs. mq_wf q qs fs [])"
  using mq_wf_walk by (auto simp: mq_inv_def Let_def)

lemma mq_messages_wf: "mq_wf q qs fs hs \<Longrightarrow> mq_messages q = map (mq_payload (msg_pool q)) qs"
  by (simp add: mq_messages_def mq_wf_walk)

section \<open>Each locked part keeps the two chains\<close>

lemma mq_wf_take_free:
  assumes "mq_wf q qs (m # fs) hs"
  shows "msg_queue_free q = Some m" and "mq_wf (mq_take_free m q) qs fs (m # hs)"
  using assms by (auto simp: mq_wf_def mq_take_free_def)

lemma mq_wf_held:
  assumes "mq_wf q qs fs hs" "m \<in> set hs"
  shows "m \<notin> set qs" "m \<notin> set fs" "m < unat (max_msgs q)"
  using assms by (auto simp: mq_wf_def)

text \<open>A change of a held node is invisible to both chains.\<close>

lemma mq_wf_held_upd:
  assumes wf: "mq_wf q qs fs hs" and m: "m \<in> set hs"
    and len: "length (mq_bytes n) = length (mq_bytes (msg_pool q m))"
  shows "mq_wf (q\<lparr>msg_pool := (msg_pool q)(m := n)\<rparr>) qs fs hs"
    and "map (mq_payload ((msg_pool q)(m := n))) qs = map (mq_payload (msg_pool q)) qs"
  using wf len mq_wf_held [OF wf m] by (auto simp: mq_wf_def mq_payload_def)

lemma mq_wf_fill:
  assumes wf: "mq_wf q qs fs hs" and m: "m \<in> set hs"
    and sz: "sz \<le> ucast (msg_size q)" "unat sz \<le> length buf"
  shows "mq_wf (mq_fill m buf sz q) qs fs hs" and "mq_wf (mq_fill_urgent m buf sz q) qs fs hs"
    and "mq_payload (msg_pool (mq_fill m buf sz q)) m = take (unat sz) buf"
    and "unat (mq_length (msg_pool (mq_fill m buf sz q) m)) \<le> unat (msg_size q)"
    and "unat (mq_length (msg_pool (mq_fill_urgent m buf sz q) m)) \<le> unat (msg_size q)"
    and "mq_payload (msg_pool (mq_fill_urgent m buf sz q)) m = take (unat sz) buf"
    and "map (mq_payload (msg_pool (mq_fill m buf sz q))) qs = map (mq_payload (msg_pool q)) qs"
    and "map (mq_payload (msg_pool (mq_fill_urgent m buf sz q))) qs = map (mq_payload (msg_pool q)) qs"
proof -
  have "unat sz \<le> unat (msg_size q)" using sz(1) by (simp add: word_le_nat_alt unat_u16_u32)
  then show "unat (mq_length (msg_pool (mq_fill m buf sz q) m)) \<le> unat (msg_size q)"
    "unat (mq_length (msg_pool (mq_fill_urgent m buf sz q) m)) \<le> unat (msg_size q)"
    by (simp_all add: mq_fill_def mq_fill_urgent_def)
  have "unat sz \<le> unat (msg_size q)" using sz(1) by (simp add: word_le_nat_alt unat_u16_u32)
  also have "\<dots> \<le> length (mq_bytes (msg_pool q m))"
    using wf mq_wf_held(3) [OF wf m] by (simp add: mq_wf_def)
  finally have len: "unat sz \<le> length (mq_bytes (msg_pool q m))" .
  then have b: "length (blit (mq_bytes (msg_pool q m)) 0 (take (unat sz) buf)) =
      length (mq_bytes (msg_pool q m))"
    using sz(2) by (subst length_blit) auto
  show "mq_wf (mq_fill m buf sz q) qs fs hs"
    and "map (mq_payload (msg_pool (mq_fill m buf sz q))) qs = map (mq_payload (msg_pool q)) qs"
    using mq_wf_held_upd [OF wf m] b by (simp_all add: mq_fill_def)
  show "mq_wf (mq_fill_urgent m buf sz q) qs fs hs"
    and "map (mq_payload (msg_pool (mq_fill_urgent m buf sz q))) qs = map (mq_payload (msg_pool q)) qs"
    using mq_wf_held_upd [OF wf m] b by (simp_all add: mq_fill_urgent_def)
  show "mq_payload (msg_pool (mq_fill m buf sz q)) m = take (unat sz) buf"
    "mq_payload (msg_pool (mq_fill_urgent m buf sz q)) m = take (unat sz) buf"
    using sz(2) by (simp_all add: mq_payload_def mq_fill_def mq_fill_urgent_def blit_def)
qed

text \<open>The count cannot overflow: a held node is not queued, so \<open>entry\<close> is below its maximum.\<close>

lemma mq_entry_below_max:
  assumes "mq_wf q qs fs hs" "hs \<noteq> []"
  shows "entry q < RT_MQ_ENTRY_MAX" and "unat (entry q + 1) = length qs + 1"
proof -
  have "length qs < unat (max_msgs q)"
    using mq_wf_length [OF assms(1)] assms(2) by (cases hs) auto
  moreover have "unat (max_msgs q) < 65536" using unsigned_less [of "max_msgs q"] by simp
  moreover have e: "unat (entry q) = length qs" using assms(1) by (simp add: mq_wf_def)
  ultimately show "entry q < RT_MQ_ENTRY_MAX"
    by (simp add: RT_MQ_ENTRY_MAX_def word_less_nat_alt)
  show "unat (entry q + 1) = length qs + 1"
    using \<open>length qs < _\<close> \<open>_ < 65536\<close> e by (simp add: unat_word_ariths)
qed

lemma mq_announce_wf:
  assumes "entry q < RT_MQ_ENTRY_MAX" "mq_announce q k = (r, q', k')"
  shows "r = RT_EOK" and "entry q' = entry q + 1" and "msg_pool q' = msg_pool q"
    and "msg_queue_head q' = msg_queue_head q" and "msg_queue_tail q' = msg_queue_tail q"
    and "msg_queue_free q' = msg_queue_free q" and "max_msgs q' = max_msgs q"
    and "msg_size q' = msg_size q" and "mq_senders q' = mq_senders q" and "mq_flag q' = mq_flag q"
  using assms by (auto simp: mq_announce_def split: prod.splits)

lemma mq_wf_link_tail:
  assumes wf: "mq_wf q qs fs hs" and m: "m \<in> set hs" and nx: "mq_next (msg_pool q m) = None"
    and len: "unat (mq_length (msg_pool q m)) \<le> unat (msg_size q)"
    and link: "mq_link_tail m q k = (r, q', k')"
  shows "r = RT_EOK" and "mq_wf q' (qs @ [m]) fs (remove1 m hs)"
    and "mq_payload (msg_pool q') = mq_payload (msg_pool q)"
    and "max_msgs q' = max_msgs q" and "msg_size q' = msg_size q"
    and "i \<in> set hs \<Longrightarrow> msg_pool q' i = msg_pool q i"
proof -
  note held = mq_wf_held [OF wf m]
  have hs: "hs \<noteq> []" using m by auto
  note e = mq_entry_below_max [OF wf hs]
  have tail: "msg_queue_tail q = (if qs = [] then None else Some (last qs))"
    and head: "mq_chain (msg_pool q) (msg_queue_head q) qs"
    and dist: "distinct qs" "last qs \<notin> set fs \<or> qs = []"
    using wf by (auto simp: mq_wf_def dest: last_in_set)
  define p where "p = (if qs = [] then msg_pool q
    else node_upd (last qs) (\<lambda>n. n\<lparr>mq_next := Some m\<rparr>) (msg_pool q))"
  have hd': "(msg_queue_head q = None) = (qs = [])" using head by (cases qs) auto
  have ann: "mq_announce (q\<lparr>msg_pool := p, msg_queue_tail := Some m,
      msg_queue_head := (if qs = [] then Some m else msg_queue_head q)\<rparr>) k = (r, q', k')"
    using link tail by (cases "qs = []") (simp_all add: mq_link_tail_def Let_def p_def hd')
  note a = mq_announce_wf [OF _ ann, simplified, OF e(1)]
  show "r = RT_EOK" "max_msgs q' = max_msgs q" "msg_size q' = msg_size q" by (simp_all add: a)
  show "mq_payload (msg_pool q') = mq_payload (msg_pool q)"
    by (rule ext) (simp add: a p_def mq_payload_def)
  show "msg_pool q' i = msg_pool q i" if i: "i \<in> set hs"
  proof -
    have "i \<notin> set qs" using wf i by (auto simp: mq_wf_def)
    then have "qs = [] \<or> i \<noteq> last qs" using last_in_set by metis
    then show ?thesis by (auto simp: a p_def)
  qed
  have "mq_chain p (if qs = [] then Some m else msg_queue_head q) (qs @ [m])"
    using mq_chain_append_tail [OF head _ dist(1) held(1) nx] nx by (auto simp: p_def)
  moreover have "mq_chain p (msg_queue_free q) fs"
    using wf dist(2) by (auto simp: p_def mq_wf_def)
  moreover have "mq_bytes (p i) = mq_bytes (msg_pool q i)" "mq_length (p i) = mq_length (msg_pool q i)"
    for i by (simp_all add: p_def)
  ultimately show "mq_wf q' (qs @ [m]) fs (remove1 m hs)"
    using wf m e(2) held len by (auto simp: mq_wf_def a)
qed

lemma mq_wf_link_head:
  assumes wf: "mq_wf q qs fs hs" and m: "m \<in> set hs"
    and len: "unat (mq_length (msg_pool q m)) \<le> unat (msg_size q)"
    and link: "mq_link_head m q k = (r, q', k')"
  shows "r = RT_EOK" and "mq_wf q' (m # qs) fs (remove1 m hs)"
    and "mq_payload (msg_pool q') = mq_payload (msg_pool q)"
    and "max_msgs q' = max_msgs q" and "msg_size q' = msg_size q"
    and "i \<noteq> m \<Longrightarrow> msg_pool q' i = msg_pool q i"
proof -
  note held = mq_wf_held [OF wf m]
  have hs: "hs \<noteq> []" using m by auto
  note e = mq_entry_below_max [OF wf hs]
  have tail: "msg_queue_tail q = (if qs = [] then None else Some (last qs))"
    using wf by (simp add: mq_wf_def)
  have ann: "mq_announce (q\<lparr>msg_pool := node_upd m (\<lambda>n. n\<lparr>mq_next := msg_queue_head q\<rparr>) (msg_pool q),
      msg_queue_head := Some m,
      msg_queue_tail := (if msg_queue_tail q = None then Some m else msg_queue_tail q)\<rparr>) k =
      (r, q', k')"
    using link by (simp add: mq_link_head_def Let_def)
  note a = mq_announce_wf [OF _ ann, simplified, OF e(1)]
  show "r = RT_EOK" "max_msgs q' = max_msgs q" "msg_size q' = msg_size q" by (simp_all add: a)
  show "mq_payload (msg_pool q') = mq_payload (msg_pool q)"
    by (rule ext) (simp add: a mq_payload_def)
  show "msg_pool q' i = msg_pool q i" if "i \<noteq> m" using that by (simp add: a)
  show "mq_wf q' (m # qs) fs (remove1 m hs)"
    using wf m e(2) held tail len by (auto simp: mq_wf_def a)
qed

lemma mq_wf_unlink:
  assumes wf: "mq_wf q (m # qs) fs hs"
  shows "msg_queue_head q = Some m" and "mq_wf (mq_unlink m q) qs fs (m # hs)"
    and "msg_pool (mq_unlink m q) = msg_pool q"
proof -
  have e: "unat (entry q) = Suc (length qs)" using wf by (simp add: mq_wf_def)
  then have "unat (entry q - 1) = length qs" "entry q \<noteq> 0"
    by (auto simp: unat_sub word_le_nat_alt unat_minus_one)
  moreover have "last qs \<noteq> m" if "qs \<noteq> []"
    using wf last_in_set [OF that] by (auto simp: mq_wf_def)
  ultimately show "mq_wf (mq_unlink m q) qs fs (m # hs)"
    using wf by (auto simp: mq_wf_def mq_unlink_def word_gt_0)
  show "msg_queue_head q = Some m" "msg_pool (mq_unlink m q) = msg_pool q"
    using wf by (simp_all add: mq_wf_def mq_unlink_def)
qed

lemma mq_wf_put_free:
  assumes wf: "mq_wf q qs fs hs" and m: "m \<in> set hs" and put: "mq_put_free m q k = (q', k')"
  shows "mq_wf q' qs (m # fs) (remove1 m hs)"
    and "mq_payload (msg_pool q') = mq_payload (msg_pool q)"
    and "max_msgs q' = max_msgs q" and "msg_size q' = msg_size q"
    and "i \<noteq> m \<Longrightarrow> msg_pool q' i = msg_pool q i"
proof -
  note held = mq_wf_held [OF wf m]
  have f: "msg_pool q' = node_upd m (\<lambda>n. n\<lparr>mq_next := msg_queue_free q\<rparr>) (msg_pool q)"
    "msg_queue_free q' = Some m" "msg_queue_head q' = msg_queue_head q"
    "msg_queue_tail q' = msg_queue_tail q" "entry q' = entry q"
    and same: "max_msgs q' = max_msgs q" "msg_size q' = msg_size q"
    using put by (auto simp: mq_put_free_def Let_def split: prod.splits)
  show "mq_payload (msg_pool q') = mq_payload (msg_pool q)"
    by (rule ext) (simp add: f mq_payload_def)
  show "msg_pool q' i = msg_pool q i" if "i \<noteq> m" using that by (simp add: f)
  show "max_msgs q' = max_msgs q" "msg_size q' = msg_size q" by (fact same)+
  show "mq_wf q' qs (m # fs) (remove1 m hs)"
    using wf m held by (auto simp: mq_wf_def f same)
qed

section \<open>The non-blocking calls\<close>

lemma mq_init_chain:
  "mq_free_init temp n (p, free) = (p', free') \<Longrightarrow> mq_chain p free fs \<Longrightarrow>
    (\<forall>i\<in>set fs. i < temp) \<Longrightarrow>
    mq_chain p' free' (rev [temp..<temp + n] @ fs) \<and>
    (\<forall>i. mq_bytes (p' i) = mq_bytes (p i))"
proof (induction n arbitrary: temp p free fs)
  case (Suc n)
  let ?p = "node_upd temp (\<lambda>m. m\<lparr>mq_next := free\<rparr>) p"
  have "mq_chain ?p (Some temp) (temp # fs)"
    using Suc.prems by auto
  moreover have "\<forall>i\<in>set (temp # fs). i < Suc temp" using Suc.prems(3) by auto
  moreover have "mq_free_init (Suc temp) n (?p, Some temp) = (p', free')" using Suc.prems(1) by simp
  ultimately have "mq_chain p' free' (rev [Suc temp..<Suc temp + n] @ temp # fs) \<and>
      (\<forall>i. mq_bytes (p' i) = mq_bytes (?p i))" by (intro Suc.IH)
  moreover have "rev [temp..<temp + Suc n] = rev [Suc temp..<Suc temp + n] @ [temp]"
    by (subst upt_rec) simp
  ultimately show ?case by auto
qed simp

lemma mq_empty_wf:
  assumes "\<forall>i<unat max_n. unat msg_sz \<le> length (mq_bytes (pool i))"
  shows "mq_wf (mq_empty pool msg_sz max_n flag) [] (rev [0..<unat max_n]) []"
proof -
  obtain p free where init: "mq_free_init 0 (unat max_n) (pool, None) = (p, free)"
    by (cases "mq_free_init 0 (unat max_n) (pool, None)")
  have "mq_chain p free (rev [0..<unat max_n])" "\<forall>i. mq_bytes (p i) = mq_bytes (pool i)"
    using mq_init_chain [OF init, of "[]"] by simp_all
  with assms init show ?thesis by (auto simp: mq_wf_def mq_empty_def)
qed

lemma mq_empty_inv:
  assumes "\<forall>i<unat max_n. unat msg_sz \<le> length (mq_bytes (pool i))"
  shows "mq_inv (mq_empty pool msg_sz max_n flag)"
    and "mq_messages (mq_empty pool msg_sz max_n flag) = []"
    and "max_msgs (mq_empty pool msg_sz max_n flag) = max_n"
    and "msg_size (mq_empty pool msg_sz max_n flag) = msg_sz"
  using mq_empty_wf [OF assms, of flag] mq_messages_wf
  by (auto simp: mq_inv_iff) (auto simp: mq_empty_def split: prod.splits)

lemma mq_inv_cases:
  assumes "mq_inv q"
  obtains qs fs where "mq_wf q qs fs []" "mq_messages q = map (mq_payload (msg_pool q)) qs"
    "length qs + length fs = unat (max_msgs q)"
proof -
  from assms obtain qs fs where wf: "mq_wf q qs fs []" by (auto simp: mq_inv_iff)
  from that [OF wf mq_messages_wf [OF wf]] mq_wf_length [OF wf] show ?thesis by simp
qed

text \<open>What an accepted message does to the queue, for send and for urgent.\<close>

lemma mq_send_parts:
  assumes wf: "mq_wf q qs (m # fs) []" and sz: "sz \<le> ucast (msg_size q)" "unat sz \<le> length buf"
    and link: "mq_link_tail m (mq_fill m buf sz (mq_take_free m q)) k = (r, q', k')"
  shows "r = RT_EOK" and "mq_inv q'" and "max_msgs q' = max_msgs q" and "msg_size q' = msg_size q"
    and "mq_messages q' = mq_messages q @ [take (unat sz) buf]"
proof -
  let ?q1 = "mq_take_free m q" and ?q2 = "mq_fill m buf sz (mq_take_free m q)"
  have same: "msg_size ?q1 = msg_size q" "max_msgs ?q2 = max_msgs q" "msg_size ?q2 = msg_size q"
    "msg_pool ?q1 = msg_pool q" and nx: "mq_next (msg_pool ?q2 m) = None"
    by (simp_all add: mq_take_free_def mq_fill_def)
  note fill = mq_wf_fill [OF mq_wf_take_free(2) [OF wf], of m sz buf, unfolded same, simplified,
      OF sz]
  have pay: "mq_payload (msg_pool ?q2) m = take (unat sz) buf"
    "map (mq_payload (msg_pool ?q2)) qs = map (mq_payload (msg_pool q)) qs"
    using fill by simp_all
  have "unat (mq_length (msg_pool ?q2 m)) \<le> unat (msg_size ?q2)" using fill by (simp add: same)
  note lk = mq_wf_link_tail [OF fill(1) _ nx this link, simplified]
  show "r = RT_EOK" "max_msgs q' = max_msgs q" "msg_size q' = msg_size q"
    using lk same by simp_all
  show "mq_inv q'" using lk(2) by (auto simp: mq_inv_iff)
  show "mq_messages q' = mq_messages q @ [take (unat sz) buf]"
    using mq_messages_wf [OF lk(2)] mq_messages_wf [OF wf] lk(3) pay by simp
qed

lemma mq_urgent_parts:
  assumes wf: "mq_wf q qs (m # fs) []" and sz: "sz \<le> ucast (msg_size q)" "unat sz \<le> length buf"
    and link: "mq_link_head m (mq_fill_urgent m buf sz (mq_take_free m q)) k = (r, q', k')"
  shows "r = RT_EOK" and "mq_inv q'" and "max_msgs q' = max_msgs q" and "msg_size q' = msg_size q"
    and "mq_messages q' = take (unat sz) buf # mq_messages q"
proof -
  let ?q1 = "mq_take_free m q" and ?q2 = "mq_fill_urgent m buf sz (mq_take_free m q)"
  have same: "msg_size ?q1 = msg_size q" "max_msgs ?q2 = max_msgs q" "msg_size ?q2 = msg_size q"
    "msg_pool ?q1 = msg_pool q"
    by (simp_all add: mq_take_free_def mq_fill_urgent_def)
  note fill = mq_wf_fill [OF mq_wf_take_free(2) [OF wf], of m sz buf, unfolded same, simplified,
      OF sz]
  have pay: "mq_payload (msg_pool ?q2) m = take (unat sz) buf"
    "map (mq_payload (msg_pool ?q2)) qs = map (mq_payload (msg_pool q)) qs"
    using fill by simp_all
  have "unat (mq_length (msg_pool ?q2 m)) \<le> unat (msg_size ?q2)" using fill by (simp add: same)
  note lk = mq_wf_link_head [OF fill(2) _ this link, simplified]
  show "r = RT_EOK" "max_msgs q' = max_msgs q" "msg_size q' = msg_size q"
    using lk same by simp_all
  show "mq_inv q'" using lk(2) by (auto simp: mq_inv_iff)
  show "mq_messages q' = take (unat sz) buf # mq_messages q"
    using mq_messages_wf [OF lk(2)] mq_messages_wf [OF wf] lk(3) pay by simp
qed

lemma mq_inv_full: "mq_inv q \<Longrightarrow> (msg_queue_free q = None) = (length (mq_messages q) = unat (max_msgs q))"
proof (erule mq_inv_cases)
  fix qs fs
  assume wf: "mq_wf q qs fs []" and "mq_messages q = map (mq_payload (msg_pool q)) qs"
    "length qs + length fs = unat (max_msgs q)"
  moreover have "(msg_queue_free q = None) = (fs = [])"
    using wf by (cases fs) (auto simp: mq_wf_def)
  ultimately show ?thesis by auto
qed

lemma mq_send_wait_nonblocking:
  assumes inv: "mq_inv q" and sz: "sz \<noteq> 0" "sz \<le> ucast (msg_size q)" "unat sz \<le> length buf"
    and send: "rt_mq_send_wait buf sz 0 q k = (out, q', k')"
  shows "out = Returned (if length (mq_messages q) < unat (max_msgs q) then RT_EOK else - RT_EFULL)"
    and "mq_inv q'" and "max_msgs q' = max_msgs q" and "msg_size q' = msg_size q"
    and "mq_messages q' = (if length (mq_messages q) < unat (max_msgs q)
           then mq_messages q @ [take (unat sz) buf] else mq_messages q)"
proof -
  obtain qs fs where wf: "mq_wf q qs fs []" "mq_messages q = map (mq_payload (msg_pool q)) qs"
      "length qs + length fs = unat (max_msgs q)"
    using inv by (rule mq_inv_cases)
  have "out = Returned (if length (mq_messages q) < unat (max_msgs q) then RT_EOK else - RT_EFULL) \<and>
    mq_inv q' \<and> max_msgs q' = max_msgs q \<and> msg_size q' = msg_size q \<and>
    mq_messages q' = (if length (mq_messages q) < unat (max_msgs q)
           then mq_messages q @ [take (unat sz) buf] else mq_messages q)"
  proof (cases fs)
    case Nil
    then have "msg_queue_free q = None" using wf(1) by (simp add: mq_wf_def)
    with Nil show ?thesis
      using send sz inv wf by (simp add: rt_mq_send_wait_def rt_mq_send_wait_main_def not_less [symmetric])
  next
    case (Cons m fs')
    obtain r q1 k1 where lk: "mq_link_tail m (mq_fill m buf sz (mq_take_free m q)) k = (r, q1, k1)"
      by (cases "mq_link_tail m (mq_fill m buf sz (mq_take_free m q)) k")
    note parts = mq_send_parts [OF wf(1) [unfolded Cons] sz(2,3) lk]
    have "msg_queue_free q = Some m" using wf(1) Cons by (simp add: mq_wf_def)
    then have "(out, q', k') = (Returned r, q1, k1)"
      using send sz lk by (simp add: rt_mq_send_wait_def rt_mq_send_wait_main_def mq_send_loop_def
          not_less [symmetric])
    with parts wf Cons show ?thesis by auto
  qed
  then show "out = Returned (if length (mq_messages q) < unat (max_msgs q) then RT_EOK else - RT_EFULL)"
    "mq_inv q'" "max_msgs q' = max_msgs q" "msg_size q' = msg_size q"
    "mq_messages q' = (if length (mq_messages q) < unat (max_msgs q)
           then mq_messages q @ [take (unat sz) buf] else mq_messages q)"
    by blast+
qed

lemma mq_urgent_effect:
  assumes inv: "mq_inv q" and sz: "sz \<noteq> 0" "sz \<le> ucast (msg_size q)" "unat sz \<le> length buf"
    and send: "rt_mq_urgent buf sz q k = (out, q', k')"
  shows "out = Returned (if length (mq_messages q) < unat (max_msgs q) then RT_EOK else - RT_EFULL)"
    and "mq_inv q'"
    and "mq_messages q' = (if length (mq_messages q) < unat (max_msgs q)
           then take (unat sz) buf # mq_messages q else mq_messages q)"
proof -
  obtain qs fs where wf: "mq_wf q qs fs []" "mq_messages q = map (mq_payload (msg_pool q)) qs"
      "length qs + length fs = unat (max_msgs q)"
    using inv by (rule mq_inv_cases)
  have "out = Returned (if length (mq_messages q) < unat (max_msgs q) then RT_EOK else - RT_EFULL) \<and>
    mq_inv q' \<and> mq_messages q' = (if length (mq_messages q) < unat (max_msgs q)
           then take (unat sz) buf # mq_messages q else mq_messages q)"
  proof (cases fs)
    case Nil
    then have "msg_queue_free q = None" using wf(1) by (simp add: mq_wf_def)
    with Nil show ?thesis
      using send sz inv wf by (simp add: rt_mq_urgent_def not_less [symmetric])
  next
    case (Cons m fs')
    obtain r q1 k1 where lk: "mq_link_head m (mq_fill_urgent m buf sz (mq_take_free m q)) k = (r, q1, k1)"
      by (cases "mq_link_head m (mq_fill_urgent m buf sz (mq_take_free m q)) k")
    note parts = mq_urgent_parts [OF wf(1) [unfolded Cons] sz(2,3) lk]
    have "msg_queue_free q = Some m" using wf(1) Cons by (simp add: mq_wf_def)
    then have "(out, q', k') = (Returned r, q1, k1)"
      using send sz lk by (simp add: rt_mq_urgent_def not_less [symmetric])
    with parts wf Cons show ?thesis by auto
  qed
  then show "out = Returned (if length (mq_messages q) < unat (max_msgs q) then RT_EOK else - RT_EFULL)"
    "mq_inv q'" "mq_messages q' = (if length (mq_messages q) < unat (max_msgs q)
           then take (unat sz) buf # mq_messages q else mq_messages q)"
    by blast+
qed

lemma mq_recv_parts:
  assumes inv: "mq_inv q" and e: "entry q \<noteq> 0"
    and recv: "mq_recv_loop sz timeout sf q k = (out, d, q', k')"
  shows "mq_messages q \<noteq> []" and "d = take (unat sz) (hd (mq_messages q))"
    and "out = Returned (int (length d))"
    and "mq_inv q'" and "max_msgs q' = max_msgs q" and "msg_size q' = msg_size q"
    and "mq_messages q' = tl (mq_messages q)"
proof -
  obtain qs0 fs where wf0: "mq_wf q qs0 fs []" "mq_messages q = map (mq_payload (msg_pool q)) qs0"
    using inv by (rule mq_inv_cases)
  have "length qs0 = unat (entry q)" using wf0(1) by (simp add: mq_wf_def)
  with e obtain m qs where qs0: "qs0 = m # qs" by (cases qs0) (auto simp: word_unat_eq_iff)
  note wf = wf0(1) [unfolded qs0] and un = mq_wf_unlink [OF wf0(1) [unfolded qs0]]
  let ?q1 = "mq_unlink m q"
  obtain q2 k2 where put: "mq_put_free m ?q1 k = (q2, k2)" by (cases "mq_put_free m ?q1 k")
  note pf = mq_wf_put_free [OF un(2) _ put, simplified]
  have res: "d = mq_copy_out m sz ?q1" "out = Returned (int (length d))" "q' = q2" "k' = k2"
    using recv e un put by (auto simp: mq_recv_loop_def Let_def)
  show "mq_messages q \<noteq> []" by (simp add: wf0(2) qs0)
  show "d = take (unat sz) (hd (mq_messages q))"
    by (auto simp: res(1) wf0(2) qs0 mq_copy_out_def mq_payload_def un(3) Let_def
        word_less_nat_alt min_def)
  show "out = Returned (int (length d))" by (fact res(2))
  show "mq_inv q'" using pf(1) by (auto simp: mq_inv_iff res)
  show "max_msgs q' = max_msgs q" "msg_size q' = msg_size q"
    using pf by (simp_all add: res mq_unlink_def)
  show "mq_messages q' = tl (mq_messages q)"
    using mq_messages_wf [OF pf(1)] pf(2) by (simp add: res wf0(2) qs0 un(3))
qed

lemma mq_entry_zero: "mq_inv q \<Longrightarrow> (entry q = 0) = (mq_messages q = [])"
  by (erule mq_inv_cases) (auto simp: mq_wf_def word_unat_eq_iff)

lemma mq_recv_nonblocking:
  assumes inv: "mq_inv q" and sz: "sz \<noteq> 0"
    and recv: "rt_mq_recv sz 0 q k = (out, d, q', k')"
  shows "out = Returned (if mq_messages q = [] then - RT_ETIMEOUT else int (length d))"
    and "d = (if mq_messages q = [] then [] else take (unat sz) (hd (mq_messages q)))"
    and "mq_inv q'" and "max_msgs q' = max_msgs q" and "msg_size q' = msg_size q"
    and "mq_messages q' = tl (mq_messages q)"
proof -
  have "out = Returned (if mq_messages q = [] then - RT_ETIMEOUT else int (length d)) \<and>
    d = (if mq_messages q = [] then [] else take (unat sz) (hd (mq_messages q))) \<and>
    mq_inv q' \<and> max_msgs q' = max_msgs q \<and> msg_size q' = msg_size q \<and>
    mq_messages q' = tl (mq_messages q)"
  proof (cases "mq_messages q = []")
    case True
    then show ?thesis
      using recv sz inv by (auto simp: rt_mq_recv_def rt_mq_recv_main_def mq_entry_zero)
  next
    case False
    then have e: "entry q \<noteq> 0" using mq_entry_zero [OF inv] by simp
    then have "mq_recv_loop sz 0 RT_UNINTERRUPTIBLE q k = (out, d, q', k')"
      using recv sz by (simp add: rt_mq_recv_def rt_mq_recv_main_def)
    from mq_recv_parts [OF inv e this] False show ?thesis by simp
  qed
  then show "out = Returned (if mq_messages q = [] then - RT_ETIMEOUT else int (length d))"
    "d = (if mq_messages q = [] then [] else take (unat sz) (hd (mq_messages q)))"
    "mq_inv q'" "max_msgs q' = max_msgs q" "msg_size q' = msg_size q"
    "mq_messages q' = tl (mq_messages q)"
    by blast+
qed

section \<open>Reset\<close>

text \<open>On a well-formed queue the loop ends, with every node on the free list.\<close>

lemma mq_release_all_wf:
  assumes "mq_chain (msg_pool q) (msg_queue_head q) qs" "mq_chain (msg_pool q) (msg_queue_free q) fs"
    and "distinct (qs @ fs)" "msg_queue_tail q = (if qs = [] then None else Some (last qs))"
  shows "\<exists>q'. mq_release_all q = Some q' \<and>
    mq_chain (msg_pool q') (msg_queue_free q') (rev qs @ fs) \<and> msg_queue_head q' = None \<and>
    msg_queue_tail q' = None \<and> max_msgs q' = max_msgs q \<and> msg_size q' = msg_size q \<and>
    mq_receivers q' = mq_receivers q \<and> mq_senders q' = mq_senders q \<and>
    (\<forall>i. mq_bytes (msg_pool q' i) = mq_bytes (msg_pool q i))"
  using assms
proof (induction qs arbitrary: q fs)
  case Nil
  then show ?case by (subst mq_release_all.simps) simp
next
  case (Cons m qs)
  let ?q = "q\<lparr>msg_queue_head := mq_next (msg_pool q m),
    msg_queue_tail := (if msg_queue_tail q = Some m then None else msg_queue_tail q),
    msg_pool := node_upd m (\<lambda>n. n\<lparr>mq_next := msg_queue_free q\<rparr>) (msg_pool q),
    msg_queue_free := Some m\<rparr>"
  have "last qs \<noteq> m" if "qs \<noteq> []" using Cons.prems(3) last_in_set [OF that] by auto
  then have "\<exists>q'. mq_release_all ?q = Some q' \<and>
    mq_chain (msg_pool q') (msg_queue_free q') (rev qs @ m # fs) \<and> msg_queue_head q' = None \<and>
    msg_queue_tail q' = None \<and> max_msgs q' = max_msgs ?q \<and> msg_size q' = msg_size ?q \<and>
    mq_receivers q' = mq_receivers ?q \<and> mq_senders q' = mq_senders ?q \<and>
    (\<forall>i. mq_bytes (msg_pool q' i) = mq_bytes (msg_pool ?q i))"
    using Cons.prems by (intro Cons.IH) (auto simp del: fun_upd_apply simp add: fun_upd_same)
  moreover have "mq_release_all q = mq_release_all ?q"
    using Cons.prems(1) by (subst mq_release_all.simps) simp
  ultimately show ?case by (auto simp del: fun_upd_apply) (auto split: if_splits)
qed

lemma mq_control_reset:
  assumes "mq_inv q" "distinct (mq_receivers q)" "distinct (mq_senders q)"
    and "\<forall>t\<in>set (mq_receivers q) \<union> set (mq_senders q). wakeable k t"
    and "set (mq_receivers q) \<inter> set (mq_senders q) = {}"
  shows "\<exists>q' k'. rt_mq_control RT_IPC_CMD_RESET q k = Some (RT_EOK, q', k') \<and>
    mq_inv q' \<and> mq_messages q' = [] \<and> mq_receivers q' = [] \<and> mq_senders q' = [] \<and>
    max_msgs q' = max_msgs q \<and>
    k' = fold (\<lambda>t. woken t RT_ERROR) (mq_receivers q @ mq_senders q) k"
proof -
  let ?k1 = "fold (\<lambda>t. woken t RT_ERROR) (mq_receivers q) k"
  have "wakeable ?k1 t" if "t \<in> set (mq_senders q)" for t
    using that assms(4,5) wakeable_fold_woken [of t "mq_receivers q" RT_ERROR k] by blast
  then have wake: "rt_susp_list_resume_all (mq_receivers q) RT_ERROR k = ([], ?k1)"
    "rt_susp_list_resume_all (mq_senders q) RT_ERROR ?k1 =
      ([], fold (\<lambda>t. woken t RT_ERROR) (mq_senders q) ?k1)"
    using assms(2-4) by (simp_all add: resume_all_wakeable)
  obtain qs fs where wf: "mq_wf q qs fs []"
    using assms(1) by (rule mq_inv_cases)
  let ?q = "q\<lparr>mq_receivers := [], mq_senders := []\<rparr>"
  obtain q1 where q1: "mq_release_all ?q = Some q1"
      "mq_chain (msg_pool q1) (msg_queue_free q1) (rev qs @ fs)" "msg_queue_head q1 = None"
      "msg_queue_tail q1 = None" "max_msgs q1 = max_msgs q" "msg_size q1 = msg_size q"
      "\<forall>i. mq_bytes (msg_pool q1 i) = mq_bytes (msg_pool q i)"
    and rcv: "mq_receivers q1 = []" "mq_senders q1 = []"
    using mq_release_all_wf [of ?q qs fs] wf by (auto simp: mq_wf_def)
  have "mq_wf (q1\<lparr>entry := 0\<rparr>) [] (rev qs @ fs) []"
    using wf q1 by (auto simp: mq_wf_def)
  then have "mq_inv (q1\<lparr>entry := 0\<rparr>)" "mq_messages (q1\<lparr>entry := 0\<rparr>) = []"
    using mq_messages_wf by (auto simp: mq_inv_iff)
  then show ?thesis using wake q1(1,5) rcv by (simp add: rt_mq_control_def)
qed

section \<open>Every interleaving of the locked parts\<close>

text \<open>
  A configuration is the queue, the kernel, and the nodes held by calls in progress: those a
  sender has taken, those it has filled, and those a receiver has taken out.
\<close>

record mq_config =
  cfg_mq :: rt_messagequeue
  cfg_kernel :: rt_kernel
  cfg_taken :: "nat list"
  cfg_filled :: "nat list"
  cfg_urgent :: "nat list"
  cfg_out :: "nat list"

inductive mq_step :: "mq_config \<Rightarrow> mq_config \<Rightarrow> bool" where
  take_free: "msg_queue_free (cfg_mq c) = Some m \<Longrightarrow>
    mq_step c (c\<lparr>cfg_mq := mq_take_free m (cfg_mq c), cfg_taken := m # cfg_taken c\<rparr>)"
| fill: "m \<in> set (cfg_taken c) \<Longrightarrow> sz \<le> ucast (msg_size (cfg_mq c)) \<Longrightarrow> unat sz \<le> length buf \<Longrightarrow>
    mq_step c (c\<lparr>cfg_mq := mq_fill m buf sz (cfg_mq c),
      cfg_taken := remove1 m (cfg_taken c), cfg_filled := m # cfg_filled c\<rparr>)"
| fill_urgent: "m \<in> set (cfg_taken c) \<Longrightarrow> sz \<le> ucast (msg_size (cfg_mq c)) \<Longrightarrow> unat sz \<le> length buf \<Longrightarrow>
    mq_step c (c\<lparr>cfg_mq := mq_fill_urgent m buf sz (cfg_mq c),
      cfg_taken := remove1 m (cfg_taken c), cfg_urgent := m # cfg_urgent c\<rparr>)"
| link_tail: "m \<in> set (cfg_filled c) \<Longrightarrow>
    mq_link_tail m (cfg_mq c) (cfg_kernel c) = (r, q', k') \<Longrightarrow>
    mq_step c (c\<lparr>cfg_mq := q', cfg_kernel := k', cfg_filled := remove1 m (cfg_filled c)\<rparr>)"
| link_head: "m \<in> set (cfg_urgent c) \<Longrightarrow>
    mq_link_head m (cfg_mq c) (cfg_kernel c) = (r, q', k') \<Longrightarrow>
    mq_step c (c\<lparr>cfg_mq := q', cfg_kernel := k', cfg_urgent := remove1 m (cfg_urgent c)\<rparr>)"
| unlink: "entry (cfg_mq c) \<noteq> 0 \<Longrightarrow> msg_queue_head (cfg_mq c) = Some m \<Longrightarrow>
    mq_step c (c\<lparr>cfg_mq := mq_unlink m (cfg_mq c), cfg_out := m # cfg_out c\<rparr>)"
| put_free: "m \<in> set (cfg_out c) \<Longrightarrow> mq_put_free m (cfg_mq c) (cfg_kernel c) = (q', k') \<Longrightarrow>
    mq_step c (c\<lparr>cfg_mq := q', cfg_kernel := k', cfg_out := remove1 m (cfg_out c)\<rparr>)"

inductive mq_reach :: "mq_config \<Rightarrow> mq_config \<Rightarrow> bool" where
  mq_reach_refl: "mq_reach c c"
| mq_reach_step: "mq_reach c d \<Longrightarrow> mq_step d e \<Longrightarrow> mq_reach c e"

definition mq_held :: "mq_config \<Rightarrow> nat list" where
  "mq_held c = cfg_taken c @ cfg_filled c @ cfg_urgent c @ cfg_out c"

definition mq_fit :: "rt_messagequeue \<Rightarrow> nat \<Rightarrow> bool" where
  "mq_fit q m \<longleftrightarrow> unat (mq_length (msg_pool q m)) \<le> unat (msg_size q)"

definition mq_config_ok :: "mq_config \<Rightarrow> bool" where
  "mq_config_ok c \<longleftrightarrow>
    (\<exists>qs fs. mq_wf (cfg_mq c) qs fs (mq_held c)) \<and>
    (\<forall>m\<in>set (cfg_filled c). mq_next (msg_pool (cfg_mq c) m) = None \<and> mq_fit (cfg_mq c) m) \<and>
    (\<forall>m\<in>set (cfg_urgent c). mq_fit (cfg_mq c) m)"

lemma mq_wf_perm: "mq_wf q qs fs hs \<Longrightarrow> mset hs = mset hs' \<Longrightarrow> mq_wf q qs fs hs'"
  using mset_eq_setD [of hs hs'] mset_eq_imp_distinct_iff [of hs hs'] by (auto simp: mq_wf_def)

lemma mq_step_ok: "mq_step c d \<Longrightarrow> mq_config_ok c \<Longrightarrow> mq_config_ok d"
proof (induction rule: mq_step.induct)
  case (take_free c m)
  then obtain qs fs where wf: "mq_wf (cfg_mq c) qs fs (mq_held c)" by (auto simp: mq_config_ok_def)
  with take_free(1) obtain fs' where "fs = m # fs'" by (cases fs) (auto simp: mq_wf_def)
  with wf have "mq_wf (mq_take_free m (cfg_mq c)) qs fs' (m # mq_held c)"
    using mq_wf_take_free by blast
  then have "mq_wf (mq_take_free m (cfg_mq c)) qs fs' (mq_held (c\<lparr>cfg_mq := mq_take_free m (cfg_mq c),
      cfg_taken := m # cfg_taken c\<rparr>))" by (simp add: mq_held_def)
  with take_free(2) show ?case by (auto simp: mq_config_ok_def mq_fit_def mq_take_free_def)
next
  case (fill m c sz buf)
  then obtain qs fs where wf: "mq_wf (cfg_mq c) qs fs (mq_held c)" by (auto simp: mq_config_ok_def)
  have m: "m \<in> set (mq_held c)" and d: "distinct (mq_held c)"
    using fill(1) wf by (auto simp: mq_held_def mq_wf_def)
  note f = mq_wf_fill [OF wf m fill(2,3)]
  have "mq_wf (mq_fill m buf sz (cfg_mq c)) qs fs (mq_held (c\<lparr>cfg_mq := mq_fill m buf sz (cfg_mq c),
      cfg_taken := remove1 m (cfg_taken c), cfg_filled := m # cfg_filled c\<rparr>))"
    by (rule mq_wf_perm [OF f(1)]) (use fill(1) in \<open>simp add: mq_held_def\<close>)
  with fill(4) f(4) d fill(1) show ?case
    by (auto simp: mq_config_ok_def mq_fit_def mq_held_def mq_fill_def)
next
  case (fill_urgent m c sz buf)
  then obtain qs fs where wf: "mq_wf (cfg_mq c) qs fs (mq_held c)" by (auto simp: mq_config_ok_def)
  have m: "m \<in> set (mq_held c)" and d: "distinct (mq_held c)"
    using fill_urgent(1) wf by (auto simp: mq_held_def mq_wf_def)
  note f = mq_wf_fill [OF wf m fill_urgent(2,3)]
  have "mq_wf (mq_fill_urgent m buf sz (cfg_mq c)) qs fs
      (mq_held (c\<lparr>cfg_mq := mq_fill_urgent m buf sz (cfg_mq c),
        cfg_taken := remove1 m (cfg_taken c), cfg_urgent := m # cfg_urgent c\<rparr>))"
    by (rule mq_wf_perm [OF f(2)]) (use fill_urgent(1) in \<open>simp add: mq_held_def\<close>)
  with fill_urgent(4) f(5) d fill_urgent(1) show ?case
    by (auto simp: mq_config_ok_def mq_fit_def mq_held_def mq_fill_urgent_def)
next
  case (link_tail m c r q' k')
  then obtain qs fs where wf: "mq_wf (cfg_mq c) qs fs (mq_held c)" by (auto simp: mq_config_ok_def)
  have m: "m \<in> set (mq_held c)" and d: "distinct (mq_held c)"
    and ok: "mq_next (msg_pool (cfg_mq c) m) = None"
      "unat (mq_length (msg_pool (cfg_mq c) m)) \<le> unat (msg_size (cfg_mq c))"
    using link_tail(1,3) wf by (auto simp: mq_held_def mq_wf_def mq_config_ok_def mq_fit_def)
  note l = mq_wf_link_tail [OF wf m ok link_tail(2)]
  have "mq_wf q' (qs @ [m]) fs (mq_held (c\<lparr>cfg_mq := q', cfg_kernel := k',
      cfg_filled := remove1 m (cfg_filled c)\<rparr>))"
    by (rule mq_wf_perm [OF l(2)]) (use link_tail(1) m d in \<open>auto simp: mq_held_def\<close>)
  moreover have "i \<in> set (mq_held c)" if "i \<in> set (cfg_filled c) \<or> i \<in> set (cfg_urgent c)" for i
    using that by (auto simp: mq_held_def)
  ultimately show ?case
    using link_tail(3) l(5,6) d by (auto simp: mq_config_ok_def mq_fit_def mq_held_def)
next
  case (link_head m c r q' k')
  then obtain qs fs where wf: "mq_wf (cfg_mq c) qs fs (mq_held c)" by (auto simp: mq_config_ok_def)
  have m: "m \<in> set (mq_held c)" and d: "distinct (mq_held c)"
    and ok: "unat (mq_length (msg_pool (cfg_mq c) m)) \<le> unat (msg_size (cfg_mq c))"
    using link_head(1,3) wf by (auto simp: mq_held_def mq_wf_def mq_config_ok_def mq_fit_def)
  note l = mq_wf_link_head [OF wf m ok link_head(2)]
  have "mq_wf q' (m # qs) fs (mq_held (c\<lparr>cfg_mq := q', cfg_kernel := k',
      cfg_urgent := remove1 m (cfg_urgent c)\<rparr>))"
    by (rule mq_wf_perm [OF l(2)]) (use link_head(1) m d in \<open>auto simp: mq_held_def\<close>)
  moreover have "msg_pool q' i = msg_pool (cfg_mq c) i"
    if "i \<in> set (cfg_filled c) \<union> set (remove1 m (cfg_urgent c))" for i
    by (rule l(6)) (use that d link_head(1) in \<open>auto simp: mq_held_def\<close>)
  ultimately show ?case
    using link_head(3) l(5) d by (auto simp: mq_config_ok_def mq_fit_def mq_held_def)
next
  case (unlink c m)
  then obtain qs fs where wf: "mq_wf (cfg_mq c) qs fs (mq_held c)" by (auto simp: mq_config_ok_def)
  with unlink(2) obtain qs' where "qs = m # qs'" by (cases qs) (auto simp: mq_wf_def)
  with wf have u: "mq_wf (mq_unlink m (cfg_mq c)) qs' fs (m # mq_held c)"
    using mq_wf_unlink by blast
  have "mq_wf (mq_unlink m (cfg_mq c)) qs' fs (mq_held (c\<lparr>cfg_mq := mq_unlink m (cfg_mq c),
      cfg_out := m # cfg_out c\<rparr>))"
    by (rule mq_wf_perm [OF u]) (simp add: mq_held_def)
  moreover have "msg_pool (mq_unlink m (cfg_mq c)) = msg_pool (cfg_mq c)"
    "msg_size (mq_unlink m (cfg_mq c)) = msg_size (cfg_mq c)"
    by (simp_all add: mq_unlink_def)
  ultimately show ?case using unlink(3) by (auto simp: mq_config_ok_def mq_fit_def)
next
  case (put_free m c q' k')
  then obtain qs fs where wf: "mq_wf (cfg_mq c) qs fs (mq_held c)" by (auto simp: mq_config_ok_def)
  have m: "m \<in> set (mq_held c)" and d: "distinct (mq_held c)"
    using put_free(1) wf by (auto simp: mq_held_def mq_wf_def)
  note l = mq_wf_put_free [OF wf m put_free(2)]
  have "mq_wf q' qs (m # fs) (mq_held (c\<lparr>cfg_mq := q', cfg_kernel := k',
      cfg_out := remove1 m (cfg_out c)\<rparr>))"
    by (rule mq_wf_perm [OF l(1)]) (use put_free(1) m d in \<open>auto simp: mq_held_def\<close>)
  moreover have "msg_pool q' i = msg_pool (cfg_mq c) i"
    if "i \<in> set (cfg_filled c) \<union> set (cfg_urgent c)" for i
    by (rule l(5)) (use that d put_free(1) in \<open>auto simp: mq_held_def\<close>)
  ultimately show ?case
    using put_free(3) l(4) d by (auto simp: mq_config_ok_def mq_fit_def mq_held_def)
qed

lemma mq_reach_ok: "mq_reach c d \<Longrightarrow> mq_config_ok c \<Longrightarrow> mq_config_ok d"
  by (induction rule: mq_reach.induct) (auto intro: mq_step_ok)

section \<open>The bounded message queue, as an interface\<close>

text \<open>
  The calls with no waiting, as a client sees them: accepted or not, and the message if any.
\<close>

definition mq_try_send ::
    "byte list \<Rightarrow> u32 \<Rightarrow> rt_messagequeue \<times> rt_kernel \<Rightarrow> bool \<times> rt_messagequeue \<times> rt_kernel" where
  "mq_try_send buf sz st =
    (case st of (q, k) \<Rightarrow>
       (case rt_mq_send_wait buf sz 0 q k of
          (out, q', k') \<Rightarrow> (out = Returned RT_EOK, q', k')))"

definition mq_try_recv ::
    "u32 \<Rightarrow> rt_messagequeue \<times> rt_kernel \<Rightarrow> byte list option \<times> rt_messagequeue \<times> rt_kernel" where
  "mq_try_recv sz st =
    (case st of (q, k) \<Rightarrow>
       (case rt_mq_recv sz 0 q k of
          (out, d, q', k') \<Rightarrow>
            (if (\<exists>n. out = Returned n \<and> 0 \<le> n) then Some d else None, q', k')))"

fun send_each :: "(byte list \<Rightarrow> 's \<Rightarrow> bool \<times> 's) \<Rightarrow> byte list list \<Rightarrow> 's \<Rightarrow> bool \<times> 's" where
  "send_each f [] s = (True, s)"
| "send_each f (m # ms) s =
    (case f m s of (ok, s1) \<Rightarrow> (case send_each f ms s1 of (ok', s2) \<Rightarrow> (ok \<and> ok', s2)))"

fun recv_each :: "('s \<Rightarrow> byte list option \<times> 's) \<Rightarrow> nat \<Rightarrow> 's \<Rightarrow> byte list list \<times> 's" where
  "recv_each f 0 s = ([], s)"
| "recv_each f (Suc n) s =
    (case f s of
       (None, s1) \<Rightarrow> ([], s1)
     | (Some m, s1) \<Rightarrow> (case recv_each f n s1 of (ms, s2) \<Rightarrow> (m # ms, s2)))"

locale msg_queue =
  fixes inv :: "'s \<Rightarrow> bool" and msgs :: "'s \<Rightarrow> byte list list" and cap :: "'s \<Rightarrow> nat"
    and msz :: "'s \<Rightarrow> nat"
    and send :: "byte list \<Rightarrow> u32 \<Rightarrow> 's \<Rightarrow> bool \<times> 's" and recv :: "u32 \<Rightarrow> 's \<Rightarrow> byte list option \<times> 's"
  assumes bounded: "inv s \<Longrightarrow> length (msgs s) \<le> cap s"
    and send_law: "inv s \<Longrightarrow> sz \<noteq> 0 \<Longrightarrow> unat sz \<le> msz s \<Longrightarrow> unat sz \<le> length buf \<Longrightarrow>
      send buf sz s = (ok, s') \<Longrightarrow>
      inv s' \<and> cap s' = cap s \<and> msz s' = msz s \<and> ok = (length (msgs s) < cap s) \<and>
      msgs s' = (if ok then msgs s @ [take (unat sz) buf] else msgs s)"
    and recv_law: "inv s \<Longrightarrow> sz \<noteq> 0 \<Longrightarrow> recv sz s = (r, s') \<Longrightarrow>
      inv s' \<and> cap s' = cap s \<and> msz s' = msz s \<and>
      r = (case msgs s of [] \<Rightarrow> None | m # _ \<Rightarrow> Some (take (unat sz) m)) \<and>
      msgs s' = tl (msgs s)"
begin

lemma send_each_fits:
  assumes "inv s" "sz \<noteq> 0" "unat sz \<le> msz s" "\<forall>m\<in>set ms. length m = unat sz"
    and "length (msgs s) + length ms \<le> cap s" "send_each (\<lambda>m. send m sz) ms s = (ok, s')"
  shows "ok \<and> inv s' \<and> cap s' = cap s \<and> msz s' = msz s \<and> msgs s' = msgs s @ ms"
  using assms
proof (induction ms arbitrary: s ok s')
  case (Cons m ms)
  obtain ok1 s1 where 1: "send m sz s = (ok1, s1)" by (cases "send m sz s")
  obtain ok2 s2 where 2: "send_each (\<lambda>m. send m sz) ms s1 = (ok2, s2)"
    by (cases "send_each (\<lambda>m. send m sz) ms s1")
  have "unat sz \<le> length m" using Cons.prems(4) by simp
  note law = send_law [OF Cons.prems(1-3) this 1]
  moreover have "ok2 \<and> inv s2 \<and> cap s2 = cap s1 \<and> msz s2 = msz s1 \<and> msgs s2 = msgs s1 @ ms"
    using law Cons.prems by (intro Cons.IH [OF _ _ _ _ _ 2]) auto
  ultimately show ?case using 1 2 Cons.prems by auto
qed auto

lemma recv_each_all:
  assumes "inv s" "sz \<noteq> 0" "length (msgs s) \<le> n" "recv_each (recv sz) n s = (ms, s')"
  shows "ms = map (take (unat sz)) (msgs s) \<and> inv s' \<and> cap s' = cap s \<and> msz s' = msz s \<and> msgs s' = []"
  using assms
proof (induction n arbitrary: s ms s')
  case (Suc n)
  obtain r s1 where 1: "recv sz s = (r, s1)" by (cases "recv sz s")
  note law = recv_law [OF Suc.prems(1,2) 1]
  show ?case
  proof (cases "msgs s")
    case Nil
    with law 1 Suc.prems(4) show ?thesis by auto
  next
    case (Cons m rest)
    obtain ms2 s2 where 2: "recv_each (recv sz) n s1 = (ms2, s2)" by (cases "recv_each (recv sz) n s1")
    have "ms2 = map (take (unat sz)) (msgs s1) \<and> inv s2 \<and> cap s2 = cap s1 \<and> msz s2 = msz s1 \<and>
        msgs s2 = []"
      using law Cons Suc.prems by (intro Suc.IH [OF _ _ _ 2]) auto
    with law 1 2 Cons Suc.prems(4) show ?thesis by auto
  qed
qed auto

text \<open>First in, first out: what was queued comes out in order, followed by what was sent.\<close>

lemma send_recv_order:
  assumes "inv s" "sz \<noteq> 0" "unat sz \<le> msz s" "\<forall>m\<in>set ms. length m = unat sz"
    and "length (msgs s) + length ms \<le> n" "n \<le> cap s"
    and "send_each (\<lambda>m. send m sz) ms s = (ok, s1)" "recv_each (recv sz) n s1 = (out, s2)"
  shows "ok" and "out = map (take (unat sz)) (msgs s) @ ms" and "msgs s2 = []" and "inv s2"
proof -
  have fits: "length (msgs s) + length ms \<le> cap s" using assms(5,6) by simp
  note sent = send_each_fits [OF assms(1-4) fits assms(7)]
  have "map (take (unat sz)) ms = ms" using assms(4) by (auto intro: map_idI)
  then show "ok" "out = map (take (unat sz)) (msgs s) @ ms" "msgs s2 = []" "inv s2"
    using sent recv_each_all [of s1 sz n out s2] assms(2,5,8) by auto
qed

text \<open>A full queue refuses, and forgets nothing.\<close>

lemma send_refused:
  assumes "inv s" "sz \<noteq> 0" "unat sz \<le> msz s" "unat sz \<le> length buf"
    and "length (msgs s) = cap s" "send buf sz s = (ok, s')"
  shows "\<not> ok" and "msgs s' = msgs s"
  using send_law [OF assms(1-4,6)] assms(5) by auto

end

interpretation ipc: msg_queue "\<lambda>st. mq_inv (fst st)" "\<lambda>st. mq_messages (fst st)"
  "\<lambda>st. unat (max_msgs (fst st))" "\<lambda>st. unat (msg_size (fst st))" mq_try_send mq_try_recv
proof unfold_locales
  fix st :: "rt_messagequeue \<times> rt_kernel" assume inv: "mq_inv (fst st)"
  show "length (mq_messages (fst st)) \<le> unat (max_msgs (fst st))"
    using inv by (rule mq_inv_cases) simp
  fix sz :: u32 and buf ok st'
  assume sz: "sz \<noteq> 0" "unat sz \<le> unat (msg_size (fst st))" "unat sz \<le> length buf"
    and send: "mq_try_send buf sz st = (ok, st')"
  have le: "sz \<le> ucast (msg_size (fst st))" using sz(2) by (simp add: word_le_nat_alt unat_u16_u32)
  obtain out q' k' where call: "rt_mq_send_wait buf sz 0 (fst st) (snd st) = (out, q', k')"
    by (cases "rt_mq_send_wait buf sz 0 (fst st) (snd st)")
  then have "ok = (out = Returned RT_EOK)" "st' = (q', k')"
    using send by (auto simp: mq_try_send_def split: prod.splits)
  with mq_send_wait_nonblocking [OF inv sz(1) le sz(3) call]
  show "mq_inv (fst st') \<and> unat (max_msgs (fst st')) = unat (max_msgs (fst st)) \<and>
      unat (msg_size (fst st')) = unat (msg_size (fst st)) \<and>
      ok = (length (mq_messages (fst st)) < unat (max_msgs (fst st))) \<and>
      mq_messages (fst st') =
        (if ok then mq_messages (fst st) @ [take (unat sz) buf] else mq_messages (fst st))"
    by (auto simp: error_codes)
next
  fix st :: "rt_messagequeue \<times> rt_kernel" and sz :: u32 and r st'
  assume inv: "mq_inv (fst st)" and sz: "sz \<noteq> 0" and recv: "mq_try_recv sz st = (r, st')"
  obtain out d q' k' where call: "rt_mq_recv sz 0 (fst st) (snd st) = (out, d, q', k')"
    by (cases "rt_mq_recv sz 0 (fst st) (snd st)")
  then have r: "r = (if (\<exists>n. out = Returned n \<and> 0 \<le> n) then Some d else None)" "st' = (q', k')"
    using recv by (auto simp: mq_try_recv_def split: prod.splits)
  note c = mq_recv_nonblocking [OF inv sz call]
  show "mq_inv (fst st') \<and> unat (max_msgs (fst st')) = unat (max_msgs (fst st)) \<and>
      unat (msg_size (fst st')) = unat (msg_size (fst st)) \<and>
      r = (case mq_messages (fst st) of [] \<Rightarrow> None | m # _ \<Rightarrow> Some (take (unat sz) m)) \<and>
      mq_messages (fst st') = tl (mq_messages (fst st))"
    using c by (cases "mq_messages (fst st)") (auto simp: r error_codes)
qed

section \<open>Properties\<close>

definition mq_pool_fits :: "(nat \<Rightarrow> rt_mq_message) \<Rightarrow> u32 \<Rightarrow> u32 \<Rightarrow> bool" where
  "mq_pool_fits pool sz n \<longleftrightarrow> (\<forall>i<unat n. unat sz \<le> length (mq_bytes (pool i)))"

lemma unat_ucast_u16 [word_nat]: "unat (x :: u32) < 65536 \<Longrightarrow> unat (ucast x :: u16) = unat x"
  by (simp add: unsigned_ucast_eq unsigned_take_bit_eq take_bit_nat_eq_self)

lemma mq_created:
  assumes "rt_mq_create True (\<lambda>_. Some pool) sz n flag = Some q"
    and "unat sz < 65536" "unat n < 65536" "mq_pool_fits pool sz n"
  shows "mq_inv q" and "mq_wf q [] (rev [0..<unat n]) []" and "mq_messages q = []"
    and "unat (max_msgs q) = unat n" and "unat (msg_size q) = unat sz"
proof -
  have q: "q = mq_empty pool (ucast sz) (ucast n) flag"
    using assms(1) by (simp add: rt_mq_create_def Let_def)
  have fit: "\<forall>i<unat (ucast n :: u16). unat (ucast sz :: u16) \<le> length (mq_bytes (pool i))"
    using assms(2-4) by (simp add: mq_pool_fits_def unat_ucast_u16)
  show "mq_inv q" "mq_messages q = []" "unat (max_msgs q) = unat n" "unat (msg_size q) = unat sz"
    using mq_empty_inv [OF fit, of flag] assms(2,3) by (simp_all add: q unat_ucast_u16)
  show "mq_wf q [] (rev [0..<unat n]) []"
    using mq_empty_wf [OF fit, of flag] assms(3) by (simp add: q unat_ucast_u16)
qed

text \<open>
  A fresh queue that is filled and then drained without waiting, by the laws of the interface.
\<close>

lemma mq_fill_and_drain:
  assumes "rt_mq_create True (\<lambda>_. Some pool) sz n flag = Some q"
    and "sz \<noteq> 0" "unat sz < 65536" "unat n < 65536" "mq_pool_fits pool sz n"
    and "\<forall>m\<in>set ms. length m = unat sz" "length ms \<le> unat n"
    and "send_each (\<lambda>m. mq_try_send m sz) ms (q, k) = (ok, s1)"
    and "recv_each (mq_try_recv sz) (unat n) s1 = (out, s2)"
  shows "ok \<and> out = ms \<and> mq_messages (fst s2) = []"
proof -
  note c = mq_created [OF assms(1,3,4,5)]
  have "mq_inv (fst (q, k))" and "unat sz \<le> unat (msg_size (fst (q, k)))"
    and "length (mq_messages (fst (q, k))) + length ms \<le> unat n"
    and "unat n \<le> unat (max_msgs (fst (q, k)))"
    using c assms(7) by simp_all
  from ipc.send_recv_order [OF this(1) assms(2) this(2) assms(6) this(3,4) assms(8,9)] c(3)
  show ?thesis by simp
qed

text \<open>
  Calls one after another, each in any state of the kernel (the threads that wait run, time out
  or are woken in between) and with any wait lists: sends and receives of every kind (with any
  timeout, also 0), and the parts of waiting sends and receives that run when their thread is
  resumed.  Of each call that hands over a message the log keeps the message, of each call that
  hands one out the size of the caller's buffer, the returned value and the bytes.
\<close>

definition mq_note_sent ::
    "ipc_outcome \<Rightarrow> byte list \<Rightarrow> u32 \<Rightarrow> byte list list \<Rightarrow> byte list list" where
  "mq_note_sent out buf sz sent =
    (if out = Returned RT_EOK then sent @ [take (unat sz) buf] else sent)"

definition mq_note_got ::
    "ipc_outcome \<Rightarrow> u32 \<Rightarrow> byte list \<Rightarrow> (u32 \<times> ipc_outcome \<times> byte list) list \<Rightarrow>
      (u32 \<times> ipc_outcome \<times> byte list) list" where
  "mq_note_got out sz d got = (if d = [] then got else got @ [(sz, out, d)])"

inductive mq_run ::
    "rt_messagequeue \<Rightarrow> rt_messagequeue \<Rightarrow> byte list list \<Rightarrow> (u32 \<times> ipc_outcome \<times> byte list) list \<Rightarrow> bool"
  for q0 where
  mq_run_start: "mq_run q0 q0 [] []"
| mq_run_send: "mq_run q0 q sent got \<Longrightarrow> unat sz \<le> length buf \<Longrightarrow>
    rt_mq_send_wait_main buf sz timeout sf q k = (out, q', k') \<Longrightarrow>
    mq_run q0 q' (mq_note_sent out buf sz sent) got"
| mq_run_send_resumed: "mq_run q0 q sent got \<Longrightarrow> unat sz \<le> length buf \<Longrightarrow> sz \<noteq> 0 \<Longrightarrow>
    sz \<le> ucast (msg_size q) \<Longrightarrow> mq_send_resumed elapsed buf sz timeout sf q k = (out, q', k') \<Longrightarrow>
    mq_run q0 q' (mq_note_sent out buf sz sent) got"
| mq_run_recv: "mq_run q0 q sent got \<Longrightarrow>
    rt_mq_recv_main sz timeout sf q k = (out, d, q', k') \<Longrightarrow>
    mq_run q0 q' sent (mq_note_got out sz d got)"
| mq_run_recv_resumed: "mq_run q0 q sent got \<Longrightarrow> sz \<noteq> 0 \<Longrightarrow>
    mq_recv_resumed elapsed sz timeout sf q k = (out, d, q', k') \<Longrightarrow>
    mq_run q0 q' sent (mq_note_got out sz d got)"
| mq_run_waiters: "mq_run q0 q sent got \<Longrightarrow>
    mq_run q0 (q\<lparr>mq_senders := ws, mq_receivers := ws'\<rparr>) sent got"

definition mq_got_ok :: "u32 \<times> ipc_outcome \<times> byte list \<Rightarrow> byte list \<Rightarrow> bool" where
  "mq_got_ok g m = (case g of (sz, out, d) \<Rightarrow>
     d = take (unat sz) m \<and> d \<noteq> [] \<and> out = Returned (int (length d)))"

text \<open>The queue as a bounded list: what each call does to it.\<close>

definition mq_same :: "rt_messagequeue \<Rightarrow> rt_messagequeue \<Rightarrow> bool" where
  "mq_same q' q \<longleftrightarrow> mq_inv q' \<and> max_msgs q' = max_msgs q \<and> msg_size q' = msg_size q"

lemma mq_waiters_same: "mq_inv q \<Longrightarrow> mq_same (q\<lparr>mq_senders := ws, mq_receivers := ws'\<rparr>) q"
  "mq_inv q \<Longrightarrow> mq_same (q\<lparr>mq_senders := ws\<rparr>) q" "mq_inv q \<Longrightarrow> mq_same (q\<lparr>mq_receivers := ws\<rparr>) q"
  by (simp_all add: mq_same_def mq_inv_iff mq_wf_def)

lemma mq_waiters_messages:
  "mq_messages (q\<lparr>mq_senders := ws, mq_receivers := ws'\<rparr>) = mq_messages q"
  "mq_messages (q\<lparr>mq_senders := ws\<rparr>) = mq_messages q" "mq_messages (q\<lparr>mq_receivers := ws\<rparr>) = mq_messages q"
  by (simp_all add: mq_messages_def)

lemma mq_suspend_not_ok: "fst (mq_suspend timeout sf ws flag k) \<noteq> Returned RT_EOK"
  by (auto simp: mq_suspend_def Let_def split: prod.splits)

lemma mq_send_loop_effect:
  assumes inv: "mq_inv q" and sz: "sz \<le> ucast (msg_size q)" "unat sz \<le> length buf"
    and send: "mq_send_loop buf sz timeout sf q k = (out, q', k')"
  shows "(out = Returned RT_EOK) = (length (mq_messages q) < unat (max_msgs q)) \<and> mq_same q' q \<and>
    mq_messages q' =
      (if out = Returned RT_EOK then mq_messages q @ [take (unat sz) buf] else mq_messages q)"
proof -
  obtain qs fs where wf: "mq_wf q qs fs []" "mq_messages q = map (mq_payload (msg_pool q)) qs"
      "length qs + length fs = unat (max_msgs q)"
    using inv by (rule mq_inv_cases)
  show ?thesis
  proof (cases fs)
    case Nil
    then have "msg_queue_free q = None" using wf(1) by (simp add: mq_wf_def)
    then have "out \<noteq> Returned RT_EOK \<and> (q' = q \<or> (\<exists>ws. q' = q\<lparr>mq_senders := ws\<rparr>))"
      using send mq_suspend_not_ok [of timeout sf "mq_senders q" "mq_flag q" "mq_set_error (- RT_EINTR) k"]
      by (auto simp: mq_send_loop_def Let_def error_codes split: if_splits prod.splits)
    with Nil wf inv mq_waiters_same(2) [OF inv] mq_waiters_messages(2) [where q = q] show ?thesis
      by (auto simp: mq_same_def)
  next
    case (Cons m fs')
    obtain r q1 k1 where lk: "mq_link_tail m (mq_fill m buf sz (mq_take_free m q)) k = (r, q1, k1)"
      by (cases "mq_link_tail m (mq_fill m buf sz (mq_take_free m q)) k")
    note parts = mq_send_parts [OF wf(1) [unfolded Cons] sz lk]
    have "msg_queue_free q = Some m" using wf(1) Cons by (simp add: mq_wf_def)
    then have "(out, q', k') = (Returned r, q1, k1)" using send lk by (simp add: mq_send_loop_def)
    with parts wf Cons show ?thesis by (simp add: mq_same_def)
  qed
qed

lemma mq_recv_loop_effect:
  assumes inv: "mq_inv q" and recv: "mq_recv_loop sz timeout sf q k = (out, d, q', k')"
  shows "mq_same q' q \<and> mq_messages q' = tl (mq_messages q) \<and>
    d = (if mq_messages q = [] then [] else take (unat sz) (hd (mq_messages q))) \<and>
    (mq_messages q \<noteq> [] \<longrightarrow> out = Returned (int (length d)))"
proof (cases "entry q = 0")
  case True
  then have "mq_messages q = []" using mq_entry_zero [OF inv] by simp
  moreover have "d = [] \<and> (q' = q \<or> (\<exists>ws. q' = q\<lparr>mq_receivers := ws\<rparr>))"
    using recv True by (auto simp: mq_recv_loop_def Let_def split: if_splits prod.splits)
  ultimately show ?thesis
    using inv mq_waiters_same(3) [OF inv] mq_waiters_messages(3) [where q = q] by (auto simp: mq_same_def)
next
  case False
  from mq_recv_parts [OF inv False recv] show ?thesis by (simp add: mq_same_def)
qed

text \<open>No message is empty, so a receive that hands one out copies at least one byte.\<close>

definition mq_run_inv :: "rt_messagequeue \<Rightarrow> rt_messagequeue \<Rightarrow> byte list list \<Rightarrow>
    (u32 \<times> ipc_outcome \<times> byte list) list \<Rightarrow> bool" where
  "mq_run_inv q0 q sent got \<longleftrightarrow> mq_same q q0 \<and> [] \<notin> set sent \<and>
    (\<exists>taken. sent = taken @ mq_messages q \<and> list_all2 mq_got_ok got taken)"

lemma mq_run_inv_send:
  assumes "mq_run_inv q0 q sent got" "sz \<noteq> 0" "sz \<le> ucast (msg_size q)" "unat sz \<le> length buf"
    and "mq_send_loop buf sz timeout sf q k = (out, q', k')"
  shows "mq_run_inv q0 q' (mq_note_sent out buf sz sent) got"
proof -
  have inv: "mq_inv q" using assms(1) by (simp add: mq_run_inv_def mq_same_def)
  have "take (unat sz) buf \<noteq> []" using assms(2,4) by (auto simp: word_unat_eq_iff)
  with assms(1) mq_send_loop_effect [OF inv assms(3-5)] show ?thesis
    by (auto simp: mq_run_inv_def mq_note_sent_def mq_same_def)
qed

lemma mq_run_inv_recv:
  assumes "mq_run_inv q0 q sent got" "sz \<noteq> 0" "mq_recv_loop sz timeout sf q k = (out, d, q', k')"
  shows "mq_run_inv q0 q' sent (mq_note_got out sz d got)"
proof -
  have inv: "mq_inv q" and same: "mq_same q q0" using assms(1) by (simp_all add: mq_run_inv_def mq_same_def)
  obtain taken where sent: "sent = taken @ mq_messages q" "list_all2 mq_got_ok got taken" "[] \<notin> set sent"
    using assms(1) by (auto simp: mq_run_inv_def)
  note e = mq_recv_loop_effect [OF inv assms(3)]
  have same': "mq_same q' q0" using e same by (simp add: mq_same_def)
  show ?thesis
  proof (cases "mq_messages q")
    case Nil
    with e same' sent show ?thesis by (simp add: mq_run_inv_def mq_note_got_def)
  next
    case (Cons m ms)
    then have "m \<noteq> []" using sent(1,3) by auto
    then have "take (unat sz) m \<noteq> []" using assms(2) by (auto simp: word_unat_eq_iff)
    then have "d \<noteq> []" "mq_got_ok (sz, out, d) m" using e Cons by (simp_all add: mq_got_ok_def)
    then have "list_all2 mq_got_ok (got @ [(sz, out, d)]) (taken @ [m])" "sent = (taken @ [m]) @ mq_messages q'"
      using sent e Cons by (simp_all add: list_all2_appendI)
    with same' sent(3) \<open>d \<noteq> []\<close> show ?thesis unfolding mq_run_inv_def mq_note_got_def
      by (simp only: if_False) blast
  qed
qed

lemma mq_run_inv_idle:
  "mq_run_inv q0 q sent got \<Longrightarrow> out \<noteq> Returned RT_EOK \<Longrightarrow> mq_run_inv q0 q (mq_note_sent out buf sz sent) got"
  "mq_run_inv q0 q sent got \<Longrightarrow> mq_run_inv q0 q sent (mq_note_got out sz [] got)"
  by (simp_all add: mq_note_sent_def mq_note_got_def)

lemma mq_run_invariant:
  assumes "mq_run q0 q sent got" "mq_inv q0" "mq_messages q0 = []"
  shows "mq_run_inv q0 q sent got"
  using assms(1)
proof (induction rule: mq_run.induct)
  case mq_run_start
  then show ?case using assms(2,3) by (simp add: mq_run_inv_def mq_same_def)
next
  case (mq_run_send q sent got sz buf timeout sf k out q' k')
  show ?case
  proof (cases "sz = 0 \<or> sz > ucast (msg_size q) \<or> msg_queue_free q = None \<and> timeout = 0")
    case True
    then have "out \<noteq> Returned RT_EOK" "q' = q"
      using mq_run_send(3) by (auto simp: rt_mq_send_wait_main_def error_codes split: if_splits)
    with mq_run_send.IH mq_run_inv_idle(1) show ?thesis by simp
  next
    case False
    with mq_run_send(3) have "mq_send_loop buf sz timeout sf q k = (out, q', k')"
      by (auto simp: rt_mq_send_wait_main_def)
    from mq_run_inv_send [OF mq_run_send.IH _ _ mq_run_send(2) this] False show ?thesis
      by (simp add: not_less)
  qed
next
  case (mq_run_send_resumed q sent got sz buf elapsed timeout sf k out q' k')
  show ?case
  proof (cases "thread_error (threads k (rt_current_thread k)) = RT_EOK")
    case True
    with mq_run_send_resumed(5)
    have "mq_send_loop buf sz (mq_rest_timeout timeout elapsed) sf q k = (out, q', k')"
      by (simp add: mq_send_resumed_def)
    from mq_run_inv_send [OF mq_run_send_resumed.IH mq_run_send_resumed(3,4,2) this] show ?thesis .
  next
    case False
    with mq_run_send_resumed(5) have "out \<noteq> Returned RT_EOK" "q' = q"
      by (auto simp: mq_send_resumed_def Let_def)
    with mq_run_send_resumed.IH mq_run_inv_idle(1) show ?thesis by simp
  qed
next
  case (mq_run_recv q sent got sz timeout sf k out d q' k')
  show ?case
  proof (cases "sz = 0 \<or> entry q = 0 \<and> timeout = 0")
    case True
    then have "d = []" "q' = q" using mq_run_recv(2) by (auto simp: rt_mq_recv_main_def split: if_splits)
    with mq_run_recv.IH mq_run_inv_idle(2) show ?thesis by simp
  next
    case False
    with mq_run_recv(2) have "mq_recv_loop sz timeout sf q k = (out, d, q', k')"
      by (auto simp: rt_mq_recv_main_def)
    from mq_run_inv_recv [OF mq_run_recv.IH _ this] False show ?thesis by simp
  qed
next
  case (mq_run_recv_resumed q sent got sz elapsed timeout sf k out d q' k')
  show ?case
  proof (cases "thread_error (threads k (rt_current_thread k)) = RT_EOK")
    case True
    with mq_run_recv_resumed(3)
    have "mq_recv_loop sz (mq_rest_timeout timeout elapsed) sf q k = (out, d, q', k')"
      by (simp add: mq_recv_resumed_def)
    from mq_run_inv_recv [OF mq_run_recv_resumed.IH mq_run_recv_resumed(2) this] show ?thesis .
  next
    case False
    with mq_run_recv_resumed(3) have "d = []" "q' = q" by (auto simp: mq_recv_resumed_def Let_def)
    with mq_run_recv_resumed.IH mq_run_inv_idle(2) show ?thesis by simp
  qed
next
  case (mq_run_waiters q sent got ws ws')
  then have "mq_inv q" by (simp add: mq_run_inv_def mq_same_def)
  from mq_waiters_same(1) [OF this, of ws ws'] mq_run_waiters.IH show ?case
    by (simp add: mq_run_inv_def mq_same_def mq_waiters_messages)
qed

text \<open>C8
  A queue from rt_mq_create (message size and count within the 16-bit fields, a pool with room for
  them) delivers what it accepts, through every sequence of sends and receives with any timeouts, one call after
  another, waiting calls resumed later included (no rt_mq_urgent, RESET, detach or delete, and no
  other call inside one): the messages that sends have accepted are, byte for byte and in
  order, those that receives have handed out (each cut to the receiver's buffer, its length
  returned) followed by those still queued, at most max_msgs; and after every such sequence a
  send of a message that fits is accepted exactly when the queue is not full, and a receive hands
  out a message exactly when the queue is not empty.
\<close>

theorem mq_delivers_in_order:
  assumes "rt_mq_create True (\<lambda>_. Some pool) sz n flag = Some q0"
    and "unat sz < 65536" "unat n < 65536" "mq_pool_fits pool sz n"
    and "mq_run q0 q sent got"
  shows "(\<exists>taken. sent = taken @ mq_messages q \<and> list_all2 mq_got_ok got taken) \<and>
    length (mq_messages q) \<le> unat n \<and>
    (\<forall>buf s t sf k. s \<noteq> 0 \<and> unat s \<le> unat sz \<and> unat s \<le> length buf \<longrightarrow>
      (fst (rt_mq_send_wait_main buf s t sf q k) = Returned RT_EOK) = (length (mq_messages q) < unat n)) \<and>
    (\<forall>s t sf k. s \<noteq> 0 \<longrightarrow>
      (fst (snd (rt_mq_recv_main s t sf q k)) \<noteq> []) = (mq_messages q \<noteq> []))"
proof -
  note c = mq_created [OF assms(1-4)]
  have r: "mq_run_inv q0 q sent got" by (rule mq_run_invariant [OF assms(5) c(1,3)])
  then have inv: "mq_inv q" and sizes: "unat (max_msgs q) = unat n" "unat (msg_size q) = unat sz"
    using c by (simp_all add: mq_run_inv_def mq_same_def)
  obtain taken where t: "sent = taken @ mq_messages q" "list_all2 mq_got_ok got taken" "[] \<notin> set sent"
    using r by (auto simp: mq_run_inv_def)
  have "length (mq_messages q) \<le> unat n" using inv sizes(1) by (auto elim: mq_inv_cases)
  moreover have "(fst (rt_mq_send_wait_main buf s t sf q k) = Returned RT_EOK) =
      (length (mq_messages q) < unat n)"
    if s: "s \<noteq> 0" "unat s \<le> unat sz" "unat s \<le> length buf" for buf s t sf k
  proof -
    have le: "s \<le> ucast (msg_size q)" using s(2) sizes(2) by (simp add: word_le_nat_alt unat_u16_u32)
    obtain out q1 k1 where l: "mq_send_loop buf s t sf q k = (out, q1, k1)"
      by (cases "mq_send_loop buf s t sf q k")
    show ?thesis
      using mq_send_loop_effect [OF inv le s(3) l] l s(1) le mq_inv_full [OF inv] sizes(1)
      by (auto simp: rt_mq_send_wait_main_def error_codes not_less [symmetric])
  qed
  moreover have "(fst (snd (rt_mq_recv_main s t sf q k)) \<noteq> []) = (mq_messages q \<noteq> [])"
    if s: "s \<noteq> 0" for s t sf k
  proof -
    obtain out d q1 k1 where l: "mq_recv_loop s t sf q k = (out, d, q1, k1)"
      by (cases "mq_recv_loop s t sf q k")
    have "take (unat s) (hd (mq_messages q)) \<noteq> []" if "mq_messages q \<noteq> []"
      using that t(1,3) s by (cases "mq_messages q") (auto simp: word_unat_eq_iff)
    then show ?thesis
      using mq_recv_loop_effect [OF inv l] l s mq_entry_zero [OF inv]
      by (auto simp: rt_mq_recv_main_def)
  qed
  ultimately show ?thesis using t(1,2) by blast
qed

definition demo_pool :: "nat \<Rightarrow> rt_mq_message" where
  "demo_pool = (\<lambda>_. \<lparr>mq_next = None, mq_length = 0, mq_bytes = replicate 8 0\<rparr>)"

lemma unat_three: "unat (3 :: u32) = 3"
  by simp

lemma mq_delivers_in_order_witness:
  "\<exists>q0 q. rt_mq_create True (\<lambda>_. Some demo_pool) 2 3 RT_IPC_FLAG_PRIO = Some q0 \<and>
    mq_run q0 q [[1, 2]] [(1, Returned 1, [1])] \<and> mq_messages q = []"
proof -
  obtain q0 where q0: "rt_mq_create True (\<lambda>_. Some demo_pool) 2 3 RT_IPC_FLAG_PRIO = Some q0"
    by (simp add: rt_mq_create_def Let_def)
  have fit: "mq_pool_fits demo_pool 2 3" by (simp add: mq_pool_fits_def demo_pool_def)
  note c = mq_created [OF q0 _ _ fit, simplified]
  note fifo = mq_delivers_in_order [OF q0 _ _ fit, simplified]
  obtain out q1 k1 where s: "rt_mq_send_wait_main [1, 2] 2 5 RT_KILLABLE q0 two_threads = (out, q1, k1)"
    by (cases "rt_mq_send_wait_main [1, 2] 2 5 RT_KILLABLE q0 two_threads")
  have "(fst (rt_mq_send_wait_main [1, 2] 2 5 RT_KILLABLE q0 two_threads) = Returned RT_EOK) =
      (length (mq_messages q0) < 3)"
    using fifo [OF mq_run_start] by simp
  then have "out = Returned RT_EOK" using s c(3) by simp
  with mq_run_send [OF mq_run_start _ s] have 1: "mq_run q0 q1 [[1, 2]] []"
    by (simp add: mq_note_sent_def)
  obtain t1 where "[[1, 2]] = t1 @ mq_messages q1" "list_all2 mq_got_ok [] t1"
    using conjunct1 [OF fifo [OF 1]] by blast
  then have m: "mq_messages q1 = [[1, 2]]" by simp
  obtain o2 d q2 k2 where r: "rt_mq_recv_main 1 0 RT_KILLABLE q1 k1 = (o2, d, q2, k2)"
    by (cases "rt_mq_recv_main 1 0 RT_KILLABLE q1 k1")
  have "(fst (snd (rt_mq_recv_main 1 0 RT_KILLABLE q1 k1)) \<noteq> []) = (mq_messages q1 \<noteq> [])"
    using fifo [OF 1] by simp
  then have "d \<noteq> []" using r m by simp
  with mq_run_recv [OF 1 r] have 2: "mq_run q0 q2 [[1, 2]] [(1, o2, d)]" by (simp add: mq_note_got_def)
  then obtain taken where "[[1, 2]] = taken @ mq_messages q2" "list_all2 mq_got_ok [(1, o2, d)] taken"
    using conjunct1 [OF fifo [OF 2]] by blast
  then have "mq_messages q2 = []" "mq_got_ok (1, o2, d) [1, 2]"
    by (auto simp: list_all2_Cons1 Cons_eq_append_conv)
  with 2 q0 show ?thesis by (intro exI [of _ q0] exI [of _ q2]) (simp add: mq_got_ok_def)
qed

text \<open>C7
  The locked parts of concurrent sends, urgent sends and receives may interleave in any order.
  In every configuration they reach from a fresh queue, the queued nodes and the free nodes are
  two disjoint pointer chains that, with the nodes held by the calls in progress, make up the
  pool exactly; the tail pointer and the count agree with the chain of queued nodes; no link
  step takes the overflow branch (RT_MQ_ENTRY_MAX); and a positive count means a head.
\<close>

theorem mq_interleaving_safe:
  assumes "rt_mq_create True (\<lambda>_. Some pool) sz n flag = Some q"
    and "unat sz < 65536" "unat n < 65536" "mq_pool_fits pool sz n"
    and "mq_reach \<lparr>cfg_mq = q, cfg_kernel = k, cfg_taken = [], cfg_filled = [], cfg_urgent = [],
           cfg_out = []\<rparr> c"
  shows "(\<exists>qs fs. mq_wf (cfg_mq c) qs fs (mq_held c)) \<and>
    (\<forall>m\<in>set (cfg_filled c). fst (mq_link_tail m (cfg_mq c) (cfg_kernel c)) = RT_EOK) \<and>
    (\<forall>m\<in>set (cfg_urgent c). fst (mq_link_head m (cfg_mq c) (cfg_kernel c)) = RT_EOK) \<and>
    (entry (cfg_mq c) \<noteq> 0 \<longrightarrow> msg_queue_head (cfg_mq c) \<noteq> None)"
proof -
  have "mq_config_ok \<lparr>cfg_mq = q, cfg_kernel = k, cfg_taken = [], cfg_filled = [], cfg_urgent = [],
      cfg_out = []\<rparr>"
    using mq_created(2) [OF assms(1-4)] by (auto simp: mq_config_ok_def mq_held_def)
  then have ok: "mq_config_ok c" using mq_reach_ok [OF assms(5)] by simp
  then obtain qs fs where wf: "mq_wf (cfg_mq c) qs fs (mq_held c)" by (auto simp: mq_config_ok_def)
  have "fst (mq_link_tail m (cfg_mq c) (cfg_kernel c)) = RT_EOK" if m: "m \<in> set (cfg_filled c)" for m
  proof -
    obtain r q' k' where l: "mq_link_tail m (cfg_mq c) (cfg_kernel c) = (r, q', k')"
      by (cases "mq_link_tail m (cfg_mq c) (cfg_kernel c)")
    have "m \<in> set (mq_held c)" using m by (simp add: mq_held_def)
    from mq_wf_link_tail(1) [OF wf this _ _ l] ok m l show ?thesis
      by (simp add: mq_config_ok_def mq_fit_def)
  qed
  moreover have "fst (mq_link_head m (cfg_mq c) (cfg_kernel c)) = RT_EOK"
    if m: "m \<in> set (cfg_urgent c)" for m
  proof -
    obtain r q' k' where l: "mq_link_head m (cfg_mq c) (cfg_kernel c) = (r, q', k')"
      by (cases "mq_link_head m (cfg_mq c) (cfg_kernel c)")
    have "m \<in> set (mq_held c)" using m by (simp add: mq_held_def)
    from mq_wf_link_head(1) [OF wf this _ l] ok m l show ?thesis
      by (simp add: mq_config_ok_def mq_fit_def)
  qed
  moreover have "msg_queue_head (cfg_mq c) \<noteq> None" if "entry (cfg_mq c) \<noteq> 0"
    using wf that by (cases qs) (auto simp: mq_wf_def word_unat_eq_iff)
  ultimately show ?thesis using wf by blast
qed

text \<open>Two senders: the second takes its node before the first has filled its own.\<close>

lemma mq_interleaving_safe_witness:
  "\<exists>q (c :: mq_config). rt_mq_create True (\<lambda>_. Some demo_pool) 2 3 RT_IPC_FLAG_PRIO = Some q \<and>
    cfg_taken c = [1] \<and> cfg_filled c = [2] \<and>
    fst (mq_link_tail 2 (cfg_mq c) (cfg_kernel c)) = RT_EOK"
proof -
  obtain q where q: "rt_mq_create True (\<lambda>_. Some demo_pool) 2 3 RT_IPC_FLAG_PRIO = Some q"
    by (simp add: rt_mq_create_def Let_def)
  have fit: "mq_pool_fits demo_pool 2 3" by (simp add: mq_pool_fits_def demo_pool_def)
  let ?c0 = "\<lparr>cfg_mq = q, cfg_kernel = two_threads, cfg_taken = [], cfg_filled = [], cfg_urgent = [],
    cfg_out = []\<rparr>"
  let ?q1 = "mq_take_free 2 q"
  let ?c1 = "?c0\<lparr>cfg_mq := ?q1, cfg_taken := [2]\<rparr>"
  let ?c2 = "?c0\<lparr>cfg_mq := mq_take_free 1 ?q1, cfg_taken := [1, 2]\<rparr>"
  let ?c3 = "?c0\<lparr>cfg_mq := mq_fill 2 [7, 8] 2 (mq_take_free 1 ?q1), cfg_taken := [1],
    cfg_filled := [2]\<rparr>"
  have idx: "rev [0..<unat (3 :: u32)] = [2, 1, 0]" by code_simp
  have wf: "mq_wf q [] [2, 1, 0] []"
    using mq_created(2) [OF q _ _ fit] unfolding idx by simp
  have sz: "unat (msg_size q) = 2"
    using mq_created(5) [OF q _ _ fit] by simp
  note wf1 = mq_wf_take_free [OF wf]
  note wf2 = mq_wf_take_free [OF wf1(2)]
  have "mq_step ?c0 ?c1" using mq_step.take_free [of ?c0 2] wf1(1) by simp
  moreover have "mq_step ?c1 ?c2" using mq_step.take_free [of ?c1 1] wf2(1) by simp
  moreover have "mq_step ?c2 ?c3"
    using mq_step.fill [of 2 ?c2 2 "[7, 8]"] sz
    by (simp add: mq_take_free_def word_le_nat_alt unat_u16_u32)
  ultimately have "mq_reach ?c0 ?c3" by (blast intro: mq_reach.intros)
  then obtain c where c: "mq_reach ?c0 c" "cfg_taken c = [1]" "cfg_filled c = [2]"
    by (rule that) simp_all
  have "fst (mq_link_tail 2 (cfg_mq c) (cfg_kernel c)) = RT_EOK"
    using mq_interleaving_safe [OF q _ _ fit c(1)] c(3) by simp
  with q c(2,3) show ?thesis by blast
qed

lemma mq_recv_wakes_sender:
  assumes inv: "mq_inv q" and sz: "sz \<noteq> 0" and some: "mq_messages q \<noteq> []"
    and first: "mq_senders q = t # ts" and wk: "wakeable k t"
    and recv: "rt_mq_recv sz 0 q k = (out, d, q', k')"
  shows "k' = woken t RT_EOK k" and "mq_senders q' = ts"
proof -
  have e: "entry q \<noteq> 0" using some inv mq_entry_zero by blast
  obtain qs fs where wf: "mq_wf q qs fs []" using inv by (rule mq_inv_cases)
  with e obtain m where h: "msg_queue_head q = Some m"
    by (cases qs) (auto simp: mq_wf_def word_unat_eq_iff)
  obtain q2 k2 where put: "mq_put_free m (mq_unlink m q) k = (q2, k2)"
    by (cases "mq_put_free m (mq_unlink m q) k")
  have "q' = q2" "k' = k2"
    using recv sz e h put
    by (auto simp: rt_mq_recv_def rt_mq_recv_main_def mq_recv_loop_def Let_def)
  then show "k' = woken t RT_EOK k" "mq_senders q' = ts"
    using put first wk by (auto simp: mq_put_free_def mq_unlink_def Let_def)
qed

text \<open>
  A sender that blocked on a full queue is not starved by a receive: the receive hands the
  first blocked sender RT_EOK and a free node, and when that thread runs its call returns
  RT_EOK with its message at the end of the queue, behind the messages that were there.
\<close>

theorem mq_blocked_sender_delivers:
  assumes "mq_inv q" and "length (mq_messages q) = unat (max_msgs q)" and "0 < unat (max_msgs q)"
    and "mq_senders q = t # ts" and "wakeable k t" and "rsz \<noteq> 0"
    and "rt_mq_recv rsz 0 q k = (out, d, q1, k1)"
    and "sz \<le> ucast (msg_size q)" and "unat sz \<le> length buf"
    and "mq_send_resumed elapsed buf sz timeout sf q1 (k1\<lparr>rt_current_thread := t\<rparr>) = (out', q2, k2)"
  shows "out' = Returned RT_EOK \<and>
    mq_messages q2 = tl (mq_messages q) @ [take (unat sz) buf] \<and> mq_inv q2"
proof -
  have some: "mq_messages q \<noteq> []" using assms(2,3) by auto
  note r = mq_recv_nonblocking [OF assms(1,6,7)]
  have k1: "k1 = woken t RT_EOK k"
    using mq_recv_wakes_sender [OF assms(1,6) some assms(4,5,7)] by simp
  obtain qs fs where wf: "mq_wf q1 qs fs []" "mq_messages q1 = map (mq_payload (msg_pool q1)) qs"
      "length qs + length fs = unat (max_msgs q1)"
    using r(3) by (rule mq_inv_cases)
  have "length qs < unat (max_msgs q1)"
    using wf(2) r(4,6) assms(2,3) some by (auto simp: map_eq_conv dest: arg_cong [where f = length])
  with wf(3) obtain m fs' where fs: "fs = m # fs'" by (cases fs) auto
  then have free: "msg_queue_free q1 = Some m" using wf(1) by (simp add: mq_wf_def)
  let ?k = "k1\<lparr>rt_current_thread := t\<rparr>"
  obtain r2 q3 k3 where lk: "mq_link_tail m (mq_fill m buf sz (mq_take_free m q1)) ?k = (r2, q3, k3)"
    by (cases "mq_link_tail m (mq_fill m buf sz (mq_take_free m q1)) ?k")
  have "thread_error (threads ?k t) = RT_EOK" by (simp add: k1 woken_def RT_EOK_def)
  then have "(out', q2, k2) = (Returned r2, q3, k3)"
    using assms(10) free lk by (simp add: mq_send_resumed_def mq_send_loop_def)
  moreover have "sz \<le> ucast (msg_size q1)" using assms(8) r(5) by simp
  ultimately show ?thesis
    using mq_send_parts [OF wf(1) [unfolded fs] _ assms(9) lk] r(6) by simp
qed

lemma mq_one_message:
  assumes "mq_inv q" "mq_messages q = []" "unat (max_msgs q) = 1" "unat (msg_size q) = 2"
    "rt_mq_send_wait [5, 6] 2 0 q k = (out, q', k')"
  shows "mq_inv q'" "mq_messages q' = [[5, 6]]" "unat (max_msgs q') = 1" "msg_size q' = msg_size q"
proof -
  have "(2 :: u32) \<noteq> 0" "(2 :: u32) \<le> ucast (msg_size q)" "unat (2 :: u32) \<le> length [5 :: byte, 6]"
    using assms(4) by (simp_all add: word_le_nat_alt unat_u16_u32)
  from mq_send_wait_nonblocking [OF assms(1) this assms(5)]
  show "mq_inv q'" "mq_messages q' = [[5, 6]]" "unat (max_msgs q') = 1" "msg_size q' = msg_size q"
    using assms(2,3) by simp_all
qed

lemma mq_blocked_sender_delivers_witness:
  "\<exists>q q1 k1 d q2 k2. mq_messages q = [[5, 6]] \<and>
    rt_mq_recv 2 0 q (waiting_pair True) = (Returned 2, d, q1, k1) \<and>
    mq_send_resumed 0 [7, 8] 2 0xFFFFFFFF RT_UNINTERRUPTIBLE q1 (k1\<lparr>rt_current_thread := 2\<rparr>) =
      (Returned RT_EOK, q2, k2) \<and> mq_messages q2 = [[7, 8]]"
proof -
  have fit: "mq_pool_fits demo_pool 2 1" by (simp add: mq_pool_fits_def demo_pool_def)
  obtain q0 where q0: "rt_mq_create True (\<lambda>_. Some demo_pool) 2 1 RT_IPC_FLAG_PRIO = Some q0"
    by (simp add: rt_mq_create_def Let_def)
  have c: "mq_inv q0" "mq_messages q0 = []" "unat (max_msgs q0) = 1" "unat (msg_size q0) = 2"
    using mq_created [OF q0 _ _ fit] by simp_all
  obtain o1 q1 k1 where s: "rt_mq_send_wait [5, 6] 2 0 q0 (waiting_pair True) = (o1, q1, k1)"
    by (cases "rt_mq_send_wait [5, 6] 2 0 q0 (waiting_pair True)")
  note s1 = mq_one_message [OF c s]
  let ?q = "q1\<lparr>mq_senders := [2, 1]\<rparr>"
  have q: "mq_inv ?q" "mq_messages ?q = [[5, 6]]" "unat (max_msgs ?q) = 1" "unat (msg_size ?q) = 2"
    "mq_senders ?q = 2 # [1]"
    using s1 c(4) by (simp_all add: mq_inv_def mq_wf_def mq_messages_def)
  obtain out d q2 k2 where r: "rt_mq_recv 2 0 ?q (waiting_pair True) = (out, d, q2, k2)"
    by (cases "rt_mq_recv 2 0 ?q (waiting_pair True)")
  obtain out' q3 k3 where w: "mq_send_resumed 0 [7, 8] 2 0xFFFFFFFF RT_UNINTERRUPTIBLE q2
      (k2\<lparr>rt_current_thread := 2\<rparr>) = (out', q3, k3)"
    by (cases "mq_send_resumed 0 [7, 8] 2 0xFFFFFFFF RT_UNINTERRUPTIBLE q2 (k2\<lparr>rt_current_thread := 2\<rparr>)")
  have wk: "wakeable (waiting_pair True) 2"
    using waiting_pair_facts(2) by (simp add: waiting_sem_def)
  have full: "length (mq_messages ?q) = unat (max_msgs ?q)" "0 < unat (max_msgs ?q)"
    using q by simp_all
  have sz: "(2 :: u32) \<le> ucast (msg_size ?q)" "unat (2 :: u32) \<le> length [7 :: byte, 8]"
    using q(4) by (simp_all add: word_le_nat_alt unat_u16_u32)
  have two: "(2 :: u32) \<noteq> 0" by simp
  have "out' = Returned RT_EOK \<and> mq_messages q3 = tl (mq_messages ?q) @ [take (unat (2 :: u32)) [7, 8]] \<and> mq_inv q3"
    by (rule mq_blocked_sender_delivers [OF q(1) full q(5) wk two r sz w])
  moreover have "out = Returned 2"
    using mq_recv_nonblocking(1,2) [OF q(1) two r] q(2) by simp
  ultimately show ?thesis using q(2) r w by (intro exI conjI) auto
qed

end
