(* ===== verification/Usb_State.thy ===== *)
theory Usb_State
  imports Ring_Buffer Ipc_Mq
begin

text \<open>
  The state of applications/transports/usb/transport_usb.c (the struct \<open>usb_transport_t\<close>, the
  two static variables of rx_feed, and whether the OUT endpoint has a read armed) and the
  constants of firmware_config.h it uses.  The handles of queues and semaphores are the
  objects themselves; wlh_transport_start creates all of them before the USB stack can call
  back, so the tests for RT_NULL in the callbacks are always true.
\<close>

section \<open>Constants (firmware_config.h, transport_usb.c)\<close>

definition WLH_USB_EP_MPS :: u32 where "WLH_USB_EP_MPS = 512"
definition WLH_USB_OUT_CHUNK :: u32 where "WLH_USB_OUT_CHUNK = WLH_USB_EP_MPS"
definition WLH_WIRE_MAX_FRAME_SIZE :: u32 where "WLH_WIRE_MAX_FRAME_SIZE = 4096"
definition WLH_USB_RX_RING_SIZE :: u32 where "WLH_USB_RX_RING_SIZE = 8192"
definition WLH_USB_CONTROL_TX_QUEUE_DEPTH :: u32 where "WLH_USB_CONTROL_TX_QUEUE_DEPTH = 16"
definition WLH_USB_DATA_TX_QUEUE_DEPTH :: u32 where "WLH_USB_DATA_TX_QUEUE_DEPTH = 8"
definition WLH_USB_TX_TIMEOUT_MS :: u32 where "WLH_USB_TX_TIMEOUT_MS = 2000"

definition FRAME_HEADER_SIZE :: u32 where "FRAME_HEADER_SIZE = 24"
definition FRAME_MAGIC_BYTE0 :: byte where "FRAME_MAGIC_BYTE0 = 0x57"
definition FRAME_MAGIC_BYTE1 :: byte where "FRAME_MAGIC_BYTE1 = 0x4c"
definition FRAME_PROTOCOL_MAJOR :: byte where "FRAME_PROTOCOL_MAJOR = 1"
definition FRAME_FLAGS_MASK :: byte where "FRAME_FLAGS_MASK = 3"

lemmas usb_consts = WLH_USB_EP_MPS_def WLH_USB_OUT_CHUNK_def WLH_WIRE_MAX_FRAME_SIZE_def
  WLH_USB_RX_RING_SIZE_def FRAME_HEADER_SIZE_def

lemmas frame_consts = FRAME_HEADER_SIZE_def FRAME_MAGIC_BYTE0_def FRAME_MAGIC_BYTE1_def
  FRAME_PROTOCOL_MAJOR_def FRAME_FLAGS_MASK_def

text \<open>sizeof(transport.rx_frame): FRAME_HEADER_SIZE + WLH_WIRE_MAX_FRAME_SIZE.\<close>

definition sizeof_rx_frame :: u32 where
  "sizeof_rx_frame = FRAME_HEADER_SIZE + WLH_WIRE_MAX_FRAME_SIZE"

section \<open>State\<close>

text \<open>transport.h: the counters.  \<open>st_configured\<close> is only set in the copy get_stats returns.\<close>

record wlh_transport_stats =
  rx_bytes :: u32
  rx_overruns :: u32
  tx_frames :: u32
  tx_failures :: u32
  bus_resets :: u32
  st_configured :: u32
  rx_isr_packets :: u32
  rx_feed_frames :: u32
  rx_resync_bytes :: u32
  rx_pauses :: u32

text \<open>A transmit job: pointers are 32-bit addresses.\<close>

record tx_job =
  job_frame :: u32
  job_size :: u32
  job_completion :: u32
  job_context :: u32

record usb_transport =
  max_frame_size :: u32
  on_reset_set :: bool
  tx_control_queue :: rt_messagequeue
  tx_data_queue :: rt_messagequeue
  tx_done :: rt_semaphore
  tx_wakeup :: rt_semaphore
  rx_avail :: rt_semaphore
  configured_gate :: rt_semaphore
  rx_ring :: rt_ringbuffer
  stopping :: bool
  reset_pending :: bool
  configured :: bool
  out_paused :: bool
  initial_configuration_seen :: bool
  stats :: wlh_transport_stats
  rx_frame :: "byte list"
  rx_frame_length :: u32
  resync_active :: bool
  last_frame_size :: u32
  out_armed :: bool

abbreviation upd_stats :: "(wlh_transport_stats \<Rightarrow> wlh_transport_stats) \<Rightarrow> usb_transport \<Rightarrow> usb_transport" where
  "upd_stats f t \<equiv> t\<lparr>stats := f (stats t)\<rparr>"

definition zero_stats :: wlh_transport_stats where
  "zero_stats = \<lparr>rx_bytes = 0, rx_overruns = 0, tx_frames = 0, tx_failures = 0, bus_resets = 0,
     st_configured = 0, rx_isr_packets = 0, rx_feed_frames = 0, rx_resync_bytes = 0,
     rx_pauses = 0\<rparr>"

end
