(* ===== verification/Usb_Rx.thy ===== *)
theory Usb_Rx
  imports Usb_State "HOL-Library.Sublist"
begin

text \<open>
  The receive path of transport_usb.c: the OUT endpoint callback that fills the ring, the
  thread that drains it, and the reassembly of wire frames out of the byte stream
  (frame_header_plausible, rx_consume, rx_feed).  The core's wlh_coproc_on_frame is in a
  submodule that is not part of the sources: it is the parameter \<open>on_frame\<close>, a step of an
  arbitrary core state that says whether it returned WLH_COPROC_OK.

  The specification of the reassembly is \<open>scan\<close>, a function on the whole byte stream with no
  buffer and no chunks; the theory shows that the buffer code computes it, however the stream
  is cut into chunks, as long as frames are small enough for the buffer.
\<close>

section \<open>Frame headers\<close>

definition frame_header_plausible :: "byte list \<Rightarrow> bool" where
  "frame_header_plausible header \<longleftrightarrow>
    header ! 0 = FRAME_MAGIC_BYTE0 \<and> header ! 1 = FRAME_MAGIC_BYTE1 \<and>
    header ! 2 = FRAME_PROTOCOL_MAJOR \<and> ucast (header ! 3) = FRAME_HEADER_SIZE \<and>
    header ! 5 AND NOT FRAME_FLAGS_MASK = 0"

text \<open>FRAME_HEADER_SIZE + the 16-bit little-endian payload length at offset 6.\<close>

definition header_frame_size :: "byte list \<Rightarrow> u32" where
  "header_frame_size header =
    FRAME_HEADER_SIZE + ucast (header ! 6) + push_bit 8 (ucast (header ! 7))"

section \<open>The reassembly buffer\<close>

text \<open>
  memmove of the bytes from \<open>cnt\<close> on to the front.  \<open>None\<close> is an access beyond the array.
\<close>

definition rx_consume :: "u32 \<Rightarrow> usb_transport \<Rightarrow> usb_transport option" where
  "rx_consume cnt t =
    (let len = rx_frame_length t - cnt
     in if len \<noteq> 0
        then (if unat cnt + unat len \<le> length (rx_frame t)
              then Some (t\<lparr>rx_frame_length := len,
                           rx_frame := blit (rx_frame t) 0
                             (take (unat len) (drop (unat cnt) (rx_frame t)))\<rparr>)
              else None)
        else Some (t\<lparr>rx_frame_length := len\<rparr>))"

lemma rx_consume_length: "rx_consume cnt t = Some t' \<Longrightarrow> rx_frame_length t' = rx_frame_length t - cnt"
  by (auto simp: rx_consume_def Let_def split: if_splits)

lemma unat_header_frame_size:
  "unat (header_frame_size h) = 24 + unat (h ! 6) + 256 * unat (h ! 7)"
proof -
  have 6: "unat (h ! 6) < 256" and 7: "unat (h ! 7) < 256"
    using unsigned_less [of "h ! 6"] unsigned_less [of "h ! 7"] by simp_all
  have "unat (push_bit 8 (ucast (h ! 7)) :: u32) = 256 * unat (h ! 7)"
    using 7 by (simp add: push_bit_eq_mult unat_word_ariths unat_u8_u32)
  with 6 7 show ?thesis
    by (simp add: header_frame_size_def FRAME_HEADER_SIZE_def unat_word_ariths unat_u8_u32)
qed

lemma header_frame_size_pos: "1 \<le> header_frame_size h"
  by (simp add: word_le_nat_alt unat_header_frame_size)

lemma rx_consume_smaller:
  assumes "rx_consume n t = Some t'" "1 \<le> n" "n \<le> rx_frame_length t"
  shows "unat (rx_frame_length t') < unat (rx_frame_length t)"
  using assms rx_consume_length [OF assms(1)] by (simp add: unat_sub_u32 word_le_nat_alt)

text \<open>
  The loop of rx_feed.  It stops with less than a header, or with a plausible header whose
  frame is not complete yet.
\<close>

function rx_feed_loop ::
    "('c \<Rightarrow> byte list \<Rightarrow> 'c \<times> bool) \<Rightarrow> usb_transport \<Rightarrow> 'c \<Rightarrow> (usb_transport \<times> 'c) option" where
  "rx_feed_loop on_frame t c =
    (if rx_frame_length t < FRAME_HEADER_SIZE then Some (t, c)
     else if \<not> frame_header_plausible (rx_frame t) \<or>
             header_frame_size (rx_frame t) > max_frame_size t
     then
      (case rx_consume 1 (upd_stats (\<lambda>s. s\<lparr>rx_resync_bytes := rx_resync_bytes s + 1\<rparr>)
               (t\<lparr>resync_active := True\<rparr>)) of
         None \<Rightarrow> None
       | Some t' \<Rightarrow> rx_feed_loop on_frame t' c)
     else
      (let frame_size = header_frame_size (rx_frame t)
       in if rx_frame_length t < frame_size then Some (t, c)
          else
           (case on_frame c (take (unat frame_size) (rx_frame t)) of
              (c', ok) \<Rightarrow>
                (case rx_consume frame_size
                        (upd_stats (\<lambda>s. if ok then s\<lparr>rx_feed_frames := rx_feed_frames s + 1\<rparr> else s)
                          (t\<lparr>last_frame_size := frame_size, resync_active := False\<rparr>)) of
                   None \<Rightarrow> None
                 | Some t' \<Rightarrow> rx_feed_loop on_frame t' c'))))"
  by pat_completeness auto
termination
proof (relation "measure (\<lambda>(f, t, c). unat (rx_frame_length t))", goal_cases)
  case 2
  then show ?case
    by (auto dest!: rx_consume_smaller simp: not_less FRAME_HEADER_SIZE_def
        intro: order_trans [of 1 24])
next
  case 3
  then show ?case by (auto dest: rx_consume_smaller simp: not_less header_frame_size_pos)
qed simp

declare rx_feed_loop.simps [simp del]

definition rx_feed ::
    "('c \<Rightarrow> byte list \<Rightarrow> 'c \<times> bool) \<Rightarrow> byte list \<Rightarrow> u32 \<Rightarrow> usb_transport \<Rightarrow> 'c \<Rightarrow>
      (usb_transport \<times> 'c) option" where
  "rx_feed on_frame data sz t c =
    (if rx_frame_length t + sz > sizeof_rx_frame
     then Some ((upd_stats (\<lambda>s. s\<lparr>rx_resync_bytes := rx_resync_bytes s + rx_frame_length t\<rparr>) t)
                  \<lparr>rx_frame_length := 0\<rparr>, c)
     else if unat (rx_frame_length t) + unat sz \<le> length (rx_frame t)
     then rx_feed_loop on_frame
            (t\<lparr>rx_frame := blit (rx_frame t) (unat (rx_frame_length t)) (take (unat sz) data),
               rx_frame_length := rx_frame_length t + sz\<rparr>) c
     else None)"

section \<open>The specification: scanning the whole stream\<close>

text \<open>A frame header at the front of the bytes, with an acceptable length.\<close>

definition header_ok :: "nat \<Rightarrow> byte list \<Rightarrow> bool" where
  "header_ok mx bs \<longleftrightarrow> frame_header_plausible bs \<and> unat (header_frame_size bs) \<le> mx"

text \<open>The frames of the stream in order, the number of bytes skipped, and the rest.\<close>

function scan :: "nat \<Rightarrow> byte list \<Rightarrow> byte list list \<times> nat \<times> byte list" where
  "scan mx bs =
    (if length bs < 24 then ([], 0, bs)
     else if \<not> header_ok mx bs
     then (case scan mx (tl bs) of (fs, k, r) \<Rightarrow> (fs, Suc k, r))
     else if length bs < unat (header_frame_size bs) then ([], 0, bs)
     else (case scan mx (drop (unat (header_frame_size bs)) bs) of
             (fs, k, r) \<Rightarrow> (take (unat (header_frame_size bs)) bs # fs, k, r)))"
  by pat_completeness auto
termination
  by (relation "measure (\<lambda>(mx, bs). length bs)") (auto simp: unat_header_frame_size)

declare scan.simps [simp del]

text \<open>A header is decided by the first bytes, whatever follows them.\<close>

lemma header_take:
  assumes "8 \<le> n"
  shows "frame_header_plausible (take n bs) = frame_header_plausible bs"
    and "header_frame_size (take n bs) = header_frame_size bs"
  using assms by (simp_all add: frame_header_plausible_def header_frame_size_def)

lemma header_append:
  assumes "8 \<le> length a"
  shows "header_ok mx (a @ b) = header_ok mx a" and "header_frame_size (a @ b) = header_frame_size a"
  using assms header_take [of "length a" "a @ b"] by (simp_all add: header_ok_def)

lemma header_size_ge: "24 \<le> unat (header_frame_size bs)"
  by (simp add: unat_header_frame_size)

text \<open>Cutting the stream does not matter: the rest of the first part continues the second.\<close>

lemma scan_append:
  "scan mx a = (fs, k, r) \<Longrightarrow> scan mx (r @ b) = (fs', k', r') \<Longrightarrow>
    scan mx (a @ b) = (fs @ fs', k + k', r')"
proof (induction mx a arbitrary: fs k r rule: scan.induct)
  case (1 mx a)
  consider "length a < 24"
    | "24 \<le> length a" "\<not> header_ok mx a"
    | "24 \<le> length a" "header_ok mx a" "length a < unat (header_frame_size a)"
    | "24 \<le> length a" "header_ok mx a" "unat (header_frame_size a) \<le> length a"
    by linarith
  then show ?case
  proof cases
    case 1
    with \<open>scan mx a = _\<close> \<open>scan mx (r @ b) = _\<close> show ?thesis by (simp add: scan.simps [of mx a])
  next
    case 2
    obtain fs1 k1 r1 where t: "scan mx (tl a) = (fs1, k1, r1)" by (cases "scan mx (tl a)")
    with 2 \<open>scan mx a = _\<close> have r: "fs = fs1" "k = Suc k1" "r = r1"
      by (simp_all add: scan.simps [of mx a])
    have "scan mx (tl a @ b) = (fs1 @ fs', k1 + k', r')"
      using "1.IH"(1) 2 t \<open>scan mx (r @ b) = _\<close> r by simp
    moreover have "tl (a @ b) = tl a @ b" "\<not> header_ok mx (a @ b)"
      using 2 by (auto simp: header_append tl_append split: list.splits)
    ultimately show ?thesis using 2 r by (simp add: scan.simps [of mx "a @ b"])
  next
    case 3
    with \<open>scan mx a = _\<close> \<open>scan mx (r @ b) = _\<close> show ?thesis by (simp add: scan.simps [of mx a])
  next
    case 4
    let ?n = "unat (header_frame_size a)"
    obtain fs1 k1 r1 where t: "scan mx (drop ?n a) = (fs1, k1, r1)" by (cases "scan mx (drop ?n a)")
    with 4 \<open>scan mx a = _\<close> have r: "fs = take ?n a # fs1" "k = k1" "r = r1"
      by (simp_all add: scan.simps [of mx a])
    have "scan mx (drop ?n a @ b) = (fs1 @ fs', k1 + k', r')"
      using "1.IH"(2) 4 t \<open>scan mx (r @ b) = _\<close> r by simp
    moreover have "header_ok mx (a @ b)" "header_frame_size (a @ b) = header_frame_size a"
      using 4 by (simp_all add: header_append)
    ultimately show ?thesis using 4 r by (simp add: scan.simps [of mx "a @ b"])
  qed
qed

text \<open>What is left is shorter than a header, or an acceptable header with an incomplete frame.\<close>

definition scan_stuck :: "nat \<Rightarrow> byte list \<Rightarrow> bool" where
  "scan_stuck mx r \<longleftrightarrow> length r < 24 \<or> header_ok mx r \<and> length r < unat (header_frame_size r)"

lemma scan_rest: "scan mx a = (fs, k, r) \<Longrightarrow> scan_stuck mx r"
proof (induction mx a arbitrary: fs k r rule: scan.induct)
  case (1 mx a)
  then show ?case
    by (subst (asm) (3) scan.simps) (auto simp: scan_stuck_def split: if_splits prod.splits)
qed

lemma scan_stuck_length: "scan_stuck mx r \<Longrightarrow> length r < max 24 mx"
  by (auto simp: scan_stuck_def header_ok_def)

lemma scan_stuck_id: "scan_stuck mx r \<Longrightarrow> scan mx r = ([], 0, r)"
  by (subst scan.simps) (auto simp: scan_stuck_def)

text \<open>Every byte is delivered, skipped or kept.\<close>

lemma scan_conserves: "scan mx a = (fs, k, r) \<Longrightarrow> length (concat fs) + k + length r = length a"
proof (induction mx a arbitrary: fs k r rule: scan.induct)
  case (1 mx a)
  then show ?case
    by (subst (asm) (3) scan.simps) (fastforce split: if_splits prod.splits)
qed

text \<open>A well-formed frame is what the header says it is.\<close>

definition wire_frame :: "nat \<Rightarrow> byte list \<Rightarrow> bool" where
  "wire_frame mx f \<longleftrightarrow> 24 \<le> length f \<and> header_ok mx f \<and> length f = unat (header_frame_size f)"

lemma scan_frames_wire: "scan mx a = (fs, k, r) \<Longrightarrow> \<forall>f\<in>set fs. wire_frame mx f"
proof (induction mx a arbitrary: fs k r rule: scan.induct)
  case (1 mx a)
  let ?n = "unat (header_frame_size a)"
  have "wire_frame mx (take ?n a)" if "24 \<le> length a" "header_ok mx a" "\<not> length a < ?n"
    using that header_take [of ?n a] header_size_ge [of a]
    by (simp add: wire_frame_def header_ok_def)
  with 1 show ?case
    by (subst (asm) (3) scan.simps) (fastforce split: if_splits prod.splits)
qed

lemma scan_wire_frame:
  assumes "wire_frame mx f" "scan mx b = (fs, k, r)"
  shows "scan mx (f @ b) = (f # fs, k, r)"
  using assms by (subst scan.simps) (simp add: wire_frame_def header_append)

lemma scan_stream: "\<forall>f\<in>set fs. wire_frame mx f \<Longrightarrow> scan mx (concat fs) = (fs, 0, [])"
proof (induction fs)
  case Nil
  then show ?case by (subst scan.simps) simp
next
  case (Cons f fs)
  then show ?case by (simp add: scan_wire_frame)
qed

section \<open>The buffer code computes the scan\<close>

definition rx_wf :: "usb_transport \<Rightarrow> bool" where
  "rx_wf t \<longleftrightarrow> length (rx_frame t) = unat sizeof_rx_frame \<and>
    unat (rx_frame_length t) \<le> unat sizeof_rx_frame"

definition residual :: "usb_transport \<Rightarrow> byte list" where
  "residual t = take (unat (rx_frame_length t)) (rx_frame t)"

text \<open>The rest of the state, which reassembly does not touch.\<close>

definition rx_erase :: "usb_transport \<Rightarrow> usb_transport" where
  "rx_erase t = t\<lparr>stats := (stats t)\<lparr>rx_feed_frames := 0, rx_resync_bytes := 0\<rparr>, rx_frame := [],
     rx_frame_length := 0, resync_active := False, last_frame_size := 0\<rparr>"

lemma rx_erase_fields:
  assumes "rx_erase t' = rx_erase t"
  shows "max_frame_size t' = max_frame_size t" "rx_ring t' = rx_ring t" "out_paused t' = out_paused t"
    "out_armed t' = out_armed t" "stopping t' = stopping t" "rx_avail t' = rx_avail t"
    "configured t' = configured t" "reset_pending t' = reset_pending t"
    "rx_overruns (stats t') = rx_overruns (stats t)"
proof -
  have "f (rx_erase t') = f (rx_erase t)" for f :: "usb_transport \<Rightarrow> 'a" using assms by simp
  from this [of max_frame_size] this [of rx_ring] this [of out_paused] this [of out_armed]
    this [of stopping] this [of rx_avail] this [of configured] this [of reset_pending]
    this [of "\<lambda>t. rx_overruns (stats t)"]
  show "max_frame_size t' = max_frame_size t" "rx_ring t' = rx_ring t" "out_paused t' = out_paused t"
    "out_armed t' = out_armed t" "stopping t' = stopping t" "rx_avail t' = rx_avail t"
    "configured t' = configured t" "reset_pending t' = reset_pending t"
    "rx_overruns (stats t') = rx_overruns (stats t)"
    by (simp_all add: rx_erase_def)
qed

lemma sizeof_rx_frame_nat: "unat sizeof_rx_frame = 4120"
  by (simp add: sizeof_rx_frame_def usb_consts)

lemma length_residual [simp]: "rx_wf t \<Longrightarrow> length (residual t) = unat (rx_frame_length t)"
  by (simp add: residual_def rx_wf_def)

lemma rx_consume_spec:
  assumes wf: "rx_wf t" and n: "unat n \<le> unat (rx_frame_length t)"
  shows "\<exists>t'. rx_consume n t = Some t' \<and> rx_wf t' \<and> residual t' = drop (unat n) (residual t) \<and>
    stats t' = stats t \<and> rx_erase t' = rx_erase t"
proof -
  let ?len = "rx_frame_length t - n"
  have len: "unat ?len = unat (rx_frame_length t) - unat n" using n by (simp add: unat_sub_u32)
  have room: "unat n + unat ?len \<le> length (rx_frame t)" using wf len n by (simp add: rx_wf_def)
  have data: "take (unat ?len) (drop (unat n) (rx_frame t)) = drop (unat n) (residual t)"
    using len n by (simp add: residual_def drop_take)
  have dl: "length (drop (unat n) (residual t)) = unat ?len" using wf len by simp
  have b: "length (blit (rx_frame t) 0 (drop (unat n) (residual t))) = length (rx_frame t)"
    using room dl by (subst length_blit) auto
  show ?thesis
  proof (cases "?len = 0")
    case True
    then have "drop (unat n) (residual t) = []" using dl by (metis length_0_conv unat_0)
    with True wf show ?thesis
      by (simp add: rx_consume_def Let_def residual_def rx_wf_def rx_erase_def)
  next
    case False
    have "residual (t\<lparr>rx_frame_length := ?len, rx_frame := blit (rx_frame t) 0 (drop (unat n) (residual t))\<rparr>)
        = drop (unat n) (residual t)"
      unfolding residual_def [of "t\<lparr>rx_frame_length := _, rx_frame := _\<rparr>"] using dl
      by (simp add: blit_def)
    moreover have "rx_consume n t =
        Some (t\<lparr>rx_frame_length := ?len, rx_frame := blit (rx_frame t) 0 (drop (unat n) (residual t))\<rparr>)"
      using False room by (simp add: rx_consume_def Let_def data)
    moreover have "unat ?len \<le> unat sizeof_rx_frame"
      using wf unfolding rx_wf_def len by linarith
    ultimately show ?thesis using b wf by (auto simp: rx_wf_def rx_erase_def)
  qed
qed

lemma header_residual:
  assumes "rx_wf t" "\<not> rx_frame_length t < FRAME_HEADER_SIZE"
  shows "frame_header_plausible (residual t) = frame_header_plausible (rx_frame t)"
    and "header_frame_size (residual t) = header_frame_size (rx_frame t)"
    and "24 \<le> length (residual t)"
  using assms header_take [of "unat (rx_frame_length t)" "rx_frame t"]
  by (simp_all add: residual_def FRAME_HEADER_SIZE_def not_less word_le_nat_alt rx_wf_def sizeof_rx_frame_nat)

text \<open>The frames of a stream handed to the core in order, and how many it accepted.\<close>

fun deliver_all :: "('c \<Rightarrow> byte list \<Rightarrow> 'c \<times> bool) \<Rightarrow> byte list list \<Rightarrow> 'c \<Rightarrow> 'c \<times> nat" where
  "deliver_all on_frame [] c = (c, 0)"
| "deliver_all on_frame (f # fs) c =
    (case on_frame c f of
       (c1, ok) \<Rightarrow> (case deliver_all on_frame fs c1 of (c2, n) \<Rightarrow> (c2, (if ok then 1 else 0) + n)))"

lemma deliver_all_append:
  "deliver_all on_frame (fs @ gs) c =
    (case deliver_all on_frame fs c of
       (c1, n) \<Rightarrow> (case deliver_all on_frame gs c1 of (c2, m) \<Rightarrow> (c2, n + m)))"
  by (induction fs arbitrary: c) (auto split: prod.splits)

definition rx_progress ::
    "('c \<Rightarrow> byte list \<Rightarrow> 'c \<times> bool) \<Rightarrow> usb_transport \<Rightarrow> 'c \<Rightarrow> byte list list \<times> nat \<times> byte list \<Rightarrow>
      (usb_transport \<times> 'c) option \<Rightarrow> bool" where
  "rx_progress on_frame t c sc res \<longleftrightarrow>
    (case sc of (fs, k, r) \<Rightarrow>
      (\<exists>t' c' n. res = Some (t', c') \<and> deliver_all on_frame fs c = (c', n) \<and> rx_wf t' \<and>
        residual t' = r \<and> rx_erase t' = rx_erase t \<and>
        rx_feed_frames (stats t') = rx_feed_frames (stats t) + word_of_nat n \<and>
        rx_resync_bytes (stats t') = rx_resync_bytes (stats t) + word_of_nat k))"

lemma rx_feed_loop_scan:
  "rx_wf t \<Longrightarrow>
    rx_progress on_frame t c (scan (unat (max_frame_size t)) (residual t)) (rx_feed_loop on_frame t c)"
proof (induction on_frame t c rule: rx_feed_loop.induct)
  case (1 on_frame t c)
  note wf = "1.prems"
  let ?mx = "unat (max_frame_size t)"
  show ?case
  proof (cases "rx_frame_length t < FRAME_HEADER_SIZE")
    case True
    then have "length (residual t) < 24" using wf
      by (simp add: word_less_nat_alt FRAME_HEADER_SIZE_def)
    with True wf show ?thesis
      by (simp add: rx_progress_def rx_feed_loop.simps [of _ t] scan.simps [of ?mx])
  next
    case long: False
    note h = header_residual [OF wf long]
    have ok: "(frame_header_plausible (rx_frame t) \<and> \<not> header_frame_size (rx_frame t) > max_frame_size t) =
        header_ok ?mx (residual t)"
      by (simp add: header_ok_def h word_less_nat_alt not_less)
    show ?thesis
    proof (cases "header_ok ?mx (residual t)")
      case False
      let ?t1 = "upd_stats (\<lambda>s. s\<lparr>rx_resync_bytes := rx_resync_bytes s + 1\<rparr>) (t\<lparr>resync_active := True\<rparr>)"
      have "rx_wf ?t1" "residual ?t1 = residual t" "unat (1 :: u32) \<le> unat (rx_frame_length ?t1)"
        using wf h(3) by (simp_all add: rx_wf_def residual_def)
      then obtain t2 where t2: "rx_consume 1 ?t1 = Some t2" "rx_wf t2"
          "residual t2 = tl (residual t)" "stats t2 = stats ?t1" "rx_erase t2 = rx_erase ?t1"
        using rx_consume_spec [of ?t1 1] by (auto simp: drop_Suc)
      have same: "max_frame_size t2 = max_frame_size t" "rx_erase t2 = rx_erase t"
        using rx_erase_fields(1) [OF t2(5)] t2(5) by (simp_all add: rx_erase_def)
      have loop: "rx_feed_loop on_frame t c = rx_feed_loop on_frame t2 c"
        using long False ok t2(1) by (subst rx_feed_loop.simps) auto
      have "rx_progress on_frame t2 c (scan ?mx (tl (residual t))) (rx_feed_loop on_frame t2 c)"
        using "1.IH"(1) [OF long _ t2(1) t2(2)] False ok t2(3) same by auto
      moreover have "scan ?mx (residual t) =
          (case scan ?mx (tl (residual t)) of (fs, k, r) \<Rightarrow> (fs, Suc k, r))"
        using False h(3) by (simp add: scan.simps [of ?mx "residual t"])
      ultimately show ?thesis
        by (auto simp: rx_progress_def loop same t2(4) algebra_simps split: prod.splits)
    next
      case True
      let ?n = "header_frame_size (rx_frame t)"
      show ?thesis
      proof (cases "rx_frame_length t < ?n")
        case short: True
        then have "length (residual t) < unat (header_frame_size (residual t))"
          using wf by (simp add: h word_less_nat_alt)
        with True h(3) have "scan ?mx (residual t) = ([], 0, residual t)"
          by (simp add: scan.simps [of ?mx "residual t"])
        moreover have "rx_feed_loop on_frame t c = Some (t, c)"
          using long True ok short by (subst rx_feed_loop.simps) (auto simp: Let_def)
        ultimately show ?thesis using wf by (simp add: rx_progress_def)
      next
        case full: False
        obtain c1 b where core: "on_frame c (take (unat ?n) (rx_frame t)) = (c1, b)"
          by (cases "on_frame c (take (unat ?n) (rx_frame t))")
        let ?t1 = "upd_stats (\<lambda>s. if b then s\<lparr>rx_feed_frames := rx_feed_frames s + 1\<rparr> else s)
          (t\<lparr>last_frame_size := ?n, resync_active := False\<rparr>)"
        have n: "unat ?n \<le> unat (rx_frame_length t)"
          using full by (simp add: word_less_nat_alt)
        have "rx_wf ?t1" "residual ?t1 = residual t" "unat ?n \<le> unat (rx_frame_length ?t1)"
          using wf n by (simp_all add: rx_wf_def residual_def)
        then obtain t2 where t2: "rx_consume ?n ?t1 = Some t2" "rx_wf t2"
            "residual t2 = drop (unat ?n) (residual t)" "stats t2 = stats ?t1" "rx_erase t2 = rx_erase ?t1"
          using rx_consume_spec [of ?t1 ?n] by auto
        have same: "max_frame_size t2 = max_frame_size t" "rx_erase t2 = rx_erase t"
          using rx_erase_fields(1) [OF t2(5)] t2(5) by (simp_all add: rx_erase_def)
        have frame: "take (unat ?n) (rx_frame t) = take (unat ?n) (residual t)"
          using n by (simp add: residual_def)
        have loop: "rx_feed_loop on_frame t c = rx_feed_loop on_frame t2 c1"
          using long True ok full core t2(1) by (subst rx_feed_loop.simps) (auto simp: Let_def)
        have "rx_progress on_frame t2 c1 (scan ?mx (drop (unat ?n) (residual t)))
            (rx_feed_loop on_frame t2 c1)"
          using "1.IH"(2) [OF long _ refl full core [symmetric] t2(1) t2(2)] True ok t2(3) same
          by auto
        moreover have "scan ?mx (residual t) =
            (case scan ?mx (drop (unat ?n) (residual t)) of
               (fs, k, r) \<Rightarrow> (take (unat ?n) (rx_frame t) # fs, k, r))"
          using True h n wf by (simp add: scan.simps [of ?mx "residual t"] frame)
        ultimately show ?thesis
          by (auto simp: rx_progress_def loop same t2(4) core algebra_simps split: prod.splits)
      qed
    qed
  qed
qed

section \<open>Feeding chunks\<close>

lemma rx_feed_fits:
  assumes wf: "rx_wf t" and sz: "unat sz = length data"
    and fit: "length (residual t) + length data \<le> 4120"
  shows "rx_progress on_frame t c (scan (unat (max_frame_size t)) (residual t @ data))
    (rx_feed on_frame data sz t c)"
proof -
  let ?n = "unat (rx_frame_length t)"
  have n: "?n + length data \<le> 4120" using wf fit by simp
  then have sum: "unat (rx_frame_length t + sz) = ?n + length data"
    using sz by (simp add: unat_add_u32)
  then have guard: "\<not> rx_frame_length t + sz > sizeof_rx_frame"
    using n by (simp add: word_less_nat_alt sizeof_rx_frame_nat)
  let ?t1 = "t\<lparr>rx_frame := blit (rx_frame t) ?n data, rx_frame_length := rx_frame_length t + sz\<rparr>"
  have room: "?n + length data \<le> length (rx_frame t)"
    using wf n by (simp add: rx_wf_def sizeof_rx_frame_nat)
  have wf1: "rx_wf ?t1"
    using wf n sum room by (simp add: rx_wf_def sizeof_rx_frame_nat length_blit)
  have res1: "residual ?t1 = residual t @ data"
    using room by (simp add: residual_def sum take_blit_end)
  have feed: "rx_feed on_frame data sz t c = rx_feed_loop on_frame ?t1 c"
    using guard room sz by (simp add: rx_feed_def)
  have "rx_erase ?t1 = rx_erase t" by (simp add: rx_erase_def)
  with rx_feed_loop_scan [OF wf1, of on_frame c] show ?thesis
    unfolding feed res1 by (auto simp: rx_progress_def)
qed

text \<open>A chunk that does not fit behind the residual bytes is dropped together with them.\<close>

lemma rx_feed_overflow:
  assumes wf: "rx_wf t" and sz: "unat sz = length data" "length data \<le> 512"
    and over: "4120 < length (residual t) + length data"
  shows "\<exists>t'. rx_feed on_frame data sz t c = Some (t', c) \<and> rx_wf t' \<and> residual t' = [] \<and>
    rx_erase t' = rx_erase t \<and>
    rx_resync_bytes (stats t') = rx_resync_bytes (stats t) + word_of_nat (length (residual t)) \<and>
    rx_feed_frames (stats t') = rx_feed_frames (stats t)"
proof -
  let ?n = "unat (rx_frame_length t)"
  have "?n \<le> 4120" using wf by (simp add: rx_wf_def sizeof_rx_frame_nat)
  then have sum: "unat (rx_frame_length t + sz) = ?n + length data"
    using sz by (simp add: unat_add_u32)
  then have "rx_frame_length t + sz > sizeof_rx_frame"
    using over wf by (simp add: word_less_nat_alt sizeof_rx_frame_nat)
  then show ?thesis
    using wf by (simp add: rx_feed_def rx_wf_def residual_def rx_erase_def)
qed

fun rx_feed_all ::
    "('c \<Rightarrow> byte list \<Rightarrow> 'c \<times> bool) \<Rightarrow> byte list list \<Rightarrow> usb_transport \<Rightarrow> 'c \<Rightarrow>
      (usb_transport \<times> 'c) option" where
  "rx_feed_all on_frame [] t c = Some (t, c)"
| "rx_feed_all on_frame (d # ds) t c =
    (case rx_feed on_frame d (word_of_nat (length d)) t c of
       None \<Rightarrow> None
     | Some (t', c') \<Rightarrow> rx_feed_all on_frame ds t' c')"

lemma rx_progress_trans:
  assumes "rx_progress on_frame t c (fs, k, r) (Some (t1, c1))"
    and "rx_progress on_frame t1 c1 (fs', k', r') res"
  shows "rx_progress on_frame t c (fs @ fs', k + k', r') res"
  using assms by (auto simp: rx_progress_def deliver_all_append algebra_simps)

text \<open>
  The residual bytes never get in the way of the next packet when a frame and a packet
  fit into the buffer together: 3609 - 1 + 512 = 4120.
\<close>

lemma rx_feed_all_scan:
  assumes "rx_wf t" "unat (max_frame_size t) \<le> 3609" "scan_stuck (unat (max_frame_size t)) (residual t)"
    and "\<forall>d\<in>set ds. length d \<le> 512"
  shows "rx_progress on_frame t c (scan (unat (max_frame_size t)) (residual t @ concat ds))
    (rx_feed_all on_frame ds t c)"
  using assms
proof (induction ds arbitrary: t c)
  case Nil
  then show ?case by (simp add: rx_progress_def scan_stuck_id)
next
  case (Cons d ds)
  let ?mx = "unat (max_frame_size t)"
  obtain fs k r where sc: "scan ?mx (residual t @ d) = (fs, k, r)" by (cases "scan ?mx (residual t @ d)")
  obtain fs' k' r' where sc': "scan ?mx (r @ concat ds) = (fs', k', r')"
    by (cases "scan ?mx (r @ concat ds)")
  have d: "length d \<le> 512" using Cons.prems(4) by simp
  then have sz: "unat (word_of_nat (length d) :: u32) = length d" by (simp add: unat_of_nat)
  have "length (residual t) + length d \<le> 4120"
    using scan_stuck_length [OF Cons.prems(3)] Cons.prems(2) d by auto
  from rx_feed_fits [OF Cons.prems(1) sz this, of on_frame c]
  obtain t1 c1 where f: "rx_feed on_frame d (word_of_nat (length d)) t c = Some (t1, c1)"
    and p: "rx_progress on_frame t c (fs, k, r) (Some (t1, c1))"
    unfolding sc by (auto simp: rx_progress_def)
  have t1: "rx_wf t1" "residual t1 = r" "rx_erase t1 = rx_erase t"
    using p by (auto simp: rx_progress_def)
  note same = rx_erase_fields(1) [OF t1(3)]
  have "rx_progress on_frame t1 c1 (fs', k', r') (rx_feed_all on_frame ds t1 c1)"
    using Cons.IH [OF t1(1), of c1] Cons.prems(2,4) scan_rest [OF sc] sc' by (simp add: t1 same)
  from rx_progress_trans [OF p this] scan_append [OF sc sc'] f show ?case by simp
qed

text \<open>Every chunk is safe: nothing is read or written outside the buffer, and the loop ends.\<close>

lemma rx_feed_total:
  assumes "rx_wf t" "unat sz = length data" "length data \<le> 512"
  shows "\<exists>t' c'. rx_feed on_frame data sz t c = Some (t', c') \<and> rx_wf t' \<and> rx_erase t' = rx_erase t"
proof (cases "length (residual t) + length data \<le> 4120")
  case True
  from rx_feed_fits [OF assms(1,2) True, of on_frame c] show ?thesis
    by (auto simp: rx_progress_def split: prod.splits)
next
  case False
  with rx_feed_overflow [OF assms(1,2,3), of on_frame c] show ?thesis by auto
qed

section \<open>The endpoint callback and the receive thread\<close>

definition arm_out_read :: "usb_transport \<Rightarrow> usb_transport" where
  "arm_out_read t = t\<lparr>out_armed := True\<rparr>"

definition out_endpoint_callback ::
    "byte list \<Rightarrow> u32 \<Rightarrow> usb_transport \<Rightarrow> rt_kernel \<Rightarrow> usb_transport \<times> rt_kernel" where
  "out_endpoint_callback out_chunk nbytes t k =
    (let (t1, k1) =
       (if nbytes \<noteq> 0 \<and> \<not> stopping t
        then
         (let (rb, written) = rt_ringbuffer_put (rx_ring t) out_chunk nbytes;
              t2 = upd_stats (\<lambda>s. s\<lparr>rx_isr_packets := rx_isr_packets s + 1\<rparr>) (t\<lparr>rx_ring := rb\<rparr>);
              t3 = (if written \<noteq> nbytes
                    then upd_stats (\<lambda>s. s\<lparr>rx_overruns := rx_overruns s + 1\<rparr>) t2
                    else upd_stats (\<lambda>s. s\<lparr>rx_bytes := rx_bytes s + nbytes\<rparr>) t2);
              (r, sem, k') = rt_sem_release (rx_avail t3) k
          in (t3\<lparr>rx_avail := sem\<rparr>, k'))
        else (t, k))
     in if \<not> stopping t1 \<and> rt_ringbuffer_space_len (rx_ring t1) \<ge> WLH_USB_OUT_CHUNK
        then (arm_out_read t1, k1)
        else ((if \<not> out_paused t1 then upd_stats (\<lambda>s. s\<lparr>rx_pauses := rx_pauses s + 1\<rparr>) t1 else t1)
                \<lparr>out_paused := True\<rparr>, k1))"

definition in_endpoint_callback ::
    "usb_transport \<Rightarrow> rt_kernel \<Rightarrow> usb_transport \<times> rt_kernel" where
  "in_endpoint_callback t k =
    (case rt_sem_release (tx_done t) k of (r, sem, k') \<Rightarrow> (t\<lparr>tx_done := sem\<rparr>, k'))"

datatype usb_event = USBD_EVENT_RESET | USBD_EVENT_CONFIGURED | USBD_EVENT_OTHER

text \<open>
  The stack tears the endpoints down on a reset, so no OUT read is armed after it (the
  comment in the handler); this is the first update of the RESET case.
\<close>

definition usb_event_handler ::
    "usb_event \<Rightarrow> usb_transport \<Rightarrow> rt_kernel \<Rightarrow> usb_transport \<times> rt_kernel" where
  "usb_event_handler event t k =
    (case event of
       USBD_EVENT_RESET \<Rightarrow>
         (let t1 = upd_stats (\<lambda>s. s\<lparr>bus_resets := bus_resets s + 1\<rparr>)
                     (t\<lparr>out_armed := False, configured := False, reset_pending := True,
                        out_paused := False\<rparr>)
          in case rt_sem_release (tx_done t1) k of
               (r1, done, k1) \<Rightarrow>
                 (case rt_sem_release (tx_wakeup t1) k1 of
                    (r2, wakeup, k2) \<Rightarrow> (t1\<lparr>tx_done := done, tx_wakeup := wakeup\<rparr>, k2)))
     | USBD_EVENT_CONFIGURED \<Rightarrow>
         (let t1 = (if \<not> initial_configuration_seen t
                    then arm_out_read (t\<lparr>initial_configuration_seen := True, reset_pending := False\<rparr>)
                    else if \<not> reset_pending t then arm_out_read t
                    else t);
              t2 = t1\<lparr>configured := True\<rparr>
          in case rt_sem_release (configured_gate t2) k of
               (r, gate, k1) \<Rightarrow> (t2\<lparr>configured_gate := gate\<rparr>, k1))
     | USBD_EVENT_OTHER \<Rightarrow> (t, k))"

text \<open>
  The body of the inner loop of rx_thread_entry: one read from the ring and its feed; \<open>None\<close> in
  the last component is the break on an empty ring.
\<close>

definition rx_drain_step ::
    "('c \<Rightarrow> byte list \<Rightarrow> 'c \<times> bool) \<Rightarrow> usb_transport \<Rightarrow> 'c \<Rightarrow> (usb_transport \<times> 'c \<times> bool) option" where
  "rx_drain_step on_frame t c =
    (case rt_ringbuffer_get (rx_ring t) WLH_USB_OUT_CHUNK of
       (rb, data, sz) \<Rightarrow>
         if sz = 0 then Some (t\<lparr>rx_ring := rb\<rparr>, c, False)
         else (case rx_feed on_frame data sz (t\<lparr>rx_ring := rb\<rparr>) c of
                 None \<Rightarrow> None
               | Some (t', c') \<Rightarrow> Some (t', c', True)))"

definition rx_rearm :: "usb_transport \<Rightarrow> usb_transport" where
  "rx_rearm t =
    (if out_paused t \<and> \<not> stopping t \<and> rt_ringbuffer_space_len (rx_ring t) \<ge> WLH_USB_OUT_CHUNK
     then arm_out_read (t\<lparr>out_paused := False\<rparr>)
     else t)"

text \<open>One pass of the outer loop after rt_sem_take, with no packet arriving meanwhile.\<close>

partial_function (option) rx_drain ::
    "('c \<Rightarrow> byte list \<Rightarrow> 'c \<times> bool) \<Rightarrow> usb_transport \<Rightarrow> 'c \<Rightarrow> (usb_transport \<times> 'c) option" where
  "rx_drain on_frame t c =
    (case rx_drain_step on_frame t c of
       None \<Rightarrow> None
     | Some (t', c', again) \<Rightarrow> if again then rx_drain on_frame t' c' else Some (t', c'))"

definition rx_thread_pass ::
    "('c \<Rightarrow> byte list \<Rightarrow> 'c \<times> bool) \<Rightarrow> usb_transport \<Rightarrow> 'c \<Rightarrow> (usb_transport \<times> 'c) option" where
  "rx_thread_pass on_frame t c =
    (case rx_drain on_frame t c of None \<Rightarrow> None | Some (t', c') \<Rightarrow> Some (rx_rearm t', c'))"

section \<open>Interrupts and the thread, interleaved\<close>

text \<open>
  The OUT endpoint callback may run between any two steps of the receive thread.  A thread that
  waits on a semaphore is modelled as taking it once its value is positive: a release that
  finds it on the wait list hands it the token without passing through the value, which is
  the same to both sides (Ipc_Sem).  \<open>rs_in\<close> records the bytes the host has sent.
\<close>

datatype rx_pc = RxWait | RxDrain | RxRearm

record 'c rx_sys =
  rs_t :: usb_transport
  rs_k :: rt_kernel
  rs_core :: 'c
  rs_pc :: rx_pc
  rs_in :: "byte list list"

text \<open>
  \<open>rs_in\<close> records the packets the host has sent and the controller has acknowledged.  The bus
  events come at any time.  A CONFIGURED event arms the endpoint whatever the ring holds; a run in
  which it only does so when there is room for a packet, and only comes when an earlier reset has
  been handled by the transmit thread, is called \<open>careful\<close>.  \<open>transmit\<close> is everything the transmit
  side does (it handles the reset, sends, completes): it leaves the receive side alone.
\<close>

definition same_receive :: "usb_transport \<Rightarrow> usb_transport \<Rightarrow> bool" where
  "same_receive t' t \<longleftrightarrow> rx_ring t' = rx_ring t \<and> rx_avail t' = rx_avail t \<and> rx_frame t' = rx_frame t \<and>
    rx_frame_length t' = rx_frame_length t \<and> max_frame_size t' = max_frame_size t \<and> stopping t' = stopping t \<and>
    out_paused t' = out_paused t \<and> out_armed t' = out_armed t \<and> configured t' = configured t \<and>
    rx_overruns (stats t') = rx_overruns (stats t) \<and> rx_feed_frames (stats t') = rx_feed_frames (stats t) \<and>
    rx_resync_bytes (stats t') = rx_resync_bytes (stats t)"

definition arms_with_room :: "usb_transport \<Rightarrow> bool" where
  "arms_with_room t \<longleftrightarrow> rt_ringbuffer_space_len (rx_ring t) \<ge> WLH_USB_OUT_CHUNK \<and>
    (initial_configuration_seen t \<longrightarrow> \<not> reset_pending t)"

inductive rx_step :: "bool \<Rightarrow> ('c \<Rightarrow> byte list \<Rightarrow> 'c \<times> bool) \<Rightarrow> 'c rx_sys \<Rightarrow> 'c rx_sys \<Rightarrow> bool"
  for careful and on_frame where
  out_done: "out_armed (rs_t s) \<Longrightarrow> length chunk \<le> 512 \<Longrightarrow>
    out_endpoint_callback chunk (word_of_nat (length chunk)) ((rs_t s)\<lparr>out_armed := False\<rparr>) (rs_k s) =
      (t', k') \<Longrightarrow>
    rx_step careful on_frame s (s\<lparr>rs_t := t', rs_k := k', rs_in := rs_in s @ [chunk]\<rparr>)"
| wake: "rs_pc s = RxWait \<Longrightarrow> sem_value (rx_avail (rs_t s)) > 0 \<Longrightarrow>
    rt_sem_take (-1) (rx_avail (rs_t s)) (rs_k s) = (out, sem, k') \<Longrightarrow>
    rx_step careful on_frame s (s\<lparr>rs_t := (rs_t s)\<lparr>rx_avail := sem\<rparr>, rs_k := k', rs_pc := RxDrain\<rparr>)"
| drain: "rs_pc s = RxDrain \<Longrightarrow>
    rx_drain_step on_frame (rs_t s) (rs_core s) = Some (t', c', again) \<Longrightarrow>
    rx_step careful on_frame s
      (s\<lparr>rs_t := t', rs_core := c', rs_pc := (if again then RxDrain else RxRearm)\<rparr>)"
| rearm: "rs_pc s = RxRearm \<Longrightarrow>
    rx_step careful on_frame s (s\<lparr>rs_t := rx_rearm (rs_t s), rs_pc := RxWait\<rparr>)"
| bus_event: "usb_event_handler ev (rs_t s) (rs_k s) = (t', k') \<Longrightarrow>
    (careful \<Longrightarrow> ev = USBD_EVENT_CONFIGURED \<Longrightarrow> arms_with_room (rs_t s)) \<Longrightarrow>
    rx_step careful on_frame s (s\<lparr>rs_t := t', rs_k := k'\<rparr>)"
| transmit: "same_receive t' (rs_t s) \<Longrightarrow> rx_step careful on_frame s (s\<lparr>rs_t := t', rs_k := k'\<rparr>)"

inductive rx_reach :: "bool \<Rightarrow> ('c \<Rightarrow> byte list \<Rightarrow> 'c \<times> bool) \<Rightarrow> 'c rx_sys \<Rightarrow> 'c rx_sys \<Rightarrow> bool"
  for careful and on_frame where
  rx_reach_refl: "rx_reach careful on_frame s s"
| rx_reach_step: "rx_reach careful on_frame s u \<Longrightarrow> rx_step careful on_frame u v \<Longrightarrow> rx_reach careful on_frame s v"

definition rx_base_inv :: "usb_transport \<Rightarrow> bool" where
  "rx_base_inv t \<longleftrightarrow> rb_inv (rx_ring t) \<and> rb_cap (rx_ring t) = 8192 \<and> rx_wf t \<and> \<not> stopping t \<and>
    sem_waiters (rx_avail t) = [] \<and> sem_max_value (rx_avail t) = 65535"

definition rx_flow_inv :: "'c rx_sys \<Rightarrow> bool" where
  "rx_flow_inv s \<longleftrightarrow>
    (let t = rs_t s; used = rb_used (rx_ring t); v = sem_value (rx_avail t)
     in (out_armed t \<longrightarrow> used + 512 \<le> 8192) \<and> (\<not> out_armed t \<longrightarrow> out_paused t \<or> \<not> configured t) \<and>
        rx_overruns (stats t) = 0 \<and>
        (rs_pc s = RxWait \<and> (out_paused t \<or> used \<noteq> 0) \<longrightarrow> v \<noteq> 0) \<and>
        (rs_pc s = RxRearm \<and> used \<noteq> 0 \<longrightarrow> v \<noteq> 0))"

text \<open>What the ring has kept of each packet, and how many packets were cut.\<close>

definition cut_packets :: "byte list list \<Rightarrow> byte list list \<Rightarrow> nat" where
  "cut_packets kept ps = length (filter (\<lambda>(k, p). k \<noteq> p) (zip kept ps))"

definition kept_of :: "bool \<Rightarrow> byte list list \<Rightarrow> 'c rx_sys \<Rightarrow> bool" where
  "kept_of careful kept s \<longleftrightarrow> list_all2 prefix kept (rs_in s) \<and>
    rx_overruns (stats (rs_t s)) = word_of_nat (cut_packets kept (rs_in s)) \<and>
    (careful \<longrightarrow> kept = rs_in s)"

definition rx_stream_inv ::
    "bool \<Rightarrow> ('c \<Rightarrow> byte list \<Rightarrow> 'c \<times> bool) \<Rightarrow> 'c \<Rightarrow> nat \<Rightarrow> 'c rx_sys \<Rightarrow> bool" where
  "rx_stream_inv careful on_frame c0 mx s \<longleftrightarrow>
    (\<exists>kept seen fs k n. kept_of careful kept s \<and> concat kept = seen @ rb_contents (rx_ring (rs_t s)) \<and>
       scan mx seen = (fs, k, residual (rs_t s)) \<and>
       deliver_all on_frame fs c0 = (rs_core s, n) \<and>
       rx_feed_frames (stats (rs_t s)) = word_of_nat n \<and>
       rx_resync_bytes (stats (rs_t s)) = word_of_nat k \<and>
       unat (max_frame_size (rs_t s)) = mx)"

lemma space_512:
  "rb_inv rb \<Longrightarrow> rb_cap rb = 8192 \<Longrightarrow>
    (rt_ringbuffer_space_len rb \<ge> WLH_USB_OUT_CHUNK) = (rb_used rb + 512 \<le> 8192)"
  using rb_used_le [of rb] by (auto simp: word_le_nat_alt unat_space_len usb_consts)

text \<open>The callback stores as much of the packet as there is room for.\<close>

lemma callback_stores:
  assumes inv: "rx_base_inv t" and len: "length chunk \<le> 512"
    and cb: "out_endpoint_callback chunk (word_of_nat (length chunk)) (t\<lparr>out_armed := False\<rparr>) k = (t', k')"
  defines "w \<equiv> min (length chunk) (8192 - rb_used (rx_ring t))"
  shows "rx_base_inv t'" "rb_contents (rx_ring t') = rb_contents (rx_ring t) @ take w chunk"
    "sem_value (rx_avail t') = 0 \<Longrightarrow> chunk = [] \<and> sem_value (rx_avail t) = 0"
    "out_armed t' = (rb_used (rx_ring t') + 512 \<le> 8192)"
    "out_paused t' = (out_paused t \<or> \<not> out_armed t')" "configured t' = configured t"
    "rx_overruns (stats t') = rx_overruns (stats t) + (if w < length chunk then 1 else 0)"
    "residual t' = residual t" "max_frame_size t' = max_frame_size t"
    "rx_feed_frames (stats t') = rx_feed_frames (stats t)"
    "rx_resync_bytes (stats t') = rx_resync_bytes (stats t)"
proof -
  let ?n = "word_of_nat (length chunk) :: u32"
  have ri: "rb_inv (rx_ring t)" "rb_cap (rx_ring t) = 8192" "\<not> stopping t" "sem_waiters (rx_avail t) = []"
    "sem_max_value (rx_avail t) = 65535" "rx_wf t" using inv by (auto simp: rx_base_inv_def)
  have n: "unat ?n = length chunk" using len by (simp add: unat_of_nat)
  then have nz: "(?n = 0) = (chunk = [])" by (auto simp: word_unat_eq_iff)
  obtain rb m where put: "rt_ringbuffer_put (rx_ring t) chunk ?n = (rb, m)"
    by (cases "rt_ringbuffer_put (rx_ring t) chunk ?n")
  have p: "rb_inv rb" "rb_cap rb = 8192" "unat m = w" "rb_contents rb = rb_contents (rx_ring t) @ take w chunk"
    using rbq.put_law [OF ri(1) _ put] ri(2) by (simp_all add: n w_def)
  have short: "m \<noteq> ?n \<longleftrightarrow> w < length chunk" using p(3) n by (auto simp: word_unat_eq_iff w_def)
  obtain r sem' k1 where rel: "rt_sem_release (rx_avail t) k = (r, sem', k1)"
    by (cases "rt_sem_release (rx_avail t) k")
  note s = release_no_waiters [OF ri(4,5) rel]
  define t1 where "t1 = (if chunk = [] then t\<lparr>out_armed := False\<rparr>
    else ((if w < length chunk then upd_stats (\<lambda>s. s\<lparr>rx_overruns := rx_overruns s + 1\<rparr>)
           else upd_stats (\<lambda>s. s\<lparr>rx_bytes := rx_bytes s + ?n\<rparr>))
      (upd_stats (\<lambda>s. s\<lparr>rx_isr_packets := rx_isr_packets s + 1\<rparr>)
        (t\<lparr>out_armed := False, rx_ring := rb\<rparr>)))\<lparr>rx_avail := sem'\<rparr>)"
  have ring: "rb_inv (rx_ring t1)" "rb_cap (rx_ring t1) = 8192"
    "rb_contents (rx_ring t1) = rb_contents (rx_ring t) @ take w chunk"
    using p ri by (auto simp: t1_def w_def)
  have t1: "\<not> stopping t1" "rx_wf t1" "sem_waiters (rx_avail t1) = []" "sem_max_value (rx_avail t1) = 65535"
    "\<not> out_armed t1" "out_paused t1 = out_paused t" "configured t1 = configured t"
    "rx_overruns (stats t1) = rx_overruns (stats t) + (if w < length chunk then 1 else 0)"
    "residual t1 = residual t" "max_frame_size t1 = max_frame_size t"
    "rx_feed_frames (stats t1) = rx_feed_frames (stats t)" "rx_resync_bytes (stats t1) = rx_resync_bytes (stats t)"
    "sem_value (rx_avail t1) = 0 \<longrightarrow> chunk = [] \<and> sem_value (rx_avail t) = 0"
    using ri s by (auto simp: t1_def rx_wf_def residual_def w_def)
  have t': "t' = (if rb_used (rx_ring t1) + 512 \<le> 8192 then arm_out_read t1
     else (if \<not> out_paused t1 then upd_stats (\<lambda>s. s\<lparr>rx_pauses := rx_pauses s + 1\<rparr>) t1 else t1)
            \<lparr>out_paused := True\<rparr>)"
  proof -
    have "fst (out_endpoint_callback chunk ?n (t\<lparr>out_armed := False\<rparr>) k) =
      (if rt_ringbuffer_space_len (rx_ring t1) \<ge> WLH_USB_OUT_CHUNK then arm_out_read t1
       else (if \<not> out_paused t1 then upd_stats (\<lambda>s. s\<lparr>rx_pauses := rx_pauses s + 1\<rparr>) t1 else t1)
              \<lparr>out_paused := True\<rparr>)"
      using ri(3) put short rel
      by (cases "chunk = []") (simp_all add: out_endpoint_callback_def nz t1_def)
    with cb space_512 [OF ring(1,2)] show ?thesis by simp
  qed
  have ring': "rx_ring t' = rx_ring t1" "rx_avail t' = rx_avail t1"
    by (auto simp: t' arm_out_read_def)
  show "rx_base_inv t'" "rb_contents (rx_ring t') = rb_contents (rx_ring t) @ take w chunk"
    "sem_value (rx_avail t') = 0 \<Longrightarrow> chunk = [] \<and> sem_value (rx_avail t) = 0"
    using ring t1 unfolding rx_base_inv_def ring' by (auto simp: t' arm_out_read_def rx_wf_def)
  show "out_armed t' = (rb_used (rx_ring t') + 512 \<le> 8192)"
    unfolding ring' using t1(5) by (simp add: t' arm_out_read_def)
  show "out_paused t' = (out_paused t \<or> \<not> out_armed t')" "configured t' = configured t"
    "rx_overruns (stats t') = rx_overruns (stats t) + (if w < length chunk then 1 else 0)"
    "residual t' = residual t" "max_frame_size t' = max_frame_size t"
    "rx_feed_frames (stats t') = rx_feed_frames (stats t)"
    "rx_resync_bytes (stats t') = rx_resync_bytes (stats t)"
    using t1 by (auto simp: t' arm_out_read_def residual_def)
qed

text \<open>A read of the thread: a prefix of the ring of at most one packet, or the end.\<close>

lemma drain_step_cases:
  assumes inv: "rb_inv (rx_ring t)" and wf: "rx_wf t"
    and step: "rx_drain_step on_frame t c = Some (t', c', again)"
  obtains (stop) rb where "\<not> again" "t' = t\<lparr>rx_ring := rb\<rparr>" "c' = c" "rb_inv rb"
      "rb_cap rb = rb_cap (rx_ring t)" "rb_contents (rx_ring t) = []" "rb_contents rb = []"
    | (feed) rb d where "again" "rx_feed on_frame d (word_of_nat (length d)) (t\<lparr>rx_ring := rb\<rparr>) c = Some (t', c')"
      "d @ rb_contents rb = rb_contents (rx_ring t)" "d \<noteq> []" "length d \<le> 512" "rb_inv rb"
      "rb_cap rb = rb_cap (rx_ring t)" "rx_wf t'" "rx_erase t' = rx_erase (t\<lparr>rx_ring := rb\<rparr>)"
proof -
  obtain rb d sz where get: "rt_ringbuffer_get (rx_ring t) WLH_USB_OUT_CHUNK = (rb, d, sz)"
    by (cases "rt_ringbuffer_get (rx_ring t) WLH_USB_OUT_CHUNK")
  note g = rbq.get_law [OF inv get] rbq.get_split [OF inv get]
  have d512: "length d \<le> 512" using g by (simp add: usb_consts)
  have szd: "sz = word_of_nat (length d)" using g d512 by (simp add: word_unat_eq_iff unat_of_nat)
  have empty: "sz = 0 \<longleftrightarrow> rb_contents (rx_ring t) = []"
    using rbq.get_zero_iff [OF inv _ get] by (simp add: usb_consts)
  show ?thesis
  proof (cases "sz = 0")
    case True
    then show ?thesis
      using stop [of rb] step get g empty by (simp add: rx_drain_step_def)
  next
    case False
    let ?t = "t\<lparr>rx_ring := rb\<rparr>"
    have "rx_wf ?t" using wf by (simp add: rx_wf_def)
    moreover have "unat sz = length d" using g by simp
    ultimately obtain t1 c1 where f: "rx_feed on_frame d sz ?t c = Some (t1, c1)" "rx_wf t1"
        "rx_erase t1 = rx_erase ?t"
      using rx_feed_total [of ?t sz d on_frame c] d512 by blast
    then have r: "t' = t1" "c' = c1" "again"
      using step get False by (simp_all add: rx_drain_step_def)
    have ne: "d \<noteq> []" using False szd by auto
    have f': "rx_feed on_frame d (word_of_nat (length d)) ?t c = Some (t', c')"
      using f(1) unfolding szd r .
    show ?thesis
      using f(2,3) by (intro feed [OF r(3) f' g(2) ne d512 g(4)]) (simp_all add: g(5) r)
  qed
qed

lemma rx_drain_step_total:
  assumes inv: "rb_inv (rx_ring t)" and wf: "rx_wf t"
  shows "\<exists>t' c' again. rx_drain_step on_frame t c = Some (t', c', again)"
proof -
  obtain rb d sz where get: "rt_ringbuffer_get (rx_ring t) WLH_USB_OUT_CHUNK = (rb, d, sz)"
    by (cases "rt_ringbuffer_get (rx_ring t) WLH_USB_OUT_CHUNK")
  note g = rbq.get_law [OF inv get] rbq.get_split [OF inv get]
  have "rx_wf (t\<lparr>rx_ring := rb\<rparr>)" using wf by (simp add: rx_wf_def)
  moreover have "unat sz = length d" "length d \<le> 512" using g by (simp_all add: usb_consts)
  ultimately obtain t1 c1 where "rx_feed on_frame d sz (t\<lparr>rx_ring := rb\<rparr>) c = Some (t1, c1)"
    using rx_feed_total [of "t\<lparr>rx_ring := rb\<rparr>" sz d on_frame c] by blast
  then show ?thesis by (cases "sz = 0") (auto simp: rx_drain_step_def get)
qed

lemma rearm_fields:
  "rx_ring (rx_rearm t) = rx_ring t" "rx_frame (rx_rearm t) = rx_frame t"
  "rx_frame_length (rx_rearm t) = rx_frame_length t" "stats (rx_rearm t) = stats t"
  "rx_avail (rx_rearm t) = rx_avail t" "stopping (rx_rearm t) = stopping t"
  "max_frame_size (rx_rearm t) = max_frame_size t"
  by (auto simp: rx_rearm_def arm_out_read_def)

lemma event_receive:
  assumes "usb_event_handler ev t k = (t', k')"
  shows "rx_ring t' = rx_ring t" "rx_avail t' = rx_avail t" "rx_wf t' = rx_wf t" "residual t' = residual t"
    "max_frame_size t' = max_frame_size t" "stopping t' = stopping t"
    "rx_overruns (stats t') = rx_overruns (stats t)" "rx_feed_frames (stats t') = rx_feed_frames (stats t)"
    "rx_resync_bytes (stats t') = rx_resync_bytes (stats t)"
  using assms
  by (auto simp: usb_event_handler_def Let_def arm_out_read_def rx_wf_def residual_def
      split: usb_event.splits prod.splits if_splits)

lemma event_flags:
  assumes "usb_event_handler ev t k = (t', k')" "ev = USBD_EVENT_CONFIGURED \<longrightarrow> arms_with_room t"
  shows "(ev = USBD_EVENT_CONFIGURED \<and> out_armed t' \<and> out_paused t' = out_paused t) \<or>
    (\<not> out_armed t' \<and> \<not> out_paused t' \<and> \<not> configured t') \<or>
    (out_armed t' = out_armed t \<and> out_paused t' = out_paused t \<and> configured t' = configured t)"
  using assms
  by (auto simp: usb_event_handler_def Let_def arm_out_read_def arms_with_room_def
      split: usb_event.splits prod.splits if_splits)

lemma base_same_receive: "same_receive t' t \<Longrightarrow> rx_base_inv t' = rx_base_inv t"
  by (simp add: same_receive_def rx_base_inv_def rx_wf_def)

lemma residual_same_receive: "same_receive t' t \<Longrightarrow> residual t' = residual t"
  by (simp add: same_receive_def residual_def)

lemma rx_base_step:
  assumes "rx_step careful on_frame s s'" "rx_base_inv (rs_t s)"
  shows "rx_base_inv (rs_t s')"
  using assms
proof (induction rule: rx_step.induct)
  case (out_done s chunk t' k')
  then show ?case using callback_stores(1) [OF out_done(4,2,3)] by simp
next
  case (wake s out sem k')
  then show ?case using take_token [OF wake(2,3)] by (auto simp: rx_base_inv_def rx_wf_def)
next
  case (drain s t' c' again)
  have pre: "rb_inv (rx_ring (rs_t s))" "rx_wf (rs_t s)" using drain(3) by (auto simp: rx_base_inv_def)
  show ?case using pre drain(2)
  proof (cases rule: drain_step_cases)
    case (stop rb)
    then show ?thesis using drain(3) by (simp add: rx_base_inv_def rx_wf_def)
  next
    case (feed rb d)
    then show ?thesis using drain(3) by (simp add: rx_base_inv_def rx_erase_fields [OF feed(9)])
  qed
next
  case (rearm s)
  then show ?case by (auto simp: rx_base_inv_def rx_rearm_def arm_out_read_def rx_wf_def)
next
  case (bus_event ev s t' k')
  then show ?case by (simp add: rx_base_inv_def event_receive [OF bus_event(1)])
next
  case (transmit t' s k')
  then show ?case by (simp add: base_same_receive)
qed

lemma rx_flow_step:
  assumes step: "rx_step True on_frame s s'" and base: "rx_base_inv (rs_t s)" and inv: "rx_flow_inv s"
  shows "rx_flow_inv s'"
  using step base inv
proof (induction rule: rx_step.induct)
  case (out_done s chunk t' k')
  let ?t = "rs_t s"
  have pre: "rb_used (rx_ring ?t) + 512 \<le> 8192" "rx_overruns (stats ?t) = 0"
    using out_done(1,5) by (auto simp: rx_flow_inv_def Let_def)
  note cb = callback_stores [OF out_done(4,2,3)]
  have fits: "min (length chunk) (8192 - rb_used (rx_ring ?t)) = length chunk" using pre(1) out_done(2) by simp
  have used: "rb_used (rx_ring t') = rb_used (rx_ring ?t) + length chunk"
    using arg_cong [OF cb(2), of length] by (simp add: fits)
  show ?case
    using cb(3-7) used pre out_done(5) unfolding rx_flow_inv_def Let_def fits by auto
next
  case (wake s out sem k')
  note t = take_token [OF wake(2,3)]
  show ?case
    using wake(5) unfolding t rx_flow_inv_def Let_def by auto
next
  case (drain s t' c' again)
  let ?t = "rs_t s"
  have pre: "rb_inv (rx_ring ?t)" "rx_wf ?t" using drain(3) by (auto simp: rx_base_inv_def)
  show ?case using pre drain(2)
  proof (cases rule: drain_step_cases)
    case (stop rb)
    have "rb_used rb = 0" using stop(7) by (metis length_rb_contents list.size(3))
    with stop drain(4) show ?thesis by (auto simp: rx_flow_inv_def Let_def)
  next
    case (feed rb d)
    have "length d + rb_used rb = rb_used (rx_ring ?t)"
      using arg_cong [OF feed(3), of length] by simp
    then have le: "rb_used (rx_ring t') \<le> rb_used (rx_ring ?t)" using rx_erase_fields(2) [OF feed(9)] by simp
    have er: "out_armed t' = out_armed ?t" "out_paused t' = out_paused ?t" "configured t' = configured ?t"
      "rx_overruns (stats t') = rx_overruns (stats ?t)"
      using rx_erase_fields [OF feed(9)] by simp_all
    show ?thesis
      using drain(4) le feed(1) er by (auto simp: rx_flow_inv_def Let_def)
  qed
next
  case (rearm s)
  let ?t = "rs_t s"
  have "rb_inv (rx_ring ?t)" "rb_cap (rx_ring ?t) = 8192" "\<not> stopping ?t"
    using rearm(2) by (auto simp: rx_base_inv_def)
  then have r: "rx_rearm ?t = (if out_paused ?t \<and> rb_used (rx_ring ?t) + 512 \<le> 8192
      then ?t\<lparr>out_paused := False, out_armed := True\<rparr> else ?t)"
    using space_512 [of "rx_ring ?t"] by (simp add: rx_rearm_def arm_out_read_def)
  show ?case
    using rearm r by (auto simp: rx_flow_inv_def Let_def split: if_splits)
next
  case (bus_event ev s t' k')
  have room: "rb_used (rx_ring (rs_t s)) + 512 \<le> 8192" if "ev = USBD_EVENT_CONFIGURED"
    using bus_event(2,3) that space_512 [of "rx_ring (rs_t s)"] by (auto simp: arms_with_room_def rx_base_inv_def)
  note same = event_receive [OF bus_event(1)]
  have "ev = USBD_EVENT_CONFIGURED \<longrightarrow> arms_with_room (rs_t s)" using bus_event(2) by simp
  from event_flags [OF bus_event(1) this] show ?case
  proof (elim disjE conjE)
    assume "ev = USBD_EVENT_CONFIGURED" "out_armed t'" "out_paused t' = out_paused (rs_t s)"
    then show ?thesis using bus_event(4) room by (simp add: rx_flow_inv_def Let_def same)
  next
    assume "\<not> out_armed t'" "\<not> out_paused t'" "\<not> configured t'"
    then show ?thesis using bus_event(4) by (simp add: rx_flow_inv_def Let_def same)
  next
    assume "out_armed t' = out_armed (rs_t s)" "out_paused t' = out_paused (rs_t s)"
      "configured t' = configured (rs_t s)"
    then show ?thesis using bus_event(4) by (simp add: rx_flow_inv_def Let_def same)
  qed
next
  case (transmit t' s k')
  then show ?case by (auto simp: same_receive_def rx_flow_inv_def Let_def)
qed

text \<open>A packet: what the ring keeps of it is a prefix, all of it unless the counter counts it.\<close>

lemma kept_append:
  assumes "kept_of careful kept s" "prefix k p" "careful \<Longrightarrow> k = p"
    and "rx_overruns (stats t') = rx_overruns (stats (rs_t s)) + (if k \<noteq> p then 1 else 0)"
  shows "kept_of careful (kept @ [k]) (s\<lparr>rs_t := t', rs_k := k', rs_in := rs_in s @ [p]\<rparr>)"
proof -
  have "length kept = length (rs_in s)" using assms(1) by (auto simp: kept_of_def dest: list_all2_lengthD)
  then show ?thesis using assms by (auto simp: kept_of_def cut_packets_def list_all2_appendI)
qed

lemma rx_stream_step:
  assumes step: "rx_step careful on_frame s s'" and base: "rx_base_inv (rs_t s)"
    and flow: "careful \<longrightarrow> rx_flow_inv s"
    and inv: "rx_stream_inv careful on_frame c0 mx s" and mx: "mx \<le> 3609"
  shows "rx_stream_inv careful on_frame c0 mx s'"
  using step base flow inv
proof (induction rule: rx_step.induct)
  case (out_done s chunk t' k')
  let ?t = "rs_t s" and ?w = "min (length chunk) (8192 - rb_used (rx_ring (rs_t s)))"
  note cb = callback_stores [OF out_done(4,2,3)]
  obtain kept seen fs k n where st: "kept_of careful kept s" "concat kept = seen @ rb_contents (rx_ring ?t)"
      "scan mx seen = (fs, k, residual ?t)" "deliver_all on_frame fs c0 = (rs_core s, n)"
      "rx_feed_frames (stats ?t) = word_of_nat n" "rx_resync_bytes (stats ?t) = word_of_nat k"
      "unat (max_frame_size ?t) = mx"
    using out_done(6) by (auto simp: rx_stream_inv_def)
  have cut: "take ?w chunk \<noteq> chunk \<longleftrightarrow> ?w < length chunk" by (auto simp: min_def)
  have full: "careful \<Longrightarrow> take ?w chunk = chunk"
    using out_done(1,2,5) by (auto simp: rx_flow_inv_def Let_def)
  have "kept_of careful (kept @ [take ?w chunk]) (s\<lparr>rs_t := t', rs_k := k', rs_in := rs_in s @ [chunk]\<rparr>)"
    using cb(7) by (intro kept_append [OF st(1) take_is_prefix full]) (simp_all only: cut)
  moreover have "concat (kept @ [take ?w chunk]) = seen @ rb_contents (rx_ring t')"
    using st(2) cb(2) by simp
  ultimately show ?case
    using st(3-7) cb(8-11) unfolding rx_stream_inv_def by fastforce
next
  case (wake s out sem k')
  then show ?case by (auto simp: rx_stream_inv_def residual_def kept_of_def)
next
  case (drain s t' c' again)
  let ?t = "rs_t s"
  have pre: "rb_inv (rx_ring ?t)" "rx_wf ?t" using drain(3) by (auto simp: rx_base_inv_def)
  obtain kept seen fs k n where st: "kept_of careful kept s" "concat kept = seen @ rb_contents (rx_ring ?t)"
      "scan mx seen = (fs, k, residual ?t)" "deliver_all on_frame fs c0 = (rs_core s, n)"
      "rx_feed_frames (stats ?t) = word_of_nat n" "rx_resync_bytes (stats ?t) = word_of_nat k"
      "unat (max_frame_size ?t) = mx"
    using drain(5) by (auto simp: rx_stream_inv_def)
  show ?case using pre drain(2)
  proof (cases rule: drain_step_cases)
    case (stop rb)
    with drain(5) show ?thesis by (auto simp: rx_stream_inv_def residual_def kept_of_def)
  next
    case (feed rb d)
    let ?t1 = "?t\<lparr>rx_ring := rb\<rparr>"
    have wf1: "rx_wf ?t1" "residual ?t1 = residual ?t" using pre(2) by (simp_all add: rx_wf_def residual_def)
    have sz: "unat (word_of_nat (length d) :: u32) = length d" using feed(5) by (simp add: unat_of_nat)
    have "length (residual ?t1) + length d \<le> 4120"
      using scan_stuck_length [OF scan_rest [OF st(3)]] wf1 mx feed(5) by auto
    from rx_feed_fits [OF wf1(1) sz this, of on_frame "rs_core s"]
    have p: "rx_progress on_frame ?t1 (rs_core s) (scan mx (residual ?t @ d)) (Some (t', c'))"
      using feed(2) st(7) wf1(2) by simp
    obtain fs' k' r' where sc: "scan mx (residual ?t @ d) = (fs', k', r')"
      by (cases "scan mx (residual ?t @ d)")
    from p obtain n' where d': "deliver_all on_frame fs' (rs_core s) = (c', n')" "residual t' = r'"
        "rx_feed_frames (stats t') = rx_feed_frames (stats ?t) + word_of_nat n'"
        "rx_resync_bytes (stats t') = rx_resync_bytes (stats ?t) + word_of_nat k'"
      unfolding sc by (auto simp: rx_progress_def)
    note er = rx_erase_fields [OF feed(9)]
    have "concat kept = (seen @ d) @ rb_contents (rx_ring t')" using st(2) feed(3) er by simp
    moreover have "kept_of careful kept (s\<lparr>rs_t := t', rs_core := c', rs_pc := if again then RxDrain else RxRearm\<rparr>)"
      using st(1) er by (simp add: kept_of_def)
    moreover have "scan mx (seen @ d) = (fs @ fs', k + k', residual t')"
      using scan_append [OF st(3) sc] d'(2) by simp
    moreover have "deliver_all on_frame (fs @ fs') c0 = (c', n + n')"
      using st(4) d'(1) by (simp add: deliver_all_append)
    moreover have "rx_feed_frames (stats t') = word_of_nat (n + n')"
      "rx_resync_bytes (stats t') = word_of_nat (k + k')"
      "unat (max_frame_size t') = mx"
      using d' st er by simp_all
    ultimately show ?thesis unfolding rx_stream_inv_def by fastforce
  qed
next
  case (rearm s)
  then show ?case by (simp add: rx_stream_inv_def residual_def rearm_fields kept_of_def)
next
  case (bus_event ev s t' k')
  then show ?case by (simp add: rx_stream_inv_def kept_of_def event_receive [OF bus_event(1)])
next
  case (transmit t' s k')
  then show ?case
    using residual_same_receive [OF transmit(1)] by (simp add: rx_stream_inv_def kept_of_def same_receive_def)
qed

lemma rx_reach_inv:
  assumes "rx_reach careful on_frame s u" "rx_base_inv (rs_t s)" "careful \<longrightarrow> rx_flow_inv s"
  shows "rx_base_inv (rs_t u) \<and> (careful \<longrightarrow> rx_flow_inv u) \<and>
    (mx \<le> 3609 \<longrightarrow> rx_stream_inv careful on_frame c0 mx s \<longrightarrow> rx_stream_inv careful on_frame c0 mx u)"
  using assms
proof (induction rule: rx_reach.induct)
  case (rx_reach_step s u v)
  then have u: "rx_base_inv (rs_t u)" "careful \<longrightarrow> rx_flow_inv u" by simp_all
  have "careful \<longrightarrow> rx_flow_inv v"
  proof
    assume c: careful
    show "rx_flow_inv v"
      by (rule rx_flow_step [of on_frame u]) (use rx_reach_step(2) u c in simp_all)
  qed
  then show ?case
    using rx_reach_step rx_base_step [OF rx_reach_step(2) u(1)] rx_stream_step [OF rx_reach_step(2) u, of c0 mx] by simp
qed simp

text \<open>The state after the first CONFIGURED event: everything empty, the endpoint armed.\<close>

definition rx_fresh :: "u32 \<Rightarrow> usb_transport \<Rightarrow> bool" where
  "rx_fresh mx t \<longleftrightarrow>
    rt_ringbuffer_init (replicate 8192 0) WLH_USB_RX_RING_SIZE = Some (rx_ring t) \<and>
    rx_avail t = sem_object_init 0 RT_IPC_FLAG_PRIO RT_SEM_VALUE_MAX \<and>
    max_frame_size t = mx \<and> rx_frame t = replicate 4120 0 \<and> rx_frame_length t = 0 \<and>
    \<not> stopping t \<and> out_armed t \<and> \<not> out_paused t \<and>
    rx_overruns (stats t) = 0 \<and> rx_feed_frames (stats t) = 0 \<and> rx_resync_bytes (stats t) = 0"

definition rx_start :: "usb_transport \<Rightarrow> rt_kernel \<Rightarrow> 'c \<Rightarrow> 'c rx_sys" where
  "rx_start t k c0 = \<lparr>rs_t = t, rs_k = k, rs_core = c0, rs_pc = RxWait, rs_in = []\<rparr>"

lemma rx_fresh_ring:
  assumes "rx_fresh mx t"
  shows "rb_inv (rx_ring t)" "rb_contents (rx_ring t) = []" "rb_cap (rx_ring t) = 8192"
proof -
  have "0 < sint WLH_USB_RX_RING_SIZE" by (simp add: usb_consts)
  from rb_init [OF this, of "replicate 8192 0"] assms
  show "rb_inv (rx_ring t)" "rb_contents (rx_ring t) = []" "rb_cap (rx_ring t) = 8192"
    by (auto simp: rx_fresh_def usb_consts)
qed

lemma rx_start_inv:
  assumes "rx_fresh mx t"
  shows "rx_base_inv (rs_t (rx_start t k c0))" "rx_flow_inv (rx_start t k c0)"
    and "rx_stream_inv careful on_frame c0 (unat mx) (rx_start t k c0)"
proof -
  note r = rx_fresh_ring [OF assms]
  have used: "rb_used (rx_ring t) = 0" using r(2) by (metis length_rb_contents list.size(3))
  have wf: "rx_wf t" "residual t = []"
    using assms by (simp_all add: rx_fresh_def rx_wf_def sizeof_rx_frame_nat residual_def)
  show "rx_base_inv (rs_t (rx_start t k c0))" "rx_flow_inv (rx_start t k c0)"
    using assms r used wf
    by (simp_all add: rx_base_inv_def rx_flow_inv_def rx_start_def rx_fresh_def sem_object_init_def RT_SEM_VALUE_MAX_def)
  have "scan (unat mx) [] = ([], 0, [])" by (subst scan.simps) simp
  moreover have "kept_of careful [] (rx_start t k c0)"
    using assms by (simp add: kept_of_def cut_packets_def rx_start_def rx_fresh_def)
  ultimately show "rx_stream_inv careful on_frame c0 (unat mx) (rx_start t k c0)"
    using assms r wf unfolding rx_stream_inv_def rx_start_def rx_fresh_def by fastforce
qed

section \<open>A pass of the thread\<close>

lemma rx_drain_returns:
  assumes "rb_inv (rx_ring t)" "rx_wf t"
  shows "\<exists>t' c'. rx_drain on_frame t c = Some (t', c') \<and> rb_inv (rx_ring t') \<and>
    rb_contents (rx_ring t') = [] \<and> rb_cap (rx_ring t') = rb_cap (rx_ring t) \<and> rx_wf t' \<and>
    stopping t' = stopping t \<and> out_paused t' = out_paused t \<and> out_armed t' = out_armed t"
  using assms
proof (induction "length (rb_contents (rx_ring t))" arbitrary: t c rule: less_induct)
  case less
  obtain t1 c1 again where st: "rx_drain_step on_frame t c = Some (t1, c1, again)"
    using rx_drain_step_total [OF less.prems, of on_frame c] by (elim exE) (rule that)
  show ?case using less.prems st
  proof (cases rule: drain_step_cases)
    case (stop rb)
    then have "rx_drain on_frame t c = Some (t1, c1)"
      using st by (subst rx_drain.simps) simp
    moreover have "rx_wf t1" using stop(2) less.prems(2) by (simp add: rx_wf_def)
    ultimately show ?thesis using stop by simp
  next
    case (feed rb d)
    note er = rx_erase_fields [OF feed(9)]
    have "length (rb_contents (rx_ring t1)) < length (rb_contents (rx_ring t))"
      using arg_cong [OF feed(3), of length] feed(4) er by (cases d) simp_all
    from less.hyps [OF this, of c1] feed er st show ?thesis
      by (subst rx_drain.simps) auto
  qed
qed

section \<open>Properties\<close>



text \<open>
  A pass of the receive thread ends and re-arms a paused endpoint: from any well-formed state
  the drain loop terminates with the ring empty, and afterwards the endpoint is armed if it
  was armed or paused before.
\<close>

theorem usb_rx_pass_rearms:
  assumes "rb_inv (rx_ring t)" and "rb_cap (rx_ring t) = 8192" and "rx_wf t" and "\<not> stopping t"
    and "out_armed t \<or> out_paused t"
  shows "\<exists>t' c'. rx_thread_pass on_frame t c = Some (t', c') \<and>
    rb_contents (rx_ring t') = [] \<and> out_armed t'"
proof -
  obtain t1 c1 where d: "rx_drain on_frame t c = Some (t1, c1)" "rb_inv (rx_ring t1)"
      "rb_contents (rx_ring t1) = []" "rb_cap (rx_ring t1) = 8192"
      "\<not> stopping t1" "out_paused t1 = out_paused t" "out_armed t1 = out_armed t"
    using rx_drain_returns [OF assms(1,3), of on_frame c] assms(2,4) by auto
  have "rb_used (rx_ring t1) = 0" using d(3) by (metis length_rb_contents list.size(3))
  then have "rx_rearm t1 = (if out_paused t1 then arm_out_read (t1\<lparr>out_paused := False\<rparr>) else t1)"
    using space_512 [OF d(2,4)] d(5) by (simp add: rx_rearm_def)
  with d assms(5) show ?thesis
    by (auto simp: rx_thread_pass_def arm_out_read_def)
qed

text \<open>
  rx_feed is total and memory safe: for every buffer state, every packet of at most 512 bytes
  and every core, the loop ends and neither the copy into the frame buffer nor any of its
  memmoves leaves the array; the buffer is well formed afterwards.
\<close>

theorem usb_rx_feed_safe:
  assumes "rx_wf t" and "unat sz = length data" and "length data \<le> 512"
  shows "\<exists>t' c'. rx_feed on_frame data sz t c = Some (t', c') \<and> rx_wf t'"
  using rx_feed_total [OF assms, of on_frame c] by blast

text \<open>
  USB packet boundaries carry no meaning: feeding the same bytes cut into packets of at most
  512 bytes in two different ways gives the core the same frames and leaves the same residual
  bytes and the same counters (frame limit at most 3609 bytes).
\<close>

theorem usb_rx_chunking_irrelevant:
  assumes "rx_wf t" and "unat (max_frame_size t) \<le> 3609"
    and "scan_stuck (unat (max_frame_size t)) (residual t)"
    and "\<forall>d\<in>set ds. length d \<le> 512" and "\<forall>d\<in>set es. length d \<le> 512"
    and "concat ds = concat es"
  shows "\<exists>t1 t2 c'. rx_feed_all on_frame ds t c = Some (t1, c') \<and>
    rx_feed_all on_frame es t c = Some (t2, c') \<and> residual t1 = residual t2 \<and>
    rx_feed_frames (stats t1) = rx_feed_frames (stats t2) \<and>
    rx_resync_bytes (stats t1) = rx_resync_bytes (stats t2)"
  using rx_feed_all_scan [OF assms(1-4), of on_frame c]
    rx_feed_all_scan [OF assms(1-3,5), of on_frame c]
  unfolding assms(6) rx_progress_def by (auto split: prod.splits)

text \<open>C29
  With a frame limit of at most 3609 bytes, a stream of well-formed wire frames within the limit
  is delivered frame by frame: fed in packets of at most 512 bytes, cut in any way, to an empty
  reassembly buffer, the core gets exactly these frames in order, no byte is skipped and none is
  left over.
\<close>

theorem usb_rx_frames_roundtrip:
  assumes "rx_wf t" and "unat (max_frame_size t) \<le> 3609" and "residual t = []"
    and "\<forall>f\<in>set fs. wire_frame (unat (max_frame_size t)) f"
    and "\<forall>d\<in>set ds. length d \<le> 512" and "concat ds = concat fs"
  shows "\<exists>t'. rx_feed_all on_frame ds t c = Some (t', fst (deliver_all on_frame fs c)) \<and>
    residual t' = [] \<and> rx_resync_bytes (stats t') = rx_resync_bytes (stats t) \<and>
    rx_feed_frames (stats t') =
      rx_feed_frames (stats t) + word_of_nat (snd (deliver_all on_frame fs c))"
proof -
  have "scan_stuck (unat (max_frame_size t)) (residual t)" by (simp add: assms(3) scan_stuck_def)
  from rx_feed_all_scan [OF assms(1,2) this assms(5), of on_frame c]
  show ?thesis
    using scan_stream [OF assms(4)] by (auto simp: rx_progress_def assms(3,6))
qed

text \<open>An incomplete frame grows in the buffer as long as it fits.\<close>

lemma rx_feed_all_grow:
  assumes "rx_wf t" "24 \<le> length (residual t)" "header_ok (unat (max_frame_size t)) (residual t)"
    and "length (residual t) + length (concat ds) < unat (header_frame_size (residual t))"
    and "unat (max_frame_size t) \<le> 4096" "\<forall>d\<in>set ds. length d \<le> 512"
  shows "\<exists>t'. rx_feed_all on_frame ds t c = Some (t', c) \<and> rx_wf t' \<and>
    residual t' = residual t @ concat ds \<and> rx_erase t' = rx_erase t \<and>
    rx_feed_frames (stats t') = rx_feed_frames (stats t) \<and>
    rx_resync_bytes (stats t') = rx_resync_bytes (stats t)"
  using assms
proof (induction ds arbitrary: t)
  case (Cons d ds)
  let ?mx = "unat (max_frame_size t)"
  have h: "header_ok ?mx (residual t @ d)" "header_frame_size (residual t @ d) = header_frame_size (residual t)"
    using Cons.prems(2,3) by (simp_all add: header_append)
  then have stuck: "scan ?mx (residual t @ d) = ([], 0, residual t @ d)"
    using Cons.prems(4) by (intro scan_stuck_id) (auto simp: scan_stuck_def)
  have "length d \<le> 512" using Cons.prems(6) by simp
  then have sz: "unat (word_of_nat (length d) :: u32) = length d" by (simp add: unat_of_nat)
  have "length (residual t) + length d \<le> 4120"
    using Cons.prems(3,4,5) by (simp add: header_ok_def)
  from rx_feed_fits [OF Cons.prems(1) sz this, of on_frame c] stuck
  obtain t1 where f: "rx_feed on_frame d (word_of_nat (length d)) t c = Some (t1, c)"
    and t1: "rx_wf t1" "residual t1 = residual t @ d" "rx_erase t1 = rx_erase t"
      "rx_feed_frames (stats t1) = rx_feed_frames (stats t)"
      "rx_resync_bytes (stats t1) = rx_resync_bytes (stats t)"
    by (auto simp: rx_progress_def)
  have "\<exists>t'. rx_feed_all on_frame ds t1 c = Some (t', c) \<and> rx_wf t' \<and>
    residual t' = residual t1 @ concat ds \<and> rx_erase t' = rx_erase t1 \<and>
    rx_feed_frames (stats t') = rx_feed_frames (stats t1) \<and>
    rx_resync_bytes (stats t') = rx_resync_bytes (stats t1)"
    using Cons.prems h rx_erase_fields(1) [OF t1(3)] by (intro Cons.IH) (simp_all add: t1)
  with f t1 show ?case by auto
qed simp

text \<open>C36
  The frame limit the firmware configures is 4096, and with it the buffer of 24 + 4096 bytes is
  too short: of a stream of three well-formed frames \<open>h\<close>, \<open>f\<close>, \<open>g\<close> of 24, 4096 and at least 488
  bytes, read in chunks of 512 bytes, the core gets \<open>h\<close> only.  The chunk that completes \<open>f\<close> does
  not fit behind the 4072 bytes already buffered, and both are dropped; the counter of skipped
  bytes grows by 4072, not by the 512 of the chunk.
\<close>

theorem usb_rx_long_frame_lost:
  assumes "rx_wf t" and "max_frame_size t = WLH_WIRE_MAX_FRAME_SIZE" and "residual t = []"
    and "wire_frame 4096 h" and "length h = 24" and "wire_frame 4096 f" and "length f = 4096"
    and "488 \<le> length g"
    and "concat ds = drop 488 (take 4072 f)" and "\<forall>d\<in>set ds. length d = 512"
  shows "\<exists>t'. rx_feed_all on_frame ([h @ take 488 f] @ ds @ [drop 4072 f @ take 488 g]) t c =
      Some (t', fst (deliver_all on_frame [h] c)) \<and> residual t' = [] \<and>
    rx_resync_bytes (stats t') = rx_resync_bytes (stats t) + 4072"
proof -
  let ?c = "fst (deliver_all on_frame [h] c)"
  have mx: "unat (max_frame_size t) = 4096" by (simp add: assms(2) usb_consts)
  have f: "header_ok 4096 f" "unat (header_frame_size f) = 4096"
    using assms(6,7) by (simp_all add: wire_frame_def)
  have hd: "header_ok 4096 (take n f)" "header_frame_size (take n f) = header_frame_size f"
    if "8 \<le> n" for n
    using f header_take [OF that, of f] by (simp_all add: header_ok_def)
  have "scan 4096 (take 488 f) = ([], 0, take 488 f)"
    using f hd assms(7) by (intro scan_stuck_id) (simp add: scan_stuck_def)
  from scan_wire_frame [OF assms(4) this]
  have sc: "scan 4096 (h @ take 488 f) = ([h], 0, take 488 f)" .
  have len: "length (h @ take 488 f) = 512" using assms(5,7) by simp
  have sz: "unat (word_of_nat 512 :: u32) = length (h @ take 488 f)" unfolding len by simp
  have fit: "length (residual t) + length (h @ take 488 f) \<le> 4120" unfolding len by (simp add: assms(3))
  obtain t1 where t1: "rx_feed on_frame (h @ take 488 f) (word_of_nat 512) t c = Some (t1, ?c)"
      "rx_wf t1" "residual t1 = take 488 f" "rx_erase t1 = rx_erase t"
      "rx_resync_bytes (stats t1) = rx_resync_bytes (stats t)"
    using rx_feed_fits [OF assms(1) sz fit, of on_frame c] by (auto simp: rx_progress_def mx assms(3) sc)
  have mx1: "unat (max_frame_size t1) = 4096" using rx_erase_fields(1) [OF t1(4)] mx by simp
  have len_ds: "length (concat ds) = 3584" by (simp add: assms(7,9))
  have "\<exists>t'. rx_feed_all on_frame ds t1 ?c = Some (t', ?c) \<and> rx_wf t' \<and>
    residual t' = residual t1 @ concat ds \<and> rx_erase t' = rx_erase t1 \<and>
    rx_feed_frames (stats t') = rx_feed_frames (stats t1) \<and>
    rx_resync_bytes (stats t') = rx_resync_bytes (stats t1)"
    by (rule rx_feed_all_grow)
      (simp_all only: mx1 t1 len_ds, simp_all add: hd f assms(7,10))
  then obtain t2 where t2: "rx_feed_all on_frame ds t1 ?c = Some (t2, ?c)" "rx_wf t2"
      "residual t2 = take 488 f @ concat ds"
      "rx_resync_bytes (stats t2) = rx_resync_bytes (stats t)" using t1 by auto
  have r2: "length (residual t2) = 4072" using t2(3) len_ds assms(7) by simp
  have last: "length (drop 4072 f @ take 488 g) = 512" using assms(7,8) by simp
  obtain t3 where t3: "rx_feed on_frame (drop 4072 f @ take 488 g) (word_of_nat 512) t2 ?c = Some (t3, ?c)"
      "residual t3 = []" "rx_resync_bytes (stats t3) = rx_resync_bytes (stats t) + 4072"
    using rx_feed_overflow [OF t2(2), of "word_of_nat 512" "drop 4072 f @ take 488 g" on_frame ?c]
    unfolding last r2 t2(4) by auto
  have "rx_feed_all on_frame (xs @ ys) t c =
      (case rx_feed_all on_frame xs t c of None \<Rightarrow> None | Some (t', c') \<Rightarrow> rx_feed_all on_frame ys t' c')"
    for xs ys t c
    by (induction xs arbitrary: t c) (auto split: option.splits)
  with t1(1) t2(1) t3 show ?thesis by (auto simp: len last simp del: append_assoc length_append)
qed

section \<open>Witnesses\<close>

definition demo_queue :: rt_messagequeue where
  "demo_queue = mq_empty demo_pool 8 2 RT_IPC_FLAG_PRIO"

definition demo_sem :: rt_semaphore where
  "demo_sem = sem_object_init 0 RT_IPC_FLAG_PRIO RT_SEM_VALUE_MAX"

definition demo_transport :: "u32 \<Rightarrow> usb_transport" where
  "demo_transport mx = \<lparr>max_frame_size = mx, on_reset_set = True,
     tx_control_queue = demo_queue, tx_data_queue = demo_queue,
     tx_done = demo_sem, tx_wakeup = demo_sem, rx_avail = demo_sem, configured_gate = demo_sem,
     rx_ring = the (rt_ringbuffer_init (replicate 8192 0) WLH_USB_RX_RING_SIZE),
     stopping = False, reset_pending = False, configured = True, out_paused = False,
     initial_configuration_seen = True, stats = zero_stats,
     rx_frame = replicate 4120 0, rx_frame_length = 0, resync_active = False, last_frame_size = 0,
     out_armed = True\<rparr>"

text \<open>A frame whose header announces \<open>n\<close> bytes of payload, and a core that records frames.\<close>

definition demo_frame :: "nat \<Rightarrow> byte list" where
  "demo_frame n = [0x57, 0x4c, 1, 24, 0, 0, word_of_nat (n mod 256), word_of_nat (n div 256)] @
     replicate (16 + n) 0"

definition demo_core :: "byte list list \<Rightarrow> byte list \<Rightarrow> byte list list \<times> bool" where
  "demo_core c f = (c @ [f], True)"

lemma length_demo_frame [simp]: "length (demo_frame n) = 24 + n"
  by (simp add: demo_frame_def)

lemma demo_frame_wire:
  assumes "n < 65536" "24 + n \<le> mx"
  shows "wire_frame mx (demo_frame n)" "length (demo_frame n) = 24 + n"
proof -
  have "unat (header_frame_size (demo_frame n)) = 24 + n"
    using assms(1) by (simp add: unat_header_frame_size demo_frame_def unat_of_nat)
  then show "wire_frame mx (demo_frame n)"
    using assms(2) by (simp add: wire_frame_def header_ok_def frame_header_plausible_def
        demo_frame_def frame_consts)
  show "length (demo_frame n) = 24 + n" by (simp add: demo_frame_def)
qed

lemma demo_transport_facts:
  "rx_fresh mx (demo_transport mx)" "rx_wf (demo_transport mx)" "residual (demo_transport mx) = []"
  "max_frame_size (demo_transport mx) = mx" "\<not> stopping (demo_transport mx)"
  "out_armed (demo_transport mx)" "rb_inv (rx_ring (demo_transport mx))"
  "rb_cap (rx_ring (demo_transport mx)) = 8192"
proof -
  have "0 < sint WLH_USB_RX_RING_SIZE" by (simp add: usb_consts)
  from rb_init [OF this, of "replicate 8192 0"]
  show fresh: "rx_fresh mx (demo_transport mx)"
    by (auto simp: rx_fresh_def demo_transport_def demo_sem_def zero_stats_def usb_consts)
  show "rb_inv (rx_ring (demo_transport mx))" "rb_cap (rx_ring (demo_transport mx)) = 8192"
    using rx_fresh_ring [OF fresh] by simp_all
  show "rx_wf (demo_transport mx)" "residual (demo_transport mx) = []"
    "max_frame_size (demo_transport mx) = mx" "\<not> stopping (demo_transport mx)"
    "out_armed (demo_transport mx)"
    by (simp_all add: rx_wf_def residual_def sizeof_rx_frame_nat demo_transport_def)
qed

text \<open>The system after the host has sent one packet with an empty frame, and reset the bus.\<close>

lemma demo_reach:
  "\<exists>s. rx_reach careful demo_core (rx_start (demo_transport mx) two_threads []) s \<and> rs_in s = [demo_frame 0]"
proof -
  let ?s = "rx_start (demo_transport mx) two_threads [] :: byte list list rx_sys"
  obtain t' k' where cb: "out_endpoint_callback (demo_frame 0) (word_of_nat (length (demo_frame 0)))
      ((rs_t ?s)\<lparr>out_armed := False\<rparr>) (rs_k ?s) = (t', k')"
    by (cases "out_endpoint_callback (demo_frame 0) (word_of_nat (length (demo_frame 0)))
      ((rs_t ?s)\<lparr>out_armed := False\<rparr>) (rs_k ?s)")
  let ?u = "?s\<lparr>rs_t := t', rs_k := k', rs_in := rs_in ?s @ [demo_frame 0]\<rparr>"
  have 1: "rx_step careful demo_core ?s ?u"
    using demo_transport_facts(6) [of mx] demo_frame_wire(2) [of 0 24] cb
    by (intro rx_step.out_done) (simp_all add: rx_start_def)
  obtain t2 k2 where "usb_event_handler USBD_EVENT_RESET (rs_t ?u) (rs_k ?u) = (t2, k2)"
    by (cases "usb_event_handler USBD_EVENT_RESET (rs_t ?u) (rs_k ?u)")
  then have 2: "rx_step careful demo_core ?u (?u\<lparr>rs_t := t2, rs_k := k2\<rparr>)"
    by (rule rx_step.bus_event) (simp only: usb_event.distinct)
  from rx_reach_step [OF rx_reach_step [OF rx_reach_refl 1] 2] show ?thesis by (fastforce simp: rx_start_def)
qed



lemma usb_rx_pass_rearms_witness:
  "\<exists>t' c'. rx_thread_pass demo_core (demo_transport 4096) [] = Some (t', c') \<and> out_armed t'"
  using usb_rx_pass_rearms [OF demo_transport_facts(7,8,2,5), of 4096 demo_core "[]"]
    demo_transport_facts(6) by blast

lemma usb_rx_feed_safe_witness:
  "\<exists>t' c'. rx_feed demo_core (demo_frame 3) 27 (demo_transport 4096) [] = Some (t', c') \<and> rx_wf t'"
  by (rule usb_rx_feed_safe [OF demo_transport_facts(2)]) (simp_all add: demo_frame_def)

lemma demo_stuck: "scan_stuck n (residual (demo_transport mx))"
  by (simp add: demo_transport_facts scan_stuck_def)

lemma usb_rx_chunking_irrelevant_witness:
  "\<exists>t1 t2 c'. rx_feed_all demo_core [demo_frame 3] (demo_transport 3609) [] = Some (t1, c') \<and>
    rx_feed_all demo_core [take 10 (demo_frame 3), drop 10 (demo_frame 3)] (demo_transport 3609) [] =
      Some (t2, c')"
proof -
  have mx: "unat (max_frame_size (demo_transport 3609)) \<le> 3609" by (simp add: demo_transport_facts)
  have d: "\<forall>d\<in>set [demo_frame 3]. length d \<le> 512"
    and e: "\<forall>d\<in>set [take 10 (demo_frame 3), drop 10 (demo_frame 3)]. length d \<le> 512"
    by simp_all
  have eq: "concat [demo_frame 3] = concat [take 10 (demo_frame 3), drop 10 (demo_frame 3)]"
    by simp
  obtain t1 t2 c' where
    "rx_feed_all demo_core [demo_frame 3] (demo_transport 3609) [] = Some (t1, c')"
    "rx_feed_all demo_core [take 10 (demo_frame 3), drop 10 (demo_frame 3)] (demo_transport 3609) [] =
      Some (t2, c')"
    using usb_rx_chunking_irrelevant [OF demo_transport_facts(2) mx demo_stuck d e eq,
        of demo_core "[]"] by (elim exE conjE) (rule that)
  then show ?thesis by (intro exI conjI)
qed

lemma usb_rx_frames_roundtrip_witness:
  "\<exists>t'. rx_feed_all demo_core [take 30 (demo_frame 3 @ demo_frame 8), drop 30 (demo_frame 3 @ demo_frame 8)]
      (demo_transport 3609) [] = Some (t', [demo_frame 3, demo_frame 8])"
proof -
  let ?t = "demo_transport 3609"
  have mx: "unat (max_frame_size ?t) \<le> 3609" by (simp add: demo_transport_facts)
  have wire: "\<forall>f\<in>set [demo_frame 3, demo_frame 8]. wire_frame (unat (max_frame_size ?t)) f"
    using demo_frame_wire(1) by (simp add: demo_transport_facts)
  have small: "\<forall>d\<in>set [take 30 (demo_frame 3 @ demo_frame 8), drop 30 (demo_frame 3 @ demo_frame 8)].
      length d \<le> 512" by (simp add: demo_frame_def)
  have "concat [take 30 (demo_frame 3 @ demo_frame 8), drop 30 (demo_frame 3 @ demo_frame 8)] =
      concat [demo_frame 3, demo_frame 8]"
    by (simp only: concat.simps append_Nil2 append_take_drop_id)
  from usb_rx_frames_roundtrip [OF demo_transport_facts(2) mx demo_transport_facts(3) wire small this,
      of demo_core "[]"]
  show ?thesis by (auto simp: demo_core_def)
qed

fun chop :: "nat \<Rightarrow> 'a list \<Rightarrow> 'a list list" where
  "chop 0 xs = []"
| "chop (Suc n) xs = take 512 xs # chop n (drop 512 xs)"

lemma chop_props:
  "length xs = 512 * n \<Longrightarrow> concat (chop n xs) = xs \<and> (\<forall>d\<in>set (chop n xs). length d = 512)"
proof (induction n arbitrary: xs)
  case (Suc n)
  from Suc.IH [of "drop 512 xs"] Suc.prems show ?case by auto
qed simp

lemma usb_rx_long_frame_lost_witness:
  "\<exists>t'. rx_feed_all demo_core
      ([demo_frame 0 @ take 488 (demo_frame 4072)] @ chop 7 (drop 488 (take 4072 (demo_frame 4072))) @
       [drop 4072 (demo_frame 4072) @ take 488 (demo_frame 600)]) (demo_transport 4096) [] =
      Some (t', [demo_frame 0]) \<and> residual t' = []"
proof -
  let ?f = "demo_frame 4072"
  have mx: "max_frame_size (demo_transport 4096) = WLH_WIRE_MAX_FRAME_SIZE"
    by (simp add: demo_transport_facts usb_consts)
  have h: "wire_frame 4096 (demo_frame 0)" "length (demo_frame 0) = 24"
    and f: "wire_frame 4096 ?f" "length ?f = 4096"
    using demo_frame_wire(1) by simp_all
  have "length (drop 488 (take 4072 ?f)) = 512 * 7" by simp
  note c = chop_props [OF this]
  have "488 \<le> length (demo_frame 600)" by simp
  from usb_rx_long_frame_lost [OF demo_transport_facts(2) mx demo_transport_facts(3) h f this
      conjunct1 [OF c] conjunct2 [OF c], of demo_core "[]"]
  show ?thesis by (auto simp: demo_core_def)
qed

end
