(* ===== verification/Usb_Tx.thy ===== *)
theory Usb_Tx
  imports Usb_Rx "HOL-Library.Sublist"
begin

text \<open>
  The transmit path and the life cycle of transport_usb.c: submission of frames into the two
  message queues, the transmit thread, the device events (RESET, CONFIGURED), start and the
  accessors.  The thread is a machine whose program counter names the places between the calls
  of the kernel and of the USB stack, so that interrupts and submissions may happen between
  any two of them.  The calls out (completion and reset callbacks, writes to the endpoint) are
  recorded in a log.  The value of WLH_COPROC_TX_CANCELLED, from the core's header, which is
  not part of the sources, is the parameter \<open>cancelled\<close>.
\<close>

section \<open>Jobs as queue messages\<close>

text \<open>The 16 bytes of a tx_job_t, little-endian words.\<close>

definition word_bytes :: "u32 \<Rightarrow> byte list" where
  "word_bytes w = [ucast w, ucast (drop_bit 8 w), ucast (drop_bit 16 w), ucast (drop_bit 24 w)]"

definition bytes_word :: "byte list \<Rightarrow> u32" where
  "bytes_word b = ucast (b ! 0) OR push_bit 8 (ucast (b ! 1)) OR push_bit 16 (ucast (b ! 2)) OR
     push_bit 24 (ucast (b ! 3))"

lemma bytes_word_bytes [simp]: "bytes_word (word_bytes w) = w"
proof (rule bit_word_eqI)
  fix n assume "n < LENGTH(32)"
  then have "n < 8 \<or> (8 \<le> n \<and> n < 16) \<or> (16 \<le> n \<and> n < 24) \<or> (24 \<le> n \<and> n < 32)" by auto
  moreover have "bytes_word (word_bytes w) = ucast (ucast w :: byte)
      OR push_bit 8 (ucast (ucast (drop_bit 8 w) :: byte))
      OR push_bit 16 (ucast (ucast (drop_bit 16 w) :: byte))
      OR push_bit 24 (ucast (ucast (drop_bit 24 w) :: byte))"
    by (simp add: bytes_word_def word_bytes_def del: push_bit_numeral)
  ultimately show "bit (bytes_word (word_bytes w)) n = bit w n"
    by (auto simp: bit_or_iff bit_push_bit_iff bit_ucast_iff bit_drop_bit_eq)
qed

definition sizeof_tx_job :: u32 where "sizeof_tx_job = 16"

definition job_bytes :: "tx_job \<Rightarrow> byte list" where
  "job_bytes j = word_bytes (job_frame j) @ word_bytes (job_size j) @
     word_bytes (job_completion j) @ word_bytes (job_context j)"

definition bytes_job :: "byte list \<Rightarrow> tx_job" where
  "bytes_job b = \<lparr>job_frame = bytes_word b, job_size = bytes_word (drop 4 b),
     job_completion = bytes_word (drop 8 b), job_context = bytes_word (drop 12 b)\<rparr>"

lemma length_word_bytes [simp]: "length (word_bytes w) = 4"
  by (simp add: word_bytes_def)

lemma length_job_bytes [simp]: "length (job_bytes j) = 16"
  by (simp add: job_bytes_def)

lemma bytes_word_append [simp]: "bytes_word (word_bytes w @ r) = w"
proof -
  have "bytes_word (word_bytes w @ r) = bytes_word (word_bytes w)"
    by (simp add: bytes_word_def word_bytes_def nth_append)
  then show ?thesis by simp
qed

lemma bytes_job_bytes [simp]: "bytes_job (job_bytes j) = j"
  by (cases j) (simp add: bytes_job_def job_bytes_def)

section \<open>Submission\<close>

definition WLH_CHANNEL_OFFSET :: nat where "WLH_CHANNEL_OFFSET = 4"

text \<open>
  \<open>link_control\<close> and \<open>control_rpc\<close> are the channel numbers of the core's header; \<open>frame\<close> is the
  address and \<open>mem\<close> the bytes there.
\<close>

definition is_control_frame :: "byte \<Rightarrow> byte \<Rightarrow> u32 \<Rightarrow> byte list \<Rightarrow> u32 \<Rightarrow> bool" where
  "is_control_frame link_control control_rpc frame mem sz =
    (if frame = 0 \<or> sz < FRAME_HEADER_SIZE then False
     else mem ! WLH_CHANNEL_OFFSET = link_control \<or> mem ! WLH_CHANNEL_OFFSET = control_rpc)"

definition wlh_transport_submit_tx ::
    "byte \<Rightarrow> byte \<Rightarrow> tx_job \<Rightarrow> byte list \<Rightarrow> usb_transport \<Rightarrow> rt_kernel \<Rightarrow> int \<times> usb_transport \<times> rt_kernel" where
  "wlh_transport_submit_tx link_control control_rpc job mem t k =
    (if stopping t then (-1, t, k)
     else
      (let ctl = is_control_frame link_control control_rpc (job_frame job) mem (job_size job)
       in case rt_mq_send_wait (job_bytes job) sizeof_tx_job 0
                 (if ctl then tx_control_queue t else tx_data_queue t) k of
            (out, q, k1) \<Rightarrow>
              (let t1 = (if ctl then t\<lparr>tx_control_queue := q\<rparr> else t\<lparr>tx_data_queue := q\<rparr>)
               in if out \<noteq> Returned RT_EOK
                  then (-1, upd_stats (\<lambda>s. s\<lparr>tx_failures := tx_failures s + 1\<rparr>) t1, k1)
                  else (case rt_sem_release (tx_wakeup t1) k1 of
                          (r, sem, k2) \<Rightarrow> (0, t1\<lparr>tx_wakeup := sem\<rparr>, k2)))))"

section \<open>The transmit thread\<close>

text \<open>Calls out of the transport.\<close>

datatype tx_event =
    Completed tx_job int
  | WriteIn u32 u32
  | HaltIn
  | OnReset

datatype flush_cont = AfterReset | AfterTimeout tx_job

datatype tx_pc =
    TxWait
  | TxLoop
  | TxFlush nat flush_cont
  | TxPick
  | TxGate tx_job
  | TxGateWait tx_job
  | TxCheck tx_job
  | TxDrop tx_job
  | TxWrite tx_job
  | TxSent tx_job
  | TxResult tx_job
  | TxFinish tx_job int

text \<open>\<open>ts_accepted\<close>: the jobs submit has accepted, each with its class (control or data).\<close>

record tx_sys =
  ts_t :: usb_transport
  ts_k :: rt_kernel
  ts_pc :: tx_pc
  ts_log :: "tx_event list"
  ts_accepted :: "(bool \<times> tx_job) list"

definition recv_job ::
    "rt_messagequeue \<Rightarrow> rt_kernel \<Rightarrow> tx_job option \<times> rt_messagequeue \<times> rt_kernel" where
  "recv_job q k =
    (case rt_mq_recv sizeof_tx_job 0 q k of
       (out, d, q', k') \<Rightarrow>
         (if out = Returned (uint sizeof_tx_job) then Some (bytes_job d) else None, q', k'))"

text \<open>Queue \<open>i\<close> of the array in flush_tx_queue.\<close>

definition recv_queue :: "nat \<Rightarrow> usb_transport \<Rightarrow> rt_kernel \<Rightarrow> tx_job option \<times> usb_transport \<times> rt_kernel" where
  "recv_queue i t k =
    (if i = 0
     then (case recv_job (tx_control_queue t) k of (j, q, k') \<Rightarrow> (j, t\<lparr>tx_control_queue := q\<rparr>, k'))
     else (case recv_job (tx_data_queue t) k of (j, q, k') \<Rightarrow> (j, t\<lparr>tx_data_queue := q\<rparr>, k')))"

definition call_on_reset :: "usb_transport \<Rightarrow> tx_event list" where
  "call_on_reset t = (if on_reset_set t then [OnReset] else [])"

text \<open>One turn of the loop of flush_tx_queue; the index moves on when a queue is empty.\<close>

definition flush_tx_queue_step :: "int \<Rightarrow> nat \<Rightarrow> flush_cont \<Rightarrow> tx_sys \<Rightarrow> tx_sys" where
  "flush_tx_queue_step cancelled i cont y =
    (if i < 2
     then (case recv_queue i (ts_t y) (ts_k y) of
             (None, t, k) \<Rightarrow> y\<lparr>ts_t := t, ts_k := k, ts_pc := TxFlush (i + 1) cont\<rparr>
           | (Some j, t, k) \<Rightarrow>
               y\<lparr>ts_t := t, ts_k := k,
                 ts_log := ts_log y @ (if job_frame j = 0 then [] else [Completed j cancelled])\<rparr>)
     else (case cont of
             AfterReset \<Rightarrow> y\<lparr>ts_log := ts_log y @ call_on_reset (ts_t y), ts_pc := TxLoop\<rparr>
           | AfterTimeout j \<Rightarrow> y\<lparr>ts_pc := TxFinish j cancelled\<rparr>))"

text \<open>
  One step of tx_thread_entry; \<open>None\<close> when the thread waits.  \<open>write_ok\<close> is whether
  usbd_ep_start_write accepts the transfer, \<open>expired\<close> whether the wait for its completion has
  timed out.
\<close>

definition tx_thread_step :: "int \<Rightarrow> bool \<Rightarrow> bool \<Rightarrow> tx_sys \<Rightarrow> tx_sys option" where
  "tx_thread_step cancelled write_ok expired y =
    (let t = ts_t y; k = ts_k y
     in case ts_pc y of
          TxWait \<Rightarrow>
            (if sem_value (tx_wakeup t) > 0
             then (case rt_sem_take (-1) (tx_wakeup t) k of
                     (out, sem, k') \<Rightarrow>
                       Some (y\<lparr>ts_t := t\<lparr>tx_wakeup := sem\<rparr>, ts_k := k', ts_pc := TxLoop\<rparr>))
             else None)
        | TxLoop \<Rightarrow>
            (if reset_pending t
             then Some (y\<lparr>ts_t := t\<lparr>reset_pending := False\<rparr>, ts_pc := TxFlush 0 AfterReset\<rparr>)
             else Some (y\<lparr>ts_pc := TxPick\<rparr>))
        | TxFlush i cont \<Rightarrow> Some (flush_tx_queue_step cancelled i cont y)
        | TxPick \<Rightarrow>
            (case recv_queue 0 t k of
               (Some j, t1, k1) \<Rightarrow>
                 Some (y\<lparr>ts_t := t1, ts_k := k1,
                         ts_pc := (if job_frame j = 0 then TxLoop else TxGate j)\<rparr>)
             | (None, t1, k1) \<Rightarrow>
                 (case recv_queue 1 t1 k1 of
                    (Some j, t2, k2) \<Rightarrow>
                      Some (y\<lparr>ts_t := t2, ts_k := k2,
                              ts_pc := (if job_frame j = 0 then TxLoop else TxGate j)\<rparr>)
                  | (None, t2, k2) \<Rightarrow> Some (y\<lparr>ts_t := t2, ts_k := k2, ts_pc := TxWait\<rparr>)))
        | TxGate j \<Rightarrow>
            (if \<not> configured t \<and> \<not> reset_pending t
             then Some (y\<lparr>ts_pc := TxGateWait j\<rparr>)
             else Some (y\<lparr>ts_pc := TxCheck j\<rparr>))
        | TxGateWait j \<Rightarrow>
            (if sem_value (configured_gate t) > 0
             then (case rt_sem_take (-1) (configured_gate t) k of
                     (out, sem, k') \<Rightarrow>
                       Some (y\<lparr>ts_t := t\<lparr>configured_gate := sem\<rparr>, ts_k := k', ts_pc := TxGate j\<rparr>))
             else None)
        | TxCheck j \<Rightarrow>
            (if reset_pending t
             then Some (y\<lparr>ts_log := ts_log y @ [Completed j cancelled], ts_pc := TxLoop\<rparr>)
             else Some (y\<lparr>ts_pc := TxDrop j\<rparr>))
        | TxDrop j \<Rightarrow>
            (case rt_sem_take 0 (tx_done t) k of
               (out, sem, k') \<Rightarrow> Some (y\<lparr>ts_t := t\<lparr>tx_done := sem\<rparr>, ts_k := k', ts_pc := TxWrite j\<rparr>))
        | TxWrite j \<Rightarrow>
            (if write_ok
             then Some (y\<lparr>ts_log := ts_log y @ [WriteIn (job_frame j) (job_size j)],
                          ts_pc := TxSent j\<rparr>)
             else Some (y\<lparr>ts_pc := TxFinish j cancelled\<rparr>))
        | TxSent j \<Rightarrow>
            (if sem_value (tx_done t) > 0
             then (case rt_sem_take (uint WLH_USB_TX_TIMEOUT_MS) (tx_done t) k of
                     (out, sem, k') \<Rightarrow>
                       Some (y\<lparr>ts_t := t\<lparr>tx_done := sem\<rparr>, ts_k := k', ts_pc := TxResult j\<rparr>))
             else if expired
             then Some (y\<lparr>ts_log := ts_log y @ [HaltIn], ts_pc := TxFlush 0 (AfterTimeout j)\<rparr>)
             else None)
        | TxResult j \<Rightarrow> Some (y\<lparr>ts_pc := TxFinish j (if reset_pending t then cancelled else 0)\<rparr>)
        | TxFinish j status \<Rightarrow>
            (let t1 = upd_stats (\<lambda>s. if status = 0 then s\<lparr>tx_frames := tx_frames s + 1\<rparr>
                                     else s\<lparr>tx_failures := tx_failures s + 1\<rparr>) t
             in Some (y\<lparr>ts_t := t1,
                        ts_log := ts_log y @ [Completed j status] @
                          (if status \<noteq> 0 then call_on_reset t1 else []),
                        ts_pc := TxLoop\<rparr>)))"

section \<open>Start and accessors\<close>

definition hex_digits :: "byte list" where
  "hex_digits = map of_char ''0123456789abcdef''"

definition WLH_ETH_MAC_ADDR :: "byte list" where
  "WLH_ETH_MAC_ADDR = [0x02, 0x57, 0x4c, 0x00, 0x00, 0x01]"

definition fill_serial_string :: "byte list" where
  "fill_serial_string =
    concat (map (\<lambda>m. [hex_digits ! unat (drop_bit 4 m), hex_digits ! unat (m AND 0x0f)])
      WLH_ETH_MAC_ADDR) @ [0]"

text \<open>
  wlh_transport_start.  \<open>coproc_set\<close>: the configuration and its core pointer are not null.
  \<open>alloc_ctl\<close>, \<open>alloc_data\<close>, \<open>alloc_sem\<close>: what the allocations of the two queues and of the four
  semaphores return; \<open>threads_ok\<close> and \<open>usbd_ok\<close>: the results of rt_thread_create and
  usbd_initialize.  \<open>old\<close> is the state of an earlier start: the memset clears all of it but the
  static variables of rx_feed and the bytes of the ring's pool.  The new state is \<open>None\<close> when an
  object is missing.
\<close>

definition wlh_transport_start ::
    "bool \<Rightarrow> u32 \<Rightarrow> bool \<Rightarrow> (u32 \<Rightarrow> (nat \<Rightarrow> rt_mq_message) option) \<Rightarrow>
      (u32 \<Rightarrow> (nat \<Rightarrow> rt_mq_message) option) \<Rightarrow> (nat \<Rightarrow> bool) \<Rightarrow> bool \<Rightarrow> bool \<Rightarrow>
      usb_transport option \<Rightarrow> int \<times> usb_transport option" where
  "wlh_transport_start coproc_set mx reset_set alloc_ctl alloc_data alloc_sem threads_ok usbd_ok old =
    (if \<not> coproc_set \<or> mx > WLH_WIRE_MAX_FRAME_SIZE then (-1, old)
     else
      (case (rt_mq_create True alloc_ctl sizeof_tx_job WLH_USB_CONTROL_TX_QUEUE_DEPTH RT_IPC_FLAG_PRIO,
             rt_mq_create True alloc_data sizeof_tx_job WLH_USB_DATA_TX_QUEUE_DEPTH RT_IPC_FLAG_PRIO,
             rt_sem_create (alloc_sem 0) 0 RT_IPC_FLAG_PRIO,
             rt_sem_create (alloc_sem 1) 0 RT_IPC_FLAG_PRIO,
             rt_sem_create (alloc_sem 2) 0 RT_IPC_FLAG_PRIO,
             rt_sem_create (alloc_sem 3) 0 RT_IPC_FLAG_PRIO,
             rt_ringbuffer_init
               (case old of None \<Rightarrow> replicate (unat WLH_USB_RX_RING_SIZE) 0
                | Some t \<Rightarrow> buffer_ptr (rx_ring t)) WLH_USB_RX_RING_SIZE) of
         (Some ctl, Some data, Some (Some done), Some (Some wakeup), Some (Some avail),
          Some (Some gate), Some ring) \<Rightarrow>
           (let t = \<lparr>max_frame_size = mx, on_reset_set = reset_set,
                     tx_control_queue = ctl, tx_data_queue = data,
                     tx_done = done, tx_wakeup = wakeup, rx_avail = avail, configured_gate = gate,
                     rx_ring = ring, stopping = False, reset_pending = False, configured = False,
                     out_paused = False, initial_configuration_seen = False, stats = zero_stats,
                     rx_frame = replicate (unat sizeof_rx_frame) 0, rx_frame_length = 0,
                     resync_active = (case old of None \<Rightarrow> False | Some t \<Rightarrow> resync_active t),
                     last_frame_size = (case old of None \<Rightarrow> 0 | Some t \<Rightarrow> last_frame_size t),
                     out_armed = False\<rparr>
            in (if threads_ok \<and> usbd_ok then 0 else -1, Some t))
       | _ \<Rightarrow> (-1, None)))"

definition wlh_transport_max_frame_size :: u32 where
  "wlh_transport_max_frame_size = WLH_WIRE_MAX_FRAME_SIZE"

definition wlh_transport_tx_capacity :: u32 where
  "wlh_transport_tx_capacity = WLH_USB_DATA_TX_QUEUE_DEPTH"

definition wlh_transport_get_stats :: "usb_transport \<Rightarrow> wlh_transport_stats" where
  "wlh_transport_get_stats t = (stats t)\<lparr>st_configured := (if configured t then 1 else 0)\<rparr>"

text \<open>The index of the string descriptor that is returned, \<open>None\<close> for NULL.\<close>

datatype usb_string = LangId | Vendor | Product | Serial

definition string_descriptor_callback :: "byte \<Rightarrow> usb_string option" where
  "string_descriptor_callback index =
    (if index \<ge> 4 then None else Some ([LangId, Vendor, Product, Serial] ! unat index))"

section \<open>The system\<close>

text \<open>
  The thread, submissions, the device events and the IN endpoint callback, in any order.  A
  step of a submission is one call; that the parts of concurrent calls on one queue may
  interleave is the subject of Ipc_Mq.
\<close>

inductive tx_step :: "int \<Rightarrow> byte \<Rightarrow> byte \<Rightarrow> tx_sys \<Rightarrow> tx_sys \<Rightarrow> bool"
  for cancelled link_control control_rpc where
  thread: "tx_thread_step cancelled write_ok expired y = Some y' \<Longrightarrow>
    tx_step cancelled link_control control_rpc y y'"
| submit: "wlh_transport_submit_tx link_control control_rpc job mem (ts_t y) (ts_k y) = (r, t', k') \<Longrightarrow>
    tx_step cancelled link_control control_rpc y
      (y\<lparr>ts_t := t', ts_k := k',
         ts_accepted := ts_accepted y @
           (if r = 0
            then [(is_control_frame link_control control_rpc (job_frame job) mem (job_size job), job)]
            else [])\<rparr>)"
| event: "usb_event_handler ev (ts_t y) (ts_k y) = (t', k') \<Longrightarrow>
    tx_step cancelled link_control control_rpc y (y\<lparr>ts_t := t', ts_k := k'\<rparr>)"
| in_done: "in_endpoint_callback (ts_t y) (ts_k y) = (t', k') \<Longrightarrow>
    tx_step cancelled link_control control_rpc y (y\<lparr>ts_t := t', ts_k := k'\<rparr>)"

inductive tx_reach :: "int \<Rightarrow> byte \<Rightarrow> byte \<Rightarrow> tx_sys \<Rightarrow> tx_sys \<Rightarrow> bool"
  for cancelled link_control control_rpc where
  tx_reach_refl: "tx_reach cancelled link_control control_rpc y y"
| tx_reach_step: "tx_reach cancelled link_control control_rpc y u \<Longrightarrow>
    tx_step cancelled link_control control_rpc u v \<Longrightarrow>
    tx_reach cancelled link_control control_rpc y v"

definition tx_start :: "usb_transport \<Rightarrow> rt_kernel \<Rightarrow> tx_sys" where
  "tx_start t k = \<lparr>ts_t = t, ts_k = k, ts_pc = TxWait, ts_log = [], ts_accepted = []\<rparr>"

section \<open>The queues as lists of jobs\<close>

definition tx_queue_ok :: "nat \<Rightarrow> rt_messagequeue \<Rightarrow> bool" where
  "tx_queue_ok depth q \<longleftrightarrow> mq_inv q \<and> msg_size q = 16 \<and> unat (max_msgs q) = depth \<and>
    (\<forall>m\<in>set (mq_messages q). length m = 16)"

definition queued :: "rt_messagequeue \<Rightarrow> tx_job list" where
  "queued q = map bytes_job (mq_messages q)"

lemma recv_job_spec:
  assumes "tx_queue_ok n q" "recv_job q k = (j, q', k')"
  shows "tx_queue_ok n q'" and "queued q = (case j of None \<Rightarrow> [] | Some x \<Rightarrow> x # queued q')"
    and "j = None \<Longrightarrow> queued q' = []"
proof -
  obtain out d where r: "rt_mq_recv sizeof_tx_job 0 q k = (out, d, q', k')"
    and j: "j = (if out = Returned (uint sizeof_tx_job) then Some (bytes_job d) else None)"
    using assms(2) by (auto simp: recv_job_def split: prod.splits)
  have q: "mq_inv q" "msg_size q = 16" "unat (max_msgs q) = n" "\<forall>m\<in>set (mq_messages q). length m = 16"
    using assms(1) by (simp_all add: tx_queue_ok_def)
  have "sizeof_tx_job \<noteq> 0" by (simp add: sizeof_tx_job_def)
  note s = mq_recv_nonblocking [OF q(1) this r]
  show "tx_queue_ok n q'"
    using s q by (cases "mq_messages q") (auto simp: tx_queue_ok_def)
  show "queued q = (case j of None \<Rightarrow> [] | Some x \<Rightarrow> x # queued q')"
    using s(1,2,6) q(4) j by (cases "mq_messages q")
      (auto simp: queued_def sizeof_tx_job_def error_codes)
  show "queued q' = []" if "j = None"
    using that s(1,2,6) q(4) j by (cases "mq_messages q")
      (auto simp: queued_def sizeof_tx_job_def error_codes)
qed

lemma send_job_spec:
  assumes "tx_queue_ok n q" "rt_mq_send_wait (job_bytes job) sizeof_tx_job 0 q k = (out, q', k')"
  shows "tx_queue_ok n q'"
    and "out = Returned (if length (queued q) < n then RT_EOK else - RT_EFULL)"
    and "queued q' = (if length (queued q) < n then queued q @ [job] else queued q)"
proof -
  have q: "mq_inv q" "msg_size q = 16" "unat (max_msgs q) = n" "\<forall>m\<in>set (mq_messages q). length m = 16"
    using assms(1) by (simp_all add: tx_queue_ok_def)
  have "sizeof_tx_job \<noteq> 0" "sizeof_tx_job \<le> ucast (msg_size q)"
    "unat sizeof_tx_job \<le> length (job_bytes job)"
    by (simp_all add: sizeof_tx_job_def q(2))
  note s = mq_send_wait_nonblocking [OF q(1) this assms(2)]
  show "tx_queue_ok n q'" using s q by (auto simp: tx_queue_ok_def sizeof_tx_job_def)
  show "out = Returned (if length (queued q) < n then RT_EOK else - RT_EFULL)"
    using s(1) q(3) by (simp add: queued_def)
  show "queued q' = (if length (queued q) < n then queued q @ [job] else queued q)"
    using s(5) q(3) by (simp add: queued_def sizeof_tx_job_def)
qed


definition ctl_jobs :: "(bool \<times> tx_job) list \<Rightarrow> tx_job list" where
  "ctl_jobs xs = map snd (filter fst xs)"

definition data_jobs :: "(bool \<times> tx_job) list \<Rightarrow> tx_job list" where
  "data_jobs xs = map snd (filter (Not \<circ> fst) xs)"

lemma class_jobs_simps [simp]:
  "ctl_jobs [] = []" "data_jobs [] = []"
  "ctl_jobs (xs @ ys) = ctl_jobs xs @ ctl_jobs ys" "data_jobs (xs @ ys) = data_jobs xs @ data_jobs ys"
  "ctl_jobs [(c, j)] = (if c then [j] else [])" "data_jobs [(c, j)] = (if c then [] else [j])"
  by (simp_all add: ctl_jobs_def data_jobs_def)

definition queues_ok :: "usb_transport \<Rightarrow> bool" where
  "queues_ok t \<longleftrightarrow> tx_queue_ok 16 (tx_control_queue t) \<and> tx_queue_ok 8 (tx_data_queue t)"

text \<open>\<open>taken\<close> has been received from the queues out of \<open>acc\<close>, each class in its order.\<close>

definition taken_from :: "(bool \<times> tx_job) list \<Rightarrow> (bool \<times> tx_job) list \<Rightarrow> usb_transport \<Rightarrow> bool" where
  "taken_from acc taken t \<longleftrightarrow> queues_ok t \<and>
    ctl_jobs acc = ctl_jobs taken @ queued (tx_control_queue t) \<and>
    data_jobs acc = data_jobs taken @ queued (tx_data_queue t)"

definition same_queues :: "usb_transport \<Rightarrow> usb_transport \<Rightarrow> bool" where
  "same_queues t' t \<longleftrightarrow> tx_control_queue t' = tx_control_queue t \<and> tx_data_queue t' = tx_data_queue t"

lemma taken_from_same: "same_queues t' t \<Longrightarrow> taken_from acc taken t' = taken_from acc taken t"
  by (simp add: taken_from_def queues_ok_def same_queues_def)

lemma recv_queue_spec:
  assumes "taken_from acc taken t" "recv_queue i t k = (j, t', k')"
  shows "taken_from acc (taken @ (case j of None \<Rightarrow> [] | Some x \<Rightarrow> [(i = 0, x)])) t'"
    and "j = None \<Longrightarrow> queued (if i = 0 then tx_control_queue t' else tx_data_queue t') = []"
    and "j = Some x \<Longrightarrow>
      queued (if i = 0 then tx_control_queue t else tx_data_queue t) =
        x # queued (if i = 0 then tx_control_queue t' else tx_data_queue t')"
    and "reset_pending t' = reset_pending t" "on_reset_set t' = on_reset_set t"
    and "i = 0 \<Longrightarrow> tx_data_queue t' = tx_data_queue t"
    and "i \<noteq> 0 \<Longrightarrow> tx_control_queue t' = tx_control_queue t"
proof -
  have q: "tx_queue_ok 16 (tx_control_queue t)" "tx_queue_ok 8 (tx_data_queue t)"
    using assms(1) by (simp_all add: taken_from_def queues_ok_def)
  obtain q' where r: "recv_job (if i = 0 then tx_control_queue t else tx_data_queue t) k = (j, q', k')"
    and t': "t' = (if i = 0 then t\<lparr>tx_control_queue := q'\<rparr> else t\<lparr>tx_data_queue := q'\<rparr>)"
    using assms(2) by (auto simp: recv_queue_def split: prod.splits if_splits)
  have s: "tx_queue_ok (if i = 0 then 16 else 8) q'"
    "queued (if i = 0 then tx_control_queue t else tx_data_queue t) =
       (case j of None \<Rightarrow> [] | Some x \<Rightarrow> x # queued q')"
    "j = None \<Longrightarrow> queued q' = []"
    using recv_job_spec [OF _ r, of "if i = 0 then 16 else 8"] q by simp_all
  show "taken_from acc (taken @ (case j of None \<Rightarrow> [] | Some x \<Rightarrow> [(i = 0, x)])) t'"
    using assms(1) s t' by (cases j) (auto simp: taken_from_def queues_ok_def split: if_splits)
  show "j = None \<Longrightarrow> queued (if i = 0 then tx_control_queue t' else tx_data_queue t') = []"
    using s(3) t' by simp
  show "j = Some x \<Longrightarrow>
      queued (if i = 0 then tx_control_queue t else tx_data_queue t) =
        x # queued (if i = 0 then tx_control_queue t' else tx_data_queue t')"
    using s(2) t' by (cases "i = 0") auto
  show "reset_pending t' = reset_pending t" "on_reset_set t' = on_reset_set t"
    "i = 0 \<Longrightarrow> tx_data_queue t' = tx_data_queue t"
    "i \<noteq> 0 \<Longrightarrow> tx_control_queue t' = tx_control_queue t"
    by (simp_all add: t')
qed

lemma submit_spec:
  assumes "taken_from acc taken t"
    and "wlh_transport_submit_tx lc rpc job mem t k = (r, t', k')"
  shows "taken_from (acc @ (if r = 0 then [(is_control_frame lc rpc (job_frame job) mem (job_size job), job)]
                             else [])) taken t'"
    and "r = 0 \<or> r = - 1"
proof -
  let ?c = "is_control_frame lc rpc (job_frame job) mem (job_size job)"
  obtain out q k1 where s: "rt_mq_send_wait (job_bytes job) sizeof_tx_job 0
      (if ?c then tx_control_queue t else tx_data_queue t) k = (out, q, k1)"
    by (cases "rt_mq_send_wait (job_bytes job) sizeof_tx_job 0
      (if ?c then tx_control_queue t else tx_data_queue t) k")
  have "tx_queue_ok (if ?c then 16 else 8) (if ?c then tx_control_queue t else tx_data_queue t)"
    using assms(1) by (simp add: taken_from_def queues_ok_def)
  note j = send_job_spec [OF this s]
  show "taken_from (acc @ (if r = 0 then [(?c, job)] else [])) taken t'"
    using assms s j by (cases ?c) (auto simp: wlh_transport_submit_tx_def Let_def taken_from_def
        queues_ok_def error_codes split: prod.splits if_splits)
  show "r = 0 \<or> r = - 1"
    using assms(2) by (auto simp: wlh_transport_submit_tx_def Let_def split: prod.splits if_splits)
qed

lemma event_same_queues:
  "usb_event_handler ev t k = (t', k') \<Longrightarrow> same_queues t' t"
  "in_endpoint_callback t k = (t', k') \<Longrightarrow> same_queues t' t"
  by (auto simp: usb_event_handler_def in_endpoint_callback_def same_queues_def arm_out_read_def Let_def
      split: usb_event.splits prod.splits if_splits)

section \<open>Accounting\<close>

text \<open>Jobs with a frame; the thread skips the others.\<close>

definition real_jobs :: "(bool \<times> tx_job) list \<Rightarrow> tx_job list" where
  "real_jobs xs = filter (\<lambda>j. job_frame j \<noteq> 0) (map snd xs)"

fun in_hand :: "tx_pc \<Rightarrow> tx_job list" where
  "in_hand (TxGate j) = [j]"
| "in_hand (TxGateWait j) = [j]"
| "in_hand (TxCheck j) = [j]"
| "in_hand (TxDrop j) = [j]"
| "in_hand (TxWrite j) = [j]"
| "in_hand (TxSent j) = [j]"
| "in_hand (TxResult j) = [j]"
| "in_hand (TxFinish j s) = [j]"
| "in_hand (TxFlush i (AfterTimeout j)) = [j]"
| "in_hand _ = []"

text \<open>The job the thread holds and has not given to the endpoint yet.\<close>

fun unwritten :: "tx_pc \<Rightarrow> tx_job list" where
  "unwritten (TxGate j) = [j]"
| "unwritten (TxGateWait j) = [j]"
| "unwritten (TxCheck j) = [j]"
| "unwritten (TxDrop j) = [j]"
| "unwritten (TxWrite j) = [j]"
| "unwritten _ = []"

fun completed_jobs :: "tx_event list \<Rightarrow> tx_job list" where
  "completed_jobs [] = []"
| "completed_jobs (Completed j s # es) = j # completed_jobs es"
| "completed_jobs (e # es) = completed_jobs es"

fun written_frames :: "tx_event list \<Rightarrow> (u32 \<times> u32) list" where
  "written_frames [] = []"
| "written_frames (WriteIn f n # es) = (f, n) # written_frames es"
| "written_frames (e # es) = written_frames es"

definition frame_of :: "tx_job \<Rightarrow> u32 \<times> u32" where
  "frame_of j = (job_frame j, job_size j)"

lemma completed_append [simp]: "completed_jobs (a @ b) = completed_jobs a @ completed_jobs b"
  by (induction a rule: completed_jobs.induct) auto

lemma written_append [simp]: "written_frames (a @ b) = written_frames a @ written_frames b"
  by (induction a rule: written_frames.induct) auto

lemma on_reset_log [simp]:
  "completed_jobs (call_on_reset t) = []" "written_frames (call_on_reset t) = []"
  by (simp_all add: call_on_reset_def)

lemma real_jobs_simps [simp]:
  "real_jobs [] = []" "real_jobs (xs @ ys) = real_jobs xs @ real_jobs ys"
  "real_jobs [(c, j)] = (if job_frame j = 0 then [] else [j])"
  by (simp_all add: real_jobs_def)

text \<open>
  \<open>taken\<close> accounts for the state: every job received is completed or in the thread's hand,
  once, and the frames written are received jobs in the order of their reception.
\<close>

definition tx_books :: "(bool \<times> tx_job) list \<Rightarrow> tx_sys \<Rightarrow> bool" where
  "tx_books taken y \<longleftrightarrow>
    mset (real_jobs taken) = mset (in_hand (ts_pc y)) + mset (completed_jobs (ts_log y)) \<and>
    subseq (written_frames (ts_log y) @ map frame_of (unwritten (ts_pc y)))
      (map frame_of (real_jobs taken))"

definition tx_inv :: "tx_sys \<Rightarrow> bool" where
  "tx_inv y \<longleftrightarrow> (\<exists>taken. taken_from (ts_accepted y) taken (ts_t y) \<and> tx_books taken y)"

lemma tx_invI: "taken_from (ts_accepted y) taken (ts_t y) \<Longrightarrow> tx_books taken y \<Longrightarrow> tx_inv y"
  by (auto simp: tx_inv_def)

lemma subseq_snoc: "subseq xs ys \<Longrightarrow> subseq xs (ys @ zs)"
  by (rule list_emb_prefix)

lemma flush_step_inv:
  assumes "tx_inv y" "ts_pc y = TxFlush i cont"
  shows "tx_inv (flush_tx_queue_step cancelled i cont y)"
proof -
  obtain taken where t: "taken_from (ts_accepted y) taken (ts_t y)" "tx_books taken y"
    using assms(1) by (auto simp: tx_inv_def)
  have u: "unwritten (TxFlush n cont) = []" for n by simp
  have h: "in_hand (TxFlush n cont) = (case cont of AfterReset \<Rightarrow> [] | AfterTimeout j \<Rightarrow> [j])" for n
    by (cases cont) simp_all
  show ?thesis
  proof (cases "i < 2")
    case True
    obtain j t' k' where r: "recv_queue i (ts_t y) (ts_k y) = (j, t', k')"
      by (cases "recv_queue i (ts_t y) (ts_k y)")
    note q = recv_queue_spec [OF t(1) r]
    show ?thesis
    proof (cases j)
      case None
      then show ?thesis
        using True r q(1) t(2) assms(2) u h
        by (auto simp: flush_tx_queue_step_def tx_inv_def tx_books_def)
    next
      case (Some x)
      have "tx_books (taken @ [(i = 0, x)]) (flush_tx_queue_step cancelled i cont y)"
        using True r Some t(2) assms(2) u h
        by (simp add: flush_tx_queue_step_def tx_books_def subseq_snoc)
      then show ?thesis
        using True r Some q(1) by (auto simp: flush_tx_queue_step_def tx_inv_def)
    qed
  next
    case False
    then show ?thesis
      using t assms(2) by (auto simp: flush_tx_queue_step_def tx_inv_def tx_books_def
          split: flush_cont.split)
  qed
qed

lemma pick_inv:
  assumes "tx_inv y" "ts_pc y = TxPick \<or> ts_pc y = TxLoop" "recv_queue i (ts_t y) (ts_k y) = (j, t', k')"
    and "y' = y\<lparr>ts_t := t', ts_k := k', ts_pc := pc\<rparr>"
    and "pc = (case j of None \<Rightarrow> TxPick | Some x \<Rightarrow> if job_frame x = 0 then TxLoop else TxGate x)"
  shows "tx_inv y'"
proof -
  obtain taken where t: "taken_from (ts_accepted y) taken (ts_t y)" "tx_books taken y"
    using assms(1) by (auto simp: tx_inv_def)
  note q = recv_queue_spec [OF t(1) assms(3)]
  show ?thesis
  proof (cases j)
    case None
    then show ?thesis using q(1) t(2) assms(2,4,5) by (auto simp: tx_inv_def tx_books_def)
  next
    case (Some x)
    have "tx_books (taken @ [(i = 0, x)]) y'"
      using t(2) assms(2,4,5) Some by (auto simp: tx_books_def intro: list_emb_append_mono)
    then show ?thesis using q(1) assms(4) Some by (auto simp: tx_inv_def)
  qed
qed

text \<open>A step that moves no job: the queues stay and the books still balance.\<close>

lemma tx_inv_still:
  assumes "tx_inv y" "same_queues (ts_t y') (ts_t y)" "ts_accepted y' = ts_accepted y"
    and "mset (in_hand (ts_pc y')) + mset (completed_jobs (ts_log y')) =
      mset (in_hand (ts_pc y)) + mset (completed_jobs (ts_log y))"
    and "subseq (written_frames (ts_log y') @ map frame_of (unwritten (ts_pc y')))
      (written_frames (ts_log y) @ map frame_of (unwritten (ts_pc y)))"
  shows "tx_inv y'"
proof -
  obtain taken where t: "taken_from (ts_accepted y) taken (ts_t y)" "tx_books taken y"
    using assms(1) by (auto simp: tx_inv_def)
  have "taken_from (ts_accepted y') taken (ts_t y')"
    using t(1) assms(2,3) by (simp add: taken_from_same)
  moreover have "tx_books taken y'"
    using t(2) assms(4) subseq_order.order_trans [OF assms(5)] by (simp add: tx_books_def)
  ultimately show ?thesis by (auto simp: tx_inv_def)
qed

lemma thread_quiet:
  assumes "tx_thread_step cancelled ok expired y = Some y'"
    and "ts_pc y \<noteq> TxPick" "\<And>i cont. ts_pc y \<noteq> TxFlush i cont"
  shows "same_queues (ts_t y') (ts_t y)" "ts_accepted y' = ts_accepted y"
    and "mset (in_hand (ts_pc y')) + mset (completed_jobs (ts_log y')) =
      mset (in_hand (ts_pc y)) + mset (completed_jobs (ts_log y))"
    and "subseq (written_frames (ts_log y') @ map frame_of (unwritten (ts_pc y')))
      (written_frames (ts_log y) @ map frame_of (unwritten (ts_pc y)))"
  using assms
  by (cases "ts_pc y"; auto simp: tx_thread_step_def Let_def same_queues_def frame_of_def
      intro: subseq_snoc split: if_splits prod.splits)+

lemma thread_step_inv:
  assumes "tx_inv y" "tx_thread_step cancelled ok expired y = Some y'"
  shows "tx_inv y'"
proof (cases "ts_pc y")
  case (TxFlush i cont)
  then show ?thesis
    using flush_step_inv [OF assms(1) TxFlush] assms(2) by (auto simp: tx_thread_step_def Let_def)
next
  case TxPick
  obtain j t1 k1 where r: "recv_queue 0 (ts_t y) (ts_k y) = (j, t1, k1)"
    by (cases "recv_queue 0 (ts_t y) (ts_k y)")
  show ?thesis
  proof (cases j)
    case None
    let ?y1 = "y\<lparr>ts_t := t1, ts_k := k1, ts_pc := TxPick\<rparr>"
    have 1: "tx_inv ?y1" using pick_inv [OF assms(1) _ r, of ?y1] TxPick None by simp
    obtain j2 t2 k2 where r2: "recv_queue 1 t1 k1 = (j2, t2, k2)" by (cases "recv_queue 1 t1 k1")
    show ?thesis
    proof (cases j2)
      case None
      have "tx_inv (?y1\<lparr>ts_t := t2, ts_k := k2, ts_pc := TxPick\<rparr>)"
        using pick_inv [OF 1 _ _ refl, of 1 j2 t2 k2] r2 None by simp
      then show ?thesis
        using assms(2) TxPick \<open>j = None\<close> None r r2
        by (auto simp: tx_thread_step_def Let_def tx_inv_def tx_books_def)
    next
      case (Some x)
      have "tx_inv (?y1\<lparr>ts_t := t2, ts_k := k2, ts_pc := if job_frame x = 0 then TxLoop else TxGate x\<rparr>)"
        using pick_inv [OF 1 _ _ refl, of 1 j2 t2 k2] r2 Some by simp
      then show ?thesis
        using assms(2) TxPick \<open>j = None\<close> Some r r2 by (auto simp: tx_thread_step_def Let_def)
    qed
  next
    case (Some x)
    then show ?thesis
      using pick_inv [OF assms(1) _ r refl] assms(2) TxPick r
      by (auto simp: tx_thread_step_def Let_def)
  qed
qed (rule tx_inv_still [OF assms(1) thread_quiet [OF assms(2)]]; simp)+

lemma tx_step_inv: "tx_step cancelled lc rpc y y' \<Longrightarrow> tx_inv y \<Longrightarrow> tx_inv y'"
proof (induction rule: tx_step.induct)
  case (thread ok expired y y')
  then show ?case by (auto intro: thread_step_inv)
next
  case (submit job mem y r t' k')
  then obtain taken where t: "taken_from (ts_accepted y) taken (ts_t y)" and b: "tx_books taken y"
    by (auto simp: tx_inv_def)
  from submit_spec(1) [OF t submit(1)] b show ?case
    by (intro tx_invI [of _ taken]) (simp_all add: tx_books_def)
next
  case (event ev y t' k')
  then show ?case by (elim tx_inv_still) (auto intro: event_same_queues)
next
  case (in_done y t' k')
  then show ?case by (elim tx_inv_still) (auto intro: event_same_queues)
qed

lemma tx_reach_inv: "tx_reach cancelled lc rpc y y' \<Longrightarrow> tx_inv y \<Longrightarrow> tx_inv y'"
  by (induction rule: tx_reach.induct) (auto intro: tx_step_inv)

section \<open>Acknowledged frames\<close>

text \<open>Status 0 is reported only right after the write of that frame.\<close>

definition acked :: "tx_event list \<Rightarrow> bool" where
  "acked log \<longleftrightarrow> (\<forall>i<length log. \<forall>j. log ! i = Completed j 0 \<longrightarrow>
     0 < i \<and> log ! (i - 1) = WriteIn (job_frame j) (job_size j))"

fun successes :: "tx_event list \<Rightarrow> nat" where
  "successes [] = 0"
| "successes (Completed j s # es) = (if s = 0 then 1 else 0) + successes es"
| "successes (e # es) = successes es"

lemma successes_append [simp]: "successes (a @ b) = successes a + successes b"
  by (induction a rule: successes.induct) auto

lemma acked_snoc:
  "acked (log @ [e]) \<longleftrightarrow> acked log \<and> (\<forall>j. e = Completed j 0 \<longrightarrow>
     log \<noteq> [] \<and> last log = WriteIn (job_frame j) (job_size j))"
proof -
  have "acked (log @ [e]) \<longleftrightarrow> acked log \<and> (\<forall>j. e = Completed j 0 \<longrightarrow>
     0 < length log \<and> log ! (length log - 1) = WriteIn (job_frame j) (job_size j))"
    by (auto simp: acked_def nth_append less_Suc_eq split: if_splits)
  then show ?thesis by (auto simp: last_conv_nth)
qed

lemma acked_on_reset [simp]:
  "acked (log @ call_on_reset t) = acked log" "successes (call_on_reset t) = 0"
  by (auto simp: call_on_reset_def acked_snoc)

fun sent_job :: "tx_pc \<Rightarrow> tx_job list" where
  "sent_job (TxSent j) = [j]"
| "sent_job (TxResult j) = [j]"
| "sent_job (TxFinish j s) = (if s = 0 then [j] else [])"
| "sent_job _ = []"

definition ack_inv :: "tx_sys \<Rightarrow> bool" where
  "ack_inv y \<longleftrightarrow> acked (ts_log y) \<and>
    (\<forall>j\<in>set (sent_job (ts_pc y)). ts_log y \<noteq> [] \<and>
       last (ts_log y) = WriteIn (job_frame j) (job_size j)) \<and>
    tx_frames (stats (ts_t y)) = word_of_nat (successes (ts_log y))"

lemma recv_queue_stats: "recv_queue i t k = (j, t', k') \<Longrightarrow> stats t' = stats t"
  by (auto simp: recv_queue_def split: prod.splits if_splits)

lemma acked_finish:
  "acked (log @ Completed j s # call_on_reset t) = acked (log @ [Completed j s])"
  using acked_on_reset(1) [of "log @ [Completed j s]" t] by simp

lemma thread_ack_inv:
  assumes "tx_thread_step cancelled ok expired y = Some y'" "ack_inv y" "cancelled \<noteq> 0"
  shows "ack_inv y'"
proof (cases "ts_pc y")
  case (TxFlush i cont)
  then show ?thesis using assms
    by (cases cont) (auto simp: tx_thread_step_def flush_tx_queue_step_def ack_inv_def Let_def acked_snoc
        recv_queue_stats split: if_splits prod.splits option.splits)
qed (use assms in \<open>auto simp: tx_thread_step_def ack_inv_def Let_def acked_snoc acked_finish
      recv_queue_stats split: if_splits prod.splits option.splits\<close>)

lemma event_stats:
  "usb_event_handler ev t k = (t', k') \<Longrightarrow> tx_frames (stats t') = tx_frames (stats t)"
  "in_endpoint_callback t k = (t', k') \<Longrightarrow> tx_frames (stats t') = tx_frames (stats t)"
  "wlh_transport_submit_tx lc rpc job mem t k = (r, t', k') \<Longrightarrow>
     tx_frames (stats t') = tx_frames (stats t)"
  by (auto simp: usb_event_handler_def in_endpoint_callback_def wlh_transport_submit_tx_def
      arm_out_read_def Let_def split: usb_event.splits prod.splits if_splits)

lemma tx_step_ack: "tx_step cancelled lc rpc y y' \<Longrightarrow> cancelled \<noteq> 0 \<Longrightarrow> ack_inv y \<Longrightarrow> ack_inv y'"
  by (induction rule: tx_step.induct)
    (auto intro: thread_ack_inv, auto simp: ack_inv_def event_stats)

lemma tx_reach_ack: "tx_reach cancelled lc rpc y y' \<Longrightarrow> cancelled \<noteq> 0 \<Longrightarrow> ack_inv y \<Longrightarrow> ack_inv y'"
  by (induction rule: tx_reach.induct) (auto intro: tx_step_ack)

section \<open>Wake-ups\<close>

definition work_left :: "usb_transport \<Rightarrow> bool" where
  "work_left t \<longleftrightarrow> reset_pending t \<or> queued (tx_control_queue t) \<noteq> [] \<or> queued (tx_data_queue t) \<noteq> []"

definition wake_inv :: "tx_sys \<Rightarrow> bool" where
  "wake_inv y \<longleftrightarrow>
    (let t = ts_t y; v = sem_value (tx_wakeup t)
     in sem_waiters (tx_wakeup t) = [] \<and> sem_max_value (tx_wakeup t) = 65535 \<and> queues_ok t \<and>
        (ts_pc y = TxWait \<and> work_left t \<longrightarrow> v \<noteq> 0) \<and>
        (ts_pc y = TxPick \<and> reset_pending t \<longrightarrow> v \<noteq> 0))"

definition gate_inv :: "tx_sys \<Rightarrow> bool" where
  "gate_inv y \<longleftrightarrow>
    (let t = ts_t y
     in sem_waiters (configured_gate t) = [] \<and> sem_max_value (configured_gate t) = 65535 \<and>
        ((\<exists>j. ts_pc y = TxGateWait j) \<and> configured t \<longrightarrow> sem_value (configured_gate t) \<noteq> 0))"

lemma recv_queue_frame:
  "recv_queue i t k = (j, t', k') \<Longrightarrow> tx_wakeup t' = tx_wakeup t \<and> reset_pending t' = reset_pending t \<and>
    configured_gate t' = configured_gate t \<and> configured t' = configured t"
  by (auto simp: recv_queue_def split: prod.splits if_splits)

lemma recv_queue_ok:
  assumes "queues_ok t" "recv_queue i t k = (j, t', k')"
  shows "queues_ok t'" and "j = None \<Longrightarrow> i = 0 \<Longrightarrow> queued (tx_control_queue t') = []"
    and "j = None \<Longrightarrow> i \<noteq> 0 \<Longrightarrow> queued (tx_data_queue t') = []"
    and "i \<noteq> 0 \<Longrightarrow> tx_control_queue t' = tx_control_queue t"
proof -
  have "taken_from (map (Pair True) (queued (tx_control_queue t)) @
      map (Pair False) (queued (tx_data_queue t))) [] t"
    using assms(1) by (simp add: taken_from_def ctl_jobs_def data_jobs_def filter_map comp_def)
  note s = recv_queue_spec [OF this assms(2)]
  show "queues_ok t'" using s(1) by (simp add: taken_from_def)
  show "j = None \<Longrightarrow> i = 0 \<Longrightarrow> queued (tx_control_queue t') = []"
    "j = None \<Longrightarrow> i \<noteq> 0 \<Longrightarrow> queued (tx_data_queue t') = []"
    "i \<noteq> 0 \<Longrightarrow> tx_control_queue t' = tx_control_queue t"
    using s by auto
qed

lemma thread_wake_inv:
  assumes "tx_thread_step cancelled ok expired y = Some y'" "wake_inv y"
  shows "wake_inv y'"
proof (cases "ts_pc y")
  case TxPick
  obtain j t1 k1 where r: "recv_queue 0 (ts_t y) (ts_k y) = (j, t1, k1)"
    by (cases "recv_queue 0 (ts_t y) (ts_k y)")
  obtain j2 t2 k2 where r2: "recv_queue 1 t1 k1 = (j2, t2, k2)" by (cases "recv_queue 1 t1 k1")
  have ok: "queues_ok (ts_t y)" using assms(2) by (simp add: wake_inv_def Let_def)
  note q1 = recv_queue_ok [OF ok r]
  note q2 = recv_queue_ok [OF q1(1) r2]
  show ?thesis
    using assms TxPick r r2 q1 q2 recv_queue_frame [OF r] recv_queue_frame [OF r2]
    by (auto simp: tx_thread_step_def wake_inv_def Let_def work_left_def split: option.splits if_splits)
next
  case (TxFlush i cont)
  have ok: "queues_ok (ts_t y)" using assms(2) by (simp add: wake_inv_def Let_def)
  show ?thesis
    using assms TxFlush recv_queue_ok(1) [OF ok] recv_queue_frame
    by (cases cont) (auto simp: tx_thread_step_def flush_tx_queue_step_def wake_inv_def Let_def
        split: option.splits if_splits prod.splits)
next
  case TxWait
  then show ?thesis
    using assms take_token [of "tx_wakeup (ts_t y)" "-1" "ts_k y"]
    by (auto simp: tx_thread_step_def wake_inv_def Let_def queues_ok_def split: if_splits prod.splits)
qed (use assms in \<open>auto simp: tx_thread_step_def wake_inv_def Let_def queues_ok_def
      split: if_splits prod.splits\<close>)

lemma event_wake:
  assumes "sem_waiters (tx_wakeup t) = []" "sem_max_value (tx_wakeup t) = 65535"
    and "usb_event_handler ev t k = (t', k')"
  shows "sem_waiters (tx_wakeup t') = []" "sem_max_value (tx_wakeup t') = 65535"
    and "sem_value (tx_wakeup t) \<noteq> 0 \<Longrightarrow> sem_value (tx_wakeup t') \<noteq> 0"
    and "reset_pending t' \<Longrightarrow> reset_pending t \<or> sem_value (tx_wakeup t') \<noteq> 0"
proof -
  obtain r1 d k1 where 1: "rt_sem_release (tx_done t) k = (r1, d, k1)"
    by (cases "rt_sem_release (tx_done t) k")
  obtain r2 w k2 where 2: "rt_sem_release (tx_wakeup t) k1 = (r2, w, k2)"
    by (cases "rt_sem_release (tx_wakeup t) k1")
  note w = release_no_waiters [OF assms(1,2) 2]
  show "sem_waiters (tx_wakeup t') = []" "sem_max_value (tx_wakeup t') = 65535"
    "sem_value (tx_wakeup t) \<noteq> 0 \<Longrightarrow> sem_value (tx_wakeup t') \<noteq> 0"
    "reset_pending t' \<Longrightarrow> reset_pending t \<or> sem_value (tx_wakeup t') \<noteq> 0"
    using assms 1 2 w
    by (cases ev; auto simp: usb_event_handler_def Let_def arm_out_read_def
        split: prod.splits if_splits)+
qed

lemma tx_step_wake: "tx_step cancelled lc rpc y y' \<Longrightarrow> wake_inv y \<Longrightarrow> wake_inv y'"
proof (induction rule: tx_step.induct)
  case (thread ok expired y y')
  then show ?case by (auto intro: thread_wake_inv)
next
  case (submit job mem y r t' k')
  let ?t = "ts_t y"
  let ?c = "is_control_frame lc rpc (job_frame job) mem (job_size job)"
  let ?q = "if ?c then tx_control_queue ?t else tx_data_queue ?t"
  have w: "sem_waiters (tx_wakeup ?t) = []" "sem_max_value (tx_wakeup ?t) = 65535" "queues_ok ?t"
    using submit(2) by (simp_all add: wake_inv_def Let_def)
  obtain out q k1 where s: "rt_mq_send_wait (job_bytes job) sizeof_tx_job 0 ?q (ts_k y) = (out, q, k1)"
    by (cases "rt_mq_send_wait (job_bytes job) sizeof_tx_job 0 ?q (ts_k y)")
  have "tx_queue_ok (if ?c then 16 else 8) ?q" using w(3) by (simp add: queues_ok_def)
  note j = send_job_spec [OF this s]
  obtain rr sem k2 where rel: "rt_sem_release (tx_wakeup ?t) k1 = (rr, sem, k2)"
    by (cases "rt_sem_release (tx_wakeup ?t) k1")
  note n = release_no_waiters [OF w(1,2) rel]
  show ?case
    using submit s j n w rel
    by (cases ?c) (auto simp: wlh_transport_submit_tx_def Let_def wake_inv_def queues_ok_def
        work_left_def error_codes split: if_splits)
next
  case (event ev y t' k')
  have w: "sem_waiters (tx_wakeup (ts_t y)) = []" "sem_max_value (tx_wakeup (ts_t y)) = 65535"
    using event(2) by (simp_all add: wake_inv_def Let_def)
  have "same_queues t' (ts_t y)" using event_same_queues(1) [OF event(1)] .
  with event(2) event_wake [OF w event(1)] show ?case
    by (auto simp: wake_inv_def Let_def queues_ok_def work_left_def same_queues_def)
next
  case (in_done y t' k')
  then show ?case
    by (auto simp: in_endpoint_callback_def wake_inv_def Let_def queues_ok_def work_left_def
        split: prod.splits)
qed

lemma tx_reach_wake: "tx_reach cancelled lc rpc y y' \<Longrightarrow> wake_inv y \<Longrightarrow> wake_inv y'"
  by (induction rule: tx_reach.induct) (auto intro: tx_step_wake)

lemma thread_gate_inv:
  assumes "tx_thread_step cancelled ok expired y = Some y'" "gate_inv y"
  shows "gate_inv y'"
proof (cases "ts_pc y")
  case (TxFlush i cont)
  then show ?thesis
    using assms recv_queue_frame
    by (cases cont) (auto simp: tx_thread_step_def flush_tx_queue_step_def gate_inv_def Let_def
        split: option.splits if_splits prod.splits)
next
  case TxPick
  obtain j t1 k1 where r: "recv_queue 0 (ts_t y) (ts_k y) = (j, t1, k1)"
    by (cases "recv_queue 0 (ts_t y) (ts_k y)")
  obtain j2 t2 k2 where r2: "recv_queue 1 t1 k1 = (j2, t2, k2)" by (cases "recv_queue 1 t1 k1")
  show ?thesis
    using assms TxPick r r2 recv_queue_frame [OF r] recv_queue_frame [OF r2]
    by (auto simp: tx_thread_step_def gate_inv_def Let_def split: option.splits if_splits)
next
  case (TxGateWait j)
  then show ?thesis
    using assms take_token [of "configured_gate (ts_t y)" "-1" "ts_k y"]
    by (auto simp: tx_thread_step_def gate_inv_def Let_def split: if_splits prod.splits)
qed (use assms in \<open>auto simp: tx_thread_step_def gate_inv_def Let_def split: if_splits prod.splits\<close>)

lemma event_gate:
  assumes "sem_waiters (configured_gate t) = []" "sem_max_value (configured_gate t) = 65535"
    and "usb_event_handler ev t k = (t', k')"
  shows "sem_waiters (configured_gate t') = []" "sem_max_value (configured_gate t') = 65535"
    and "sem_value (configured_gate t) \<noteq> 0 \<Longrightarrow> sem_value (configured_gate t') \<noteq> 0"
    and "configured t' \<Longrightarrow> configured t \<or> sem_value (configured_gate t') \<noteq> 0"
proof -
  obtain r g k1 where rel: "rt_sem_release (configured_gate t) k = (r, g, k1)"
    by (cases "rt_sem_release (configured_gate t) k")
  note g = release_no_waiters [OF assms(1,2) rel]
  show "sem_waiters (configured_gate t') = []" "sem_max_value (configured_gate t') = 65535"
    "sem_value (configured_gate t) \<noteq> 0 \<Longrightarrow> sem_value (configured_gate t') \<noteq> 0"
    "configured t' \<Longrightarrow> configured t \<or> sem_value (configured_gate t') \<noteq> 0"
    using assms rel g
    by (cases ev; auto simp: usb_event_handler_def Let_def arm_out_read_def split: prod.splits if_splits)+
qed

lemma tx_step_gate: "tx_step cancelled lc rpc y y' \<Longrightarrow> gate_inv y \<Longrightarrow> gate_inv y'"
proof (induction rule: tx_step.induct)
  case (thread ok expired y y')
  then show ?case by (auto intro: thread_gate_inv)
next
  case (submit job mem y r t' k')
  then have "configured_gate t' = configured_gate (ts_t y) \<and> configured t' = configured (ts_t y)"
    by (auto simp: wlh_transport_submit_tx_def Let_def split: if_splits prod.splits)
  with submit(2) show ?case by (auto simp: gate_inv_def Let_def)
next
  case (event ev y t' k')
  have w: "sem_waiters (configured_gate (ts_t y)) = []" "sem_max_value (configured_gate (ts_t y)) = 65535"
    using event(2) by (simp_all add: gate_inv_def Let_def)
  from event(2) event_gate [OF w event(1)] show ?case by (auto simp: gate_inv_def Let_def)
next
  case (in_done y t' k')
  then show ?case by (auto simp: in_endpoint_callback_def gate_inv_def Let_def split: prod.splits)
qed

lemma tx_reach_gate: "tx_reach cancelled lc rpc y y' \<Longrightarrow> gate_inv y \<Longrightarrow> gate_inv y'"
  by (induction rule: tx_reach.induct) (auto intro: tx_step_gate)

section \<open>Draining the queues\<close>

fun tx_thread_run :: "int \<Rightarrow> bool \<Rightarrow> bool \<Rightarrow> nat \<Rightarrow> tx_sys \<Rightarrow> tx_sys option" where
  "tx_thread_run cancelled ok expired 0 y = Some y"
| "tx_thread_run cancelled ok expired (Suc n) y =
    (case tx_thread_step cancelled ok expired y of
       None \<Rightarrow> None
     | Some y' \<Rightarrow> tx_thread_run cancelled ok expired n y')"

lemma tx_thread_run_append:
  "tx_thread_run c ok ex m y = Some y1 \<Longrightarrow> tx_thread_run c ok ex n y1 = Some y2 \<Longrightarrow>
     tx_thread_run c ok ex (m + n) y = Some y2"
  by (induction m arbitrary: y) (auto split: option.splits)

definition cancel_all :: "int \<Rightarrow> tx_job list \<Rightarrow> tx_event list" where
  "cancel_all cancelled js = map (\<lambda>j. Completed j cancelled) (filter (\<lambda>j. job_frame j \<noteq> 0) js)"

lemma cancel_all_simps [simp]:
  "cancel_all c [] = []"
  "cancel_all c (j # js) = (if job_frame j = 0 then [] else [Completed j c]) @ cancel_all c js"
  by (simp_all add: cancel_all_def)

abbreviation same_status :: "usb_transport \<Rightarrow> usb_transport \<Rightarrow> bool" where
  "same_status t' t \<equiv> reset_pending t' = reset_pending t \<and> on_reset_set t' = on_reset_set t \<and>
     configured t' = configured t \<and> out_armed t' = out_armed t \<and> out_paused t' = out_paused t \<and>
     stopping t' = stopping t \<and> rx_ring t' = rx_ring t"

lemma recv_queue_status: "recv_queue i t k = (j, t', k') \<Longrightarrow> same_status t' t"
  by (auto simp: recv_queue_def split: prod.splits if_splits)

definition queue_no :: "nat \<Rightarrow> usb_transport \<Rightarrow> tx_job list" where
  "queue_no i t = queued (if i = 0 then tx_control_queue t else tx_data_queue t)"

lemma recv_queue_no:
  assumes "queues_ok t" "recv_queue i t k = (j, t', k')"
  shows "queues_ok t'" and "queue_no i t = (case j of None \<Rightarrow> [] | Some x \<Rightarrow> x # queue_no i t')"
    and "j = None \<Longrightarrow> queue_no i t' = []"
    and "(i = 0) \<noteq> (i' = 0) \<Longrightarrow> queue_no i' t' = queue_no i' t"
proof -
  have t: "taken_from (map (Pair True) (queued (tx_control_queue t)) @
      map (Pair False) (queued (tx_data_queue t))) [] t"
    using assms(1) by (simp add: taken_from_def ctl_jobs_def data_jobs_def filter_map comp_def)
  note s = recv_queue_spec [OF t assms(2)]
  show "queues_ok t'" using s(1) by (simp add: taken_from_def)
  show "queue_no i t = (case j of None \<Rightarrow> [] | Some x \<Rightarrow> x # queue_no i t')"
    using s t by (cases j) (auto simp: queue_no_def taken_from_def split: if_splits)
  show "j = None \<Longrightarrow> queue_no i t' = []" using s(2) by (simp add: queue_no_def)
  show "(i = 0) \<noteq> (i' = 0) \<Longrightarrow> queue_no i' t' = queue_no i' t"
    using s(6,7) by (auto simp: queue_no_def)
qed

lemma flush_one_queue:
  assumes "queues_ok (ts_t y)" "ts_pc y = TxFlush i cont" "i < 2"
  shows "\<exists>n y'. tx_thread_run c ok ex n y = Some y' \<and> ts_pc y' = TxFlush (Suc i) cont \<and>
    queues_ok (ts_t y') \<and> queue_no i (ts_t y') = [] \<and>
    (\<forall>i'. (i = 0) \<noteq> (i' = 0) \<longrightarrow> queue_no i' (ts_t y') = queue_no i' (ts_t y)) \<and>
    same_status (ts_t y') (ts_t y) \<and> ts_log y' = ts_log y @ cancel_all c (queue_no i (ts_t y))"
  using assms
proof (induction "queue_no i (ts_t y)" arbitrary: y)
  case Nil
  obtain j t' k' where r: "recv_queue i (ts_t y) (ts_k y) = (j, t', k')"
    by (cases "recv_queue i (ts_t y) (ts_k y)")
  note q = recv_queue_no [OF Nil(2) r]
  have j: "j = None" using q(2) Nil(1) by (cases j) auto
  have "tx_thread_run c ok ex 1 y = Some (y\<lparr>ts_t := t', ts_k := k', ts_pc := TxFlush (Suc i) cont\<rparr>)"
    using Nil(3,4) r j by (simp add: tx_thread_step_def flush_tx_queue_step_def Let_def)
  with q j recv_queue_status [OF r] Nil(1) show ?case
    by (intro exI [of _ 1] exI [of _ "y\<lparr>ts_t := t', ts_k := k', ts_pc := TxFlush (Suc i) cont\<rparr>"])
       (simp add: Nil(1) [symmetric])
next
  case (Cons x xs)
  obtain j t' k' where r: "recv_queue i (ts_t y) (ts_k y) = (j, t', k')"
    by (cases "recv_queue i (ts_t y) (ts_k y)")
  note q = recv_queue_no [OF Cons(3) r]
  have j: "j = Some x" and xs: "queue_no i t' = xs" using q(2) Cons(2) by (cases j; auto)+
  let ?y = "y\<lparr>ts_t := t', ts_k := k', ts_log := ts_log y @ cancel_all c [x]\<rparr>"
  have s: "tx_thread_step c ok ex y = Some ?y"
    using Cons(4,5) r j by (simp add: tx_thread_step_def flush_tx_queue_step_def Let_def)
  from Cons(1) [of ?y] q(1) xs Cons(4,5)
  obtain n y' where n: "tx_thread_run c ok ex n ?y = Some y'" "ts_pc y' = TxFlush (Suc i) cont"
    "queues_ok (ts_t y')" "queue_no i (ts_t y') = []"
    "\<forall>i'. (i = 0) \<noteq> (i' = 0) \<longrightarrow> queue_no i' (ts_t y') = queue_no i' t'"
    "same_status (ts_t y') t'" "ts_log y' = ts_log ?y @ cancel_all c xs"
    by auto
  have "tx_thread_run c ok ex (Suc n) y = Some y'" using s n(1) by simp
  with n(2-7) q(4) recv_queue_status [OF r] show ?case
    by (intro exI [of _ "Suc n"] exI [of _ y']) (auto simp: Cons(2) [symmetric])
qed

definition queues_empty :: "usb_transport \<Rightarrow> bool" where
  "queues_empty t \<longleftrightarrow> mq_messages (tx_control_queue t) = [] \<and> mq_messages (tx_data_queue t) = []"

abbreviation flushed :: "int \<Rightarrow> usb_transport \<Rightarrow> tx_event list" where
  "flushed c t \<equiv> cancel_all c (queued (tx_control_queue t) @ queued (tx_data_queue t))"

lemma flush_both_queues:
  assumes "queues_ok (ts_t y)" "ts_pc y = TxFlush 0 cont"
  shows "\<exists>n y'. tx_thread_run c ok ex n y = Some y' \<and> ts_pc y' = TxFlush 2 cont \<and>
    queues_ok (ts_t y') \<and> queues_empty (ts_t y') \<and> same_status (ts_t y') (ts_t y) \<and>
    ts_log y' = ts_log y @ flushed c (ts_t y)"
proof -
  obtain n1 y1 where 1: "tx_thread_run c ok ex n1 y = Some y1" "ts_pc y1 = TxFlush 1 cont"
    "queues_ok (ts_t y1)" "queue_no 0 (ts_t y1) = []"
    "queue_no 1 (ts_t y1) = queue_no 1 (ts_t y)" "same_status (ts_t y1) (ts_t y)"
    "ts_log y1 = ts_log y @ cancel_all c (queue_no 0 (ts_t y))"
    using flush_one_queue [OF assms, of c ok ex] by auto
  obtain n2 y2 where 2: "tx_thread_run c ok ex n2 y1 = Some y2" "ts_pc y2 = TxFlush 2 cont"
    "queues_ok (ts_t y2)" "queue_no 1 (ts_t y2) = []"
    "queue_no 0 (ts_t y2) = queue_no 0 (ts_t y1)" "same_status (ts_t y2) (ts_t y1)"
    "ts_log y2 = ts_log y1 @ cancel_all c (queue_no 1 (ts_t y1))"
    using flush_one_queue [OF 1(3,2), of c ok ex] by (auto simp: numeral_2_eq_2)
  have "queues_empty (ts_t y2)"
    using 1(4) 2(4,5) by (simp add: queues_empty_def queue_no_def queued_def)
  with 1 2 tx_thread_run_append [OF 1(1) 2(1)] show ?thesis
    by (intro exI [of _ "n1 + n2"] exI [of _ y2]) (auto simp: queue_no_def cancel_all_def)
qed

section \<open>The state after a start\<close>

abbreviation started ::
    "u32 \<Rightarrow> bool \<Rightarrow> (nat \<Rightarrow> rt_mq_message) \<Rightarrow> (nat \<Rightarrow> rt_mq_message) \<Rightarrow> usb_transport \<Rightarrow> bool" where
  "started mx reset_set ctl_pool data_pool t \<equiv>
    wlh_transport_start True mx reset_set (\<lambda>_. Some ctl_pool) (\<lambda>_. Some data_pool) (\<lambda>_. True)
      True True None = (0, Some t) \<and>
    mq_pool_fits ctl_pool 16 16 \<and> mq_pool_fits data_pool 16 8"

lemma created_queue:
  assumes "rt_mq_create True (\<lambda>_. Some pool) sizeof_tx_job n RT_IPC_FLAG_PRIO = Some q"
    and "mq_pool_fits pool 16 n" "unat n < 65536"
  shows "tx_queue_ok (unat n) q" "queued q = []" "mq_messages q = []"
proof -
  have "unat sizeof_tx_job < 65536" "mq_pool_fits pool sizeof_tx_job n"
    using assms(2) by (simp_all add: sizeof_tx_job_def)
  note c = mq_created [OF assms(1) this(1) assms(3) this(2)]
  have "msg_size q = 16" using c(5) by (simp add: word_unat_eq_iff sizeof_tx_job_def)
  with c show "tx_queue_ok (unat n) q" "queued q = []" "mq_messages q = []"
    by (simp_all add: tx_queue_ok_def queued_def)
qed

lemma started_facts:
  assumes "started mx reset_set ctl_pool data_pool t"
  shows "queues_ok t" "queues_empty t" "stats t = zero_stats"
    and "tx_wakeup t = sem_object_init 0 RT_IPC_FLAG_PRIO RT_SEM_VALUE_MAX"
    and "configured_gate t = sem_object_init 0 RT_IPC_FLAG_PRIO RT_SEM_VALUE_MAX"
    and "\<not> reset_pending t" "\<not> configured t" "\<not> out_armed t" "\<not> initial_configuration_seen t"
    and "mx \<le> WLH_WIRE_MAX_FRAME_SIZE"
    and "rx_fresh mx (t\<lparr>out_armed := True\<rparr>)"
proof -
  have mx: "mx \<le> WLH_WIRE_MAX_FRAME_SIZE"
    using assms by (auto simp: wlh_transport_start_def split: if_splits)
  obtain ctl dat ring where o:
      "rt_mq_create True (\<lambda>_. Some ctl_pool) sizeof_tx_job WLH_USB_CONTROL_TX_QUEUE_DEPTH
         RT_IPC_FLAG_PRIO = Some ctl"
      "rt_mq_create True (\<lambda>_. Some data_pool) sizeof_tx_job WLH_USB_DATA_TX_QUEUE_DEPTH
         RT_IPC_FLAG_PRIO = Some dat"
      "rt_ringbuffer_init (replicate (unat WLH_USB_RX_RING_SIZE) 0) WLH_USB_RX_RING_SIZE = Some ring"
    by (simp add: rt_mq_create_def Let_def rt_ringbuffer_init_def usb_consts)
  define sem where "sem = sem_object_init 0 RT_IPC_FLAG_PRIO RT_SEM_VALUE_MAX"
  have s: "rt_sem_create True 0 RT_IPC_FLAG_PRIO = Some (Some sem)"
    by (simp add: rt_sem_create_def sem_def)
  have t: "t = \<lparr>max_frame_size = mx, on_reset_set = reset_set,
       tx_control_queue = ctl, tx_data_queue = dat,
       tx_done = sem, tx_wakeup = sem, rx_avail = sem, configured_gate = sem,
       rx_ring = ring, stopping = False, reset_pending = False, configured = False,
       out_paused = False, initial_configuration_seen = False, stats = zero_stats,
       rx_frame = replicate (unat sizeof_rx_frame) 0, rx_frame_length = 0,
       resync_active = False, last_frame_size = 0, out_armed = False\<rparr>"
    using assms mx o s by (simp add: wlh_transport_start_def Let_def not_less [symmetric])
  have "mq_pool_fits ctl_pool 16 WLH_USB_CONTROL_TX_QUEUE_DEPTH"
    "mq_pool_fits data_pool 16 WLH_USB_DATA_TX_QUEUE_DEPTH"
    using assms by (simp_all add: WLH_USB_CONTROL_TX_QUEUE_DEPTH_def WLH_USB_DATA_TX_QUEUE_DEPTH_def)
  note cq = created_queue [OF o(1) this(1)] and dq = created_queue [OF o(2) this(2)]
  show "queues_ok t" "queues_empty t" "stats t = zero_stats"
    "tx_wakeup t = sem_object_init 0 RT_IPC_FLAG_PRIO RT_SEM_VALUE_MAX"
    "configured_gate t = sem_object_init 0 RT_IPC_FLAG_PRIO RT_SEM_VALUE_MAX"
    "\<not> reset_pending t" "\<not> configured t" "\<not> out_armed t" "\<not> initial_configuration_seen t"
    "mx \<le> WLH_WIRE_MAX_FRAME_SIZE"
    using cq dq mx by (simp_all add: t queues_ok_def queues_empty_def sem_def
        WLH_USB_CONTROL_TX_QUEUE_DEPTH_def WLH_USB_DATA_TX_QUEUE_DEPTH_def)
  show "rx_fresh mx (t\<lparr>out_armed := True\<rparr>)"
    using o(3) by (simp add: t rx_fresh_def sem_def zero_stats_def sizeof_rx_frame_nat usb_consts)
qed

lemma tx_start_invs:
  assumes "started mx reset_set ctl_pool data_pool t"
  shows "tx_inv (tx_start t k)" "ack_inv (tx_start t k)" "wake_inv (tx_start t k)" "gate_inv (tx_start t k)"
proof -
  note f = started_facts [OF assms]
  have q: "queued (tx_control_queue t) = []" "queued (tx_data_queue t) = []"
    using f(2) by (simp_all add: queues_empty_def queued_def)
  show "tx_inv (tx_start t k)"
    using f(1) q by (intro tx_invI [of _ "[]"])
      (simp_all add: tx_start_def taken_from_def tx_books_def)
  show "ack_inv (tx_start t k)"
    using f(3) by (simp add: ack_inv_def acked_def tx_start_def zero_stats_def)
  show "wake_inv (tx_start t k)"
    using f(1,4,6) q
    by (simp add: wake_inv_def Let_def tx_start_def work_left_def sem_object_init_def RT_SEM_VALUE_MAX_def)
  show "gate_inv (tx_start t k)"
    using f(5) by (simp add: gate_inv_def Let_def tx_start_def sem_object_init_def RT_SEM_VALUE_MAX_def)
qed

section \<open>Properties\<close>

text \<open>C2
  Exactly-once completion.  From a started transport, in every state any interleaving of
  submissions, device events, IN completions and thread steps can reach, the jobs the thread
  has received are, for each of the two classes, a prefix of the accepted jobs in their order,
  the rest being still queued; every received job with a frame has been completed exactly once
  or is the one in the thread's hand; and the frames written to the endpoint are received jobs
  in the order of their reception.
\<close>

theorem tx_accounts_for_every_job:
  assumes "started mx reset_set ctl_pool data_pool t"
    and "tx_reach cancelled link_control control_rpc (tx_start t k) y"
  shows "\<exists>taken.
    ctl_jobs (ts_accepted y) = ctl_jobs taken @ queued (tx_control_queue (ts_t y)) \<and>
    data_jobs (ts_accepted y) = data_jobs taken @ queued (tx_data_queue (ts_t y)) \<and>
    mset (real_jobs taken) = mset (in_hand (ts_pc y)) + mset (completed_jobs (ts_log y)) \<and>
    subseq (written_frames (ts_log y)) (map frame_of (real_jobs taken))"
proof -
  obtain taken where "taken_from (ts_accepted y) taken (ts_t y)" and b: "tx_books taken y"
    using tx_reach_inv [OF assms(2) tx_start_invs(1) [OF assms(1)]] by (auto simp: tx_inv_def)
  moreover have "subseq (written_frames (ts_log y)) (map frame_of (real_jobs taken))"
    using b unfolding tx_books_def
    by (meson subseq_order.order_trans subseq_snoc subseq_order.order_refl)
  ultimately show ?thesis by (auto simp: taken_from_def tx_books_def)
qed

text \<open>
  Success is never reported for a frame that was not written: in every reachable state each
  completion with status 0 directly follows the write of exactly that frame to the IN endpoint
  in the sequence of calls, and the counter of transmitted frames is the number of these
  completions (modulo 2^32).
\<close>

theorem tx_success_means_written:
  assumes "started mx reset_set ctl_pool data_pool t" and "cancelled \<noteq> 0"
    and "tx_reach cancelled link_control control_rpc (tx_start t k) y"
  shows "tx_frames (stats (ts_t y)) = word_of_nat (successes (ts_log y)) \<and>
    (\<forall>i<length (ts_log y). \<forall>j. ts_log y ! i = Completed j 0 \<longrightarrow>
       0 < i \<and> ts_log y ! (i - 1) = WriteIn (job_frame j) (job_size j))"
  using tx_reach_ack [OF assms(3,2) tx_start_invs(2) [OF assms(1)]]
  by (simp add: ack_inv_def acked_def)

text \<open>C10
  No lost wake-up at the two places where the transmit thread waits for ever, in every reachable
  state: while it waits for work with no token to wake it, no reset is pending and both queues
  are empty; and while it waits at the gate with no token there, the device is not configured.
  (A reset does not wake the thread at the gate: it is handled after the next CONFIGURED event.)
\<close>

theorem tx_no_lost_wakeup:
  assumes "started mx reset_set ctl_pool data_pool t"
    and "tx_reach cancelled link_control control_rpc (tx_start t k) y"
  shows "(ts_pc y = TxWait \<and> sem_value (tx_wakeup (ts_t y)) = 0 \<longrightarrow>
      \<not> reset_pending (ts_t y) \<and> queued (tx_control_queue (ts_t y)) = [] \<and> queued (tx_data_queue (ts_t y)) = []) \<and>
    (\<forall>j. ts_pc y = TxGateWait j \<and> sem_value (configured_gate (ts_t y)) = 0 \<longrightarrow> \<not> configured (ts_t y))"
  using tx_reach_wake [OF assms(2) tx_start_invs(3) [OF assms(1)]]
    tx_reach_gate [OF assms(2) tx_start_invs(4) [OF assms(1)]]
  by (auto simp: wake_inv_def gate_inv_def Let_def work_left_def)

text \<open>
  Control frames are not delayed by data: when the thread looks for work it takes the oldest
  control job if there is one, and a data job only when no control job is queued; a job
  without a frame is skipped, and with both queues empty the thread waits.
\<close>

theorem tx_control_frames_first:
  assumes "queues_ok (ts_t y)" and "ts_pc y = TxPick"
    and "tx_thread_step cancelled write_ok expired y = Some y'"
  shows "(case queued (tx_control_queue (ts_t y)) of
      j # js \<Rightarrow> queued (tx_control_queue (ts_t y')) = js \<and>
        tx_data_queue (ts_t y') = tx_data_queue (ts_t y) \<and>
        ts_pc y' = (if job_frame j = 0 then TxLoop else TxGate j)
    | [] \<Rightarrow> queued (tx_control_queue (ts_t y')) = [] \<and>
       (case queued (tx_data_queue (ts_t y)) of
          j # js \<Rightarrow> queued (tx_data_queue (ts_t y')) = js \<and>
            ts_pc y' = (if job_frame j = 0 then TxLoop else TxGate j)
        | [] \<Rightarrow> queued (tx_data_queue (ts_t y')) = [] \<and> ts_pc y' = TxWait))"
proof -
  obtain j t1 k1 where r: "recv_queue 0 (ts_t y) (ts_k y) = (j, t1, k1)"
    by (cases "recv_queue 0 (ts_t y) (ts_k y)")
  obtain j2 t2 k2 where r2: "recv_queue 1 t1 k1 = (j2, t2, k2)" by (cases "recv_queue 1 t1 k1")
  note q = recv_queue_no [OF assms(1) r]
  note q2 = recv_queue_no [OF q(1) r2]
  have "j \<noteq> None \<Longrightarrow> tx_data_queue t1 = tx_data_queue (ts_t y)"
    using r by (auto simp: recv_queue_def split: prod.splits)
  then show ?thesis
    using assms(2,3) r r2 q(2,3) q(4) [of 1] q2(2,3) q2(4) [of 0]
    by (auto simp: tx_thread_step_def Let_def queue_no_def split: option.splits)
qed

text \<open>
  A reset ends the session: from the top of its loop with a reset pending, the thread by
  itself clears the flag, completes every queued job as cancelled, control jobs first, each
  queue in order, leaves both queues empty and asks for the restart of the core, and is back
  at the top of the loop; it writes nothing to the endpoint.
\<close>

theorem tx_reset_cancels_all:
  assumes "queues_ok (ts_t y)" and "ts_pc y = TxLoop" and "reset_pending (ts_t y)"
  shows "\<exists>n y'. tx_thread_run cancelled write_ok expired n y = Some y' \<and> ts_pc y' = TxLoop \<and>
    \<not> reset_pending (ts_t y') \<and> queues_empty (ts_t y') \<and>
    ts_log y' = ts_log y @
      cancel_all cancelled (queued (tx_control_queue (ts_t y)) @ queued (tx_data_queue (ts_t y))) @
      call_on_reset (ts_t y)"
proof -
  let ?y = "y\<lparr>ts_t := (ts_t y)\<lparr>reset_pending := False\<rparr>, ts_pc := TxFlush 0 AfterReset\<rparr>"
  have "queues_ok (ts_t ?y)" "ts_pc ?y = TxFlush 0 AfterReset"
    using assms(1) by (simp_all add: queues_ok_def)
  from flush_both_queues [OF this, of cancelled write_ok expired]
  obtain n y1 where 1: "tx_thread_run cancelled write_ok expired n ?y = Some y1"
      "ts_pc y1 = TxFlush 2 AfterReset" "queues_empty (ts_t y1)" "same_status (ts_t y1) (ts_t ?y)"
      "ts_log y1 = ts_log y @ flushed cancelled (ts_t y)"
    by auto
  let ?y2 = "y1\<lparr>ts_log := ts_log y1 @ call_on_reset (ts_t y1), ts_pc := TxLoop\<rparr>"
  have "tx_thread_run cancelled write_ok expired (Suc n) y = Some y1"
    using 1(1) assms(2,3) by (simp add: tx_thread_step_def Let_def)
  moreover have "tx_thread_run cancelled write_ok expired 1 y1 = Some ?y2"
    using 1(2) by (simp add: tx_thread_step_def flush_tx_queue_step_def Let_def)
  ultimately have "tx_thread_run cancelled write_ok expired (Suc n + 1) y = Some ?y2"
    by (rule tx_thread_run_append)
  with 1(3-5) show ?thesis
    by (intro exI [of _ "Suc n + 1"] exI [of _ ?y2]) (auto simp: call_on_reset_def)
qed

text \<open>
  A dead host does not stall the device: when the wait for the completion of a write times
  out, the thread by itself halts the endpoint, cancels every queued job, then the job whose
  write timed out, and asks for the restart of the core, with both queues empty.
\<close>

theorem tx_timeout_cancels_all:
  assumes "queues_ok (ts_t y)" and "ts_pc y = TxSent j" and "sem_value (tx_done (ts_t y)) = 0"
    and "cancelled \<noteq> 0"
  shows "\<exists>n y'. tx_thread_run cancelled write_ok True n y = Some y' \<and> ts_pc y' = TxLoop \<and>
    queues_empty (ts_t y') \<and>
    ts_log y' = ts_log y @ HaltIn #
      cancel_all cancelled (queued (tx_control_queue (ts_t y)) @ queued (tx_data_queue (ts_t y))) @
      Completed j cancelled # call_on_reset (ts_t y)"
proof -
  let ?y = "y\<lparr>ts_log := ts_log y @ [HaltIn], ts_pc := TxFlush 0 (AfterTimeout j)\<rparr>"
  have "queues_ok (ts_t ?y)" "ts_pc ?y = TxFlush 0 (AfterTimeout j)" using assms(1) by simp_all
  from flush_both_queues [OF this, of cancelled write_ok True]
  obtain n y1 where 1: "tx_thread_run cancelled write_ok True n ?y = Some y1"
      "ts_pc y1 = TxFlush 2 (AfterTimeout j)" "queues_empty (ts_t y1)"
      "same_status (ts_t y1) (ts_t y)"
      "ts_log y1 = ts_log y @ HaltIn # flushed cancelled (ts_t y)"
    by auto
  let ?t2 = "upd_stats (\<lambda>s. s\<lparr>tx_failures := tx_failures s + 1\<rparr>) (ts_t y1)"
  let ?y2 = "y1\<lparr>ts_t := ?t2, ts_log := ts_log y1 @ Completed j cancelled # call_on_reset (ts_t y),
     ts_pc := TxLoop\<rparr>"
  have "tx_thread_run cancelled write_ok True (Suc n) y = Some y1"
    using 1(1) assms(2,3) by (simp add: tx_thread_step_def Let_def)
  moreover have "tx_thread_run cancelled write_ok True 2 y1 = Some ?y2"
    using 1(2,4) assms(4)
    by (simp add: numeral_2_eq_2 tx_thread_step_def flush_tx_queue_step_def Let_def call_on_reset_def)
  ultimately have "tx_thread_run cancelled write_ok True (Suc n + 2) y = Some ?y2"
    by (rule tx_thread_run_append)
  with 1(3,5) show ?thesis
    by (intro exI [of _ "Suc n + 2"] exI [of _ ?y2]) (simp add: queues_empty_def)
qed

text \<open>
  A successful start followed by the first CONFIGURED event puts the receive path into the
  state its properties start from (ring empty, reassembly buffer empty, the OUT endpoint
  armed, not paused) and leaves the configured gate open for a waiting transmit thread; the
  frame limit is the one of the configuration and at most 4096.
\<close>

theorem usb_start_arms_receive:
  assumes "started mx reset_set ctl_pool data_pool t"
    and "usb_event_handler USBD_EVENT_CONFIGURED t k = (t', k')"
  shows "rx_fresh mx t' \<and> configured t' \<and> \<not> reset_pending t' \<and>
    sem_value (configured_gate t') = 1 \<and> mx \<le> 4096"
proof -
  note f = started_facts [OF assms(1)]
  have "t' = t\<lparr>initial_configuration_seen := True, reset_pending := False, out_armed := True,
      configured := True, configured_gate := (configured_gate t)\<lparr>sem_value := 1\<rparr>\<rparr>"
    using assms(2) f(5,9)
    by (simp add: usb_event_handler_def Let_def arm_out_read_def rt_sem_release_def
        sem_object_init_def RT_SEM_VALUE_MAX_def)
  with f(10,11) show ?thesis by (simp add: rx_fresh_def WLH_WIRE_MAX_FRAME_SIZE_def)
qed

text \<open>
  A limit of the reset handling: when a reset and then CONFIGURED arrive while the transmit
  thread holds a job at the configured gate (a frame was submitted before the host configured
  the device again), RESET does not open the gate, CONFIGURED does not arm the OUT endpoint
  because the reset is still pending, and the thread then cleans up and asks for the restart
  of the core, but nothing arms the endpoint: the device is configured, no reset is pending,
  no read is armed, and the receive thread does not arm one either.
\<close>

theorem usb_reset_at_gate_leaves_out_unarmed:
  assumes "queues_ok (ts_t y)" and "ts_pc y = TxGateWait j" and "initial_configuration_seen (ts_t y)"
    and "sem_waiters (configured_gate (ts_t y)) = []"
    and "sem_max_value (configured_gate (ts_t y)) = 65535"
    and "usb_event_handler USBD_EVENT_RESET (ts_t y) (ts_k y) = (t1, k1)"
    and "usb_event_handler USBD_EVENT_CONFIGURED t1 k1 = (t2, k2)"
  shows "(sem_value (configured_gate (ts_t y)) = 0 \<longrightarrow>
      tx_thread_step cancelled write_ok expired (y\<lparr>ts_t := t1, ts_k := k1\<rparr>) = None) \<and>
    (\<exists>n y'. tx_thread_run cancelled write_ok expired n (y\<lparr>ts_t := t2, ts_k := k2\<rparr>) = Some y' \<and>
      ts_pc y' = TxLoop \<and> configured (ts_t y') \<and> \<not> reset_pending (ts_t y') \<and>
      \<not> out_armed (ts_t y') \<and> rx_rearm (ts_t y') = ts_t y' \<and>
      ts_log y' = ts_log y @ Completed j cancelled #
        cancel_all cancelled (queued (tx_control_queue (ts_t y)) @ queued (tx_data_queue (ts_t y))) @
        call_on_reset (ts_t y))"
proof -
  have 1: "same_queues t1 (ts_t y)" "reset_pending t1" "\<not> out_armed t1" "\<not> out_paused t1"
      "initial_configuration_seen t1" "configured_gate t1 = configured_gate (ts_t y)"
      "on_reset_set t1 = on_reset_set (ts_t y)"
    using assms(3,6) by (auto simp: usb_event_handler_def Let_def same_queues_def split: prod.splits)
  obtain r gate where g: "rt_sem_release (configured_gate t1) k1 = (r, gate, k2)"
      and t2: "t2 = t1\<lparr>configured := True, configured_gate := gate\<rparr>"
    using assms(7) 1(2,5) by (auto simp: usb_event_handler_def Let_def split: prod.splits)
  have gate: "sem_value gate \<noteq> 0" using release_no_waiters(3) [OF _ _ g] assms(4,5) 1(6) by simp
  obtain out sem k3 where take: "rt_sem_take (-1) gate k2 = (out, sem, k3)"
    by (cases "rt_sem_take (-1) gate k2")
  let ?y0 = "y\<lparr>ts_t := t2, ts_k := k2\<rparr>"
  let ?y1 = "y\<lparr>ts_t := t2\<lparr>configured_gate := sem\<rparr>, ts_k := k3,
      ts_log := ts_log y @ [Completed j cancelled], ts_pc := TxLoop\<rparr>"
  have run: "tx_thread_run cancelled write_ok expired 3 ?y0 = Some ?y1"
    using assms(2) gate take 1(2)
    by (simp add: t2 eval_nat_numeral tx_thread_step_def Let_def word_gt_0)
  let ?t = "t2\<lparr>configured_gate := sem, reset_pending := False\<rparr>"
  let ?y2 = "?y1\<lparr>ts_t := ?t, ts_pc := TxFlush 0 AfterReset\<rparr>"
  have q: "queues_ok (ts_t ?y2)" "ts_pc ?y2 = TxFlush 0 AfterReset"
    using assms(1) 1(1) by (simp_all add: t2 queues_ok_def same_queues_def)
  from flush_both_queues [OF q, of cancelled write_ok expired]
  obtain n y3 where 3: "tx_thread_run cancelled write_ok expired n ?y2 = Some y3"
      "ts_pc y3 = TxFlush 2 AfterReset" "same_status (ts_t y3) ?t"
      "ts_log y3 = ts_log ?y1 @ flushed cancelled ?t"
    by auto
  let ?y4 = "y3\<lparr>ts_log := ts_log y3 @ call_on_reset (ts_t y3), ts_pc := TxLoop\<rparr>"
  have s1: "tx_thread_run cancelled write_ok expired 1 ?y1 = Some ?y2"
    using 1(2) by (simp add: t2 tx_thread_step_def Let_def)
  have s2: "tx_thread_run cancelled write_ok expired 1 y3 = Some ?y4"
    using 3(2) by (simp add: tx_thread_step_def flush_tx_queue_step_def Let_def)
  note whole = tx_thread_run_append [OF tx_thread_run_append [OF tx_thread_run_append [OF run s1] 3(1)] s2]
  have blocked: "sem_value (configured_gate (ts_t y)) = 0 \<longrightarrow>
      tx_thread_step cancelled write_ok expired (y\<lparr>ts_t := t1, ts_k := k1\<rparr>) = None"
    using assms(2) 1(6) by (simp add: tx_thread_step_def Let_def)
  have fin: "ts_pc ?y4 = TxLoop \<and> configured (ts_t ?y4) \<and> \<not> reset_pending (ts_t ?y4) \<and>
      \<not> out_armed (ts_t ?y4) \<and> rx_rearm (ts_t ?y4) = ts_t ?y4 \<and>
      ts_log ?y4 = ts_log y @ Completed j cancelled # flushed cancelled (ts_t y) @ call_on_reset (ts_t y)"
    using 3(3,4) 1 by (simp add: t2 rx_rearm_def call_on_reset_def same_queues_def)
  from blocked whole fin show ?thesis by blast
qed

section \<open>Witnesses\<close>

definition job_pool :: "nat \<Rightarrow> rt_mq_message" where
  "job_pool = (\<lambda>_. \<lparr>mq_next = None, mq_length = 0, mq_bytes = replicate 16 0\<rparr>)"

definition demo_job :: tx_job where
  "demo_job = \<lparr>job_frame = 4096, job_size = 8, job_completion = 0, job_context = 0\<rparr>"

lemma demo_started: "\<exists>t. started 3609 True job_pool job_pool t"
proof -
  obtain ctl dat ring where o:
      "rt_mq_create True (\<lambda>_. Some job_pool) sizeof_tx_job WLH_USB_CONTROL_TX_QUEUE_DEPTH
         RT_IPC_FLAG_PRIO = Some ctl"
      "rt_mq_create True (\<lambda>_. Some job_pool) sizeof_tx_job WLH_USB_DATA_TX_QUEUE_DEPTH
         RT_IPC_FLAG_PRIO = Some dat"
      "rt_ringbuffer_init (replicate (unat WLH_USB_RX_RING_SIZE) 0) WLH_USB_RX_RING_SIZE = Some ring"
    by (simp add: rt_mq_create_def Let_def rt_ringbuffer_init_def usb_consts)
  have "rt_sem_create True 0 RT_IPC_FLAG_PRIO =
      Some (Some (sem_object_init 0 RT_IPC_FLAG_PRIO RT_SEM_VALUE_MAX))"
    by (simp add: rt_sem_create_def)
  with o show ?thesis
    by (simp add: wlh_transport_start_def Let_def usb_consts mq_pool_fits_def job_pool_def)
qed

lemma demo_submitted:
  assumes "started mx rs cp dp t"
  shows "\<exists>t' k'. wlh_transport_submit_tx 0 1 demo_job [] t k = (0, t', k') \<and> queues_ok t' \<and>
    queued (tx_control_queue t') = [] \<and> queued (tx_data_queue t') = [demo_job] \<and>
    tx_reach 1 0 1 (tx_start t k) (tx_start t k \<lparr>ts_t := t', ts_k := k', ts_accepted := [(False, demo_job)]\<rparr>)"
proof -
  note f = started_facts [OF assms]
  have c: "\<not> is_control_frame 0 1 (job_frame demo_job) [] (job_size demo_job)"
    by (simp add: is_control_frame_def demo_job_def FRAME_HEADER_SIZE_def)
  have e: "queued (tx_control_queue t) = []" "queued (tx_data_queue t) = []"
    using f(2) by (simp_all add: queues_empty_def queued_def)
  obtain out q k1 where s: "rt_mq_send_wait (job_bytes demo_job) sizeof_tx_job 0 (tx_data_queue t) k = (out, q, k1)"
    by (cases "rt_mq_send_wait (job_bytes demo_job) sizeof_tx_job 0 (tx_data_queue t) k")
  have "tx_queue_ok 8 (tx_data_queue t)" using f(1) by (simp add: queues_ok_def)
  note j = send_job_spec [OF this s]
  have "\<not> stopping t" using f(11) by (simp add: rx_fresh_def)
  moreover obtain rr sem k2 where "rt_sem_release (tx_wakeup t) k1 = (rr, sem, k2)"
    by (cases "rt_sem_release (tx_wakeup t) k1")
  ultimately obtain t' k' where r: "wlh_transport_submit_tx 0 1 demo_job [] t k = (0, t', k')"
      and t': "tx_data_queue t' = q" "tx_control_queue t' = tx_control_queue t"
    using c s j(2) e by (auto simp: wlh_transport_submit_tx_def Let_def)
  from tx_step.submit [where y = "tx_start t k" and cancelled = 1] r c
  have "tx_step 1 0 1 (tx_start t k)
      (tx_start t k \<lparr>ts_t := t', ts_k := k', ts_accepted := [(False, demo_job)]\<rparr>)"
    by (fastforce simp: tx_start_def)
  from tx_reach_step [OF tx_reach_refl this] r t' j(1,3) e f(1) show ?thesis
    by (auto simp: queues_ok_def)
qed

lemma tx_accounts_for_every_job_witness:
  "\<exists>t y taken. started 3609 True job_pool job_pool t \<and> tx_reach 1 0 1 (tx_start t two_threads) y \<and>
    ts_accepted y = [(False, demo_job)] \<and>
    data_jobs (ts_accepted y) = data_jobs taken @ queued (tx_data_queue (ts_t y))"
proof -
  obtain t where t: "started 3609 True job_pool job_pool t" using demo_started by blast
  obtain t' k' where r: "tx_reach 1 0 1 (tx_start t two_threads)
      (tx_start t two_threads \<lparr>ts_t := t', ts_k := k', ts_accepted := [(False, demo_job)]\<rparr>)"
    using demo_submitted [OF t] by blast
  from tx_accounts_for_every_job [OF t r] t r show ?thesis by fastforce
qed

lemma tx_success_means_written_witness:
  "\<exists>t y. started 3609 True job_pool job_pool t \<and> tx_reach 1 0 1 (tx_start t two_threads) y \<and>
    ts_accepted y = [(False, demo_job)] \<and>
    tx_frames (stats (ts_t y)) = word_of_nat (successes (ts_log y))"
proof -
  obtain t where t: "started 3609 True job_pool job_pool t" using demo_started by blast
  obtain t' k' where r: "tx_reach 1 0 1 (tx_start t two_threads)
      (tx_start t two_threads \<lparr>ts_t := t', ts_k := k', ts_accepted := [(False, demo_job)]\<rparr>)"
    using demo_submitted [OF t] by blast
  from tx_success_means_written [OF t _ r] t r show ?thesis by fastforce
qed

lemma tx_no_lost_wakeup_witness:
  "\<exists>t. started 3609 True job_pool job_pool t \<and> ts_pc (tx_start t two_threads) = TxWait \<and>
    sem_value (tx_wakeup t) = 0 \<and> queued (tx_data_queue t) = []"
proof -
  obtain t where t: "started 3609 True job_pool job_pool t" using demo_started by blast
  have v: "sem_value (tx_wakeup t) = 0" using started_facts(4) [OF t] by (simp add: sem_object_init_def)
  have "tx_reach 1 0 1 (tx_start t two_threads) (tx_start t two_threads)" by (rule tx_reach_refl)
  from tx_no_lost_wakeup [OF t this] t v show ?thesis by (auto simp: tx_start_def)
qed

lemma tx_control_frames_first_witness:
  "\<exists>y y'. queued (tx_data_queue (ts_t y)) = [demo_job] \<and>
    tx_thread_step 1 True False y = Some y' \<and> ts_pc y' = TxGate demo_job"
proof -
  obtain t where t: "started 3609 True job_pool job_pool t" using demo_started by blast
  obtain t' where q: "queues_ok t'" "queued (tx_control_queue t') = []" "queued (tx_data_queue t') = [demo_job]"
    using demo_submitted [OF t] by blast
  let ?y = "\<lparr>ts_t = t', ts_k = two_threads, ts_pc = TxPick, ts_log = [], ts_accepted = []\<rparr>"
  have "\<exists>y'. tx_thread_step 1 True False ?y = Some y'"
    by (simp add: tx_thread_step_def Let_def split: prod.split option.split)
  then obtain y' where y': "tx_thread_step 1 True False ?y = Some y'" by blast
  from tx_control_frames_first [of ?y, OF _ _ y'] q
  have "ts_pc y' = TxGate demo_job" by (simp add: demo_job_def)
  with y' q show ?thesis by (metis (no_types, lifting) tx_sys.select_convs(1))
qed

lemma tx_reset_cancels_all_witness:
  "\<exists>y n y'. queued (tx_data_queue (ts_t y)) = [demo_job] \<and>
    tx_thread_run 1 True False n y = Some y' \<and> queues_empty (ts_t y') \<and>
    Completed demo_job 1 \<in> set (ts_log y')"
proof -
  obtain t where t: "started 3609 True job_pool job_pool t" using demo_started by blast
  obtain t' where q: "queues_ok t'" "queued (tx_control_queue t') = []" "queued (tx_data_queue t') = [demo_job]"
    using demo_submitted [OF t] by blast
  let ?y = "\<lparr>ts_t = t'\<lparr>reset_pending := True\<rparr>, ts_k = two_threads, ts_pc = TxLoop, ts_log = [],
     ts_accepted = []\<rparr>"
  have y: "queues_ok (ts_t ?y)" "ts_pc ?y = TxLoop" "reset_pending (ts_t ?y)"
    using q(1) by (simp_all add: queues_ok_def)
  obtain n y' where "tx_thread_run 1 True False n ?y = Some y'" "queues_empty (ts_t y')"
      "ts_log y' = cancel_all 1 [demo_job] @ call_on_reset (ts_t ?y)"
    using tx_reset_cancels_all [OF y, of 1 True False] q by auto
  then show ?thesis
    using q by (intro exI [of _ ?y] exI [of _ n] exI [of _ y']) (simp add: demo_job_def)
qed

lemma tx_timeout_cancels_all_witness:
  "\<exists>y n y'. queued (tx_data_queue (ts_t y)) = [demo_job] \<and> ts_pc y = TxSent demo_job \<and>
    tx_thread_run 1 True True n y = Some y' \<and> queues_empty (ts_t y') \<and> HaltIn \<in> set (ts_log y')"
proof -
  obtain t where t: "started 3609 True job_pool job_pool t" using demo_started by blast
  obtain t' where q: "queues_ok t'" "queued (tx_control_queue t') = []" "queued (tx_data_queue t') = [demo_job]"
    using demo_submitted [OF t] by blast
  let ?y = "\<lparr>ts_t = t'\<lparr>tx_done := demo_sem\<rparr>, ts_k = two_threads, ts_pc = TxSent demo_job,
     ts_log = [], ts_accepted = []\<rparr>"
  have y: "queues_ok (ts_t ?y)" "ts_pc ?y = TxSent demo_job" "sem_value (tx_done (ts_t ?y)) = 0"
    using q(1) by (simp_all add: queues_ok_def demo_sem_def sem_object_init_def)
  obtain n y' where "tx_thread_run 1 True True n ?y = Some y'" "queues_empty (ts_t y')"
      "HaltIn \<in> set (ts_log y')"
    using tx_timeout_cancels_all [OF y, of 1 True] by auto
  then show ?thesis
    using q by (intro exI [of _ ?y] exI [of _ n] exI [of _ y']) simp
qed

lemma usb_start_arms_receive_witness:
  "\<exists>t t' k'. started 3609 True job_pool job_pool t \<and>
    usb_event_handler USBD_EVENT_CONFIGURED t two_threads = (t', k') \<and> rx_fresh 3609 t'"
proof -
  obtain t where t: "started 3609 True job_pool job_pool t" using demo_started by blast
  obtain t' k' where e: "usb_event_handler USBD_EVENT_CONFIGURED t two_threads = (t', k')"
    by (cases "usb_event_handler USBD_EVENT_CONFIGURED t two_threads")
  from usb_start_arms_receive [OF t e] t e show ?thesis by blast
qed

lemma usb_reset_at_gate_leaves_out_unarmed_witness:
  "\<exists>y t1 k1 t2 k2 n y'. ts_pc y = TxGateWait demo_job \<and>
    usb_event_handler USBD_EVENT_RESET (ts_t y) (ts_k y) = (t1, k1) \<and>
    usb_event_handler USBD_EVENT_CONFIGURED t1 k1 = (t2, k2) \<and>
    tx_thread_run 1 True False n (y\<lparr>ts_t := t2, ts_k := k2\<rparr>) = Some y' \<and>
    configured (ts_t y') \<and> \<not> reset_pending (ts_t y') \<and> \<not> out_armed (ts_t y')"
proof -
  obtain t where t: "started 3609 True job_pool job_pool t" using demo_started by blast
  note f = started_facts [OF t]
  let ?y = "\<lparr>ts_t = t\<lparr>initial_configuration_seen := True\<rparr>, ts_k = two_threads,
     ts_pc = TxGateWait demo_job, ts_log = [], ts_accepted = []\<rparr>"
  obtain t1 k1 where 1: "usb_event_handler USBD_EVENT_RESET (ts_t ?y) (ts_k ?y) = (t1, k1)"
    by (cases "usb_event_handler USBD_EVENT_RESET (ts_t ?y) (ts_k ?y)")
  obtain t2 k2 where 2: "usb_event_handler USBD_EVENT_CONFIGURED t1 k1 = (t2, k2)"
    by (cases "usb_event_handler USBD_EVENT_CONFIGURED t1 k1")
  have y: "queues_ok (ts_t ?y)" "ts_pc ?y = TxGateWait demo_job" "initial_configuration_seen (ts_t ?y)"
    "sem_waiters (configured_gate (ts_t ?y)) = []" "sem_max_value (configured_gate (ts_t ?y)) = 65535"
    using f(1,5) by (simp_all add: queues_ok_def sem_object_init_def RT_SEM_VALUE_MAX_def)
  from usb_reset_at_gate_leaves_out_unarmed [OF y 1 2, of 1 True False]
  show ?thesis using y(2) 1 2 by blast
qed

end
