(* ===== verification/Wlh_App.thy ===== *)
theory Wlh_App
  imports Link_Control Eth_Rx Usb_Tx
begin

text \<open>
  How applications/app/wlh_app.c puts the firmware together.  The core is a parameter
  (\<open>core_init\<close>, \<open>core_start\<close>), as are the results of the other components' start-up.
\<close>

section \<open>Initialisation\<close>

text \<open>The members of wlh_coproc_config_t that are numbers; the others are the operations themselves.\<close>

record coproc_config =
  cfg_max_frame_size :: u32
  cfg_heartbeat_interval_ms :: u32
  cfg_initial_credit :: u32
  cfg_core_queue_depth :: u32
  cfg_ethernet_tx_depth :: byte
  cfg_ethernet_tx_aggregation_limit :: u32
  cfg_stop_timeout_ms :: u32
  cfg_core_task_stack :: u32
  cfg_core_task_priority :: u32

definition app_config :: coproc_config where
  "app_config = \<lparr>cfg_max_frame_size = wlh_transport_max_frame_size, cfg_heartbeat_interval_ms = 1000,
     cfg_initial_credit = 6, cfg_core_queue_depth = 16, cfg_ethernet_tx_depth = ucast wlh_transport_tx_capacity,
     cfg_ethernet_tx_aggregation_limit = 2, cfg_stop_timeout_ms = 3000, cfg_core_task_stack = 4096,
     cfg_core_task_priority = 21\<rparr>"

text \<open>What exists after the initialisation; it undoes nothing when a step fails.\<close>

record 'c app_boot =
  bt_events :: "rt_event option"
  bt_core :: 'c
  bt_eth :: "eth_backend option"
  bt_usb :: "usb_transport option"
  bt_thread :: bool

text \<open>
  \<open>eth_init\<close> is what wlh_eth_backend_init returns, \<open>usb_start\<close> what wlh_transport_start returns for a
  maximum frame size and a reset callback; \<open>thread_ok\<close> is whether the thread could be created.
\<close>

definition wlh_app_init ::
    "bool \<Rightarrow> ('c \<Rightarrow> coproc_config \<Rightarrow> 'c \<times> bool) \<Rightarrow> ('c \<Rightarrow> 'c \<times> bool) \<Rightarrow> int \<times> eth_backend option \<Rightarrow>
      (u32 \<Rightarrow> bool \<Rightarrow> int \<times> usb_transport option) \<Rightarrow> bool \<Rightarrow> 'c \<Rightarrow> int \<times> 'c app_boot" where
  "wlh_app_init event_ok core_init core_start eth_init usb_start thread_ok c0 =
    (let b0 = \<lparr>bt_events = rt_event_create event_ok RT_IPC_FLAG_PRIO, bt_core = c0, bt_eth = None, bt_usb = None,
               bt_thread = False\<rparr>
     in if bt_events b0 = None then (-1, b0)
        else
         (case core_init c0 app_config of
            (c1, init_ok) \<Rightarrow>
              let b1 = b0\<lparr>bt_core := c1\<rparr>
              in if \<not> init_ok then (-1, b1)
                 else
                  (case core_start c1 of
                     (c2, start_ok) \<Rightarrow>
                       let b2 = b1\<lparr>bt_core := c2\<rparr>
                       in if \<not> start_ok then (-1, b2)
                          else
                           (let b3 = b2\<lparr>bt_eth := snd eth_init\<rparr>
                            in if fst eth_init \<noteq> 0 then (-1, b3)
                               else
                                (case usb_start (cfg_max_frame_size app_config) True of
                                   (r, usb) \<Rightarrow>
                                     let b4 = b3\<lparr>bt_usb := usb\<rparr>
                                     in if r \<noteq> 0 then (-1, b4)
                                        else if \<not> thread_ok then (-1, b4)
                                        else (0, b4\<lparr>bt_thread := True\<rparr>))))))"

section \<open>After the initialisation\<close>

lemma app_init_returns: "fst (wlh_app_init event_ok core_init core_start eth_init usb_start thread_ok c) \<in> {0, -1}"
  by (auto simp: wlh_app_init_def Let_def split: prod.splits)

lemma app_init_done:
  assumes "wlh_app_init event_ok core_init core_start eth_init usb_start thread_ok c = (0, b)"
  shows "event_ok" "snd (core_init c app_config)" "snd (core_start (fst (core_init c app_config)))" "fst eth_init = 0"
    "fst (usb_start wlh_transport_max_frame_size True) = 0" "thread_ok" "bt_events b = rt_event_create True RT_IPC_FLAG_PRIO"
    "bt_eth b = snd eth_init" "bt_thread b"
  using assms by (auto simp: wlh_app_init_def rt_event_create_def app_config_def Let_def split: prod.splits if_splits)

text \<open>
  The credits given to the host are not more than the transmit descriptors, and what the
  initialisation builds is a state from which the system of the link-control thread starts.
\<close>

lemma app_credit_fits: "unat (cfg_initial_credit app_config) \<le> length (s_tx_desc (zero_backend dmasr macfcr sem))"
  by (simp add: app_config_def zero_backend_def)

lemma app_init_starts_link:
  assumes "wlh_app_init event_ok core_init core_start (wlh_eth_backend_init sem_ok phy_ok threads_ok dmasr macfcr)
      usb_start thread_ok c = (0, b)"
    and "bt_eth b = Some e" "bt_events b = Some ev"
  shows "app_start tt \<lparr>link_events = \<lparr>ev_obj = ev, ev_wait = w, ev_kernel = k\<rparr>, app_eth = e, app_core = bt_core b, link_pc = LkRecv\<rparr>"
proof -
  have "wlh_eth_backend_init sem_ok phy_ok threads_ok dmasr macfcr = (0, Some e)"
    using app_init_done(4,8) [OF assms(1)] assms(2) by (metis prod.collapse)
  then have "\<not> s_transport_dead e" "sem_waiters (s_eth_sem e) = []"
    by (auto simp: wlh_eth_backend_init_def rt_sem_create_def emac_init_def zero_backend_def sem_object_init_def Let_def
        split: if_splits option.splits)
  then show ?thesis
    using app_init_done(7) [OF assms(1)] assms(3) by (simp add: app_start_def rt_event_create_def rt_event_init_def)
qed

end
