(* ===== verification/Usbhs_Dc.thy ===== *)
theory Usbhs_Dc
  imports Wlh_Prelude
begin

text \<open>
  The USB device controller driver port/ch32/usb_dc_usbhs.c of the device stack, with the
  project's own changes (the order in which the interrupt flag is cleared, the handling of a data
  toggle mismatch).  The registers of the controller are fields of the state, at their widths; a
  write to the interrupt flag register clears the bits that are written.  The event handlers of
  the stack are an argument \<open>cb\<close> of the interrupt handler.
\<close>

section \<open>State\<close>

text \<open>struct ch32_usbhs_ep_state; buffers are addresses.\<close>

record ep_state =
  ep_mps :: u16
  ep_type :: byte
  ep_stalled :: byte
  ep_enable :: bool
  xfer_buf :: u32
  xfer_len :: u32
  actual_xfer_len :: u32

text \<open>
  struct ch32_usbhs_udc with the two members of the setup packet the driver reads, the toggles
  and the counter beside it, and the registers.  The per-endpoint arrays are indexed by the
  number of the endpoint, \<open>epx_tx_data_toggle\<close> by that number minus 1.
\<close>

record usbhs =
  setup_bmRequestType :: byte
  setup_wLength :: u16
  dev_addr :: byte
  in_ep :: "nat \<Rightarrow> ep_state"
  out_ep :: "nat \<Rightarrow> ep_state"
  ep0_rx_data_toggle :: bool
  ep0_tx_data_toggle :: bool
  epx_tx_data_toggle :: "nat \<Rightarrow> bool"
  g_usbhs_rx_tog_drops :: u32
  addr_setup :: u32
  TX_LEN :: "nat \<Rightarrow> u16"
  TX_CTRL :: "nat \<Rightarrow> byte"
  TX_DMA :: "nat \<Rightarrow> u32"
  RX_CTRL :: "nat \<Rightarrow> byte"
  RX_DMA :: "nat \<Rightarrow> u32"
  MAX_LEN :: "nat \<Rightarrow> u16"
  UEP0_DMA :: u32
  ENDP_TYPE :: u32
  ENDP_CONFIG :: u32
  DEV_AD :: byte
  INT_FG :: byte
  INT_ST :: byte
  RX_LEN :: u16
  CONTROL :: byte
  HOST_CTRL :: byte
  INT_EN :: byte
  BUF_MODE :: u32

definition USBHS_DETECT_FLAG :: byte where "USBHS_DETECT_FLAG = 0x01"
definition USBHS_TRANSFER_FLAG :: byte where "USBHS_TRANSFER_FLAG = 0x02"
definition USBHS_SETUP_FLAG :: byte where "USBHS_SETUP_FLAG = 0x20"
definition USBHS_DEV_UIS_TOG_OK :: byte where "USBHS_DEV_UIS_TOG_OK = 0x40"
definition MASK_UIS_TOKEN :: byte where "MASK_UIS_TOKEN = 0x30"
definition MASK_UIS_ENDP :: byte where "MASK_UIS_ENDP = 0x0F"
definition PID_OUT :: byte where "PID_OUT = 0"
definition PID_IN :: byte where "PID_IN = 2"

definition USBHS_PHY_SUSPENDM :: byte where "USBHS_PHY_SUSPENDM = 0x10"
definition USBHS_DMA_EN :: byte where "USBHS_DMA_EN = 0x01"
definition USBHS_INT_BUSY_EN :: byte where "USBHS_INT_BUSY_EN = 0x08"
definition USBHS_DEV_PU_EN :: byte where "USBHS_DEV_PU_EN = 0x10"
definition USBHS_HIGH_SPEED :: byte where "USBHS_HIGH_SPEED = 0x20"

text \<open>The bits of the transmit control registers; those of the receive control registers are the same.\<close>

definition EP_RES_MASK :: byte where "EP_RES_MASK = 0x03"
definition EP_RES_ACK :: byte where "EP_RES_ACK = 0x00"
definition EP_RES_NAK :: byte where "EP_RES_NAK = 0x02"
definition EP_RES_STALL :: byte where "EP_RES_STALL = 0x03"
definition EP_TOG_MASK :: byte where "EP_TOG_MASK = 0x18"
definition EP_TOG_0 :: byte where "EP_TOG_0 = 0x00"
definition EP_TOG_1 :: byte where "EP_TOG_1 = 0x08"
definition EP_AUTOTOG :: byte where "EP_AUTOTOG = 0x20"

definition USB_ENDPOINT_TYPE_ISOCHRONOUS :: byte where "USB_ENDPOINT_TYPE_ISOCHRONOUS = 1"
definition USB_ENDPOINT_TYPE_BULK :: byte where "USB_ENDPOINT_TYPE_BULK = 2"

lemmas usbhs_bits = USBHS_DETECT_FLAG_def USBHS_TRANSFER_FLAG_def USBHS_SETUP_FLAG_def USBHS_DEV_UIS_TOG_OK_def
  MASK_UIS_TOKEN_def MASK_UIS_ENDP_def PID_OUT_def PID_IN_def EP_RES_MASK_def EP_RES_ACK_def EP_RES_NAK_def
  EP_RES_STALL_def EP_TOG_MASK_def EP_TOG_0_def EP_TOG_1_def EP_AUTOTOG_def

definition USB_EP_GET_IDX :: "byte \<Rightarrow> nat" where "USB_EP_GET_IDX ep = unat (ep AND NOT 0x80)"
definition USB_EP_DIR_IS_OUT :: "byte \<Rightarrow> bool" where "USB_EP_DIR_IS_OUT ep \<longleftrightarrow> ep AND 0x80 = 0"

definition tog_bits :: "bool \<Rightarrow> byte" where "tog_bits b = (if b then EP_TOG_1 else EP_TOG_0)"

definition upd_in :: "nat \<Rightarrow> (ep_state \<Rightarrow> ep_state) \<Rightarrow> usbhs \<Rightarrow> usbhs" where
  "upd_in i f u = u\<lparr>in_ep := (in_ep u)(i := f (in_ep u i))\<rparr>"

definition upd_out :: "nat \<Rightarrow> (ep_state \<Rightarrow> ep_state) \<Rightarrow> usbhs \<Rightarrow> usbhs" where
  "upd_out i f u = u\<lparr>out_ep := (out_ep u)(i := f (out_ep u i))\<rparr>"

definition set_tx_ctrl :: "nat \<Rightarrow> byte \<Rightarrow> usbhs \<Rightarrow> usbhs" where
  "set_tx_ctrl i v u = u\<lparr>TX_CTRL := (TX_CTRL u)(i := v)\<rparr>"

definition set_rx_ctrl :: "nat \<Rightarrow> byte \<Rightarrow> usbhs \<Rightarrow> usbhs" where
  "set_rx_ctrl i v u = u\<lparr>RX_CTRL := (RX_CTRL u)(i := v)\<rparr>"

section \<open>Operations\<close>

definition clear_int_fg :: "byte \<Rightarrow> usbhs \<Rightarrow> usbhs" where
  "clear_int_fg f u = u\<lparr>INT_FG := INT_FG u AND NOT f\<rparr>"

text \<open>The weak hooks \<open>usb_dc_low_level_init\<close> enable the clock of the port; they touch none of this state.\<close>

definition usb_dc_init :: "usbhs \<Rightarrow> usbhs" where
  "usb_dc_init u0 =
    (let u = clear_int_fg 0xFF (u0\<lparr>HOST_CTRL := USBHS_PHY_SUSPENDM,
               CONTROL := USBHS_DMA_EN OR USBHS_INT_BUSY_EN OR USBHS_HIGH_SPEED\<rparr>)
     in u\<lparr>INT_EN := USBHS_SETUP_FLAG OR USBHS_TRANSFER_FLAG OR USBHS_DETECT_FLAG,
          ENDP_TYPE := 0, BUF_MODE := 0, CONTROL := CONTROL u OR USBHS_DEV_PU_EN\<rparr>)"

definition USB_GET_MAXPACKETSIZE :: "u16 \<Rightarrow> u16" where "USB_GET_MAXPACKETSIZE x = x AND 0x7FF"
definition USB_GET_ENDPOINT_TYPE :: "byte \<Rightarrow> byte" where "USB_GET_ENDPOINT_TYPE x = x AND 3"

text \<open>The arguments are bEndpointAddress, wMaxPacketSize and bmAttributes of the endpoint descriptor.\<close>

definition usbd_ep_open :: "byte \<Rightarrow> u16 \<Rightarrow> byte \<Rightarrow> usbhs \<Rightarrow> usbhs" where
  "usbd_ep_open addr wMaxPacketSize bmAttributes u =
    (let i = USB_EP_GET_IDX addr;
         mps = USB_GET_MAXPACKETSIZE wMaxPacketSize;
         ty = USB_GET_ENDPOINT_TYPE bmAttributes;
         u1 = (if USB_EP_DIR_IS_OUT addr
               then
                (let v = upd_out i (\<lambda>p. p\<lparr>ep_mps := mps, ep_type := ty, ep_enable := True\<rparr>) u;
                     w = v\<lparr>ENDP_TYPE := (if ty = USB_ENDPOINT_TYPE_ISOCHRONOUS
                            then ENDP_TYPE v OR push_bit (i + 16) 1 else ENDP_TYPE v AND NOT (push_bit (i + 16) 1)),
                           ENDP_CONFIG := ENDP_CONFIG v OR push_bit (i + 16) 1\<rparr>
                 in set_rx_ctrl i (EP_RES_NAK OR EP_TOG_0 OR EP_AUTOTOG) w)
               else
                (let v = upd_in i (\<lambda>p. p\<lparr>ep_mps := mps, ep_type := ty, ep_enable := True\<rparr>) u;
                     w = (if ty = USB_ENDPOINT_TYPE_ISOCHRONOUS
                          then set_tx_ctrl i (EP_RES_NAK OR EP_TOG_0) (v\<lparr>ENDP_TYPE := ENDP_TYPE v OR push_bit i 1\<rparr>)
                          else set_tx_ctrl i (EP_RES_NAK OR EP_TOG_0 OR EP_AUTOTOG)
                                 (v\<lparr>ENDP_TYPE := ENDP_TYPE v AND NOT (push_bit i 1)\<rparr>))
                 in w\<lparr>ENDP_CONFIG := ENDP_CONFIG w OR push_bit i 1\<rparr>))
     in u1\<lparr>MAX_LEN := (MAX_LEN u1)(i := mps)\<rparr>)"

definition usbd_ep_close :: "byte \<Rightarrow> usbhs \<Rightarrow> usbhs" where
  "usbd_ep_close ep u =
    (let i = USB_EP_GET_IDX ep
     in u\<lparr>ENDP_CONFIG := ENDP_CONFIG u AND NOT (push_bit (if USB_EP_DIR_IS_OUT ep then i + 16 else i) 1)\<rparr>)"

definition usbd_set_address :: "byte \<Rightarrow> usbhs \<Rightarrow> usbhs" where
  "usbd_set_address addr u = (if addr = 0 then u\<lparr>DEV_AD := addr\<rparr> else u)\<lparr>dev_addr := addr\<rparr>"

definition usbd_ep_set_stall :: "byte \<Rightarrow> usbhs \<Rightarrow> usbhs" where
  "usbd_ep_set_stall ep u =
    (let i = USB_EP_GET_IDX ep
     in if USB_EP_DIR_IS_OUT ep
        then set_rx_ctrl i (if i = 0 then EP_RES_STALL else (RX_CTRL u i AND NOT EP_RES_MASK) OR EP_RES_STALL) u
        else set_tx_ctrl i (if i = 0 then EP_RES_STALL else (TX_CTRL u i AND NOT EP_RES_MASK) OR EP_RES_STALL) u)"

definition usbd_ep_clear_stall :: "byte \<Rightarrow> usbhs \<Rightarrow> usbhs" where
  "usbd_ep_clear_stall ep u =
    (let i = USB_EP_GET_IDX ep
     in if USB_EP_DIR_IS_OUT ep then set_rx_ctrl i (EP_RES_ACK OR EP_TOG_0) u
        else set_tx_ctrl i (EP_RES_NAK OR EP_TOG_0) u)"

definition usbd_ep_is_stalled :: "byte \<Rightarrow> usbhs \<Rightarrow> bool" where
  "usbd_ep_is_stalled ep u =
    (let i = USB_EP_GET_IDX ep
     in (if USB_EP_DIR_IS_OUT ep then RX_CTRL u i else TX_CTRL u i) AND EP_RES_STALL \<noteq> 0)"

text \<open>The response and the toggle of an endpoint other than 0 that has a packet to send.\<close>

definition arm_in :: "nat \<Rightarrow> usbhs \<Rightarrow> usbhs" where
  "arm_in i u = set_tx_ctrl i
    ((TX_CTRL u i AND NOT (EP_RES_MASK OR EP_TOG_MASK)) OR EP_RES_ACK OR
      (if ep_type (in_ep u i) = USB_ENDPOINT_TYPE_ISOCHRONOUS then EP_TOG_0 else tog_bits (epx_tx_data_toggle u (i - 1)))) u"

definition usbd_ep_start_write :: "byte \<Rightarrow> u32 \<Rightarrow> u32 \<Rightarrow> usbhs \<Rightarrow> int \<times> usbhs" where
  "usbd_ep_start_write ep data data_len u =
    (let i = USB_EP_GET_IDX ep in
     if data = 0 \<and> data_len \<noteq> 0 then (-1, u)
     else if \<not> ep_enable (in_ep u i) then (-2, u)
     else if data AND 3 \<noteq> 0 then (-3, u)
     else
      (let u1 = upd_in i (\<lambda>p. p\<lparr>xfer_buf := data, xfer_len := data_len, actual_xfer_len := 0\<rparr>) u;
           n = min data_len (ucast (ep_mps (in_ep u1 i)));
           u2 = (if data_len = 0 then u1\<lparr>TX_LEN := (TX_LEN u1)(i := 0)\<rparr>
                 else if i = 0 then u1\<lparr>TX_LEN := (TX_LEN u1)(i := ucast n), UEP0_DMA := data\<rparr>
                 else u1\<lparr>TX_LEN := (TX_LEN u1)(i := ucast n), TX_DMA := (TX_DMA u1)(i := data)\<rparr>)
       in (0, if i = 0 then set_tx_ctrl 0 (EP_RES_ACK OR tog_bits (ep0_tx_data_toggle u2)) u2 else arm_in i u2)))"

definition usbd_ep_start_read :: "byte \<Rightarrow> u32 \<Rightarrow> u32 \<Rightarrow> usbhs \<Rightarrow> int \<times> usbhs" where
  "usbd_ep_start_read ep data data_len u =
    (let i = USB_EP_GET_IDX ep in
     if data = 0 \<and> data_len \<noteq> 0 then (-1, u)
     else if \<not> ep_enable (out_ep u i) then (-2, u)
     else if data AND 3 \<noteq> 0 then (-3, u)
     else
      (let u1 = upd_out i (\<lambda>p. p\<lparr>xfer_buf := data, xfer_len := data_len, actual_xfer_len := 0\<rparr>) u
       in (0, if i = 0
              then if data_len = 0 then set_rx_ctrl 0 (EP_RES_ACK OR EP_TOG_1) u1
                   else set_rx_ctrl 0 (EP_RES_ACK OR tog_bits (ep0_rx_data_toggle u1)) (u1\<lparr>UEP0_DMA := data\<rparr>)
              else
               (let u2 = u1\<lparr>RX_DMA := (RX_DMA u1)(i := data)\<rparr>
                in if ep_type (out_ep u2 i) = USB_ENDPOINT_TYPE_ISOCHRONOUS
                   then set_rx_ctrl i ((RX_CTRL u2 i AND NOT (EP_RES_MASK OR EP_TOG_MASK)) OR EP_RES_ACK OR EP_TOG_0) u2
                   else set_rx_ctrl i ((RX_CTRL u2 i AND NOT EP_RES_MASK) OR EP_RES_ACK) u2))))"

section \<open>The interrupt handler\<close>

datatype dc_event = EpInComplete byte u32 | EpOutComplete byte u32 | Ep0SetupComplete | BusReset

text \<open>Reading the next setup packet into the driver's buffer.\<close>

definition read_setup :: "usbhs \<Rightarrow> usbhs" where
  "read_setup u = set_rx_ctrl 0 EP_RES_ACK (u\<lparr>UEP0_DMA := addr_setup u\<rparr>)"

text \<open>An IN transaction up to the event it causes, and what follows the event for endpoint 0.\<close>

definition irq_in :: "nat \<Rightarrow> usbhs \<Rightarrow> usbhs \<times> dc_event option" where
  "irq_in i u0 =
    (let u = set_tx_ctrl i ((TX_CTRL u0 i AND NOT (EP_RES_MASK OR EP_TOG_MASK)) OR EP_RES_NAK OR EP_TOG_0) u0;
         p = in_ep u i;
         mps = ucast (ep_mps p) :: u32
     in if i = 0
        then
         (let u1 = (if xfer_len p \<ge> mps
                    then (upd_in i (\<lambda>p. p\<lparr>xfer_len := xfer_len p - mps, actual_xfer_len := actual_xfer_len p + mps\<rparr>) u)
                           \<lparr>ep0_tx_data_toggle := \<not> ep0_tx_data_toggle u\<rparr>
                    else (upd_in i (\<lambda>p. p\<lparr>actual_xfer_len := actual_xfer_len p + xfer_len p, xfer_len := 0\<rparr>) u)
                           \<lparr>ep0_tx_data_toggle := True\<rparr>)
          in (u1, Some (EpInComplete (of_nat i OR 0x80) (actual_xfer_len (in_ep u1 i)))))
        else
         (let toggled = (epx_tx_data_toggle u)(i - 1 := \<not> epx_tx_data_toggle u (i - 1))
          in if xfer_len p > mps
             then
              (let u1 = (upd_in i (\<lambda>p. p\<lparr>xfer_buf := xfer_buf p + mps, xfer_len := xfer_len p - mps,
                            actual_xfer_len := actual_xfer_len p + mps\<rparr>) u)\<lparr>epx_tx_data_toggle := toggled\<rparr>;
                   write_count = min (xfer_len (in_ep u1 i)) (ucast (ep_mps (in_ep u1 i)));
                   u2 = u1\<lparr>TX_LEN := (TX_LEN u1)(i := ucast write_count), TX_DMA := (TX_DMA u1)(i := xfer_buf (in_ep u1 i))\<rparr>
               in (arm_in i u2, None))
             else
              (let u1 = (upd_in i (\<lambda>p. p\<lparr>actual_xfer_len := actual_xfer_len p + xfer_len p, xfer_len := 0\<rparr>) u)
                          \<lparr>epx_tx_data_toggle := toggled\<rparr>
               in (u1, Some (EpInComplete (of_nat i OR 0x80) (actual_xfer_len (in_ep u1 i)))))))"

definition irq_in_after :: "nat \<Rightarrow> usbhs \<Rightarrow> usbhs" where
  "irq_in_after i u =
    (if i = 0
     then
      (let u1 = (if dev_addr u > 0 then u\<lparr>DEV_AD := dev_addr u, dev_addr := 0\<rparr> else u)
       in if setup_wLength u1 \<noteq> 0 \<and> setup_bmRequestType u1 AND 0x80 = 0 \<or> setup_wLength u1 = 0
          then (read_setup u1)\<lparr>ep0_tx_data_toggle := True\<rparr> else u1)
     else u)"

text \<open>An OUT transaction; \<open>RX_LEN\<close> is read before the event.\<close>

definition irq_out :: "nat \<Rightarrow> usbhs \<Rightarrow> usbhs \<times> dc_event option" where
  "irq_out i u0 =
    (let u = set_rx_ctrl i ((RX_CTRL u0 i AND NOT EP_RES_MASK) OR EP_RES_NAK) u0;
         read_count = ucast (RX_LEN u) :: u32
     in if i = 0
        then
         (let u1 = upd_out i (\<lambda>p. p\<lparr>actual_xfer_len := actual_xfer_len p + read_count, xfer_len := xfer_len p - read_count\<rparr>) u
          in (u1, Some (EpOutComplete 0 (actual_xfer_len (out_ep u1 i)))))
        else if INT_ST u AND USBHS_DEV_UIS_TOG_OK \<noteq> 0
        then
         (let u1 = upd_out i (\<lambda>p. p\<lparr>xfer_buf := xfer_buf p + read_count, actual_xfer_len := actual_xfer_len p + read_count,
                     xfer_len := xfer_len p - read_count\<rparr>) u;
              p = out_ep u1 i
          in if read_count < ucast (ep_mps p) \<or> xfer_len p = 0
             then (u1, Some (EpOutComplete (of_nat i) (actual_xfer_len p)))
             else (set_rx_ctrl i ((RX_CTRL u1 i AND NOT EP_RES_MASK) OR EP_RES_ACK)
                     (u1\<lparr>RX_DMA := (RX_DMA u1)(i := xfer_buf p)\<rparr>), None))
        else (set_rx_ctrl i ((RX_CTRL u i AND NOT EP_RES_MASK) OR EP_RES_ACK)
                (u\<lparr>g_usbhs_rx_tog_drops := g_usbhs_rx_tog_drops u + 1\<rparr>), None))"

definition irq_out_after :: "nat \<Rightarrow> u16 \<Rightarrow> usbhs \<Rightarrow> usbhs" where
  "irq_out_after i read_count u =
    (if i = 0
     then if read_count = 0
          then (read_setup u)\<lparr>ep0_rx_data_toggle := True, ep0_tx_data_toggle := True\<rparr>
          else u\<lparr>ep0_rx_data_toggle := \<not> ep0_rx_data_toggle u\<rparr>
     else u)"

definition call :: "(dc_event \<Rightarrow> usbhs \<Rightarrow> usbhs) \<Rightarrow> dc_event option \<Rightarrow> usbhs \<Rightarrow> usbhs" where
  "call cb ev u = (case ev of None \<Rightarrow> u | Some e \<Rightarrow> cb e u)"

definition irq_transfer :: "(dc_event \<Rightarrow> usbhs \<Rightarrow> usbhs) \<Rightarrow> usbhs \<Rightarrow> usbhs" where
  "irq_transfer cb u =
    (let i = unat (INT_ST u AND MASK_UIS_ENDP);
         token = drop_bit 4 (INT_ST u AND MASK_UIS_TOKEN) AND 3;
         u1 = (if token = PID_IN then (case irq_in i u of (v, ev) \<Rightarrow> irq_in_after i (call cb ev v))
               else if token = PID_OUT then (case irq_out i u of (v, ev) \<Rightarrow> irq_out_after i (RX_LEN u) (call cb ev v))
               else u)
     in clear_int_fg USBHS_TRANSFER_FLAG u1)"

definition zero_ep :: ep_state where
  "zero_ep = \<lparr>ep_mps = 0, ep_type = 0, ep_stalled = 0, ep_enable = False, xfer_buf = 0, xfer_len = 0, actual_xfer_len = 0\<rparr>"

text \<open>A bus reset: the registers of all endpoints, the toggles and the driver's state.\<close>

definition irq_detect :: "(dc_event \<Rightarrow> usbhs \<Rightarrow> usbhs) \<Rightarrow> usbhs \<Rightarrow> usbhs" where
  "irq_detect cb u0 =
    (let u = clear_int_fg USBHS_DETECT_FLAG u0;
         u1 = u\<lparr>ENDP_CONFIG := 0x00010001,
           ep0_tx_data_toggle := True, ep0_rx_data_toggle := True,
           TX_LEN := (\<lambda>i. if i < 16 then 0 else TX_LEN u i),
           TX_CTRL := (\<lambda>i. if i = 0 then EP_RES_NAK else if i < 16 then EP_AUTOTOG OR EP_RES_NAK else TX_CTRL u i),
           RX_CTRL := (\<lambda>i. if 0 < i \<and> i < 16 then EP_AUTOTOG OR EP_RES_NAK else RX_CTRL u i),
           epx_tx_data_toggle := (\<lambda>i. if i < 15 then False else epx_tx_data_toggle u i),
           setup_bmRequestType := 0, setup_wLength := 0, dev_addr := 0, in_ep := (\<lambda>i. zero_ep), out_ep := (\<lambda>i. zero_ep)\<rparr>
     in read_setup (cb BusReset u1))"

definition USBD_IRQHandler :: "(dc_event \<Rightarrow> usbhs \<Rightarrow> usbhs) \<Rightarrow> usbhs \<Rightarrow> usbhs" where
  "USBD_IRQHandler cb u =
    (let intflag = INT_FG u;
         u1 = (if intflag AND USBHS_TRANSFER_FLAG \<noteq> 0 then irq_transfer cb u else u);
         u2 = (if intflag AND USBHS_SETUP_FLAG \<noteq> 0 then cb Ep0SetupComplete (clear_int_fg USBHS_SETUP_FLAG u1) else u1)
     in if intflag AND USBHS_DETECT_FLAG \<noteq> 0 then irq_detect cb u2 else u2)"

end
