(* ===== verification/Usbhs_Out.thy ===== *)
theory Usbhs_Out
  imports Usbhs_Dc
begin

text \<open>
  A bulk OUT endpoint of the driver with the host at the other end of the wire.  The host sends a
  packet with its data toggle until it sees the acknowledgement, which may be lost; the
  controller acknowledges when the endpoint's response is ACK and no transfer interrupt is
  pending (USBHS_INT_BUSY_EN), stores the packet at the endpoint's DMA address and raises the
  interrupt.  The system interleaves the two with the interrupt handler, with reads started
  from the completion callback or by a thread, with accesses to memory outside the buffer that
  is being read into, and with everything the driver does for other endpoints.
\<close>

section \<open>The control word of an endpoint\<close>

text \<open>The receive control register of a bulk endpoint: response ACK or NAK, the toggle, AUTOTOG.\<close>

definition rx_word :: "bool \<Rightarrow> bool \<Rightarrow> byte" where
  "rx_word ack t = (if ack then EP_RES_ACK else EP_RES_NAK) OR tog_bits t OR EP_AUTOTOG"

lemma rx_word_res [simp]: "rx_word ack t AND EP_RES_MASK = (if ack then EP_RES_ACK else EP_RES_NAK)"
  by (cases t) (simp_all add: rx_word_def usbhs_bits tog_bits_def)

lemma rx_word_tog [simp]: "rx_word ack t AND EP_TOG_MASK = tog_bits t"
  by (cases t; cases ack) (simp_all add: rx_word_def usbhs_bits tog_bits_def)

lemma rx_word_autotog [simp]: "rx_word ack t AND EP_AUTOTOG \<noteq> 0"
  by (cases t; cases ack) (simp_all add: rx_word_def usbhs_bits tog_bits_def)

lemma rx_word_flip [simp]: "rx_word ack t XOR EP_TOG_1 = rx_word ack (\<not> t)"
  by (cases t; cases ack) (simp_all add: rx_word_def usbhs_bits tog_bits_def)

lemma rx_word_nak [simp]: "(rx_word ack t AND NOT EP_RES_MASK) OR EP_RES_NAK = rx_word False t"
  by (cases t; cases ack) (simp_all add: rx_word_def usbhs_bits tog_bits_def)

lemma rx_word_ack [simp]: "(rx_word ack t AND NOT EP_RES_MASK) OR EP_RES_ACK = rx_word True t"
  by (cases t; cases ack) (simp_all add: rx_word_def usbhs_bits tog_bits_def)

lemma tog_bits_eq [simp]: "tog_bits a = tog_bits b \<longleftrightarrow> a = b"
  by (cases a; cases b) (simp_all add: tog_bits_def usbhs_bits)

lemma res_ack_nak [simp]: "EP_RES_NAK \<noteq> EP_RES_ACK" "EP_RES_ACK \<noteq> EP_RES_NAK"
  by (simp_all add: usbhs_bits)

lemma or_and_flag: "(x OR f) AND (f :: 'a::len word) = f"
  by (rule bit_word_eqI) (auto simp: bit_simps)

lemma and_not_flag: "(x AND NOT f) AND (f :: 'a::len word) = 0"
  by (rule bit_word_eqI) (auto simp: bit_simps)

lemma transfer_flag_set [simp]: "(x OR USBHS_TRANSFER_FLAG) AND USBHS_TRANSFER_FLAG \<noteq> 0"
  by (simp add: or_and_flag) (simp add: USBHS_TRANSFER_FLAG_def)

section \<open>The wire\<close>

definition bytes :: "(nat \<Rightarrow> byte) \<Rightarrow> nat \<Rightarrow> nat \<Rightarrow> byte list" where
  "bytes m a n = map m [a..<a + n]"

definition put :: "(nat \<Rightarrow> byte) \<Rightarrow> nat \<Rightarrow> byte list \<Rightarrow> (nat \<Rightarrow> byte)" where
  "put m a q = (\<lambda>x. if a \<le> x \<and> x < a + length q then q ! (x - a) else m x)"

lemma length_bytes [simp]: "length (bytes m a n) = n"
  by (simp add: bytes_def)

lemma bytes_0 [simp]: "bytes m a 0 = []"
  by (simp add: bytes_def)

lemma bytes_add: "bytes m a (j + k) = bytes m a j @ bytes m (a + j) k"
  by (simp add: bytes_def upt_add_eq_append [of a "a + j"] add.assoc [symmetric])

lemma bytes_cong: "(\<And>x. a \<le> x \<Longrightarrow> x < a + n \<Longrightarrow> m x = m' x) \<Longrightarrow> bytes m a n = bytes m' a n"
  by (simp add: bytes_def)

lemma bytes_put_same [simp]: "bytes (put m a q) a (length q) = q"
  by (rule nth_equalityI) (simp_all add: bytes_def put_def)

lemma bytes_put_before: "b + n \<le> a \<Longrightarrow> bytes (put m a q) b n = bytes m b n"
  by (rule bytes_cong) (simp add: put_def)

text \<open>
  The driver, the memory, the buffer of the read that was started last, the packet the host is
  sending with its toggle, the packets the host knows to be acknowledged, and the contents of the
  buffers at the completion callbacks.
\<close>

record out_wire =
  dc :: usbhs
  dmem :: "nat \<Rightarrow> byte"
  rd_buf :: u32
  rd_len :: u32
  host_pkt :: "byte list option"
  host_tog :: bool
  acked :: "byte list list"
  delivered :: "byte list list"

definition transfer_pending :: "nat \<Rightarrow> byte \<Rightarrow> usbhs \<Rightarrow> bool" where
  "transfer_pending e token u \<longleftrightarrow> INT_FG u AND USBHS_TRANSFER_FLAG \<noteq> 0 \<and>
     unat (INT_ST u AND MASK_UIS_ENDP) = e \<and> drop_bit 4 (INT_ST u AND MASK_UIS_TOKEN) AND 3 = token"

definition status_word :: "nat \<Rightarrow> byte \<Rightarrow> bool \<Rightarrow> byte" where
  "status_word e token ok = of_nat e OR push_bit 4 token OR (if ok then USBHS_DEV_UIS_TOG_OK else 0)"

text \<open>What the controller does with a packet that it acknowledges.\<close>

definition receive :: "nat \<Rightarrow> bool \<Rightarrow> byte list \<Rightarrow> usbhs \<Rightarrow> usbhs" where
  "receive e h q u =
    (let ok = (RX_CTRL u e AND EP_TOG_MASK = tog_bits h)
     in u\<lparr>INT_FG := INT_FG u OR USBHS_TRANSFER_FLAG, INT_ST := status_word e PID_OUT ok, RX_LEN := of_nat (length q),
          RX_CTRL := (if ok \<and> RX_CTRL u e AND EP_AUTOTOG \<noteq> 0
                      then (RX_CTRL u)(e := RX_CTRL u e XOR EP_TOG_1) else RX_CTRL u)\<rparr>)"

definition out_submit :: "byte list \<Rightarrow> out_wire \<Rightarrow> out_wire option" where
  "out_submit q s = (if host_pkt s = None then Some (s\<lparr>host_pkt := Some q\<rparr>) else None)"

definition out_xact :: "nat \<Rightarrow> bool \<Rightarrow> out_wire \<Rightarrow> out_wire option" where
  "out_xact e ack_lost s =
    (case host_pkt s of
       None \<Rightarrow> None
     | Some q \<Rightarrow>
        if RX_CTRL (dc s) e AND EP_RES_MASK = EP_RES_ACK \<and> INT_FG (dc s) AND USBHS_TRANSFER_FLAG = 0
        then
         (let t = s\<lparr>dc := receive e (host_tog s) q (dc s), dmem := put (dmem s) (unat (RX_DMA (dc s) e)) q\<rparr>
          in Some (if ack_lost then t
                   else t\<lparr>host_pkt := None, host_tog := \<not> host_tog s, acked := acked s @ [q]\<rparr>))
        else None)"

text \<open>The completion callback may start the next read.\<close>

definition rearm :: "nat \<Rightarrow> (u32 \<times> u32) option \<Rightarrow> dc_event \<Rightarrow> usbhs \<Rightarrow> usbhs" where
  "rearm e next_rd ev u =
    (case next_rd of None \<Rightarrow> u | Some (b, n) \<Rightarrow> snd (usbd_ep_start_read (of_nat e) b n u))"

definition set_read :: "(u32 \<times> u32) option \<Rightarrow> out_wire \<Rightarrow> out_wire" where
  "set_read next_rd s = (case next_rd of None \<Rightarrow> s | Some (b, n) \<Rightarrow> s\<lparr>rd_buf := b, rd_len := n\<rparr>)"

definition out_irq :: "nat \<Rightarrow> (u32 \<times> u32) option \<Rightarrow> out_wire \<Rightarrow> out_wire option" where
  "out_irq e next_rd s =
    (if transfer_pending e PID_OUT (dc s) \<and> INT_FG (dc s) AND (USBHS_SETUP_FLAG OR USBHS_DETECT_FLAG) = 0
     then
      (let t = s\<lparr>dc := USBD_IRQHandler (rearm e next_rd) (dc s)\<rparr>
       in Some (case snd (irq_out e (dc s)) of
                  Some (EpOutComplete ep k) \<Rightarrow>
                    set_read next_rd (t\<lparr>delivered := delivered s @ [bytes (dmem s) (unat (rd_buf s)) (unat k)]\<rparr>)
                | _ \<Rightarrow> t))
     else None)"

definition out_start :: "nat \<Rightarrow> u32 \<Rightarrow> u32 \<Rightarrow> out_wire \<Rightarrow> out_wire option" where
  "out_start e b n s =
    (if RX_CTRL (dc s) e AND EP_RES_MASK = EP_RES_NAK
     then Some (s\<lparr>dc := snd (usbd_ep_start_read (of_nat e) b n (dc s)), rd_buf := b, rd_len := n\<rparr>) else None)"

text \<open>A buffer that a read may be started into: aligned, whole packets, within memory.\<close>

definition read_ok :: "nat \<Rightarrow> u32 \<Rightarrow> u32 \<Rightarrow> bool" where
  "read_ok mps b n \<longleftrightarrow> b \<noteq> 0 \<and> b AND 3 = 0 \<and> n \<noteq> 0 \<and> mps dvd unat n \<and> unat b + unat n < 2 ^ 32"

definition next_ok :: "nat \<Rightarrow> (u32 \<times> u32) option \<Rightarrow> bool" where
  "next_ok mps next_rd \<longleftrightarrow> (case next_rd of None \<Rightarrow> True | Some (b, n) \<Rightarrow> read_ok mps b n)"

definition reading :: "nat \<Rightarrow> out_wire \<Rightarrow> bool" where
  "reading e s \<longleftrightarrow> RX_CTRL (dc s) e AND EP_RES_MASK = EP_RES_ACK"

text \<open>What the driver does for other endpoints keeps what belongs to this one.\<close>

definition keeps_out :: "nat \<Rightarrow> usbhs \<Rightarrow> usbhs \<Rightarrow> bool" where
  "keeps_out e u v \<longleftrightarrow> RX_CTRL v e = RX_CTRL u e \<and> RX_DMA v e = RX_DMA u e \<and> out_ep v e = out_ep u e \<and>
     \<not> transfer_pending e PID_OUT v \<and> \<not> transfer_pending e PID_OUT u"

inductive out_step :: "nat \<Rightarrow> nat \<Rightarrow> out_wire \<Rightarrow> out_wire \<Rightarrow> bool" for e mps where
  submit: "length q \<le> mps \<Longrightarrow> out_submit q s = Some t \<Longrightarrow> out_step e mps s t"
| xact: "out_xact e ack_lost s = Some t \<Longrightarrow> out_step e mps s t"
| irq: "next_ok mps next_rd \<Longrightarrow> out_irq e next_rd s = Some t \<Longrightarrow> out_step e mps s t"
| start: "read_ok mps b n \<Longrightarrow> out_start e b n s = Some t \<Longrightarrow> out_step e mps s t"
| memory: "(\<And>x. reading e s \<Longrightarrow> unat (rd_buf s) \<le> x \<Longrightarrow> x < unat (rd_buf s) + unat (rd_len s) \<Longrightarrow> m x = dmem s x) \<Longrightarrow>
           out_step e mps s (s\<lparr>dmem := m\<rparr>)"
| others: "keeps_out e (dc s) v \<Longrightarrow> out_step e mps s (s\<lparr>dc := v\<rparr>)"

text \<open>The state after usbd_ep_open, with the host's toggle at 0 as well.\<close>

definition out_init :: "nat \<Rightarrow> nat \<Rightarrow> out_wire \<Rightarrow> bool" where
  "out_init e mps s \<longleftrightarrow> (\<exists>u. dc s = usbd_ep_open (of_nat e) (of_nat mps) USB_ENDPOINT_TYPE_BULK u \<and>
     INT_FG u AND USBHS_TRANSFER_FLAG = 0) \<and>
     host_pkt s = None \<and> \<not> host_tog s \<and> acked s = [] \<and> delivered s = []"

inductive out_reach :: "nat \<Rightarrow> nat \<Rightarrow> out_wire \<Rightarrow> bool" for e mps where
  init: "out_init e mps s \<Longrightarrow> out_reach e mps s"
| step: "out_reach e mps s \<Longrightarrow> out_step e mps s t \<Longrightarrow> out_reach e mps t"

text \<open>
  The packets the device has taken: those the host knows to be acknowledged, and the current one
  when the toggles differ.  What of them has not been given to a callback lies in the buffer
  of the read in progress.
\<close>

definition accepted :: "nat \<Rightarrow> out_wire \<Rightarrow> byte list list" where
  "accepted e s = acked s @
    (if RX_CTRL (dc s) e AND EP_TOG_MASK = tog_bits (host_tog s) then [] else [the (host_pkt s)])"

definition fresh_bytes :: "nat \<Rightarrow> usbhs \<Rightarrow> nat" where
  "fresh_bytes e u = (if transfer_pending e PID_OUT u \<and> INT_ST u AND USBHS_DEV_UIS_TOG_OK \<noteq> 0 then unat (RX_LEN u) else 0)"

definition stored :: "nat \<Rightarrow> out_wire \<Rightarrow> byte list" where
  "stored e s = (if reading e s
     then bytes (dmem s) (unat (rd_buf s)) (unat (actual_xfer_len (out_ep (dc s) e)) + fresh_bytes e (dc s)) else [])"

section \<open>The invariant\<close>

definition read_state :: "nat \<Rightarrow> nat \<Rightarrow> out_wire \<Rightarrow> bool" where
  "read_state e mps s \<longleftrightarrow>
    (let u = dc s; p = out_ep u e
     in RX_DMA u e = xfer_buf p \<and> unat (xfer_buf p) = unat (rd_buf s) + unat (actual_xfer_len p) \<and>
        unat (xfer_len p) + unat (actual_xfer_len p) = unat (rd_len s) \<and> mps dvd unat (xfer_len p) \<and>
        0 < xfer_len p \<and> unat (rd_buf s) + unat (rd_len s) < 2 ^ 32 \<and>
        (transfer_pending e PID_OUT u \<longrightarrow> unat (RX_LEN u) \<le> mps))"

definition out_at :: "nat \<Rightarrow> nat \<Rightarrow> bool \<Rightarrow> bool \<Rightarrow> out_wire \<Rightarrow> bool" where
  "out_at e mps ack t s \<longleftrightarrow>
     ep_enable (out_ep (dc s) e) \<and> unat (ep_mps (out_ep (dc s) e)) = mps \<and>
     ep_type (out_ep (dc s) e) = USB_ENDPOINT_TYPE_BULK \<and> RX_CTRL (dc s) e = rx_word ack t \<and>
     (t \<noteq> host_tog s \<longrightarrow> host_pkt s \<noteq> None) \<and>
     (ack \<longrightarrow> read_state e mps s) \<and> (\<not> ack \<longrightarrow> \<not> transfer_pending e PID_OUT (dc s)) \<and>
     (\<forall>q. host_pkt s = Some q \<longrightarrow> length q \<le> mps) \<and>
     (ack \<longrightarrow> concat (delivered s) @
        bytes (dmem s) (unat (rd_buf s)) (unat (actual_xfer_len (out_ep (dc s) e)) + fresh_bytes e (dc s)) =
      concat (acked s @ (if t = host_tog s then [] else [the (host_pkt s)]))) \<and>
     (\<not> ack \<longrightarrow> concat (delivered s) = concat (acked s @ (if t = host_tog s then [] else [the (host_pkt s)])))"

definition out_inv :: "nat \<Rightarrow> nat \<Rightarrow> out_wire \<Rightarrow> bool" where
  "out_inv e mps s \<longleftrightarrow> (\<exists>ack t. out_at e mps ack t s)"

lemma endpoint_cases:
  "0 < e \<Longrightarrow> e < 16 \<Longrightarrow> e = 1 \<or> e = 2 \<or> e = 3 \<or> e = 4 \<or> e = 5 \<or> e = 6 \<or> e = 7 \<or> e = 8 \<or> e = 9 \<or> e = 10 \<or>
     e = 11 \<or> e = 12 \<or> e = 13 \<or> e = 14 \<or> e = (15::nat)"
  by arith

lemma status_word_bits:
  assumes "0 < e" "e < 16" "token = PID_OUT \<or> token = PID_IN"
  shows "unat (status_word e token ok AND MASK_UIS_ENDP) = e"
    and "drop_bit 4 (status_word e token ok AND MASK_UIS_TOKEN) AND 3 = token"
    and "status_word e token ok AND USBHS_DEV_UIS_TOG_OK \<noteq> 0 \<longleftrightarrow> ok"
proof -
  note e = endpoint_cases [OF assms(1,2)]
  show "unat (status_word e token ok AND MASK_UIS_ENDP) = e"
    and "drop_bit 4 (status_word e token ok AND MASK_UIS_TOKEN) AND 3 = token"
    and "status_word e token ok AND USBHS_DEV_UIS_TOG_OK \<noteq> 0 \<longleftrightarrow> ok"
    using e assms(3) by (auto simp: status_word_def usbhs_bits)
qed

lemma pending_status:
  assumes "0 < e" "e < 16" "token = PID_OUT \<or> token = PID_IN"
    and "INT_FG u = f OR USBHS_TRANSFER_FLAG" "INT_ST u = status_word e token ok"
  shows "transfer_pending e token u" "INT_ST u AND USBHS_DEV_UIS_TOG_OK \<noteq> 0 \<longleftrightarrow> ok"
  unfolding transfer_pending_def assms(4,5) status_word_bits [OF assms(1-3)]
  by (simp_all only: or_and_flag) (simp add: USBHS_TRANSFER_FLAG_def)

lemma rd_endpoint:
  assumes "0 < e" "e < 16"
  shows "USB_EP_GET_IDX (of_nat e) = e" "USB_EP_DIR_IS_OUT (of_nat e)"
proof -
  from endpoint_cases [OF assms] show "USB_EP_GET_IDX (of_nat e) = e" "USB_EP_DIR_IS_OUT (of_nat e)"
    by (auto simp: USB_EP_GET_IDX_def USB_EP_DIR_IS_OUT_def)
qed

subsection \<open>The operations on the endpoint\<close>

text \<open>Starting a read of a bulk endpoint.\<close>

lemma start_read_bulk:
  assumes "0 < e" "e < 16" "read_ok mps b n" "ep_enable (out_ep u e)" "ep_type (out_ep u e) = USB_ENDPOINT_TYPE_BULK"
    and "RX_CTRL u e = rx_word ack t"
  shows "usbd_ep_start_read (of_nat e) b n u =
    (0, u\<lparr>out_ep := (out_ep u)(e := (out_ep u e)\<lparr>xfer_buf := b, xfer_len := n, actual_xfer_len := 0\<rparr>),
        RX_DMA := (RX_DMA u)(e := b), RX_CTRL := (RX_CTRL u)(e := rx_word True t)\<rparr>)"
  using assms by (simp add: usbd_ep_start_read_def rd_endpoint read_ok_def upd_out_def set_rx_ctrl_def Let_def
      USB_ENDPOINT_TYPE_BULK_def USB_ENDPOINT_TYPE_ISOCHRONOUS_def)

lemma started_read:
  assumes "0 < e" "e < 16" "read_ok mps b n" "ep_enable (out_ep u e)" "ep_type (out_ep u e) = USB_ENDPOINT_TYPE_BULK"
    and "RX_CTRL u e = rx_word ack t"
  defines "v \<equiv> snd (usbd_ep_start_read (of_nat e) b n u)"
  shows "out_ep v e = (out_ep u e)\<lparr>xfer_buf := b, xfer_len := n, actual_xfer_len := 0\<rparr>" "RX_CTRL v e = rx_word True t"
    "RX_DMA v e = b" "INT_FG v = INT_FG u" "INT_ST v = INT_ST u" "RX_LEN v = RX_LEN u"
  unfolding v_def using start_read_bulk [OF assms(1-6)] by simp_all

text \<open>The interrupt handler, when only a transfer on the OUT endpoint is pending.\<close>

lemma handler_out:
  assumes "0 < e" "transfer_pending e PID_OUT u" "INT_FG u AND (USBHS_SETUP_FLAG OR USBHS_DETECT_FLAG) = 0"
  shows "USBD_IRQHandler cb u = (case irq_out e u of (v, ev) \<Rightarrow> clear_int_fg USBHS_TRANSFER_FLAG (call cb ev v))"
proof -
  have none: "INT_FG u AND USBHS_SETUP_FLAG = 0" "INT_FG u AND USBHS_DETECT_FLAG = 0"
    using assms(3) by (simp_all add: bit.conj_disj_distrib or_eq_0_iff)
  then show ?thesis
    using assms(1,2) by (simp add: USBD_IRQHandler_def transfer_pending_def irq_transfer_def irq_out_after_def Let_def PID_OUT_def
        PID_IN_def split: prod.split)
qed

lemma bulk_word_facts:
  assumes "RX_CTRL u e = rx_word ack t"
  shows "RX_CTRL u e AND EP_TOG_MASK = tog_bits t"
    and "RX_CTRL u e AND EP_RES_MASK = EP_RES_ACK \<longleftrightarrow> ack" and "RX_CTRL u e AND EP_RES_MASK = EP_RES_NAK \<longleftrightarrow> \<not> ack"
  using assms by simp_all

lemma reading_iff: "RX_CTRL (dc s) e = rx_word ack t \<Longrightarrow> reading e s \<longleftrightarrow> ack"
  by (simp add: reading_def)

lemma accepted_iff: "RX_CTRL (dc s) e = rx_word ack t \<Longrightarrow>
    accepted e s = acked s @ (if t = host_tog s then [] else [the (host_pkt s)])"
  by (simp add: accepted_def)

subsection \<open>Preservation\<close>

lemma max_packet_size:
  assumes "mps \<le> 2047"
  shows "unat (of_nat mps :: u16) = mps" "USB_GET_MAXPACKETSIZE (of_nat mps) = of_nat mps"
proof -
  show m: "unat (of_nat mps :: u16) = mps"
    using assms by (simp add: unat_of_nat take_bit_nat_eq_self)
  then have "uint (of_nat mps :: u16) = int mps"
    by (metis of_nat_unat)
  then have "(of_nat mps :: u16) AND mask 11 = of_nat mps"
    using assms by (simp only: mask_eq_iff) simp
  moreover have "mask 11 = (0x7FF :: u16)"
    by (simp add: mask_eq_exp_minus_1)
  ultimately show "USB_GET_MAXPACKETSIZE (of_nat mps) = of_nat mps"
    by (simp add: USB_GET_MAXPACKETSIZE_def)
qed

lemma out_inv_init:
  assumes "out_init e mps s" "0 < e" "e < 16" "mps \<le> 2047"
  shows "out_inv e mps s"
proof -
  obtain u where u: "dc s = usbd_ep_open (of_nat e) (of_nat mps) USB_ENDPOINT_TYPE_BULK u" "INT_FG u AND USBHS_TRANSFER_FLAG = 0"
    and s: "host_pkt s = None" "\<not> host_tog s" "acked s = []" "delivered s = []"
    using assms(1) by (auto simp: out_init_def)
  note m = max_packet_size [OF assms(4)]
  have "(USB_ENDPOINT_TYPE_BULK :: byte) AND 3 = USB_ENDPOINT_TYPE_BULK"
    by (simp add: USB_ENDPOINT_TYPE_BULK_def)
  moreover have "EP_RES_NAK OR EP_TOG_0 OR EP_AUTOTOG = rx_word False False"
    by (simp add: rx_word_def tog_bits_def)
  ultimately have "out_at e mps False False s"
    using u s assms(2,3) m
    by (simp add: out_at_def usbd_ep_open_def rd_endpoint upd_out_def set_rx_ctrl_def Let_def USB_ENDPOINT_TYPE_BULK_def
        USB_ENDPOINT_TYPE_ISOCHRONOUS_def USB_GET_ENDPOINT_TYPE_def transfer_pending_def
        stored_def accepted_def reading_def)
  then show ?thesis
    by (auto simp: out_inv_def)
qed

lemma out_at_submit:
  assumes "out_at e mps ack t s" "length q \<le> mps" "out_submit q s = Some u"
  shows "out_at e mps ack t u"
proof -
  have h: "host_pkt s = None" and u: "u = s\<lparr>host_pkt := Some q\<rparr>"
    using assms(3) by (simp_all add: out_submit_def split: if_splits)
  have "t = host_tog s"
    using assms(1) h by (auto simp: out_at_def)
  then show ?thesis
    using assms(1,2) h u by (simp add: out_at_def read_state_def Let_def)
qed

lemma out_at_accounts:
  "out_at e mps ack t s \<Longrightarrow> concat (delivered s) @ stored e s = concat (accepted e s)"
  by (simp add: out_at_def stored_def accepted_iff reading_iff)

lemma out_at_memory:
  assumes "out_at e mps ack t s"
    and m: "\<And>x. reading e s \<Longrightarrow> unat (rd_buf s) \<le> x \<Longrightarrow> x < unat (rd_buf s) + unat (rd_len s) \<Longrightarrow> m x = dmem s x"
  shows "out_at e mps ack t (s\<lparr>dmem := m\<rparr>)"
proof (cases ack)
  case True
  let ?n = "unat (actual_xfer_len (out_ep (dc s) e)) + fresh_bytes e (dc s)"
  have r: "read_state e mps s" and w: "reading e s"
    using assms(1) True by (auto simp: out_at_def reading_iff)
  have "mps \<le> unat (xfer_len (out_ep (dc s) e))"
    using r by (auto simp: read_state_def Let_def word_less_nat_alt intro: dvd_imp_le)
  then have "?n \<le> unat (rd_len s)"
    using r by (auto simp: read_state_def Let_def fresh_bytes_def)
  then have "bytes m (unat (rd_buf s)) ?n = bytes (dmem s) (unat (rd_buf s)) ?n"
    using w by (intro bytes_cong m) auto
  then show ?thesis
    using assms(1) True r by (simp add: out_at_def read_state_def Let_def)
next
  case False
  then show ?thesis
    using assms(1) by (simp add: out_at_def)
qed

lemma out_at_others:
  assumes "out_at e mps ack t s" "keeps_out e (dc s) v"
  shows "out_at e mps ack t (s\<lparr>dc := v\<rparr>)"
  using assms by (simp add: out_at_def read_state_def keeps_out_def fresh_bytes_def Let_def)

lemma transfer_pending_cong:
  "INT_FG v = INT_FG u \<Longrightarrow> INT_ST v = INT_ST u \<Longrightarrow> transfer_pending e token v = transfer_pending e token u"
  by (simp add: transfer_pending_def)

lemma out_at_start:
  assumes "out_at e mps ack t s" "0 < e" "e < 16" "read_ok mps b n" "out_start e b n s = Some u"
  shows "out_at e mps True t u"
proof -
  have na: "\<not> ack"
    using assms(1,5) by (auto simp: out_at_def out_start_def split: if_splits)
  have u: "u = s\<lparr>dc := snd (usbd_ep_start_read (of_nat e) b n (dc s)), rd_buf := b, rd_len := n\<rparr>"
    using assms(5) by (auto simp: out_start_def split: if_splits)
  have d: "ep_enable (out_ep (dc s) e)" "ep_type (out_ep (dc s) e) = USB_ENDPOINT_TYPE_BULK" "RX_CTRL (dc s) e = rx_word ack t"
    and np: "\<not> transfer_pending e PID_OUT (dc s)"
    using assms(1) na by (simp_all add: out_at_def)
  note v = started_read [OF assms(2-4) d]
  have np': "\<not> transfer_pending e PID_OUT (snd (usbd_ep_start_read (of_nat e) b n (dc s)))"
    using np transfer_pending_cong [OF v(4,5)] by blast
  have "0 < n"
    using assms(4) by (simp add: read_ok_def word_gt_0)
  then have "read_state e mps u"
    using assms(4) v np' by (simp add: u read_state_def Let_def read_ok_def)
  then show ?thesis
    using assms(1) na v np' by (simp add: out_at_def u fresh_bytes_def)
qed

lemma out_at_xact:
  assumes at: "out_at e mps ack t s" and e: "0 < e" "e < 16" and x: "out_xact e ack_lost s = Some u" and m: "mps \<le> 2047"
  shows "\<exists>t'. out_at e mps True t' u"
proof -
  obtain q where q: "host_pkt s = Some q"
    and r: "RX_CTRL (dc s) e AND EP_RES_MASK = EP_RES_ACK" "INT_FG (dc s) AND USBHS_TRANSFER_FLAG = 0"
    using x by (auto simp: out_xact_def split: option.splits if_splits)
  have d: "RX_CTRL (dc s) e = rx_word ack t"
    using at by (simp add: out_at_def)
  then have ack: ack
    using r by (simp split: if_splits)
  let ?v = "receive e (host_tog s) q (dc s)" and ?m = "put (dmem s) (unat (RX_DMA (dc s) e)) q"
  let ?a = "unat (actual_xfer_len (out_ep (dc s) e))" and ?b = "unat (rd_buf s)"
  have u: "u = (if ack_lost then s\<lparr>dc := ?v, dmem := ?m\<rparr>
                else s\<lparr>dc := ?v, dmem := ?m, host_pkt := None, host_tog := \<not> host_tog s, acked := acked s @ [q]\<rparr>)"
    using x q r by (simp add: out_xact_def Let_def split: if_splits)
  have len: "length q \<le> mps"
    using at q by (simp add: out_at_def)
  have v: "out_ep ?v = out_ep (dc s)" "RX_DMA ?v = RX_DMA (dc s)" "RX_CTRL ?v e = rx_word True (\<not> host_tog s)"
    "unat (RX_LEN ?v) = length q" "INT_FG ?v = INT_FG (dc s) OR USBHS_TRANSFER_FLAG"
    "INT_ST ?v = status_word e PID_OUT (t = host_tog s)"
    using d ack len m by (auto simp: receive_def Let_def unat_of_nat take_bit_nat_eq_self)
  note vp = pending_status [OF e disjI1 [OF refl] v(5,6)]
  have rs: "read_state e mps s"
    using at ack by (simp add: out_at_def)
  have np: "\<not> transfer_pending e PID_OUT (dc s)"
    using r by (simp add: transfer_pending_def)
  have dma: "unat (RX_DMA (dc s) e) = ?b + ?a"
    using rs by (simp add: read_state_def Let_def)
  have before: "bytes ?m ?b ?a = bytes (dmem s) ?b ?a"
    by (rule bytes_put_before) (simp add: dma)
  have new: "bytes ?m ?b (?a + length q) = bytes (dmem s) ?b ?a @ q"
    by (simp add: bytes_add before) (simp add: bytes_put_same flip: dma)
  have old: "concat (delivered s) @ bytes (dmem s) ?b ?a = concat (acked s @ (if t = host_tog s then [] else [q]))"
    using at ack np q by (simp add: out_at_def fresh_bytes_def)
  have ru: "read_state e mps u"
    using rs v len by (simp add: read_state_def Let_def u)
  have all: "concat (delivered s) @ bytes ?m ?b (?a + fresh_bytes e ?v) = concat (acked s @ [q])"
    using old v vp before new by (simp add: fresh_bytes_def split: if_splits) (simp flip: append_assoc)?
  have "out_at e mps True (\<not> host_tog s) u"
    using at v vp ru all q by (cases ack_lost) (simp_all add: out_at_def u)
  then show ?thesis ..
qed

lemma irq_out_dropped:
  assumes "0 < e" "RX_CTRL u e = rx_word ack t" "INT_ST u AND USBHS_DEV_UIS_TOG_OK = 0"
  shows "irq_out e u = (u\<lparr>RX_CTRL := (RX_CTRL u)(e := rx_word True t), g_usbhs_rx_tog_drops := g_usbhs_rx_tog_drops u + 1\<rparr>, None)"
  using assms by (simp add: irq_out_def set_rx_ctrl_def Let_def)

definition advance :: "u32 \<Rightarrow> ep_state \<Rightarrow> ep_state" where
  "advance k p = p\<lparr>xfer_buf := xfer_buf p + k, actual_xfer_len := actual_xfer_len p + k, xfer_len := xfer_len p - k\<rparr>"

lemma irq_out_taken:
  assumes "0 < e" "RX_CTRL u e = rx_word ack t" "INT_ST u AND USBHS_DEV_UIS_TOG_OK \<noteq> 0"
  defines "k \<equiv> (ucast (RX_LEN u) :: u32)"
  shows "irq_out e u =
    (if k < ucast (ep_mps (out_ep u e)) \<or> xfer_len (out_ep u e) = k
     then (u\<lparr>out_ep := (out_ep u)(e := advance k (out_ep u e)), RX_CTRL := (RX_CTRL u)(e := rx_word False t)\<rparr>,
           Some (EpOutComplete (of_nat e) (actual_xfer_len (out_ep u e) + k)))
     else (u\<lparr>out_ep := (out_ep u)(e := advance k (out_ep u e)), RX_CTRL := (RX_CTRL u)(e := rx_word True t),
             RX_DMA := (RX_DMA u)(e := xfer_buf (out_ep u e) + k)\<rparr>, None))"
  using assms by (simp add: irq_out_def set_rx_ctrl_def upd_out_def advance_def Let_def)

lemma out_irq_cases:
  assumes at: "out_at e mps ack t s" and e: "0 < e" "e < 16" and x: "out_irq e next_rd s = Some u"
  shows "ack" "transfer_pending e PID_OUT (dc s)"
    "INT_FG (dc s) AND (USBHS_SETUP_FLAG OR USBHS_DETECT_FLAG) = 0" "read_state e mps s"
    "RX_CTRL (dc s) e = rx_word True t"
  using assms by (auto simp: out_irq_def out_at_def split: if_splits)

lemma out_at_irq_dropped:
  assumes at: "out_at e mps ack t s" and e: "0 < e" "e < 16" and x: "out_irq e next_rd s = Some u"
    and tog: "INT_ST (dc s) AND USBHS_DEV_UIS_TOG_OK = 0"
  shows "out_at e mps True t u"
proof -
  note c = out_irq_cases [OF at e x]
  note d = irq_out_dropped [OF e(1) c(5) tog]
  let ?v = "clear_int_fg USBHS_TRANSFER_FLAG ((dc s)\<lparr>RX_CTRL := (RX_CTRL (dc s))(e := rx_word True t),
               g_usbhs_rx_tog_drops := g_usbhs_rx_tog_drops (dc s) + 1\<rparr>)"
  have u: "u = s\<lparr>dc := ?v\<rparr>"
    using x c by (simp add: out_irq_def handler_out [OF e(1) c(2,3)] d call_def Let_def)
  have np: "\<not> transfer_pending e PID_OUT ?v"
    by (simp add: transfer_pending_def clear_int_fg_def and_not_flag)
  have v: "out_ep ?v = out_ep (dc s)" "RX_DMA ?v = RX_DMA (dc s)" "RX_CTRL ?v e = rx_word True t"
    by (simp_all add: clear_int_fg_def)
  have f: "fresh_bytes e ?v = 0" "fresh_bytes e (dc s) = 0"
    using np tog by (simp_all add: fresh_bytes_def)
  have "read_state e mps u"
    using c(4) np v by (simp add: read_state_def Let_def u)
  then show ?thesis
    using at c(1) v np f by (simp add: out_at_def u)
qed

text \<open>A new packet: the counters move by its length, within the buffer.\<close>

lemma taken_counts:
  assumes rs: "read_state e mps s" and pend: "transfer_pending e PID_OUT (dc s)" and m: "unat (ep_mps (out_ep (dc s) e)) = mps"
  defines "k \<equiv> (ucast (RX_LEN (dc s)) :: u32)" and "p \<equiv> out_ep (dc s) e"
  shows "unat k \<le> mps" "mps \<le> unat (xfer_len p)" "unat k = unat (RX_LEN (dc s))"
    and "unat (actual_xfer_len p + k) = unat (actual_xfer_len p) + unat k"
    and "unat (xfer_buf p + k) = unat (xfer_buf p) + unat k" "unat (xfer_len p - k) = unat (xfer_len p) - unat k"
    and "k < ucast (ep_mps p) \<longleftrightarrow> unat k < mps"
proof -
  show k: "unat k = unat (RX_LEN (dc s))"
    by (simp add: k_def unat_u16_u32)
  show km: "unat k \<le> mps"
    using rs pend k by (simp add: read_state_def Let_def)
  show mx: "mps \<le> unat (xfer_len p)"
    using rs by (auto simp: read_state_def Let_def p_def word_less_nat_alt intro: dvd_imp_le)
  have tot: "unat (xfer_len p) + unat (actual_xfer_len p) = unat (rd_len s)"
    "unat (xfer_buf p) = unat (rd_buf s) + unat (actual_xfer_len p)" "unat (rd_buf s) + unat (rd_len s) < 2 ^ 32"
    using rs by (simp_all add: read_state_def Let_def p_def)
  show "unat (actual_xfer_len p + k) = unat (actual_xfer_len p) + unat k"
    by (rule unat_add_u32) (use tot km mx in linarith)
  show "unat (xfer_buf p + k) = unat (xfer_buf p) + unat k"
    by (rule unat_add_u32) (use tot km mx in linarith)
  show "unat (xfer_len p - k) = unat (xfer_len p) - unat k"
    by (rule unat_sub_u32) (use km mx in \<open>simp add: word_le_nat_alt\<close>)
  show "k < ucast (ep_mps p) \<longleftrightarrow> unat k < mps"
    using m by (simp add: word_less_nat_alt unat_u16_u32 p_def)
qed

lemma out_at_irq_continue:
  assumes at: "out_at e mps ack t s" and e: "0 < e" "e < 16" and x: "out_irq e next_rd s = Some u"
    and tog: "INT_ST (dc s) AND USBHS_DEV_UIS_TOG_OK \<noteq> 0"
  defines "k \<equiv> (ucast (RX_LEN (dc s)) :: u32)" and "p \<equiv> out_ep (dc s) e"
  assumes more: "\<not> (k < ucast (ep_mps p) \<or> xfer_len p = k)"
  shows "out_at e mps True t u"
proof -
  note c = out_irq_cases [OF at e x]
  have m: "unat (ep_mps (out_ep (dc s) e)) = mps"
    using at by (simp add: out_at_def)
  note n = taken_counts [OF c(4,2) m, folded k_def p_def]
  have kk: "unat k = mps"
    using more n(1,7) by auto
  let ?mid = "(dc s)\<lparr>out_ep := (out_ep (dc s))(e := advance k p), RX_CTRL := (RX_CTRL (dc s))(e := rx_word True t),
             RX_DMA := (RX_DMA (dc s))(e := xfer_buf p + k)\<rparr>"
  let ?v = "clear_int_fg USBHS_TRANSFER_FLAG ?mid"
  have d: "irq_out e (dc s) = (?mid, None)"
    unfolding irq_out_taken [OF e(1) c(5) tog] using more by (simp add: k_def p_def)
  have u: "u = s\<lparr>dc := ?v\<rparr>"
    using x c by (simp add: out_irq_def handler_out [OF e(1) c(2,3)] d call_def Let_def)
  have np: "\<not> transfer_pending e PID_OUT ?v"
    by (simp add: transfer_pending_def clear_int_fg_def and_not_flag)
  have v: "out_ep ?v e = advance k p" "RX_DMA ?v e = xfer_buf p + k" "RX_CTRL ?v e = rx_word True t"
    by (simp_all add: clear_int_fg_def)
  have f: "fresh_bytes e ?v = 0" "fresh_bytes e (dc s) = unat k"
    using np tog c(2) n(3) by (simp_all add: fresh_bytes_def)
  have "0 < xfer_len p - k"
    using more by (simp add: word_gt_0)
  moreover have "mps dvd unat (xfer_len p)"
    using c(4) by (simp add: read_state_def Let_def p_def)
  ultimately have "read_state e mps u"
    using c(4) np v n kk by (simp add: read_state_def Let_def u advance_def p_def [symmetric])
  then show ?thesis
    using at c(1) v np f n by (simp add: out_at_def u advance_def p_def [symmetric])
qed

lemma out_at_irq_complete:
  assumes at: "out_at e mps ack t s" and e: "0 < e" "e < 16" and x: "out_irq e next_rd s = Some u"
    and tog: "INT_ST (dc s) AND USBHS_DEV_UIS_TOG_OK \<noteq> 0" and nx: "next_ok mps next_rd"
  defines "k \<equiv> (ucast (RX_LEN (dc s)) :: u32)" and "p \<equiv> out_ep (dc s) e"
  assumes last_pkt: "k < ucast (ep_mps p) \<or> xfer_len p = k"
  shows "out_at e mps (next_rd \<noteq> None) t u"
proof -
  note c = out_irq_cases [OF at e x]
  have m: "unat (ep_mps (out_ep (dc s) e)) = mps"
    using at by (simp add: out_at_def)
  note n = taken_counts [OF c(4,2) m, folded k_def p_def]
  let ?mid = "(dc s)\<lparr>out_ep := (out_ep (dc s))(e := advance k p), RX_CTRL := (RX_CTRL (dc s))(e := rx_word False t)\<rparr>"
  let ?cb = "rearm e next_rd (EpOutComplete (of_nat e) (actual_xfer_len p + k))"
  let ?v = "clear_int_fg USBHS_TRANSFER_FLAG (?cb ?mid)"
  have d: "irq_out e (dc s) = (?mid, Some (EpOutComplete (of_nat e) (actual_xfer_len p + k)))"
    unfolding irq_out_taken [OF e(1) c(5) tog] using last_pkt by (simp add: k_def p_def)
  have u: "u = set_read next_rd (s\<lparr>dc := ?v,
      delivered := delivered s @ [bytes (dmem s) (unat (rd_buf s)) (unat (actual_xfer_len p + k))]\<rparr>)"
    using x c by (simp add: out_irq_def handler_out [OF e(1) c(2,3)] d call_def Let_def)
  have f: "fresh_bytes e (dc s) = unat k"
    using tog c(2) n(3) by (simp add: fresh_bytes_def)
  have got: "concat (delivered s) @ bytes (dmem s) (unat (rd_buf s)) (unat (actual_xfer_len p + k)) =
      concat (acked s @ (if t = host_tog s then [] else [the (host_pkt s)]))"
    using at c(1) f n by (simp add: out_at_def p_def [symmetric])
  have np: "\<not> transfer_pending e PID_OUT (clear_int_fg USBHS_TRANSFER_FLAG w)" for w
    by (simp add: transfer_pending_def clear_int_fg_def and_not_flag)
  have ep: "ep_enable (out_ep ?mid e)" "ep_type (out_ep ?mid e) = USB_ENDPOINT_TYPE_BULK" "RX_CTRL ?mid e = rx_word False t"
    "unat (ep_mps (out_ep ?mid e)) = mps"
    using at m by (simp_all add: out_at_def advance_def p_def)
  show ?thesis
  proof (cases next_rd)
    case None
    then show ?thesis
      using at ep np got by (simp add: out_at_def u rearm_def set_read_def clear_int_fg_def transfer_pending_def and_not_flag)
  next
    case (Some bn)
    then obtain b l where bn: "next_rd = Some (b, l)"
      by (cases bn) auto
    then have ok: "read_ok mps b l"
      using nx by (simp add: next_ok_def)
    have "0 < l"
      using ok by (simp add: read_ok_def word_gt_0)
    note w = started_read [OF e ok ep(1-3)]
    have dcu: "dc u = clear_int_fg USBHS_TRANSFER_FLAG (snd (usbd_ep_start_read (of_nat e) b l ?mid))"
      and rest: "rd_buf u = b" "rd_len u = l" "host_pkt u = host_pkt s" "host_tog u = host_tog s" "acked u = acked s"
        "delivered u = delivered s @ [bytes (dmem s) (unat (rd_buf s)) (unat (actual_xfer_len p + k))]"
      by (simp_all add: u bn rearm_def set_read_def)
    have v: "out_ep (dc u) e = (out_ep ?mid e)\<lparr>xfer_buf := b, xfer_len := l, actual_xfer_len := 0\<rparr>"
      "RX_CTRL (dc u) e = rx_word True t" "RX_DMA (dc u) e = b" "\<not> transfer_pending e PID_OUT (dc u)"
      unfolding dcu using w(1-3) np by (simp_all only: clear_int_fg_def usbhs.simps) simp_all?
    have "read_state e mps u"
      using v rest ok \<open>0 < l\<close> by (simp add: read_state_def Let_def read_ok_def)
    then show ?thesis
      using at v rest ep got bn by (simp add: out_at_def fresh_bytes_def)
  qed
qed

lemma out_at_irq:
  assumes at: "out_at e mps ack t s" and e: "0 < e" "e < 16" and nx: "next_ok mps next_rd" and x: "out_irq e next_rd s = Some u"
  shows "\<exists>ack'. out_at e mps ack' t u"
proof (cases "INT_ST (dc s) AND USBHS_DEV_UIS_TOG_OK = 0")
  case True
  then show ?thesis
    using out_at_irq_dropped [OF at e x] by blast
next
  case False
  then show ?thesis
    using out_at_irq_continue [OF at e x False] out_at_irq_complete [OF at e x False nx] by blast
qed

lemma out_inv_step:
  assumes "out_step e mps s u" "out_inv e mps s" "0 < e" "e < 16" "mps \<le> 2047"
  shows "out_inv e mps u"
proof -
  obtain ack t where at: "out_at e mps ack t s"
    using assms(2) by (auto simp: out_inv_def)
  from assms(1) have "\<exists>ack' t'. out_at e mps ack' t' u"
  proof cases
    case (submit q)
    then show ?thesis using out_at_submit [OF at] by blast
  next
    case (xact ack_lost)
    then show ?thesis using out_at_xact [OF at assms(3,4) _ assms(5)] by blast
  next
    case (irq next_rd)
    then show ?thesis using out_at_irq [OF at assms(3,4)] by blast
  next
    case (start b n)
    then show ?thesis using out_at_start [OF at assms(3,4)] by blast
  next
    case (memory m)
    then show ?thesis using out_at_memory [OF at] by blast
  next
    case (others v)
    then show ?thesis using out_at_others [OF at] by blast
  qed
  then show ?thesis
    by (simp add: out_inv_def)
qed

lemma out_reach_inv: "out_reach e mps s \<Longrightarrow> 0 < e \<Longrightarrow> e < 16 \<Longrightarrow> mps \<le> 2047 \<Longrightarrow> out_inv e mps s"
  by (induction rule: out_reach.induct) (blast intro: out_inv_init out_inv_step)+

section \<open>What the driver does for other endpoints\<close>

lemma keeps_out_start_write:
  "\<not> transfer_pending e PID_OUT u \<Longrightarrow> keeps_out e u (snd (usbd_ep_start_write ep data len u))"
  by (simp add: keeps_out_def usbd_ep_start_write_def arm_in_def set_tx_ctrl_def upd_in_def transfer_pending_def Let_def)

lemma keeps_out_start_read:
  "\<not> transfer_pending e PID_OUT u \<Longrightarrow> USB_EP_GET_IDX ep \<noteq> e \<Longrightarrow> keeps_out e u (snd (usbd_ep_start_read ep data len u))"
  by (simp add: keeps_out_def usbd_ep_start_read_def set_rx_ctrl_def upd_out_def transfer_pending_def Let_def)

lemma keeps_out_irq_in: "\<not> transfer_pending e PID_OUT u \<Longrightarrow> keeps_out e u (fst (irq_in i u))"
  by (simp add: keeps_out_def irq_in_def arm_in_def set_tx_ctrl_def upd_in_def transfer_pending_def Let_def)

lemma keeps_out_irq_out: "\<not> transfer_pending e PID_OUT u \<Longrightarrow> i \<noteq> e \<Longrightarrow> keeps_out e u (fst (irq_out i u))"
  by (simp add: keeps_out_def irq_out_def set_rx_ctrl_def upd_out_def transfer_pending_def Let_def)

lemma keeps_out_trans: "keeps_out e u v \<Longrightarrow> keeps_out e v w \<Longrightarrow> keeps_out e u w"
  by (simp add: keeps_out_def)

lemma keeps_out_after:
  assumes "0 < e" "\<not> transfer_pending e PID_OUT u"
  shows "keeps_out e u (irq_in_after i u)" "keeps_out e u (irq_out_after i k u)" "keeps_out e u (clear_int_fg f u)"
proof -
  show "keeps_out e u (irq_in_after i u)" "keeps_out e u (irq_out_after i k u)"
    using assms by (simp_all add: keeps_out_def irq_in_after_def irq_out_after_def read_setup_def set_rx_ctrl_def
        transfer_pending_def Let_def)
  have "(INT_FG u AND NOT f) AND USBHS_TRANSFER_FLAG = (INT_FG u AND USBHS_TRANSFER_FLAG) AND NOT f"
    by (rule bit_word_eqI) (auto simp: bit_simps)
  then show "keeps_out e u (clear_int_fg f u)"
    using assms(2) by (cases "INT_FG u AND USBHS_TRANSFER_FLAG = 0") (simp_all add: keeps_out_def clear_int_fg_def
        transfer_pending_def)
qed

text \<open>The interrupt handler, when its transfer is another endpoint's and the callbacks keep this endpoint.\<close>

lemma keeps_out_handler:
  assumes "0 < e" "\<not> transfer_pending e PID_OUT u" "INT_FG u AND USBHS_DETECT_FLAG = 0"
    and cb: "\<And>ev w. \<not> transfer_pending e PID_OUT w \<Longrightarrow> keeps_out e w (cb ev w)"
  shows "keeps_out e u (USBD_IRQHandler cb u)"
proof -
  have np: "keeps_out e a b \<Longrightarrow> \<not> transfer_pending e PID_OUT b" for a b
    by (simp add: keeps_out_def)
  have call: "keeps_out e w (call cb ev w)" if "\<not> transfer_pending e PID_OUT w" for ev w
    using that by (cases ev) (simp_all add: call_def keeps_out_def cb [unfolded keeps_out_def])
  let ?i = "unat (INT_ST u AND MASK_UIS_ENDP)" and ?t = "drop_bit 4 (INT_ST u AND MASK_UIS_TOKEN) AND 3"
  have tr: "keeps_out e u (irq_transfer cb u)" if fl: "INT_FG u AND USBHS_TRANSFER_FLAG \<noteq> 0"
  proof -
    have "keeps_out e u (if ?t = PID_IN then (case irq_in ?i u of (v, ev) \<Rightarrow> irq_in_after ?i (call cb ev v))
               else if ?t = PID_OUT then (case irq_out ?i u of (v, ev) \<Rightarrow> irq_out_after ?i (RX_LEN u) (call cb ev v)) else u)"
    proof -
      have i: "?t = PID_OUT \<Longrightarrow> ?i \<noteq> e"
        using assms(2) fl by (auto simp: transfer_pending_def)
      have a: "keeps_out e u (irq_in_after ?i (call cb ev v))" if "irq_in ?i u = (v, ev)" for v ev
        using that keeps_out_irq_in [OF assms(2), of ?i] call keeps_out_after(1) [OF assms(1)] np keeps_out_trans
        by (metis fst_conv)
      have b: "keeps_out e u (irq_out_after ?i (RX_LEN u) (call cb ev v))" if "irq_out ?i u = (v, ev)" "?t = PID_OUT" for v ev
        using that keeps_out_irq_out [OF assms(2) i] call keeps_out_after(2) [OF assms(1)] np keeps_out_trans
        by (metis fst_conv)
      have "keeps_out e u u"
        using assms(2) by (simp add: keeps_out_def)
      then show ?thesis
        using a b by (simp split: prod.split)
    qed
    then show ?thesis
      unfolding irq_transfer_def Let_def using keeps_out_after(3) [OF assms(1)] np keeps_out_trans by blast
  qed
  let ?u1 = "if INT_FG u AND USBHS_TRANSFER_FLAG \<noteq> 0 then irq_transfer cb u else u"
  have k1: "keeps_out e u ?u1"
    using tr assms(2) by (simp add: keeps_out_def)
  have k2: "keeps_out e ?u1 (clear_int_fg USBHS_SETUP_FLAG ?u1)"
    by (rule keeps_out_after(3) [OF assms(1) np [OF k1]])
  have k3: "keeps_out e u (cb Ep0SetupComplete (clear_int_fg USBHS_SETUP_FLAG ?u1))"
    by (rule keeps_out_trans [OF keeps_out_trans [OF k1 k2] cb [OF np [OF k2]]])
  have handler: "USBD_IRQHandler cb u =
      (if INT_FG u AND USBHS_SETUP_FLAG \<noteq> 0 then cb Ep0SetupComplete (clear_int_fg USBHS_SETUP_FLAG ?u1) else ?u1)"
    unfolding USBD_IRQHandler_def Let_def using assms(3) by (simp only: simp_thms if_False)
  have both: "keeps_out e u (if c then a else b)" if "keeps_out e u a" "keeps_out e u b" for c a b
    using that by simp
  show ?thesis
    unfolding handler by (rule both [OF k3 k1])
qed

section \<open>A run\<close>

text \<open>
  Endpoint 1 with packets of 2 bytes: the acknowledgement of the first packet is lost, the retry
  is discarded, and a short packet completes the read.
\<close>

fun out_run :: "(out_wire \<Rightarrow> out_wire option) list \<Rightarrow> out_wire \<Rightarrow> out_wire option" where
  "out_run [] s = Some s"
| "out_run (f # fs) s = (case f s of None \<Rightarrow> None | Some t \<Rightarrow> out_run fs t)"

lemma out_run_reach:
  "out_run fs s = Some u \<Longrightarrow> \<forall>f\<in>set fs. \<forall>s t. f s = Some t \<longrightarrow> out_step e mps s t \<Longrightarrow> out_reach e mps s \<Longrightarrow> out_reach e mps u"
proof (induction fs arbitrary: s)
  case (Cons f fs)
  then obtain t where t: "f s = Some t" "out_run fs t = Some u"
    by (auto split: option.splits)
  then show ?case
    using Cons.IH [OF t(2)] Cons.prems(2,3) out_reach.step by fastforce
qed simp

definition usbhs_zero :: usbhs where
  "usbhs_zero = \<lparr>setup_bmRequestType = 0, setup_wLength = 0, dev_addr = 0, in_ep = (\<lambda>_. zero_ep), out_ep = (\<lambda>_. zero_ep),
     ep0_rx_data_toggle = True, ep0_tx_data_toggle = True, epx_tx_data_toggle = (\<lambda>_. False), g_usbhs_rx_tog_drops = 0,
     addr_setup = 64, TX_LEN = (\<lambda>_. 0), TX_CTRL = (\<lambda>_. 0), TX_DMA = (\<lambda>_. 0), RX_CTRL = (\<lambda>_. 0), RX_DMA = (\<lambda>_. 0),
     MAX_LEN = (\<lambda>_. 0), UEP0_DMA = 0, ENDP_TYPE = 0, ENDP_CONFIG = 0, DEV_AD = 0, INT_FG = 0, INT_ST = 0, RX_LEN = 0,
     CONTROL = 0, HOST_CTRL = 0, INT_EN = 0, BUF_MODE = 0\<rparr>"

definition out_demo :: out_wire where
  "out_demo = \<lparr>dc = usbd_ep_open 1 2 USB_ENDPOINT_TYPE_BULK usbhs_zero, dmem = (\<lambda>_. 0), rd_buf = 0, rd_len = 0,
     host_pkt = None, host_tog = False, acked = [], delivered = []\<rparr>"

definition out_demo_lost :: "(out_wire \<Rightarrow> out_wire option) list" where
  "out_demo_lost = [out_submit [1, 2], out_start 1 4 4, out_xact 1 True, out_irq 1 None]"

definition out_demo_done :: "(out_wire \<Rightarrow> out_wire option) list" where
  "out_demo_done = out_demo_lost @ [out_xact 1 False, out_irq 1 None, out_submit [3], out_xact 1 False, out_irq 1 (Some (8, 4))]"

lemma out_demo_reach:
  assumes "out_run fs out_demo = Some u" "fs = out_demo_lost \<or> fs = out_demo_done"
  shows "out_reach 1 2 u"
proof (rule out_run_reach [OF assms(1)])
  have "read_ok 2 4 4" "next_ok 2 None" "next_ok 2 (Some (8, 4))"
    by (simp_all add: read_ok_def next_ok_def)
  then have acts: "out_submit [1, 2] s = Some t \<longrightarrow> out_step 1 2 s t" "out_submit [3] s = Some t \<longrightarrow> out_step 1 2 s t"
    "out_start 1 4 4 s = Some t \<longrightarrow> out_step 1 2 s t" "out_xact 1 True s = Some t \<longrightarrow> out_step 1 2 s t"
    "out_xact 1 False s = Some t \<longrightarrow> out_step 1 2 s t" "out_irq 1 None s = Some t \<longrightarrow> out_step 1 2 s t"
    "out_irq 1 (Some (8, 4)) s = Some t \<longrightarrow> out_step 1 2 s t" for s t
    by (auto intro: out_step.submit [of "[1, 2]"] out_step.submit [of "[3]"] out_step.start out_step.xact out_step.irq
        simp del: One_nat_def)
  then show "\<forall>f\<in>set fs. \<forall>s t. f s = Some t \<longrightarrow> out_step 1 2 s t"
    using assms(2) by (elim disjE) (simp_all only: out_demo_lost_def out_demo_done_def set_simps set_append Un_insert_left
        Un_empty_left Ball_def insert_iff empty_iff, blast+)
  show "out_reach 1 2 out_demo"
    by (rule out_reach.init, simp only: out_init_def, intro conjI exI [of _ usbhs_zero])
      (simp_all add: out_demo_def usbhs_zero_def)
qed

lemma out_demo_runs:
  obtains a b where "out_reach 1 2 a" "host_pkt a = Some [1, 2]" "accepted 1 a = acked a @ [[1, 2]]" "reading 1 a" "INT_FG (dc a) = 0"
    "stored 1 a = [1, 2]" "out_reach 1 2 b" "delivered b = [[1, 2, 3]]" "acked b = [[1, 2], [3]]" "g_usbhs_rx_tog_drops (dc b) = 1"
proof -
  have "map_option (\<lambda>s. (host_pkt s, acked s, accepted 1 s, reading 1 s, INT_FG (dc s), stored 1 s)) (out_run out_demo_lost out_demo) =
      Some (Some [1, 2], [], [[1, 2]], True, 0, [1, 2])"
    by code_simp
  then obtain a where a: "out_run out_demo_lost out_demo = Some a" "host_pkt a = Some [1, 2]" "acked a = []"
    "accepted 1 a = [[1, 2]]" "reading 1 a" "INT_FG (dc a) = 0" "stored 1 a = [1, 2]"
    by (auto simp del: One_nat_def)
  have "map_option (\<lambda>s. (delivered s, acked s, g_usbhs_rx_tog_drops (dc s))) (out_run out_demo_done out_demo) =
      Some ([[1, 2, 3]], [[1, 2], [3]], 1)"
    by code_simp
  then obtain b where b: "out_run out_demo_done out_demo = Some b" "delivered b = [[1, 2, 3]]" "acked b = [[1, 2], [3]]"
    "g_usbhs_rx_tog_drops (dc b) = 1"
    by auto
  show thesis
    using a b out_demo_reach [OF a(1)] out_demo_reach [OF b(1)] by (intro that [of a b]) simp_all
qed

section \<open>Properties\<close>

text \<open>C19
  A bulk OUT endpoint (1 to 15, packets of at most 2047 bytes) delivers exactly once and in
  order, from usbd_ep_open on and as long as
  it is not halted, its halt cleared, opened again or the bus reset (usbd_ep_set_stall,
  usbd_ep_clear_stall, usbd_ep_open and a bus reset are not steps).  Reads are started into
  aligned buffers of whole packets while none is in progress.  Whatever acknowledgements are lost
  and however the host's retries interleave with interrupts and reads, the buffers given to
  the completion callbacks, followed by what already lies in the buffer of the read in
  progress, are the contents of the packets the device has taken: those the host saw
  acknowledged, and at most the one that it is still sending.
\<close>

theorem usb_out_exactly_once:
  assumes "out_reach e mps s" "0 < e" "e < 16" "mps \<le> 2047"
  shows "concat (delivered s) @ stored e s = concat (accepted e s) \<and>
    (accepted e s = acked s \<or> (\<exists>q. host_pkt s = Some q \<and> accepted e s = acked s @ [q]))"
proof -
  obtain ack t where at: "out_at e mps ack t s"
    using out_reach_inv [OF assms] by (auto simp: out_inv_def)
  then have "t \<noteq> host_tog s \<longrightarrow> host_pkt s \<noteq> None" "RX_CTRL (dc s) e = rx_word ack t"
    by (simp_all add: out_at_def)
  then show ?thesis
    using out_at_accounts [OF at] by (auto simp: accepted_iff)
qed

theorem usb_out_exactly_once_witness:
  "\<exists>s. out_reach 1 2 s \<and> delivered s = [[1, 2, 3]] \<and> concat (delivered s) @ stored 1 s = concat (accepted 1 s)"
proof -
  obtain a b where b: "out_reach 1 2 b" "delivered b = [[1, 2, 3]]"
    by (rule out_demo_runs) blast
  then show ?thesis
    using usb_out_exactly_once [OF b(1)] by auto
qed

text \<open>C21 A lost acknowledgement does not wedge the endpoint.  When the device has taken the packet
  that the host is still sending, the host's retry is acknowledged, the interrupt counts
  and discards it, and the endpoint stays open for the next packet: nothing is delivered
  twice and what is already stored is not touched.
\<close>

theorem usb_out_retry_discarded:
  assumes "out_reach e mps s" "0 < e" "e < 16" "mps \<le> 2047" "host_pkt s = Some q" "accepted e s = acked s @ [q]"
    and "reading e s" "INT_FG (dc s) = 0"
  shows "\<exists>u v. out_xact e False s = Some u \<and> out_irq e None u = Some v \<and> host_pkt v = None \<and> acked v = acked s @ [q] \<and>
    delivered v = delivered s \<and> stored e v = stored e s \<and> reading e v \<and>
    g_usbhs_rx_tog_drops (dc v) = g_usbhs_rx_tog_drops (dc s) + 1"
proof -
  obtain ack t where at: "out_at e mps ack t s"
    using out_reach_inv [OF assms(1-4)] by (auto simp: out_inv_def)
  then have w: "RX_CTRL (dc s) e = rx_word ack t"
    by (simp add: out_at_def)
  have ack: ack and t: "t = (\<not> host_tog s)"
    using assms(6,7) by (auto simp: reading_iff [OF w] accepted_iff [OF w] split: if_splits)
  have rs: "read_state e mps s"
    using at ack by (simp add: out_at_def)
  let ?r = "receive e (host_tog s) q (dc s)" and ?m = "put (dmem s) (unat (RX_DMA (dc s) e)) q"
  let ?u = "s\<lparr>dc := ?r, dmem := ?m, host_pkt := None, host_tog := t, acked := acked s @ [q]\<rparr>"
  have u: "out_xact e False s = Some ?u"
    using assms(5,8) w ack t by (simp add: out_xact_def)
  have r: "RX_CTRL ?r e = rx_word True t" "INT_FG ?r = 0 OR USBHS_TRANSFER_FLAG" "INT_ST ?r = status_word e PID_OUT False"
    using w ack t assms(8) by (simp_all add: receive_def Let_def)
  note p = pending_status [OF assms(2,3) disjI1 [OF refl] r(2,3)]
  have o: "INT_FG ?r AND (USBHS_SETUP_FLAG OR USBHS_DETECT_FLAG) = 0"
    unfolding r(2) by (simp add: usbhs_bits)
  have d: "irq_out e ?r = (?r\<lparr>RX_CTRL := (RX_CTRL ?r)(e := rx_word True t),
             g_usbhs_rx_tog_drops := g_usbhs_rx_tog_drops ?r + 1\<rparr>, None)"
    by (rule irq_out_dropped [OF assms(2) r(1)]) (use p(2) in simp)
  let ?v = "?u\<lparr>dc := clear_int_fg USBHS_TRANSFER_FLAG (fst (irq_out e ?r))\<rparr>"
  have v: "out_irq e None ?u = Some ?v"
    using p(1) o by (simp add: out_irq_def handler_out [OF assms(2) p(1) o] d call_def Let_def)
  have fr: "fresh_bytes e (dc ?v) = 0" "fresh_bytes e (dc s) = 0"
    by (simp_all add: fresh_bytes_def transfer_pending_def clear_int_fg_def and_not_flag assms(8))
  have dma: "unat (RX_DMA (dc s) e) = unat (rd_buf s) + unat (actual_xfer_len (out_ep (dc s) e))"
    using rs by (simp add: read_state_def Let_def)
  have "bytes ?m (unat (rd_buf s)) (unat (actual_xfer_len (out_ep (dc s) e))) =
      bytes (dmem s) (unat (rd_buf s)) (unat (actual_xfer_len (out_ep (dc s) e)))"
    by (rule bytes_put_before) (simp add: dma)
  moreover have "RX_CTRL (dc ?v) e = rx_word True t" "out_ep (dc ?v) = out_ep (dc s)"
    "g_usbhs_rx_tog_drops (dc ?v) = g_usbhs_rx_tog_drops (dc s) + 1"
    by (simp_all add: d clear_int_fg_def) (simp_all add: receive_def Let_def)
  ultimately have "stored e ?v = stored e s" "reading e ?v" "g_usbhs_rx_tog_drops (dc ?v) = g_usbhs_rx_tog_drops (dc s) + 1"
    using fr w ack by (simp_all add: stored_def reading_def)
  then show ?thesis
    using u v by (intro exI [of _ ?u] exI [of _ ?v]) simp
qed

theorem usb_out_retry_discarded_witness:
  "\<exists>s u v. out_reach 1 2 s \<and> host_pkt s = Some [1, 2] \<and> out_xact 1 False s = Some u \<and> out_irq 1 None u = Some v \<and>
     acked v = acked s @ [[1, 2]] \<and> stored 1 v = [1, 2]"
proof -
  obtain a b where a: "out_reach 1 2 a" "host_pkt a = Some [1, 2]" "accepted 1 a = acked a @ [[1, 2]]" "reading 1 a"
    "INT_FG (dc a) = 0" "stored 1 a = [1, 2]"
    by (rule out_demo_runs) blast
  show ?thesis
    using usb_out_retry_discarded [OF a(1) _ _ _ a(2-5)] a(1,2,6) by auto
qed

text \<open>C38 Clearing a halt loses every second packet.  usbd_ep_clear_stall writes the receive control
  register of an OUT endpoint without AUTOTOG, so that from then on the controller expects
  DATA0 for ever, and it answers ACK at once.  A packet with DATA1 is acknowledged, so the host
  goes on, but the interrupt handler discards it whatever the callback is; a packet with DATA0 and
  the read started at its completion leave the register as it was.
\<close>

theorem usb_clear_stall_loses_packets:
  assumes "0 < e" "e < 16" "RX_CTRL v e = RX_CTRL (usbd_ep_clear_stall (of_nat e) u) e" "INT_FG v = 0"
    and "ep_enable (out_ep v e)" "ep_type (out_ep v e) = USB_ENDPOINT_TYPE_BULK" "read_ok mps b n"
  shows "RX_CTRL v e AND EP_RES_MASK = EP_RES_ACK \<and>
    (let w = USBD_IRQHandler cb (receive e True q v)
     in RX_CTRL w e = RX_CTRL v e \<and> out_ep w = out_ep v \<and> g_usbhs_rx_tog_drops w = g_usbhs_rx_tog_drops v + 1 \<and>
        w = USBD_IRQHandler (\<lambda>ev x. x) (receive e True q v)) \<and>
    RX_CTRL (USBD_IRQHandler (rearm e (Some (b, n))) (receive e False q v)) e = RX_CTRL v e"
proof -
  have z: "RX_CTRL v e = 0"
    using assms(1-3) by (simp add: usbd_ep_clear_stall_def rd_endpoint set_rx_ctrl_def Let_def usbhs_bits)
  have r: "RX_CTRL (receive e h q v) e = 0" "out_ep (receive e h q v) = out_ep v"
    "INT_FG (receive e h q v) = 0 OR USBHS_TRANSFER_FLAG" "INT_ST (receive e h q v) = status_word e PID_OUT (\<not> h)"
    "g_usbhs_rx_tog_drops (receive e h q v) = g_usbhs_rx_tog_drops v" for h
    using z assms(4) by (simp_all add: receive_def Let_def tog_bits_def usbhs_bits)
  note p = pending_status [OF assms(1,2) disjI1 [OF refl] r(3,4)]
  have o: "INT_FG (receive e h q v) AND (USBHS_SETUP_FLAG OR USBHS_DETECT_FLAG) = 0" for h
    unfolding r(3) by (simp add: usbhs_bits)
  have d: "irq_out e (receive e True q v) = ((receive e True q v)\<lparr>RX_CTRL := (RX_CTRL (receive e True q v))(e := 0),
      g_usbhs_rx_tog_drops := g_usbhs_rx_tog_drops (receive e True q v) + 1\<rparr>, None)"
    using assms(1) r(1) p(2) [of True] by (simp add: irq_out_def set_rx_ctrl_def Let_def) (simp add: usbhs_bits)
  have h: "USBD_IRQHandler cb (receive e True q v) = clear_int_fg USBHS_TRANSFER_FLAG (fst (irq_out e (receive e True q v)))" for cb
    unfolding handler_out [OF assms(1) p(1) o] d call_def by simp
  have one: "RX_CTRL (USBD_IRQHandler cb (receive e True q v)) e = 0" "out_ep (USBD_IRQHandler cb (receive e True q v)) = out_ep v"
    "g_usbhs_rx_tog_drops (USBD_IRQHandler cb (receive e True q v)) = g_usbhs_rx_tog_drops v + 1" for cb
    unfolding h d by (simp_all add: clear_int_fg_def r)
  have two: "RX_CTRL (USBD_IRQHandler (rearm e (Some (b, n))) (receive e False q v)) e = 0"
  proof -
    let ?u = "receive e False q v"
    have tog: "INT_ST ?u AND USBHS_DEV_UIS_TOG_OK \<noteq> 0"
      using p(2) [of False] by simp
    obtain w ev where w: "irq_out e ?u = (w, ev)"
      by (cases "irq_out e ?u")
    have "ev = None \<and> RX_CTRL w e = 0 \<or> ev \<noteq> None \<and> RX_CTRL w e = EP_RES_NAK"
      using w tog assms(1) r(1) [of False] by (auto simp: irq_out_def set_rx_ctrl_def upd_out_def Let_def usbhs_bits split: if_splits)
    moreover have "ep_enable (out_ep w e)" "ep_type (out_ep w e) = USB_ENDPOINT_TYPE_BULK"
      using w tog assms(1,5,6) r(2) [of False] by (auto simp: irq_out_def set_rx_ctrl_def upd_out_def Let_def split: if_splits)
    ultimately have "RX_CTRL (call (rearm e (Some (b, n))) ev w) e = 0"
      using assms(1,2,7) by (auto simp: call_def rearm_def usbd_ep_start_read_def rd_endpoint read_ok_def upd_out_def
          set_rx_ctrl_def Let_def USB_ENDPOINT_TYPE_BULK_def USB_ENDPOINT_TYPE_ISOCHRONOUS_def usbhs_bits)
    then show ?thesis
      unfolding handler_out [OF assms(1) p(1) o] w by (simp add: clear_int_fg_def)
  qed
  have "RX_CTRL v e AND EP_RES_MASK = EP_RES_ACK"
    using z by (simp add: usbhs_bits)
  then show ?thesis
    using z one two h by (simp add: Let_def)
qed

theorem usb_clear_stall_loses_packets_witness:
  "\<exists>v. RX_CTRL v 1 AND EP_RES_MASK = EP_RES_ACK \<and>
     out_ep (USBD_IRQHandler (rearm 1 None) (receive 1 True [7] v)) 1 = out_ep v 1 \<and> ep_enable (out_ep v 1)"
proof -
  let ?v = "usbd_ep_clear_stall 1 (usbd_ep_open 1 2 USB_ENDPOINT_TYPE_BULK usbhs_zero)"
  have v: "INT_FG ?v = 0" "ep_enable (out_ep ?v 1)" "ep_type (out_ep ?v 1) = USB_ENDPOINT_TYPE_BULK"
    by code_simp+
  have b: "(0::nat) < 1" "(1::nat) < 16"
    by simp_all
  have r: "read_ok 2 4 4" "RX_CTRL ?v 1 = RX_CTRL (usbd_ep_clear_stall (of_nat 1) (usbd_ep_open 1 2 USB_ENDPOINT_TYPE_BULK usbhs_zero)) 1"
    by (simp_all add: read_ok_def)
  have "RX_CTRL ?v 1 AND EP_RES_MASK = EP_RES_ACK \<and> out_ep (USBD_IRQHandler (rearm 1 None) (receive 1 True [7] ?v)) = out_ep ?v"
    using usb_clear_stall_loses_packets [OF b r(2) v r(1), of "rearm 1 None" "[7]", unfolded Let_def] by blast
  then show ?thesis
    using v(2) by (intro exI [of _ ?v]) simp
qed

end
