(* ===== verification/Usbhs_In.thy ===== *)
theory Usbhs_In
  imports Usbhs_Out
begin

text \<open>
  A bulk IN endpoint of the driver with the host.  The host takes a packet whose toggle is the
  one it expects and discards any other as a repetition; the device hears of it by the
  acknowledgement, which may be lost, and then repeats the packet when it is asked again.  The
  toggle that is sent is kept by the driver (\<open>epx_tx_data_toggle\<close>), because AUTOTOG does not work;
  whether the controller flips the toggle of the register is left open.
\<close>

section \<open>Packets\<close>

text \<open>How a transfer is cut into packets: only the last one may be short, and one is sent for no data.\<close>

function packets :: "nat \<Rightarrow> 'a list \<Rightarrow> 'a list list" where
  "packets m xs = (if m = 0 \<or> length xs \<le> m then [xs] else take m xs # packets m (drop m xs))"
  by auto
termination
  by (relation "measure (length \<circ> snd)") auto

declare packets.simps [simp del]

lemma packets_short: "length xs \<le> m \<Longrightarrow> packets m xs = [xs]"
  by (simp add: packets.simps)

lemma packets_long: "0 < m \<Longrightarrow> m < length xs \<Longrightarrow> packets m xs = take m xs # packets m (drop m xs)"
  by (subst packets.simps) simp

lemma packets_cons: "0 < m \<Longrightarrow> packets m xs = take m xs # tl (packets m xs)"
  by (cases "length xs \<le> m") (simp_all add: packets_short packets_long)

lemma concat_packets: "concat (packets m xs) = xs"
proof (induction m xs rule: packets.induct)
  case (1 m xs)
  then show ?case
    by (subst packets.simps) auto
qed

section \<open>The wire\<close>

text \<open>
  The driver, the memory, the toggle the host expects, the packets it took, and the contents of
  the transfers that were started.
\<close>

record in_wire =
  idc :: usbhs
  imem :: "nat \<Rightarrow> byte"
  in_tog :: bool
  in_got :: "byte list list"
  in_log :: "byte list list"

definition tx_word :: "bool \<Rightarrow> bool \<Rightarrow> bool \<Rightarrow> byte" where
  "tx_word ack t a = (if ack then EP_RES_ACK else EP_RES_NAK) OR tog_bits t OR (if a then EP_AUTOTOG else 0)"

lemma tx_word_res [simp]: "tx_word ack t a AND EP_RES_MASK = (if ack then EP_RES_ACK else EP_RES_NAK)"
  by (cases t; cases a) (simp_all add: tx_word_def usbhs_bits tog_bits_def)

lemma tx_word_tog [simp]: "tx_word ack t a AND EP_TOG_MASK = tog_bits t"
  by (cases t; cases ack; cases a) (simp_all add: tx_word_def usbhs_bits tog_bits_def)

lemma tx_word_flip [simp]: "tx_word ack t a XOR EP_TOG_1 = tx_word ack (\<not> t) a"
  by (cases t; cases ack; cases a) (simp_all add: tx_word_def usbhs_bits tog_bits_def)

lemma tx_word_nak: "(tx_word ack t a AND NOT (EP_RES_MASK OR EP_TOG_MASK)) OR EP_RES_NAK OR EP_TOG_0 = tx_word False False a"
  by (cases t; cases ack; cases a) (simp_all add: tx_word_def usbhs_bits tog_bits_def)

lemma tx_word_arm: "(tx_word ack t a AND NOT (EP_RES_MASK OR EP_TOG_MASK)) OR EP_RES_ACK OR tog_bits b = tx_word True b a"
  by (cases t; cases ack; cases a; cases b) (simp_all add: tx_word_def usbhs_bits tog_bits_def)

lemmas tx_word_writes [simp] = tx_word_nak tx_word_arm tx_word_nak [simplified] tx_word_arm [simplified]

text \<open>The acknowledgement of a packet; \<open>flip\<close> and \<open>st\<close> are what the controller does to the toggle and the status.\<close>

definition sent :: "nat \<Rightarrow> bool \<Rightarrow> bool \<Rightarrow> usbhs \<Rightarrow> usbhs" where
  "sent e flip st u = u\<lparr>INT_FG := INT_FG u OR USBHS_TRANSFER_FLAG, INT_ST := status_word e PID_IN st,
     TX_CTRL := (if flip then (TX_CTRL u)(e := TX_CTRL u e XOR EP_TOG_1) else TX_CTRL u)\<rparr>"

definition in_xact :: "nat \<Rightarrow> bool \<Rightarrow> bool \<Rightarrow> bool \<Rightarrow> in_wire \<Rightarrow> in_wire option" where
  "in_xact e ack_lost flip st s =
    (let u = idc s
     in if TX_CTRL u e AND EP_RES_MASK = EP_RES_ACK \<and> INT_FG u AND USBHS_TRANSFER_FLAG = 0
        then
         (let q = bytes (imem s) (unat (TX_DMA u e)) (unat (TX_LEN u e));
              t = (if TX_CTRL u e AND EP_TOG_MASK = tog_bits (in_tog s)
                   then s\<lparr>in_got := in_got s @ [q], in_tog := \<not> in_tog s\<rparr> else s)
          in Some (if ack_lost then t else t\<lparr>idc := sent e flip st u\<rparr>))
        else None)"

definition write_next :: "nat \<Rightarrow> (u32 \<times> u32) option \<Rightarrow> dc_event \<Rightarrow> usbhs \<Rightarrow> usbhs" where
  "write_next e next_wr ev u =
    (case next_wr of None \<Rightarrow> u | Some (b, n) \<Rightarrow> snd (usbd_ep_start_write (of_nat e OR 0x80) b n u))"

definition log_write :: "(u32 \<times> u32) option \<Rightarrow> in_wire \<Rightarrow> in_wire" where
  "log_write next_wr s =
    (case next_wr of None \<Rightarrow> s | Some (b, n) \<Rightarrow> s\<lparr>in_log := in_log s @ [bytes (imem s) (unat b) (unat n)]\<rparr>)"

definition in_irq :: "nat \<Rightarrow> (u32 \<times> u32) option \<Rightarrow> in_wire \<Rightarrow> in_wire option" where
  "in_irq e next_wr s =
    (if transfer_pending e PID_IN (idc s) \<and> INT_FG (idc s) AND (USBHS_SETUP_FLAG OR USBHS_DETECT_FLAG) = 0
     then
      (let t = s\<lparr>idc := USBD_IRQHandler (write_next e next_wr) (idc s)\<rparr>
       in Some (if snd (irq_in e (idc s)) = None then t else log_write next_wr t))
     else None)"

definition in_start :: "nat \<Rightarrow> u32 \<Rightarrow> u32 \<Rightarrow> in_wire \<Rightarrow> in_wire option" where
  "in_start e b n s =
    (if TX_CTRL (idc s) e AND EP_RES_MASK = EP_RES_NAK
     then Some (log_write (Some (b, n)) (s\<lparr>idc := snd (usbd_ep_start_write (of_nat e OR 0x80) b n (idc s))\<rparr>)) else None)"

definition write_ok :: "u32 \<Rightarrow> u32 \<Rightarrow> bool" where
  "write_ok b n \<longleftrightarrow> (b \<noteq> 0 \<or> n = 0) \<and> b AND 3 = 0 \<and> unat b + unat n < 2 ^ 32"

definition writing :: "nat \<Rightarrow> in_wire \<Rightarrow> bool" where
  "writing e s \<longleftrightarrow> TX_CTRL (idc s) e AND EP_RES_MASK = EP_RES_ACK"

definition keeps_in :: "nat \<Rightarrow> usbhs \<Rightarrow> usbhs \<Rightarrow> bool" where
  "keeps_in e u v \<longleftrightarrow> TX_CTRL v e = TX_CTRL u e \<and> TX_LEN v e = TX_LEN u e \<and> TX_DMA v e = TX_DMA u e \<and>
     in_ep v e = in_ep u e \<and> epx_tx_data_toggle v (e - 1) = epx_tx_data_toggle u (e - 1) \<and>
     \<not> transfer_pending e PID_IN v \<and> \<not> transfer_pending e PID_IN u"

text \<open>The data of the transfer that the host has not acknowledged yet.\<close>

definition remaining :: "nat \<Rightarrow> in_wire \<Rightarrow> byte list" where
  "remaining e s = bytes (imem s) (unat (xfer_buf (in_ep (idc s) e))) (unat (xfer_len (in_ep (idc s) e)))"

inductive in_step :: "nat \<Rightarrow> in_wire \<Rightarrow> in_wire \<Rightarrow> bool" for e where
  xact: "in_xact e ack_lost flip st s = Some t \<Longrightarrow> in_step e s t"
| irq: "(\<forall>b n. next_wr = Some (b, n) \<longrightarrow> write_ok b n) \<Longrightarrow> in_irq e next_wr s = Some t \<Longrightarrow> in_step e s t"
| start: "write_ok b n \<Longrightarrow> in_start e b n s = Some t \<Longrightarrow> in_step e s t"
| memory: "(writing e s \<Longrightarrow> remaining e (s\<lparr>imem := m\<rparr>) = remaining e s) \<Longrightarrow> in_step e s (s\<lparr>imem := m\<rparr>)"
| others: "keeps_in e (idc s) v \<Longrightarrow> in_step e s (s\<lparr>idc := v\<rparr>)"

text \<open>After a bus reset and usbd_ep_open, the host expecting toggle 0.\<close>

definition in_init :: "nat \<Rightarrow> nat \<Rightarrow> in_wire \<Rightarrow> bool" where
  "in_init e mps s \<longleftrightarrow> (\<exists>u. idc s = usbd_ep_open (of_nat e OR 0x80) (of_nat mps) USB_ENDPOINT_TYPE_BULK u \<and>
     INT_FG u AND USBHS_TRANSFER_FLAG = 0 \<and> \<not> epx_tx_data_toggle u (e - 1)) \<and>
     \<not> in_tog s \<and> in_got s = [] \<and> in_log s = []"

inductive in_reach :: "nat \<Rightarrow> nat \<Rightarrow> in_wire \<Rightarrow> bool" for e mps where
  init: "in_init e mps s \<Longrightarrow> in_reach e mps s"
| step: "in_reach e mps s \<Longrightarrow> in_step e s t \<Longrightarrow> in_reach e mps t"

text \<open>The packets the host has still to take.\<close>

definition unsent :: "nat \<Rightarrow> nat \<Rightarrow> in_wire \<Rightarrow> byte list list" where
  "unsent e mps s =
    (if writing e s
     then (if in_tog s = epx_tx_data_toggle (idc s) (e - 1) then packets mps (remaining e s) else tl (packets mps (remaining e s)))
     else [])"

section \<open>The invariant\<close>

definition in_at :: "nat \<Rightarrow> nat \<Rightarrow> bool \<Rightarrow> bool \<Rightarrow> bool \<Rightarrow> in_wire \<Rightarrow> bool" where
  "in_at e mps ack t a s \<longleftrightarrow>
    ep_enable (in_ep (idc s) e) \<and> unat (ep_mps (in_ep (idc s) e)) = mps \<and> ep_type (in_ep (idc s) e) = USB_ENDPOINT_TYPE_BULK \<and>
    TX_CTRL (idc s) e = tx_word ack t a \<and>
    (\<not> ack \<longrightarrow> \<not> transfer_pending e PID_IN (idc s) \<and> in_tog s = epx_tx_data_toggle (idc s) (e - 1) \<and>
       in_got s = concat (map (packets mps) (in_log s))) \<and>
    (ack \<longrightarrow>
       (transfer_pending e PID_IN (idc s) \<longrightarrow> in_tog s \<noteq> epx_tx_data_toggle (idc s) (e - 1)) \<and>
       (\<not> transfer_pending e PID_IN (idc s) \<longrightarrow> t = epx_tx_data_toggle (idc s) (e - 1)) \<and>
       unat (xfer_buf (in_ep (idc s) e)) + unat (xfer_len (in_ep (idc s) e)) < 2 ^ 32 \<and>
       unat (TX_LEN (idc s) e) = min (unat (xfer_len (in_ep (idc s) e))) mps \<and>
       (xfer_len (in_ep (idc s) e) \<noteq> 0 \<longrightarrow> TX_DMA (idc s) e = xfer_buf (in_ep (idc s) e)) \<and>
       (in_tog s = epx_tx_data_toggle (idc s) (e - 1) \<longrightarrow>
          in_got s @ packets mps (remaining e s) = concat (map (packets mps) (in_log s))) \<and>
       (in_tog s \<noteq> epx_tx_data_toggle (idc s) (e - 1) \<longrightarrow>
          in_got s @ tl (packets mps (remaining e s)) = concat (map (packets mps) (in_log s))))"

definition in_inv :: "nat \<Rightarrow> nat \<Rightarrow> in_wire \<Rightarrow> bool" where
  "in_inv e mps s \<longleftrightarrow> (\<exists>ack t a. in_at e mps ack t a s)"

lemma wr_endpoint:
  assumes "0 < e" "e < 16"
  shows "USB_EP_GET_IDX (of_nat e OR 0x80) = e" "\<not> USB_EP_DIR_IS_OUT (of_nat e OR 0x80)"
  using endpoint_cases [OF assms] by (auto simp: USB_EP_GET_IDX_def USB_EP_DIR_IS_OUT_def)

lemma handler_in:
  assumes "0 < e" "transfer_pending e PID_IN u" "INT_FG u AND (USBHS_SETUP_FLAG OR USBHS_DETECT_FLAG) = 0"
  shows "USBD_IRQHandler cb u = (case irq_in e u of (v, ev) \<Rightarrow> clear_int_fg USBHS_TRANSFER_FLAG (call cb ev v))"
proof -
  have none: "INT_FG u AND USBHS_SETUP_FLAG = 0" "INT_FG u AND USBHS_DETECT_FLAG = 0"
    using assms(3) by (simp_all add: bit.conj_disj_distrib or_eq_0_iff)
  then show ?thesis
    using assms(1,2) by (simp add: USBD_IRQHandler_def transfer_pending_def irq_transfer_def irq_in_after_def Let_def
        split: prod.split)
qed

lemma take_bytes: "take k (bytes m a n) = bytes m a (min n k)"
  by (cases "n \<le> k") (simp_all add: bytes_def take_map)

lemma drop_bytes: "k \<le> n \<Longrightarrow> drop k (bytes m a n) = bytes m (a + k) (n - k)"
  by (simp add: bytes_def drop_map)

lemma unat_min_u32: "unat (min x y :: u32) = min (unat x) (unat y)"
  by (simp add: min_def word_le_nat_alt)

text \<open>A length that fits a packet survives the narrowing to the 16 bits of the register.\<close>

lemma unat_packet_len: "unat (ucast (min n (ucast (m :: u16))) :: u16) = min (unat (n :: u32)) (unat m)"
proof -
  have "unat (min n (ucast m)) = min (unat n) (unat m)"
    by (simp only: unat_min_u32 unat_u16_u32)
  moreover have "unat m < 2 ^ 16"
    using unsigned_less [of m, where ?'a = nat] by simp
  ultimately show ?thesis
    by (simp only: unsigned_ucast_eq) (simp add: take_bit_nat_eq_self min_less_iff_disj)
qed

lemma started_write:
  assumes "0 < e" "e < 16" "write_ok b n" "ep_enable (in_ep u e)" "ep_type (in_ep u e) = USB_ENDPOINT_TYPE_BULK"
    and "TX_CTRL u e = tx_word ack t a"
  defines "v \<equiv> snd (usbd_ep_start_write (of_nat e OR 0x80) b n u)"
  shows "in_ep v e = (in_ep u e)\<lparr>xfer_buf := b, xfer_len := n, actual_xfer_len := 0\<rparr>"
    "TX_CTRL v e = tx_word True (epx_tx_data_toggle u (e - 1)) a" "epx_tx_data_toggle v = epx_tx_data_toggle u"
    "INT_FG v = INT_FG u" "INT_ST v = INT_ST u" "unat (TX_LEN v e) = min (unat n) (unat (ep_mps (in_ep u e)))"
    "n \<noteq> 0 \<Longrightarrow> TX_DMA v e = b"
proof -
  have ok: "\<not> (b = 0 \<and> n \<noteq> 0)" "b AND 3 = 0"
    using assms(3) by (auto simp: write_ok_def)
  have v: "v = arm_in e ((upd_in e (\<lambda>p. p\<lparr>xfer_buf := b, xfer_len := n, actual_xfer_len := 0\<rparr>) u)
      \<lparr>TX_LEN := (TX_LEN u)(e := ucast (min n (ucast (ep_mps (in_ep u e))))),
       TX_DMA := (if n = 0 then TX_DMA u else (TX_DMA u)(e := b))\<rparr>)"
    unfolding v_def usbd_ep_start_write_def Let_def wr_endpoint(1) [OF assms(1,2)] if_not_P [OF ok(1)]
    using assms(1,4) ok(2) by (auto simp: upd_in_def min_def)
  show "in_ep v e = (in_ep u e)\<lparr>xfer_buf := b, xfer_len := n, actual_xfer_len := 0\<rparr>"
    "TX_CTRL v e = tx_word True (epx_tx_data_toggle u (e - 1)) a" "epx_tx_data_toggle v = epx_tx_data_toggle u"
    "INT_FG v = INT_FG u" "INT_ST v = INT_ST u" "unat (TX_LEN v e) = min (unat n) (unat (ep_mps (in_ep u e)))"
    "n \<noteq> 0 \<Longrightarrow> TX_DMA v e = b"
    unfolding v using assms(5,6) by (simp_all add: arm_in_def set_tx_ctrl_def upd_in_def unat_packet_len
        USB_ENDPOINT_TYPE_BULK_def USB_ENDPOINT_TYPE_ISOCHRONOUS_def)
qed

text \<open>An endpoint on which a write has just been started.\<close>

lemma in_at_started:
  assumes e: "0 < e" "e < 16" and ok: "write_ok b n" and u: "ep_enable (in_ep u e)" "ep_type (in_ep u e) = USB_ENDPOINT_TYPE_BULK"
    "TX_CTRL u e = tx_word ack t a" "unat (ep_mps (in_ep u e)) = mps"
    and np: "\<not> transfer_pending e PID_IN (idc s)"
    and dc: "in_ep (idc s) = in_ep (snd (usbd_ep_start_write (of_nat e OR 0x80) b n u))"
      "TX_CTRL (idc s) = TX_CTRL (snd (usbd_ep_start_write (of_nat e OR 0x80) b n u))"
      "TX_LEN (idc s) = TX_LEN (snd (usbd_ep_start_write (of_nat e OR 0x80) b n u))"
      "TX_DMA (idc s) = TX_DMA (snd (usbd_ep_start_write (of_nat e OR 0x80) b n u))"
      "epx_tx_data_toggle (idc s) = epx_tx_data_toggle u"
    and tog: "in_tog s = epx_tx_data_toggle u (e - 1)"
    and log: "in_got s @ packets mps (bytes (imem s) (unat b) (unat n)) = concat (map (packets mps) (in_log s))"
  shows "in_at e mps True (epx_tx_data_toggle u (e - 1)) a s"
proof -
  note v = started_write [OF e ok u(1-3)]
  have r: "remaining e s = bytes (imem s) (unat b) (unat n)"
    by (simp add: remaining_def dc(1) v(1))
  then show ?thesis
    using u np v ok tog log r by (auto simp: in_at_def dc write_ok_def)
qed

lemma in_at_start:
  assumes at: "in_at e mps ack t a s" and e: "0 < e" "e < 16" and ok: "write_ok b n" and x: "in_start e b n s = Some u"
  shows "\<exists>t'. in_at e mps True t' a u"
proof -
  have na: "\<not> ack"
    using assms(1,5) by (auto simp: in_at_def in_start_def split: if_splits)
  have u: "u = s\<lparr>idc := snd (usbd_ep_start_write (of_nat e OR 0x80) b n (idc s)), in_log := in_log s @ [bytes (imem s) (unat b) (unat n)]\<rparr>"
    using assms(5) by (auto simp: in_start_def log_write_def split: if_splits)
  have d: "ep_enable (in_ep (idc s) e)" "ep_type (in_ep (idc s) e) = USB_ENDPOINT_TYPE_BULK" "TX_CTRL (idc s) e = tx_word ack t a"
    "unat (ep_mps (in_ep (idc s) e)) = mps"
    using at by (simp_all add: in_at_def)
  note v = started_write [OF e ok d(1-3)]
  have "\<not> transfer_pending e PID_IN (idc u)"
    using at na transfer_pending_cong [OF v(4,5)] by (simp add: in_at_def u)
  then have "in_at e mps True (epx_tx_data_toggle (idc s) (e - 1)) a u"
    by (rule in_at_started [OF e ok d]) (use at na v in \<open>simp_all add: in_at_def u\<close>)
  then show ?thesis ..
qed

subsection \<open>Preservation\<close>

lemma in_at_init:
  assumes "in_init e mps s" "0 < e" "e < 16" "mps \<le> 2047"
  shows "in_at e mps False False True s"
proof -
  obtain u where u: "idc s = usbd_ep_open (of_nat e OR 0x80) (of_nat mps) USB_ENDPOINT_TYPE_BULK u" "INT_FG u AND USBHS_TRANSFER_FLAG = 0"
    "\<not> epx_tx_data_toggle u (e - 1)" and s: "\<not> in_tog s" "in_got s = []" "in_log s = []"
    using assms(1) by (auto simp: in_init_def)
  note m = max_packet_size [OF assms(4)]
  have "(USB_ENDPOINT_TYPE_BULK :: byte) AND 3 = USB_ENDPOINT_TYPE_BULK"
    by (simp add: USB_ENDPOINT_TYPE_BULK_def)
  moreover have "EP_RES_NAK OR EP_TOG_0 OR EP_AUTOTOG = tx_word False False True"
    by (simp add: tx_word_def tog_bits_def)
  ultimately show ?thesis
    using u s m by (simp add: in_at_def usbd_ep_open_def wr_endpoint [OF assms(2,3)] upd_in_def set_tx_ctrl_def Let_def
        USB_ENDPOINT_TYPE_BULK_def USB_ENDPOINT_TYPE_ISOCHRONOUS_def USB_GET_ENDPOINT_TYPE_def transfer_pending_def)
qed

lemma in_at_memory:
  assumes "in_at e mps ack t a s" "writing e s \<Longrightarrow> remaining e (s\<lparr>imem := m\<rparr>) = remaining e s"
  shows "in_at e mps ack t a (s\<lparr>imem := m\<rparr>)"
proof (cases ack)
  case True
  have w: "writing e s"
    using assms(1) True by (simp add: in_at_def writing_def)
  show ?thesis
    using assms(1) True assms(2) [OF w] by (simp add: in_at_def)
next
  case False
  then show ?thesis
    using assms(1) by (simp add: in_at_def)
qed

lemma in_at_others:
  assumes "in_at e mps ack t a s" "keeps_in e (idc s) v"
  shows "in_at e mps ack t a (s\<lparr>idc := v\<rparr>)"
  using assms by (simp add: in_at_def remaining_def keeps_in_def)

lemma in_at_packet:
  assumes "in_at e mps ack t a s" ack
  shows "bytes (imem s) (unat (TX_DMA (idc s) e)) (unat (TX_LEN (idc s) e)) = take mps (remaining e s)"
proof (cases "xfer_len (in_ep (idc s) e) = 0")
  case True
  then show ?thesis
    using assms by (simp add: in_at_def remaining_def)
next
  case False
  then show ?thesis
    using assms by (simp add: in_at_def remaining_def take_bytes)
qed

lemma in_at_acknowledged:
  assumes "in_at e mps True t a s" "0 < e" "e < 16" "in_tog s \<noteq> epx_tx_data_toggle (idc s) (e - 1)"
  shows "in_at e mps True (t \<noteq> flip) a (s\<lparr>idc := sent e flip st (idc s)\<rparr>)"
proof -
  let ?v = "sent e flip st (idc s)"
  have "TX_CTRL (idc s) e = tx_word True t a"
    using assms(1) by (simp add: in_at_def)
  then have v: "in_ep ?v = in_ep (idc s)" "TX_CTRL ?v e = tx_word True (t \<noteq> flip) a" "TX_LEN ?v = TX_LEN (idc s)"
    "TX_DMA ?v = TX_DMA (idc s)" "epx_tx_data_toggle ?v = epx_tx_data_toggle (idc s)"
    by (simp_all add: sent_def)
  have "transfer_pending e PID_IN ?v"
    by (rule pending_status(1) [OF assms(2,3) disjI2 [OF refl]]) (simp_all add: sent_def)
  then show ?thesis
    using assms(1,4) v by (simp add: in_at_def remaining_def)
qed

lemma in_at_xact:
  assumes at: "in_at e mps ack t a s" and e: "0 < e" "e < 16" and m: "0 < mps" and x: "in_xact e ack_lost flip st s = Some u"
  shows "\<exists>t'. in_at e mps True t' a u"
proof -
  have r: "TX_CTRL (idc s) e AND EP_RES_MASK = EP_RES_ACK" "INT_FG (idc s) AND USBHS_TRANSFER_FLAG = 0"
    using x by (auto simp: in_xact_def Let_def split: if_splits)
  have w: "TX_CTRL (idc s) e = tx_word ack t a"
    using at by (simp add: in_at_def)
  have ack: ack
    using r(1) w by (simp split: if_splits)
  have np: "\<not> transfer_pending e PID_IN (idc s)"
    using r(2) by (simp add: transfer_pending_def)
  let ?T = "epx_tx_data_toggle (idc s) (e - 1)" and ?q = "bytes (imem s) (unat (TX_DMA (idc s) e)) (unat (TX_LEN (idc s) e))"
  have t: "t = ?T"
    using at ack np by (simp add: in_at_def)
  let ?t = "if in_tog s = ?T then s\<lparr>in_got := in_got s @ [?q], in_tog := \<not> ?T\<rparr> else s"
  have u: "u = (if ack_lost then ?t else ?t\<lparr>idc := sent e flip st (idc s)\<rparr>)"
    using x r w t by (auto simp: in_xact_def Let_def split: if_splits)
  have "packets mps (remaining e s) = ?q # tl (packets mps (remaining e s))"
    using in_at_packet [OF at ack] packets_cons [OF m, of "remaining e s"] by simp
  then have at': "in_at e mps True t a ?t" and tog: "in_tog ?t \<noteq> epx_tx_data_toggle (idc ?t) (e - 1)"
    using at ack np by (simp_all add: in_at_def remaining_def)
  show ?thesis
  proof (cases ack_lost)
    case True
    then show ?thesis
      using at' u by auto
  next
    case False
    have same: "idc ?t = idc s"
      by simp
    have "in_at e mps True (t \<noteq> flip) a (?t\<lparr>idc := sent e flip st (idc s)\<rparr>)"
      by (rule in_at_acknowledged [OF at' e tog, of flip st, unfolded same])
    then show ?thesis
      using u False by auto
  qed
qed

subsection \<open>The interrupt\<close>

definition consume :: "u32 \<Rightarrow> ep_state \<Rightarrow> ep_state" where
  "consume k p = p\<lparr>xfer_buf := xfer_buf p + k, xfer_len := xfer_len p - k, actual_xfer_len := actual_xfer_len p + k\<rparr>"

definition toggle_in :: "nat \<Rightarrow> usbhs \<Rightarrow> nat \<Rightarrow> bool" where
  "toggle_in e u = (epx_tx_data_toggle u)(e - 1 := \<not> epx_tx_data_toggle u (e - 1))"

lemma irq_in_more:
  assumes "0 < e" "TX_CTRL u e = tx_word ack t a" "ep_type (in_ep u e) = USB_ENDPOINT_TYPE_BULK"
  defines "m \<equiv> (ucast (ep_mps (in_ep u e)) :: u32)"
  assumes "m < xfer_len (in_ep u e)"
  shows "irq_in e u =
    (u\<lparr>in_ep := (in_ep u)(e := consume m (in_ep u e)), epx_tx_data_toggle := toggle_in e u,
       TX_LEN := (TX_LEN u)(e := ucast (min (xfer_len (in_ep u e) - m) m)), TX_DMA := (TX_DMA u)(e := xfer_buf (in_ep u e) + m),
       TX_CTRL := (TX_CTRL u)(e := tx_word True (\<not> epx_tx_data_toggle u (e - 1)) a)\<rparr>, None)"
  using assms by (simp add: irq_in_def set_tx_ctrl_def upd_in_def consume_def arm_in_def toggle_in_def Let_def
      USB_ENDPOINT_TYPE_BULK_def USB_ENDPOINT_TYPE_ISOCHRONOUS_def)

lemma irq_in_last:
  assumes "0 < e" "TX_CTRL u e = tx_word ack t a" "\<not> ucast (ep_mps (in_ep u e)) < xfer_len (in_ep u e)"
  shows "irq_in e u =
    (u\<lparr>in_ep := (in_ep u)(e := (in_ep u e)\<lparr>actual_xfer_len := actual_xfer_len (in_ep u e) + xfer_len (in_ep u e), xfer_len := 0\<rparr>),
       epx_tx_data_toggle := toggle_in e u, TX_CTRL := (TX_CTRL u)(e := tx_word False False a)\<rparr>,
     Some (EpInComplete (of_nat e OR 0x80) (actual_xfer_len (in_ep u e) + xfer_len (in_ep u e))))"
  using assms by (simp add: irq_in_def set_tx_ctrl_def upd_in_def toggle_in_def Let_def)

lemma in_irq_cases:
  assumes at: "in_at e mps ack t a s" and x: "in_irq e next_wr s = Some u"
  shows "ack" "transfer_pending e PID_IN (idc s)" "INT_FG (idc s) AND (USBHS_SETUP_FLAG OR USBHS_DETECT_FLAG) = 0"
    "TX_CTRL (idc s) e = tx_word True t a" "in_tog s = (\<not> epx_tx_data_toggle (idc s) (e - 1))"
  using assms by (auto simp: in_irq_def in_at_def split: if_splits)

lemma not_pending_cleared: "\<not> transfer_pending e token (clear_int_fg USBHS_TRANSFER_FLAG w)"
  by (simp add: transfer_pending_def clear_int_fg_def and_not_flag)

lemma in_at_irq_more:
  assumes at: "in_at e mps ack t a s" and e: "0 < e" "e < 16" and m: "0 < mps" and x: "in_irq e next_wr s = Some u"
    and more: "ucast (ep_mps (in_ep (idc s) e)) < xfer_len (in_ep (idc s) e)"
  shows "\<exists>t'. in_at e mps True t' a u"
proof -
  note c = in_irq_cases [OF at x]
  let ?p = "in_ep (idc s) e" and ?T = "epx_tx_data_toggle (idc s) (e - 1)"
  let ?k = "ucast (ep_mps (in_ep (idc s) e)) :: u32"
  have ty: "ep_type ?p = USB_ENDPOINT_TYPE_BULK" and mp: "unat (ep_mps ?p) = mps"
    using at by (simp_all add: in_at_def)
  note d = irq_in_more [OF e(1) c(4) ty more]
  have u: "u = s\<lparr>idc := clear_int_fg USBHS_TRANSFER_FLAG (fst (irq_in e (idc s)))\<rparr>"
    using x c(2,3) by (simp add: in_irq_def handler_in [OF e(1) c(2,3)] d call_def Let_def)
  have k: "unat ?k = mps"
    using mp by (simp add: unat_u16_u32)
  have len: "mps < unat (xfer_len ?p)" "unat (xfer_len ?p - ?k) = unat (xfer_len ?p) - mps"
    using more k unat_sub_u32 [of ?k "xfer_len ?p"] by (simp_all add: word_less_nat_alt word_le_nat_alt)
  have win: "unat (xfer_buf ?p) + unat (xfer_len ?p) < 2 ^ 32"
    using at c(1) by (simp add: in_at_def)
  have buf: "unat (xfer_buf ?p + ?k) = unat (xfer_buf ?p) + mps"
    using unat_add_u32 [of "xfer_buf ?p" ?k] k len win by simp
  have v: "in_ep (idc u) e = consume ?k ?p" "epx_tx_data_toggle (idc u) (e - 1) = (\<not> ?T)"
    "unat (TX_LEN (idc u) e) = min (unat (xfer_len ?p) - mps) mps" "TX_DMA (idc u) e = xfer_buf ?p + ?k"
    "TX_CTRL (idc u) e = tx_word True (\<not> ?T) a" "\<not> transfer_pending e PID_IN (idc u)"
    "in_got u = in_got s" "in_log u = in_log s" "in_tog u = in_tog s" "imem u = imem s"
    by (simp_all add: u not_pending_cleared)
      (simp_all add: d clear_int_fg_def toggle_in_def unat_packet_len len(2) mp)
  have "remaining e u = drop mps (remaining e s)"
    using len buf by (simp add: remaining_def v consume_def drop_bytes)
  then have "tl (packets mps (remaining e s)) = packets mps (remaining e u)"
    using packets_long [OF m, of "remaining e s"] len(1) by (simp add: remaining_def)
  then have "in_got u @ packets mps (remaining e u) = concat (map (packets mps) (in_log u))"
    using at c(1,5) v by (simp add: in_at_def)
  then have "in_at e mps True (\<not> ?T) a u"
    using at v c(5) len buf win by (simp add: in_at_def consume_def)
  then show ?thesis ..
qed

lemma in_at_irq_last:
  assumes at: "in_at e mps ack t a s" and e: "0 < e" "e < 16" and x: "in_irq e next_wr s = Some u"
    and nx: "\<forall>b n. next_wr = Some (b, n) \<longrightarrow> write_ok b n"
    and last_pkt: "\<not> ucast (ep_mps (in_ep (idc s) e)) < xfer_len (in_ep (idc s) e)"
  shows "\<exists>ack' t'. in_at e mps ack' t' a u"
proof -
  note c = in_irq_cases [OF at x]
  note d = irq_in_last [OF e(1) c(4) last_pkt]
  let ?mid = "fst (irq_in e (idc s))" and ?T = "epx_tx_data_toggle (idc s) (e - 1)"
  have mid: "ep_enable (in_ep ?mid e)" "ep_type (in_ep ?mid e) = USB_ENDPOINT_TYPE_BULK" "TX_CTRL ?mid e = tx_word False False a"
    "unat (ep_mps (in_ep ?mid e)) = mps" "epx_tx_data_toggle ?mid (e - 1) = (\<not> ?T)"
    using at by (simp_all add: d in_at_def toggle_in_def)
  have "length (remaining e s) \<le> mps"
    using last_pkt at by (simp add: remaining_def word_less_nat_alt unat_u16_u32 in_at_def)
  then have got: "in_got s = concat (map (packets mps) (in_log s))"
    using at c(1,5) packets_short [of "remaining e s" mps] by (simp add: in_at_def)
  have h: "USBD_IRQHandler (write_next e next_wr) (idc s) =
      clear_int_fg USBHS_TRANSFER_FLAG (call (write_next e next_wr) (snd (irq_in e (idc s))) ?mid)"
    by (simp add: handler_in [OF e(1) c(2,3)] d)
  have u: "u = log_write next_wr (s\<lparr>idc := clear_int_fg USBHS_TRANSFER_FLAG (call (write_next e next_wr) (snd (irq_in e (idc s))) ?mid)\<rparr>)"
    using x c(2,3) unfolding in_irq_def h by (simp add: d Let_def)
  show ?thesis
  proof (cases next_wr)
    case None
    then have u': "u = s\<lparr>idc := clear_int_fg USBHS_TRANSFER_FLAG ?mid\<rparr>"
      using u by (simp add: log_write_def write_next_def call_def d)
    have "in_at e mps False False a u"
      using mid got c(5) by (simp add: in_at_def u' not_pending_cleared) (simp add: clear_int_fg_def)
    then show ?thesis by blast
  next
    case (Some bn)
    then obtain b n where bn: "next_wr = Some (b, n)"
      by (cases bn) auto
    then have ok: "write_ok b n"
      using nx by simp
    note v = started_write [OF e ok mid(1-3)]
    have u': "u = s\<lparr>idc := clear_int_fg USBHS_TRANSFER_FLAG (snd (usbd_ep_start_write (of_nat e OR 0x80) b n ?mid)),
        in_log := in_log s @ [bytes (imem s) (unat b) (unat n)]\<rparr>"
      using u bn by (simp add: log_write_def write_next_def call_def d)
    have "in_at e mps True (epx_tx_data_toggle ?mid (e - 1)) a u"
      by (rule in_at_started [OF e ok mid(1-4)])
        (use got mid(5) c(5) v(3) in \<open>simp_all add: u' not_pending_cleared\<close>, simp_all add: clear_int_fg_def)
    then show ?thesis by blast
  qed
qed

lemma in_inv_step:
  assumes "in_step e s u" "in_inv e mps s" "0 < e" "e < 16" "0 < mps"
  shows "in_inv e mps u"
proof -
  obtain ack t a where at: "in_at e mps ack t a s"
    using assms(2) by (auto simp: in_inv_def)
  from assms(1) have "\<exists>ack' t' a'. in_at e mps ack' t' a' u"
  proof cases
    case (xact ack_lost flip st)
    then show ?thesis using in_at_xact [OF at assms(3-5)] by blast
  next
    case (irq next_wr)
    then show ?thesis
      using in_at_irq_more [OF at assms(3-5)] in_at_irq_last [OF at assms(3,4)]
      by (cases "ucast (ep_mps (in_ep (idc s) e)) < xfer_len (in_ep (idc s) e)") blast+
  next
    case (start b n)
    then show ?thesis using in_at_start [OF at assms(3,4)] by blast
  next
    case (memory m)
    then show ?thesis using in_at_memory [OF at] by blast
  next
    case (others v)
    then show ?thesis using in_at_others [OF at] by blast
  qed
  then show ?thesis
    by (simp add: in_inv_def)
qed

lemma in_reach_inv: "in_reach e mps s \<Longrightarrow> 0 < e \<Longrightarrow> e < 16 \<Longrightarrow> 0 < mps \<Longrightarrow> mps \<le> 2047 \<Longrightarrow> in_inv e mps s"
proof (induction rule: in_reach.induct)
  case (init s)
  then show ?case
    using in_at_init unfolding in_inv_def by blast
next
  case (step s t)
  then show ?case
    using in_inv_step by blast
qed

section \<open>What the driver does for other endpoints\<close>

lemma keeps_in_start_read:
  "\<not> transfer_pending e PID_IN u \<Longrightarrow> keeps_in e u (snd (usbd_ep_start_read ep data len u))"
  by (simp add: keeps_in_def usbd_ep_start_read_def set_rx_ctrl_def upd_out_def transfer_pending_def Let_def)

lemma keeps_in_start_write:
  "\<not> transfer_pending e PID_IN u \<Longrightarrow> USB_EP_GET_IDX ep \<noteq> e \<Longrightarrow> keeps_in e u (snd (usbd_ep_start_write ep data len u))"
  by (simp add: keeps_in_def usbd_ep_start_write_def set_tx_ctrl_def arm_in_def upd_in_def transfer_pending_def Let_def)

lemma keeps_in_irq_out: "\<not> transfer_pending e PID_IN u \<Longrightarrow> keeps_in e u (fst (irq_out i u))"
  by (simp add: keeps_in_def irq_out_def set_rx_ctrl_def upd_out_def transfer_pending_def Let_def)

lemma keeps_in_irq_in: "\<not> transfer_pending e PID_IN u \<Longrightarrow> 0 < e \<Longrightarrow> i \<noteq> e \<Longrightarrow> keeps_in e u (fst (irq_in i u))"
  by (simp add: keeps_in_def irq_in_def arm_in_def set_tx_ctrl_def upd_in_def transfer_pending_def Let_def) linarith?

section \<open>A run\<close>

fun in_run :: "(in_wire \<Rightarrow> in_wire option) list \<Rightarrow> in_wire \<Rightarrow> in_wire option" where
  "in_run [] s = Some s"
| "in_run (f # fs) s = (case f s of None \<Rightarrow> None | Some t \<Rightarrow> in_run fs t)"

lemma in_run_reach:
  "in_run fs s = Some u \<Longrightarrow> \<forall>f\<in>set fs. \<forall>s t. f s = Some t \<longrightarrow> in_step e s t \<Longrightarrow> in_reach e mps s \<Longrightarrow> in_reach e mps u"
proof (induction fs arbitrary: s)
  case (Cons f fs)
  then obtain t where t: "f s = Some t" "in_run fs t = Some u"
    by (auto split: option.splits)
  then show ?case
    using Cons.IH [OF t(2)] Cons.prems(2,3) in_reach.step by fastforce
qed simp

text \<open>Three bytes at address 4, packets of 2: the first acknowledgement is lost.\<close>

definition in_demo :: in_wire where
  "in_demo = \<lparr>idc = usbd_ep_open 0x81 2 USB_ENDPOINT_TYPE_BULK usbhs_zero, imem = put (\<lambda>_. 0) 4 [1, 2, 3], in_tog = False,
     in_got = [], in_log = []\<rparr>"

definition in_demo_acts :: "(in_wire \<Rightarrow> in_wire option) list" where
  "in_demo_acts = [in_start 1 4 3, in_xact 1 True False False, in_xact 1 False True False, in_irq 1 None, in_xact 1 False True False]"

lemma in_demo_runs:
  obtains s where "in_reach 1 2 s" "in_got s = [[1, 2], [3]]" "in_log s = [[1, 2, 3]]"
proof -
  have "map_option (\<lambda>s. (in_got s, in_log s)) (in_run in_demo_acts in_demo) = Some ([[1, 2], [3]], [[1, 2, 3]])"
    by code_simp
  then obtain s where s: "in_run in_demo_acts in_demo = Some s" "in_got s = [[1, 2], [3]]" "in_log s = [[1, 2, 3]]"
    by auto
  have "write_ok 4 3"
    by (simp add: write_ok_def)
  then have acts: "in_start 1 4 3 s = Some t \<longrightarrow> in_step 1 s t" "in_xact 1 True False False s = Some t \<longrightarrow> in_step 1 s t"
    "in_xact 1 False True False s = Some t \<longrightarrow> in_step 1 s t" "in_irq 1 None s = Some t \<longrightarrow> in_step 1 s t" for s t
    by (auto intro: in_step.start in_step.xact in_step.irq simp del: One_nat_def)
  have "in_reach 1 2 s"
  proof (rule in_run_reach [OF s(1)])
    show "\<forall>f\<in>set in_demo_acts. \<forall>s t. f s = Some t \<longrightarrow> in_step 1 s t"
      by (simp only: in_demo_acts_def set_simps Ball_def insert_iff empty_iff) (use acts in blast)
    show "in_reach 1 2 in_demo"
      by (rule in_reach.init, simp only: in_init_def, intro conjI exI [of _ usbhs_zero])
        (simp_all add: in_demo_def usbhs_zero_def)
  qed
  then show thesis
    using s that by blast
qed

section \<open>Properties\<close>

text \<open>C20
  A bulk IN endpoint (1 to 15) sends every transfer exactly once and in order, cut into packets of
  the maximum size (1 to 2047 bytes) with the short one last, from usbd_ep_open after a bus reset on and as long as it
  is not halted, its halt cleared, opened again or the bus reset (usbd_ep_set_stall,
  usbd_ep_clear_stall, usbd_ep_open and a bus reset are not steps).  Writes are started from
  aligned buffers while none is in progress.  In every state reached so the packets that the host
  has taken, followed by those it has still to take of the transfer in progress, are the packets
  of the transfers that were started, whatever acknowledgements are lost and whether or not the
  controller flips the toggle by itself.
\<close>

theorem usb_in_exactly_once:
  assumes "in_reach e mps s" "0 < e" "e < 16" "0 < mps" "mps \<le> 2047"
  shows "in_got s @ unsent e mps s = concat (map (packets mps) (in_log s)) \<and>
    concat (in_got s) @ concat (unsent e mps s) = concat (in_log s)"
proof -
  obtain ack t a where at: "in_at e mps ack t a s"
    using in_reach_inv [OF assms] by (auto simp: in_inv_def)
  then have all: "in_got s @ unsent e mps s = concat (map (packets mps) (in_log s))"
    by (auto simp: in_at_def unsent_def writing_def)
  have "concat (concat (map (packets mps) xs)) = concat xs" for xs :: "byte list list"
    by (induction xs) (simp_all add: concat_packets)
  then show ?thesis
    using all by (metis concat_append)
qed

theorem usb_in_exactly_once_witness:
  "\<exists>s. in_reach 1 2 s \<and> in_got s = [[1, 2], [3]] \<and> in_log s = [[1, 2, 3]] \<and> unsent 1 2 s = []"
proof -
  obtain s where s: "in_reach 1 2 s" "in_got s = [[1, 2], [3]]" "in_log s = [[1, 2, 3]]"
    by (rule in_demo_runs)
  have "concat (in_got s) @ concat (unsent 1 2 s) = concat (in_log s)" "in_got s @ unsent 1 2 s = concat (map (packets 2) (in_log s))"
    using usb_in_exactly_once [OF s(1)] by simp_all
  moreover have "packets 2 [1, 2, 3 :: byte] = [[1, 2], [3]]"
    by (simp add: packets_long packets_short)
  ultimately show ?thesis
    using s by auto
qed

text \<open>C39
  After a halt is cleared the first packet is lost without notice, when epx_tx_data_toggle is 1
  at that time and the next transfer fits into one packet (a bulk endpoint, no interrupt pending,
  the host expecting DATA0 again).  usbd_ep_clear_stall sets the toggle of the register of an IN
  endpoint, which the next write overwrites with \<open>epx_tx_data_toggle\<close>, and that it does not
  reset: the host takes the packet for a repetition, acknowledges it and throws it away, and the
  driver reports the transfer complete.
\<close>

theorem usb_clear_stall_loses_first_packet:
  assumes "0 < e" "e < 16" "write_ok b n" "ep_enable (in_ep u e)" "unat n \<le> unat (ep_mps (in_ep u e))"
    and "ep_type (in_ep u e) = USB_ENDPOINT_TYPE_BULK" "epx_tx_data_toggle u (e - 1)" "INT_FG u = 0" "\<not> in_tog s"
    and "idc s = snd (usbd_ep_start_write (of_nat e OR 0x80) b n (usbd_ep_clear_stall (of_nat e OR 0x80) u))"
  shows "\<exists>s1 s2. in_xact e False flip st s = Some s1 \<and> in_irq e None s1 = Some s2 \<and> in_got s2 = in_got s \<and>
    snd (irq_in e (idc s1)) = Some (EpInComplete (of_nat e OR 0x80) n) \<and> \<not> writing e s2"
proof -
  let ?c = "usbd_ep_clear_stall (of_nat e OR 0x80) u"
  have c: "in_ep ?c = in_ep u" "epx_tx_data_toggle ?c = epx_tx_data_toggle u" "INT_FG ?c = INT_FG u" "TX_CTRL ?c e = tx_word False False False"
    by (simp_all add: usbd_ep_clear_stall_def wr_endpoint [OF assms(1,2)] set_tx_ctrl_def Let_def tx_word_def tog_bits_def)
  have p: "ep_enable (in_ep ?c e)" "ep_type (in_ep ?c e) = USB_ENDPOINT_TYPE_BULK"
    using assms(4,6) c by simp_all
  note v = started_write [OF assms(1-3) p c(4)]
  have w: "TX_CTRL (idc s) e = tx_word True True False" "INT_FG (idc s) = 0"
    using v(2,4) assms(7,8) c by (simp_all add: assms(10))
  let ?v = "sent e flip st (idc s)"
  have x: "in_xact e False flip st s = Some (s\<lparr>idc := ?v\<rparr>)"
    using w assms(9) by (simp add: in_xact_def Let_def)
  have vw: "TX_CTRL ?v e = tx_word True (\<not> flip) False" "INT_FG ?v = 0 OR USBHS_TRANSFER_FLAG" "INT_ST ?v = status_word e PID_IN st"
    "in_ep ?v = in_ep (idc s)"
    using w by (simp_all add: sent_def)
  note pd = pending_status(1) [OF assms(1,2) disjI2 [OF refl] vw(2,3)]
  have o: "INT_FG ?v AND (USBHS_SETUP_FLAG OR USBHS_DETECT_FLAG) = 0"
    unfolding vw(2) by (simp add: usbhs_bits)
  have ep: "in_ep (idc s) e = (in_ep u e)\<lparr>xfer_buf := b, xfer_len := n, actual_xfer_len := 0\<rparr>"
    using v(1) c by (simp add: assms(10))
  have "\<not> ucast (ep_mps (in_ep ?v e)) < xfer_len (in_ep ?v e)"
    using assms(5) by (simp add: vw(4) ep word_less_nat_alt unat_u16_u32)
  note d = irq_in_last [OF assms(1) vw(1) this]
  have i: "in_irq e None (s\<lparr>idc := ?v\<rparr>) = Some (s\<lparr>idc := clear_int_fg USBHS_TRANSFER_FLAG (fst (irq_in e ?v))\<rparr>)"
    using pd o by (simp add: in_irq_def handler_in [OF assms(1) pd o] d call_def write_next_def log_write_def Let_def)
  show ?thesis
    using x i by (simp add: d ep vw(4) writing_def clear_int_fg_def)
qed

theorem usb_clear_stall_loses_first_packet_witness:
  "\<exists>s1 s2. in_xact 1 False True False (in_demo\<lparr>idc := snd (usbd_ep_start_write 0x81 4 2 (usbd_ep_clear_stall 0x81
       ((usbd_ep_open 0x81 2 USB_ENDPOINT_TYPE_BULK usbhs_zero)\<lparr>epx_tx_data_toggle := (\<lambda>i. i = 0)\<rparr>)))\<rparr>) = Some s1 \<and>
     in_irq 1 None s1 = Some s2 \<and> in_got s2 = [] \<and> \<not> writing 1 s2"
proof -
  let ?u = "(usbd_ep_open 0x81 2 USB_ENDPOINT_TYPE_BULK usbhs_zero)\<lparr>epx_tx_data_toggle := (\<lambda>i. i = 0)\<rparr>"
  let ?s = "in_demo\<lparr>idc := snd (usbd_ep_start_write 0x81 4 2 (usbd_ep_clear_stall 0x81 ?u))\<rparr>"
  have b: "(0::nat) < 1" "(1::nat) < 16" "write_ok 4 2" "epx_tx_data_toggle ?u (1 - 1)" "\<not> in_tog ?s" "in_got ?s = []"
    by (simp_all add: write_ok_def in_demo_def)
  have u: "ep_enable (in_ep ?u 1)" "unat (2 :: u32) \<le> unat (ep_mps (in_ep ?u 1))" "ep_type (in_ep ?u 1) = USB_ENDPOINT_TYPE_BULK" "INT_FG ?u = 0"
    by code_simp+
  have "idc ?s = snd (usbd_ep_start_write (of_nat 1 OR 0x80) 4 2 (usbd_ep_clear_stall (of_nat 1 OR 0x80) ?u))"
    by simp
  then show ?thesis
    using usb_clear_stall_loses_first_packet [OF b(1-3) u(1-3) b(4) u(4) b(5), of True False] b(6) by auto
qed

end
