(* ===== verification/Kservice_Bits.thy ===== *)
theory Kservice_Bits
  imports Wlh_Prelude
begin

text \<open>
  The bit searches of rt-thread/src/kservice.c that the scheduler uses: __rt_ffs by a table of
  256 entries and __rt_fls by halving, and their equivalence with the lowest and the highest
  bit that is set.
\<close>

section \<open>The code\<close>

definition lowest_bit_bitmap :: "nat list" where
  "lowest_bit_bitmap =
   [0, 0, 1, 0, 2, 0, 1, 0, 3, 0, 1, 0, 2, 0, 1, 0, 4, 0, 1, 0, 2, 0, 1, 0, 3, 0, 1, 0, 2, 0, 1, 0,
    5, 0, 1, 0, 2, 0, 1, 0, 3, 0, 1, 0, 2, 0, 1, 0, 4, 0, 1, 0, 2, 0, 1, 0, 3, 0, 1, 0, 2, 0, 1, 0,
    6, 0, 1, 0, 2, 0, 1, 0, 3, 0, 1, 0, 2, 0, 1, 0, 4, 0, 1, 0, 2, 0, 1, 0, 3, 0, 1, 0, 2, 0, 1, 0,
    5, 0, 1, 0, 2, 0, 1, 0, 3, 0, 1, 0, 2, 0, 1, 0, 4, 0, 1, 0, 2, 0, 1, 0, 3, 0, 1, 0, 2, 0, 1, 0,
    7, 0, 1, 0, 2, 0, 1, 0, 3, 0, 1, 0, 2, 0, 1, 0, 4, 0, 1, 0, 2, 0, 1, 0, 3, 0, 1, 0, 2, 0, 1, 0,
    5, 0, 1, 0, 2, 0, 1, 0, 3, 0, 1, 0, 2, 0, 1, 0, 4, 0, 1, 0, 2, 0, 1, 0, 3, 0, 1, 0, 2, 0, 1, 0,
    6, 0, 1, 0, 2, 0, 1, 0, 3, 0, 1, 0, 2, 0, 1, 0, 4, 0, 1, 0, 2, 0, 1, 0, 3, 0, 1, 0, 2, 0, 1, 0,
    5, 0, 1, 0, 2, 0, 1, 0, 3, 0, 1, 0, 2, 0, 1, 0, 4, 0, 1, 0, 2, 0, 1, 0, 3, 0, 1, 0, 2, 0, 1, 0]"

definition rt_ffs :: "u32 \<Rightarrow> int" where
  "rt_ffs v =
    (if v = 0 then 0
     else if v AND 0xff \<noteq> 0 then int (lowest_bit_bitmap ! unat (v AND 0xff)) + 1
     else if v AND 0xff00 \<noteq> 0 then int (lowest_bit_bitmap ! unat (drop_bit 8 (v AND 0xff00))) + 9
     else if v AND 0xff0000 \<noteq> 0 then int (lowest_bit_bitmap ! unat (drop_bit 16 (v AND 0xff0000))) + 17
     else int (lowest_bit_bitmap ! unat (drop_bit 24 (v AND 0xff000000))) + 25)"

text \<open>One halving: the upper bits of \<open>m\<close> are clear, so the value moves up by \<open>n\<close>.\<close>

definition fls_step :: "u32 \<Rightarrow> nat \<Rightarrow> u32 \<times> int \<Rightarrow> u32 \<times> int" where
  "fls_step m n = (\<lambda>(v, b). if v AND m = 0 then (push_bit n v, b - int n) else (v, b))"

definition rt_fls :: "u32 \<Rightarrow> int" where
  "rt_fls v =
    (if v = 0 then 0
     else (case fls_step 0xc0000000 2 (fls_step 0xf0000000 4 (fls_step 0xff000000 8
                  (fls_step 0xffff0000 16 (v, 32)))) of
             (v', b) \<Rightarrow> if v' AND 0x80000000 = 0 then b - 1 else b))"

section \<open>The lowest bit\<close>

lemma lowest_bit_bitmap_correct:
  "\<forall>b\<in>set [1..<256]. 2 ^ (lowest_bit_bitmap ! b) dvd b \<and> odd (b div 2 ^ (lowest_bit_bitmap ! b))"
  by code_simp

definition lowest_set :: "u32 \<Rightarrow> nat \<Rightarrow> bool" where
  "lowest_set v n \<longleftrightarrow> bit v n \<and> (\<forall>m<n. \<not> bit v m)"

lemma lowest_set_unique: "lowest_set v n \<Longrightarrow> lowest_set v m \<Longrightarrow> n = m"
  unfolding lowest_set_def by (metis nat_neq_iff)

lemma byte_lowest:
  assumes "w \<noteq> 0" "unat (w :: u32) < 256"
  shows "lowest_set w (lowest_bit_bitmap ! unat w)"
proof -
  let ?n = "lowest_bit_bitmap ! unat w"
  have "unat w \<noteq> 0" using assms(1) by (simp add: unat_eq_0)
  then have n: "2 ^ ?n dvd unat w" "odd (unat w div 2 ^ ?n)"
    using lowest_bit_bitmap_correct assms(2) by auto
  have b: "bit w k \<longleftrightarrow> odd (unat w div 2 ^ k)" for k
  proof -
    have "bit (unat w) k \<longleftrightarrow> bit w k" by (simp add: bit_simps)
    then show ?thesis by (simp add: bit_iff_odd [of "unat w"])
  qed
  have "?n < 32"
  proof (rule ccontr)
    assume "\<not> ?n < 32"
    then have "(2::nat) ^ 32 \<le> 2 ^ ?n" by (intro power_increasing) simp_all
    then have "unat w div 2 ^ ?n = 0" using assms(2) by simp
    then show False using n(2) by simp
  qed
  moreover have "\<not> odd (unat w div 2 ^ k)" if "k < ?n" for k
  proof -
    obtain q where "unat w = 2 ^ ?n * q" using n(1) by blast
    moreover have "(2::nat) ^ ?n = 2 ^ k * (2 * 2 ^ (?n - k - 1))"
      using that by (simp add: power_add [symmetric] power_Suc [symmetric] del: power_Suc)
    ultimately have "unat w = 2 ^ k * (2 * (2 ^ (?n - k - 1) * q))" by (simp add: mult.assoc)
    then have "unat w div 2 ^ k = 2 * (2 ^ (?n - k - 1) * q)"
      by (metis nonzero_mult_div_cancel_left power_not_zero zero_neq_numeral)
    then show ?thesis by simp
  qed
  ultimately show ?thesis using n(2) b by (auto simp: lowest_set_def)
qed

text \<open>One byte of the value, at bit \<open>s\<close>.\<close>

definition byte_at :: "u32 \<Rightarrow> nat \<Rightarrow> u32" where
  "byte_at v s = drop_bit s v AND mask 8"

lemma byte_at_simps:
  "v AND 0xff = byte_at v 0" "drop_bit 8 (v AND 0xff00) = byte_at v 8"
  "drop_bit 16 (v AND 0xff0000) = byte_at v 16" "drop_bit 24 (v AND 0xff000000) = byte_at v 24"
proof -
  have m: "(0xff :: u32) = mask 8" "(0xff00 :: u32) = push_bit 8 (mask 8)"
    "(0xff0000 :: u32) = push_bit 16 (mask 8)" "(0xff000000 :: u32) = push_bit 24 (mask 8)"
    by (simp_all add: mask_eq_exp_minus_1 push_bit_eq_mult)
  show "v AND 0xff = byte_at v 0" "drop_bit 8 (v AND 0xff00) = byte_at v 8"
    "drop_bit 16 (v AND 0xff0000) = byte_at v 16" "drop_bit 24 (v AND 0xff000000) = byte_at v 24"
    unfolding m byte_at_def by (rule bit_word_eqI; auto simp: bit_simps)+
qed

lemma byte_at_drop_0: "drop_bit s (v AND push_bit s (mask 8)) = 0 \<longleftrightarrow> v AND push_bit s (mask 8) = (0 :: u32)"
proof
  assume a: "drop_bit s (v AND push_bit s (mask 8)) = 0"
  show "v AND push_bit s (mask 8) = 0"
  proof (rule bit_word_eqI)
    fix n
    have "\<not> bit (drop_bit s (v AND push_bit s (mask 8))) (n - s)" using a by simp
    then show "bit (v AND push_bit s (mask 8)) n \<longleftrightarrow> bit (0 :: u32) n"
      by (cases "n < s") (auto simp: bit_simps)
  qed
qed simp

lemma bit_byte_at: "bit (byte_at v s) n \<longleftrightarrow> n < 8 \<and> bit v (s + n)"
  by (auto simp: byte_at_def bit_simps dest: bit_imp_le_length)

lemma byte_at_0_iff: "byte_at v s = 0 \<longleftrightarrow> (\<forall>n<8. \<not> bit v (s + n))"
proof
  assume "byte_at v s = 0"
  then show "\<forall>n<8. \<not> bit v (s + n)" using bit_byte_at [of v s] by auto
qed (rule bit_word_eqI, simp add: bit_byte_at)

lemma byte_lowest_at:
  assumes "byte_at v s \<noteq> 0" "\<forall>m < s. \<not> bit v m"
  shows "lowest_set v (s + lowest_bit_bitmap ! unat (byte_at v s))"
proof -
  have "byte_at v s = take_bit 8 (drop_bit s v)" by (simp add: byte_at_def take_bit_eq_mask)
  then have "unat (byte_at v s) = take_bit 8 (unat (drop_bit s v))" by (simp add: unsigned_take_bit_eq)
  then have "unat (byte_at v s) < 256" by (simp add: take_bit_eq_mod)
  from byte_lowest [OF assms(1) this] have l: "lowest_set (byte_at v s) (lowest_bit_bitmap ! unat (byte_at v s))" .
  let ?n = "lowest_bit_bitmap ! unat (byte_at v s)"
  have "bit v (s + ?n)" using l by (simp add: lowest_set_def bit_byte_at)
  moreover have "\<not> bit v m" if "m < s + ?n" for m
  proof (cases "m < s")
    case False
    then have "m = s + (m - s)" "m - s < ?n" using that by auto
    moreover have "?n < 8" using l by (simp add: lowest_set_def bit_byte_at)
    ultimately show ?thesis using l unfolding lowest_set_def bit_byte_at by (metis less_trans)
  qed (use assms(2) in simp)
  ultimately show ?thesis by (simp add: lowest_set_def)
qed

lemma below_byte:
  assumes "byte_at v s = 0" "\<forall>m < s. \<not> bit v m"
  shows "\<forall>m < s + 8. \<not> bit v m"
proof (intro allI impI)
  fix m assume "m < s + 8"
  then show "\<not> bit v m"
    using assms(2) spec [OF assms(1) [unfolded byte_at_0_iff], of "m - s"] by (cases "m < s") auto
qed

lemma rt_ffs_lowest:
  assumes "v \<noteq> 0"
  shows "\<exists>n. lowest_set v n \<and> rt_ffs v = int n + 1"
proof -
  have z: "v AND 0xff00 = 0 \<longleftrightarrow> byte_at v 8 = 0" "v AND 0xff0000 = 0 \<longleftrightarrow> byte_at v 16 = 0"
    using byte_at_drop_0 [of 8 v] byte_at_drop_0 [of 16 v]
    by (simp_all add: byte_at_simps [symmetric] mask_eq_exp_minus_1 push_bit_eq_mult)
  let ?i = "\<lambda>s. lowest_bit_bitmap ! unat (byte_at v s)"
  have r: "rt_ffs v = (if byte_at v 0 \<noteq> 0 then int (0 + ?i 0) + 1 else if byte_at v 8 \<noteq> 0 then int (8 + ?i 8) + 1
      else if byte_at v 16 \<noteq> 0 then int (16 + ?i 16) + 1 else int (24 + ?i 24) + 1)"
    using assms unfolding rt_ffs_def byte_at_simps z by simp
  have 0: "\<forall>m < (0 :: nat). \<not> bit v m" by simp
  show ?thesis
  proof (cases "byte_at v 0 = 0")
    case False
    then show ?thesis using byte_lowest_at [OF False 0] r by (intro exI [of _ "0 + ?i 0"]) simp
  next
    case t0: True
    note 8 = below_byte [OF t0 0, simplified]
    show ?thesis
    proof (cases "byte_at v 8 = 0")
      case False
      then show ?thesis using byte_lowest_at [OF False 8] r t0 by (intro exI [of _ "8 + ?i 8"]) simp
    next
      case t8: True
      note 16 = below_byte [OF t8 8, simplified]
      show ?thesis
      proof (cases "byte_at v 16 = 0")
        case False
        then show ?thesis using byte_lowest_at [OF False 16] r t0 t8 by (intro exI [of _ "16 + ?i 16"]) simp
      next
        case t16: True
        note 24 = below_byte [OF t16 16, simplified]
        have "byte_at v 24 \<noteq> 0"
        proof
          assume "byte_at v 24 = 0"
          from below_byte [OF this 24] have "\<not> bit v m" for m using bit_imp_le_length [of v m] by auto
          then show False using assms by (auto simp: bit_eq_iff)
        qed
        from byte_lowest_at [OF this 24] show ?thesis
          using r t0 t8 t16 by (intro exI [of _ "24 + ?i 24"]) simp
      qed
    qed
  qed
qed

section \<open>The highest bit\<close>

definition highest_set :: "u32 \<Rightarrow> nat \<Rightarrow> bool" where
  "highest_set v n \<longleftrightarrow> bit v n \<and> (\<forall>m>n. \<not> bit v m)"

lemma highest_exists:
  assumes "v \<noteq> 0"
  obtains n where "highest_set v n" "n < 32"
proof -
  obtain k where k: "bit v k" using assms by (auto simp: bit_eq_iff)
  have b: "bit v m \<Longrightarrow> m \<le> 31" for m using bit_imp_le_length [of v m] by simp
  have "bit v (GREATEST n. bit v n)" by (rule GreatestI_nat [of "bit v", OF k b])
  moreover have "\<not> bit v m" if "m > (GREATEST n. bit v n)" for m
    using Greatest_le_nat [of "bit v" m 31] b that by auto
  ultimately have "highest_set v (GREATEST n. bit v n)" by (simp add: highest_set_def)
  then show ?thesis using that b [of "GREATEST n. bit v n"] by (simp add: highest_set_def)
qed

lemma fls_step_highest:
  assumes h: "highest_set v h" "32 - 2 * j \<le> h" and j: "j \<le> 16" "m = push_bit (32 - j) (mask j)"
    and r: "fls_step m j (v, b) = (v', b')"
  obtains h' where "highest_set v' h'" "b' - int h = b - int h'" "32 - j \<le> h'"
proof -
  have bits: "bit (v AND m) n \<longleftrightarrow> bit v n \<and> 32 - j \<le> n" for n
    using j(1) bit_imp_le_length [of v n] by (auto simp: j(2) bit_simps)
  show ?thesis
  proof (cases "v AND m = 0")
    case True
    then have "h < 32 - j" using bits [of h] h(1) by (auto simp: highest_set_def)
    then have "highest_set (push_bit j v) (j + h)"
      using h(1) j(1) by (auto simp: highest_set_def bit_simps)
    then show ?thesis using True r h(2) j(1) by (intro that [of "j + h"]) (auto simp: fls_step_def)
  next
    case False
    then obtain n where "bit (v AND m) n" by (auto simp: bit_eq_iff)
    then have "32 - j \<le> h" using bits h(1) unfolding highest_set_def by (metis le_trans not_le)
    then show ?thesis using False r h(1) by (intro that [of h]) (auto simp: fls_step_def)
  qed
qed

lemma rt_fls_highest:
  assumes "v \<noteq> 0"
  shows "\<exists>n. highest_set v n \<and> rt_fls v = int n + 1"
proof -
  obtain h0 where h0: "highest_set v h0" "h0 < 32" by (rule highest_exists [OF assms])
  have m: "(0xffff0000 :: u32) = push_bit (32 - 16) (mask 16)" "(0xff000000 :: u32) = push_bit (32 - 8) (mask 8)"
    "(0xf0000000 :: u32) = push_bit (32 - 4) (mask 4)" "(0xc0000000 :: u32) = push_bit (32 - 2) (mask 2)"
    "(0x80000000 :: u32) = 2 ^ 31"
    by (simp_all add: mask_eq_exp_minus_1 push_bit_eq_mult)
  obtain v1 b1 where r1: "fls_step 0xffff0000 16 (v, 32) = (v1, b1)" by fastforce
  obtain v2 b2 where r2: "fls_step 0xff000000 8 (v1, b1) = (v2, b2)" by fastforce
  obtain v3 b3 where r3: "fls_step 0xf0000000 4 (v2, b2) = (v3, b3)" by fastforce
  obtain v4 b4 where r4: "fls_step 0xc0000000 2 (v3, b3) = (v4, b4)" by fastforce
  obtain h1 where h1: "highest_set v1 h1" "b1 - int h0 = 32 - int h1" "32 - 16 \<le> h1"
    by (rule fls_step_highest [OF h0(1) _ _ m(1) r1]) auto
  obtain h2 where h2: "highest_set v2 h2" "b2 - int h1 = b1 - int h2" "32 - 8 \<le> h2"
    by (rule fls_step_highest [OF h1(1) _ _ m(2) r2]) (use h1(3) in auto)
  obtain h3 where h3: "highest_set v3 h3" "b3 - int h2 = b2 - int h3" "32 - 4 \<le> h3"
    by (rule fls_step_highest [OF h2(1) _ _ m(3) r3]) (use h2(3) in auto)
  obtain h4 where h4: "highest_set v4 h4" "b4 - int h3 = b3 - int h4" "32 - 2 \<le> h4"
    by (rule fls_step_highest [OF h3(1) _ _ m(4) r4]) (use h3(3) in auto)
  have "bit v4 h4" using h4(1) by (simp add: highest_set_def)
  then have lt: "h4 < 32" using bit_imp_le_length [of v4 h4] by simp
  have "v4 AND 0x80000000 = 0 \<longleftrightarrow> \<not> bit v4 31"
    unfolding m(5) by (rule and_exp_eq_0_iff_not_bit)
  also have "\<dots> \<longleftrightarrow> h4 = 30"
  proof -
    have "h4 = 30 \<or> h4 = 31" using h4(3) lt by auto
    then show ?thesis using h4(1) by (auto simp: highest_set_def)
  qed
  finally have top: "v4 AND 0x80000000 = 0 \<longleftrightarrow> h4 = 30" .
  have "rt_fls v = int h0 + 1"
    using assms h1(2) h2(2) h3(2) h4(2,3) lt top by (auto simp: rt_fls_def r1 r2 r3 r4)
  then show ?thesis using h0(1) by blast
qed

section \<open>Properties\<close>

text \<open>C33
  __rt_ffs and __rt_fls compute, for every value, the number of the lowest and of the highest
  bit that is set, counted from 1, and 0 for the value 0.
\<close>

theorem bit_search_equivalent:
  "rt_ffs v = (if v = 0 then 0 else int (LEAST n. bit v n) + 1) \<and>
   rt_fls v = (if v = 0 then 0 else int (GREATEST n. bit v n) + 1)"
proof (cases "v = 0")
  case False
  obtain n where n: "lowest_set v n" "rt_ffs v = int n + 1" using rt_ffs_lowest [OF False] by blast
  obtain k where k: "highest_set v k" "rt_fls v = int k + 1" using rt_fls_highest [OF False] by blast
  have "(LEAST n. bit v n) = n"
    by (rule Least_equality) (use n(1) not_le in \<open>auto simp: lowest_set_def\<close>)
  moreover have "(GREATEST n. bit v n) = k"
    by (rule Greatest_equality) (use k(1) not_le in \<open>auto simp: highest_set_def\<close>)
  ultimately show ?thesis using False n(2) k(2) by simp
qed (simp add: rt_ffs_def rt_fls_def)

end
