(* ===== verification/Sched_Up.thy ===== *)
theory Sched_Up
  imports Kservice_Bits Ipc_Thread
begin

text \<open>
  The single-core scheduler of rt-thread/src/scheduler_up.c with the scheduler operations of
  scheduler_comm.c and thread.c, at the width of the code: the status byte with the yield flag, the
  table of ready queues, one per priority, and the bitmap of the queues that are not empty.
  The context switch itself is the change of the current thread.  \<open>None\<close> is an access
  through RT_NULL, the first element of an empty queue, or a failed RT_ASSERT.
\<close>

section \<open>State\<close>

record sched_thread =
  sc_stat :: byte
  sc_init_priority :: byte
  sc_current_priority :: byte
  number_mask :: u32
  sc_init_tick :: u32
  remaining_tick :: u32

record sched =
  sc_current_thread :: "tid option"
  sc_threads :: "tid \<Rightarrow> sched_thread"
  rt_thread_priority_table :: "nat \<Rightarrow> tid list"
  rt_thread_ready_priority_group :: u32
  rt_scheduler_lock_nest :: int
  rt_current_priority :: byte
  critical_switch_flag :: bool

definition STAT_INIT :: byte where "STAT_INIT = 0"
definition STAT_CLOSE :: byte where "STAT_CLOSE = 1"
definition STAT_READY :: byte where "STAT_READY = 2"
definition STAT_RUNNING :: byte where "STAT_RUNNING = 3"
definition RT_THREAD_SUSPEND_MASK :: byte where "RT_THREAD_SUSPEND_MASK = 4"
definition RT_THREAD_STAT_MASK :: byte where "RT_THREAD_STAT_MASK = 7"
definition RT_THREAD_STAT_YIELD :: byte where "RT_THREAD_STAT_YIELD = 8"

definition sched_stat :: "sched \<Rightarrow> tid \<Rightarrow> byte" where
  "sched_stat s t = sc_stat (sc_threads s t) AND RT_THREAD_STAT_MASK"

definition yielding :: "sched \<Rightarrow> tid \<Rightarrow> bool" where
  "yielding s t \<longleftrightarrow> sc_stat (sc_threads s t) AND RT_THREAD_STAT_YIELD \<noteq> 0"

abbreviation sc_prio :: "sched \<Rightarrow> tid \<Rightarrow> byte" where
  "sc_prio s t \<equiv> sc_current_priority (sc_threads s t)"

definition upd_sched :: "tid \<Rightarrow> (sched_thread \<Rightarrow> sched_thread) \<Rightarrow> sched \<Rightarrow> sched" where
  "upd_sched t f s = s\<lparr>sc_threads := (sc_threads s)(t := f (sc_threads s t))\<rparr>"

text \<open>stat = x | (stat & ~RT_THREAD_STAT_MASK)\<close>

definition set_stat :: "tid \<Rightarrow> byte \<Rightarrow> sched \<Rightarrow> sched" where
  "set_stat t x = upd_sched t (\<lambda>th. th\<lparr>sc_stat := x OR (sc_stat th AND NOT RT_THREAD_STAT_MASK)\<rparr>)"

section \<open>Ready queues\<close>

definition rt_system_scheduler_init :: "sched \<Rightarrow> sched" where
  "rt_system_scheduler_init s =
    s\<lparr>rt_scheduler_lock_nest := 0, rt_thread_priority_table := (\<lambda>p. []), rt_thread_ready_priority_group := 0\<rparr>"

text \<open>The node of a thread is linked into at most one list; here, out of any ready queue.\<close>

definition sched_remove_thread :: "tid \<Rightarrow> sched \<Rightarrow> sched" where
  "sched_remove_thread t s =
    (let table = (\<lambda>p. remove1 t (rt_thread_priority_table s p));
         s1 = s\<lparr>rt_thread_priority_table := table\<rparr>
     in if table (unat (sc_prio s t)) = []
        then s1\<lparr>rt_thread_ready_priority_group :=
          rt_thread_ready_priority_group s1 AND NOT (number_mask (sc_threads s t))\<rparr>
        else s1)"

definition sched_insert_thread :: "tid \<Rightarrow> sched \<Rightarrow> sched" where
  "sched_insert_thread t s =
    (if sc_current_thread s = Some t then set_stat t STAT_RUNNING s
     else
      (let s1 = set_stat t STAT_READY s;
           p = unat (sc_prio s t);
           queue = rt_thread_priority_table s p
       in s1\<lparr>rt_thread_priority_table := (rt_thread_priority_table s)
               (p := if yielding s1 t then queue @ [t] else t # queue),
             rt_thread_ready_priority_group :=
               rt_thread_ready_priority_group s OR number_mask (sc_threads s t)\<rparr>))"

definition highest_priority_thread :: "sched \<Rightarrow> (tid \<times> nat) option" where
  "highest_priority_thread s =
    (let p = rt_ffs (rt_thread_ready_priority_group s) - 1
     in if p < 0 then None
        else (case rt_thread_priority_table s (nat p) of [] \<Rightarrow> None | t # _ \<Rightarrow> Some (t, nat p)))"

definition rt_system_scheduler_start :: "sched \<Rightarrow> sched option" where
  "rt_system_scheduler_start s =
    (case highest_priority_thread s of
       None \<Rightarrow> None
     | Some (t, p) \<Rightarrow>
         Some (upd_sched t (\<lambda>th. th\<lparr>sc_stat := STAT_RUNNING\<rparr>) (sched_remove_thread t
           (s\<lparr>sc_current_thread := Some t, critical_switch_flag := False\<rparr>))))"

section \<open>Scheduling\<close>

definition rt_schedule :: "sched \<Rightarrow> sched option" where
  "rt_schedule s =
    (if rt_scheduler_lock_nest s = 0
     then if rt_thread_ready_priority_group s \<noteq> 0
      then (case highest_priority_thread s of
              None \<Rightarrow> None
            | Some (t, p) \<Rightarrow>
               (case sc_current_thread s of
                  None \<Rightarrow> None
                | Some c \<Rightarrow>
                   (let running = sched_stat s c = STAT_RUNNING;
                        stay = running \<and> (unat (sc_prio s c) < p \<or> unat (sc_prio s c) = p \<and> \<not> yielding s c);
                        to = (if stay then c else t)
                    in if to \<noteq> c
                       then
                        (let s1 = s\<lparr>rt_current_priority := of_nat p, sc_current_thread := Some to\<rparr>;
                             s2 = (if running then sched_insert_thread c s1 else s1);
                             s3 = (if yielding s2 c
                                   then upd_sched c (\<lambda>th. th\<lparr>sc_stat := sc_stat th AND NOT RT_THREAD_STAT_YIELD\<rparr>) s2
                                   else s2)
                         in Some (set_stat to STAT_RUNNING (sched_remove_thread to s3)))
                       else Some (set_stat c STAT_RUNNING (sched_remove_thread c s)))))
      else Some s
     else Some (s\<lparr>critical_switch_flag := True\<rparr>))"

text \<open>rt_sched_unlock_n_resched: no scheduling before the first thread runs.\<close>

definition unlock_n_resched :: "sched \<Rightarrow> sched option" where
  "unlock_n_resched s = (case sc_current_thread s of None \<Rightarrow> Some s | Some _ \<Rightarrow> rt_schedule s)"

definition rt_enter_critical :: "sched \<Rightarrow> sched" where
  "rt_enter_critical s = s\<lparr>rt_scheduler_lock_nest := rt_scheduler_lock_nest s + 1\<rparr>"

definition rt_exit_critical :: "sched \<Rightarrow> sched option" where
  "rt_exit_critical s =
    (let n = rt_scheduler_lock_nest s - 1
     in if n \<le> 0
        then (let s1 = s\<lparr>rt_scheduler_lock_nest := 0\<rparr>
              in if critical_switch_flag s1 then rt_schedule (s1\<lparr>critical_switch_flag := False\<rparr>) else Some s1)
        else Some (s\<lparr>rt_scheduler_lock_nest := n\<rparr>))"

section \<open>Threads\<close>

definition sched_thread_yield :: "tid \<Rightarrow> sched \<Rightarrow> sched" where
  "sched_thread_yield t = upd_sched t (\<lambda>th. th\<lparr>remaining_tick := sc_init_tick th,
     sc_stat := sc_stat th OR RT_THREAD_STAT_YIELD\<rparr>)"

definition rt_thread_yield :: "sched \<Rightarrow> sched option" where
  "rt_thread_yield s =
    (case sc_current_thread s of None \<Rightarrow> None | Some c \<Rightarrow> unlock_n_resched (sched_thread_yield c s))"

definition rt_sched_tick_increase :: "u32 \<Rightarrow> sched \<Rightarrow> sched option" where
  "rt_sched_tick_increase tick s =
    (case sc_current_thread s of
       None \<Rightarrow> None
     | Some c \<Rightarrow>
        (let r = remaining_tick (sc_threads s c);
             s1 = upd_sched c (\<lambda>th. th\<lparr>remaining_tick := if r > tick then r - tick else 0\<rparr>) s
         in if remaining_tick (sc_threads s1 c) \<noteq> 0 then Some s1
            else unlock_n_resched (sched_thread_yield c s1)))"

definition sched_thread_init_priv :: "tid \<Rightarrow> u32 \<Rightarrow> byte \<Rightarrow> sched \<Rightarrow> sched option" where
  "sched_thread_init_priv t tick p s =
    (if p < 32
     then Some (upd_sched t (\<lambda>th. th\<lparr>sc_stat := STAT_INIT, sc_init_priority := p, sc_current_priority := p,
            number_mask := 0, sc_init_tick := tick, remaining_tick := tick\<rparr>) s)
     else None)"

text \<open>rt_sched_thread_ready without the thread timer, which is in Ipc_Thread.\<close>

definition sched_thread_resume :: "tid \<Rightarrow> sched \<Rightarrow> sched option" where
  "sched_thread_resume t s =
    (if sc_stat (sc_threads s t) AND RT_THREAD_SUSPEND_MASK = RT_THREAD_SUSPEND_MASK
     then Some (sched_insert_thread t s) else None)"

definition sched_thread_startup :: "tid \<Rightarrow> sched \<Rightarrow> sched" where
  "sched_thread_startup t = upd_sched t (\<lambda>th. th\<lparr>
     number_mask := push_bit (unat (sc_current_priority th)) 1, sc_stat := RT_THREAD_SUSPEND_MASK\<rparr>)"

text \<open>rt_thread_startup: only a thread in the initial state.\<close>

definition rt_thread_startup :: "tid \<Rightarrow> sched \<Rightarrow> sched option" where
  "rt_thread_startup t s =
    (if sched_stat s t = STAT_INIT
     then (case sched_thread_resume t (sched_thread_startup t s) of
             None \<Rightarrow> None | Some s1 \<Rightarrow> unlock_n_resched s1)
     else None)"

definition sched_suspend_code :: "suspend_flag \<Rightarrow> byte" where
  "sched_suspend_code f = of_nat (suspend_code f)"

text \<open>The scheduler's part of rt_thread_suspend_to_list for a ready or running thread.\<close>

definition sched_thread_suspend :: "tid \<Rightarrow> suspend_flag \<Rightarrow> sched \<Rightarrow> sched option" where
  "sched_thread_suspend t f s =
    (if sched_stat s t = STAT_READY \<or> sched_stat s t = STAT_RUNNING \<and> sc_current_thread s = Some t
     then Some (set_stat t (sched_suspend_code f) (sched_remove_thread t s)) else None)"

text \<open>\<open>reset\<close> is rt_sched_thread_reset_priority, otherwise rt_sched_thread_change_priority.\<close>

definition sched_update_priority :: "tid \<Rightarrow> byte \<Rightarrow> bool \<Rightarrow> sched \<Rightarrow> sched option" where
  "sched_update_priority t p reset s =
    (if p < 32
     then
      (let newprio = (\<lambda>th. th\<lparr>sc_init_priority := (if reset then p else sc_init_priority th),
             sc_current_priority := p, number_mask := push_bit (unat p) 1\<rparr>)
       in if sched_stat s t = STAT_READY
          then Some (sched_insert_thread t (upd_sched t (\<lambda>th. (newprio th)\<lparr>sc_stat := STAT_INIT\<rparr>)
                 (sched_remove_thread t s)))
          else Some (upd_sched t newprio s))
     else None)"

text \<open>The scheduler's part of rt_thread_close.\<close>

definition rt_thread_close :: "tid \<Rightarrow> sched \<Rightarrow> sched option" where
  "rt_thread_close t s =
    (if sc_current_thread s \<noteq> Some t \<or> rt_scheduler_lock_nest s \<noteq> 0
     then if sched_stat s t \<noteq> STAT_CLOSE
      then Some (upd_sched t (\<lambda>th. th\<lparr>sc_stat := STAT_CLOSE\<rparr>)
             (if sched_stat s t \<noteq> STAT_INIT then sched_remove_thread t s else s))
      else Some s
     else None)"

end
