(* ===== verification/Sched_Order.thy ===== *)
theory Sched_Order
  imports Sched_Up
begin

text \<open>
  The order of the ready queues (\<open>queues_wf\<close>) and of the running thread (\<open>run_wf\<close>), kept by
  every scheduler operation; rt_schedule picks the most urgent ready thread.
\<close>

section \<open>The status byte\<close>

lemma stat_consts:
  "RT_THREAD_STAT_MASK = mask 3" "RT_THREAD_STAT_YIELD = push_bit 3 1" "RT_THREAD_SUSPEND_MASK = push_bit 2 1"
  by (simp_all add: RT_THREAD_STAT_MASK_def RT_THREAD_STAT_YIELD_def RT_THREAD_SUSPEND_MASK_def
      mask_eq_exp_minus_1 push_bit_eq_mult)

definition is_code :: "byte \<Rightarrow> bool" where
  "is_code x \<longleftrightarrow> x AND mask 3 = x"

lemma is_code_simps [simp]:
  "is_code STAT_INIT" "is_code STAT_CLOSE" "is_code STAT_READY" "is_code STAT_RUNNING"
  "is_code RT_THREAD_SUSPEND_MASK" "is_code (sched_suspend_code f)"
  by (simp_all add: is_code_def STAT_INIT_def STAT_CLOSE_def STAT_READY_def STAT_RUNNING_def
      RT_THREAD_SUSPEND_MASK_def mask_eq_exp_minus_1) (cases f; simp add: sched_suspend_code_def)

lemma bit_code: "is_code x \<Longrightarrow> bit x n \<Longrightarrow> n < 3"
  unfolding is_code_def by (metis bit_and_iff bit_mask_iff)

lemma bit_yield: "bit RT_THREAD_STAT_YIELD n \<longleftrightarrow> n = 3"
  using bit_exp_iff [of 3 n, where 'a = byte] by (auto simp: RT_THREAD_STAT_YIELD_def)

lemma code_or_mask:
  assumes "is_code x"
  shows "(x OR (b AND NOT RT_THREAD_STAT_MASK)) AND RT_THREAD_STAT_MASK = x"
    "(x OR (b AND NOT RT_THREAD_STAT_MASK)) AND RT_THREAD_STAT_YIELD = b AND RT_THREAD_STAT_YIELD"
  unfolding stat_consts(1)
  by (rule bit_word_eqI; auto simp: bit_simps bit_yield dest: bit_code [OF assms])+

lemma upd_sched_simps [simp]:
  "sc_threads (upd_sched t f s) u = (if u = t then f (sc_threads s t) else sc_threads s u)"
  "sc_current_thread (upd_sched t f s) = sc_current_thread s"
  "rt_thread_priority_table (upd_sched t f s) = rt_thread_priority_table s"
  "rt_thread_ready_priority_group (upd_sched t f s) = rt_thread_ready_priority_group s"
  "rt_scheduler_lock_nest (upd_sched t f s) = rt_scheduler_lock_nest s"
  "critical_switch_flag (upd_sched t f s) = critical_switch_flag s"
  by (simp_all add: upd_sched_def)

lemma set_stat_simps [simp]:
  "sc_prio (set_stat t x s) u = sc_prio s u" "number_mask (sc_threads (set_stat t x s) u) = number_mask (sc_threads s u)"
  "sc_init_priority (sc_threads (set_stat t x s) u) = sc_init_priority (sc_threads s u)"
  "sc_init_tick (sc_threads (set_stat t x s) u) = sc_init_tick (sc_threads s u)"
  "remaining_tick (sc_threads (set_stat t x s) u) = remaining_tick (sc_threads s u)"
  "sc_current_thread (set_stat t x s) = sc_current_thread s"
  "rt_thread_priority_table (set_stat t x s) = rt_thread_priority_table s"
  "rt_thread_ready_priority_group (set_stat t x s) = rt_thread_ready_priority_group s"
  "rt_scheduler_lock_nest (set_stat t x s) = rt_scheduler_lock_nest s"
  "critical_switch_flag (set_stat t x s) = critical_switch_flag s"
  by (simp_all add: set_stat_def)

lemma stat_set_stat [simp]:
  "is_code x \<Longrightarrow> sched_stat (set_stat t x s) u = (if u = t then x else sched_stat s u)"
  "is_code x \<Longrightarrow> yielding (set_stat t x s) u = yielding s u"
  by (simp_all add: sched_stat_def yielding_def set_stat_def code_or_mask)

lemma remove_simps [simp]:
  "sc_threads (sched_remove_thread t s) = sc_threads s"
  "sc_current_thread (sched_remove_thread t s) = sc_current_thread s"
  "rt_thread_priority_table (sched_remove_thread t s) p = remove1 t (rt_thread_priority_table s p)"
  "rt_scheduler_lock_nest (sched_remove_thread t s) = rt_scheduler_lock_nest s"
  "critical_switch_flag (sched_remove_thread t s) = critical_switch_flag s"
  "sched_stat (sched_remove_thread t s) u = sched_stat s u" "yielding (sched_remove_thread t s) u = yielding s u"
  by (simp_all add: sched_remove_thread_def Let_def sched_stat_def yielding_def)

lemma queues_upd_simps [simp]:
  "yielding (s\<lparr>rt_thread_priority_table := a, rt_thread_ready_priority_group := b\<rparr>) u = yielding s u"
  "sched_stat (s\<lparr>rt_thread_priority_table := a, rt_thread_ready_priority_group := b\<rparr>) u = sched_stat s u"
  by (simp_all add: yielding_def sched_stat_def)

lemma insert_simps [simp]:
  "sc_prio (sched_insert_thread t s) u = sc_prio s u"
  "number_mask (sc_threads (sched_insert_thread t s) u) = number_mask (sc_threads s u)"
  "sc_init_priority (sc_threads (sched_insert_thread t s) u) = sc_init_priority (sc_threads s u)"
  "sc_init_tick (sc_threads (sched_insert_thread t s) u) = sc_init_tick (sc_threads s u)"
  "remaining_tick (sc_threads (sched_insert_thread t s) u) = remaining_tick (sc_threads s u)"
  "sc_current_thread (sched_insert_thread t s) = sc_current_thread s"
  "rt_scheduler_lock_nest (sched_insert_thread t s) = rt_scheduler_lock_nest s"
  "critical_switch_flag (sched_insert_thread t s) = critical_switch_flag s"
  "yielding (sched_insert_thread t s) u = yielding s u"
  by (simp_all add: sched_insert_thread_def Let_def)

lemma stat_insert [simp]:
  "sched_stat (sched_insert_thread t s) u =
    (if u = t then if sc_current_thread s = Some t then STAT_RUNNING else STAT_READY else sched_stat s u)"
  by (simp add: sched_insert_thread_def Let_def)

section \<open>The invariant\<close>

text \<open>The threads of \<open>X\<close> are off the queues whatever their status says.\<close>

definition queues_wf :: "tid set \<Rightarrow> sched \<Rightarrow> bool" where
  "queues_wf X s \<longleftrightarrow>
    (\<forall>p. distinct (rt_thread_priority_table s p)) \<and>
    (\<forall>p t. t \<in> set (rt_thread_priority_table s p) \<longleftrightarrow> t \<notin> X \<and> sched_stat s t = STAT_READY \<and> unat (sc_prio s t) = p) \<and>
    (\<forall>t. sc_prio s t < 32) \<and>
    (\<forall>t. number_mask (sc_threads s t) = push_bit (unat (sc_prio s t)) 1 \<or>
       number_mask (sc_threads s t) = 0 \<and> (sched_stat s t = STAT_INIT \<or> sched_stat s t = STAT_CLOSE)) \<and>
    (\<forall>p<32. bit (rt_thread_ready_priority_group s) p \<longleftrightarrow> rt_thread_priority_table s p \<noteq> [])"

definition run_wf :: "sched \<Rightarrow> bool" where
  "run_wf s \<longleftrightarrow>
    (\<forall>t. sched_stat s t = STAT_RUNNING \<longrightarrow> sc_current_thread s = Some t) \<and>
    (\<forall>t. sc_current_thread s = Some t \<longrightarrow> sched_stat s t \<noteq> STAT_READY \<and> sched_stat s t \<noteq> STAT_INIT)"

lemma queues_wfD:
  assumes "queues_wf X s"
  shows "distinct (rt_thread_priority_table s p)"
    "t \<in> set (rt_thread_priority_table s p) \<longleftrightarrow> t \<notin> X \<and> sched_stat s t = STAT_READY \<and> unat (sc_prio s t) = p"
    "sc_prio s t < 32"
    "number_mask (sc_threads s t) = push_bit (unat (sc_prio s t)) 1 \<or>
       number_mask (sc_threads s t) = 0 \<and> (sched_stat s t = STAT_INIT \<or> sched_stat s t = STAT_CLOSE)"
    "p < 32 \<Longrightarrow> bit (rt_thread_ready_priority_group s) p \<longleftrightarrow> rt_thread_priority_table s p \<noteq> []"
  using assms unfolding queues_wf_def by blast+

lemma queues_wfI:
  assumes "\<And>p. distinct (rt_thread_priority_table s p)"
    "\<And>p t. t \<in> set (rt_thread_priority_table s p) \<longleftrightarrow> t \<notin> X \<and> sched_stat s t = STAT_READY \<and> unat (sc_prio s t) = p"
    "\<And>t. sc_prio s t < 32"
    "\<And>t. number_mask (sc_threads s t) = push_bit (unat (sc_prio s t)) 1 \<or>
       number_mask (sc_threads s t) = 0 \<and> (sched_stat s t = STAT_INIT \<or> sched_stat s t = STAT_CLOSE)"
    "\<And>p. p < 32 \<Longrightarrow> bit (rt_thread_ready_priority_group s) p \<longleftrightarrow> rt_thread_priority_table s p \<noteq> []"
  shows "queues_wf X s"
  using assms unfolding queues_wf_def by blast

lemma prio_lt32: "queues_wf X s \<Longrightarrow> unat (sc_prio s t) < 32"
  using queues_wfD(3) [of X s t] by (simp add: word_less_nat_alt)

lemma status_distinct [simp]:
  "STAT_READY \<noteq> STAT_RUNNING" "STAT_RUNNING \<noteq> STAT_READY" "STAT_READY \<noteq> STAT_INIT" "STAT_INIT \<noteq> STAT_READY"
  "STAT_READY \<noteq> STAT_CLOSE" "STAT_CLOSE \<noteq> STAT_READY" "STAT_RUNNING \<noteq> STAT_INIT" "STAT_RUNNING \<noteq> STAT_CLOSE"
  "STAT_INIT \<noteq> STAT_RUNNING" "STAT_CLOSE \<noteq> STAT_RUNNING" "STAT_INIT \<noteq> STAT_CLOSE" "STAT_CLOSE \<noteq> STAT_INIT"
  by (simp_all add: STAT_INIT_def STAT_CLOSE_def STAT_READY_def STAT_RUNNING_def)

lemma bit_prio_mask: "bit (push_bit p 1 :: u32) q \<longleftrightarrow> q = p \<and> q < 32"
  by (auto simp: bit_simps)

lemma remove_queues_wf:
  assumes wf: "queues_wf X s"
  shows "queues_wf (insert t X) (sched_remove_thread t s)"
proof (rule queues_wfI)
  let ?P = "unat (sc_prio s t)"
  let ?s = "sched_remove_thread t s"
  note d = queues_wfD [OF wf]
  show "distinct (rt_thread_priority_table ?s p)" for p using d(1) by (simp add: distinct_remove1)
  show "u \<in> set (rt_thread_priority_table ?s p) \<longleftrightarrow>
      u \<notin> insert t X \<and> sched_stat ?s u = STAT_READY \<and> unat (sc_prio ?s u) = p" for p u
    using d(1,2) by (auto simp: set_remove1_eq)
  show "bit (rt_thread_ready_priority_group ?s) p \<longleftrightarrow> rt_thread_priority_table ?s p \<noteq> []" if p: "p < 32" for p
  proof (cases "p = ?P")
    case False
    then have "t \<notin> set (rt_thread_priority_table s p)" using d(2) by simp
    then have "rt_thread_priority_table ?s p = rt_thread_priority_table s p" by (simp add: remove1_idem)
    moreover have "bit (rt_thread_ready_priority_group ?s) p = bit (rt_thread_ready_priority_group s) p"
      using d(4) [of t] False p by (auto simp: sched_remove_thread_def Let_def bit_simps)
    ultimately show ?thesis using d(5) [OF p] by simp
  next
    case True
    show ?thesis
    proof (cases "remove1 t (rt_thread_priority_table s p) = []")
      case False
      then have "rt_thread_ready_priority_group ?s = rt_thread_ready_priority_group s"
        by (simp add: sched_remove_thread_def Let_def True)
      then show ?thesis using d(5) [OF p] False by auto
    next
      case empty: True
      have g: "rt_thread_ready_priority_group ?s =
          rt_thread_ready_priority_group s AND NOT (number_mask (sc_threads s t))"
        using empty by (simp add: sched_remove_thread_def Let_def True)
      show ?thesis
      proof (cases "number_mask (sc_threads s t) = push_bit ?P 1")
        case m: True
        then show ?thesis using empty True p unfolding g by (simp add: bit_simps)
      next
        case False
        then have "number_mask (sc_threads s t) = 0" "sched_stat s t \<noteq> STAT_READY" using d(4) [of t] by auto
        then show ?thesis using empty d(5) [OF p] d(2) unfolding g by (simp add: remove1_idem)
      qed
    qed
  qed
qed (use queues_wfD(3,4) [OF wf] in simp_all)

lemma insert_queues_wf:
  assumes wf: "queues_wf X s" and t: "t \<in> X \<or> sched_stat s t \<noteq> STAT_READY" "sc_current_thread s \<noteq> Some t"
    and m: "number_mask (sc_threads s t) = push_bit (unat (sc_prio s t)) 1"
  shows "queues_wf (X - {t}) (sched_insert_thread t s)"
proof (rule queues_wfI)
  let ?P = "unat (sc_prio s t)"
  let ?s = "sched_insert_thread t s"
  note d = queues_wfD [OF wf]
  have out: "t \<notin> set (rt_thread_priority_table s p)" for p using d(2) t(1) by auto
  have table: "rt_thread_priority_table ?s p = (if p = ?P then
      (if yielding s t then rt_thread_priority_table s p @ [t] else t # rt_thread_priority_table s p)
      else rt_thread_priority_table s p)" for p
    using t(2) by (simp add: sched_insert_thread_def Let_def)
  have g: "rt_thread_ready_priority_group ?s = rt_thread_ready_priority_group s OR push_bit ?P 1"
    using t(2) by (simp add: sched_insert_thread_def Let_def m)
  show "distinct (rt_thread_priority_table ?s p)" for p using d(1) out by (simp add: table)
  show "u \<in> set (rt_thread_priority_table ?s p) \<longleftrightarrow>
      u \<notin> X - {t} \<and> sched_stat ?s u = STAT_READY \<and> unat (sc_prio ?s u) = p" for p u
    using d(2) t out by (auto simp: table)
  show "bit (rt_thread_ready_priority_group ?s) p \<longleftrightarrow> rt_thread_priority_table ?s p \<noteq> []" if "p < 32" for p
    using d(5) [OF that] that by (auto simp: g table bit_simps bit_prio_mask)
  show "number_mask (sc_threads ?s u) = push_bit (unat (sc_prio ?s u)) 1 \<or>
       number_mask (sc_threads ?s u) = 0 \<and> (sched_stat ?s u = STAT_INIT \<or> sched_stat ?s u = STAT_CLOSE)" for u
    using d(4) [of u] m by auto
qed (use queues_wfD(3) [OF wf] in simp_all)


lemma set_stat_queues_wf:
  assumes wf: "queues_wf X s" and x: "is_code x" "x \<noteq> STAT_READY"
    and t: "t \<in> X \<or> sched_stat s t \<noteq> STAT_READY"
    and m: "number_mask (sc_threads s t) = push_bit (unat (sc_prio s t)) 1 \<or> x = STAT_INIT \<or> x = STAT_CLOSE"
  shows "queues_wf (X - {t}) (set_stat t x s)"
proof (rule queues_wfI)
  note d = queues_wfD [OF wf]
  show "u \<in> set (rt_thread_priority_table (set_stat t x s) p) \<longleftrightarrow>
      u \<notin> X - {t} \<and> sched_stat (set_stat t x s) u = STAT_READY \<and> unat (sc_prio (set_stat t x s) u) = p" for p u
    using d(2) t x by auto
  show "number_mask (sc_threads (set_stat t x s) u) = push_bit (unat (sc_prio (set_stat t x s) u)) 1 \<or>
      number_mask (sc_threads (set_stat t x s) u) = 0 \<and>
      (sched_stat (set_stat t x s) u = STAT_INIT \<or> sched_stat (set_stat t x s) u = STAT_CLOSE)" for u
    using d(4) [of u] m x(1) by auto
qed (use queues_wfD [OF wf] in simp_all)

text \<open>Changes outside the queues.\<close>

lemma queues_wf_cong:
  assumes "queues_wf X s" "\<And>t. sched_stat s' t = sched_stat s t" "\<And>t. sc_prio s' t = sc_prio s t"
    "\<And>t. number_mask (sc_threads s' t) = number_mask (sc_threads s t)"
    "rt_thread_priority_table s' = rt_thread_priority_table s"
    "rt_thread_ready_priority_group s' = rt_thread_ready_priority_group s"
  shows "queues_wf X s'"
  using assms(1) unfolding queues_wf_def assms(2-) .

lemma clear_yield_stat:
  "(b AND NOT RT_THREAD_STAT_YIELD) AND RT_THREAD_STAT_MASK = b AND RT_THREAD_STAT_MASK"
  "(b AND NOT RT_THREAD_STAT_YIELD) AND RT_THREAD_STAT_YIELD = 0"
  "(b OR RT_THREAD_STAT_YIELD) AND RT_THREAD_STAT_MASK = b AND RT_THREAD_STAT_MASK"
  "(b OR RT_THREAD_STAT_YIELD) AND RT_THREAD_STAT_YIELD = RT_THREAD_STAT_YIELD"
  unfolding stat_consts(1)
  by (rule bit_word_eqI; auto simp: bit_simps bit_yield)+

section \<open>Choosing the next thread\<close>

lemma highest_total:
  assumes wf: "queues_wf {} s" and g: "rt_thread_ready_priority_group s \<noteq> 0"
  obtains t p q where "highest_priority_thread s = Some (t, p)" "p < 32" "rt_thread_priority_table s p = t # q"
    "sched_stat s t = STAT_READY" "unat (sc_prio s t) = p" "\<forall>u. sched_stat s u = STAT_READY \<longrightarrow> p \<le> unat (sc_prio s u)"
proof -
  note d = queues_wfD [OF wf]
  obtain p where p: "lowest_set (rt_thread_ready_priority_group s) p" "rt_ffs (rt_thread_ready_priority_group s) = int p + 1"
    using rt_ffs_lowest [OF g] by blast
  have lt: "p < 32" using p(1) bit_imp_le_length by (fastforce simp: lowest_set_def)
  then obtain t q where tq: "rt_thread_priority_table s p = t # q"
    using d(5) [OF lt] p(1) by (cases "rt_thread_priority_table s p") (auto simp: lowest_set_def)
  have t: "sched_stat s t = STAT_READY" "unat (sc_prio s t) = p" using d(2) [of t p] tq by simp_all
  have "p \<le> unat (sc_prio s u)" if "sched_stat s u = STAT_READY" for u
  proof (rule ccontr)
    assume "\<not> p \<le> unat (sc_prio s u)"
    then have "\<not> bit (rt_thread_ready_priority_group s) (unat (sc_prio s u))"
      using p(1) by (simp add: lowest_set_def)
    then have "rt_thread_priority_table s (unat (sc_prio s u)) = []"
      using d(5) prio_lt32 [OF wf] by blast
    then show False using d(2) [of u "unat (sc_prio s u)"] that by simp
  qed
  then show ?thesis using that [OF _ lt tq t] p(2) tq by (simp add: highest_priority_thread_def)
qed

lemma no_ready:
  assumes "queues_wf {} s" "rt_thread_ready_priority_group s = 0"
  shows "sched_stat s t \<noteq> STAT_READY"
  using queues_wfD(5) [OF assms(1) prio_lt32 [OF assms(1), of t]] assms(2)
    queues_wfD(2) [OF assms(1), of t "unat (sc_prio s t)"] by auto

section \<open>The switch\<close>

text \<open>The branch of rt_schedule that changes the current thread.\<close>

definition sched_switch :: "nat \<Rightarrow> tid \<Rightarrow> tid \<Rightarrow> sched \<Rightarrow> sched" where
  "sched_switch p c t s =
    (let s1 = s\<lparr>rt_current_priority := of_nat p, sc_current_thread := Some t\<rparr>;
         s2 = (if sched_stat s c = STAT_RUNNING then sched_insert_thread c s1 else s1);
         s3 = (if yielding s2 c
               then upd_sched c (\<lambda>th. th\<lparr>sc_stat := sc_stat th AND NOT RT_THREAD_STAT_YIELD\<rparr>) s2 else s2)
     in set_stat t STAT_RUNNING (sched_remove_thread t s3))"

lemma schedule_eq:
  assumes "rt_scheduler_lock_nest s = 0" "rt_thread_ready_priority_group s \<noteq> 0"
    "highest_priority_thread s = Some (t, p)" "sc_current_thread s = Some c" "t \<noteq> c"
  shows "rt_schedule s = Some
    (if sched_stat s c = STAT_RUNNING \<and> (unat (sc_prio s c) < p \<or> unat (sc_prio s c) = p \<and> \<not> yielding s c)
     then set_stat c STAT_RUNNING (sched_remove_thread c s) else sched_switch p c t s)"
proof -
  let ?stay = "sched_stat s c = STAT_RUNNING \<and> (unat (sc_prio s c) < p \<or> unat (sc_prio s c) = p \<and> \<not> yielding s c)"
  have "rt_schedule s = (let to = (if ?stay then c else t) in if to \<noteq> c then Some (sched_switch p c to s)
      else Some (set_stat c STAT_RUNNING (sched_remove_thread c s)))"
    unfolding rt_schedule_def sched_switch_def Let_def assms(3,4) option.case prod.case
    by (simp only: assms(1,2) simp_thms if_True)
  moreover define b where "b = ?stay"
  ultimately show ?thesis using assms(5) unfolding Let_def b_def [symmetric] by (cases b) simp_all
qed

lemma switch_facts:
  assumes wf: "queues_wf {} s" and t: "sched_stat s t = STAT_READY" "t \<noteq> c" and c: "sched_stat s c \<noteq> STAT_READY"
  assumes s'_def: "s' = sched_switch p c t s"
  shows "queues_wf {} s'" "sc_current_thread s' = Some t"
    "sched_stat s' u = (if u = t then STAT_RUNNING else if u = c \<and> sched_stat s c = STAT_RUNNING then STAT_READY else sched_stat s u)"
    "sc_prio s' u = sc_prio s u" "yielding s' u = (yielding s u \<and> u \<noteq> c)"
    "rt_thread_priority_table s' q = remove1 t
      (if sched_stat s c = STAT_RUNNING \<and> q = unat (sc_prio s c)
       then (if yielding s c then rt_thread_priority_table s q @ [c] else c # rt_thread_priority_table s q)
       else rt_thread_priority_table s q)"
    "rt_scheduler_lock_nest s' = rt_scheduler_lock_nest s" "critical_switch_flag s' = critical_switch_flag s"
    "sc_init_tick (sc_threads s' u) = sc_init_tick (sc_threads s u)"
    "remaining_tick (sc_threads s' u) = remaining_tick (sc_threads s u)"
proof -
  define s1 where "s1 = s\<lparr>rt_current_priority := of_nat p, sc_current_thread := Some t\<rparr>"
  define s2 where "s2 = (if sched_stat s c = STAT_RUNNING then sched_insert_thread c s1 else s1)"
  define s3 where "s3 = (if yielding s2 c
    then upd_sched c (\<lambda>th. th\<lparr>sc_stat := sc_stat th AND NOT RT_THREAD_STAT_YIELD\<rparr>) s2 else s2)"
  have s': "s' = set_stat t STAT_RUNNING (sched_remove_thread t s3)"
    by (simp add: s'_def sched_switch_def Let_def s1_def s2_def s3_def)
  have f1: "sched_stat s1 u = sched_stat s u" "yielding s1 u = yielding s u" "sc_threads s1 = sc_threads s"
    "rt_thread_priority_table s1 = rt_thread_priority_table s" "sc_current_thread s1 = Some t"
    "rt_scheduler_lock_nest s1 = rt_scheduler_lock_nest s" "critical_switch_flag s1 = critical_switch_flag s" for u
    by (simp_all add: s1_def sched_stat_def yielding_def)
  have wf1: "queues_wf {} s1" by (rule queues_wf_cong [OF wf]) (simp add: f1 | simp add: s1_def)+
  have mc: "sched_stat s c = STAT_RUNNING \<Longrightarrow> number_mask (sc_threads s1 c) = push_bit (unat (sc_prio s1 c)) 1"
    using queues_wfD(4) [OF wf, of c] by (auto simp: f1)
  have wf2: "queues_wf {} s2"
    unfolding s2_def using insert_queues_wf [OF wf1, of c] mc t(2) wf1 by (auto simp: f1)
  have f2: "sched_stat s2 u = (if u = c \<and> sched_stat s c = STAT_RUNNING then STAT_READY else sched_stat s u)"
    "yielding s2 u = yielding s u" "sc_prio s2 u = sc_prio s u" "sc_current_thread s2 = Some t"
    "rt_scheduler_lock_nest s2 = rt_scheduler_lock_nest s" "critical_switch_flag s2 = critical_switch_flag s"
    "sc_init_tick (sc_threads s2 u) = sc_init_tick (sc_threads s u)"
    "remaining_tick (sc_threads s2 u) = remaining_tick (sc_threads s u)" for u
    using t(2) by (simp_all add: s2_def f1)
  have table: "rt_thread_priority_table s2 q = (if sched_stat s c = STAT_RUNNING \<and> q = unat (sc_prio s c)
       then (if yielding s c then rt_thread_priority_table s q @ [c] else c # rt_thread_priority_table s q)
       else rt_thread_priority_table s q)" for q
    using t(2) by (simp add: s2_def sched_insert_thread_def Let_def f1)
  have f3: "sched_stat s3 u = sched_stat s2 u" "yielding s3 u = (yielding s2 u \<and> u \<noteq> c)" "sc_prio s3 u = sc_prio s2 u"
    "sc_current_thread s3 = sc_current_thread s2" "rt_thread_priority_table s3 = rt_thread_priority_table s2"
    "rt_scheduler_lock_nest s3 = rt_scheduler_lock_nest s2" "critical_switch_flag s3 = critical_switch_flag s2"
    "sc_init_tick (sc_threads s3 u) = sc_init_tick (sc_threads s2 u)"
    "remaining_tick (sc_threads s3 u) = remaining_tick (sc_threads s2 u)"
    "number_mask (sc_threads s3 u) = number_mask (sc_threads s2 u)"
    "rt_thread_ready_priority_group s3 = rt_thread_ready_priority_group s2" for u
    by (auto simp: s3_def sched_stat_def yielding_def clear_yield_stat)
  have wf3: "queues_wf {} s3" by (rule queues_wf_cong [OF wf2]) (simp_all add: f3)
  have st: "sched_stat s3 t = STAT_READY" using t by (simp add: f3 f2)
  have "number_mask (sc_threads s3 t) = push_bit (unat (sc_prio s3 t)) 1"
    using queues_wfD(4) [OF wf3, of t] st by auto
  then have "queues_wf ({t} - {t}) s'"
    unfolding s' by (intro set_stat_queues_wf remove_queues_wf wf3) simp_all
  then show "queues_wf {} s'" by simp
  show "sc_current_thread s' = Some t"
    "sched_stat s' u = (if u = t then STAT_RUNNING else if u = c \<and> sched_stat s c = STAT_RUNNING then STAT_READY else sched_stat s u)"
    "sc_prio s' u = sc_prio s u" "yielding s' u = (yielding s u \<and> u \<noteq> c)"
    "rt_scheduler_lock_nest s' = rt_scheduler_lock_nest s" "critical_switch_flag s' = critical_switch_flag s"
    "sc_init_tick (sc_threads s' u) = sc_init_tick (sc_threads s u)"
    "remaining_tick (sc_threads s' u) = remaining_tick (sc_threads s u)"
    by (simp_all add: s' f2 f3)
  show "rt_thread_priority_table s' q = remove1 t
      (if sched_stat s c = STAT_RUNNING \<and> q = unat (sc_prio s c)
       then (if yielding s c then rt_thread_priority_table s q @ [c] else c # rt_thread_priority_table s q)
       else rt_thread_priority_table s q)"
    by (simp add: s' f3 table)
qed

section \<open>rt_schedule\<close>

definition sched_wf :: "sched \<Rightarrow> bool" where
  "sched_wf s \<longleftrightarrow> queues_wf {} s \<and> run_wf s"

text \<open>The running thread is at least as urgent as every ready one.\<close>

definition most_urgent :: "sched \<Rightarrow> bool" where
  "most_urgent s \<longleftrightarrow> (\<exists>c. sc_current_thread s = Some c \<and> sched_stat s c = STAT_RUNNING \<and>
    (\<forall>u. sched_stat s u = STAT_READY \<longrightarrow> sc_prio s c \<le> sc_prio s u))"

lemma run_wfD:
  assumes "run_wf s"
  shows "sched_stat s t = STAT_RUNNING \<Longrightarrow> sc_current_thread s = Some t"
    "sc_current_thread s = Some t \<Longrightarrow> sched_stat s t \<noteq> STAT_READY \<and> sched_stat s t \<noteq> STAT_INIT"
  using assms unfolding run_wf_def by blast+

lemma schedule_total:
  assumes wf: "sched_wf s" and c: "sc_current_thread s = Some c"
  obtains s' where "rt_schedule s = Some s'" "sched_wf s'" "sc_current_thread s' \<noteq> None"
    "rt_scheduler_lock_nest s' = rt_scheduler_lock_nest s"
    "rt_scheduler_lock_nest s = 0 \<and> (rt_thread_ready_priority_group s \<noteq> 0 \<or> sched_stat s c = STAT_RUNNING) \<longrightarrow> most_urgent s'"
    "rt_scheduler_lock_nest s \<noteq> 0 \<longrightarrow> sc_current_thread s' = Some c"
proof -
  have q: "queues_wf {} s" and r: "run_wf s" using wf by (simp_all add: sched_wf_def)
  have cs: "sched_stat s c \<noteq> STAT_READY" "sched_stat s c \<noteq> STAT_INIT" using run_wfD(2) [OF r c] by simp_all
  consider (locked) "rt_scheduler_lock_nest s \<noteq> 0"
    | (idle) "rt_scheduler_lock_nest s = 0" "rt_thread_ready_priority_group s = 0"
    | (pick) "rt_scheduler_lock_nest s = 0" "rt_thread_ready_priority_group s \<noteq> 0" by blast
  then show ?thesis
  proof cases
    case locked
    let ?s = "s\<lparr>critical_switch_flag := True\<rparr>"
    have "queues_wf {} ?s" by (rule queues_wf_cong [OF q]) (simp_all add: sched_stat_def)
    moreover have "run_wf ?s" using r by (simp add: run_wf_def sched_stat_def)
    ultimately show ?thesis
      using locked c by (intro that [of ?s]) (simp_all add: rt_schedule_def sched_wf_def)
  next
    case idle
    have "most_urgent s" if "sched_stat s c = STAT_RUNNING"
      using that c no_ready [OF q idle(2)] by (simp add: most_urgent_def)
    then show ?thesis using idle c wf by (intro that [of s]) (simp_all add: rt_schedule_def)
  next
    case pick
    obtain t p w where t: "highest_priority_thread s = Some (t, p)" "p < 32" "rt_thread_priority_table s p = t # w"
      "sched_stat s t = STAT_READY" "unat (sc_prio s t) = p" "\<forall>u. sched_stat s u = STAT_READY \<longrightarrow> p \<le> unat (sc_prio s u)"
      by (rule highest_total [OF q pick(2)])
    have tc: "t \<noteq> c" using t(4) cs by auto
    note eq = schedule_eq [OF pick t(1) c tc]
    show ?thesis
    proof (cases "sched_stat s c = STAT_RUNNING \<and> (unat (sc_prio s c) < p \<or> unat (sc_prio s c) = p \<and> \<not> yielding s c)")
      case True
      let ?s = "set_stat c STAT_RUNNING (sched_remove_thread c s)"
      have "number_mask (sc_threads (sched_remove_thread c s) c) = push_bit (unat (sc_prio (sched_remove_thread c s) c)) 1"
        using queues_wfD(4) [OF q, of c] True by auto
      then have "queues_wf (insert c {} - {c}) ?s"
        by (intro set_stat_queues_wf remove_queues_wf q) simp_all
      moreover have st: "sched_stat ?s u = sched_stat s u" for u using True by simp
      have "run_wf ?s" using r unfolding run_wf_def st by simp
      moreover have "sc_prio s c \<le> sc_prio s u" if "sched_stat s u = STAT_READY" for u
      proof -
        have "unat (sc_prio s c) \<le> p" using True by auto
        then show ?thesis using t(6) that by (simp add: word_le_nat_alt) (meson le_trans)
      qed
      then have "most_urgent ?s" using True c unfolding most_urgent_def st by simp
      ultimately show ?thesis
        using eq True c pick by (intro that [of ?s]) (simp_all add: sched_wf_def)
    next
      case False
      let ?s = "sched_switch p c t s"
      note f = switch_facts [OF q t(4) tc cs(1) refl, of p]
      have "run_wf ?s" using run_wfD(1) [OF r] c tc by (auto simp: run_wf_def f split: if_splits)
      moreover have "most_urgent ?s"
      proof -
        have "sc_prio s t \<le> sc_prio s u" if "sched_stat ?s u = STAT_READY" for u
        proof (cases "u = c \<and> sched_stat s c = STAT_RUNNING")
          case True
          then show ?thesis using False t(5) by (auto simp: word_le_nat_alt)
        next
          case no: False
          then have "sched_stat s u = STAT_READY" using that by (auto simp: f split: if_splits)
          then show ?thesis using t(5,6) by (simp add: word_le_nat_alt)
        qed
        then show ?thesis by (simp add: most_urgent_def f)
      qed
      ultimately show ?thesis
        using eq False f(1) pick by (intro that [of ?s]) (auto simp: sched_wf_def f)
    qed
  qed
qed

section \<open>Every operation keeps the order\<close>

text \<open>A change that leaves status, priority, queues and the current thread alone.\<close>

lemma sched_wf_cong:
  assumes "sched_wf s" "\<And>t. sched_stat s' t = sched_stat s t" "\<And>t. sc_prio s' t = sc_prio s t"
    "\<And>t. number_mask (sc_threads s' t) = number_mask (sc_threads s t)"
    "rt_thread_priority_table s' = rt_thread_priority_table s"
    "rt_thread_ready_priority_group s' = rt_thread_ready_priority_group s"
    "sc_current_thread s' = sc_current_thread s"
  shows "sched_wf s'"
  using queues_wf_cong [of "{}" s s'] assms by (simp add: sched_wf_def run_wf_def)

lemma yield_nonzero: "RT_THREAD_STAT_YIELD \<noteq> 0"
  by (simp add: RT_THREAD_STAT_YIELD_def)

lemma yield_simps [simp]:
  "sched_stat (sched_thread_yield t s) u = sched_stat s u"
  "yielding (sched_thread_yield t s) u = (yielding s u \<or> u = t)"
  "sc_prio (sched_thread_yield t s) u = sc_prio s u"
  "number_mask (sc_threads (sched_thread_yield t s) u) = number_mask (sc_threads s u)"
  "rt_thread_priority_table (sched_thread_yield t s) = rt_thread_priority_table s"
  "rt_thread_ready_priority_group (sched_thread_yield t s) = rt_thread_ready_priority_group s"
  "sc_current_thread (sched_thread_yield t s) = sc_current_thread s"
  "rt_scheduler_lock_nest (sched_thread_yield t s) = rt_scheduler_lock_nest s"
  by (auto simp: sched_thread_yield_def sched_stat_def yielding_def clear_yield_stat yield_nonzero)

lemma yield_wf: "sched_wf s \<Longrightarrow> sched_wf (sched_thread_yield t s)"
  by (rule sched_wf_cong) simp_all

lemma unlock_total:
  assumes "sched_wf s"
  obtains s' where "unlock_n_resched s = Some s'" "sched_wf s'"
proof (cases "sc_current_thread s")
  case None
  then show ?thesis using assms that by (simp add: unlock_n_resched_def)
next
  case (Some c)
  from schedule_total [OF assms Some] obtain s' where "rt_schedule s = Some s'" "sched_wf s'" by blast
  then show ?thesis using Some that by (simp add: unlock_n_resched_def)
qed

lemma tick_total:
  assumes wf: "sched_wf s" and c: "sc_current_thread s = Some c"
  obtains s' where "rt_sched_tick_increase n s = Some s'" "sched_wf s'"
proof -
  define s1 where "s1 = upd_sched c (\<lambda>th. th\<lparr>remaining_tick := if remaining_tick (sc_threads s c) > n
    then remaining_tick (sc_threads s c) - n else 0\<rparr>) s"
  have wf1: "sched_wf s1" by (rule sched_wf_cong [OF wf]) (simp_all add: s1_def sched_stat_def)
  obtain s2 where s2: "unlock_n_resched (sched_thread_yield c s1) = Some s2" "sched_wf s2"
    by (rule unlock_total [OF yield_wf [OF wf1]])
  have "rt_sched_tick_increase n s = (if remaining_tick (sc_threads s1 c) \<noteq> 0 then Some s1
      else unlock_n_resched (sched_thread_yield c s1))"
    by (simp add: rt_sched_tick_increase_def c s1_def Let_def)
  then show ?thesis using s2 wf1 that by (cases "remaining_tick (sc_threads s1 c) \<noteq> 0") simp_all
qed

lemma thread_yield_total:
  assumes "sched_wf s" "sc_current_thread s = Some c"
  obtains s' where "rt_thread_yield s = Some s'" "sched_wf s'"
  by (rule unlock_total [OF yield_wf [OF assms(1), of c]]) (use assms(2) that in \<open>simp add: rt_thread_yield_def\<close>)

lemma suspended_stat:
  assumes "sc_stat (sc_threads s t) AND RT_THREAD_SUSPEND_MASK = RT_THREAD_SUSPEND_MASK"
  shows "sched_stat s t \<noteq> STAT_INIT" "sched_stat s t \<noteq> STAT_CLOSE" "sched_stat s t \<noteq> STAT_READY" "sched_stat s t \<noteq> STAT_RUNNING"
proof -
  have "RT_THREAD_SUSPEND_MASK = RT_THREAD_STAT_MASK AND RT_THREAD_SUSPEND_MASK"
    by (simp add: RT_THREAD_SUSPEND_MASK_def RT_THREAD_STAT_MASK_def)
  then have "sched_stat s t AND RT_THREAD_SUSPEND_MASK = RT_THREAD_SUSPEND_MASK"
    unfolding sched_stat_def using assms by (metis and.assoc)
  moreover have "STAT_INIT AND RT_THREAD_SUSPEND_MASK \<noteq> RT_THREAD_SUSPEND_MASK" "STAT_CLOSE AND RT_THREAD_SUSPEND_MASK \<noteq> RT_THREAD_SUSPEND_MASK"
    "STAT_READY AND RT_THREAD_SUSPEND_MASK \<noteq> RT_THREAD_SUSPEND_MASK" "STAT_RUNNING AND RT_THREAD_SUSPEND_MASK \<noteq> RT_THREAD_SUSPEND_MASK"
    by (simp_all add: STAT_INIT_def STAT_CLOSE_def STAT_READY_def STAT_RUNNING_def RT_THREAD_SUSPEND_MASK_def)
  ultimately show "sched_stat s t \<noteq> STAT_INIT" "sched_stat s t \<noteq> STAT_CLOSE" "sched_stat s t \<noteq> STAT_READY" "sched_stat s t \<noteq> STAT_RUNNING"
    by auto
qed

lemma sched_wfD:
  assumes "sched_wf s"
  shows "queues_wf {} s" "run_wf s"
  using assms by (simp_all add: sched_wf_def)

lemma wf_mask:
  "sched_wf s \<Longrightarrow> sched_stat s t \<noteq> STAT_INIT \<Longrightarrow> sched_stat s t \<noteq> STAT_CLOSE \<Longrightarrow>
    number_mask (sc_threads s t) = push_bit (unat (sc_prio s t)) 1"
  using queues_wfD(4) [OF sched_wfD(1), of s t] by blast

lemma resume_wf:
  assumes wf: "sched_wf s" and r: "sched_thread_resume t s = Some s'"
  shows "sched_wf s'"
proof -
  have susp: "sc_stat (sc_threads s t) AND RT_THREAD_SUSPEND_MASK = RT_THREAD_SUSPEND_MASK"
    and s': "s' = sched_insert_thread t s" using r by (auto simp: sched_thread_resume_def split: if_splits)
  note st = suspended_stat [OF susp]
  have m: "number_mask (sc_threads s t) = push_bit (unat (sc_prio s t)) 1" by (rule wf_mask [OF wf st(1,2)])
  show ?thesis
  proof (cases "sc_current_thread s = Some t")
    case True
    have "queues_wf ({} - {t}) (set_stat t STAT_RUNNING s)"
      by (rule set_stat_queues_wf [OF sched_wfD(1) [OF wf]]) (use st m in simp_all)
    moreover have "run_wf (set_stat t STAT_RUNNING s)"
      using sched_wfD(2) [OF wf] True by (simp add: run_wf_def)
    ultimately show ?thesis using True by (simp add: s' sched_insert_thread_def sched_wf_def)
  next
    case False
    have "queues_wf ({} - {t}) s'"
      unfolding s' by (rule insert_queues_wf [OF sched_wfD(1) [OF wf]]) (use st m False in simp_all)
    moreover have "run_wf s'" using sched_wfD(2) [OF wf] False by (auto simp: s' run_wf_def)
    ultimately show ?thesis by (simp add: sched_wf_def)
  qed
qed

lemma suspend_wf:
  assumes wf: "sched_wf s" and r: "sched_thread_suspend t f s = Some s'"
  shows "sched_wf s'"
proof -
  have st: "sched_stat s t = STAT_READY \<or> sched_stat s t = STAT_RUNNING"
    and s': "s' = set_stat t (sched_suspend_code f) (sched_remove_thread t s)"
    using r by (auto simp: sched_thread_suspend_def split: if_splits)
  have m: "number_mask (sc_threads s t) = push_bit (unat (sc_prio s t)) 1" by (rule wf_mask [OF wf]) (use st in auto)
  have code: "sched_suspend_code f \<noteq> STAT_READY" "sched_suspend_code f \<noteq> STAT_RUNNING" "sched_suspend_code f \<noteq> STAT_INIT"
    by (cases f; simp add: sched_suspend_code_def STAT_READY_def STAT_RUNNING_def STAT_INIT_def)+
  have "queues_wf (insert t {} - {t}) s'"
    unfolding s' by (intro set_stat_queues_wf remove_queues_wf sched_wfD(1) [OF wf]) (use m code in simp_all)
  moreover have "run_wf s'" using sched_wfD(2) [OF wf] code by (auto simp: s' run_wf_def)
  ultimately show ?thesis by (simp add: sched_wf_def)
qed

lemma stat_upd: "sched_stat (upd_sched t f s) u =
    (if u = t then sc_stat (f (sc_threads s t)) AND RT_THREAD_STAT_MASK else sched_stat s u)"
  by (simp add: sched_stat_def)

lemma upd_queues_wf:
  assumes wf: "queues_wf X s"
    and t: "t \<in> X \<or> sched_stat s t \<noteq> STAT_READY \<and> sched_stat (upd_sched t f s) t \<noteq> STAT_READY"
    and p: "sc_current_priority (f (sc_threads s t)) < 32"
    and m: "number_mask (f (sc_threads s t)) = push_bit (unat (sc_current_priority (f (sc_threads s t)))) 1 \<or>
      number_mask (f (sc_threads s t)) = 0 \<and>
      (sched_stat (upd_sched t f s) t = STAT_INIT \<or> sched_stat (upd_sched t f s) t = STAT_CLOSE)"
  shows "queues_wf X (upd_sched t f s)"
proof (rule queues_wfI)
  note d = queues_wfD [OF wf]
  let ?s = "upd_sched t f s"
  have other: "sched_stat ?s u = sched_stat s u" if "u \<noteq> t" for u using that by (simp add: stat_upd)
  show "u \<in> set (rt_thread_priority_table ?s q) \<longleftrightarrow> u \<notin> X \<and> sched_stat ?s u = STAT_READY \<and> unat (sc_prio ?s u) = q" for u q
    using d(2) [of u q] t other [of u] by (cases "u = t") auto
  show "sc_prio ?s u < 32" for u using d(3) p by simp
  show "number_mask (sc_threads ?s u) = push_bit (unat (sc_prio ?s u)) 1 \<or>
      number_mask (sc_threads ?s u) = 0 \<and> (sched_stat ?s u = STAT_INIT \<or> sched_stat ?s u = STAT_CLOSE)" for u
    using d(4) [of u] m other [of u] by (cases "u = t") auto
qed (use queues_wfD(1,5) [OF wf] in simp_all)

lemma code_and_mask: "is_code x \<Longrightarrow> x AND RT_THREAD_STAT_MASK = x"
  by (simp add: is_code_def stat_consts(1))

lemma update_priority_wf:
  assumes wf: "sched_wf s" and r: "sched_update_priority t p reset s = Some s'"
  shows "sched_wf s'"
proof -
  let ?f = "\<lambda>th. th\<lparr>sc_init_priority := (if reset then p else sc_init_priority th),
    sc_current_priority := p, number_mask := push_bit (unat p) 1\<rparr>"
  have p: "p < 32" using r by (simp add: sched_update_priority_def split: if_splits)
  show ?thesis
  proof (cases "sched_stat s t = STAT_READY")
    case True
    let ?s = "upd_sched t (\<lambda>th. (?f th)\<lparr>sc_stat := STAT_INIT\<rparr>) (sched_remove_thread t s)"
    have s': "s' = sched_insert_thread t ?s" using r True p by (simp add: sched_update_priority_def Let_def)
    have nc: "sc_current_thread s \<noteq> Some t" using run_wfD(2) [OF sched_wfD(2) [OF wf]] True by blast
    have "queues_wf {t} ?s"
      by (rule upd_queues_wf [OF remove_queues_wf [OF sched_wfD(1) [OF wf]]]) (simp_all add: p)
    then have "queues_wf ({t} - {t}) s'"
      unfolding s' by (rule insert_queues_wf) (use nc in simp_all)
    moreover have "run_wf s'"
      using sched_wfD(2) [OF wf] nc by (auto simp: s' run_wf_def stat_upd)
    ultimately show ?thesis by (simp add: sched_wf_def)
  next
    case False
    have s': "s' = upd_sched t ?f s" using r False p by (simp add: sched_update_priority_def Let_def)
    have st: "sched_stat (upd_sched t ?f s) u = sched_stat s u" for u by (simp add: sched_stat_def)
    have "queues_wf {} s'"
      unfolding s' by (rule upd_queues_wf [OF sched_wfD(1) [OF wf]]) (use p False in \<open>simp_all add: sched_stat_def\<close>)
    moreover have "run_wf s'" using sched_wfD(2) [OF wf] unfolding run_wf_def s' st by simp
    ultimately show ?thesis by (simp add: sched_wf_def)
  qed
qed

lemma init_priv_wf:
  assumes wf: "sched_wf s" and t: "sc_current_thread s \<noteq> Some t" "sched_stat s t = STAT_INIT \<or> sched_stat s t = STAT_CLOSE"
    and r: "sched_thread_init_priv t tick p s = Some s'"
  shows "sched_wf s'"
proof -
  let ?f = "\<lambda>th. th\<lparr>sc_stat := STAT_INIT, sc_init_priority := p, sc_current_priority := p,
            number_mask := 0, sc_init_tick := tick, remaining_tick := tick\<rparr>"
  have p: "p < 32" and s': "s' = upd_sched t ?f s" using r by (auto simp: sched_thread_init_priv_def split: if_splits)
  have st: "sched_stat s' u = (if u = t then STAT_INIT else sched_stat s u)" for u
    by (simp add: s' stat_upd code_and_mask)
  have "queues_wf {} s'"
    unfolding s' by (rule upd_queues_wf [OF sched_wfD(1) [OF wf]]) (use t(2) p st [unfolded s'] in auto)
  moreover have "run_wf s'" using sched_wfD(2) [OF wf] t(1) unfolding run_wf_def st by (auto simp: s' split: if_splits)
  ultimately show ?thesis by (simp add: sched_wf_def)
qed

lemma startup_insert_wf:
  assumes wf: "sched_wf s" and r: "sched_stat s t = STAT_INIT"
  shows "sched_wf (sched_insert_thread t (sched_thread_startup t s))"
proof -
  let ?s = "sched_thread_startup t s"
  let ?f = "\<lambda>th. th\<lparr>number_mask := push_bit (unat (sc_current_priority th)) 1, sc_stat := RT_THREAD_SUSPEND_MASK\<rparr>"
  have e: "?s = upd_sched t ?f s" by (simp add: sched_thread_startup_def)
  have st: "sched_stat ?s u = (if u = t then RT_THREAD_SUSPEND_MASK else sched_stat s u)" for u
    by (simp add: e stat_upd code_and_mask)
  have code: "RT_THREAD_SUSPEND_MASK \<noteq> STAT_READY" "RT_THREAD_SUSPEND_MASK \<noteq> STAT_RUNNING" "RT_THREAD_SUSPEND_MASK \<noteq> STAT_INIT"
    by (simp_all add: RT_THREAD_SUSPEND_MASK_def STAT_READY_def STAT_RUNNING_def STAT_INIT_def)
  have "queues_wf {} ?s"
    unfolding e by (rule upd_queues_wf [OF sched_wfD(1) [OF wf]])
      (use st [unfolded e] code queues_wfD(3) [OF sched_wfD(1) [OF wf], of t] r in simp_all)
  moreover have "run_wf ?s"
    using sched_wfD(2) [OF wf] r code unfolding run_wf_def st by (auto simp: e split: if_splits)
  ultimately have wf1: "sched_wf ?s" by (simp add: sched_wf_def)
  have r2: "sched_thread_resume t ?s = Some (sched_insert_thread t ?s)"
    by (simp add: sched_thread_resume_def e)
  show ?thesis by (rule resume_wf [OF wf1 r2])
qed

lemma thread_startup_wf:
  assumes wf: "sched_wf s" and r: "sched_stat s t = STAT_INIT"
  obtains s' where "rt_thread_startup t s = Some s'" "sched_wf s'"
proof -
  let ?s = "sched_thread_startup t s"
  have "sched_thread_resume t ?s = Some (sched_insert_thread t ?s)"
    by (simp add: sched_thread_resume_def sched_thread_startup_def)
  moreover obtain s' where "unlock_n_resched (sched_insert_thread t ?s) = Some s'" "sched_wf s'"
    by (rule unlock_total [OF startup_insert_wf [OF wf r]])
  ultimately show ?thesis using that r by (simp add: rt_thread_startup_def)
qed

lemma close_wf:
  assumes wf: "sched_wf s" and r: "rt_thread_close t s = Some s'"
  shows "sched_wf s'"
proof (cases "sched_stat s t = STAT_CLOSE")
  case True
  then show ?thesis using r wf by (simp add: rt_thread_close_def split: if_splits)
next
  case False
  let ?f = "\<lambda>th. th\<lparr>sc_stat := STAT_CLOSE\<rparr>"
  let ?r = "if sched_stat s t \<noteq> STAT_INIT then sched_remove_thread t s else s"
  have s': "s' = upd_sched t ?f ?r" using r False by (simp add: rt_thread_close_def split: if_splits)
  have st: "sched_stat s' u = (if u = t then STAT_CLOSE else sched_stat s u)" for u
    by (simp add: s' stat_upd code_and_mask)
  have fr: "sc_threads ?r = sc_threads s" "sc_current_thread ?r = sc_current_thread s" "sched_stat ?r u = sched_stat s u" for u by simp_all
  have q: "queues_wf (if sched_stat s t \<noteq> STAT_INIT then {t} else {}) ?r"
    using remove_queues_wf [OF sched_wfD(1) [OF wf], of t] sched_wfD(1) [OF wf] by simp
  have "queues_wf (if sched_stat s t \<noteq> STAT_INIT then {t} else {}) s'"
    unfolding s' by (rule upd_queues_wf [OF q])
      (use st [of t, unfolded s'] queues_wfD(3,4) [OF q, of t] fr in \<open>auto\<close>)
  then have "queues_wf {} s'"
    using st unfolding queues_wf_def by (auto split: if_splits)
  moreover have "run_wf s'" using sched_wfD(2) [OF wf] unfolding run_wf_def st by (auto simp: s' split: if_splits)
  ultimately show ?thesis by (simp add: sched_wf_def)
qed

end
