(* ===== verification/Sched_Sys.thy ===== *)
theory Sched_Sys
  imports Sched_Order
begin

text \<open>
  The scheduler as a system: from the boot on, threads are created, started, suspended, resumed,
  closed and given new priorities, ticks pass and critical sections are entered and left, in any
  order; what holds in every state.
\<close>

section \<open>The system\<close>

inductive sched_step :: "sched \<Rightarrow> sched \<Rightarrow> bool" where
  create: "sc_current_thread s \<noteq> Some t \<Longrightarrow> sched_stat s t = STAT_INIT \<or> sched_stat s t = STAT_CLOSE \<Longrightarrow>
    sched_thread_init_priv t tick p s = Some s' \<Longrightarrow> sched_step s s'"
| startup: "rt_thread_startup t s = Some s' \<Longrightarrow> sched_step s s'"
| start: "sc_current_thread s = None \<Longrightarrow> rt_system_scheduler_start s = Some s' \<Longrightarrow> sched_step s s'"
| schedule: "rt_schedule s = Some s' \<Longrightarrow> sched_step s s'"
| tick: "rt_sched_tick_increase n s = Some s' \<Longrightarrow> sched_step s s'"
| yield: "rt_thread_yield s = Some s' \<Longrightarrow> sched_step s s'"
| suspend: "sched_thread_suspend t f s = Some s' \<Longrightarrow> sched_step s s'"
| resume: "sched_thread_resume t s = Some s' \<Longrightarrow> sched_step s s'"
| priority: "sched_update_priority t p reset s = Some s' \<Longrightarrow> sched_step s s'"
| close: "rt_thread_close t s = Some s' \<Longrightarrow> sched_step s s'"
| enter: "sched_step s (rt_enter_critical s)"
| exit: "rt_exit_critical s = Some s' \<Longrightarrow> sched_step s s'"

text \<open>Before the first thread: no thread is started, rt_system_scheduler_init has run.\<close>

definition sched_boot :: "sched \<Rightarrow> bool" where
  "sched_boot s \<longleftrightarrow> (\<exists>s0. s = rt_system_scheduler_init s0) \<and> sc_current_thread s = None \<and>
    (\<forall>t. sched_stat s t = STAT_INIT \<and> sc_prio s t < 32 \<and> number_mask (sc_threads s t) = 0)"

abbreviation sched_reach :: "sched \<Rightarrow> sched \<Rightarrow> bool" where
  "sched_reach \<equiv> sched_step\<^sup>*\<^sup>*"

lemma boot_wf: "sched_boot s \<Longrightarrow> sched_wf s"
  by (auto simp: sched_boot_def sched_wf_def queues_wf_def run_wf_def rt_system_scheduler_init_def)

lemma start_wf:
  assumes wf: "sched_wf s" and c: "sc_current_thread s = None" and r: "rt_system_scheduler_start s = Some s'"
  shows "sched_wf s' \<and> most_urgent s'"
proof -
  note q = sched_wfD(1) [OF wf]
  obtain t p where tp: "highest_priority_thread s = Some (t, p)"
    using r by (auto simp: rt_system_scheduler_start_def split: option.splits)
  then have "rt_thread_ready_priority_group s \<noteq> 0"
    by (auto simp: highest_priority_thread_def rt_ffs_def Let_def split: if_splits)
  with tp obtain w where t: "rt_thread_priority_table s p = t # w" "sched_stat s t = STAT_READY" "unat (sc_prio s t) = p"
      "\<forall>u. sched_stat s u = STAT_READY \<longrightarrow> p \<le> unat (sc_prio s u)"
    using highest_total [OF q] by (metis option.inject prod.inject)
  let ?s1 = "s\<lparr>sc_current_thread := Some t, critical_switch_flag := False\<rparr>"
  let ?f = "\<lambda>th. th\<lparr>sc_stat := STAT_RUNNING\<rparr>"
  have s': "s' = upd_sched t ?f (sched_remove_thread t ?s1)"
    using r tp by (simp add: rt_system_scheduler_start_def)
  have f1: "sched_stat ?s1 u = sched_stat s u" for u by (simp add: sched_stat_def)
  have q1: "queues_wf {} ?s1" by (rule queues_wf_cong [OF q]) (simp_all add: f1)
  have st: "sched_stat s' u = (if u = t then STAT_RUNNING else sched_stat s u)" for u
    by (simp add: s' stat_upd code_and_mask f1)
  have m: "number_mask (sc_threads s t) = push_bit (unat (sc_prio s t)) 1" by (rule wf_mask [OF wf]) (use t(2) in simp_all)
  have "queues_wf {t} s'"
    unfolding s' by (rule upd_queues_wf [OF remove_queues_wf [OF q1]]) (use queues_wfD(3) [OF q, of t] m in simp_all)
  then have "queues_wf {} s'" using st unfolding queues_wf_def by auto
  moreover have "run_wf s'"
    using run_wfD(1) [OF sched_wfD(2) [OF wf]] c unfolding run_wf_def st by (auto simp: s' split: if_splits)
  moreover have "most_urgent s'"
    using t(3,4) unfolding most_urgent_def st by (auto simp: s' word_le_nat_alt split: if_splits)
  ultimately show ?thesis by (simp add: sched_wf_def)
qed

lemma nest_wf:
  assumes "sched_wf s"
  shows "sched_wf (s\<lparr>rt_scheduler_lock_nest := n\<rparr>)"
    "sched_wf (s\<lparr>rt_scheduler_lock_nest := n, critical_switch_flag := b\<rparr>)"
  by (rule sched_wf_cong [OF assms]; simp add: sched_stat_def)+

lemma schedule_wf:
  assumes "sched_wf s" "rt_schedule s = Some s'"
  shows "sched_wf s'"
proof (cases "sc_current_thread s")
  case (Some c)
  show ?thesis by (rule schedule_total [OF assms(1) Some]) (use assms(2) in simp)
next
  case None
  have "s' = s \<or> s' = s\<lparr>critical_switch_flag := True\<rparr>"
    using assms(2) None by (auto simp: rt_schedule_def split: if_splits option.splits prod.splits)
  moreover have "sched_wf (s\<lparr>critical_switch_flag := True\<rparr>)"
    by (rule sched_wf_cong [OF assms(1)]) (simp_all add: sched_stat_def)
  ultimately show ?thesis using assms(1) by auto
qed

lemma step_wf: "sched_step s s' \<Longrightarrow> sched_wf s \<Longrightarrow> sched_wf s'"
proof (induction rule: sched_step.induct)
  case create then show ?case by (metis init_priv_wf)
next
  case (startup t s s')
  have i: "sched_stat s t = STAT_INIT" using startup by (simp add: rt_thread_startup_def split: if_splits)
  show ?case by (rule thread_startup_wf [OF startup(2) i]) (use startup(1) in simp)
next
  case start then show ?case using start_wf by blast
next
  case schedule then show ?case by (metis schedule_wf)
next
  case (tick n s s')
  then obtain c where "sc_current_thread s = Some c" by (auto simp: rt_sched_tick_increase_def split: option.splits)
  show ?case by (rule tick_total [OF tick(2) \<open>_ = Some c\<close>, of n]) (use tick(1) in simp)
next
  case (yield s s')
  then obtain c where "sc_current_thread s = Some c" by (auto simp: rt_thread_yield_def split: option.splits)
  show ?case by (rule thread_yield_total [OF yield(2) \<open>_ = Some c\<close>]) (use yield(1) in simp)
next
  case suspend then show ?case by (metis suspend_wf)
next
  case resume then show ?case by (metis resume_wf)
next
  case priority then show ?case by (metis update_priority_wf)
next
  case close then show ?case by (metis close_wf)
next
  case enter then show ?case by (simp add: rt_enter_critical_def nest_wf)
next
  case (exit s s')
  then show ?case
    by (auto simp: rt_exit_critical_def Let_def nest_wf split: if_splits intro: schedule_wf [OF nest_wf(2)])
qed

lemma sched_reach_wf:
  assumes "sched_boot s0" "sched_reach s0 s"
  shows "sched_wf s"
  using assms(2) by induction (use assms(1) in \<open>auto intro: boot_wf step_wf\<close>)

section \<open>Round robin and time slices\<close>

lemma yield_rotates:
  assumes wf: "sched_wf s" and c: "sc_current_thread s = Some c" "sched_stat s c = STAT_RUNNING"
    and nest: "rt_scheduler_lock_nest s = 0" and q: "rt_thread_priority_table s (unat (sc_prio s c)) = q # qs"
    and urgent: "\<forall>u. sched_stat s u = STAT_READY \<longrightarrow> sc_prio s c \<le> sc_prio s u"
  obtains s' where "rt_thread_yield s = Some s'" "sched_wf s'" "sc_current_thread s' = Some q"
    "sched_stat s' q = STAT_RUNNING" "rt_scheduler_lock_nest s' = 0" "sc_prio s' q = sc_prio s c"
    "rt_thread_priority_table s' (unat (sc_prio s c)) = qs @ [c]"
    "\<forall>u. sched_stat s' u = STAT_READY \<longrightarrow> sc_prio s' q \<le> sc_prio s' u"
proof -
  let ?y = "sched_thread_yield c s" and ?p = "unat (sc_prio s c)"
  have wfy: "sched_wf ?y" by (rule yield_wf [OF wf])
  note qy = sched_wfD(1) [OF wfy]
  have qr: "sched_stat s q = STAT_READY" "unat (sc_prio s q) = ?p"
    using queues_wfD(2) [OF sched_wfD(1) [OF wf], of q ?p] q by simp_all
  have g: "rt_thread_ready_priority_group ?y \<noteq> 0"
    using no_ready [OF qy, of q] qr(1) by auto
  obtain t p w where t: "highest_priority_thread ?y = Some (t, p)" "rt_thread_priority_table ?y p = t # w"
      "sched_stat ?y t = STAT_READY" "unat (sc_prio ?y t) = p" "\<forall>u. sched_stat ?y u = STAT_READY \<longrightarrow> p \<le> unat (sc_prio ?y u)"
    by (rule highest_total [OF qy g])
  have pp: "p = ?p"
  proof (rule antisym)
    show "p \<le> ?p" using t(5) qr by auto
    show "?p \<le> p" using t(3,4) urgent [rule_format, of t] by (simp add: word_le_nat_alt)
  qed
  then have tq: "t = q" using t(2) q by simp
  have qc: "q \<noteq> c" using qr(1) c(2) by auto
  have "rt_schedule ?y = Some (sched_switch ?p c q ?y)"
    using schedule_eq [of ?y t p c] nest g t(1) c(1) qc by (simp add: pp tq)
  then have e: "rt_thread_yield s = Some (sched_switch ?p c q ?y)"
    using c(1) by (simp add: rt_thread_yield_def unlock_n_resched_def)
  have "sched_stat ?y q = STAT_READY" "sched_stat ?y c \<noteq> STAT_READY" using qr c by simp_all
  note f = switch_facts [OF qy this(1) qc this(2) refl, of ?p]
  let ?s = "sched_switch ?p c q ?y"
  have pq: "sc_prio s q = sc_prio s c" using qr(2) by (simp add: word_unat_eq_iff)
  show ?thesis
  proof (rule that [OF e])
    show "sched_wf ?s" using schedule_wf [OF wfy \<open>rt_schedule ?y = _\<close>] .
    show "rt_thread_priority_table ?s ?p = qs @ [c]" using q c(2) by (simp add: f)
    show "\<forall>u. sched_stat ?s u = STAT_READY \<longrightarrow> sc_prio ?s q \<le> sc_prio ?s u"
      using urgent c(2) qc by (auto simp: f pq)
  qed (use nest pq in \<open>simp_all add: f\<close>)
qed

fun yields :: "nat \<Rightarrow> sched \<Rightarrow> sched option" where
  "yields 0 s = Some s"
| "yields (Suc k) s = (case rt_thread_yield s of None \<Rightarrow> None | Some s' \<Rightarrow> yields k s')"

fun ticks :: "nat \<Rightarrow> sched \<Rightarrow> sched option" where
  "ticks 0 s = Some s"
| "ticks (Suc k) s = (case rt_sched_tick_increase 1 s of None \<Rightarrow> None | Some s' \<Rightarrow> ticks k s')"

lemma yields_rotate:
  assumes "sched_wf s" "sc_current_thread s = Some c" "sched_stat s c = STAT_RUNNING"
    "rt_scheduler_lock_nest s = 0" "\<forall>u. sched_stat s u = STAT_READY \<longrightarrow> sc_prio s c \<le> sc_prio s u"
    "rt_thread_priority_table s (unat (sc_prio s c)) = q" "k \<le> length q"
  shows "\<exists>s'. yields k s = Some s' \<and> sc_current_thread s' = Some ((c # q) ! k) \<and>
    rt_thread_priority_table s' (unat (sc_prio s c)) = drop k q @ take k (c # q)"
  using assms
proof (induction k arbitrary: s c q)
  case (Suc k)
  obtain h t where q: "q = h # t" using Suc.prems(7) by (cases q) auto
  have e: "rt_thread_priority_table s (unat (sc_prio s c)) = h # t" using Suc.prems(6) q by simp
  obtain s1 where s1: "rt_thread_yield s = Some s1" "sched_wf s1" "sc_current_thread s1 = Some h"
    "sched_stat s1 h = STAT_RUNNING" "rt_scheduler_lock_nest s1 = 0" "sc_prio s1 h = sc_prio s c"
    "rt_thread_priority_table s1 (unat (sc_prio s c)) = t @ [c]"
    "\<forall>u. sched_stat s1 u = STAT_READY \<longrightarrow> sc_prio s1 h \<le> sc_prio s1 u"
    by (rule yield_rotates [OF Suc.prems(1-4) e Suc.prems(5)])
  have "rt_thread_priority_table s1 (unat (sc_prio s1 h)) = t @ [c]" using s1(6,7) by simp
  from Suc.IH [OF s1(2-5,8) this] obtain s' where s': "yields k s1 = Some s'"
      "sc_current_thread s' = Some ((h # t @ [c]) ! k)"
      "rt_thread_priority_table s' (unat (sc_prio s1 h)) = drop k (t @ [c]) @ take k (h # t @ [c])"
    using Suc.prems(7) q by auto
  have k: "k \<le> length t" using Suc.prems(7) q by simp
  then have "(h # t @ [c]) ! k = (h # t) ! k"
    by (cases k) (simp_all add: nth_append)
  moreover have "drop k (t @ [c]) @ take k (h # t @ [c]) = drop k t @ c # take k (h # t)"
    using k by (cases k) auto
  ultimately show ?case using s' s1(1,6) q by simp
qed simp

lemma ticks_snoc:
  "ticks (Suc n) s = (case ticks n s of None \<Rightarrow> None | Some s' \<Rightarrow> rt_sched_tick_increase 1 s')"
proof (induction n arbitrary: s)
  case 0
  show ?case by (simp split: option.split)
next
  case (Suc n)
  show ?case
  proof (cases "rt_sched_tick_increase 1 s")
    case (Some x)
    have "ticks (Suc (Suc n)) s = ticks (Suc n) x" unfolding ticks.simps(2) [of "Suc n" s] Some option.case ..
    moreover have "ticks (Suc n) s = ticks n x" using Some by simp
    ultimately show ?thesis using Suc.IH [of x] by simp
  qed simp
qed

lemma slice:
  assumes c: "sc_current_thread s = Some c" and r: "unat (remaining_tick (sc_threads s c)) = n + 1"
  shows "k \<le> n \<Longrightarrow> \<exists>s'. ticks k s = Some s' \<and> sc_current_thread s' = Some c"
    "ticks (n + 1) s = rt_thread_yield s"
proof -
  have "\<exists>s'. ticks k s = Some s' \<and> sc_current_thread s' = Some c \<and> sched_thread_yield c s' = sched_thread_yield c s \<and>
      unat (remaining_tick (sc_threads s' c)) = n + 1 - k" if "k \<le> n" for k
    using c r that
  proof (induction k arbitrary: s n)
    case (Suc k)
    let ?r = "remaining_tick (sc_threads s c)"
    let ?s = "upd_sched c (\<lambda>th. th\<lparr>remaining_tick := ?r - 1\<rparr>) s"
    have "1 < ?r" using Suc.prems by (simp add: word_less_nat_alt)
    moreover have u: "unat (?r - 1) = (n - 1) + 1" using Suc.prems by (simp add: unat_sub word_le_nat_alt)
    moreover have "?r - 1 \<noteq> 0" using u by auto
    ultimately have t: "rt_sched_tick_increase 1 s = Some ?s"
      using Suc.prems(1) by (simp add: rt_sched_tick_increase_def)
    have c': "sc_current_thread ?s = Some c" and u': "unat (remaining_tick (sc_threads ?s c)) = (n - 1) + 1"
      and kn: "k \<le> n - 1" using Suc.prems u by simp_all
    obtain s' where "ticks k ?s = Some s'" "sc_current_thread s' = Some c"
        "sched_thread_yield c s' = sched_thread_yield c ?s" "unat (remaining_tick (sc_threads s' c)) = (n - 1) + 1 - k"
      using Suc.IH [OF c' u' kn] by blast
    moreover have "sched_thread_yield c ?s = sched_thread_yield c s"
      by (simp add: sched_thread_yield_def upd_sched_def)
    ultimately show ?case using t Suc.prems(3) by auto
  qed simp
  note all = this
  show "k \<le> n \<Longrightarrow> \<exists>s'. ticks k s = Some s' \<and> sc_current_thread s' = Some c" using all by blast
  obtain s' where s': "ticks n s = Some s'" "sc_current_thread s' = Some c"
      "sched_thread_yield c s' = sched_thread_yield c s" "unat (remaining_tick (sc_threads s' c)) = 1"
    using all [of n] by auto
  have "\<not> remaining_tick (sc_threads s' c) > 1" using s'(4) by (simp add: word_less_nat_alt)
  then have "rt_sched_tick_increase 1 s' =
      unlock_n_resched (sched_thread_yield c (upd_sched c (\<lambda>th. th\<lparr>remaining_tick := 0\<rparr>) s'))"
    using s'(2) by (simp add: rt_sched_tick_increase_def)
  also have "sched_thread_yield c (upd_sched c (\<lambda>th. th\<lparr>remaining_tick := 0\<rparr>) s') = sched_thread_yield c s"
    unfolding s'(3) [symmetric] by (simp add: sched_thread_yield_def upd_sched_def)
  finally have "rt_sched_tick_increase 1 s' = rt_thread_yield s" using c by (simp add: rt_thread_yield_def)
  then show "ticks (n + 1) s = rt_thread_yield s"
    unfolding Suc_eq_plus1 [symmetric] ticks_snoc s'(1) option.case .
qed

section \<open>Runs\<close>

text \<open>Runs of operations, for concrete states.\<close>

fun sched_run :: "(sched \<Rightarrow> sched option) list \<Rightarrow> sched \<Rightarrow> sched option" where
  "sched_run [] s = Some s"
| "sched_run (f # fs) s = (case f s of None \<Rightarrow> None | Some s' \<Rightarrow> sched_run fs s')"

definition create_thread :: "tid \<Rightarrow> u32 \<Rightarrow> byte \<Rightarrow> sched \<Rightarrow> sched option" where
  "create_thread t tick p s =
    (if sc_current_thread s \<noteq> Some t \<and> (sched_stat s t = STAT_INIT \<or> sched_stat s t = STAT_CLOSE)
     then sched_thread_init_priv t tick p s else None)"

definition start_scheduler :: "sched \<Rightarrow> sched option" where
  "start_scheduler s = (if sc_current_thread s = None then rt_system_scheduler_start s else None)"

lemma sched_run_reach:
  assumes "sched_run fs s = Some s'" "\<forall>f\<in>set fs. \<forall>s s'. f s = Some s' \<longrightarrow> sched_step s s'"
  shows "sched_reach s s'"
  using assms
proof (induction fs arbitrary: s)
  case (Cons f fs)
  then obtain s1 where s1: "f s = Some s1" "sched_run fs s1 = Some s'" by (auto split: option.splits)
  have "sched_step s s1" using Cons.prems(2) s1(1) by simp
  moreover have "sched_reach s1 s'" by (rule Cons.IH [OF s1(2)]) (use Cons.prems(2) in simp)
  ultimately show ?case by (rule converse_rtranclp_into_rtranclp)
qed simp

definition sched_demo :: sched where
  "sched_demo = rt_system_scheduler_init \<lparr>sc_current_thread = None,
     sc_threads = (\<lambda>t. \<lparr>sc_stat = 0, sc_init_priority = 0, sc_current_priority = 0, number_mask = 0,
       sc_init_tick = 0, remaining_tick = 0\<rparr>),
     rt_thread_priority_table = (\<lambda>p. []), rt_thread_ready_priority_group = 0, rt_scheduler_lock_nest = 0,
     rt_current_priority = 0, critical_switch_flag = False\<rparr>"

definition demo_run :: "(sched \<Rightarrow> sched option) list" where
  "demo_run = [create_thread 1 5 10, rt_thread_startup 1, create_thread 2 5 10, rt_thread_startup 2,
     create_thread 3 5 10, rt_thread_startup 3, create_thread 4 5 20, rt_thread_startup 4, start_scheduler]"

lemma demo_boot: "sched_boot sched_demo"
proof -
  have "\<exists>s0. sched_demo = rt_system_scheduler_init s0" unfolding sched_demo_def by blast
  then show ?thesis
    unfolding sched_boot_def by (simp add: sched_demo_def rt_system_scheduler_init_def sched_stat_def STAT_INIT_def)
qed

lemma demo_running:
  obtains s where "sched_run demo_run sched_demo = Some s" "sched_reach sched_demo s"
    "sc_current_thread s = Some 3" "sched_stat s 3 = STAT_RUNNING" "rt_scheduler_lock_nest s = 0" "sc_prio s 3 = 10"
    "rt_thread_priority_table s 10 = [2, 1]" "rt_thread_ready_priority_group s \<noteq> 0" "remaining_tick (sc_threads s 3) = 5"
    "\<forall>p<10. rt_thread_priority_table s p = []"
proof -
  have "map_option (\<lambda>s. (sc_current_thread s, sched_stat s 3 = STAT_RUNNING, rt_scheduler_lock_nest s, sc_prio s 3,
      rt_thread_priority_table s 10, rt_thread_ready_priority_group s = 0, remaining_tick (sc_threads s 3),
      list_all (\<lambda>p. rt_thread_priority_table s p = []) [0..<10]))
      (sched_run demo_run sched_demo) = Some (Some 3, True, 0, 10, [2, 1], False, 5, True)"
    by code_simp
  then obtain s where s: "sched_run demo_run sched_demo = Some s" "sc_current_thread s = Some 3"
    "sched_stat s 3 = STAT_RUNNING" "rt_scheduler_lock_nest s = 0" "sc_prio s 3 = 10"
    "rt_thread_priority_table s 10 = [2, 1]" "rt_thread_ready_priority_group s \<noteq> 0" "remaining_tick (sc_threads s 3) = 5"
    "\<forall>p<10. rt_thread_priority_table s p = []"
    by (auto simp: list_all_iff)
  have "sched_reach sched_demo s"
    by (rule sched_run_reach [OF s(1)])
      (auto simp: demo_run_def create_thread_def start_scheduler_def intro: sched_step.intros split: if_splits)
  then show ?thesis using that s by blast
qed

section \<open>Properties\<close>

text \<open>C12
  Well-formedness of the scheduler state, from the boot on and under any order of operations:
  the queue of a priority holds each ready thread of that priority once and nothing else, bit p
  of the bitmap is set exactly when queue p is not empty, every priority is below 32, and only
  the current thread is running.
\<close>

theorem sched_state_well_typed:
  assumes "sched_boot s0" "sched_reach s0 s"
  shows "distinct (rt_thread_priority_table s p) \<and>
    (t \<in> set (rt_thread_priority_table s p) \<longleftrightarrow> sched_stat s t = STAT_READY \<and> unat (sc_prio s t) = p) \<and>
    (p < 32 \<longrightarrow> (bit (rt_thread_ready_priority_group s) p \<longleftrightarrow> rt_thread_priority_table s p \<noteq> [])) \<and>
    sc_prio s t < 32 \<and> (sched_stat s t = STAT_RUNNING \<longrightarrow> sc_current_thread s = Some t)"
proof -
  note wf = sched_reach_wf [OF assms]
  show ?thesis using queues_wfD [OF sched_wfD(1) [OF wf]] run_wfD(1) [OF sched_wfD(2) [OF wf]] by simp
qed

theorem sched_state_well_typed_witness:
  "\<exists>s. sched_reach sched_demo s \<and> rt_thread_priority_table s 10 = [2, 1] \<and> sched_stat s 2 = STAT_READY \<and> sc_prio s 2 < 32"
proof (rule demo_running)
  fix s assume s: "sched_reach sched_demo s" "rt_thread_priority_table s 10 = [2, 1]"
  with sched_state_well_typed [OF demo_boot s(1), of 10 2] show ?thesis by auto
qed



text \<open>C15
  Round robin: with no more urgent thread ready, the threads of the running thread's priority
  take turns.  After k yields the k-th thread of the queue runs and those before it have
  joined the end in order, so each of them gets the processor within one round.
\<close>

theorem sched_round_robin:
  assumes "sched_boot s0" "sched_reach s0 s" "sc_current_thread s = Some c" "sched_stat s c = STAT_RUNNING"
    and "rt_scheduler_lock_nest s = 0" "\<forall>u. sched_stat s u = STAT_READY \<longrightarrow> sc_prio s c \<le> sc_prio s u"
    and "rt_thread_priority_table s (unat (sc_prio s c)) = q" "k \<le> length q"
  shows "\<exists>s'. yields k s = Some s' \<and> sc_current_thread s' = Some ((c # q) ! k) \<and>
    rt_thread_priority_table s' (unat (sc_prio s c)) = drop k q @ take k (c # q)"
  by (rule yields_rotate [OF sched_reach_wf [OF assms(1,2)] assms(3-8)])

theorem sched_round_robin_witness:
  "\<exists>s s'. sched_reach sched_demo s \<and> yields 2 s = Some s' \<and> sc_current_thread s' = Some 1 \<and>
    rt_thread_priority_table s' 10 = [3, 2]"
proof (rule demo_running)
  fix s assume s: "sched_reach sched_demo s" "sc_current_thread s = Some 3" "sched_stat s 3 = STAT_RUNNING"
    "rt_scheduler_lock_nest s = 0" "sc_prio s 3 = 10" "rt_thread_priority_table s 10 = [2, 1]"
    "\<forall>p<10. rt_thread_priority_table s p = []"
  have u: "\<forall>u. sched_stat s u = STAT_READY \<longrightarrow> sc_prio s 3 \<le> sc_prio s u"
  proof (intro allI impI)
    fix u assume "sched_stat s u = STAT_READY"
    then have "u \<in> set (rt_thread_priority_table s (unat (sc_prio s u)))"
      using queues_wfD(2) [OF sched_wfD(1) [OF sched_reach_wf [OF demo_boot s(1)]]] by simp
    then have "\<not> unat (sc_prio s u) < 10" using s(7) by auto
    then show "sc_prio s 3 \<le> sc_prio s u" by (simp add: s(5) word_le_nat_alt)
  qed
  have q: "rt_thread_priority_table s (unat (sc_prio s 3)) = [2, 1]" using s(5,6) by simp
  from sched_round_robin [OF demo_boot s(1-4) u q, of 2] s(1,5) show ?thesis by auto
qed

text \<open>C34
  A thread runs for exactly the ticks it has left: with n + 1 of them, the first n ticks leave it
  the processor and the next one is a yield.
\<close>

theorem sched_time_slice:
  assumes "sc_current_thread s = Some c" "unat (remaining_tick (sc_threads s c)) = n + 1"
  shows "(k \<le> n \<longrightarrow> (\<exists>s'. ticks k s = Some s' \<and> sc_current_thread s' = Some c)) \<and> ticks (n + 1) s = rt_thread_yield s"
  using slice [OF assms] by blast

theorem sched_time_slice_witness:
  "\<exists>s s'. sched_reach sched_demo s \<and> ticks 4 s = Some s' \<and> sc_current_thread s' = Some 3 \<and> ticks 5 s = rt_thread_yield s"
proof (rule demo_running)
  fix s assume s: "sched_reach sched_demo s" "sc_current_thread s = Some 3" "remaining_tick (sc_threads s 3) = 5"
  then have "unat (remaining_tick (sc_threads s 3)) = 4 + 1" by simp
  from sched_time_slice [OF s(2) this, of 4] s(1) show ?thesis by auto
qed

end
