(* ===== verification/Ipc_Mutex.thy ===== *)
theory Ipc_Mutex
  imports Ipc_Sem
begin

text \<open>
  The mutex of rt-thread/src/ipc.c (lines 828 to 1764) with priority inheritance and priority
  ceilings.  All mutexes and threads of the system are in one state, because a priority
  change travels along chains of threads that wait for mutexes held by threads that wait.
  A take that has to wait is split where the code calls rt_schedule.  \<open>None\<close> is a failed
  RT_ASSERT, an access through RT_NULL, or a chain that is followed forever; Mutex_Inherit
  shows that none of them occurs.
\<close>

section \<open>State\<close>

type_synonym mid = nat

text \<open>The IPC flag of a mutex is always RT_IPC_FLAG_PRIO; \<open>mu_waiters\<close> is parent.suspend_thread.\<close>

record rt_mutex =
  ceiling_priority :: byte
  mu_priority :: byte
  mu_hold :: byte
  mu_owner :: "tid option"
  mu_waiters :: "tid list"

definition RT_MUTEX_HOLD_MAX :: byte where "RT_MUTEX_HOLD_MAX = 255"
definition RT_THREAD_PRIORITY_MAX :: byte where "RT_THREAD_PRIORITY_MAX = 32"

text \<open>
  The mutex members of struct rt_thread: the list of mutexes it holds (linked through
  mutex->taken_list), the mutex it waits for, and its own priority.
\<close>

record mu_state =
  mu_kernel :: rt_kernel
  mutexes :: "mid \<Rightarrow> rt_mutex"
  taken_object_list :: "tid \<Rightarrow> mid list"
  pending_object :: "tid \<Rightarrow> mid option"
  init_priority :: "tid \<Rightarrow> byte"

abbreviation mprio :: "mu_state \<Rightarrow> tid \<Rightarrow> byte" where
  "mprio y t \<equiv> prio (mu_kernel y) t"

abbreviation mu_self :: "mu_state \<Rightarrow> tid" where
  "mu_self y \<equiv> rt_current_thread (mu_kernel y)"

abbreviation mu_suspended :: "mu_state \<Rightarrow> tid \<Rightarrow> bool" where
  "mu_suspended y t \<equiv> rt_sched_thread_is_suspended (mu_kernel y) t"

definition upd_mutex :: "mid \<Rightarrow> (rt_mutex \<Rightarrow> rt_mutex) \<Rightarrow> mu_state \<Rightarrow> mu_state" where
  "upd_mutex m f y = y\<lparr>mutexes := (mutexes y)(m := f (mutexes y m))\<rparr>"

definition upd_kernel :: "(rt_kernel \<Rightarrow> rt_kernel) \<Rightarrow> mu_state \<Rightarrow> mu_state" where
  "upd_kernel f y = y\<lparr>mu_kernel := f (mu_kernel y)\<rparr>"

section \<open>Priorities\<close>

definition waiters_prio :: "rt_kernel \<Rightarrow> tid list \<Rightarrow> byte" where
  "waiters_prio k ws = (case ws of t # _ \<Rightarrow> prio k t | [] \<Rightarrow> 0xFF)"

definition mutex_update_priority :: "mid \<Rightarrow> mu_state \<Rightarrow> mu_state" where
  "mutex_update_priority m y =
    upd_mutex m (\<lambda>x. x\<lparr>mu_priority := waiters_prio (mu_kernel y) (mu_waiters x)\<rparr>) y"

definition held_prio :: "rt_mutex \<Rightarrow> byte" where
  "held_prio x = (if mu_priority x < ceiling_priority x then mu_priority x else ceiling_priority x)"

definition thread_get_mutex_priority :: "mu_state \<Rightarrow> tid \<Rightarrow> byte" where
  "thread_get_mutex_priority y t =
    foldl (\<lambda>p m. if p > held_prio (mutexes y m) then held_prio (mutexes y m) else p)
      (init_priority y t) (taken_object_list y t)"

text \<open>scheduler_comm.c:346: a ready thread changes its queue, the others only their priority.\<close>

definition rt_sched_thread_change_priority :: "tid \<Rightarrow> byte \<Rightarrow> mu_state \<Rightarrow> mu_state option" where
  "rt_sched_thread_change_priority t p y =
    (if p < RT_THREAD_PRIORITY_MAX
     then Some (upd_kernel (\<lambda>k.
            let k1 = upd_thread t (\<lambda>th. th\<lparr>current_priority := p\<rparr>) k
            in if stat (threads k t) = RT_THREAD_READY then rt_sched_insert_thread t k1 else k1) y)
     else None)"

text \<open>
  The loop of _thread_update_priority, entered for a thread whose priority has just been
  changed: while it is suspended on a mutex, its place in the wait list, the priority of that
  mutex and the priority of that mutex's owner follow.
\<close>

partial_function (option) priority_chain :: "tid \<Rightarrow> mu_state \<Rightarrow> mu_state option" where
  "priority_chain t y =
    (if mu_suspended y t
     then (case pending_object y t of
             None \<Rightarrow> Some y
           | Some m \<Rightarrow>
              (let y1 = mutex_update_priority m (upd_mutex m (\<lambda>x. x\<lparr>mu_waiters :=
                     rt_susp_list_enqueue (remove1 t (mu_waiters x)) t RT_IPC_FLAG_PRIO (mu_kernel y)\<rparr>) y)
               in case mu_owner (mutexes y1 m) of
                    None \<Rightarrow> None
                  | Some w \<Rightarrow>
                     (let p = thread_get_mutex_priority y1 w
                      in if p \<noteq> mprio y1 w
                         then (case rt_sched_thread_change_priority w p y1 of
                                 None \<Rightarrow> None
                               | Some y2 \<Rightarrow> priority_chain w y2)
                         else Some y1)))
     else Some y)"

declare priority_chain.simps [code]

definition thread_update_priority :: "tid \<Rightarrow> byte \<Rightarrow> mu_state \<Rightarrow> mu_state option" where
  "thread_update_priority t p y =
    (case rt_sched_thread_change_priority t p y of
       None \<Rightarrow> None | Some y1 \<Rightarrow> priority_chain t y1)"

text \<open>The result says whether a reschedule is due.\<close>

definition check_and_update_prio :: "tid \<Rightarrow> mid \<Rightarrow> mu_state \<Rightarrow> (bool \<times> mu_state) option" where
  "check_and_update_prio t m y =
    (if ceiling_priority (mutexes y m) \<noteq> 0xFF \<or> mprio y t = mu_priority (mutexes y m)
     then (case rt_sched_thread_change_priority t (thread_get_mutex_priority y t) y of
             None \<Rightarrow> None | Some y' \<Rightarrow> Some (True, y'))
     else Some (False, y))"

text \<open>
  The end of rt_mutex_drop_thread, and of a take that did not get the mutex: a thread has left
  the wait list.
\<close>

definition mutex_waiter_left :: "mid \<Rightarrow> tid \<Rightarrow> mu_state \<Rightarrow> mu_state option" where
  "mutex_waiter_left m t y =
    (let y1 = mutex_update_priority m y
     in case mu_owner (mutexes y m) of
          None \<Rightarrow> Some y1
        | Some w \<Rightarrow>
            if mprio y w = mprio y t \<and> thread_get_mutex_priority y1 w \<noteq> mprio y1 w
            then thread_update_priority w (thread_get_mutex_priority y1 w) y1
            else Some y1)"

section \<open>Operations\<close>

definition rt_mutex_init :: rt_mutex where
  "rt_mutex_init = \<lparr>ceiling_priority = 0xFF, mu_priority = 0xFF, mu_hold = 0, mu_owner = None,
     mu_waiters = []\<rparr>"

text \<open>\<open>alloc_ok\<close> is whether rt_object_allocate returned an object.\<close>

definition rt_mutex_create :: "bool \<Rightarrow> rt_mutex option" where
  "rt_mutex_create alloc_ok = (if alloc_ok then Some rt_mutex_init else None)"

definition mutex_before_delete_detach :: "mid \<Rightarrow> mu_state \<Rightarrow> mu_state option" where
  "mutex_before_delete_detach m y =
    (case rt_susp_list_resume_all (mu_waiters (mutexes y m)) RT_ERROR (mu_kernel y) of
       (ws, k) \<Rightarrow>
         (let y1 = upd_mutex m (\<lambda>x. x\<lparr>mu_waiters := ws\<rparr>) (y\<lparr>mu_kernel := k\<rparr>)
          in case mu_owner (mutexes y1 m) of
               None \<Rightarrow> Some y1
             | Some w \<Rightarrow>
                 map_option snd (check_and_update_prio w m
                   (y1\<lparr>taken_object_list := (taken_object_list y1)(w := remove1 m (taken_object_list y1 w))\<rparr>))))"

definition rt_mutex_detach :: "mid \<Rightarrow> mu_state \<Rightarrow> (int \<times> mu_state) option" where
  "rt_mutex_detach m y = map_option (Pair RT_EOK) (mutex_before_delete_detach m y)"

definition rt_mutex_delete :: "mid \<Rightarrow> mu_state \<Rightarrow> (int \<times> mu_state) option" where
  "rt_mutex_delete m y = map_option (Pair RT_EOK) (mutex_before_delete_detach m y)"

definition rt_mutex_drop_thread :: "mid \<Rightarrow> tid \<Rightarrow> mu_state \<Rightarrow> mu_state option" where
  "rt_mutex_drop_thread m t y =
    (if pending_object y t = Some m
     then mutex_waiter_left m t (upd_mutex m (\<lambda>x. x\<lparr>mu_waiters := remove1 t (mu_waiters x)\<rparr>) y)
     else None)"

text \<open>The value 0xFF with the error number -RT_EINVAL is a refused priority.\<close>

definition rt_mutex_setprioceiling :: "mid \<Rightarrow> byte \<Rightarrow> mu_state \<Rightarrow> (byte \<times> mu_state) option" where
  "rt_mutex_setprioceiling m p y =
    (if p < RT_THREAD_PRIORITY_MAX
     then
      (let old = ceiling_priority (mutexes y m);
           y1 = upd_mutex m (\<lambda>x. x\<lparr>ceiling_priority := p\<rparr>) y
       in case mu_owner (mutexes y1 m) of
            None \<Rightarrow> Some (old, y1)
          | Some w \<Rightarrow>
             (let hp = thread_get_mutex_priority y1 w
              in if hp \<noteq> mprio y1 w
                 then map_option (Pair old) (thread_update_priority w hp y1)
                 else Some (old, y1)))
     else Some (0xFF, y))"

definition rt_mutex_getprioceiling :: "mid \<Rightarrow> mu_state \<Rightarrow> byte" where
  "rt_mutex_getprioceiling m y = ceiling_priority (mutexes y m)"

text \<open>Taking a mutex without owner; the thread is the running one.\<close>

definition mutex_acquire :: "mid \<Rightarrow> tid \<Rightarrow> mu_state \<Rightarrow> mu_state option" where
  "mutex_acquire m t y =
    (let y1 = upd_mutex m (\<lambda>x. x\<lparr>mu_owner := Some t, mu_priority := 0xFF, mu_hold := 1\<rparr>) y;
         c = ceiling_priority (mutexes y1 m)
     in case (if c \<noteq> 0xFF \<and> c < mprio y1 t then thread_update_priority t c y1 else Some y1) of
          None \<Rightarrow> None
        | Some y2 \<Rightarrow>
            Some (y2\<lparr>taken_object_list := (taken_object_list y2)(t := m # taken_object_list y2 t)\<rparr>))"

text \<open>Joining the wait list, with the inheritance of the new waiter's priority by the owner.\<close>

definition mutex_inherit :: "mid \<Rightarrow> tid \<Rightarrow> tid \<Rightarrow> mu_state \<Rightarrow> mu_state option" where
  "mutex_inherit m t w y =
    (let p = mprio y t
     in if p < mu_priority (mutexes y m)
        then (let y1 = upd_mutex m (\<lambda>x. x\<lparr>mu_priority := p\<rparr>) y
              in if p < mprio y1 w then thread_update_priority w p y1 else Some y1)
        else Some y)"

definition rt_mutex_take_main ::
    "mid \<Rightarrow> int \<Rightarrow> suspend_flag \<Rightarrow> mu_state \<Rightarrow> (ipc_outcome \<times> mu_state) option" where
  "rt_mutex_take_main m timeout sf y0 =
    (let t = mu_self y0;
         y = upd_kernel (upd_thread t (\<lambda>th. th\<lparr>thread_error := RT_EOK\<rparr>)) y0
     in case mu_owner (mutexes y m) of
          None \<Rightarrow> map_option (Pair (Returned RT_EOK)) (mutex_acquire m t y)
        | Some w \<Rightarrow>
            if w = t
            then (if mu_hold (mutexes y m) < RT_MUTEX_HOLD_MAX
                  then Some (Returned RT_EOK, upd_mutex m (\<lambda>x. x\<lparr>mu_hold := mu_hold x + 1\<rparr>) y)
                  else Some (Returned (- RT_EFULL), y))
            else if timeout = 0
            then Some (Returned (- RT_ETIMEOUT),
                   upd_kernel (upd_thread t (\<lambda>th. th\<lparr>thread_error := RT_ETIMEOUT\<rparr>)) y)
            else
             (case rt_thread_suspend_to_list t (mu_waiters (mutexes y m)) RT_IPC_FLAG_PRIO sf (mu_kernel y) of
                (ws, k, ret) \<Rightarrow>
                  (let y1 = upd_mutex m (\<lambda>x. x\<lparr>mu_waiters := ws\<rparr>) (y\<lparr>mu_kernel := k\<rparr>)
                   in if ret \<noteq> RT_EOK then Some (Returned ret, y1)
                      else
                       (case mutex_inherit m t w
                              (y1\<lparr>pending_object := (pending_object y1)(t := Some m)\<rparr>) of
                          None \<Rightarrow> None
                        | Some y2 \<Rightarrow>
                            if timeout > 0
                            then (if timeout < 0x7FFFFFFF
                                  then Some (Blocked, upd_kernel (thread_timer_start t (word_of_int timeout)) y2)
                                  else None)
                            else Some (Blocked, y2)))))"

text \<open>What the thread does when it runs again after rt_schedule.\<close>

definition mutex_take_resumed :: "mid \<Rightarrow> tid \<Rightarrow> mu_state \<Rightarrow> (int \<times> mu_state) option" where
  "mutex_take_resumed m t y =
    (if mu_owner (mutexes y m) = Some t
     then (if thread_error (threads (mu_kernel y) t) = RT_EOK then Some (RT_EOK, y) else None)
     else
      (let err = thread_error (threads (mu_kernel y) t);
           ret = (if err = RT_EOK then - RT_EINTR else err)
       in case mutex_waiter_left m t y of
            None \<Rightarrow> None
          | Some y1 \<Rightarrow>
              Some (if ret > 0 then - ret else ret,
                    y1\<lparr>pending_object := (pending_object y1)(t := None)\<rparr>)))"

definition rt_mutex_take :: "mid \<Rightarrow> int \<Rightarrow> mu_state \<Rightarrow> (ipc_outcome \<times> mu_state) option" where
  "rt_mutex_take m timeout = rt_mutex_take_main m timeout RT_UNINTERRUPTIBLE"

definition rt_mutex_take_interruptible :: "mid \<Rightarrow> int \<Rightarrow> mu_state \<Rightarrow> (ipc_outcome \<times> mu_state) option" where
  "rt_mutex_take_interruptible m timeout = rt_mutex_take_main m timeout RT_INTERRUPTIBLE"

definition rt_mutex_take_killable :: "mid \<Rightarrow> int \<Rightarrow> mu_state \<Rightarrow> (ipc_outcome \<times> mu_state) option" where
  "rt_mutex_take_killable m timeout = rt_mutex_take_main m timeout RT_KILLABLE"

definition rt_mutex_trytake :: "mid \<Rightarrow> mu_state \<Rightarrow> (ipc_outcome \<times> mu_state) option" where
  "rt_mutex_trytake m = rt_mutex_take m 0"

text \<open>
  The loop of rt_mutex_release over the wait list: a thread whose timer has just expired is
  taken off the list and skipped.
\<close>

fun mutex_wake_first :: "tid list \<Rightarrow> rt_kernel \<Rightarrow> (tid option \<times> tid list \<times> rt_kernel) option" where
  "mutex_wake_first [] k = Some (None, [], k)"
| "mutex_wake_first (t # ws) k =
    (if rt_sched_thread_is_suspended k t
     then (case rt_sched_thread_ready t ws k of
             (ws', k', err) \<Rightarrow>
               if err \<noteq> RT_EOK then mutex_wake_first ws k' else Some (Some t, ws', k'))
     else None)"

definition mutex_hand_over :: "mid \<Rightarrow> mu_state \<Rightarrow> (bool \<times> mu_state) option" where
  "mutex_hand_over m y =
    (case mutex_wake_first (mu_waiters (mutexes y m)) (mu_kernel y) of
       None \<Rightarrow> None
     | Some (None, ws, k) \<Rightarrow>
         Some (False, upd_mutex m (\<lambda>x. x\<lparr>mu_waiters := ws, mu_owner := None, mu_priority := 0xFF\<rparr>)
           (y\<lparr>mu_kernel := k\<rparr>))
     | Some (Some t, ws, k) \<Rightarrow>
         Some (True, upd_mutex m (\<lambda>x. x\<lparr>mu_waiters := ws, mu_owner := Some t, mu_hold := 1,
             mu_priority := waiters_prio k ws\<rparr>)
           (y\<lparr>mu_kernel := k,
             taken_object_list := (taken_object_list y)(t := m # taken_object_list y t),
             pending_object := (pending_object y)(t := None)\<rparr>)))"

text \<open>The code, whether rt_schedule is called, and the state.\<close>

definition rt_mutex_release :: "mid \<Rightarrow> mu_state \<Rightarrow> (int \<times> bool \<times> mu_state) option" where
  "rt_mutex_release m y =
    (let t = mu_self y; x = mutexes y m
     in if mu_owner x \<noteq> Some t \<and>
           (case mu_owner x of None \<Rightarrow> True
            | Some w \<Rightarrow> stat (threads (mu_kernel y) w) \<noteq> RT_THREAD_CLOSE)
        then Some (- RT_ERROR, False,
               upd_kernel (upd_thread t (\<lambda>th. th\<lparr>thread_error := - RT_ERROR\<rparr>)) y)
        else
         (let y1 = upd_mutex m (\<lambda>x. x\<lparr>mu_hold := mu_hold x - 1\<rparr>) y; w = the (mu_owner x)
          in if mu_hold (mutexes y1 m) = 0
             then (case check_and_update_prio w m (y1\<lparr>taken_object_list :=
                           (taken_object_list y1)(w := remove1 m (taken_object_list y1 w))\<rparr>) of
                     None \<Rightarrow> None
                   | Some (resched, y2) \<Rightarrow>
                      (case mutex_hand_over m y2 of
                         None \<Rightarrow> None
                       | Some (woke, y3) \<Rightarrow> Some (RT_EOK, resched \<or> woke, y3)))
             else Some (RT_EOK, False, y1)))"

definition rt_mutex_control :: int where "rt_mutex_control = - RT_EINVAL"

text \<open>
  thread.c:80, run when a thread ends or is deleted: it leaves the wait list it is on and
  gives up every mutex it holds.
\<close>

fun release_held :: "mid list \<Rightarrow> mu_state \<Rightarrow> mu_state option" where
  "release_held [] y = Some y"
| "release_held (m # ms) y =
    (case rt_mutex_release m (upd_mutex m (\<lambda>x. x\<lparr>mu_hold := 1\<rparr>) y) of
       None \<Rightarrow> None
     | Some (_, _, y') \<Rightarrow> release_held ms y')"

definition thread_detach_from_mutex :: "tid \<Rightarrow> mu_state \<Rightarrow> mu_state option" where
  "thread_detach_from_mutex t y =
    (case (case pending_object y t of
             None \<Rightarrow> Some y
           | Some m \<Rightarrow>
               map_option (\<lambda>y'. y'\<lparr>pending_object := (pending_object y')(t := None)\<rparr>)
                 (rt_mutex_drop_thread m t y)) of
       None \<Rightarrow> None
     | Some y1 \<Rightarrow> release_held (taken_object_list y1 t) y1)"

end
