(* ===== verification/Mutex_Inherit.thy ===== *)
theory Mutex_Inherit
  imports Ipc_Mutex "HOL-Library.Multiset"
begin

text \<open>
  Priority inheritance: what order the mutexes and threads are in (\<open>mu_shape\<close> for the lists and
  links, \<open>mu_prios\<close> for the priorities, \<open>mu_exact\<close> when no thread has given up waiting), and the
  proof that following a chain of waiting threads ends, also in a deadlock, and restores it.
\<close>

section \<open>The priority a thread should have\<close>

lemma held_prio_le: "x \<le> held_prio q \<longleftrightarrow> x \<le> mu_priority q \<and> x \<le> ceiling_priority q"
  by (auto simp: held_prio_def)

lemma foldl_min_iff:
  "(x :: byte) \<le> foldl (\<lambda>p m. if p > g m then g m else p) a ms \<longleftrightarrow> x \<le> a \<and> (\<forall>m\<in>set ms. x \<le> g m)"
  by (induction ms arbitrary: a) auto

lemma le_mutex_priority_iff:
  "x \<le> thread_get_mutex_priority y t \<longleftrightarrow> x \<le> init_priority y t \<and>
    (\<forall>m\<in>set (taken_object_list y t). x \<le> mu_priority (mutexes y m) \<and> x \<le> ceiling_priority (mutexes y m))"
  unfolding thread_get_mutex_priority_def foldl_min_iff held_prio_le ..

lemma mutex_priority_le:
  "thread_get_mutex_priority y t \<le> init_priority y t"
  "m \<in> set (taken_object_list y t) \<Longrightarrow> thread_get_mutex_priority y t \<le> mu_priority (mutexes y m)"
  "m \<in> set (taken_object_list y t) \<Longrightarrow> thread_get_mutex_priority y t \<le> ceiling_priority (mutexes y m)"
  using le_mutex_priority_iff [of "thread_get_mutex_priority y t" y t] by auto

lemma mutex_priority_cong:
  assumes "init_priority y' t = init_priority y t" "set (taken_object_list y' t) = set (taken_object_list y t)"
    and "\<And>m. m \<in> set (taken_object_list y t) \<Longrightarrow> mu_priority (mutexes y' m) = mu_priority (mutexes y m)"
    and "\<And>m. m \<in> set (taken_object_list y t) \<Longrightarrow> ceiling_priority (mutexes y' m) = ceiling_priority (mutexes y m)"
  shows "thread_get_mutex_priority y' t = thread_get_mutex_priority y t"
proof (rule order.antisym)
  show "thread_get_mutex_priority y' t \<le> thread_get_mutex_priority y t"
    using le_mutex_priority_iff [of "thread_get_mutex_priority y' t" y' t] assms
    unfolding le_mutex_priority_iff [of _ y t] by auto
  show "thread_get_mutex_priority y t \<le> thread_get_mutex_priority y' t"
    using le_mutex_priority_iff [of "thread_get_mutex_priority y t" y t] assms
    unfolding le_mutex_priority_iff [of _ y' t] by auto
qed

section \<open>Order\<close>

definition waiting :: "mu_state \<Rightarrow> mid \<Rightarrow> tid set" where
  "waiting y m = set (mu_waiters (mutexes y m))"

definition mu_shape :: "mu_state \<Rightarrow> bool" where
  "mu_shape y \<longleftrightarrow>
    (\<forall>m. distinct (mu_waiters (mutexes y m))) \<and>
    (\<forall>m. \<forall>t\<in>waiting y m. wakeable (mu_kernel y) t \<and> pending_object y t = Some m \<and>
       thread_error (threads (mu_kernel y) t) = RT_EOK) \<and>
    (\<forall>t m. mu_suspended y t \<and> pending_object y t = Some m \<longrightarrow> t \<in> waiting y m) \<and>
    (\<forall>m. mu_owner (mutexes y m) = None \<longrightarrow> mu_waiters (mutexes y m) = []) \<and>
    (\<forall>t m. m \<in> set (taken_object_list y t) \<longleftrightarrow> mu_owner (mutexes y m) = Some t) \<and>
    (\<forall>t. distinct (taken_object_list y t)) \<and>
    (\<forall>m. mu_hold (mutexes y m) = 0 \<longleftrightarrow> mu_owner (mutexes y m) = None) \<and>
    (\<forall>t. init_priority y t < RT_THREAD_PRIORITY_MAX) \<and>
    finite {t. pending_object y t \<noteq> None} \<and>
    stat (threads (mu_kernel y) (mu_self y)) \<noteq> RT_THREAD_READY"

text \<open>
  The threads of \<open>E\<close> may be out of place in their wait list, the owners of \<open>D\<close> may run below the
  priority their mutexes ask for.
\<close>

definition mu_prios :: "tid set \<Rightarrow> tid set \<Rightarrow> mu_state \<Rightarrow> bool" where
  "mu_prios E D y \<longleftrightarrow>
    (\<forall>m. prio_sorted (mu_kernel y) (filter (\<lambda>t. t \<notin> E) (mu_waiters (mutexes y m)))) \<and>
    (\<forall>m. \<forall>t\<in>waiting y m - E. mu_priority (mutexes y m) \<le> mprio y t) \<and>
    (\<forall>t. mprio y t \<le> init_priority y t) \<and>
    (\<forall>m t. mu_owner (mutexes y m) = Some t \<and> t \<notin> D \<longrightarrow> mprio y t \<le> mu_priority (mutexes y m))"

lemma mu_priosD:
  assumes "mu_prios E D y"
  shows "prio_sorted (mu_kernel y) (filter (\<lambda>t. t \<notin> E) (mu_waiters (mutexes y m)))"
    "t \<in> waiting y m \<Longrightarrow> t \<notin> E \<Longrightarrow> mu_priority (mutexes y m) \<le> mprio y t"
    "mprio y t \<le> init_priority y t"
    "mu_owner (mutexes y m) = Some t \<Longrightarrow> t \<notin> D \<Longrightarrow> mprio y t \<le> mu_priority (mutexes y m)"
  using assms unfolding mu_prios_def by blast+

lemma mu_priosI:
  assumes "\<And>m. prio_sorted (mu_kernel y) (mu_waiters (mutexes y m))"
    "\<And>t m. t \<in> waiting y m \<Longrightarrow> mu_priority (mutexes y m) \<le> mprio y t"
    "\<And>t. mprio y t \<le> init_priority y t"
    "\<And>t m. mu_owner (mutexes y m) = Some t \<Longrightarrow> t \<notin> D \<Longrightarrow> mprio y t \<le> mu_priority (mutexes y m)"
  shows "mu_prios {} D y"
  using assms unfolding mu_prios_def by simp

text \<open>
  The priorities are exactly the inherited ones, except for the mutexes of \<open>M\<close> and the threads
  of \<open>D\<close>.
\<close>

definition mu_exact :: "mid set \<Rightarrow> tid set \<Rightarrow> mu_state \<Rightarrow> bool" where
  "mu_exact M D y \<longleftrightarrow>
    (\<forall>m. m \<notin> M \<longrightarrow> mu_priority (mutexes y m) = waiters_prio (mu_kernel y) (mu_waiters (mutexes y m))) \<and>
    (\<forall>t. t \<notin> D \<longrightarrow> mprio y t = thread_get_mutex_priority y t)"

text \<open>\<open>y'\<close> differs from \<open>y\<close> in priorities and in the order of wait lists only.\<close>

definition reprio :: "mu_state \<Rightarrow> mu_state \<Rightarrow> bool" where
  "reprio y y' \<longleftrightarrow>
    (\<forall>t. (threads (mu_kernel y') t)\<lparr>current_priority := 0\<rparr> = (threads (mu_kernel y) t)\<lparr>current_priority := 0\<rparr>) \<and>
    mu_self y' = mu_self y \<and> pending_object y' = pending_object y \<and>
    taken_object_list y' = taken_object_list y \<and> init_priority y' = init_priority y \<and>
    (\<forall>m. mu_owner (mutexes y' m) = mu_owner (mutexes y m) \<and> mu_hold (mutexes y' m) = mu_hold (mutexes y m) \<and>
       ceiling_priority (mutexes y' m) = ceiling_priority (mutexes y m) \<and>
       mset (mu_waiters (mutexes y' m)) = mset (mu_waiters (mutexes y m)))"

lemma reprio_refl [simp]: "reprio y y"
  by (simp add: reprio_def)

lemma reprio_trans: "reprio x y \<Longrightarrow> reprio y z \<Longrightarrow> reprio x z"
  by (simp add: reprio_def)

lemma reprio_threads:
  assumes "reprio y y'"
  shows "stat (threads (mu_kernel y') t) = stat (threads (mu_kernel y) t)"
    "thread_error (threads (mu_kernel y') t) = thread_error (threads (mu_kernel y) t)"
    "sched_flag_ttmr_set (threads (mu_kernel y') t) = sched_flag_ttmr_set (threads (mu_kernel y) t)"
    "timer_activated (threads (mu_kernel y') t) = timer_activated (threads (mu_kernel y) t)"
proof -
  have "(threads (mu_kernel y') t)\<lparr>current_priority := 0\<rparr> = (threads (mu_kernel y) t)\<lparr>current_priority := 0\<rparr>"
    using assms by (simp add: reprio_def)
  then show "stat (threads (mu_kernel y') t) = stat (threads (mu_kernel y) t)"
    "thread_error (threads (mu_kernel y') t) = thread_error (threads (mu_kernel y) t)"
    "sched_flag_ttmr_set (threads (mu_kernel y') t) = sched_flag_ttmr_set (threads (mu_kernel y) t)"
    "timer_activated (threads (mu_kernel y') t) = timer_activated (threads (mu_kernel y) t)"
    by (cases "threads (mu_kernel y') t"; cases "threads (mu_kernel y) t"; simp)+
qed

lemma reprio_suspended: "reprio y y' \<Longrightarrow> mu_suspended y' t = mu_suspended y t"
  by (simp add: rt_sched_thread_is_suspended_def reprio_threads)

lemma reprio_wakeable: "reprio y y' \<Longrightarrow> wakeable (mu_kernel y') t = wakeable (mu_kernel y) t"
  by (simp add: wakeable_def reprio_suspended reprio_threads)

lemma reprio_waiting: "reprio y y' \<Longrightarrow> waiting y' m = waiting y m"
  unfolding waiting_def by (rule mset_eq_setD) (simp add: reprio_def)

lemma reprio_fields:
  assumes "reprio y y'"
  shows "mu_owner (mutexes y' m) = mu_owner (mutexes y m)" "mu_hold (mutexes y' m) = mu_hold (mutexes y m)"
    "ceiling_priority (mutexes y' m) = ceiling_priority (mutexes y m)"
    "pending_object y' = pending_object y" "taken_object_list y' = taken_object_list y"
    "init_priority y' = init_priority y" "mu_self y' = mu_self y"
  using assms by (simp_all add: reprio_def)

lemma reprio_shape:
  assumes r: "reprio y y'" and s: "mu_shape y"
  shows "mu_shape y'"
proof -
  have ms: "mset (mu_waiters (mutexes y' m)) = mset (mu_waiters (mutexes y m))" for m
    using r by (simp add: reprio_def)
  have d: "\<forall>m. distinct (mu_waiters (mutexes y' m))"
    using mset_eq_imp_distinct_iff [OF ms] s by (simp add: mu_shape_def)
  have e: "mu_waiters (mutexes y' m) = [] \<longleftrightarrow> mu_waiters (mutexes y m) = []" for m
    using mset_eq_length [OF ms [of m]] by (simp only: length_0_conv [symmetric])
  from d s show ?thesis
    unfolding mu_shape_def reprio_wakeable [OF r] reprio_suspended [OF r] reprio_waiting [OF r]
      reprio_threads [OF r] reprio_fields [OF r] e
    apply (elim conjE)
    apply (intro conjI)
    apply assumption+
    done
qed

lemma mu_shapeD:
  assumes "mu_shape y"
  shows "distinct (mu_waiters (mutexes y m))"
    "t \<in> waiting y m \<Longrightarrow> wakeable (mu_kernel y) t"
    "t \<in> waiting y m \<Longrightarrow> pending_object y t = Some m"
    "t \<in> waiting y m \<Longrightarrow> thread_error (threads (mu_kernel y) t) = RT_EOK"
    "mu_suspended y t \<Longrightarrow> pending_object y t = Some m \<Longrightarrow> t \<in> waiting y m"
    "mu_owner (mutexes y m) = None \<Longrightarrow> mu_waiters (mutexes y m) = []"
    "m \<in> set (taken_object_list y t) \<longleftrightarrow> mu_owner (mutexes y m) = Some t"
    "distinct (taken_object_list y t)"
    "mu_hold (mutexes y m) = 0 \<longleftrightarrow> mu_owner (mutexes y m) = None"
    "init_priority y t < RT_THREAD_PRIORITY_MAX"
    "finite {t. pending_object y t \<noteq> None}"
    "stat (threads (mu_kernel y) (mu_self y)) \<noteq> RT_THREAD_READY"
  using assms unfolding mu_shape_def by blast+

lemma mu_shapeI:
  assumes "\<And>m. distinct (mu_waiters (mutexes y m))"
    and "\<And>t m. t \<in> waiting y m \<Longrightarrow> wakeable (mu_kernel y) t"
    and "\<And>t m. t \<in> waiting y m \<Longrightarrow> pending_object y t = Some m"
    and "\<And>t m. t \<in> waiting y m \<Longrightarrow> thread_error (threads (mu_kernel y) t) = RT_EOK"
    and "\<And>t m. mu_suspended y t \<Longrightarrow> pending_object y t = Some m \<Longrightarrow> t \<in> waiting y m"
    and "\<And>m. mu_owner (mutexes y m) = None \<Longrightarrow> mu_waiters (mutexes y m) = []"
    and "\<And>t m. m \<in> set (taken_object_list y t) \<longleftrightarrow> mu_owner (mutexes y m) = Some t"
    and "\<And>t. distinct (taken_object_list y t)"
    and "\<And>m. mu_hold (mutexes y m) = 0 \<longleftrightarrow> mu_owner (mutexes y m) = None"
    and "\<And>t. init_priority y t < RT_THREAD_PRIORITY_MAX"
    and "finite {t. pending_object y t \<noteq> None}"
    and "stat (threads (mu_kernel y) (mu_self y)) \<noteq> RT_THREAD_READY"
  shows "mu_shape y"
  using assms unfolding mu_shape_def by blast

lemma waiting_suspended: "mu_shape y \<Longrightarrow> t \<in> waiting y m \<Longrightarrow> mu_suspended y t"
  using mu_shapeD(2) unfolding wakeable_def by blast

lemma waiting_owner: "mu_shape y \<Longrightarrow> t \<in> waiting y m \<Longrightarrow> mu_owner (mutexes y m) \<noteq> None"
  using mu_shapeD(6) unfolding waiting_def by force

section \<open>The steps of a priority change\<close>

definition set_prio :: "tid \<Rightarrow> byte \<Rightarrow> mu_state \<Rightarrow> mu_state" where
  "set_prio t p = upd_kernel (upd_thread t (\<lambda>th. th\<lparr>current_priority := p\<rparr>))"

lemma set_prio_simps [simp]:
  "mprio (set_prio t p y) u = (if u = t then p else mprio y u)"
  "mutexes (set_prio t p y) = mutexes y" "pending_object (set_prio t p y) = pending_object y"
  "taken_object_list (set_prio t p y) = taken_object_list y" "init_priority (set_prio t p y) = init_priority y"
  "mu_self (set_prio t p y) = mu_self y" "waiting (set_prio t p y) m = waiting y m"
  "mu_suspended (set_prio t p y) u = mu_suspended y u"
  "stat (threads (mu_kernel (set_prio t p y)) u) = stat (threads (mu_kernel y) u)"
  by (simp_all add: set_prio_def upd_kernel_def threads_upd_thread waiting_def rt_sched_thread_is_suspended_def)

lemma reprio_set_prio [simp]: "reprio y (set_prio t p y)"
  by (simp add: reprio_def) (simp add: set_prio_def upd_kernel_def threads_upd_thread)

lemma change_priority_eq:
  assumes "stat (threads (mu_kernel y) (mu_self y)) \<noteq> RT_THREAD_READY" "p < RT_THREAD_PRIORITY_MAX"
  shows "rt_sched_thread_change_priority t p y = Some (set_prio t p y)"
proof -
  have "upd_thread t (\<lambda>th. th\<lparr>current_priority := p\<rparr>) k =
      rt_sched_insert_thread t (upd_thread t (\<lambda>th. th\<lparr>current_priority := p\<rparr>) k)"
    if "stat (threads k t) = RT_THREAD_READY" "t \<noteq> rt_current_thread k" for k
    using that by (intro kernel_eqI) (auto simp: rt_sched_insert_thread_def threads_upd_thread)
  moreover have "t \<noteq> mu_self y" if "stat (threads (mu_kernel y) t) = RT_THREAD_READY"
    using assms(1) that by auto
  ultimately show ?thesis
    using assms(2) by (auto simp: rt_sched_thread_change_priority_def set_prio_def upd_kernel_def Let_def)
qed

definition requeue :: "tid \<Rightarrow> mid \<Rightarrow> mu_state \<Rightarrow> mu_state" where
  "requeue t m y = mutex_update_priority m (upd_mutex m (\<lambda>x. x\<lparr>mu_waiters :=
     prio_insert (mu_kernel y) t (remove1 t (mu_waiters x))\<rparr>) y)"

lemma mutexes_requeue:
  "mutexes (requeue t m y) n =
    (if n = m then (mutexes y m)\<lparr>mu_waiters := prio_insert (mu_kernel y) t (remove1 t (mu_waiters (mutexes y m))),
       mu_priority := waiters_prio (mu_kernel y) (prio_insert (mu_kernel y) t (remove1 t (mu_waiters (mutexes y m))))\<rparr>
     else mutexes y n)"
  by (simp add: requeue_def mutex_update_priority_def upd_mutex_def)

lemma requeue_simps [simp]:
  "mu_kernel (requeue t m y) = mu_kernel y" "pending_object (requeue t m y) = pending_object y"
  "taken_object_list (requeue t m y) = taken_object_list y" "init_priority (requeue t m y) = init_priority y"
  "mu_owner (mutexes (requeue t m y) n) = mu_owner (mutexes y n)"
  "mu_hold (mutexes (requeue t m y) n) = mu_hold (mutexes y n)"
  "ceiling_priority (mutexes (requeue t m y) n) = ceiling_priority (mutexes y n)"
  "n \<noteq> m \<Longrightarrow> mutexes (requeue t m y) n = mutexes y n"
  by (simp_all add: requeue_def mutex_update_priority_def upd_mutex_def)

lemma mset_prio_insert: "mset (prio_insert k t ts) = add_mset t (mset ts)"
  by (induction ts) auto

lemma reprio_requeue: "t \<in> waiting y m \<Longrightarrow> reprio y (requeue t m y)"
  by (simp add: reprio_def mutexes_requeue mset_prio_insert waiting_def)

lemma waiters_prio_le: "prio_sorted k ws \<Longrightarrow> t \<in> set ws \<Longrightarrow> waiters_prio k ws \<le> prio k t"
  by (cases ws) (auto simp: waiters_prio_def prio_sorted_def)

text \<open>One round of the chain: the thread takes its place, the priority of the mutex follows.\<close>

lemma requeue_prios:
  assumes s: "mu_shape y" and pr: "mu_prios {t} {} y" and t: "t \<in> waiting y m"
    and w: "mu_owner (mutexes y m) = Some w"
  shows "mu_prios {} {w} (requeue t m y)"
proof -
  let ?k = "mu_kernel y" and ?ws = "mu_waiters (mutexes y m)"
  let ?new = "prio_insert ?k t (remove1 t ?ws)"
  have "remove1 t ?ws = filter (\<lambda>u. u \<notin> {t}) ?ws"
    using mu_shapeD(1) [OF s] by (auto simp: distinct_remove1_removeAll removeAll_filter_not_eq intro!: filter_cong)
  then have sorted: "prio_sorted ?k ?new"
    using pr by (simp add: mu_prios_def prio_sorted_insert)
  have own: "t \<notin> waiting y n" if "n \<noteq> m" for n
    using mu_shapeD(3) [OF s, of t n] mu_shapeD(3) [OF s t] that by auto
  then have other: "filter (\<lambda>u. u \<notin> {t}) (mu_waiters (mutexes y n)) = mu_waiters (mutexes y n)" if "n \<noteq> m" for n
    using that by (auto simp: waiting_def filter_id_conv)
  have "prio_sorted ?k (mu_waiters (mutexes (requeue t m y) n))" for n
    using sorted pr other [of n] by (auto simp: mutexes_requeue mu_prios_def dest: spec [of _ n])
  moreover have "mu_priority (mutexes (requeue t m y) n) \<le> mprio y u" if "u \<in> waiting (requeue t m y) n" for n u
  proof (cases "n = m")
    case True
    then show ?thesis using that waiters_prio_le [OF sorted] by (simp add: waiting_def mutexes_requeue)
  next
    case False
    then show ?thesis using that pr own [of n] by (auto simp: mu_prios_def waiting_def)
  qed
  moreover have "mprio y u \<le> mu_priority (mutexes (requeue t m y) n)"
    if "mu_owner (mutexes y n) = Some u" "u \<noteq> w" for n u
    using that w pr by (cases "n = m") (auto simp: mu_prios_def)
  ultimately show ?thesis
    using pr by (auto simp: mu_prios_def)
qed

lemma requeue_exact:
  assumes "mu_shape y" "mu_exact {m} {} y" "t \<in> waiting y m" "mu_owner (mutexes y m) = Some w"
  shows "mu_exact {} {w} (requeue t m y)"
proof -
  have "thread_get_mutex_priority (requeue t m y) u = thread_get_mutex_priority y u" if "u \<noteq> w" for u
  proof (rule mutex_priority_cong)
    fix n assume "n \<in> set (taken_object_list y u)"
    then have "n \<noteq> m" using mu_shapeD(7) [OF assms(1), of n u] assms(4) that by auto
    then show "mu_priority (mutexes (requeue t m y) n) = mu_priority (mutexes y n)" by simp
  qed simp_all
  then show ?thesis
    using assms(2) by (auto simp: mu_exact_def mutexes_requeue)
qed

lemma set_prio_prios:
  assumes "mu_prios {} {w} y" "p \<le> init_priority y w"
    and "\<And>m. mu_owner (mutexes y m) = Some w \<Longrightarrow> p \<le> mu_priority (mutexes y m)"
  shows "mu_prios {w} {} (set_prio w p y)"
proof -
  have "prio_sorted (mu_kernel (set_prio w p y)) (filter (\<lambda>t. t \<notin> {w}) (mu_waiters (mutexes y m)))" for m
  proof -
    have "prio_sorted (mu_kernel y) (filter (\<lambda>t. t \<notin> {w}) (mu_waiters (mutexes y m)))"
      using assms(1) by (auto simp: mu_prios_def prio_sorted_def sorted_wrt_filter)
    then show ?thesis by (rule iffD1 [OF prio_sorted_cong, rotated]) auto
  qed
  then show ?thesis using assms by (auto simp: mu_prios_def)
qed

lemma set_prio_exact:
  assumes s: "mu_shape y" and "mu_exact {} {w} y" "p = thread_get_mutex_priority y w"
    and "\<And>m. w \<in> waiting y m \<Longrightarrow> m \<in> M"
  shows "mu_exact M {} (set_prio w p y)"
proof -
  have "thread_get_mutex_priority (set_prio w p y) u = thread_get_mutex_priority y u" for u
    by (rule mutex_priority_cong) simp_all
  moreover have "waiters_prio (mu_kernel (set_prio w p y)) (mu_waiters (mutexes y m)) =
      waiters_prio (mu_kernel y) (mu_waiters (mutexes y m))" if "m \<notin> M" for m
  proof -
    have "w \<notin> waiting y m" using assms(4) that by blast
    then show ?thesis by (auto simp: waiters_prio_def waiting_def split: list.splits)
  qed
  ultimately show ?thesis using assms(2,3) by (auto simp: mu_exact_def)
qed

lemma prios_not_waiting:
  assumes "mu_prios {t} D y" "\<And>m. t \<notin> waiting y m"
  shows "mu_prios {} D y"
proof -
  have "filter (\<lambda>u. u \<notin> {t}) (mu_waiters (mutexes y m)) = mu_waiters (mutexes y m)" for m
    using assms(2) [of m] by (auto simp: waiting_def filter_id_conv)
  then show ?thesis using assms by (auto simp: mu_prios_def)
qed

text \<open>A thread whose priority is already the one its mutexes ask for is in order.\<close>

lemma prios_owner_done:
  assumes "mu_shape y" "mu_prios {} {w} y" "thread_get_mutex_priority y w = mprio y w"
  shows "mu_prios {} {} y"
proof -
  have "mprio y w \<le> mu_priority (mutexes y m)" if "mu_owner (mutexes y m) = Some w" for m
    using mutex_priority_le(2) [of m y w] mu_shapeD(7) [OF assms(1), of m w] that assms(3) by simp
  then show ?thesis using assms(2) unfolding mu_prios_def by blast
qed

lemma exact_owner_done:
  assumes "mu_exact {} {w} y" "thread_get_mutex_priority y w = mprio y w"
  shows "mu_exact {} {} y"
proof -
  have "mprio y t = thread_get_mutex_priority y t" for t
    using assms by (cases "t = w") (auto simp: mu_exact_def)
  then show ?thesis using assms(1) by (simp add: mu_exact_def)
qed

section \<open>The chain ends and restores the order\<close>

text \<open>
  Every priority given out along the chain is at most the one before, so a thread that the
  chain meets again, in a deadlock, gets a strictly smaller value: the sum over the waiting
  threads, with 256 for those not met yet, decreases.
\<close>

definition pending_threads :: "mu_state \<Rightarrow> tid set" where
  "pending_threads y = {t. pending_object y t \<noteq> None}"

definition chain_measure :: "tid set \<Rightarrow> mu_state \<Rightarrow> nat" where
  "chain_measure V y = (\<Sum>t\<in>pending_threads y. if t \<in> V then unat (mprio y t) else 256)"

lemma unat_byte: "unat (x :: byte) < 256"
  using unsigned_less [of x] by simp

lemma chain_measure_step:
  assumes "mu_shape y" "w \<in> pending_threads y" "\<forall>v\<in>V. p \<le> mprio y v" "p \<noteq> mprio y w"
  shows "chain_measure (insert w V) (set_prio w p y) < chain_measure V y"
proof -
  have pt: "pending_threads (set_prio w p y) = pending_threads y"
    by (simp add: pending_threads_def)
  have fin: "finite (pending_threads y)"
    using mu_shapeD(11) [OF assms(1)] by (simp add: pending_threads_def)
  have "unat p < (if w \<in> V then unat (mprio y w) else 256)"
  proof (cases "w \<in> V")
    case True
    then have "p < mprio y w" using assms(3,4) by (simp add: order.not_eq_order_implies_strict)
    then show ?thesis using True by (simp add: word_less_nat_alt)
  qed (simp add: unat_byte)
  then show ?thesis
    unfolding chain_measure_def pt
    by (intro sum_strict_mono_ex1 [OF fin]) (use assms(2) in auto)
qed

lemma priority_chain_unfold:
  assumes "mu_suspended y t" "pending_object y t = Some m" "mu_owner (mutexes y m) = Some w"
    and "mu_shape y"
  shows "priority_chain t y =
    (let p = thread_get_mutex_priority (requeue t m y) w
     in if p \<noteq> mprio y w
        then (case rt_sched_thread_change_priority w p (requeue t m y) of
                None \<Rightarrow> None | Some y2 \<Rightarrow> priority_chain w y2)
        else Some (requeue t m y))"
  using assms(1-3) by (subst priority_chain.simps)
    (simp add: requeue_def [symmetric] rt_susp_list_enqueue_def Let_def)

lemma chain_total:
  assumes "mu_shape y" "mu_prios {t} {} y" "t \<in> V" "\<forall>v\<in>V. mprio y t \<le> mprio y v"
  shows "\<exists>y'. priority_chain t y = Some y' \<and> mu_prios {} {} y' \<and> reprio y y' \<and>
    (mu_exact {m. t \<in> waiting y m} {} y \<longrightarrow> mu_exact {} {} y')"
  using assms
proof (induction "chain_measure V y" arbitrary: y t V rule: less_induct)
  case less
  note s = less.prems(1)
  show ?case
  proof (cases "mu_suspended y t \<and> pending_object y t \<noteq> None")
    case False
    have "priority_chain t y = Some y" using False by (subst priority_chain.simps) auto
    moreover have nw: "t \<notin> waiting y m" for m
      using False waiting_suspended [OF s] mu_shapeD(3) [OF s] by blast
    moreover have "mu_prios {} {} y" by (rule prios_not_waiting [OF less.prems(2) nw])
    ultimately show ?thesis by simp
  next
    case True
    then obtain m where m: "mu_suspended y t" "pending_object y t = Some m" by blast
    have t: "t \<in> waiting y m" by (rule mu_shapeD(5) [OF s m])
    then obtain w where w: "mu_owner (mutexes y m) = Some w" using waiting_owner [OF s] by blast
    let ?y1 = "requeue t m y"
    define p where "p = thread_get_mutex_priority ?y1 w"
    have r1: "reprio y ?y1" by (rule reprio_requeue [OF t])
    have s1: "mu_shape ?y1" by (rule reprio_shape [OF r1 s])
    have pr1: "mu_prios {} {w} ?y1" by (rule requeue_prios [OF s less.prems(2) t w])
    have held: "p \<le> mu_priority (mutexes ?y1 n)" if "mu_owner (mutexes ?y1 n) = Some w" for n
      using mutex_priority_le(2) [of n ?y1 w] mu_shapeD(7) [OF s1, of n w] that by (simp add: p_def)
    have "mu_priority (mutexes ?y1 m) \<le> mprio y t"
      using pr1 t reprio_waiting [OF r1, of m] unfolding mu_prios_def by simp
    then have "p \<le> mprio y t" using held [of m] w by simp
    then have V: "\<forall>v\<in>V. p \<le> mprio ?y1 v" using less.prems(4) by fastforce
    have wm: "{n. t \<in> waiting y n} = {m}"
      using t mu_shapeD(3) [OF s t] by (auto dest: mu_shapeD(3) [OF s])
    have ex1: "mu_exact {m. t \<in> waiting y m} {} y \<Longrightarrow> mu_exact {} {w} ?y1"
      unfolding wm by (rule requeue_exact [OF s _ t w])
    have un: "priority_chain t y = (if p \<noteq> mprio y w
        then (case rt_sched_thread_change_priority w p ?y1 of None \<Rightarrow> None | Some y2 \<Rightarrow> priority_chain w y2)
        else Some ?y1)"
      unfolding priority_chain_unfold [OF m w s] p_def Let_def ..
    show ?thesis
    proof (cases "p = mprio y w")
      case True
      have "mu_prios {} {} ?y1" by (rule prios_owner_done [OF s1 pr1]) (simp add: p_def [symmetric] True)
      moreover have "mu_exact {} {} ?y1" if "mu_exact {} {w} ?y1"
        by (rule exact_owner_done [OF that]) (simp add: p_def [symmetric] True)
      ultimately show ?thesis using un True r1 ex1 by auto
    next
      case False
      have p_le: "p \<le> init_priority ?y1 w" unfolding p_def by (rule mutex_priority_le(1))
      have p32: "p < RT_THREAD_PRIORITY_MAX"
        using p_le mu_shapeD(10) [OF s1, of w] by (rule order.strict_trans1)
      let ?y2 = "set_prio w p ?y1"
      have r2: "reprio ?y1 ?y2" by simp
      have s2: "mu_shape ?y2" by (rule reprio_shape [OF r2 s1])
      have pr2: "mu_prios {w} {} ?y2" by (rule set_prio_prios [OF pr1 p_le held])
      have ch: "priority_chain t y = priority_chain w ?y2"
        using un False by (simp add: change_priority_eq [OF mu_shapeD(12) [OF s1] p32])
      have ex2: "mu_exact {n. w \<in> waiting ?y2 n} {} ?y2" if "mu_exact {m. t \<in> waiting y m} {} y"
        by (rule set_prio_exact [OF s1 ex1 [OF that] p_def]) simp
      show ?thesis
      proof (cases "w \<in> pending_threads ?y1")
        case True
        have "chain_measure V ?y1 = chain_measure V y"
          by (simp add: chain_measure_def pending_threads_def cong: if_cong)
        then have "chain_measure (insert w V) ?y2 < chain_measure V y"
          using chain_measure_step [OF s1 True V] False by simp
        moreover have "\<forall>v\<in>insert w V. mprio ?y2 w \<le> mprio ?y2 v" using V by auto
        ultimately obtain y' where "priority_chain w ?y2 = Some y'"
          "mu_prios {} {} y'" "reprio ?y2 y'" "mu_exact {n. w \<in> waiting ?y2 n} {} ?y2 \<longrightarrow> mu_exact {} {} y'"
          using less.hyps [OF _ s2 pr2, of "insert w V"] by blast
        then show ?thesis using ch ex2 reprio_trans [OF r1 reprio_trans [OF r2]] by auto
      next
        case nw: False
        have "priority_chain w ?y2 = Some ?y2"
          using nw by (subst priority_chain.simps) (auto simp: pending_threads_def)
        moreover have no: "w \<notin> waiting ?y2 n" for n
          using mu_shapeD(3) [OF s2, of w n] nw by (auto simp: pending_threads_def)
        moreover have "mu_prios {} {} ?y2" by (rule prios_not_waiting [OF pr2 no])
        ultimately show ?thesis using ch ex2 reprio_trans [OF r1 r2] by auto
      qed
    qed
  qed
qed

lemma update_total:
  assumes "mu_shape y" "mu_prios {} {w} y" "p \<le> init_priority y w"
    and "\<And>m. mu_owner (mutexes y m) = Some w \<Longrightarrow> p \<le> mu_priority (mutexes y m)"
  obtains y' where "thread_update_priority w p y = Some y'" "mu_prios {} {} y'" "reprio y y'"
    "mu_exact {} {w} y \<and> p = thread_get_mutex_priority y w \<longrightarrow> mu_exact {} {} y'"
proof -
  let ?y1 = "set_prio w p y"
  have p32: "p < RT_THREAD_PRIORITY_MAX"
    using assms(3) mu_shapeD(10) [OF assms(1), of w] by (rule order.strict_trans1)
  have r1: "reprio y ?y1" by simp
  have s1: "mu_shape ?y1" by (rule reprio_shape [OF r1 assms(1)])
  have "mu_prios {w} {} ?y1" by (rule set_prio_prios [OF assms(2-4)])
  from chain_total [OF s1 this, of "{w}"] obtain y' where y': "priority_chain w ?y1 = Some y'"
    "mu_prios {} {} y'" "reprio ?y1 y'" "mu_exact {m. w \<in> waiting ?y1 m} {} ?y1 \<longrightarrow> mu_exact {} {} y'"
    by auto
  have "mu_exact {m. w \<in> waiting ?y1 m} {} ?y1"
    if "mu_exact {} {w} y" "p = thread_get_mutex_priority y w"
    by (rule set_prio_exact [OF assms(1) that]) simp
  with y' show ?thesis
    by (intro that [of y']) (auto simp: thread_update_priority_def change_priority_eq [OF mu_shapeD(12) [OF assms(1)] p32]
        intro: reprio_trans [OF r1])
qed

end
