(* ===== verification/Mutex_Ops.thy ===== *)
theory Mutex_Ops
  imports Mutex_Inherit
begin

text \<open>
  Every operation of the mutex returns and keeps the lists and priorities in order
  (\<open>mu_inv\<close>); without timeouts and ceilings it also keeps the priorities exact.
\<close>

definition mu_inv :: "mu_state \<Rightarrow> bool" where
  "mu_inv y \<longleftrightarrow> mu_shape y \<and> mu_prios {} {} y"

definition no_ceilings :: "mu_state \<Rightarrow> bool" where
  "no_ceilings y \<longleftrightarrow> (\<forall>m. ceiling_priority (mutexes y m) = 0xFF)"

lemma byte_le_FF [simp]: "(x :: byte) \<le> 0xFF"
  using unat_byte [of x] by (simp add: word_le_nat_alt)

section \<open>Frames\<close>

lemma upd_mutex_simps [simp]:
  "mutexes (upd_mutex m f y) n = (if n = m then f (mutexes y m) else mutexes y n)"
  "mu_kernel (upd_mutex m f y) = mu_kernel y" "pending_object (upd_mutex m f y) = pending_object y"
  "taken_object_list (upd_mutex m f y) = taken_object_list y" "init_priority (upd_mutex m f y) = init_priority y"
  by (simp_all add: upd_mutex_def)

lemma upd_kernel_simps [simp]:
  "mutexes (upd_kernel f y) = mutexes y" "mu_kernel (upd_kernel f y) = f (mu_kernel y)"
  "pending_object (upd_kernel f y) = pending_object y" "taken_object_list (upd_kernel f y) = taken_object_list y"
  "init_priority (upd_kernel f y) = init_priority y" "waiting (upd_kernel f y) m = waiting y m"
  by (simp_all add: upd_kernel_def waiting_def)

lemma mu_suspended_cong:
  "threads (mu_kernel y') t = threads (mu_kernel y) t \<Longrightarrow> mu_suspended y' t = mu_suspended y t"
  by (simp add: rt_sched_thread_is_suspended_def)

lemma wakeable_cong:
  "threads k' t = threads k t \<Longrightarrow> wakeable k' t = wakeable k t"
  by (simp add: wakeable_def rt_sched_thread_is_suspended_def)

text \<open>Changes to threads of \<open>T\<close> that wait for no mutex, and are not made to wait.\<close>

lemma shape_frame:
  assumes s: "mu_shape y" and mx: "mutexes y' = mutexes y"
    and same: "taken_object_list y' = taken_object_list y" "init_priority y' = init_priority y"
    and other: "\<And>u. u \<notin> T \<Longrightarrow> threads (mu_kernel y') u = threads (mu_kernel y) u"
      "\<And>u. u \<notin> T \<Longrightarrow> pending_object y' u = pending_object y u"
    and T: "\<And>u m. u \<in> T \<Longrightarrow> u \<notin> waiting y m"
      "\<And>u. u \<in> T \<Longrightarrow> mu_suspended y' u \<Longrightarrow> pending_object y' u = None"
    and pend: "\<And>u. pending_object y' u \<noteq> None \<Longrightarrow> pending_object y u \<noteq> None"
    and cur: "stat (threads (mu_kernel y') (mu_self y')) \<noteq> RT_THREAD_READY"
  shows "mu_shape y'"
proof -
  have w: "waiting y' m = waiting y m" for m by (simp add: waiting_def mx)
  have nT: "u \<notin> T" if "u \<in> waiting y m" for u m using T(1) that by blast
  have 1: "\<forall>m. \<forall>t\<in>waiting y' m. wakeable (mu_kernel y') t \<and> pending_object y' t = Some m \<and>
       thread_error (threads (mu_kernel y') t) = RT_EOK"
    using mu_shapeD(2-4) [OF s] other nT wakeable_cong unfolding w by metis
  have 2: "\<forall>t m. mu_suspended y' t \<and> pending_object y' t = Some m \<longrightarrow> t \<in> waiting y' m"
    using mu_shapeD(5) [OF s] other T(2) mu_suspended_cong unfolding w by (metis option.distinct(1))
  have 3: "finite {t. pending_object y' t \<noteq> None}"
    by (rule finite_subset [OF _ mu_shapeD(11) [OF s]]) (use pend in blast)
  show ?thesis
    using 1 2 3 cur s unfolding mu_shape_def mx same w by blast
qed

lemma prios_frame:
  assumes "mu_prios E D y" "mutexes y' = mutexes y" "init_priority y' = init_priority y"
    "\<And>t. mprio y' t = mprio y t"
  shows "mu_prios E D y'"
proof -
  have "prio_sorted (mu_kernel y') ts = prio_sorted (mu_kernel y) ts" for ts
    by (rule prio_sorted_cong) (simp add: assms(4))
  then show ?thesis using assms by (simp add: mu_prios_def waiting_def)
qed

lemma exact_frame:
  assumes "mu_exact M D y" "mutexes y' = mutexes y" "init_priority y' = init_priority y"
    "taken_object_list y' = taken_object_list y" "\<And>t. mprio y' t = mprio y t"
  shows "mu_exact M D y'"
proof -
  have "thread_get_mutex_priority y' t = thread_get_mutex_priority y t" for t
    by (rule mutex_priority_cong) (simp_all add: assms)
  moreover have "waiters_prio (mu_kernel y') ws = waiters_prio (mu_kernel y) ws" for ws
    by (simp add: waiters_prio_def assms(5) split: list.splits)
  ultimately show ?thesis using assms by (simp add: mu_exact_def)
qed

lemma running_not_waiting:
  "mu_shape y \<Longrightarrow> stat (threads (mu_kernel y) t) = RT_THREAD_RUNNING \<Longrightarrow> t \<notin> waiting y m"
  using waiting_suspended [of y t m] by (auto simp: rt_sched_thread_is_suspended_def)

text \<open>A new error code of a thread that waits for no mutex.\<close>

definition set_error :: "tid \<Rightarrow> int \<Rightarrow> mu_state \<Rightarrow> mu_state" where
  "set_error t e = upd_kernel (upd_thread t (\<lambda>th. th\<lparr>thread_error := e\<rparr>))"

lemma set_error_simps [simp]:
  "mprio (set_error t e y) u = mprio y u" "mutexes (set_error t e y) = mutexes y"
  "pending_object (set_error t e y) = pending_object y" "taken_object_list (set_error t e y) = taken_object_list y"
  "init_priority (set_error t e y) = init_priority y" "mu_self (set_error t e y) = mu_self y"
  "waiting (set_error t e y) m = waiting y m" "mu_suspended (set_error t e y) u = mu_suspended y u"
  "stat (threads (mu_kernel (set_error t e y)) u) = stat (threads (mu_kernel y) u)"
  by (simp_all add: set_error_def threads_upd_thread rt_sched_thread_is_suspended_def)

lemma set_error_more [simp]:
  "thread_error (threads (mu_kernel (set_error t e y)) u) = (if u = t then e else thread_error (threads (mu_kernel y) u))"
  "no_ceilings (set_error t e y) = no_ceilings y"
  by (simp_all add: set_error_def threads_upd_thread no_ceilings_def)

lemma set_error_inv:
  assumes "mu_shape y" "stat (threads (mu_kernel y) t) = RT_THREAD_RUNNING"
  shows "mu_shape (set_error t e y)"
proof (rule shape_frame [OF assms(1), where T = "{t}"])
  show "threads (mu_kernel (set_error t e y)) u = threads (mu_kernel y) u" if "u \<notin> {t}" for u
    using that by (simp add: set_error_def)
  show "u \<notin> waiting y m" if "u \<in> {t}" for u m
    using running_not_waiting [OF assms] that by simp
  show "pending_object (set_error t e y) u = None" if "u \<in> {t}" "mu_suspended (set_error t e y) u" for u
    using assms(2) that by (simp add: rt_sched_thread_is_suspended_def)
qed (use mu_shapeD(12) [OF assms(1)] in simp_all)

lemma set_error_prios [simp]: "mu_prios E D y \<Longrightarrow> mu_prios E D (set_error t e y)"
  by (rule prios_frame) simp_all

lemma set_error_exact [simp]: "mu_exact M D y \<Longrightarrow> mu_exact M D (set_error t e y)"
  by (rule exact_frame) simp_all

section \<open>Taking a free mutex\<close>

lemma update_running:
  assumes "stat (threads (mu_kernel y) t) = RT_THREAD_RUNNING" "p < RT_THREAD_PRIORITY_MAX"
    "stat (threads (mu_kernel y) (mu_self y)) \<noteq> RT_THREAD_READY"
  shows "thread_update_priority t p y = Some (set_prio t p y)"
proof -
  have "\<not> mu_suspended (set_prio t p y) t"
    using assms(1) by (simp add: rt_sched_thread_is_suspended_def)
  then have "priority_chain t (set_prio t p y) = Some (set_prio t p y)"
    by (subst priority_chain.simps) simp
  then show ?thesis
    unfolding thread_update_priority_def change_priority_eq [OF assms(3,2)] by simp
qed

definition owned_by :: "mid \<Rightarrow> tid \<Rightarrow> mu_state \<Rightarrow> mu_state" where
  "owned_by m t y = (upd_mutex m (\<lambda>x. x\<lparr>mu_owner := Some t, mu_priority := 0xFF, mu_hold := 1\<rparr>) y)
     \<lparr>taken_object_list := (taken_object_list y)(t := m # taken_object_list y t)\<rparr>"

lemma owned_by_simps [simp]:
  "mu_kernel (owned_by m t y) = mu_kernel y" "pending_object (owned_by m t y) = pending_object y"
  "init_priority (owned_by m t y) = init_priority y"
  "mu_owner (mutexes (owned_by m t y) n) = (if n = m then Some t else mu_owner (mutexes y n))"
  "mu_hold (mutexes (owned_by m t y) n) = (if n = m then 1 else mu_hold (mutexes y n))"
  "mu_priority (mutexes (owned_by m t y) n) = (if n = m then 0xFF else mu_priority (mutexes y n))"
  "mu_waiters (mutexes (owned_by m t y) n) = mu_waiters (mutexes y n)"
  "ceiling_priority (mutexes (owned_by m t y) n) = ceiling_priority (mutexes y n)"
  "waiting (owned_by m t y) n = waiting y n"
  "taken_object_list (owned_by m t y) u = (if u = t then m # taken_object_list y t else taken_object_list y u)"
  by (simp_all add: owned_by_def waiting_def)

lemma owned_by_shape:
  assumes s: "mu_shape y" and free: "mu_owner (mutexes y m) = None"
  shows "mu_shape (owned_by m t y)"
proof (rule mu_shapeI)
  have nm: "m \<notin> set (taken_object_list y u)" for u using mu_shapeD(7) [OF s, of m u] free by simp
  show "n \<in> set (taken_object_list (owned_by m t y) u) \<longleftrightarrow> mu_owner (mutexes (owned_by m t y) n) = Some u" for n u
    using nm [of u] mu_shapeD(7) [OF s, of n u] by auto
  show "distinct (taken_object_list (owned_by m t y) u)" for u
    using nm mu_shapeD(8) [OF s] by simp
qed (use mu_shapeD(9-12) [OF s] in \<open>simp_all split: if_splits\<close>, (blast intro: mu_shapeD(1-6) [OF s])+)

lemma owned_by_prios:
  assumes "mu_prios {} {} y" "mu_waiters (mutexes y m) = []"
  shows "mu_prios {} {} (owned_by m t y)"
  using assms by (auto simp: mu_prios_def waiting_def)

lemma acquire_total:
  assumes inv: "mu_inv y" and run: "stat (threads (mu_kernel y) t) = RT_THREAD_RUNNING"
    and free: "mu_owner (mutexes y m) = None"
  obtains y' where "mutex_acquire m t y = Some y'" "mu_inv y'" "reprio (owned_by m t y) y'"
    "no_ceilings y \<longrightarrow> y' = owned_by m t y"
proof -
  let ?c = "ceiling_priority (mutexes y m)"
  let ?y1 = "upd_mutex m (\<lambda>x. x\<lparr>mu_owner := Some t, mu_priority := 0xFF, mu_hold := 1\<rparr>) y"
  let ?z = "owned_by m t y"
  have s: "mu_shape y" and pr: "mu_prios {} {} y" using inv by (simp_all add: mu_inv_def)
  have z: "mu_shape ?z" "mu_prios {} {} ?z"
    by (rule owned_by_shape [OF s free]) (rule owned_by_prios [OF pr mu_shapeD(6) [OF s free]])
  have nw: "t \<notin> waiting y n" for n by (rule running_not_waiting [OF s run])
  show ?thesis
  proof (cases "?c \<noteq> 0xFF \<and> ?c < mprio y t")
    case False
    then have "mutex_acquire m t y = Some ?z"
      by (auto simp: mutex_acquire_def Let_def owned_by_def)
    then show ?thesis using z by (intro that [of ?z]) (simp_all add: mu_inv_def)
  next
    case True
    have le: "mprio y t \<le> init_priority y t" using pr by (simp add: mu_prios_def)
    have "?c < init_priority y t" by (rule order.strict_trans2 [OF conjunct2 [OF True] le])
    then have c: "?c \<le> init_priority y t" "?c < RT_THREAD_PRIORITY_MAX"
      using order.strict_trans [OF _ mu_shapeD(10) [OF s, of t]] by simp_all
    have "thread_update_priority t ?c ?y1 = Some (set_prio t ?c ?y1)"
      by (rule update_running) (use run c mu_shapeD(12) [OF s] in simp_all)
    then have "mutex_acquire m t y = Some (set_prio t ?c ?z)"
      using True by (simp add: mutex_acquire_def Let_def owned_by_def set_prio_def upd_kernel_def upd_mutex_def)
    moreover have "mu_shape (set_prio t ?c ?z)" by (rule reprio_shape [OF reprio_set_prio z(1)])
    moreover have "mu_prios {t} {} (set_prio t ?c ?z)"
    proof (rule set_prio_prios)
      show "mu_prios {} {t} ?z" using z(2) by (simp add: mu_prios_def)
      fix n assume "mu_owner (mutexes ?z n) = Some t"
      then have "mprio ?z t \<le> mu_priority (mutexes ?z n)" using z(2) unfolding mu_prios_def by blast
      then show "?c \<le> mu_priority (mutexes ?z n)" using True by (simp split: if_splits)
    qed (use c in simp)
    then have "mu_prios {} {} (set_prio t ?c ?z)"
      by (rule prios_not_waiting) (simp add: nw)
    moreover have "\<not> no_ceilings y" using True by (auto simp: no_ceilings_def)
    ultimately show ?thesis
      by (intro that [of "set_prio t ?c ?z"]) (simp_all add: mu_inv_def)
  qed
qed

lemma owned_by_exact:
  assumes "mu_shape y" "mu_prios {} {} y" "mu_exact {} {} y" "no_ceilings y" "mu_owner (mutexes y m) = None"
  shows "mu_exact {} {} (owned_by m t y)"
proof -
  have "thread_get_mutex_priority (owned_by m t y) u = thread_get_mutex_priority y u" for u
  proof (rule order.antisym; unfold le_mutex_priority_iff [of _ "owned_by m t y"] le_mutex_priority_iff [of _ y])
    have nm: "m \<notin> set (taken_object_list y u)" using mu_shapeD(7) [OF assms(1), of m u] assms(5) by simp
    let ?z = "owned_by m t y"
    show "thread_get_mutex_priority ?z u \<le> init_priority y u \<and>
        (\<forall>n\<in>set (taken_object_list y u). thread_get_mutex_priority ?z u \<le> mu_priority (mutexes y n) \<and>
          thread_get_mutex_priority ?z u \<le> ceiling_priority (mutexes y n))"
      using nm le_mutex_priority_iff [of "thread_get_mutex_priority ?z u" ?z u] by (auto split: if_splits)
    show "thread_get_mutex_priority y u \<le> init_priority ?z u \<and>
        (\<forall>n\<in>set (taken_object_list ?z u). thread_get_mutex_priority y u \<le> mu_priority (mutexes ?z n) \<and>
          thread_get_mutex_priority y u \<le> ceiling_priority (mutexes ?z n))"
      using le_mutex_priority_iff [of "thread_get_mutex_priority y u" y u] assms(4)
      by (auto simp: no_ceilings_def)
  qed
  moreover have "mu_waiters (mutexes y m) = []" by (rule mu_shapeD(6) [OF assms(1,5)])
  ultimately show ?thesis using assms(3) by (auto simp: mu_exact_def waiters_prio_def)
qed

section \<open>Waiting\<close>

lemma suspend_frame:
  assumes "stat (threads k t) = RT_THREAD_RUNNING" "rt_thread_suspend_to_list t ws flag sf k = (ws', k', ret)"
  shows "u \<noteq> t \<Longrightarrow> threads k' u = threads k u" "stat (threads k' t) = Suspended sf"
    "thread_error (threads k' t) = thread_error (threads k t)"
  using assms
  by (auto simp: rt_thread_suspend_to_list_def Let_def rt_sched_thread_timer_stop_def rt_timer_stop_def
      split: if_splits)

definition joined :: "mid \<Rightarrow> tid \<Rightarrow> suspend_flag \<Rightarrow> mu_state \<Rightarrow> mu_state" where
  "joined m t sf y =
    (case rt_thread_suspend_to_list t (mu_waiters (mutexes y m)) RT_IPC_FLAG_PRIO sf (mu_kernel y) of
       (ws, k, ret) \<Rightarrow> (upd_mutex m (\<lambda>x. x\<lparr>mu_waiters := ws\<rparr>) (y\<lparr>mu_kernel := k\<rparr>))
         \<lparr>pending_object := (pending_object y)(t := Some m)\<rparr>)"

lemma joined_simps:
  assumes "stat (threads (mu_kernel y) t) = RT_THREAD_RUNNING"
  shows "mu_waiters (mutexes (joined m t sf y) n) =
      (if n = m then prio_insert (mu_kernel y) t (mu_waiters (mutexes y m)) else mu_waiters (mutexes y n))"
    "mprio (joined m t sf y) u = mprio y u" "mu_self (joined m t sf y) = mu_self y"
    "u \<noteq> t \<Longrightarrow> threads (mu_kernel (joined m t sf y)) u = threads (mu_kernel y) u"
    "stat (threads (mu_kernel (joined m t sf y)) t) = Suspended sf"
    "thread_error (threads (mu_kernel (joined m t sf y)) u) = thread_error (threads (mu_kernel y) u)"
    "wakeable (mu_kernel (joined m t sf y)) u \<longleftrightarrow> u = t \<or> wakeable (mu_kernel y) u"
    "mu_suspended (joined m t sf y) u \<longleftrightarrow> u = t \<or> mu_suspended y u"
    "pending_object (joined m t sf y) = (pending_object y)(t := Some m)"
    "taken_object_list (joined m t sf y) = taken_object_list y"
    "init_priority (joined m t sf y) = init_priority y"
    "mu_owner (mutexes (joined m t sf y) n) = mu_owner (mutexes y n)"
    "mu_hold (mutexes (joined m t sf y) n) = mu_hold (mutexes y n)"
    "mu_priority (mutexes (joined m t sf y) n) = mu_priority (mutexes y n)"
    "ceiling_priority (mutexes (joined m t sf y) n) = ceiling_priority (mutexes y n)"
proof -
  obtain ws k ret where r: "rt_thread_suspend_to_list t (mu_waiters (mutexes y m)) RT_IPC_FLAG_PRIO sf (mu_kernel y) = (ws, k, ret)"
    by (cases "rt_thread_suspend_to_list t (mu_waiters (mutexes y m)) RT_IPC_FLAG_PRIO sf (mu_kernel y)") auto
  have st: "stat (threads (mu_kernel y) t) \<in> {RT_THREAD_RUNNING, RT_THREAD_READY}" using assms by simp
  note run = suspend_running [OF st r] and frame = suspend_frame [OF assms r] and wake = suspend_wakeable(1) [OF st r]
  have k: "mu_kernel (joined m t sf y) = k" by (simp add: joined_def r upd_mutex_def)
  show "thread_error (threads (mu_kernel (joined m t sf y)) u) = thread_error (threads (mu_kernel y) u)"
    using frame k by (cases "u = t") auto
  show "mu_waiters (mutexes (joined m t sf y) n) =
      (if n = m then prio_insert (mu_kernel y) t (mu_waiters (mutexes y m)) else mu_waiters (mutexes y n))"
    using run(2) by (simp add: joined_def r rt_susp_list_enqueue_def)
  show "mprio (joined m t sf y) u = mprio y u" "mu_self (joined m t sf y) = mu_self y"
    "u \<noteq> t \<Longrightarrow> threads (mu_kernel (joined m t sf y)) u = threads (mu_kernel y) u"
    "stat (threads (mu_kernel (joined m t sf y)) t) = Suspended sf"
    "wakeable (mu_kernel (joined m t sf y)) u \<longleftrightarrow> u = t \<or> wakeable (mu_kernel y) u"
    "mu_suspended (joined m t sf y) u \<longleftrightarrow> u = t \<or> mu_suspended y u"
    using run frame wake by (simp_all add: k)
qed (simp_all add: joined_def split: prod.splits)

lemma joined_shape:
  assumes s: "mu_shape y" and run: "stat (threads (mu_kernel y) t) = RT_THREAD_RUNNING"
    and err: "thread_error (threads (mu_kernel y) t) = RT_EOK" and w: "mu_owner (mutexes y m) = Some w"
  shows "mu_shape (joined m t sf y)"
proof (rule mu_shapeI)
  let ?z = "joined m t sf y"
  note j = joined_simps [OF run]
  have nw: "t \<notin> waiting y n" for n by (rule running_not_waiting [OF s run])
  have wait: "u \<in> waiting ?z n \<longleftrightarrow> u \<in> waiting y n \<or> u = t \<and> n = m" for u n
    by (auto simp: waiting_def j(1))
  show "distinct (mu_waiters (mutexes ?z n))" for n
    using nw [of m] mu_shapeD(1) [OF s] by (simp add: j(1) waiting_def)
  show "wakeable (mu_kernel ?z) u" if "u \<in> waiting ?z n" for u n
    using that mu_shapeD(2) [OF s, of u n] by (auto simp: wait j(7))
  show "pending_object ?z u = Some n" if "u \<in> waiting ?z n" for u n
    using that mu_shapeD(3) [OF s, of u n] nw by (auto simp: wait j(9))
  show "thread_error (threads (mu_kernel ?z) u) = RT_EOK" if "u \<in> waiting ?z n" for u n
    using that mu_shapeD(4) [OF s, of u n] err by (auto simp: wait j(6))
  show "u \<in> waiting ?z n" if "mu_suspended ?z u" "pending_object ?z u = Some n" for u n
    using that mu_shapeD(5) [OF s, of u n] by (auto simp: wait j(8,9) split: if_splits)
  show "mu_waiters (mutexes ?z n) = []" if "mu_owner (mutexes ?z n) = None" for n
    using that w mu_shapeD(6) [OF s, of n] by (auto simp: j(1,12))
  show "finite {u. pending_object ?z u \<noteq> None}"
  proof (rule finite_subset)
    show "{u. pending_object ?z u \<noteq> None} \<subseteq> insert t {u. pending_object y u \<noteq> None}" by (auto simp: j(9))
  qed (use mu_shapeD(11) [OF s] in simp)
  show "stat (threads (mu_kernel ?z) (mu_self ?z)) \<noteq> RT_THREAD_READY"
    using mu_shapeD(12) [OF s] j(4,5) unfolding j(3) by (cases "mu_self y = t") auto
qed (use mu_shapeD(7-10) [OF s] in \<open>simp_all add: joined_simps [OF run]\<close>)

lemma joined_prios:
  assumes "mu_prios {} {} y" "stat (threads (mu_kernel y) t) = RT_THREAD_RUNNING"
  shows "mu_prios {t} {} (joined m t sf y)"
proof -
  note j = joined_simps [OF assms(2)]
  have same: "prio_sorted (mu_kernel (joined m t sf y)) ts = prio_sorted (mu_kernel y) ts" for ts
    by (rule prio_sorted_cong) (simp add: j(2))
  have "prio_sorted (mu_kernel y) (mu_waiters (mutexes y n))" for n
    using assms(1) by (simp add: mu_prios_def)
  then have "prio_sorted (mu_kernel y) (mu_waiters (mutexes (joined m t sf y) n))" for n
    by (simp add: j(1) prio_sorted_insert)
  then show ?thesis
    using assms(1) by (auto simp: mu_prios_def same prio_sorted_filter waiting_def j(1,2,11,12,14) split: if_splits)
qed

lemma waiters_prio_insert: "waiters_prio k (prio_insert k t ws) = min (prio k t) (waiters_prio k ws)"
  by (cases ws) (auto simp: waiters_prio_def min_def)

lemma joined_exact:
  assumes "mu_exact {} {} y" "stat (threads (mu_kernel y) t) = RT_THREAD_RUNNING"
  shows "mu_exact {m} {} (joined m t sf y)"
    "waiters_prio (mu_kernel (joined m t sf y)) (mu_waiters (mutexes (joined m t sf y) m)) =
      min (mprio y t) (mu_priority (mutexes y m))"
proof -
  note j = joined_simps [OF assms(2)]
  have wp: "waiters_prio (mu_kernel (joined m t sf y)) ws = waiters_prio (mu_kernel y) ws" for ws
    by (simp add: waiters_prio_def j(2) split: list.splits)
  show "waiters_prio (mu_kernel (joined m t sf y)) (mu_waiters (mutexes (joined m t sf y) m)) =
      min (mprio y t) (mu_priority (mutexes y m))"
    using assms(1) by (simp add: wp j(1) waiters_prio_insert mu_exact_def)
  have "thread_get_mutex_priority (joined m t sf y) u = thread_get_mutex_priority y u" for u
    by (rule mutex_priority_cong) (simp_all add: j)
  then show "mu_exact {m} {} (joined m t sf y)"
    using assms(1) by (simp add: mu_exact_def wp j(1,2,14))
qed

text \<open>A new priority of a mutex: what \<open>mutex_inherit\<close> and \<open>mutex_update_priority\<close> do.\<close>

definition set_mprio :: "mid \<Rightarrow> byte \<Rightarrow> mu_state \<Rightarrow> mu_state" where
  "set_mprio m p = upd_mutex m (\<lambda>x. x\<lparr>mu_priority := p\<rparr>)"

lemma set_mprio_simps [simp]:
  "mu_kernel (set_mprio m p y) = mu_kernel y" "pending_object (set_mprio m p y) = pending_object y"
  "taken_object_list (set_mprio m p y) = taken_object_list y" "init_priority (set_mprio m p y) = init_priority y"
  "mu_owner (mutexes (set_mprio m p y) n) = mu_owner (mutexes y n)"
  "mu_waiters (mutexes (set_mprio m p y) n) = mu_waiters (mutexes y n)"
  "ceiling_priority (mutexes (set_mprio m p y) n) = ceiling_priority (mutexes y n)"
  "mu_priority (mutexes (set_mprio m p y) n) = (if n = m then p else mu_priority (mutexes y n))"
  "waiting (set_mprio m p y) n = waiting y n" "reprio y (set_mprio m p y)"
  by (simp_all add: set_mprio_def waiting_def reprio_def)

lemma set_mprio_F:
  assumes "mu_shape y" "mu_owner (mutexes y m) \<noteq> Some u"
  shows "thread_get_mutex_priority (set_mprio m p y) u = thread_get_mutex_priority y u"
  by (rule mutex_priority_cong) (use mu_shapeD(7) [OF assms(1), of m u] assms(2) in auto)

lemma set_mprio_F_owner:
  assumes "mu_shape y" "mu_owner (mutexes y m) = Some w" "p \<le> mu_priority (mutexes y m)"
  shows "thread_get_mutex_priority (set_mprio m p y) w = min (thread_get_mutex_priority y w) p"
proof (rule order.antisym)
  let ?z = "set_mprio m p y"
  let ?F = "thread_get_mutex_priority ?z w"
  have m: "m \<in> set (taken_object_list y w)" using mu_shapeD(7) [OF assms(1), of m w] assms(2) by simp
  have p: "?F \<le> p" using mutex_priority_le(2) [of m ?z w] m by simp
  have "?F \<le> thread_get_mutex_priority y w"
  proof (rule iffD2 [OF le_mutex_priority_iff], intro conjI ballI)
    show "?F \<le> init_priority y w" using mutex_priority_le(1) [of ?z w] by simp
    fix n assume n: "n \<in> set (taken_object_list y w)"
    show "?F \<le> mu_priority (mutexes y n)"
      using mutex_priority_le(2) [of n ?z w] n p assms(3) by (cases "n = m") auto
    show "?F \<le> ceiling_priority (mutexes y n)" using mutex_priority_le(3) [of n ?z w] n by simp
  qed
  with p show "?F \<le> min (thread_get_mutex_priority y w) p" by simp
  show "min (thread_get_mutex_priority y w) p \<le> ?F"
  proof (rule iffD2 [OF le_mutex_priority_iff], intro conjI ballI)
    have le: "min (thread_get_mutex_priority y w) p \<le> thread_get_mutex_priority y w" by simp
    show "min (thread_get_mutex_priority y w) p \<le> init_priority ?z w"
      using order.trans [OF le mutex_priority_le(1)] by simp
    fix n assume n: "n \<in> set (taken_object_list ?z w)"
    show "min (thread_get_mutex_priority y w) p \<le> mu_priority (mutexes ?z n)"
      using order.trans [OF le mutex_priority_le(2) [of n]] n by (cases "n = m") simp_all
    show "min (thread_get_mutex_priority y w) p \<le> ceiling_priority (mutexes ?z n)"
      using order.trans [OF le mutex_priority_le(3) [of n]] n by simp
  qed
qed

lemma inherit_total:
  assumes s: "mu_shape y" and pr: "mu_prios {t} {} y" and t: "t \<in> waiting y m"
    and sorted: "\<And>n. prio_sorted (mu_kernel y) (mu_waiters (mutexes y n))"
    and w: "mu_owner (mutexes y m) = Some w"
  obtains y' where "mutex_inherit m t w y = Some y'" "mu_prios {} {} y'" "reprio y y'"
    "mu_exact {m} {} y \<and> waiters_prio (mu_kernel y) (mu_waiters (mutexes y m)) =
       min (mprio y t) (mu_priority (mutexes y m)) \<longrightarrow> mu_exact {} {} y'"
proof -
  let ?p = "mprio y t" and ?q = "mu_priority (mutexes y m)"
  have other: "u \<notin> waiting y n" if "n \<noteq> m" "u \<in> {t}" for n u
    using mu_shapeD(3) [OF s, of t n] mu_shapeD(3) [OF s t] that by auto
  have le: "?q \<le> mprio y u" if "u \<in> waiting y m" "u \<noteq> t" for u
    using mu_priosD(2) [OF pr that(1)] that(2) by simp
  have own: "mprio y u \<le> mu_priority (mutexes y n)" if "mu_owner (mutexes y n) = Some u" for n u
    using mu_priosD(4) [OF pr that] by simp
  show ?thesis
  proof (cases "?p < ?q")
    case False
    have "mu_prios {} {} y"
    proof (rule mu_priosI [OF sorted _ mu_priosD(3) [OF pr] own])
      show "mu_priority (mutexes y n) \<le> mprio y u" if u: "u \<in> waiting y n" for n u
      proof (cases "u = t")
        case True
        then have "n = m" using other [of n u] u by auto
        then show ?thesis using False True by simp
      qed (use mu_priosD(2) [OF pr u] in simp)
    qed
    moreover have "mutex_inherit m t w y = Some y" using False by (simp add: mutex_inherit_def Let_def)
    moreover have "mu_exact {} {} y"
      if e: "mu_exact {m} {} y" "waiters_prio (mu_kernel y) (mu_waiters (mutexes y m)) = min ?p ?q"
    proof -
      have "mu_priority (mutexes y n) = waiters_prio (mu_kernel y) (mu_waiters (mutexes y n))" for n
        using e False by (cases "n = m") (auto simp: mu_exact_def min_def)
      then show ?thesis using e(1) by (simp add: mu_exact_def)
    qed
    ultimately show ?thesis by (intro that [of y]) simp_all
  next
    case True
    let ?y1 = "set_mprio m ?p y"
    have s1: "mu_shape ?y1" by (rule reprio_shape [OF _ s]) simp
    have pr1: "mu_prios {} {w} ?y1"
    proof (rule mu_priosI)
      show "mu_priority (mutexes ?y1 n) \<le> mprio ?y1 u" if u: "u \<in> waiting ?y1 n" for n u
      proof (cases "u = t")
        case True
        then have "n = m" using other [of n u] u by auto
        then show ?thesis using True by simp
      next
        case False
        then show ?thesis using mu_priosD(2) [OF pr, of u n] u True by (cases "n = m") auto
      qed
      show "mprio ?y1 u \<le> mu_priority (mutexes ?y1 n)" if "mu_owner (mutexes ?y1 n) = Some u" "u \<notin> {w}" for n u
        using that own [of n u] w by (cases "n = m") auto
    qed (use sorted mu_priosD(3) [OF pr] in simp_all)
    have ex1: "mu_exact {} {w} ?y1" if "mu_exact {m} {} y"
      "waiters_prio (mu_kernel y) (mu_waiters (mutexes y m)) = min ?p ?q"
    proof -
      have "mu_priority (mutexes ?y1 n) = waiters_prio (mu_kernel ?y1) (mu_waiters (mutexes ?y1 n))" for n
      proof (cases "n = m")
        case n: True
        have "min ?p ?q = ?p" using less_imp_le [OF True] by (rule min_absorb1)
        then show ?thesis using that(2) n by simp
      next
        case False
        then show ?thesis using that(1) by (simp add: mu_exact_def)
      qed
      moreover have "mprio ?y1 u = thread_get_mutex_priority ?y1 u" if "u \<noteq> w" for u
      proof -
        have "mu_owner (mutexes y m) \<noteq> Some u" using w that by simp
        from set_mprio_F [OF s this] show ?thesis
          using \<open>mu_exact {m} {} y\<close> by (simp add: mu_exact_def)
      qed
      ultimately show ?thesis by (simp add: mu_exact_def)
    qed
    have F: "thread_get_mutex_priority ?y1 w = min (mprio y w) ?p" if "mu_exact {m} {} y"
      using that set_mprio_F_owner [OF s w, of ?p] True by (simp add: mu_exact_def)
    show ?thesis
    proof (cases "?p < mprio y w")
      case wp: True
      have "?p \<le> init_priority ?y1 w"
        using order.strict_trans2 [OF wp mu_priosD(3) [OF pr, of w]] by simp
      moreover have "?p \<le> mu_priority (mutexes ?y1 n)" if "mu_owner (mutexes ?y1 n) = Some w" for n
      proof -
        have "mprio y w \<le> mu_priority (mutexes y n)" using own [of n w] that by simp
        from order.strict_implies_order [OF order.strict_trans2 [OF wp this]] show ?thesis by simp
      qed
      ultimately obtain y' where y': "thread_update_priority w ?p ?y1 = Some y'" "mu_prios {} {} y'" "reprio ?y1 y'"
        "mu_exact {} {w} ?y1 \<and> ?p = thread_get_mutex_priority ?y1 w \<longrightarrow> mu_exact {} {} y'"
        by (rule update_total [OF s1 pr1])
      have "mutex_inherit m t w y = Some y'"
        using True wp y'(1) by (simp add: mutex_inherit_def set_mprio_def)
      moreover have "mu_exact {} {} y'" if "mu_exact {m} {} y"
        "waiters_prio (mu_kernel y) (mu_waiters (mutexes y m)) = min ?p ?q"
      proof (rule y'(4) [THEN mp], rule conjI [OF ex1 [OF that]])
        have "min (mprio y w) ?p = ?p" using less_imp_le [OF wp] by (rule min_absorb2)
        then show "?p = thread_get_mutex_priority ?y1 w" using F [OF that(1)] by simp
      qed
      moreover have "reprio y y'" by (rule reprio_trans [OF _ y'(3)]) simp
      ultimately show ?thesis using y'(2) by (intro that [of y']) simp_all
    next
      case wp: False
      have "mutex_inherit m t w y = Some ?y1"
        using True wp by (simp add: mutex_inherit_def set_mprio_def)
      moreover have "mu_prios {} {} ?y1"
      proof (rule mu_priosI)
        show "mprio ?y1 u \<le> mu_priority (mutexes ?y1 n)" if "mu_owner (mutexes ?y1 n) = Some u" for n u
          using that own [of n u] w wp by (cases "n = m") auto
      qed (use mu_priosD(1-3) [OF pr1] in simp_all)
      moreover have "mu_exact {} {} ?y1"
        if "mu_exact {m} {} y" "waiters_prio (mu_kernel y) (mu_waiters (mutexes y m)) = min ?p ?q"
        by (rule exact_owner_done [OF ex1 [OF that]]) (use F [OF that(1)] wp in simp)
      ultimately show ?thesis by (intro that [of ?y1]) simp_all
    qed
  qed
qed

lemma no_ceilings_reprio: "reprio y y' \<Longrightarrow> no_ceilings y' = no_ceilings y"
  by (simp add: no_ceilings_def reprio_fields)

text \<open>A started timer of a thread that waits leaves everything in order.\<close>

lemma timer_start_inv:
  assumes "mu_shape y" "mu_suspended y t" "t \<in> waiting y m"
  shows "mu_shape (upd_kernel (thread_timer_start t tick) y)"
proof (rule mu_shapeI)
  let ?y = "upd_kernel (thread_timer_start t tick) y"
  have th: "stat (threads (mu_kernel ?y) u) = stat (threads (mu_kernel y) u)"
    "thread_error (threads (mu_kernel ?y) u) = thread_error (threads (mu_kernel y) u)"
    "wakeable (mu_kernel y) u \<Longrightarrow> wakeable (mu_kernel ?y) u" for u
    by (auto simp: thread_timer_start_def threads_upd_thread wakeable_def rt_sched_thread_is_suspended_def)
  show "wakeable (mu_kernel ?y) u" if "u \<in> waiting ?y n" for u n
    by (rule th(3)) (use that mu_shapeD(2) [OF assms(1)] in simp)
  show "thread_error (threads (mu_kernel ?y) u) = RT_EOK" if "u \<in> waiting ?y n" for u n
    using that mu_shapeD(4) [OF assms(1)] th(2) [of u] by simp
  have "mu_self ?y = mu_self y" by (simp add: thread_timer_start_def)
  then show "stat (threads (mu_kernel ?y) (mu_self ?y)) \<noteq> RT_THREAD_READY"
    using th(1) [of "mu_self y"] mu_shapeD(12) [OF assms(1)] by simp
  show "u \<in> waiting ?y n" if "mu_suspended ?y u" "pending_object ?y u = Some n" for u n
    using that mu_shapeD(5) [OF assms(1), of u n] by simp
qed (use mu_shapeD(1,3,6-11) [OF assms(1)] in simp_all)

definition take_effect :: "mid \<Rightarrow> tid \<Rightarrow> ipc_outcome \<Rightarrow> mu_state \<Rightarrow> mu_state \<Rightarrow> bool" where
  "take_effect m t out y y' \<longleftrightarrow>
    pending_object y' = (if out = Blocked then (pending_object y)(t := Some m) else pending_object y) \<and>
    (\<forall>u. u \<noteq> t \<longrightarrow> thread_error (threads (mu_kernel y') u) = thread_error (threads (mu_kernel y) u)) \<and>
    (\<forall>n. mu_owner (mutexes y' n) =
      (if n = m \<and> mu_owner (mutexes y m) = None then Some t else mu_owner (mutexes y n))) \<and>
    (\<forall>n. waiting y' n = (if n = m \<and> out = Blocked then insert t (waiting y m) else waiting y n)) \<and>
    (out = Blocked \<longrightarrow> mu_owner (mutexes y m) \<noteq> Some t \<and> mu_owner (mutexes y m) \<noteq> None) \<and>
    (no_ceilings y \<longrightarrow> no_ceilings y')"

lemma take_effect_reprio:
  assumes "take_effect m t out y z" "reprio z y'"
  shows "take_effect m t out y y'"
  using assms(1)
  unfolding take_effect_def reprio_fields [OF assms(2)] reprio_threads [OF assms(2)]
    reprio_waiting [OF assms(2)] no_ceilings_reprio [OF assms(2)] .

lemma take_wait_total:
  assumes inv: "mu_inv y" and run: "stat (threads (mu_kernel y) t) = RT_THREAD_RUNNING"
    and err: "thread_error (threads (mu_kernel y) t) = RT_EOK"
    and w: "mu_owner (mutexes y m) = Some w" "w \<noteq> t"
  obtains y' where "mutex_inherit m t w (joined m t sf y) = Some y'" "mu_inv y'" "t \<in> waiting y' m"
    "take_effect m t Blocked y y'" "mu_exact {} {} y \<longrightarrow> mu_exact {} {} y'"
proof -
  let ?z = "joined m t sf y"
  have s: "mu_shape y" and pr: "mu_prios {} {} y" using inv by (simp_all add: mu_inv_def)
  note j = joined_simps [OF run]
  have z: "mu_shape ?z" "mu_prios {t} {} ?z"
    by (rule joined_shape [OF s run err w(1)]) (rule joined_prios [OF pr run])
  have t: "t \<in> waiting ?z m" by (simp add: waiting_def j(1))
  have sorted: "prio_sorted (mu_kernel ?z) (mu_waiters (mutexes ?z n))" for n
  proof -
    have "prio_sorted (mu_kernel y) (mu_waiters (mutexes ?z n))"
      using mu_priosD(1) [OF pr, of n] mu_priosD(1) [OF pr, of m] by (simp add: j(1) prio_sorted_insert)
    then show ?thesis by (rule iffD1 [OF prio_sorted_cong, rotated]) (simp add: j(2))
  qed
  have own: "mu_owner (mutexes ?z m) = Some w" using w by (simp add: j(12))
  obtain y' where y': "mutex_inherit m t w ?z = Some y'" "mu_prios {} {} y'" "reprio ?z y'"
    "mu_exact {m} {} ?z \<and> waiters_prio (mu_kernel ?z) (mu_waiters (mutexes ?z m)) =
       min (mprio ?z t) (mu_priority (mutexes ?z m)) \<longrightarrow> mu_exact {} {} y'"
    by (rule inherit_total [OF z t sorted own])
  have "take_effect m t Blocked y ?z"
    using w by (auto simp: take_effect_def j waiting_def no_ceilings_def)
  then have "take_effect m t Blocked y y'" by (rule take_effect_reprio [OF _ y'(3)])
  moreover have "mu_inv y'" using y'(2) reprio_shape [OF y'(3) z(1)] by (simp add: mu_inv_def)
  moreover have "mu_exact {} {} y'" if "mu_exact {} {} y"
    by (rule y'(4) [THEN mp]) (use joined_exact [OF that run, of m sf] in \<open>simp add: j(2,14)\<close>)
  ultimately show ?thesis using that [OF y'(1)] t reprio_waiting [OF y'(3), of m] by simp
qed

lemma byte_succ_nonzero: "(h :: byte) < 255 \<Longrightarrow> h + 1 \<noteq> 0"
proof
  assume "h < 255" "h + 1 = 0"
  from \<open>h + 1 = 0\<close> have "h = 0 - 1" by (simp only: eq_diff_eq)
  with \<open>h < 255\<close> show False by simp
qed

lemma shape_mutex_frame:
  assumes "mu_shape y" "mu_kernel y' = mu_kernel y" "pending_object y' = pending_object y"
    "taken_object_list y' = taken_object_list y" "init_priority y' = init_priority y"
    "\<And>n. mu_owner (mutexes y' n) = mu_owner (mutexes y n)"
    "\<And>n. mu_waiters (mutexes y' n) = mu_waiters (mutexes y n)"
    "\<And>n. mu_hold (mutexes y' n) = 0 \<longleftrightarrow> mu_owner (mutexes y n) = None"
  shows "mu_shape y'"
  using assms(1) unfolding mu_shape_def waiting_def assms(2-8) by blast

lemma exact_upd_hold:
  assumes "mu_exact {} {} y"
  shows "mu_exact {} {} (upd_mutex m (\<lambda>x. x\<lparr>mu_hold := f (mu_hold x)\<rparr>) y)"
proof -
  have "thread_get_mutex_priority (upd_mutex m (\<lambda>x. x\<lparr>mu_hold := f (mu_hold x)\<rparr>) y) t =
      thread_get_mutex_priority y t" for t
    by (rule mutex_priority_cong) simp_all
  then show ?thesis using assms by (simp add: mu_exact_def)
qed

lemma take_total:
  assumes inv: "mu_inv y0" and run: "stat (threads (mu_kernel y0) (mu_self y0)) = RT_THREAD_RUNNING"
    and timeout: "timeout < 0x7FFFFFFF"
  obtains out y' where "rt_mutex_take_main m timeout sf y0 = Some (out, y')" "mu_inv y'"
    "take_effect m (mu_self y0) out y0 y'"
    "no_ceilings y0 \<and> mu_exact {} {} y0 \<longrightarrow> mu_exact {} {} y'"
proof -
  let ?t = "mu_self y0"
  let ?y = "set_error ?t RT_EOK y0"
  have s0: "mu_shape y0" and pr0: "mu_prios {} {} y0" using inv by (simp_all add: mu_inv_def)
  have s: "mu_shape ?y" by (rule set_error_inv [OF s0 run])
  have pr: "mu_prios {} {} ?y" using pr0 by simp
  have inv1: "mu_inv ?y" using s pr by (simp add: mu_inv_def)
  have run1: "stat (threads (mu_kernel ?y) ?t) = RT_THREAD_RUNNING" using run by simp
  have err1: "thread_error (threads (mu_kernel ?y) ?t) = RT_EOK" by (simp add: set_error_def)
  have eff0: "take_effect m ?t out ?y z \<Longrightarrow> take_effect m ?t out y0 z" for out z
    by (simp add: take_effect_def)
  have still: "take_effect m ?t (Returned r) y0 z"
    if "mu_owner (mutexes y0 m) \<noteq> None" "\<forall>n. (mutexes z n)\<lparr>mu_hold := 0\<rparr> = (mutexes y0 n)\<lparr>mu_hold := 0\<rparr>"
      "pending_object z = pending_object y0"
      "\<forall>u. u \<noteq> ?t \<longrightarrow> thread_error (threads (mu_kernel z) u) = thread_error (threads (mu_kernel y0) u)" for r z
  proof -
    have "mu_owner (mutexes z n) = mu_owner (mutexes y0 n) \<and> mu_waiters (mutexes z n) = mu_waiters (mutexes y0 n) \<and>
        ceiling_priority (mutexes z n) = ceiling_priority (mutexes y0 n)" for n
      using spec [OF that(2), of n] by (cases "mutexes z n"; cases "mutexes y0 n") simp
    then show ?thesis using that by (auto simp: take_effect_def waiting_def no_ceilings_def)
  qed
  note d = rt_mutex_take_main_def [of m timeout sf y0, unfolded Let_def, folded set_error_def]
  show ?thesis
  proof (cases "mu_owner (mutexes y0 m)")
    case None
    then have free: "mu_owner (mutexes ?y m) = None" by simp
    obtain y' where y': "mutex_acquire m ?t ?y = Some y'" "mu_inv y'" "reprio (owned_by m ?t ?y) y'"
      "no_ceilings ?y \<longrightarrow> y' = owned_by m ?t ?y"
      by (rule acquire_total [OF inv1 run1 free])
    have "take_effect m ?t (Returned RT_EOK) ?y (owned_by m ?t ?y)"
      using None by (auto simp: take_effect_def no_ceilings_def)
    from eff0 [OF take_effect_reprio [OF this y'(3)]]
    have "take_effect m ?t (Returned RT_EOK) y0 y'" .
    moreover have "mu_exact {} {} y'" if "no_ceilings y0" "mu_exact {} {} y0"
    proof -
      have "no_ceilings ?y" using that(1) by (simp add: no_ceilings_def)
      moreover have "mu_exact {} {} ?y" using that(2) by simp
      ultimately show ?thesis using y'(4) owned_by_exact [OF s pr _ _ free] by simp
    qed
    ultimately show ?thesis
      using None y'(1,2) by (intro that [of "Returned RT_EOK" y']) (simp_all add: d)
  next
    case (Some w)
    show ?thesis
    proof (cases "w = ?t")
      case True
      show ?thesis
      proof (cases "mu_hold (mutexes y0 m) < RT_MUTEX_HOLD_MAX")
        case hold: True
        let ?z = "upd_mutex m (\<lambda>x. x\<lparr>mu_hold := mu_hold x + 1\<rparr>) ?y"
        have nz: "mu_hold (mutexes y0 m) + 1 \<noteq> 0"
          using hold byte_succ_nonzero by (simp add: RT_MUTEX_HOLD_MAX_def)
        have "mu_shape ?z"
          by (rule shape_mutex_frame [OF s]) (use mu_shapeD(9) [OF s] nz Some in auto)
        moreover have "mu_prios {} {} ?z" using pr by (auto simp: mu_prios_def waiting_def)
        moreover have "mu_exact {} {} ?z" if "mu_exact {} {} y0"
          by (rule exact_upd_hold) (use that in simp)
        ultimately show ?thesis
          using Some True hold
          by (intro that [of "Returned RT_EOK" ?z]) (auto simp: d mu_inv_def intro!: still)
      next
        case False
        then show ?thesis
          using Some True inv1 by (intro that [of "Returned (- RT_EFULL)" ?y]) (auto simp: d intro!: still)
      qed
    next
      case other: False
      show ?thesis
      proof (cases "timeout = 0")
        case True
        let ?z = "set_error ?t RT_ETIMEOUT ?y"
        have "mu_inv ?z" using set_error_inv [OF s run1] pr by (simp add: mu_inv_def)
        moreover have "rt_mutex_take_main m timeout sf y0 = Some (Returned (- RT_ETIMEOUT), ?z)"
          using Some True other by (subst d) simp
        ultimately show ?thesis
          using Some by (intro that [of "Returned (- RT_ETIMEOUT)" ?z]) (auto intro!: still)
      next
        case False
        obtain ws k ret where r: "rt_thread_suspend_to_list ?t (mu_waiters (mutexes ?y m)) RT_IPC_FLAG_PRIO sf (mu_kernel ?y) = (ws, k, ret)"
          by (cases "rt_thread_suspend_to_list ?t (mu_waiters (mutexes ?y m)) RT_IPC_FLAG_PRIO sf (mu_kernel ?y)") auto
        have ret: "ret = RT_EOK" using suspend_running(1) [OF _ r] run1 by simp
        have own: "mu_owner (mutexes ?y m) = Some w" using Some by simp
        obtain y' where y': "mutex_inherit m ?t w (joined m ?t sf ?y) = Some y'" "mu_inv y'" "?t \<in> waiting y' m"
          "take_effect m ?t Blocked ?y y'" "mu_exact {} {} ?y \<longrightarrow> mu_exact {} {} y'"
          by (rule take_wait_total [OF inv1 run1 err1 own other])
        have e: "rt_mutex_take_main m timeout sf y0 =
            Some (Blocked, if timeout > 0 then upd_kernel (thread_timer_start ?t (word_of_int timeout)) y' else y')"
        proof -
          have "joined m ?t sf ?y = (upd_mutex m (\<lambda>x. x\<lparr>mu_waiters := ws\<rparr>) (?y\<lparr>mu_kernel := k\<rparr>))
              \<lparr>pending_object := (pending_object (upd_mutex m (\<lambda>x. x\<lparr>mu_waiters := ws\<rparr>) (?y\<lparr>mu_kernel := k\<rparr>)))(?t := Some m)\<rparr>"
            by (simp add: joined_def r [simplified])
          note inh = y'(1) [unfolded this]
          show ?thesis
            using own other False timeout by (subst d) (simp add: r [simplified] ret inh [simplified])
        qed
        have inv2: "mu_shape y'" "mu_prios {} {} y'" using y'(2) by (simp_all add: mu_inv_def)
        note eff = eff0 [OF y'(4)]
        show ?thesis
        proof (cases "timeout > 0")
          case True
          let ?z = "upd_kernel (thread_timer_start ?t (word_of_int timeout)) y'"
          have "mu_shape ?z"
            by (rule timer_start_inv [OF inv2(1) waiting_suspended [OF inv2(1) y'(3)] y'(3)])
          moreover have "mu_prios {} {} ?z" by (rule prios_frame [OF inv2(2)]) simp_all
          moreover have "take_effect m ?t Blocked y0 ?z"
            using eff by (simp add: take_effect_def no_ceilings_def)
              (simp add: thread_timer_start_def threads_upd_thread)
          moreover have "mu_exact {} {} ?z" if "mu_exact {} {} y'"
            by (rule exact_frame [OF that]) simp_all
          ultimately show ?thesis
            using True e y'(5) by (intro that [of Blocked ?z]) (simp_all add: mu_inv_def)
        qed (use e y'(2,5) eff in \<open>auto intro: that [of Blocked y']\<close>)
      qed
    qed
  qed
qed

section \<open>Leaving a wait list\<close>

lemma mutex_update_priority_eq:
  "mutex_update_priority m y = set_mprio m (waiters_prio (mu_kernel y) (mu_waiters (mutexes y m))) y"
  by (simp add: mutex_update_priority_def set_mprio_def upd_mutex_def)

lemma update_priority_prios:
  assumes pr: "mu_prios {} {} y"
  shows "mu_prios {} {} (mutex_update_priority m y)"
  unfolding mutex_update_priority_eq
proof (rule mu_priosI)
  let ?p = "waiters_prio (mu_kernel y) (mu_waiters (mutexes y m))"
  have sorted: "prio_sorted (mu_kernel y) (mu_waiters (mutexes y n))" for n
    using mu_priosD(1) [OF pr, of n] by simp
  then show "prio_sorted (mu_kernel (set_mprio m ?p y)) (mu_waiters (mutexes (set_mprio m ?p y) n))" for n
    by simp
  show "mu_priority (mutexes (set_mprio m ?p y) n) \<le> mprio (set_mprio m ?p y) u"
    if "u \<in> waiting (set_mprio m ?p y) n" for n u
    using that waiters_prio_le [OF sorted, of u] mu_priosD(2) [OF pr, of u n]
    by (cases "n = m") (simp_all add: waiting_def)
  have up: "mu_priority (mutexes y m) \<le> ?p"
    using mu_priosD(2) [OF pr, of _ m] by (auto simp: waiters_prio_def waiting_def split: list.splits)
  show "mprio (set_mprio m ?p y) u \<le> mu_priority (mutexes (set_mprio m ?p y) n)"
    if "mu_owner (mutexes (set_mprio m ?p y) n) = Some u" for n u
  proof -
    have "mprio y u \<le> mu_priority (mutexes y n)" using mu_priosD(4) [OF pr, of n u] that by simp
    then show ?thesis using order.trans [OF _ up] by (cases "n = m") simp_all
  qed
qed (use mu_priosD(3) [OF pr] in simp)

lemma prios_weaken: "mu_prios {} {} y \<Longrightarrow> mu_prios {} D y"
  by (simp add: mu_prios_def)

text \<open>The owner of mutexes gets the priority they ask for.\<close>

lemma update_owner_total:
  assumes "mu_shape y" "mu_prios {} {w} y"
  obtains y' where "thread_update_priority w (thread_get_mutex_priority y w) y = Some y'"
    "mu_inv y'" "reprio y y'"
proof -
  have "thread_get_mutex_priority y w \<le> mu_priority (mutexes y m)" if "mu_owner (mutexes y m) = Some w" for m
    using mutex_priority_le(2) [of m y w] mu_shapeD(7) [OF assms(1), of m w] that by simp
  from update_total [OF assms mutex_priority_le(1) this] obtain y' where
    "thread_update_priority w (thread_get_mutex_priority y w) y = Some y'" "mu_prios {} {} y'" "reprio y y'"
    by blast
  then show ?thesis using that reprio_shape [OF _ assms(1)] by (simp add: mu_inv_def)
qed

lemma waiter_left_total:
  assumes "mu_inv y"
  obtains y' where "mutex_waiter_left m t y = Some y'" "mu_inv y'" "reprio y y'"
proof -
  let ?y1 = "mutex_update_priority m y"
  have s: "mu_shape y" and pr: "mu_prios {} {} y" using assms by (simp_all add: mu_inv_def)
  have r1: "reprio y ?y1" by (simp add: mutex_update_priority_eq)
  have s1: "mu_shape ?y1" by (rule reprio_shape [OF r1 s])
  have pr1: "mu_prios {} {} ?y1" by (rule update_priority_prios [OF pr])
  show ?thesis
  proof (cases "mu_owner (mutexes y m)")
    case None
    then show ?thesis
      using r1 s1 pr1 by (intro that [of ?y1]) (simp_all add: mutex_waiter_left_def mu_inv_def)
  next
    case (Some w)
    show ?thesis
    proof (cases "mprio y w = mprio y t \<and> thread_get_mutex_priority ?y1 w \<noteq> mprio ?y1 w")
      case True
      obtain y' where "thread_update_priority w (thread_get_mutex_priority ?y1 w) ?y1 = Some y'" "mu_inv y'" "reprio ?y1 y'"
        by (rule update_owner_total [OF s1 prios_weaken [OF pr1]])
      then show ?thesis
        using Some True by (intro that [of y'] reprio_trans [OF r1]) (simp_all add: mutex_waiter_left_def)
    next
      case False
      then have "mutex_waiter_left m t y = Some ?y1"
        using Some unfolding mutex_waiter_left_def Let_def by (simp only: option.case if_False)
      then show ?thesis using r1 s1 pr1 by (intro that [of ?y1]) (simp_all add: mu_inv_def)
    qed
  qed
qed

lemma resumed_total:
  assumes inv: "mu_inv y" and run: "stat (threads (mu_kernel y) t) = RT_THREAD_RUNNING"
    and err: "mu_owner (mutexes y m) = Some t \<Longrightarrow> thread_error (threads (mu_kernel y) t) = RT_EOK"
  obtains r z y' where "mutex_take_resumed m t y = Some (r, y')" "mu_inv y'" "reprio y z"
    "y' = (if mu_owner (mutexes y m) = Some t then y else z\<lparr>pending_object := (pending_object z)(t := None)\<rparr>)"
proof (cases "mu_owner (mutexes y m) = Some t")
  case True
  then show ?thesis using inv err by (intro that [of RT_EOK y y]) (simp_all add: mutex_take_resumed_def)
next
  case False
  obtain z where z: "mutex_waiter_left m t y = Some z" "mu_inv z" "reprio y z"
    by (rule waiter_left_total [OF inv])
  let ?y = "z\<lparr>pending_object := (pending_object z)(t := None)\<rparr>"
  have s: "mu_shape z" and pr: "mu_prios {} {} z" using z(2) by (simp_all add: mu_inv_def)
  have runz: "stat (threads (mu_kernel z) t) = RT_THREAD_RUNNING" using run reprio_threads(1) [OF z(3)] by simp
  have "mu_shape ?y"
  proof (rule shape_frame [OF s, where T = "{t}"])
    show "u \<notin> waiting z n" if "u \<in> {t}" for u n
      using running_not_waiting [OF s runz] that by simp
  qed (use mu_shapeD(12) [OF s] in \<open>auto split: if_splits\<close>)
  moreover have "mu_prios {} {} ?y" by (rule prios_frame [OF pr]) simp_all
  ultimately have "mu_inv ?y" by (simp add: mu_inv_def)
  have "\<exists>r. mutex_take_resumed m t y = Some (r, ?y)"
    using False z(1) by (simp add: mutex_take_resumed_def Let_def)
  then show ?thesis using False z(3) \<open>mu_inv ?y\<close> that by auto
qed

section \<open>Release\<close>

lemma wake_first_wakeable:
  assumes "wakeable k h" "h \<notin> set ws"
  shows "mutex_wake_first (h # ws) k = Some (Some h, ws, woken h (- 1) k)"
proof -
  have "rt_sched_thread_ready h ws k = (remove1 h ws, woken h (- 1) k, RT_EOK)"
    using assms(1)
    by (auto simp: rt_sched_thread_ready_def wakeable_def woken_def rt_sched_thread_timer_stop_def
        rt_timer_stop_def rt_sched_insert_thread_def RT_EOK_def upd_thread_def intro!: kernel_eqI split: if_splits)
  then show ?thesis using assms by (simp add: wakeable_def remove1_idem)
qed

definition let_go :: "mid \<Rightarrow> tid \<Rightarrow> mu_state \<Rightarrow> mu_state" where
  "let_go m w y = (upd_mutex m (\<lambda>x. x\<lparr>mu_hold := mu_hold x - 1\<rparr>) y)
     \<lparr>taken_object_list := (taken_object_list y)(w := remove1 m (taken_object_list y w))\<rparr>"

lemma let_go_simps [simp]:
  "mu_kernel (let_go m w y) = mu_kernel y" "pending_object (let_go m w y) = pending_object y"
  "init_priority (let_go m w y) = init_priority y"
  "mu_owner (mutexes (let_go m w y) n) = mu_owner (mutexes y n)"
  "mu_hold (mutexes (let_go m w y) n) = (if n = m then mu_hold (mutexes y m) - 1 else mu_hold (mutexes y n))"
  "mu_priority (mutexes (let_go m w y) n) = mu_priority (mutexes y n)"
  "mu_waiters (mutexes (let_go m w y) n) = mu_waiters (mutexes y n)"
  "ceiling_priority (mutexes (let_go m w y) n) = ceiling_priority (mutexes y n)"
  "waiting (let_go m w y) n = waiting y n"
  "taken_object_list (let_go m w y) u = (if u = w then remove1 m (taken_object_list y w) else taken_object_list y u)"
  by (simp_all add: let_go_def waiting_def)

lemma let_go_taken:
  assumes "mu_shape y" "mu_owner (mutexes y m) = Some w"
  shows "n \<in> set (taken_object_list (let_go m w y) u) \<longleftrightarrow> n \<noteq> m \<and> mu_owner (mutexes y n) = Some u"
  using mu_shapeD(7) [OF assms(1), of n u] mu_shapeD(8) [OF assms(1), of w] assms(2)
  by (auto simp: set_remove1_eq)

text \<open>The priority the owner is left with: \<open>q\<close>.\<close>

lemma check_and_update_let_go:
  assumes inv: "mu_inv y" and w: "mu_owner (mutexes y m) = Some w"
  obtains b q where "check_and_update_prio w m (let_go m w y) = Some (b, set_prio w q (let_go m w y))"
    "q \<le> init_priority y w"
    "\<forall>n. n \<noteq> m \<and> mu_owner (mutexes y n) = Some w \<longrightarrow> q \<le> mu_priority (mutexes y n)"
    "no_ceilings y \<and> mu_exact {} {} y \<longrightarrow> q = thread_get_mutex_priority (let_go m w y) w"
proof -
  have s: "mu_shape y" and pr: "mu_prios {} {} y" using inv by (simp_all add: mu_inv_def)
  let ?z = "let_go m w y"
  let ?F = "thread_get_mutex_priority ?z w"
  have F: "?F \<le> init_priority y w" using mutex_priority_le(1) [of ?z w] by simp
  have F_le: "?F \<le> mu_priority (mutexes y n)" if "n \<noteq> m" "mu_owner (mutexes y n) = Some w" for n
    using mutex_priority_le(2) [of n ?z w] let_go_taken [OF s w, of n w] that by simp
  show ?thesis
  proof (cases "ceiling_priority (mutexes ?z m) \<noteq> 0xFF \<or> mprio ?z w = mu_priority (mutexes ?z m)")
    case True
    have "rt_sched_thread_change_priority w ?F ?z = Some (set_prio w ?F ?z)"
      by (rule change_priority_eq)
        (use mu_shapeD(12) [OF s] order.strict_trans1 [OF F mu_shapeD(10) [OF s]] in simp_all)
    then have "check_and_update_prio w m ?z = Some (True, set_prio w ?F ?z)"
      using True unfolding check_and_update_prio_def by (simp only: if_True option.case)
    then show ?thesis using F F_le by (intro that [of True ?F]) auto
  next
    case False
    have "check_and_update_prio w m ?z = Some (False, set_prio w (mprio y w) ?z)"
    proof -
      have "set_prio w (mprio y w) ?z = ?z"
        by (simp add: set_prio_def upd_kernel_def upd_thread_def)
      then show ?thesis using False unfolding check_and_update_prio_def by (simp only: if_False)
    qed
    moreover have "mprio y w = ?F" if "mu_exact {} {} y"
    proof (rule order.antisym)
      have eq: "mprio y w = thread_get_mutex_priority y w" using that by (simp add: mu_exact_def)
      show "mprio y w \<le> ?F"
        unfolding eq
      proof (rule iffD2 [OF le_mutex_priority_iff], intro conjI ballI)
        fix n assume "n \<in> set (taken_object_list ?z w)"
        then have n: "n \<in> set (taken_object_list y w)"
          using let_go_taken [OF s w, of n w] mu_shapeD(7) [OF s, of n w] by simp
        show "thread_get_mutex_priority y w \<le> mu_priority (mutexes ?z n)"
          using mutex_priority_le(2) [OF n] by simp
        show "thread_get_mutex_priority y w \<le> ceiling_priority (mutexes ?z n)"
          using mutex_priority_le(3) [OF n] by simp
      qed (use mutex_priority_le(1) in simp)
      have m_le: "mprio y w \<le> mu_priority (mutexes y m)" by (rule mu_priosD(4) [OF pr w]) simp
      show "?F \<le> mprio y w"
      proof (rule ccontr)
        define x where "x = min ?F (mu_priority (mutexes y m))"
        assume "\<not> ?F \<le> mprio y w"
        then have "mprio y w < ?F" "mprio y w < mu_priority (mutexes y m)"
          using False m_le by (simp_all add: not_le order.not_eq_order_implies_strict)
        then have "mprio y w < x" by (simp add: x_def)
        moreover have "x \<le> thread_get_mutex_priority y w"
        proof (rule iffD2 [OF le_mutex_priority_iff], intro conjI ballI)
          show "x \<le> init_priority y w" using F by (simp add: x_def min_le_iff_disj)
          fix n assume "n \<in> set (taken_object_list y w)"
          then have own: "mu_owner (mutexes y n) = Some w" using mu_shapeD(7) [OF s, of n w] by simp
          show "x \<le> mu_priority (mutexes y n)"
            using F_le [of n] own by (cases "n = m") (simp_all add: x_def min_le_iff_disj)
          show "x \<le> ceiling_priority (mutexes y n)"
          proof (cases "n = m")
            case True
            then show ?thesis using False by simp
          next
            case False
            then have "n \<in> set (taken_object_list ?z w)" using let_go_taken [OF s w, of n w] own by simp
            from mutex_priority_le(3) [OF this] show ?thesis by (simp add: x_def min_le_iff_disj)
          qed
        qed
        ultimately show False using eq by simp
      qed
    qed
    ultimately show ?thesis
      using mu_priosD(3) [OF pr, of w] mu_priosD(4) [OF pr, of _ w]
      by (intro that [of False "mprio y w"]) auto
  qed
qed

definition release_effect :: "mid \<Rightarrow> tid \<Rightarrow> mu_state \<Rightarrow> mu_state \<Rightarrow> bool" where
  "release_effect m t y y' \<longleftrightarrow>
    (\<forall>u. u \<noteq> t \<longrightarrow> thread_error (threads (mu_kernel y') u) = thread_error (threads (mu_kernel y) u)) \<and>
    (\<forall>u. pending_object y' u = pending_object y u \<or> pending_object y' u = None) \<and>
    (\<forall>n. n \<noteq> m \<longrightarrow> mu_owner (mutexes y' n) = mu_owner (mutexes y n)) \<and>
    (mu_owner (mutexes y' m) = mu_owner (mutexes y m) \<or> mu_owner (mutexes y' m) = None \<or>
      (\<exists>h\<in>waiting y m - waiting y' m. mu_owner (mutexes y' m) = Some h \<and> pending_object y' h = None)) \<and>
    (\<forall>n. waiting y' n \<subseteq> waiting y n) \<and> (no_ceilings y \<longrightarrow> no_ceilings y')"

definition freed :: "mid \<Rightarrow> mu_state \<Rightarrow> mu_state" where
  "freed m = upd_mutex m (\<lambda>x. x\<lparr>mu_waiters := [], mu_owner := None, mu_priority := 0xFF\<rparr>)"

lemma freed_total:
  assumes inv: "mu_inv y" and w: "mu_owner (mutexes y m) = Some w" and hold: "mu_hold (mutexes y m) = 1"
    and none: "mu_waiters (mutexes y m) = []" and nw: "\<And>n. w \<notin> waiting y n"
    and q: "q \<le> init_priority y w"
      "\<forall>n. n \<noteq> m \<and> mu_owner (mutexes y n) = Some w \<longrightarrow> q \<le> mu_priority (mutexes y n)"
  defines "y' \<equiv> freed m (set_prio w q (let_go m w y))"
  shows "mu_inv y'" "release_effect m t y y'"
    "mu_exact {} {} y \<and> q = thread_get_mutex_priority (let_go m w y) w \<longrightarrow> mu_exact {} {} y'"
proof -
  have s: "mu_shape y" and pr: "mu_prios {} {} y" using inv by (simp_all add: mu_inv_def)
  have th: "threads (mu_kernel y') u = (if u = w then (threads (mu_kernel y) u)\<lparr>current_priority := q\<rparr> else threads (mu_kernel y) u)" for u
    by (simp add: y'_def freed_def set_prio_def threads_upd_thread)
  have f: "mu_waiters (mutexes y' n) = mu_waiters (mutexes y n)"
    "mu_owner (mutexes y' n) = (if n = m then None else mu_owner (mutexes y n))"
    "mu_hold (mutexes y' n) = (if n = m then 0 else mu_hold (mutexes y n))"
    "mu_priority (mutexes y' n) = (if n = m then 0xFF else mu_priority (mutexes y n))"
    "ceiling_priority (mutexes y' n) = ceiling_priority (mutexes y n)"
    "pending_object y' = pending_object y" "init_priority y' = init_priority y" "mu_self y' = mu_self y"
    "waiting y' n = waiting y n" for n
    using none hold by (simp_all add: y'_def freed_def waiting_def)
  have taken: "n \<in> set (taken_object_list y' u) \<longleftrightarrow> n \<noteq> m \<and> mu_owner (mutexes y n) = Some u" for n u
    using let_go_taken [OF s w] by (simp add: y'_def freed_def)
  have mp: "mprio y' u = (if u = w then q else mprio y u)" for u by (simp add: th)
  have wk: "wakeable (mu_kernel y') u = wakeable (mu_kernel y) u" "mu_suspended y' u = mu_suspended y u" for u
    by (simp_all add: wakeable_def rt_sched_thread_is_suspended_def th)
  have "mu_shape y'"
  proof (rule mu_shapeI)
    show "distinct (taken_object_list y' u)" for u
      using mu_shapeD(8) [OF s] by (simp add: y'_def freed_def distinct_remove1)
    show "n \<in> set (taken_object_list y' u) \<longleftrightarrow> mu_owner (mutexes y' n) = Some u" for n u
      by (simp add: taken f(2))
    show "mu_hold (mutexes y' n) = 0 \<longleftrightarrow> mu_owner (mutexes y' n) = None" for n
      using mu_shapeD(9) [OF s, of n] by (simp add: f)
    show "mu_waiters (mutexes y' n) = []" if "mu_owner (mutexes y' n) = None" for n
      using that mu_shapeD(6) [OF s, of n] none by (cases "n = m") (simp_all add: f)
    show "stat (threads (mu_kernel y') (mu_self y')) \<noteq> RT_THREAD_READY"
      using mu_shapeD(12) [OF s] by (auto simp: th f)
    show "finite {u. pending_object y' u \<noteq> None}" using mu_shapeD(11) [OF s] by (simp add: f)
    show "thread_error (threads (mu_kernel y') u) = RT_EOK" if "u \<in> waiting y' n" for u n
      using mu_shapeD(4) [OF s, of u n] that by (auto simp: th f)
  qed (simp_all only: f wk, (blast intro: mu_shapeD(1-3,5,10) [OF s])+)
  moreover have "mu_prios {} {} y'"
  proof (rule mu_priosI)
    have sorted: "prio_sorted (mu_kernel y') (mu_waiters (mutexes y n)) = prio_sorted (mu_kernel y) (mu_waiters (mutexes y n))" for n
      by (rule prio_sorted_cong) (use nw [of n] in \<open>auto simp: mp waiting_def\<close>)
    show "prio_sorted (mu_kernel y') (mu_waiters (mutexes y' n))" for n
      using mu_priosD(1) [OF pr, of n] by (simp add: f(1) sorted)
    show "mu_priority (mutexes y' n) \<le> mprio y' u" if "u \<in> waiting y' n" for n u
      using that nw [of n] none mu_priosD(2) [OF pr, of u n] by (auto simp: f mp waiting_def)
    show "mprio y' u \<le> init_priority y' u" for u
      using q(1) mu_priosD(3) [OF pr, of u] by (simp add: mp f)
    show "mprio y' u \<le> mu_priority (mutexes y' n)" if "mu_owner (mutexes y' n) = Some u" for n u
      using that q(2) mu_priosD(4) [OF pr, of n u] by (auto simp: f mp split: if_splits)
  qed
  ultimately show "mu_inv y'" by (simp add: mu_inv_def)
  show "release_effect m t y y'"
    by (auto simp: release_effect_def f th no_ceilings_def)
  show "mu_exact {} {} y \<and> q = thread_get_mutex_priority (let_go m w y) w \<longrightarrow> mu_exact {} {} y'"
  proof (rule impI, elim conjE)
    assume ex: "mu_exact {} {} y" and q_eq: "q = thread_get_mutex_priority (let_go m w y) w"
    have wp: "waiters_prio (mu_kernel y') (mu_waiters (mutexes y n)) = waiters_prio (mu_kernel y) (mu_waiters (mutexes y n))" for n
      using nw [of n] by (auto simp: waiters_prio_def waiting_def mp split: list.splits)
    have "thread_get_mutex_priority y' u = mprio y' u" for u
    proof (cases "u = w")
      case True
      have "thread_get_mutex_priority y' w = thread_get_mutex_priority (let_go m w y) w"
        by (rule mutex_priority_cong) (use let_go_taken [OF s w] taken in \<open>auto simp: f simp del: let_go_simps(10)\<close>)
      then show ?thesis using True q_eq by (simp add: mp)
    next
      case False
      have "thread_get_mutex_priority y' u = thread_get_mutex_priority y u"
        by (rule mutex_priority_cong) (use taken mu_shapeD(7) [OF s, of _ u] w False in \<open>auto simp: f\<close>)
      then show ?thesis using ex False by (simp add: mp mu_exact_def)
    qed
    moreover have "mu_priority (mutexes y' n) = waiters_prio (mu_kernel y') (mu_waiters (mutexes y' n))" for n
      using ex none by (cases "n = m") (simp_all add: f wp mu_exact_def, simp add: waiters_prio_def)
    ultimately show "mu_exact {} {} y'" by (simp add: mu_exact_def)
  qed
qed

definition handed :: "mid \<Rightarrow> tid \<Rightarrow> tid list \<Rightarrow> mu_state \<Rightarrow> mu_state" where
  "handed m h rest y =
    upd_mutex m (\<lambda>x. x\<lparr>mu_waiters := rest, mu_owner := Some h, mu_hold := 1,
        mu_priority := waiters_prio (woken h (- 1) (mu_kernel y)) rest\<rparr>)
      (y\<lparr>mu_kernel := woken h (- 1) (mu_kernel y),
         taken_object_list := (taken_object_list y)(h := m # taken_object_list y h),
         pending_object := (pending_object y)(h := None)\<rparr>)"

lemma handed_total:
  assumes inv: "mu_inv y" and w: "mu_owner (mutexes y m) = Some w"
    and ws: "mu_waiters (mutexes y m) = h # rest" and nw: "\<And>n. w \<notin> waiting y n"
    and q: "q \<le> init_priority y w"
      "\<forall>n. n \<noteq> m \<and> mu_owner (mutexes y n) = Some w \<longrightarrow> q \<le> mu_priority (mutexes y n)"
  defines "y' \<equiv> handed m h rest (set_prio w q (let_go m w y))"
  shows "mu_inv y'" "release_effect m t y y'"
    "no_ceilings y \<and> mu_exact {} {} y \<and> q = thread_get_mutex_priority (let_go m w y) w \<longrightarrow> mu_exact {} {} y'"
proof -
  have s: "mu_shape y" and pr: "mu_prios {} {} y" using inv by (simp_all add: mu_inv_def)
  have h: "h \<in> waiting y m" by (simp add: waiting_def ws)
  have hw: "h \<noteq> w" using nw [of m] h by auto
  have dist: "distinct (h # rest)" using mu_shapeD(1) [OF s, of m] ws by simp
  have honly: "h \<notin> waiting y n" if "n \<noteq> m" for n
    using mu_shapeD(3) [OF s, of h n] mu_shapeD(3) [OF s h] that by auto
  have f: "mu_waiters (mutexes y' n) = (if n = m then rest else mu_waiters (mutexes y n))"
    "mu_owner (mutexes y' n) = (if n = m then Some h else mu_owner (mutexes y n))"
    "mu_hold (mutexes y' n) = (if n = m then 1 else mu_hold (mutexes y n))"
    "ceiling_priority (mutexes y' n) = ceiling_priority (mutexes y n)"
    "pending_object y' = (pending_object y)(h := None)" "init_priority y' = init_priority y" "mu_self y' = mu_self y"
    "waiting y' n = waiting y n - {h}" for n
    using dist honly [of n] ws by (auto simp: y'_def handed_def waiting_def woken_def)
  have mp: "mprio y' u = (if u = w then q else mprio y u)" for u
    by (simp add: y'_def handed_def)
  have mpr: "mu_priority (mutexes y' n) =
      (if n = m then waiters_prio (mu_kernel y') rest else mu_priority (mutexes y n))" for n
    by (simp add: y'_def handed_def)
  have wrest: "w \<notin> set rest" using nw [of m] by (simp add: waiting_def ws)
  have wp: "waiters_prio (mu_kernel y') ts = waiters_prio (mu_kernel y) ts" if "w \<notin> set ts" for ts
    using that by (auto simp: waiters_prio_def mp split: list.splits)
  have th: "threads (mu_kernel y') u = (if u = w then (threads (mu_kernel y) u)\<lparr>current_priority := q\<rparr> else threads (mu_kernel y) u)" if "u \<noteq> h" for u
    using that by (simp add: y'_def handed_def set_prio_def threads_upd_thread)
  have err: "thread_error (threads (mu_kernel y') u) = thread_error (threads (mu_kernel y) u)" for u
    using th [of u] by (cases "u = h") (simp_all add: y'_def handed_def woken_def set_prio_def threads_upd_thread)
  have hs: "\<not> mu_suspended y' h"
    by (simp add: y'_def handed_def woken_def rt_sched_thread_is_suspended_def)
  have "taken_object_list y' u = (if u = h then m # taken_object_list (let_go m w y) h
      else taken_object_list (let_go m w y) u)" for u
    by (simp add: y'_def handed_def del: let_go_simps(10))
  then have taken: "n \<in> set (taken_object_list y' u) \<longleftrightarrow> mu_owner (mutexes y' n) = Some u" for n u
    using let_go_taken [OF s w, of n u] by (auto simp: f(2) simp del: let_go_simps(10))
  have old: "prio_sorted (mu_kernel y) (mu_waiters (mutexes y n))" for n
    using mu_priosD(1) [OF pr, of n] by simp
  have rest: "prio_sorted (mu_kernel y) rest" "\<forall>u\<in>set rest. mprio y h \<le> mprio y u"
    using old [of m] by (simp_all add: ws prio_sorted_def)
  have h_le: "mprio y h \<le> waiters_prio (mu_kernel y') rest"
    using rest(2) by (simp add: wp [OF wrest]) (simp add: waiters_prio_def split: list.splits)
  have susp: "mu_suspended y' u = mu_suspended y u" "wakeable (mu_kernel y') u = wakeable (mu_kernel y) u" if "u \<noteq> h" for u
    using th [OF that] by (simp_all add: wakeable_def rt_sched_thread_is_suspended_def)
  have "mu_shape y'"
  proof (rule mu_shapeI)
    show "distinct (mu_waiters (mutexes y' n))" for n
      using dist mu_shapeD(1) [OF s, of n] by (simp add: f(1))
    show "wakeable (mu_kernel y') u" if "u \<in> waiting y' n" for u n
      using that mu_shapeD(2) [OF s, of u n] by (simp add: f(8) susp)
    show "pending_object y' u = Some n" if "u \<in> waiting y' n" for u n
      using that mu_shapeD(3) [OF s, of u n] by (simp add: f(5,8))
    show "thread_error (threads (mu_kernel y') u) = RT_EOK" if "u \<in> waiting y' n" for u n
      using that mu_shapeD(4) [OF s, of u n] by (simp add: err f(8))
    show "u \<in> waiting y' n" if "mu_suspended y' u" "pending_object y' u = Some n" for u n
      using that mu_shapeD(5) [OF s, of u n] hs by (cases "u = h") (simp_all add: f(5,8) susp)
    show "mu_waiters (mutexes y' n) = []" if "mu_owner (mutexes y' n) = None" for n
      using that mu_shapeD(6) [OF s, of n] by (cases "n = m") (simp_all add: f)
    show "distinct (taken_object_list y' u)" for u
    proof -
      have "m \<notin> set (taken_object_list (let_go m w y) h)" using let_go_taken [OF s w, of m h] by simp
      then show ?thesis
        using mu_shapeD(8) [OF s] by (simp add: y'_def handed_def distinct_remove1)
    qed
    show "mu_hold (mutexes y' n) = 0 \<longleftrightarrow> mu_owner (mutexes y' n) = None" for n
      using mu_shapeD(9) [OF s, of n] by (simp add: f)
    show "finite {u. pending_object y' u \<noteq> None}"
      by (rule finite_subset [OF _ mu_shapeD(11) [OF s]]) (auto simp: f(5))
    show "stat (threads (mu_kernel y') (mu_self y')) \<noteq> RT_THREAD_READY"
    proof (cases "mu_self y = h")
      case True
      then show ?thesis by (simp add: f(7)) (simp add: y'_def handed_def woken_def)
    next
      case False
      then show ?thesis using mu_shapeD(12) [OF s] th [of "mu_self y"] by (auto simp: f(7))
    qed
  qed (use taken mu_shapeD(10) [OF s] in \<open>simp_all add: f(6)\<close>)
  moreover have "mu_prios {} {} y'"
  proof (rule mu_priosI)
    have sorted: "prio_sorted (mu_kernel y') ts = prio_sorted (mu_kernel y) ts" if "w \<notin> set ts" for ts
      by (rule prio_sorted_cong) (use that in \<open>auto simp: mp\<close>)
    have sorted': "prio_sorted (mu_kernel y') rest" using rest(1) sorted [OF wrest] by simp
    show "prio_sorted (mu_kernel y') (mu_waiters (mutexes y' n))" for n
      using sorted' old [of n] sorted [of "mu_waiters (mutexes y n)"] nw [of n] by (simp add: f(1) waiting_def)
    show "mu_priority (mutexes y' n) \<le> mprio y' u" if "u \<in> waiting y' n" for n u
    proof (cases "n = m")
      case True
      then have "u \<in> set rest" using that by (simp add: f(1) waiting_def)
      then show ?thesis using waiters_prio_le [OF sorted'] True by (simp add: mpr)
    next
      case False
      then show ?thesis
        using that nw [of n] mu_priosD(2) [OF pr, of u n] by (auto simp: f mpr mp)
    qed
    show "mprio y' u \<le> init_priority y' u" for u
      using q(1) mu_priosD(3) [OF pr, of u] by (simp add: mp f)
    show "mprio y' u \<le> mu_priority (mutexes y' n)" if "mu_owner (mutexes y' n) = Some u" for n u
      using that q(2) hw h_le mu_priosD(4) [OF pr, of n u] by (auto simp: f(2) mpr mp split: if_splits)
  qed
  ultimately show "mu_inv y'" by (simp add: mu_inv_def)
  show "release_effect m t y y'"
    using h by (auto simp: release_effect_def f err no_ceilings_def)
  show "no_ceilings y \<and> mu_exact {} {} y \<and> q = thread_get_mutex_priority (let_go m w y) w \<longrightarrow> mu_exact {} {} y'"
  proof (rule impI, elim conjE)
    assume nc: "no_ceilings y" and ex: "mu_exact {} {} y" and q_eq: "q = thread_get_mutex_priority (let_go m w y) w"
    have "thread_get_mutex_priority y' u = mprio y' u" for u
    proof -
      consider "u = w" | "u = h" | "u \<noteq> w" "u \<noteq> h" by blast
      then show ?thesis
      proof cases
        case 1
        have "thread_get_mutex_priority y' w = thread_get_mutex_priority (let_go m w y) w"
          by (rule mutex_priority_cong)
            (use let_go_taken [OF s w] taken hw in \<open>auto simp: f mpr split: if_splits simp del: let_go_simps(10)\<close>)
        then show ?thesis using 1 q_eq by (simp add: mp)
      next
        case 3
        have "thread_get_mutex_priority y' u = thread_get_mutex_priority y u"
          by (rule mutex_priority_cong)
            (use taken mu_shapeD(7) [OF s, of _ u] w 3 in \<open>auto simp: f mpr split: if_splits\<close>)
        then show ?thesis using ex 3 by (simp add: mp mu_exact_def)
      next
        case 2
        have F: "mprio y h = thread_get_mutex_priority y h" using ex by (simp add: mu_exact_def)
        have own: "n \<in> set (taken_object_list y' h) \<longleftrightarrow> n = m \<or> n \<in> set (taken_object_list y h)" for n
          using taken [of n h] mu_shapeD(7) [OF s, of n h] by (simp add: f(2))
        have nm: "m \<notin> set (taken_object_list y h)" using mu_shapeD(7) [OF s, of m h] w hw by simp
        have "thread_get_mutex_priority y' h = mprio y h"
        proof (rule order.antisym)
          let ?F = "thread_get_mutex_priority y' h"
          show "?F \<le> mprio y h"
            unfolding F
          proof (rule iffD2 [OF le_mutex_priority_iff], intro conjI ballI)
            show "?F \<le> init_priority y h" using mutex_priority_le(1) [of y' h] by (simp add: f(6))
            fix n assume n: "n \<in> set (taken_object_list y h)"
            then have "n \<in> set (taken_object_list y' h)" "n \<noteq> m" using own nm by auto
            then show "?F \<le> mu_priority (mutexes y n)" "?F \<le> ceiling_priority (mutexes y n)"
              using mutex_priority_le(2,3) [of n y' h] by (simp_all add: mpr f(4))
          qed
          show "mprio y h \<le> ?F"
          proof (rule iffD2 [OF le_mutex_priority_iff], intro conjI ballI)
            show "mprio y h \<le> init_priority y' h" using mu_priosD(3) [OF pr] by (simp add: f(6))
            fix n assume "n \<in> set (taken_object_list y' h)"
            then have n: "n = m \<or> n \<in> set (taken_object_list y h)" using own by simp
            show "mprio y h \<le> mu_priority (mutexes y' n)"
              using n h_le mutex_priority_le(2) [of n y h] by (auto simp: mpr F)
            show "mprio y h \<le> ceiling_priority (mutexes y' n)"
              using nc by (simp add: f(4) no_ceilings_def)
          qed
        qed
        then show ?thesis using 2 hw by (simp add: mp)
      qed
    qed
    moreover have "mu_priority (mutexes y' n) = waiters_prio (mu_kernel y') (mu_waiters (mutexes y' n))" for n
      using ex nw [of n] wp [of "mu_waiters (mutexes y n)"] by (simp add: f(1) mpr mu_exact_def waiting_def)
    ultimately show "mu_exact {} {} y'" by (simp add: mu_exact_def)
  qed
qed

lemma release_effect_refl_error:
  "release_effect m (mu_self y) y (set_error (mu_self y) e y)"
  by (auto simp: release_effect_def)

lemma release_last:
  assumes w: "mu_owner (mutexes y m) = Some w" "w = mu_self y \<or> stat (threads (mu_kernel y) w) = RT_THREAD_CLOSE"
    and hold: "mu_hold (mutexes y m) = 1"
    and c: "check_and_update_prio w m (let_go m w y) = Some (b, z)"
  shows "rt_mutex_release m y =
    (case mutex_hand_over m z of None \<Rightarrow> None | Some (woke, y3) \<Rightarrow> Some (RT_EOK, b \<or> woke, y3))"
proof -
  have g: "(w \<noteq> mu_self y \<and> stat (threads (mu_kernel y) w) \<noteq> RT_THREAD_CLOSE) = False" using w(2) by blast
  show ?thesis using w(1) hold c by (simp add: rt_mutex_release_def let_go_def Let_def g)
qed

lemma hand_over_wakeable:
  assumes inv: "mu_inv y" and w: "mu_owner (mutexes y m) = Some w" and nw: "w \<notin> waiting y m"
    and ws: "mu_waiters (mutexes y m) = h # rest"
  shows "mutex_hand_over m (set_prio w q (let_go m w y)) = Some (True, handed m h rest (set_prio w q (let_go m w y)))"
proof -
  let ?z = "set_prio w q (let_go m w y)"
  have s: "mu_shape y" using inv by (simp add: mu_inv_def)
  have h: "h \<in> waiting y m" "h \<notin> set rest"
    using mu_shapeD(1) [OF s, of m] by (simp_all add: waiting_def ws)
  have "h \<noteq> w" using nw h(1) by auto
  then have "wakeable (mu_kernel ?z) h"
    using mu_shapeD(2) [OF s h(1)] by (subst wakeable_cong [of _ _ "mu_kernel y"]) (simp_all add: set_prio_def)
  from wake_first_wakeable [OF this h(2)] show ?thesis
    using ws by (simp add: mutex_hand_over_def handed_def)
qed

lemma release_total:
  assumes inv: "mu_inv y" and run: "stat (threads (mu_kernel y) (mu_self y)) = RT_THREAD_RUNNING"
  obtains r b y' where "rt_mutex_release m y = Some (r, b, y')" "mu_inv y'"
    "release_effect m (mu_self y) y y'" "no_ceilings y \<and> mu_exact {} {} y \<longrightarrow> mu_exact {} {} y'"
proof -
  let ?t = "mu_self y"
  have s: "mu_shape y" and pr: "mu_prios {} {} y" using inv by (simp_all add: mu_inv_def)
  show ?thesis
  proof (cases "mu_owner (mutexes y m) \<noteq> Some ?t \<and>
      (case mu_owner (mutexes y m) of None \<Rightarrow> True | Some w \<Rightarrow> stat (threads (mu_kernel y) w) \<noteq> RT_THREAD_CLOSE)")
    case True
    let ?z = "set_error ?t (- RT_ERROR) y"
    have "rt_mutex_release m y = Some (- RT_ERROR, False, ?z)"
      using True by (cases "mu_owner (mutexes y m)") (simp_all add: rt_mutex_release_def Let_def set_error_def)
    moreover have "mu_inv ?z" using set_error_inv [OF s run] pr by (simp add: mu_inv_def)
    ultimately show ?thesis using release_effect_refl_error by (intro that) auto
  next
    case False
    then obtain w where w: "mu_owner (mutexes y m) = Some w" by (cases "mu_owner (mutexes y m)") auto
    have "\<not> mu_suspended y w"
      using False w run by (auto simp: rt_sched_thread_is_suspended_def)
    then have nw: "w \<notin> waiting y n" for n using waiting_suspended [OF s] by blast
    have g: "(w \<noteq> mu_self y \<and> stat (threads (mu_kernel y) w) \<noteq> RT_THREAD_CLOSE) = False"
      using False w by simp
    have d: "rt_mutex_release m y =
        (if mu_hold (mutexes y m) - 1 = 0
         then (case check_and_update_prio w m (let_go m w y) of
                 None \<Rightarrow> None
               | Some (resched, y2) \<Rightarrow>
                  (case mutex_hand_over m y2 of None \<Rightarrow> None | Some (woke, y3) \<Rightarrow> Some (RT_EOK, resched \<or> woke, y3)))
         else Some (RT_EOK, False, upd_mutex m (\<lambda>x. x\<lparr>mu_hold := mu_hold x - 1\<rparr>) y))"
      using w by (simp add: rt_mutex_release_def let_go_def Let_def g)
    show ?thesis
    proof (cases "mu_hold (mutexes y m) - 1 = 0")
      case hold: True
      then have h1: "mu_hold (mutexes y m) = 1" by simp
      obtain b q where q: "check_and_update_prio w m (let_go m w y) = Some (b, set_prio w q (let_go m w y))"
        "q \<le> init_priority y w"
        "\<forall>n. n \<noteq> m \<and> mu_owner (mutexes y n) = Some w \<longrightarrow> q \<le> mu_priority (mutexes y n)"
        "no_ceilings y \<and> mu_exact {} {} y \<longrightarrow> q = thread_get_mutex_priority (let_go m w y) w"
        by (rule check_and_update_let_go [OF inv w])
      let ?z = "set_prio w q (let_go m w y)"
      show ?thesis
      proof (cases "mu_waiters (mutexes y m)")
        case Nil
        have "mutex_hand_over m ?z = Some (False, freed m ?z)"
          using Nil by (simp add: mutex_hand_over_def freed_def upd_mutex_def)
        then have "rt_mutex_release m y = Some (RT_EOK, b, freed m ?z)"
          using hold q(1) by (simp add: d)
        moreover note freed_total [OF inv w h1 Nil nw q(2,3)]
        ultimately show ?thesis using q(4) by (intro that [of RT_EOK b "freed m ?z"]) auto
      next
        case (Cons h rest)
        have "mutex_hand_over m ?z = Some (True, handed m h rest ?z)"
          by (rule hand_over_wakeable [OF inv w nw Cons])
        then have "rt_mutex_release m y = Some (RT_EOK, True, handed m h rest ?z)"
          using hold q(1) by (simp add: d)
        moreover note handed_total [OF inv w Cons nw q(2,3)]
        ultimately show ?thesis using q(4) by (intro that [of RT_EOK True "handed m h rest ?z"]) auto
      qed
    next
      case False
      let ?z = "upd_mutex m (\<lambda>x. x\<lparr>mu_hold := mu_hold x - 1\<rparr>) y"
      have "mu_shape ?z"
        by (rule shape_mutex_frame [OF s]) (use mu_shapeD(9) [OF s] False w in auto)
      moreover have "mu_prios {} {} ?z" using pr by (auto simp: mu_prios_def waiting_def)
      moreover have "release_effect m ?t y ?z" by (auto simp: release_effect_def waiting_def no_ceilings_def)
      moreover have "mu_exact {} {} ?z" if "mu_exact {} {} y" by (rule exact_upd_hold [OF that])
      moreover have "rt_mutex_release m y = Some (RT_EOK, False, ?z)" using False by (simp add: d)
      ultimately show ?thesis by (intro that) (auto simp: mu_inv_def)
    qed
  qed
qed

section \<open>Ceilings and timeouts\<close>

lemma ceiling_total:
  assumes inv: "mu_inv y"
  obtains old z y' where "rt_mutex_setprioceiling m p y = Some (old, y')" "mu_inv y'" "reprio z y'"
    "z = y \<or> z = upd_mutex m (\<lambda>x. x\<lparr>ceiling_priority := p\<rparr>) y"
proof (cases "p < RT_THREAD_PRIORITY_MAX")
  case False
  then show ?thesis using inv by (intro that [of "0xFF" y y]) (simp_all add: rt_mutex_setprioceiling_def)
next
  case True
  let ?z = "upd_mutex m (\<lambda>x. x\<lparr>ceiling_priority := p\<rparr>) y"
  let ?old = "ceiling_priority (mutexes y m)"
  have s: "mu_shape y" and pr: "mu_prios {} {} y" using inv by (simp_all add: mu_inv_def)
  have z: "mu_shape ?z"
    by (rule shape_mutex_frame [OF s]) (use mu_shapeD(9) [OF s] in auto)
  have prz: "mu_prios {} {} ?z" using pr by (auto simp: mu_prios_def waiting_def)
  show ?thesis
  proof (cases "mu_owner (mutexes y m)")
    case None
    then show ?thesis
      using True z prz by (intro that [of ?old ?z ?z]) (simp_all add: rt_mutex_setprioceiling_def mu_inv_def)
  next
    case (Some w)
    show ?thesis
    proof (cases "thread_get_mutex_priority ?z w = mprio ?z w")
      case eq: True
      have "rt_mutex_setprioceiling m p y = Some (?old, ?z)"
        using True Some eq by (simp add: rt_mutex_setprioceiling_def Let_def)
      then show ?thesis using z prz by (intro that [of ?old ?z ?z]) (simp_all add: mu_inv_def)
    next
      case False
      obtain y' where "thread_update_priority w (thread_get_mutex_priority ?z w) ?z = Some y'" "mu_inv y'" "reprio ?z y'"
        by (rule update_owner_total [OF z prios_weaken [OF prz]])
      then show ?thesis
        using True Some False by (intro that [of ?old y' ?z]) (simp_all add: rt_mutex_setprioceiling_def Let_def)
    qed
  qed
qed

text \<open>
  _thread_timeout for a thread that waits for mutex \<open>m\<close>.  It runs after _timer_check has cleared
  ACTIVATED (\<open>timer_expire\<close>) and released its lock.
\<close>

definition mutex_timeout :: "mid \<Rightarrow> tid \<Rightarrow> mu_state \<Rightarrow> mu_state option" where
  "mutex_timeout m t y =
    (case thread_timeout t (mu_waiters (mutexes y m)) (mu_kernel y) of
       None \<Rightarrow> None
     | Some (ws, k) \<Rightarrow> Some (upd_mutex m (\<lambda>x. x\<lparr>mu_waiters := ws\<rparr>) (y\<lparr>mu_kernel := k\<rparr>)))"

lemma timeout_total:
  assumes inv: "mu_inv y" and t: "t \<in> waiting y m"
  obtains y' where "mutex_timeout m t (upd_kernel (timer_expire t) y) = Some y'" "mu_inv y'"
    "pending_object y' = pending_object y" "\<forall>n. mu_owner (mutexes y' n) = mu_owner (mutexes y n)"
    "\<forall>n. waiting y' n = waiting y n - {t}"
    "\<forall>u. u \<noteq> t \<longrightarrow> thread_error (threads (mu_kernel y') u) = thread_error (threads (mu_kernel y) u)"
proof -
  have s: "mu_shape y" and pr: "mu_prios {} {} y" using inv by (simp_all add: mu_inv_def)
  have susp: "mu_suspended y t" by (rule waiting_suspended [OF s t])
  define k where "k = rt_sched_insert_thread t (upd_thread t (\<lambda>th. th\<lparr>thread_error := - RT_ETIMEOUT\<rparr>)
    (timer_expire t (mu_kernel y)))"
  define z where "z = upd_mutex m (\<lambda>x. x\<lparr>mu_waiters := remove1 t (mu_waiters x)\<rparr>) (y\<lparr>mu_kernel := k\<rparr>)"
  have e: "mutex_timeout m t (upd_kernel (timer_expire t) y) = Some z"
    using susp by (simp add: mutex_timeout_def thread_timeout_def timer_expire_def z_def k_def upd_mutex_def upd_kernel_def
        rt_sched_thread_is_suspended_def)
  have mp: "mprio z u = mprio y u" for u
    by (simp add: z_def k_def rt_sched_insert_thread_def timer_expire_def)
  have th: "threads (mu_kernel z) u = threads (mu_kernel y) u" if "u \<noteq> t" for u
    using that by (simp add: z_def k_def rt_sched_insert_thread_def timer_expire_def)
  have st: "stat (threads (mu_kernel z) t) = (if t = mu_self y then RT_THREAD_RUNNING else RT_THREAD_READY)"
    "mu_self z = mu_self y"
    by (simp_all add: z_def k_def rt_sched_insert_thread_def timer_expire_def)
  have own: "mu_owner (mutexes z n) = mu_owner (mutexes y n)" "mu_hold (mutexes z n) = mu_hold (mutexes y n)"
    "mu_priority (mutexes z n) = mu_priority (mutexes y n)"
    "mu_waiters (mutexes z n) = (if n = m then remove1 t (mu_waiters (mutexes y m)) else mu_waiters (mutexes y n))"
    "pending_object z = pending_object y" "taken_object_list z = taken_object_list y"
    "init_priority z = init_priority y" for n
    by (simp_all add: z_def)
  have only: "t \<notin> waiting y n" if "n \<noteq> m" for n
    using mu_shapeD(3) [OF s, of t n] mu_shapeD(3) [OF s t] that by auto
  have wait: "waiting z n = waiting y n - {t}" for n
    using mu_shapeD(1) [OF s, of m] only [of n] by (auto simp: waiting_def own(4))
  have ns: "\<not> mu_suspended z t" using st by (simp add: rt_sched_thread_is_suspended_def)
  have same: "wakeable (mu_kernel z) u = wakeable (mu_kernel y) u" "mu_suspended z u = mu_suspended y u" if "u \<noteq> t" for u
    using th [OF that] by (simp_all add: wakeable_def rt_sched_thread_is_suspended_def)
  have "mu_shape z"
  proof (rule mu_shapeI)
    show "distinct (mu_waiters (mutexes z n))" for n
      using mu_shapeD(1) [OF s, of n] mu_shapeD(1) [OF s, of m] by (simp add: own(4) distinct_remove1)
    show "wakeable (mu_kernel z) u" if "u \<in> waiting z n" for u n
      using that mu_shapeD(2) [OF s, of u n] by (simp add: wait same)
    show "pending_object z u = Some n" if "u \<in> waiting z n" for u n
      using that mu_shapeD(3) [OF s, of u n] by (simp add: wait own(5))
    show "thread_error (threads (mu_kernel z) u) = RT_EOK" if "u \<in> waiting z n" for u n
      using that mu_shapeD(4) [OF s, of u n] th [of u] by (simp add: wait)
    show "u \<in> waiting z n" if "mu_suspended z u" "pending_object z u = Some n" for u n
      using that mu_shapeD(5) [OF s, of u n] ns by (cases "u = t") (simp_all add: wait own(5) same)
    show "mu_waiters (mutexes z n) = []" if "mu_owner (mutexes z n) = None" for n
      using that mu_shapeD(6) [OF s, of n] by (cases "n = m") (simp_all add: own(1,4))
    show "stat (threads (mu_kernel z) (mu_self z)) \<noteq> RT_THREAD_READY"
      using mu_shapeD(12) [OF s] st th [of "mu_self y"] by (cases "mu_self y = t") simp_all
    show "mu_hold (mutexes z n) = 0 \<longleftrightarrow> mu_owner (mutexes z n) = None" for n
      using mu_shapeD(9) [OF s] by (simp add: own)
    show "finite {u. pending_object z u \<noteq> None}" using mu_shapeD(11) [OF s] by (simp add: own(5))
  qed (use mu_shapeD(7,8,10) [OF s] in \<open>simp_all only: own\<close>)
  moreover have "mu_prios {} {} z"
  proof (rule mu_priosI)
    have "prio_sorted (mu_kernel z) ts = prio_sorted (mu_kernel y) ts" for ts
      by (rule prio_sorted_cong) (simp add: mp)
    then show "prio_sorted (mu_kernel z) (mu_waiters (mutexes z n))" for n
      using mu_priosD(1) [OF pr, of n] mu_priosD(1) [OF pr, of m] by (simp add: own(4) prio_sorted_remove1)
    show "mu_priority (mutexes z n) \<le> mprio z u" if "u \<in> waiting z n" for n u
      using that mu_priosD(2) [OF pr, of u n] by (simp add: wait own(3) mp)
    show "mprio z u \<le> mu_priority (mutexes z n)" if "mu_owner (mutexes z n) = Some u" for n u
      using that mu_priosD(4) [OF pr, of n u] by (simp add: own mp)
  qed (use mu_priosD(3) [OF pr] in \<open>simp add: mp own(7)\<close>)
  ultimately have "mu_inv z" by (simp add: mu_inv_def)
  then show ?thesis by (rule that [OF e]) (simp_all add: own wait th)
qed

end
