(* ===== verification/Mutex_Sys.thy ===== *)
theory Mutex_Sys
  imports Mutex_Ops
begin

text \<open>
  The threads of the system and its mutexes: every interleaving of the calls, of timeouts and of
  the scheduler, and what holds in all of them.  A thread is inside a take (\<open>ms_in_take\<close>) from
  the call of rt_schedule until it runs again.
\<close>

section \<open>The system\<close>

record mu_sys =
  ms_y :: mu_state
  ms_in_take :: "tid \<Rightarrow> mid option"

abbreviation ms_self :: "mu_sys \<Rightarrow> tid" where
  "ms_self c \<equiv> mu_self (ms_y c)"

abbreviation mu_stat :: "mu_state \<Rightarrow> tid \<Rightarrow> thread_stat" where
  "mu_stat y t \<equiv> stat (threads (mu_kernel y) t)"

definition in_call :: "mu_sys \<Rightarrow> bool" where
  "in_call c \<longleftrightarrow> mu_stat (ms_y c) (ms_self c) = RT_THREAD_RUNNING \<and> ms_in_take c (ms_self c) = None"

text \<open>The scheduler puts a ready thread in the place of the current one.\<close>

definition mu_switch :: "tid \<Rightarrow> rt_kernel \<Rightarrow> rt_kernel" where
  "mu_switch t k =
    (let c = rt_current_thread k
     in (upd_thread t (\<lambda>th. th\<lparr>stat := RT_THREAD_RUNNING\<rparr>)
          (if stat (threads k c) = RT_THREAD_RUNNING
           then upd_thread c (\<lambda>th. th\<lparr>stat := RT_THREAD_READY\<rparr>) k else k))\<lparr>rt_current_thread := t\<rparr>)"

text \<open>
  An expiry is one step: the clearing of ACTIVATED by _timer_check and the callback, with no
  other code in the window between them (\<open>mutex_null_owner_in_expiry_window\<close> shows what a release
  there leads to).  rt_mutex_detach, rt_mutex_delete and the end of a thread are not steps.  The
  last two steps are a thread that waits for something other than a mutex, and its wakeup,
  either with any error code.
\<close>

inductive mutex_step :: "bool \<Rightarrow> mu_sys \<Rightarrow> mu_sys \<Rightarrow> bool" for timed :: bool where
  take: "in_call c \<Longrightarrow> timeout < 0x7FFFFFFF \<Longrightarrow>
    rt_mutex_take_main m timeout sf (ms_y c) = Some (out, y) \<Longrightarrow>
    mutex_step timed c (c\<lparr>ms_y := y, ms_in_take := (ms_in_take c)(ms_self c :=
      if out = Blocked then Some m else None)\<rparr>)"
| resumed: "mu_stat (ms_y c) (ms_self c) = RT_THREAD_RUNNING \<Longrightarrow> ms_in_take c (ms_self c) = Some m \<Longrightarrow>
    mutex_take_resumed m (ms_self c) (ms_y c) = Some (r, y) \<Longrightarrow>
    mutex_step timed c (c\<lparr>ms_y := y, ms_in_take := (ms_in_take c)(ms_self c := None)\<rparr>)"
| release: "in_call c \<Longrightarrow> rt_mutex_release m (ms_y c) = Some (r, b, y) \<Longrightarrow> mutex_step timed c (c\<lparr>ms_y := y\<rparr>)"
| ceiling: "timed \<Longrightarrow> in_call c \<Longrightarrow> rt_mutex_setprioceiling m p (ms_y c) = Some (old, y) \<Longrightarrow>
    mutex_step timed c (c\<lparr>ms_y := y\<rparr>)"
| timeout: "timed \<Longrightarrow> t \<in> waiting (ms_y c) m \<Longrightarrow> timer_activated (threads (mu_kernel (ms_y c)) t) \<Longrightarrow>
    mutex_timeout m t (upd_kernel (timer_expire t) (ms_y c)) = Some y \<Longrightarrow> mutex_step timed c (c\<lparr>ms_y := y\<rparr>)"
| switch: "mu_stat (ms_y c) t = RT_THREAD_READY \<Longrightarrow>
    mutex_step timed c (c\<lparr>ms_y := upd_kernel (mu_switch t) (ms_y c)\<rparr>)"
| block: "in_call c \<Longrightarrow> pending_object (ms_y c) (ms_self c) = None \<Longrightarrow>
    mutex_step timed c (c\<lparr>ms_y := upd_kernel
      (upd_thread (ms_self c) (\<lambda>th. th\<lparr>stat := Suspended sf, thread_error := e\<rparr>)) (ms_y c)\<rparr>)"
| wake: "mu_suspended (ms_y c) t \<Longrightarrow> pending_object (ms_y c) t = None \<Longrightarrow> ms_in_take c t = None \<Longrightarrow>
    mutex_step timed c (c\<lparr>ms_y := upd_kernel (\<lambda>k. rt_sched_insert_thread t
      (upd_thread t (\<lambda>th. th\<lparr>thread_error := e\<rparr>) k)) (ms_y c)\<rparr>)"

abbreviation mutex_reach :: "bool \<Rightarrow> mu_sys \<Rightarrow> mu_sys \<Rightarrow> bool" where
  "mutex_reach timed \<equiv> (mutex_step timed)\<^sup>*\<^sup>*"

definition mutex_start :: "mu_sys \<Rightarrow> bool" where
  "mutex_start c \<longleftrightarrow> (\<forall>m. mutexes (ms_y c) m = rt_mutex_init) \<and> taken_object_list (ms_y c) = (\<lambda>_. []) \<and>
    pending_object (ms_y c) = (\<lambda>_. None) \<and> ms_in_take c = (\<lambda>_. None) \<and>
    (\<forall>t. init_priority (ms_y c) t < RT_THREAD_PRIORITY_MAX \<and> mprio (ms_y c) t = init_priority (ms_y c) t) \<and>
    mu_stat (ms_y c) (ms_self c) \<noteq> RT_THREAD_READY"

section \<open>The invariant\<close>

definition sys_inv :: "bool \<Rightarrow> mu_sys \<Rightarrow> bool" where
  "sys_inv timed c \<longleftrightarrow> mu_inv (ms_y c) \<and>
    (\<forall>t m. pending_object (ms_y c) t = Some m \<longrightarrow> ms_in_take c t = Some m) \<and>
    (\<forall>t m. ms_in_take c t = Some m \<longrightarrow> mu_owner (mutexes (ms_y c) m) = Some t \<longrightarrow>
       thread_error (threads (mu_kernel (ms_y c)) t) = RT_EOK) \<and>
    (\<forall>t m. pending_object (ms_y c) t = Some m \<longrightarrow> mu_owner (mutexes (ms_y c) m) \<noteq> Some t) \<and>
    (timed \<or> no_ceilings (ms_y c) \<and> mu_exact {} {} (ms_y c))"

lemma sys_invD:
  assumes "sys_inv timed c"
  shows "mu_inv (ms_y c)" "pending_object (ms_y c) t = Some m \<Longrightarrow> ms_in_take c t = Some m"
    "ms_in_take c t = Some m \<Longrightarrow> mu_owner (mutexes (ms_y c) m) = Some t \<Longrightarrow>
       thread_error (threads (mu_kernel (ms_y c)) t) = RT_EOK"
    "pending_object (ms_y c) t = Some m \<Longrightarrow> mu_owner (mutexes (ms_y c) m) \<noteq> Some t"
    "\<not> timed \<Longrightarrow> no_ceilings (ms_y c)" "\<not> timed \<Longrightarrow> mu_exact {} {} (ms_y c)"
  using assms unfolding sys_inv_def by blast+

lemma sys_invI:
  assumes "mu_inv (ms_y c)" "\<And>t m. pending_object (ms_y c) t = Some m \<Longrightarrow> ms_in_take c t = Some m"
    "\<And>t m. ms_in_take c t = Some m \<Longrightarrow> mu_owner (mutexes (ms_y c) m) = Some t \<Longrightarrow>
       thread_error (threads (mu_kernel (ms_y c)) t) = RT_EOK"
    "\<And>t m. pending_object (ms_y c) t = Some m \<Longrightarrow> mu_owner (mutexes (ms_y c) m) \<noteq> Some t"
    "\<not> timed \<Longrightarrow> no_ceilings (ms_y c) \<and> mu_exact {} {} (ms_y c)"
  shows "sys_inv timed c"
  using assms unfolding sys_inv_def by blast

lemma start_inv:
  assumes "mutex_start c"
  shows "sys_inv timed c"
proof (rule sys_invI)
  let ?y = "ms_y c"
  have y: "mutexes ?y m = rt_mutex_init" "taken_object_list ?y t = []" "pending_object ?y t = None"
    "init_priority ?y t < RT_THREAD_PRIORITY_MAX" "mprio ?y t = init_priority ?y t" "waiting ?y m = {}"
    "mu_stat ?y (mu_self ?y) \<noteq> RT_THREAD_READY" for m t
    using assms by (simp_all add: mutex_start_def waiting_def rt_mutex_init_def)
  have "mu_shape ?y" by (rule mu_shapeI) (simp_all add: y rt_mutex_init_def)
  moreover have "mu_prios {} {} ?y" by (rule mu_priosI) (simp_all add: y rt_mutex_init_def prio_sorted_def)
  ultimately show "mu_inv ?y" by (simp add: mu_inv_def)
  show "no_ceilings ?y \<and> mu_exact {} {} ?y"
    by (simp add: no_ceilings_def mu_exact_def y rt_mutex_init_def waiters_prio_def thread_get_mutex_priority_def)
qed (use assms in \<open>simp_all add: mutex_start_def waiting_def rt_mutex_init_def\<close>)

lemma sys_inv_updI:
  assumes "mu_inv y" "\<And>t m. pending_object y t = Some m \<Longrightarrow> i t = Some m"
    "\<And>t m. i t = Some m \<Longrightarrow> mu_owner (mutexes y m) = Some t \<Longrightarrow> thread_error (threads (mu_kernel y) t) = RT_EOK"
    "\<And>t m. pending_object y t = Some m \<Longrightarrow> mu_owner (mutexes y m) \<noteq> Some t"
    "\<not> timed \<Longrightarrow> no_ceilings y \<and> mu_exact {} {} y"
  shows "sys_inv timed (c\<lparr>ms_y := y, ms_in_take := i\<rparr>)"
  by (rule sys_invI) (simp_all add: assms)

lemma sys_inv_yI:
  assumes "mu_inv y" "\<And>t m. pending_object y t = Some m \<Longrightarrow> ms_in_take c t = Some m"
    "\<And>t m. ms_in_take c t = Some m \<Longrightarrow> mu_owner (mutexes y m) = Some t \<Longrightarrow>
       thread_error (threads (mu_kernel y) t) = RT_EOK"
    "\<And>t m. pending_object y t = Some m \<Longrightarrow> mu_owner (mutexes y m) \<noteq> Some t"
    "\<not> timed \<Longrightarrow> no_ceilings y \<and> mu_exact {} {} y"
  shows "sys_inv timed (c\<lparr>ms_y := y\<rparr>)"
  by (rule sys_invI) (simp_all add: assms)

lemma take_keeps:
  assumes inv: "sys_inv timed c" and call: "in_call c" and timeout: "timeout < 0x7FFFFFFF"
    and r: "rt_mutex_take_main m timeout sf (ms_y c) = Some (out, y)"
  shows "sys_inv timed (c\<lparr>ms_y := y, ms_in_take := (ms_in_take c)(ms_self c :=
      if out = Blocked then Some m else None)\<rparr>)"
proof -
  let ?y = "ms_y c" and ?t = "ms_self c"
  have run: "mu_stat ?y ?t = RT_THREAD_RUNNING" and out: "ms_in_take c ?t = None"
    using call by (simp_all add: in_call_def)
  have s: "mu_shape ?y" using sys_invD(1) [OF inv] by (simp add: mu_inv_def)
  have y: "mu_inv y" "take_effect m ?t out ?y y" "no_ceilings ?y \<and> mu_exact {} {} ?y \<longrightarrow> mu_exact {} {} y"
    using take_total [OF sys_invD(1) [OF inv] run timeout, of m sf] r by auto
  have pn: "pending_object ?y ?t = None" using sys_invD(2) [OF inv, of ?t] out by (cases "pending_object ?y ?t") auto
  note e = y(2) [unfolded take_effect_def]
  let ?i = "(ms_in_take c)(?t := if out = Blocked then Some m else None)"
  show ?thesis
  proof (rule sys_inv_updI [OF y(1)])
    show "no_ceilings y \<and> mu_exact {} {} y" if "\<not> timed" using e y(3) sys_invD(5,6) [OF inv that] by blast
    show "?i t = Some n" if "pending_object y t = Some n" for t n
      using that e sys_invD(2) [OF inv, of t n] pn by (auto split: if_splits)
    show "thread_error (threads (mu_kernel y) t) = RT_EOK"
      if "?i t = Some n" "mu_owner (mutexes y n) = Some t" for t n
      using that e sys_invD(3) [OF inv, of t n] by (auto split: if_splits)
    show "mu_owner (mutexes y n) \<noteq> Some t" if "pending_object y t = Some n" for t n
      using that e sys_invD(4) [OF inv, of t n] pn by (auto split: if_splits)
  qed
qed

lemma waiter_left_exact:
  assumes "mu_exact {} {} y"
  shows "mutex_waiter_left m t y = Some y"
proof -
  have "mutex_update_priority m y = y"
    using assms by (simp add: mutex_update_priority_def upd_mutex_def mu_exact_def fun_upd_idem_iff)
  then show ?thesis
    using assms by (auto simp: mutex_waiter_left_def mu_exact_def split: option.splits)
qed

lemma resumed_keeps:
  assumes inv: "sys_inv timed c" and run: "mu_stat (ms_y c) (ms_self c) = RT_THREAD_RUNNING"
    and m: "ms_in_take c (ms_self c) = Some m"
    and r: "mutex_take_resumed m (ms_self c) (ms_y c) = Some (r, y)"
  shows "sys_inv timed (c\<lparr>ms_y := y, ms_in_take := (ms_in_take c)(ms_self c := None)\<rparr>)"
proof -
  let ?y = "ms_y c" and ?t = "ms_self c"
  obtain r' z y' where y': "mutex_take_resumed m ?t ?y = Some (r', y')" "mu_inv y'" "reprio ?y z"
    "y' = (if mu_owner (mutexes ?y m) = Some ?t then ?y else z\<lparr>pending_object := (pending_object z)(?t := None)\<rparr>)"
    by (rule resumed_total [OF sys_invD(1) [OF inv] run sys_invD(3) [OF inv m]]) auto
  have y: "mu_inv y" "y = y'" using r y'(1,2) by simp_all
  have wz: "waiting y n = waiting ?y n" for n
    using reprio_waiting [OF y'(3), of n] by (simp add: y(2) y'(4) waiting_def)
  have oz: "mu_owner (mutexes y n) = mu_owner (mutexes ?y n)"
    "thread_error (threads (mu_kernel y) u) = thread_error (threads (mu_kernel ?y) u)" for n u
    using y'(3) by (simp_all add: y(2) y'(4) reprio_fields reprio_threads)
  have pz: "pending_object y u = (if u = ?t then None else pending_object ?y u)" for u
  proof (cases "mu_owner (mutexes ?y m) = Some ?t")
    case True
    have "pending_object ?y ?t = None"
      using sys_invD(2,4) [OF inv, of ?t] m True by (cases "pending_object ?y ?t") auto
    then show ?thesis using True by (simp add: y(2) y'(4))
  next
    case False
    then show ?thesis using reprio_fields(4) [OF y'(3)] by (simp add: y(2) y'(4))
  qed
  have ex: "no_ceilings y \<and> mu_exact {} {} y" if "\<not> timed"
  proof -
    note nc = sys_invD(5,6) [OF inv that]
    have "y = (if mu_owner (mutexes ?y m) = Some ?t then ?y else ?y\<lparr>pending_object := (pending_object ?y)(?t := None)\<rparr>)"
      using r waiter_left_exact [OF nc(2)] by (auto simp: mutex_take_resumed_def Let_def split: if_splits)
    then show ?thesis
      using nc exact_frame [OF nc(2), of y] by (simp add: no_ceilings_def split: if_splits)
  qed
  show ?thesis
    by (rule sys_inv_updI [OF y(1)])
      (use sys_invD(2-4) [OF inv] ex in \<open>auto simp: oz pz split: if_splits\<close>)
qed

lemma release_keeps:
  assumes inv: "sys_inv timed c" and call: "in_call c"
    and r: "rt_mutex_release m (ms_y c) = Some (r, b, y)"
  shows "sys_inv timed (c\<lparr>ms_y := y\<rparr>)"
proof -
  let ?y = "ms_y c" and ?t = "ms_self c"
  have run: "mu_stat ?y ?t = RT_THREAD_RUNNING" and out: "ms_in_take c ?t = None"
    using call by (simp_all add: in_call_def)
  have s: "mu_shape ?y" using sys_invD(1) [OF inv] by (simp add: mu_inv_def)
  obtain r' b' y' where "rt_mutex_release m ?y = Some (r', b', y')" "mu_inv y'"
    "release_effect m ?t ?y y'" "no_ceilings ?y \<and> mu_exact {} {} ?y \<longrightarrow> mu_exact {} {} y'"
    by (rule release_total [OF sys_invD(1) [OF inv] run])
  with r have y: "mu_inv y" "release_effect m ?t ?y y" "no_ceilings ?y \<and> mu_exact {} {} ?y \<longrightarrow> mu_exact {} {} y"
    by simp_all
  note e = y(2) [unfolded release_effect_def]
  have owner: "mu_owner (mutexes ?y n) = Some u \<or> u \<in> waiting ?y n \<and> pending_object y u = None"
    if "mu_owner (mutexes y n) = Some u" for n u
    using that e by (cases "n = m") auto
  have err: "thread_error (threads (mu_kernel y) u) = thread_error (threads (mu_kernel ?y) u)" if "u \<noteq> ?t" for u
    using that e by blast
  show ?thesis
  proof (rule sys_inv_yI [OF y(1)])
    show "no_ceilings y \<and> mu_exact {} {} y" if "\<not> timed" using e y(3) sys_invD(5,6) [OF inv that] by blast
    show "ms_in_take c t = Some n" if "pending_object y t = Some n" for t n
    proof -
      have "pending_object y t = pending_object ?y t" using e that by (metis option.distinct(1))
      then show ?thesis using sys_invD(2) [OF inv, of t n] that by simp
    qed
    show "thread_error (threads (mu_kernel y) t) = RT_EOK"
      if "ms_in_take c t = Some n" "mu_owner (mutexes y n) = Some t" for t n
    proof -
      have "t \<noteq> ?t" using that(1) out by auto
      moreover have "thread_error (threads (mu_kernel ?y) t) = RT_EOK"
        using owner [OF that(2)] sys_invD(3) [OF inv that(1)] mu_shapeD(4) [OF s, of t n] by blast
      ultimately show ?thesis using err by simp
    qed
    show "mu_owner (mutexes y n) \<noteq> Some t" if "pending_object y t = Some n" for t n
    proof
      assume o: "mu_owner (mutexes y n) = Some t"
      have "pending_object y t = pending_object ?y t" using e that by (metis option.distinct(1))
      then show False using owner [OF o] sys_invD(4) [OF inv, of t n] that by auto
    qed
  qed
qed

lemma ceiling_keeps:
  assumes inv: "sys_inv True c" and r: "rt_mutex_setprioceiling m p (ms_y c) = Some (old, y)"
  shows "sys_inv True (c\<lparr>ms_y := y\<rparr>)"
proof -
  let ?y = "ms_y c"
  obtain old' z y' where "rt_mutex_setprioceiling m p ?y = Some (old', y')" "mu_inv y'" "reprio z y'"
    "z = ?y \<or> z = upd_mutex m (\<lambda>x. x\<lparr>ceiling_priority := p\<rparr>) ?y"
    by (rule ceiling_total [OF sys_invD(1) [OF inv]])
  with r have y: "mu_inv y" "reprio z y" by simp_all
  have z: "pending_object z = pending_object ?y" "mu_owner (mutexes z n) = mu_owner (mutexes ?y n)"
    "thread_error (threads (mu_kernel z) t) = thread_error (threads (mu_kernel ?y) t)" for n t
    using \<open>z = ?y \<or> _\<close> by auto
  show ?thesis
    by (rule sys_inv_yI [OF y(1)])
      (use sys_invD(2-4) [OF inv] in \<open>auto simp: reprio_fields [OF y(2)] reprio_threads [OF y(2)] z\<close>)
qed

lemma timeout_keeps:
  assumes inv: "sys_inv True c" and t: "t \<in> waiting (ms_y c) m" and r: "mutex_timeout m t (upd_kernel (timer_expire t) (ms_y c)) = Some y"
  shows "sys_inv True (c\<lparr>ms_y := y\<rparr>)"
proof -
  let ?y = "ms_y c"
  have s: "mu_shape ?y" using sys_invD(1) [OF inv] by (simp add: mu_inv_def)
  obtain y' where "mutex_timeout m t (upd_kernel (timer_expire t) ?y) = Some y'" "mu_inv y'" "pending_object y' = pending_object ?y"
    "\<forall>n. mu_owner (mutexes y' n) = mu_owner (mutexes ?y n)" "\<forall>n. waiting y' n = waiting ?y n - {t}"
    "\<forall>u. u \<noteq> t \<longrightarrow> thread_error (threads (mu_kernel y') u) = thread_error (threads (mu_kernel ?y) u)"
    by (rule timeout_total [OF sys_invD(1) [OF inv] t])
  with r have y: "mu_inv y" "pending_object y = pending_object ?y" "mu_owner (mutexes y n) = mu_owner (mutexes ?y n)"
    "u \<noteq> t \<Longrightarrow> thread_error (threads (mu_kernel y) u) = thread_error (threads (mu_kernel ?y) u)" for n u
    by simp_all
  have p: "pending_object ?y t = Some m" by (rule mu_shapeD(3) [OF s t])
  show ?thesis
  proof (rule sys_inv_yI [OF y(1)])
    fix u n assume u: "ms_in_take c u = Some n" "mu_owner (mutexes y n) = Some u"
    then have "u \<noteq> t" using sys_invD(2) [OF inv p] sys_invD(4) [OF inv p] by (auto simp: y(3))
    then show "thread_error (threads (mu_kernel y) u) = RT_EOK"
      using sys_invD(3) [OF inv u(1)] u(2) by (simp add: y(3,4))
  qed (use sys_invD(2,4) [OF inv] in \<open>auto simp: y(2,3)\<close>)
qed

text \<open>Changes of threads that wait for no mutex, by the scheduler and by other objects.\<close>

lemma other_keeps:
  assumes inv: "sys_inv timed c"
    and other: "\<And>u. u \<notin> T \<Longrightarrow> threads (f (mu_kernel (ms_y c))) u = threads (mu_kernel (ms_y c)) u"
    and T: "\<And>u m. u \<in> T \<Longrightarrow> u \<notin> waiting (ms_y c) m"
      "\<And>u. u \<in> T \<Longrightarrow> rt_sched_thread_is_suspended (f (mu_kernel (ms_y c))) u \<Longrightarrow> pending_object (ms_y c) u = None"
    and cur: "stat (threads (f (mu_kernel (ms_y c))) (rt_current_thread (f (mu_kernel (ms_y c))))) \<noteq> RT_THREAD_READY"
    and prio: "\<And>t. prio (f (mu_kernel (ms_y c))) t = mprio (ms_y c) t"
    and err: "\<And>t. ms_in_take c t \<noteq> None \<Longrightarrow>
      thread_error (threads (f (mu_kernel (ms_y c))) t) = thread_error (threads (mu_kernel (ms_y c)) t)"
  shows "sys_inv timed (c\<lparr>ms_y := upd_kernel f (ms_y c)\<rparr>)"
proof -
  let ?y = "ms_y c" and ?z = "upd_kernel f (ms_y c)"
  have s: "mu_shape ?y" and pr: "mu_prios {} {} ?y" using sys_invD(1) [OF inv] by (simp_all add: mu_inv_def)
  have "mu_shape ?z" by (rule shape_frame [OF s, where T = T]) (use other T cur in simp_all)
  moreover have "mu_prios {} {} ?z" by (rule prios_frame [OF pr]) (simp_all add: prio)
  moreover have "mu_exact {} {} ?z" if "mu_exact {} {} ?y" by (rule exact_frame [OF that]) (simp_all add: prio)
  moreover have "no_ceilings ?z = no_ceilings ?y" by (simp add: no_ceilings_def)
  ultimately show ?thesis
    by (intro sys_inv_yI) (use sys_invD(2-6) [OF inv] err in \<open>auto simp: mu_inv_def\<close>)
qed

lemma switch_keeps:
  assumes inv: "sys_inv timed c" and t: "mu_stat (ms_y c) t = RT_THREAD_READY"
  shows "sys_inv timed (c\<lparr>ms_y := upd_kernel (mu_switch t) (ms_y c)\<rparr>)"
proof (rule other_keeps [OF inv, where T = "{u. mu_stat (ms_y c) u = RT_THREAD_READY \<or> mu_stat (ms_y c) u = RT_THREAD_RUNNING}"])
  have s: "mu_shape (ms_y c)" using sys_invD(1) [OF inv] by (simp add: mu_inv_def)
  show "u \<notin> waiting (ms_y c) m" if "u \<in> {u. mu_stat (ms_y c) u = RT_THREAD_READY \<or> mu_stat (ms_y c) u = RT_THREAD_RUNNING}" for u m
    using that waiting_suspended [OF s, of u m] by (auto simp: rt_sched_thread_is_suspended_def)
qed (use t in \<open>auto simp: mu_switch_def Let_def threads_upd_thread rt_sched_thread_is_suspended_def split: if_splits\<close>)

lemma block_keeps:
  assumes inv: "sys_inv timed c" and call: "in_call c" and p: "pending_object (ms_y c) (ms_self c) = None"
  shows "sys_inv timed (c\<lparr>ms_y := upd_kernel
      (upd_thread (ms_self c) (\<lambda>th. th\<lparr>stat := Suspended sf, thread_error := e\<rparr>)) (ms_y c)\<rparr>)"
proof (rule other_keeps [OF inv, where T = "{ms_self c}"])
  have s: "mu_shape (ms_y c)" using sys_invD(1) [OF inv] by (simp add: mu_inv_def)
  show "u \<notin> waiting (ms_y c) m" if "u \<in> {ms_self c}" for u m
    using that running_not_waiting [OF s, of "ms_self c"] call by (simp add: in_call_def)
qed (use call p in \<open>auto simp: threads_upd_thread in_call_def split: if_splits\<close>)

lemma wake_keeps:
  assumes inv: "sys_inv timed c" and p: "pending_object (ms_y c) t = None" "ms_in_take c t = None"
  shows "sys_inv timed (c\<lparr>ms_y := upd_kernel (\<lambda>k. rt_sched_insert_thread t
      (upd_thread t (\<lambda>th. th\<lparr>thread_error := e\<rparr>) k)) (ms_y c)\<rparr>)"
proof (rule other_keeps [OF inv, where T = "{t}"])
  have s: "mu_shape (ms_y c)" using sys_invD(1) [OF inv] by (simp add: mu_inv_def)
  show "u \<notin> waiting (ms_y c) m" if "u \<in> {t}" for u m
    using that mu_shapeD(3) [OF s, of t m] p(1) by auto
  show "stat (threads (rt_sched_insert_thread t (upd_thread t (\<lambda>th. th\<lparr>thread_error := e\<rparr>) (mu_kernel (ms_y c))))
      (rt_current_thread (rt_sched_insert_thread t (upd_thread t (\<lambda>th. th\<lparr>thread_error := e\<rparr>) (mu_kernel (ms_y c)))))) \<noteq> RT_THREAD_READY"
    using mu_shapeD(12) [OF s] by (simp add: rt_sched_insert_thread_def threads_upd_thread)
qed (use p in \<open>auto simp: threads_upd_thread rt_sched_insert_thread_def split: if_splits\<close>)

lemma step_inv: "mutex_step timed c c' \<Longrightarrow> sys_inv timed c \<Longrightarrow> sys_inv timed c'"
proof (induction rule: mutex_step.induct)
  case take then show ?case by (intro take_keeps)
next
  case resumed then show ?case by (intro resumed_keeps)
next
  case release then show ?case by (intro release_keeps)
next
  case ceiling then show ?case using ceiling_keeps by simp
next
  case timeout then show ?case using timeout_keeps by simp
next
  case switch then show ?case by (intro switch_keeps)
next
  case block then show ?case by (intro block_keeps)
next
  case wake then show ?case by (intro wake_keeps)
qed

lemma reach_inv:
  assumes "mutex_start c0" "mutex_reach timed c0 c"
  shows "sys_inv timed c"
  using assms(2) by induction (use assms(1) in \<open>auto intro: start_inv step_inv\<close>)

section \<open>Runs\<close>

text \<open>The steps as an executable function, for concrete runs.\<close>

datatype mutex_act = Take mid int | Resumed | Release mid | Ceiling mid byte | Timeout tid mid | Switch tid

fun run_act :: "mutex_act \<Rightarrow> mu_sys \<Rightarrow> mu_sys option" where
  "run_act (Take m timeout) c =
    (if in_call c \<and> timeout < 0x7FFFFFFF
     then (case rt_mutex_take m timeout (ms_y c) of
             None \<Rightarrow> None
           | Some (out, y) \<Rightarrow> Some (c\<lparr>ms_y := y, ms_in_take := (ms_in_take c)(ms_self c :=
               if out = Blocked then Some m else None)\<rparr>))
     else None)"
| "run_act Resumed c =
    (case ms_in_take c (ms_self c) of
       None \<Rightarrow> None
     | Some m \<Rightarrow>
         if mu_stat (ms_y c) (ms_self c) = RT_THREAD_RUNNING
         then map_option (\<lambda>(r, y). c\<lparr>ms_y := y, ms_in_take := (ms_in_take c)(ms_self c := None)\<rparr>)
           (mutex_take_resumed m (ms_self c) (ms_y c))
         else None)"
| "run_act (Release m) c =
    (if in_call c then map_option (\<lambda>(r, b, y). c\<lparr>ms_y := y\<rparr>) (rt_mutex_release m (ms_y c)) else None)"
| "run_act (Ceiling m p) c =
    (if in_call c then map_option (\<lambda>(old, y). c\<lparr>ms_y := y\<rparr>) (rt_mutex_setprioceiling m p (ms_y c)) else None)"
| "run_act (Timeout t m) c =
    (if List.member (mu_waiters (mutexes (ms_y c) m)) t \<and> timer_activated (threads (mu_kernel (ms_y c)) t)
     then map_option (\<lambda>y. c\<lparr>ms_y := y\<rparr>) (mutex_timeout m t (upd_kernel (timer_expire t) (ms_y c))) else None)"
| "run_act (Switch t) c =
    (if mu_stat (ms_y c) t = RT_THREAD_READY
     then Some (c\<lparr>ms_y := upd_kernel (mu_switch t) (ms_y c)\<rparr>) else None)"

fun mutex_run :: "mutex_act list \<Rightarrow> mu_sys \<Rightarrow> mu_sys option" where
  "mutex_run [] c = Some c"
| "mutex_run (a # as) c = (case run_act a c of None \<Rightarrow> None | Some c' \<Rightarrow> mutex_run as c')"

lemma act_step:
  assumes "run_act a c = Some c'" "timed \<or> (\<forall>m p. a \<noteq> Ceiling m p) \<and> (\<forall>t m. a \<noteq> Timeout t m)"
  shows "mutex_step timed c c'"
  using assms
proof (cases a)
  case Take
  then show ?thesis using assms(1)
    by (auto simp: rt_mutex_take_def split: if_splits option.splits intro!: mutex_step.take)
next
  case Resumed
  then show ?thesis using assms(1) by (auto split: if_splits option.splits intro!: mutex_step.resumed)
next
  case Release
  then show ?thesis using assms(1) by (auto split: if_splits intro!: mutex_step.release)
next
  case Ceiling
  then show ?thesis using assms by (auto split: if_splits intro!: mutex_step.ceiling)
next
  case (Timeout t m)
  then show ?thesis using assms mutex_step.timeout [of timed t c m] by (auto simp: waiting_def split: if_splits)
next
  case Switch
  then show ?thesis using assms(1) by (auto split: if_splits intro!: mutex_step.switch)
qed

lemma run_reach:
  "mutex_run as c = Some c' \<Longrightarrow> timed \<or> (\<forall>a\<in>set as. (\<forall>m p. a \<noteq> Ceiling m p) \<and> (\<forall>t m. a \<noteq> Timeout t m)) \<Longrightarrow>
    mutex_reach timed c c'"
proof (induction "as" arbitrary: c)
  case (Cons a "as")
  then obtain c1 where c1: "run_act a c = Some c1" "mutex_run as c1 = Some c'" by (auto split: option.splits)
  have "mutex_step timed c c1" by (rule act_step [OF c1(1)]) (use Cons.prems(2) in auto)
  moreover have "mutex_reach timed c1 c'" by (rule Cons.IH [OF c1(2)]) (use Cons.prems(2) in auto)
  ultimately show ?case by (rule converse_rtranclp_into_rtranclp)
qed simp

text \<open>Three threads of priority 20, 10 and 5; the first runs.\<close>

definition demo :: mu_sys where
  "demo = \<lparr>ms_y = \<lparr>
     mu_kernel = \<lparr>rt_current_thread = 1, threads = (\<lambda>t. \<lparr>
       current_priority = (if t = 1 then 20 else if t = 2 then 10 else if t = 3 then 5 else 31),
       thread_error = 0, stat = (if t = 1 then RT_THREAD_RUNNING else RT_THREAD_READY),
       sched_flag_ttmr_set = False, timer_activated = False, init_tick = 0\<rparr>)\<rparr>,
     mutexes = (\<lambda>m. rt_mutex_init), taken_object_list = (\<lambda>t. []), pending_object = (\<lambda>t. None),
     init_priority = (\<lambda>t. if t = 1 then 20 else if t = 2 then 10 else if t = 3 then 5 else 31)\<rparr>,
   ms_in_take = (\<lambda>t. None)\<rparr>"

lemma demo_start: "mutex_start demo"
  by (simp add: mutex_start_def demo_def RT_THREAD_PRIORITY_MAX_def)

text \<open>What the runs of the examples show.\<close>

lemma demo_blocked:
  obtains c where "mutex_run [Take 0 (-1), Switch 2, Take 0 (-1), Switch 1] demo = Some c"
    "mutex_reach timed demo c" "mprio (ms_y c) 1 = 10" "mprio (ms_y c) 2 = 10" "ms_self c = 1" "in_call c"
    "mu_owner (mutexes (ms_y c) 0) = Some 1" "mu_hold (mutexes (ms_y c) 0) = 1" "mu_waiters (mutexes (ms_y c) 0) = [2]"
proof -
  let ?as = "[Take 0 (-1), Switch 2, Take 0 (-1), Switch 1]"
  have "map_option (\<lambda>c. (mprio (ms_y c) 1, mprio (ms_y c) 2, ms_self c, in_call c, mu_owner (mutexes (ms_y c) 0),
      mu_hold (mutexes (ms_y c) 0), mu_waiters (mutexes (ms_y c) 0))) (mutex_run ?as demo) =
    Some (10, 10, 1, True, Some 1, 1, [2])" by code_simp
  then obtain c where "mutex_run ?as demo = Some c" and c: "mprio (ms_y c) 1 = 10" "mprio (ms_y c) 2 = 10" "ms_self c = 1"
      "in_call c" "mu_owner (mutexes (ms_y c) 0) = Some 1" "mu_hold (mutexes (ms_y c) 0) = 1"
      "mu_waiters (mutexes (ms_y c) 0) = [2]" by auto
  then show ?thesis by (intro that [of c] run_reach [of ?as]) simp_all
qed

section \<open>Properties\<close>

text \<open>C24
  Priority inheritance: under every interleaving of takes (timeout below 0x7FFFFFFF), releases,
  expiries (each with its callback, nothing in between), ceiling changes and scheduling, and
  without rt_mutex_detach, rt_mutex_delete and the end of a thread: a thread that waits for a
  mutex is suspended, the mutex has an owner, that owner is another thread and runs at a priority
  at least as urgent as the waiter's, and the wait list is ordered by the current priorities.
\<close>

theorem mutex_no_priority_inversion:
  assumes "mutex_start c0" "mutex_reach True c0 c" "t \<in> waiting (ms_y c) m"
  shows "mu_suspended (ms_y c) t \<and> prio_sorted (mu_kernel (ms_y c)) (mu_waiters (mutexes (ms_y c) m)) \<and>
    (\<exists>w. mu_owner (mutexes (ms_y c) m) = Some w \<and> w \<noteq> t \<and> mprio (ms_y c) w \<le> mprio (ms_y c) t)"
proof -
  let ?y = "ms_y c"
  note inv = reach_inv [OF assms(1,2)]
  have s: "mu_shape ?y" and pr: "mu_prios {} {} ?y" using sys_invD(1) [OF inv] by (simp_all add: mu_inv_def)
  obtain w where w: "mu_owner (mutexes ?y m) = Some w" using waiting_owner [OF s assms(3)] by blast
  have "w \<noteq> t" using sys_invD(4) [OF inv mu_shapeD(3) [OF s assms(3)]] w by auto
  moreover have "mprio ?y w \<le> mprio ?y t"
    using mu_priosD(4) [OF pr w] mu_priosD(2) [OF pr assms(3)] by simp
  ultimately show ?thesis
    using w waiting_suspended [OF s assms(3)] mu_priosD(1) [OF pr, of m] by simp
qed

theorem mutex_no_priority_inversion_witness:
  "\<exists>c. mutex_reach True demo c \<and> mu_suspended (ms_y c) 2 \<and>
    (\<exists>w. mu_owner (mutexes (ms_y c) 0) = Some w \<and> w \<noteq> 2 \<and> mprio (ms_y c) w \<le> mprio (ms_y c) 2)"
proof (rule demo_blocked [of True])
  fix c assume c: "mutex_reach True demo c" "mu_waiters (mutexes (ms_y c) 0) = [2]"
  then have "2 \<in> waiting (ms_y c) 0" by (simp add: waiting_def)
  from mutex_no_priority_inversion [OF demo_start c(1) this] c(1) show ?thesis by blast
qed

text \<open>C26
  In every state reached so (takes with a timeout below 0x7FFFFFFF, releases, ceiling changes,
  expiries with their callback following at once, scheduling; no detach, delete or end of a
  thread), a deadlock among the threads included, the calls return: in a take with such a timeout,
  a release, a ceiling change, a resumed take and an expiry no RT_ASSERT fails and no chain of
  owners is followed forever.
\<close>

theorem mutex_calls_return:
  assumes "mutex_start c0" "mutex_reach True c0 c"
  shows "(in_call c \<and> timeout < 0x7FFFFFFF \<longrightarrow> rt_mutex_take_main m timeout sf (ms_y c) \<noteq> None) \<and>
    (in_call c \<longrightarrow> rt_mutex_release m (ms_y c) \<noteq> None \<and> rt_mutex_setprioceiling m p (ms_y c) \<noteq> None) \<and>
    (mu_stat (ms_y c) (ms_self c) = RT_THREAD_RUNNING \<and> ms_in_take c (ms_self c) = Some m \<longrightarrow>
       mutex_take_resumed m (ms_self c) (ms_y c) \<noteq> None) \<and>
    (t \<in> waiting (ms_y c) m \<longrightarrow> mutex_timeout m t (upd_kernel (timer_expire t) (ms_y c)) \<noteq> None)"
proof -
  note inv = reach_inv [OF assms]
  note i = sys_invD(1) [OF inv]
  have "rt_mutex_take_main m timeout sf (ms_y c) \<noteq> None" if "in_call c" "timeout < 0x7FFFFFFF"
    by (rule take_total [OF i _ that(2), of m sf]) (use that in \<open>auto simp: in_call_def\<close>)
  moreover have "rt_mutex_release m (ms_y c) \<noteq> None" if "in_call c"
    by (rule release_total [OF i, of m]) (use that in \<open>auto simp: in_call_def\<close>)
  moreover have "rt_mutex_setprioceiling m p (ms_y c) \<noteq> None"
    by (rule ceiling_total [OF i, of m p]) auto
  moreover have "mutex_take_resumed m (ms_self c) (ms_y c) \<noteq> None"
    if "mu_stat (ms_y c) (ms_self c) = RT_THREAD_RUNNING" "ms_in_take c (ms_self c) = Some m"
    by (rule resumed_total [OF i that(1) sys_invD(3) [OF inv that(2)]]) auto
  moreover have "mutex_timeout m t (upd_kernel (timer_expire t) (ms_y c)) \<noteq> None" if "t \<in> waiting (ms_y c) m"
    by (rule timeout_total [OF i that]) auto
  ultimately show ?thesis by blast
qed

theorem mutex_calls_return_witness:
  "\<exists>c. mutex_reach True demo c \<and> in_call c \<and> rt_mutex_release 0 (ms_y c) \<noteq> None \<and>
    mutex_timeout 0 2 (upd_kernel (timer_expire 2) (ms_y c)) \<noteq> None"
proof (rule demo_blocked [of True])
  fix c assume c: "mutex_reach True demo c" "in_call c" "mu_waiters (mutexes (ms_y c) 0) = [2]"
  then have "2 \<in> waiting (ms_y c) 0" by (simp add: waiting_def)
  with mutex_calls_return [OF demo_start c(1), of 0 0 RT_UNINTERRUPTIBLE 0 2] c(1,2) show ?thesis by blast
qed

text \<open>C25
  The inherited priority is exact under every interleaving of takes (timeout below 0x7FFFFFFF),
  releases and scheduling in which no timeout expires, no ceiling is set, no mutex is detached or
  deleted and no thread ends: a thread runs at the most urgent of its own priority and the
  priorities of the threads that wait for its mutexes, hence again at its own one as soon as
  nobody does.
\<close>

theorem mutex_priority_exact:
  assumes "mutex_start c0" "mutex_reach False c0 c"
  shows "mprio (ms_y c) t = Min (insert (init_priority (ms_y c) t)
    {mprio (ms_y c) u |u m. mu_owner (mutexes (ms_y c) m) = Some t \<and> u \<in> waiting (ms_y c) m})"
proof -
  let ?y = "ms_y c"
  let ?P = "{mprio ?y u |u m. mu_owner (mutexes ?y m) = Some t \<and> u \<in> waiting ?y m}"
  note inv = reach_inv [OF assms]
  have s: "mu_shape ?y" and pr: "mu_prios {} {} ?y" using sys_invD(1) [OF inv] by (simp_all add: mu_inv_def)
  have ex: "mu_exact {} {} ?y" and nc: "no_ceilings ?y" using sys_invD(5,6) [OF inv] by simp_all
  have w: "x \<le> mu_priority (mutexes ?y m) \<longleftrightarrow> (\<forall>u\<in>waiting ?y m. x \<le> mprio ?y u)" for x m
  proof
    assume "x \<le> mu_priority (mutexes ?y m)"
    then show "\<forall>u\<in>waiting ?y m. x \<le> mprio ?y u" using mu_priosD(2) [OF pr, of _ m] by force
  next
    assume "\<forall>u\<in>waiting ?y m. x \<le> mprio ?y u"
    then show "x \<le> mu_priority (mutexes ?y m)"
      using ex by (auto simp: mu_exact_def waiters_prio_def waiting_def split: list.splits)
  qed
  have F: "mprio ?y t = thread_get_mutex_priority ?y t" using ex by (simp add: mu_exact_def)
  have "x \<le> mprio ?y t \<longleftrightarrow> x \<le> Min (insert (init_priority ?y t) ?P)" for x
  proof -
    have "x \<le> mprio ?y t \<longleftrightarrow> x \<le> init_priority ?y t \<and>
        (\<forall>m. mu_owner (mutexes ?y m) = Some t \<longrightarrow> (\<forall>u\<in>waiting ?y m. x \<le> mprio ?y u))"
      unfolding F le_mutex_priority_iff [of x ?y t] Ball_def mu_shapeD(7) [OF s, of _ t]
      using nc by (simp add: no_ceilings_def w Ball_def)
    also have "\<dots> \<longleftrightarrow> x \<le> Min (insert (init_priority ?y t) ?P)" by auto
    finally show ?thesis .
  qed
  then show ?thesis by (intro order.antisym) auto
qed

theorem mutex_priority_exact_witness:
  "\<exists>c. mutex_reach False demo c \<and> 10 = Min (insert (init_priority (ms_y c) 1)
    {mprio (ms_y c) u |u m. mu_owner (mutexes (ms_y c) m) = Some 1 \<and> u \<in> waiting (ms_y c) m})"
proof (rule demo_blocked [of False])
  fix c assume c: "mutex_reach False demo c" "mprio (ms_y c) 1 = 10"
  with mutex_priority_exact [OF demo_start c(1), of 1] show ?thesis by auto
qed

text \<open>
  The last release of a mutex with waiters hands it to the first of them, which has the most
  urgent priority of all: the thread becomes ready and holds the mutex once, and the releasing
  thread no longer holds it.
\<close>

theorem mutex_hands_over_to_most_urgent:
  assumes "mutex_start c0" "mutex_reach True c0 c" "in_call c"
    and "mu_owner (mutexes (ms_y c) m) = Some (ms_self c)" "mu_hold (mutexes (ms_y c) m) = 1"
    and "mu_waiters (mutexes (ms_y c) m) = h # ws"
  shows "\<exists>y. rt_mutex_release m (ms_y c) = Some (RT_EOK, True, y) \<and> mu_owner (mutexes y m) = Some h \<and>
    mu_hold (mutexes y m) = 1 \<and> mu_waiters (mutexes y m) = ws \<and> mu_stat y h = RT_THREAD_READY \<and>
    pending_object y h = None \<and> m \<in> set (taken_object_list y h) \<and> m \<notin> set (taken_object_list y (ms_self c)) \<and>
    (\<forall>u\<in>set ws. mprio (ms_y c) h \<le> mprio (ms_y c) u)"
proof -
  let ?y = "ms_y c" and ?t = "ms_self c"
  note i = sys_invD(1) [OF reach_inv [OF assms(1,2)]]
  have s: "mu_shape ?y" and pr: "mu_prios {} {} ?y" using i by (simp_all add: mu_inv_def)
  have run: "mu_stat ?y ?t = RT_THREAD_RUNNING" using assms(3) by (simp add: in_call_def)
  have nw: "?t \<notin> waiting ?y m" by (rule running_not_waiting [OF s run])
  obtain b q where q: "check_and_update_prio ?t m (let_go m ?t ?y) = Some (b, set_prio ?t q (let_go m ?t ?y))"
    by (rule check_and_update_let_go [OF i assms(4)])
  let ?z = "handed m h ws (set_prio ?t q (let_go m ?t ?y))"
  have h: "h \<noteq> ?t" using nw by (auto simp: waiting_def assms(6))
  have "rt_mutex_release m ?y = Some (RT_EOK, True, ?z)"
    using release_last [OF assms(4) _ assms(5) q] hand_over_wakeable [OF i assms(4) nw assms(6), of q] by simp
  moreover have "m \<notin> set (taken_object_list ?z ?t)"
    using let_go_taken [OF s assms(4), of m ?t] h by (simp add: handed_def del: let_go_simps)
  moreover have "mu_stat ?z h = RT_THREAD_READY" using h by (simp add: handed_def woken_def)
  moreover have "\<forall>u\<in>set ws. mprio ?y h \<le> mprio ?y u"
    using mu_priosD(1) [OF pr, of m] by (simp add: assms(6) prio_sorted_def)
  ultimately show ?thesis by (intro exI [of _ ?z]) (simp add: handed_def)
qed

theorem mutex_hands_over_to_most_urgent_witness:
  "\<exists>c y. mutex_reach True demo c \<and> rt_mutex_release 0 (ms_y c) = Some (RT_EOK, True, y) \<and>
    mu_owner (mutexes y 0) = Some 2"
proof (rule demo_blocked [of True])
  fix c assume c: "mutex_reach True demo c" "in_call c" "ms_self c = 1" "mu_owner (mutexes (ms_y c) 0) = Some 1"
    "mu_hold (mutexes (ms_y c) 0) = 1" "mu_waiters (mutexes (ms_y c) 0) = [2]"
  with mutex_hands_over_to_most_urgent [OF demo_start c(1,2), of 0 2 "[]"] show ?thesis by auto
qed

text \<open>C37
  A waiter whose own priority has changed since leaves its boost behind when it gives up: thread
  1 of priority 20 holds mutex 0, thread 2 of priority 10 waits for it until its timeout, and is
  itself boosted to 5 through mutex 1 before it runs again.  It then finds its priority different
  from the owner's and does not update the owner, which keeps priority 10 even after it has
  released its last mutex.
\<close>

theorem mutex_timeout_leaves_boost:
  "\<exists>c. mutex_reach True demo c \<and> taken_object_list (ms_y c) 1 = [] \<and>
    init_priority (ms_y c) 1 = 20 \<and> mprio (ms_y c) 1 = 10"
proof -
  let ?as = "[Take 0 (-1), Switch 2, Take 1 (-1), Take 0 100, Switch 3, Timeout 2 0, Take 1 (-1),
    Switch 2, Resumed, Switch 1, Release 0]"
  have "map_option (\<lambda>c. (taken_object_list (ms_y c) 1, init_priority (ms_y c) 1, mprio (ms_y c) 1)) (mutex_run ?as demo) =
    Some ([], 20, 10)" by code_simp
  then obtain c where "mutex_run ?as demo = Some c" "taken_object_list (ms_y c) 1 = []"
    "init_priority (ms_y c) 1 = 20" "mprio (ms_y c) 1 = 10" by auto
  then show ?thesis by (intro exI [of _ c] conjI run_reach [of ?as]) simp_all
qed

text \<open>
  The ceiling of a mutex reaches a thread that takes it free, but not a thread it is handed to:
  with the ceiling 1, thread 2 of priority 10 owns mutex 0 after a release and still runs at 10.
\<close>

theorem mutex_handover_ignores_ceiling:
  "\<exists>c. mutex_reach True demo c \<and> ceiling_priority (mutexes (ms_y c) 0) = 1 \<and>
    mu_owner (mutexes (ms_y c) 0) = Some 2 \<and> mprio (ms_y c) 2 = 10 \<and> thread_get_mutex_priority (ms_y c) 2 = 1"
proof -
  let ?as = "[Ceiling 0 1, Take 0 (-1), Switch 2, Take 0 (-1), Switch 1, Release 0]"
  have "map_option (\<lambda>c. (ceiling_priority (mutexes (ms_y c) 0), mu_owner (mutexes (ms_y c) 0), mprio (ms_y c) 2,
      thread_get_mutex_priority (ms_y c) 2)) (mutex_run ?as demo) = Some (1, Some 2, 10, 1)" by code_simp
  then obtain c where "mutex_run ?as demo = Some c" "ceiling_priority (mutexes (ms_y c) 0) = 1"
    "mu_owner (mutexes (ms_y c) 0) = Some 2" "mprio (ms_y c) 2 = 10" "thread_get_mutex_priority (ms_y c) 2 = 1" by auto
  then show ?thesis by (intro exI [of _ c] conjI run_reach [of ?as]) simp_all
qed

text \<open>
  The window that the expiry step leaves out.  Thread 2 holds mutex 1 and waits with a timeout for
  mutex 0 of thread 1; _timer_check has cleared ACTIVATED of its timer, the callback is still to
  come.  A release by thread 1 takes thread 2 off the wait list and leaves the mutex without an
  owner, while thread 2 is suspended and still has it as its pending object.  When thread 3 now
  takes mutex 1 and boosts thread 2, the walk along the owners reads the priority of the owner
  of mutex 0 through a null pointer.
\<close>

theorem mutex_null_owner_in_expiry_window:
  "\<exists>c c1. mutex_reach True demo c \<and> timer_activated (threads (mu_kernel (ms_y c)) 2) \<and>
    mutex_run [Release 0, Switch 3] (c\<lparr>ms_y := upd_kernel (timer_expire 2) (ms_y c)\<rparr>) = Some c1 \<and>
    mu_owner (mutexes (ms_y c1) 0) = None \<and> mu_waiters (mutexes (ms_y c1) 0) = [] \<and>
    mu_suspended (ms_y c1) 2 \<and> pending_object (ms_y c1) 2 = Some 0 \<and> in_call c1 \<and>
    rt_mutex_take 1 (-1) (ms_y c1) = None"
proof -
  let ?as = "[Take 0 (-1), Switch 2, Take 1 (-1), Take 0 100, Switch 1]"
  let ?r = "\<lambda>c. mutex_run [Release 0, Switch 3] (c\<lparr>ms_y := upd_kernel (timer_expire 2) (ms_y c)\<rparr>)"
  have "map_option (\<lambda>c. (timer_activated (threads (mu_kernel (ms_y c)) 2),
      map_option (\<lambda>c1. (mu_owner (mutexes (ms_y c1) 0), mu_waiters (mutexes (ms_y c1) 0), mu_suspended (ms_y c1) 2,
        pending_object (ms_y c1) 2, in_call c1, Option.is_none (rt_mutex_take 1 (-1) (ms_y c1)))) (?r c)))
      (mutex_run ?as demo) =
    Some (True, Some (None, [], True, Some 0, True, True))" by code_simp
  then obtain c c1 where "mutex_run ?as demo = Some c" "timer_activated (threads (mu_kernel (ms_y c)) 2)"
    "?r c = Some c1" "mu_owner (mutexes (ms_y c1) 0) = None" "mu_waiters (mutexes (ms_y c1) 0) = []"
    "mu_suspended (ms_y c1) 2" "pending_object (ms_y c1) 2 = Some 0" "in_call c1" "rt_mutex_take 1 (-1) (ms_y c1) = None"
    by (auto simp del: mutex_run.simps simp: Option.is_none_def)
  then show ?thesis
    by (intro exI [of _ c] exI [of _ c1] conjI run_reach [of ?as]) (simp_all del: mutex_run.simps)
qed

end
