(* ===== verification/Sched_Refine.thy ===== *)
theory Sched_Refine
  imports Sched_Sys Mutex_Sys
begin

text \<open>
  The scheduler at the width of the code implements the kernel that the IPC objects are modelled
  on: status bytes are the codes of \<open>thread_stat\<close>, and inserting, suspending, changing a
  priority and rt_schedule are the operations and the \<open>switch\<close> step used there.
\<close>

section \<open>Status codes\<close>

fun stat_code :: "thread_stat \<Rightarrow> byte" where
  "stat_code RT_THREAD_INIT = STAT_INIT"
| "stat_code RT_THREAD_CLOSE = STAT_CLOSE"
| "stat_code RT_THREAD_READY = STAT_READY"
| "stat_code RT_THREAD_RUNNING = STAT_RUNNING"
| "stat_code (Suspended f) = sched_suspend_code f"

lemma suspend_code_simps:
  "sched_suspend_code RT_INTERRUPTIBLE = 4" "sched_suspend_code RT_KILLABLE = 6" "sched_suspend_code RT_UNINTERRUPTIBLE = 7"
  by (simp_all add: sched_suspend_code_def)

lemma suspend_code_distinct [simp]:
  "sched_suspend_code f \<noteq> STAT_INIT" "sched_suspend_code f \<noteq> STAT_CLOSE"
  "sched_suspend_code f \<noteq> STAT_READY" "sched_suspend_code f \<noteq> STAT_RUNNING"
  by (cases f; simp add: suspend_code_simps STAT_INIT_def STAT_CLOSE_def STAT_READY_def STAT_RUNNING_def)+

lemma stat_code_eq_simps [simp]:
  "stat_code x = STAT_READY \<longleftrightarrow> x = RT_THREAD_READY" "stat_code x = STAT_RUNNING \<longleftrightarrow> x = RT_THREAD_RUNNING"
  "stat_code x = STAT_INIT \<longleftrightarrow> x = RT_THREAD_INIT" "stat_code x = STAT_CLOSE \<longleftrightarrow> x = RT_THREAD_CLOSE"
  by (cases x; simp)+

text \<open>Every status byte of a reachable state is the code of a status.\<close>

definition codes_wf :: "sched \<Rightarrow> bool" where
  "codes_wf s \<longleftrightarrow> (\<forall>t. sched_stat s t \<in> range stat_code)"

lemma codes [simp]:
  "STAT_INIT \<in> range stat_code" "STAT_CLOSE \<in> range stat_code" "STAT_READY \<in> range stat_code"
  "STAT_RUNNING \<in> range stat_code" "sched_suspend_code f \<in> range stat_code"
  using rangeI [of stat_code RT_THREAD_INIT] rangeI [of stat_code RT_THREAD_CLOSE] rangeI [of stat_code RT_THREAD_READY]
    rangeI [of stat_code RT_THREAD_RUNNING] rangeI [of stat_code "Suspended f"] by simp_all

lemma mask_code [simp]: "RT_THREAD_SUSPEND_MASK \<in> range stat_code"
  using codes(5) [of RT_INTERRUPTIBLE] by (simp add: suspend_code_simps RT_THREAD_SUSPEND_MASK_def)

section \<open>What rt_schedule does to the threads\<close>

lemma schedule_stats:
  assumes wf: "sched_wf s" and c: "sc_current_thread s = Some c" and r: "rt_schedule s = Some s'"
  obtains t where "sc_current_thread s' = Some t" "\<forall>u. sc_prio s' u = sc_prio s u"
    "t = c \<or> sched_stat s t = STAT_READY"
    "\<forall>u. sched_stat s' u = (if t = c then sched_stat s u else if u = t then STAT_RUNNING
       else if u = c \<and> sched_stat s c = STAT_RUNNING then STAT_READY else sched_stat s u)"
proof -
  note q = sched_wfD(1) [OF wf]
  have cs: "sched_stat s c \<noteq> STAT_READY" using run_wfD(2) [OF sched_wfD(2) [OF wf] c] by simp
  consider (locked) "rt_scheduler_lock_nest s \<noteq> 0"
    | (idle) "rt_scheduler_lock_nest s = 0" "rt_thread_ready_priority_group s = 0"
    | (pick) "rt_scheduler_lock_nest s = 0" "rt_thread_ready_priority_group s \<noteq> 0" by blast
  then show ?thesis
  proof cases
    case locked
    then have "s' = s\<lparr>critical_switch_flag := True\<rparr>" using r by (simp add: rt_schedule_def)
    then show ?thesis using c by (intro that [of c]) (simp_all add: sched_stat_def)
  next
    case idle
    then have "s' = s" using r by (simp add: rt_schedule_def)
    then show ?thesis using c by (intro that [of c]) simp_all
  next
    case pick
    obtain t p w where t: "highest_priority_thread s = Some (t, p)" "sched_stat s t = STAT_READY"
      by (rule highest_total [OF q pick(2)])
    have tc: "t \<noteq> c" using t(2) cs by auto
    note eq = schedule_eq [OF pick t(1) c tc]
    show ?thesis
    proof (cases "sched_stat s c = STAT_RUNNING \<and> (unat (sc_prio s c) < p \<or> unat (sc_prio s c) = p \<and> \<not> yielding s c)")
      case True
      then have "s' = set_stat c STAT_RUNNING (sched_remove_thread c s)" using r eq by simp
      then show ?thesis using c True by (intro that [of c]) simp_all
    next
      case False
      have s': "s' = sched_switch p c t s" using r unfolding eq if_not_P [OF False] by simp
      note f = switch_facts [OF q t(2) tc cs s']
      show ?thesis using tc t(2) by (intro that [of t]) (simp_all add: f)
    qed
  qed
qed

lemma codes_step:
  assumes "codes_wf s" "\<And>u. sched_stat s' u = sched_stat s u \<or> sched_stat s' u \<in> {STAT_INIT, STAT_CLOSE, STAT_READY, STAT_RUNNING}"
  shows "codes_wf s'"
  unfolding codes_wf_def
proof
  fix u
  show "sched_stat s' u \<in> range stat_code"
    using assms(1) assms(2) [of u] unfolding codes_wf_def by (elim disjE) (simp, force)
qed

lemma schedule_codes:
  assumes wf: "sched_wf s" and co: "codes_wf s" and r: "rt_schedule s = Some s'"
  shows "codes_wf s'"
proof (cases "sc_current_thread s")
  case (Some c)
  show ?thesis
    by (rule schedule_stats [OF wf Some r], rule codes_step [OF co]) (auto split: if_splits)
next
  case None
  then have "s' = s \<or> s' = s\<lparr>critical_switch_flag := True\<rparr>"
    using r by (auto simp: rt_schedule_def split: if_splits option.splits prod.splits)
  then show ?thesis using co by (auto simp: codes_wf_def sched_stat_def)
qed

lemma unlock_codes:
  assumes "sched_wf s" "codes_wf s" "unlock_n_resched s = Some s'"
  shows "codes_wf s'"
  using assms schedule_codes by (cases "sc_current_thread s") (auto simp: unlock_n_resched_def)

lemma yield_codes: "codes_wf s \<Longrightarrow> codes_wf (sched_thread_yield t s)"
  by (simp add: codes_wf_def)

lemma insert_codes: "codes_wf s \<Longrightarrow> codes_wf (sched_insert_thread t s)"
  by (rule codes_step) auto

lemma step_codes: "sched_step s s' \<Longrightarrow> sched_wf s \<Longrightarrow> codes_wf s \<Longrightarrow> codes_wf s'"
proof (induction rule: sched_step.induct)
  case (create s t tick p s')
  then have "s' = upd_sched t (\<lambda>th. th\<lparr>sc_stat := STAT_INIT, sc_init_priority := p, sc_current_priority := p,
            number_mask := 0, sc_init_tick := tick, remaining_tick := tick\<rparr>) s"
    by (simp add: sched_thread_init_priv_def split: if_splits)
  then show ?case by - (rule codes_step [OF create.prems(2)], auto simp: stat_upd code_and_mask)
next
  case (startup t s s')
  then have i: "sched_stat s t = STAT_INIT" by (simp add: rt_thread_startup_def split: if_splits)
  let ?s = "sched_thread_startup t s"
  have "sched_stat ?s u = (if u = t then RT_THREAD_SUSPEND_MASK else sched_stat s u)" for u
    by (simp add: sched_thread_startup_def stat_upd code_and_mask)
  then have co: "codes_wf (sched_insert_thread t ?s)"
    using startup.prems(2) by - (rule insert_codes, auto simp: codes_wf_def)
  have r: "sched_thread_resume t ?s = Some (sched_insert_thread t ?s)" "unlock_n_resched (sched_insert_thread t ?s) = Some s'"
    using startup.hyps i by (auto simp: rt_thread_startup_def sched_thread_resume_def split: if_splits)
  show ?case by (rule unlock_codes [OF startup_insert_wf [OF startup.prems(1) i] co r(2)])
next
  case (start s s')
  then obtain t p where "s' = upd_sched t (\<lambda>th. th\<lparr>sc_stat := STAT_RUNNING\<rparr>) (sched_remove_thread t
      (s\<lparr>sc_current_thread := Some t, critical_switch_flag := False\<rparr>))"
    by (auto simp: rt_system_scheduler_start_def split: option.splits)
  then show ?case
    by - (rule codes_step [OF start.prems(2)], auto simp: stat_upd code_and_mask sched_stat_def)
next
  case schedule then show ?case using schedule_codes by blast
next
  case (tick n s s')
  obtain c where c: "sc_current_thread s = Some c" using tick.hyps by (auto simp: rt_sched_tick_increase_def split: option.splits)
  let ?s = "upd_sched c (\<lambda>th. th\<lparr>remaining_tick := if remaining_tick (sc_threads s c) > n
    then remaining_tick (sc_threads s c) - n else 0\<rparr>) s"
  have st: "sched_stat ?s u = sched_stat s u" for u by (simp add: sched_stat_def)
  have wf: "sched_wf ?s" by (rule sched_wf_cong [OF tick.prems(1)]) (simp_all add: st)
  have co: "codes_wf ?s" using tick.prems(2) unfolding codes_wf_def st .
  have "s' = ?s \<or> unlock_n_resched (sched_thread_yield c ?s) = Some s'"
    using tick.hyps c by (auto simp: rt_sched_tick_increase_def Let_def split: if_splits)
  then show ?case using co unlock_codes [OF yield_wf [OF wf] yield_codes [OF co]] by blast
next
  case (yield s s')
  then obtain c where "unlock_n_resched (sched_thread_yield c s) = Some s'"
    by (auto simp: rt_thread_yield_def split: option.splits)
  then show ?case by (rule unlock_codes [OF yield_wf [OF yield.prems(1)] yield_codes [OF yield.prems(2)]])
next
  case (suspend t f s s')
  then have "s' = set_stat t (sched_suspend_code f) (sched_remove_thread t s)"
    by (simp add: sched_thread_suspend_def split: if_splits)
  then show ?case using suspend.prems(2) by (simp add: codes_wf_def)
next
  case (resume t s s')
  have "s' = sched_insert_thread t s" using resume.hyps by (simp add: sched_thread_resume_def split: if_splits)
  then show ?case using insert_codes [OF resume.prems(2)] by simp
next
  case (priority t p reset s s')
  let ?f = "\<lambda>th. th\<lparr>sc_init_priority := (if reset then p else sc_init_priority th),
    sc_current_priority := p, number_mask := push_bit (unat p) 1\<rparr>"
  have st: "sched_stat (upd_sched t ?f s) u = sched_stat s u" for u by (simp add: sched_stat_def)
  have "codes_wf (upd_sched t ?f s)" using priority.prems(2) unfolding codes_wf_def st .
  moreover have "codes_wf (upd_sched t (\<lambda>th. (?f th)\<lparr>sc_stat := STAT_INIT\<rparr>) (sched_remove_thread t s))"
    by (rule codes_step [OF priority.prems(2)]) (simp add: stat_upd code_and_mask)
  ultimately show ?case
    using priority.hyps insert_codes unfolding sched_update_priority_def Let_def by (auto split: if_splits)
next
  case (close t s s')
  then have "s' = s \<or> s' = upd_sched t (\<lambda>th. th\<lparr>sc_stat := STAT_CLOSE\<rparr>)
      (if sched_stat s t \<noteq> STAT_INIT then sched_remove_thread t s else s)"
    by (auto simp: rt_thread_close_def split: if_splits)
  then show ?case
  proof
    assume "s' = upd_sched t (\<lambda>th. th\<lparr>sc_stat := STAT_CLOSE\<rparr>)
      (if sched_stat s t \<noteq> STAT_INIT then sched_remove_thread t s else s)"
    then show ?thesis by - (rule codes_step [OF close.prems(2)], auto simp: stat_upd code_and_mask)
  qed (use close.prems(2) in simp)
next
  case (enter s)
  then show ?case by (simp add: rt_enter_critical_def codes_wf_def sched_stat_def)
next
  case (exit s s')
  have co: "codes_wf (s\<lparr>rt_scheduler_lock_nest := n\<rparr>)" "codes_wf (s\<lparr>rt_scheduler_lock_nest := n, critical_switch_flag := b\<rparr>)" for n b
    using exit.prems(2) by (simp_all add: codes_wf_def sched_stat_def)
  show ?case using exit.hyps co schedule_codes [OF nest_wf(2) [OF exit.prems(1)] co(2)]
    by (auto simp: rt_exit_critical_def Let_def split: if_splits)
qed

lemma sched_reach_codes:
  assumes "sched_boot s0" "sched_reach s0 s"
  shows "codes_wf s"
  using assms(2)
proof induction
  case base
  have "sched_stat s0 t = STAT_INIT" for t using assms(1) unfolding sched_boot_def by blast
  then show ?case unfolding codes_wf_def by simp
next
  case (step y z)
  then show ?case using step_codes sched_reach_wf [OF assms(1) step(1)] by blast
qed

section \<open>The kernel it implements\<close>

definition sched_view :: "sched \<Rightarrow> rt_kernel \<Rightarrow> bool" where
  "sched_view s k \<longleftrightarrow> sc_current_thread s = Some (rt_current_thread k) \<and>
    (\<forall>t. sched_stat s t = stat_code (stat (threads k t)) \<and> sc_prio s t = prio k t)"

lemma view_exists:
  assumes "codes_wf s" "sc_current_thread s = Some c"
  shows "\<exists>k. sched_view s k"
proof -
  have "\<forall>t. \<exists>x. sched_stat s t = stat_code x" using assms(1) by (auto simp: codes_wf_def)
  then obtain g where g: "\<forall>t. sched_stat s t = stat_code (g t)" by metis
  have "sched_view s \<lparr>rt_current_thread = c, threads = (\<lambda>t. \<lparr>current_priority = sc_prio s t, thread_error = 0,
      stat = g t, sched_flag_ttmr_set = False, timer_activated = False, init_tick = 0\<rparr>)\<rparr>"
    using g assms(2) by (simp add: sched_view_def)
  then show ?thesis by blast
qed

lemma view_insert: "sched_view s k \<Longrightarrow> sched_view (sched_insert_thread t s) (rt_sched_insert_thread t k)"
  by (auto simp: sched_view_def rt_sched_insert_thread_def threads_upd_thread)

lemma view_suspend:
  assumes v: "sched_view s k" and r: "sched_thread_suspend t f s = Some s'"
    and k: "rt_thread_suspend_to_list t ws fl f k = (ws', k', e)"
  shows "e = RT_EOK \<and> sched_view s' k'"
proof -
  have "stat (threads k t) = RT_THREAD_READY \<or> stat (threads k t) = RT_THREAD_RUNNING"
    and s': "s' = set_stat t (sched_suspend_code f) (sched_remove_thread t s)"
    using v r by (auto simp: sched_thread_suspend_def sched_view_def split: if_splits)
  then have "e = RT_EOK" "k' = fst (rt_sched_thread_timer_stop t (upd_thread t (\<lambda>th. th\<lparr>stat := Suspended f\<rparr>) k))"
    using k by (auto simp: rt_thread_suspend_to_list_def Let_def)
  moreover have "sched_view s' (fst (rt_sched_thread_timer_stop t (upd_thread t (\<lambda>th. th\<lparr>stat := Suspended f\<rparr>) k)))"
    using v by (auto simp: s' sched_view_def rt_sched_thread_timer_stop_def rt_timer_stop_def threads_upd_thread)
  ultimately show ?thesis by simp
qed

lemma view_priority:
  assumes wf: "sched_wf s" and v: "sched_view s (mu_kernel y)" and r: "sched_update_priority t p False s = Some s'"
  shows "\<exists>y'. rt_sched_thread_change_priority t p y = Some y' \<and> sched_view s' (mu_kernel y')"
proof -
  let ?f = "\<lambda>th. th\<lparr>sc_init_priority := sc_init_priority th,
    sc_current_priority := p, number_mask := push_bit (unat p) 1\<rparr>"
  have p: "p < 32" using r by (simp add: sched_update_priority_def split: if_splits)
  have st: "sched_stat (upd_sched t ?f s) u = sched_stat s u" for u by (simp add: sched_stat_def)
  show ?thesis
  proof (cases "sched_stat s t = STAT_READY")
    case True
    have nc: "sc_current_thread s \<noteq> Some t" using run_wfD(2) [OF sched_wfD(2) [OF wf]] True by blast
    have s': "s' = sched_insert_thread t (upd_sched t (\<lambda>th. (?f th)\<lparr>sc_stat := STAT_INIT\<rparr>) (sched_remove_thread t s))"
      using r True p by (simp add: sched_update_priority_def)
    have "stat (threads (mu_kernel y) t) = RT_THREAD_READY" "t \<noteq> mu_self y"
      using v True nc by (auto simp: sched_view_def)
    then show ?thesis
      using v p nc by (auto simp: s' rt_sched_thread_change_priority_def RT_THREAD_PRIORITY_MAX_def upd_kernel_def
          sched_view_def rt_sched_insert_thread_def threads_upd_thread stat_upd)
  next
    case False
    then have s': "s' = upd_sched t ?f s" using r p by (simp add: sched_update_priority_def)
    have "stat (threads (mu_kernel y) t) \<noteq> RT_THREAD_READY" using v False by (simp add: sched_view_def)
    then show ?thesis
      using v p unfolding sched_view_def s' st
      by (auto simp: rt_sched_thread_change_priority_def RT_THREAD_PRIORITY_MAX_def upd_kernel_def threads_upd_thread)
  qed
qed

lemma view_schedule:
  assumes wf: "sched_wf s" and v: "sched_view s k" and r: "rt_schedule s = Some s'"
  shows "sched_view s' k \<or> (\<exists>t. stat (threads k t) = RT_THREAD_READY \<and> sched_view s' (mu_switch t k))"
proof -
  let ?c = "rt_current_thread k"
  have c: "sc_current_thread s = Some ?c" using v by (simp add: sched_view_def)
  obtain t where t: "sc_current_thread s' = Some t" "\<forall>u. sc_prio s' u = sc_prio s u"
    "t = ?c \<or> sched_stat s t = STAT_READY"
    "\<forall>u. sched_stat s' u = (if t = ?c then sched_stat s u else if u = t then STAT_RUNNING
       else if u = ?c \<and> sched_stat s ?c = STAT_RUNNING then STAT_READY else sched_stat s u)"
    by (rule schedule_stats [OF wf c r])
  show ?thesis
  proof (cases "t = ?c")
    case True
    then have "sched_view s' k" using v t by (simp add: sched_view_def)
    then show ?thesis ..
  next
    case False
    have "sched_stat s t = STAT_READY" using t(3) False by simp
    then have "stat (threads k t) = RT_THREAD_READY" using v by (simp add: sched_view_def)
    moreover have "sched_view s' (mu_switch t k)"
      using v t(1,2,4) False by (simp add: sched_view_def mu_switch_def Let_def threads_upd_thread)
    ultimately show ?thesis by blast
  qed
qed

text \<open>C14
  The scheduler refines the kernel the IPC objects are verified on: whenever a kernel shows the
  statuses, priorities and current thread of the scheduler, inserting a thread, suspending it and
  changing its priority lead to the kernel the model of the IPC code reaches, and rt_schedule
  leaves the kernel as it is or is its switch step to a ready thread.
\<close>

theorem sched_implements_kernel:
  assumes "sched_boot s0" "sched_reach s0 s" "sched_view s (mu_kernel y)"
  shows "sched_view (sched_insert_thread t s) (rt_sched_insert_thread t (mu_kernel y)) \<and>
    (sched_thread_suspend t f s = Some s1 \<and> rt_thread_suspend_to_list t ws fl f (mu_kernel y) = (ws', k', e) \<longrightarrow>
       e = RT_EOK \<and> sched_view s1 k') \<and>
    (sched_update_priority t p False s = Some s1 \<longrightarrow>
       (\<exists>y'. rt_sched_thread_change_priority t p y = Some y' \<and> sched_view s1 (mu_kernel y'))) \<and>
    (rt_schedule s = Some s1 \<longrightarrow> sched_view s1 (mu_kernel y) \<or>
       (\<exists>u. mu_stat y u = RT_THREAD_READY \<and> sched_view s1 (mu_switch u (mu_kernel y))))"
proof -
  note wf = sched_reach_wf [OF assms(1,2)]
  show ?thesis
    using view_insert [OF assms(3)] view_suspend [OF assms(3)] view_priority [OF wf assms(3)]
      view_schedule [OF wf assms(3)] by blast
qed

theorem sched_implements_kernel_witness:
  "\<exists>s k s1. sched_reach sched_demo s \<and> sched_view s k \<and> rt_schedule s = Some s1 \<and>
    (sched_view s1 k \<or> (\<exists>u. stat (threads k u) = RT_THREAD_READY \<and> sched_view s1 (mu_switch u k)))"
proof (rule demo_running)
  fix s assume s: "sched_reach sched_demo s" "sc_current_thread s = Some 3"
  obtain k where k: "sched_view s k" using view_exists [OF sched_reach_codes [OF demo_boot s(1)] s(2)] by blast
  obtain s1 where s1: "rt_schedule s = Some s1" by (rule schedule_total [OF sched_reach_wf [OF demo_boot s(1)] s(2)])
  have "sched_view s (mu_kernel (ms_y Mutex_Sys.demo\<lparr>mu_kernel := k\<rparr>))" using k by simp
  then have "sched_view s1 k \<or> (\<exists>u. stat (threads k u) = RT_THREAD_READY \<and> sched_view s1 (mu_switch u k))"
    using sched_implements_kernel [OF demo_boot s(1), where ?s1.0 = s1 and y = "ms_y Mutex_Sys.demo\<lparr>mu_kernel := k\<rparr>"]
      s1 by simp
  with s(1) k s1 show ?thesis by blast
qed

end
