(* ===== verification/Timer_List.thy ===== *)
theory Timer_List
  imports Ipc_Sem
begin

text \<open>
  The timers of rt-thread/src/timer.c as configured: RT_USING_TIMER_ALL_SOFT, so there is one
  list, served by the timer thread, and a skip list of one level, so it is an ordered list.
  Ticks are 32-bit words that wrap; the list is ordered by comparing differences.  The thread
  timers of the kernel are timers of the same list.
\<close>

section \<open>State\<close>

text \<open>A thread timer is the member \<open>thread_timer\<close> of its thread block.\<close>

datatype timer_id = Thread_Timer tid | Sys_Timer nat

record rt_timer =
  tm_flag :: byte
  timeout_func :: u32
  tm_parameter :: u32
  tm_init_tick :: u32
  timeout_tick :: u32

text \<open>\<open>expired_list\<close> is the list on the stack of _timer_check.\<close>

record timer_state =
  rt_tick :: u32
  timers :: "timer_id \<Rightarrow> rt_timer"
  soft_timer_list :: "timer_id list"
  expired_list :: "timer_id list"
  soft_timer_sem :: rt_semaphore
  tm_kernel :: rt_kernel

definition RT_TICK_MAX :: u32 where "RT_TICK_MAX = 0xFFFFFFFF"
definition RT_TIMER_FLAG_ACTIVATED :: byte where "RT_TIMER_FLAG_ACTIVATED = 1"
definition RT_TIMER_FLAG_PERIODIC :: byte where "RT_TIMER_FLAG_PERIODIC = 2"
definition RT_TIMER_FLAG_SOFT_TIMER :: byte where "RT_TIMER_FLAG_SOFT_TIMER = 4"
definition RT_TIMER_FLAG_THREAD_TIMER :: byte where "RT_TIMER_FLAG_THREAD_TIMER = 8"

lemmas timer_flags = RT_TIMER_FLAG_ACTIVATED_def RT_TIMER_FLAG_PERIODIC_def
  RT_TIMER_FLAG_SOFT_TIMER_def RT_TIMER_FLAG_THREAD_TIMER_def

definition timer_is :: "byte \<Rightarrow> timer_state \<Rightarrow> timer_id \<Rightarrow> bool" where
  "timer_is f s i \<longleftrightarrow> tm_flag (timers s i) AND f \<noteq> 0"

abbreviation activated :: "timer_state \<Rightarrow> timer_id \<Rightarrow> bool" where
  "activated \<equiv> timer_is RT_TIMER_FLAG_ACTIVATED"

abbreviation periodic :: "timer_state \<Rightarrow> timer_id \<Rightarrow> bool" where
  "periodic \<equiv> timer_is RT_TIMER_FLAG_PERIODIC"

definition upd_timer :: "timer_id \<Rightarrow> (rt_timer \<Rightarrow> rt_timer) \<Rightarrow> timer_state \<Rightarrow> timer_state" where
  "upd_timer i f s = s\<lparr>timers := (timers s)(i := f (timers s i))\<rparr>"

definition set_flag :: "timer_id \<Rightarrow> byte \<Rightarrow> timer_state \<Rightarrow> timer_state" where
  "set_flag i f = upd_timer i (\<lambda>t. t\<lparr>tm_flag := tm_flag t OR f\<rparr>)"

definition clear_flag :: "timer_id \<Rightarrow> byte \<Rightarrow> timer_state \<Rightarrow> timer_state" where
  "clear_flag i f = upd_timer i (\<lambda>t. t\<lparr>tm_flag := tm_flag t AND NOT f\<rparr>)"

section \<open>Operations\<close>

definition timer_init :: "timer_id \<Rightarrow> u32 \<Rightarrow> u32 \<Rightarrow> u32 \<Rightarrow> byte \<Rightarrow> timer_state \<Rightarrow> timer_state" where
  "timer_init i func param time flag = upd_timer i (\<lambda>_.
    \<lparr>tm_flag = (flag OR RT_TIMER_FLAG_SOFT_TIMER) AND NOT RT_TIMER_FLAG_ACTIVATED,
     timeout_func = func, tm_parameter = param, tm_init_tick = time, timeout_tick = 0\<rparr>)"

text \<open>rt_timer_init and rt_timer_create; \<open>None\<close> is a failed assertion.\<close>

definition rt_timer_init :: "timer_id \<Rightarrow> u32 \<Rightarrow> u32 \<Rightarrow> u32 \<Rightarrow> byte \<Rightarrow> timer_state \<Rightarrow> timer_state option" where
  "rt_timer_init i func param time flag s =
    (if func \<noteq> 0 \<and> time < RT_TICK_MAX div 2 then Some (timer_init i func param time flag s) else None)"

definition timer_list_next_timeout :: "timer_state \<Rightarrow> u32 option" where
  "timer_list_next_timeout s =
    (case soft_timer_list s of [] \<Rightarrow> None | i # _ \<Rightarrow> Some (timeout_tick (timers s i)))"

definition timer_remove :: "timer_id \<Rightarrow> timer_state \<Rightarrow> timer_state" where
  "timer_remove i s = s\<lparr>soft_timer_list := remove1 i (soft_timer_list s),
    expired_list := remove1 i (expired_list s)\<rparr>"

definition rt_timer_detach :: "timer_id \<Rightarrow> timer_state \<Rightarrow> timer_state" where
  "rt_timer_detach i s = clear_flag i RT_TIMER_FLAG_ACTIVATED (timer_remove i s)"

text \<open>rt_timer_delete: the same, and the object is freed.\<close>

definition rt_timer_delete :: "timer_id \<Rightarrow> timer_state \<Rightarrow> timer_state" where
  "rt_timer_delete i s = clear_flag i RT_TIMER_FLAG_ACTIVATED (timer_remove i s)"

text \<open>
  The search of _timer_start: past every timer that is not later than the new one, by the
  difference of the ticks as an unsigned number.
\<close>

fun timer_insert :: "(timer_id \<Rightarrow> u32) \<Rightarrow> timer_id \<Rightarrow> u32 \<Rightarrow> timer_id list \<Rightarrow> timer_id list" where
  "timer_insert f i d [] = [i]"
| "timer_insert f i d (t # ts) =
    (if f t - d = 0 then t # timer_insert f i d ts
     else if f t - d < RT_TICK_MAX div 2 then i # t # ts
     else t # timer_insert f i d ts)"

definition timer_start :: "timer_id \<Rightarrow> timer_state \<Rightarrow> timer_state" where
  "timer_start i s =
    (let s1 = clear_flag i RT_TIMER_FLAG_ACTIVATED (timer_remove i s);
         d = rt_tick s1 + tm_init_tick (timers s1 i);
         s2 = upd_timer i (\<lambda>t. t\<lparr>timeout_tick := d\<rparr>) s1;
         s3 = s2\<lparr>soft_timer_list := timer_insert (\<lambda>t. timeout_tick (timers s2 t)) i d (soft_timer_list s2)\<rparr>
     in set_flag i RT_TIMER_FLAG_ACTIVATED s3)"

text \<open>A thread timer is marked as set in its thread; a timer outside a thread block is not one.\<close>

definition rt_timer_start :: "timer_id \<Rightarrow> timer_state \<Rightarrow> timer_state option" where
  "rt_timer_start i s =
    (if timer_is RT_TIMER_FLAG_THREAD_TIMER s i
     then (case i of
             Thread_Timer t \<Rightarrow> Some (timer_start i
               (s\<lparr>tm_kernel := upd_thread t (\<lambda>th. th\<lparr>sched_flag_ttmr_set := True\<rparr>) (tm_kernel s)\<rparr>))
           | Sys_Timer _ \<Rightarrow> None)
     else Some (timer_start i s))"

definition timer_stop :: "timer_id \<Rightarrow> timer_state \<Rightarrow> int \<times> timer_state" where
  "timer_stop i s =
    (if \<not> activated s i then (- RT_ERROR, s)
     else (RT_EOK, clear_flag i RT_TIMER_FLAG_ACTIVATED (timer_remove i s)))"

datatype timer_cmd = RT_TIMER_CTRL_SET_TIME | RT_TIMER_CTRL_GET_TIME | RT_TIMER_CTRL_SET_ONESHOT
  | RT_TIMER_CTRL_SET_PERIODIC | RT_TIMER_CTRL_GET_STATE | RT_TIMER_CTRL_GET_REMAIN_TIME
  | RT_TIMER_CTRL_GET_FUNC | RT_TIMER_CTRL_SET_FUNC | RT_TIMER_CTRL_GET_PARM | RT_TIMER_CTRL_SET_PARM
  | RT_TIMER_CTRL_UNKNOWN

text \<open>The word at \<open>arg\<close> before and after the call; SET_FUNC and SET_PARM take \<open>arg\<close> itself.\<close>

definition rt_timer_control :: "timer_cmd \<Rightarrow> u32 \<Rightarrow> timer_id \<Rightarrow> timer_state \<Rightarrow> (u32 \<times> timer_state) option" where
  "rt_timer_control cmd arg i s =
    (let t = timers s i in
     case cmd of
       RT_TIMER_CTRL_GET_TIME \<Rightarrow> Some (tm_init_tick t, s)
     | RT_TIMER_CTRL_SET_TIME \<Rightarrow>
         if arg < RT_TICK_MAX div 2
         then (let s1 = (if activated s i then clear_flag i RT_TIMER_FLAG_ACTIVATED (timer_remove i s) else s)
               in Some (arg, upd_timer i (\<lambda>t. t\<lparr>tm_init_tick := arg\<rparr>) s1))
         else None
     | RT_TIMER_CTRL_SET_ONESHOT \<Rightarrow> Some (arg, clear_flag i RT_TIMER_FLAG_PERIODIC s)
     | RT_TIMER_CTRL_SET_PERIODIC \<Rightarrow> Some (arg, set_flag i RT_TIMER_FLAG_PERIODIC s)
     | RT_TIMER_CTRL_GET_STATE \<Rightarrow> Some (if activated s i then 1 else 0, s)
     | RT_TIMER_CTRL_GET_REMAIN_TIME \<Rightarrow> Some (timeout_tick t, s)
     | RT_TIMER_CTRL_GET_FUNC \<Rightarrow> Some (timeout_func t, s)
     | RT_TIMER_CTRL_SET_FUNC \<Rightarrow> Some (arg, upd_timer i (\<lambda>t. t\<lparr>timeout_func := arg\<rparr>) s)
     | RT_TIMER_CTRL_GET_PARM \<Rightarrow> Some (tm_parameter t, s)
     | RT_TIMER_CTRL_SET_PARM \<Rightarrow> Some (arg, upd_timer i (\<lambda>t. t\<lparr>tm_parameter := arg\<rparr>) s)
     | RT_TIMER_CTRL_UNKNOWN \<Rightarrow> Some (arg, s))"

section \<open>Expiry\<close>

text \<open>
  One turn of the loop of _timer_check up to the call of the timeout function, and the rest of
  the turn, when that function has returned.
\<close>

definition timer_check_turn :: "timer_state \<Rightarrow> (timer_id \<times> timer_state) option" where
  "timer_check_turn s =
    (case soft_timer_list s of
       [] \<Rightarrow> None
     | i # _ \<Rightarrow>
        if rt_tick s - timeout_tick (timers s i) < RT_TICK_MAX div 2
        then (let s1 = timer_remove i s;
                  s2 = (if \<not> periodic s1 i then clear_flag i RT_TIMER_FLAG_ACTIVATED s1 else s1)
              in Some (i, s2\<lparr>expired_list := i # expired_list s2\<rparr>))
        else None)"

definition timer_restarts :: "timer_id \<Rightarrow> timer_state \<Rightarrow> bool" where
  "timer_restarts i s \<longleftrightarrow> expired_list s \<noteq> [] \<and> periodic s i \<and> activated s i"

definition timer_check_after :: "timer_id \<Rightarrow> timer_state \<Rightarrow> timer_state" where
  "timer_check_after i s =
    (if expired_list s = [] then s
     else
      (let s1 = timer_remove i s
       in if periodic s1 i \<and> activated s1 i
          then timer_start i (clear_flag i RT_TIMER_FLAG_ACTIVATED s1) else s1))"

text \<open>The loop when nothing else runs and the timeout functions leave the timers alone.\<close>

partial_function (option) timer_check :: "timer_state \<Rightarrow> (timer_id list \<times> timer_state) option" where
  "timer_check s =
    (case timer_check_turn s of
       None \<Rightarrow> Some ([], s)
     | Some (i, s1) \<Rightarrow> Option.bind (timer_check (timer_check_after i s1)) (\<lambda>(fired, s'). Some (i # fired, s')))"

text \<open>rt_timer_check, in the tick interrupt.\<close>

definition rt_timer_check :: "timer_state \<Rightarrow> timer_state" where
  "rt_timer_check s =
    (case timer_list_next_timeout s of
       None \<Rightarrow> s
     | Some d \<Rightarrow>
         if d \<le> rt_tick s
         then (case rt_sem_release (soft_timer_sem s) (tm_kernel s) of
                 (_, sem, k) \<Rightarrow> s\<lparr>soft_timer_sem := sem, tm_kernel := k\<rparr>)
         else s)"

text \<open>rt_tick_increase (by 1) and rt_tick_increase_tick; the time slice is in Sched_Up.\<close>

definition rt_tick_increase_tick :: "u32 \<Rightarrow> timer_state \<Rightarrow> timer_state" where
  "rt_tick_increase_tick n s = rt_timer_check (s\<lparr>rt_tick := rt_tick s + n\<rparr>)"

definition rt_tick_increase :: "timer_state \<Rightarrow> timer_state" where
  "rt_tick_increase = rt_tick_increase_tick 1"

definition rt_timer_next_timeout_tick :: "timer_state \<Rightarrow> u32" where
  "rt_timer_next_timeout_tick s =
    (case timer_list_next_timeout s of None \<Rightarrow> RT_TICK_MAX | Some d \<Rightarrow> min RT_TICK_MAX d)"

text \<open>rt_system_timer_thread_init; the timer thread itself is in Timer_Sys.\<close>

definition rt_system_timer_thread_init :: "timer_state \<Rightarrow> timer_state option" where
  "rt_system_timer_thread_init s =
    (case rt_sem_init 0 RT_IPC_FLAG_PRIO of
       None \<Rightarrow> None
     | Some sem \<Rightarrow>
        (case rt_sem_control RT_IPC_CMD_SET_VLIMIT 1 sem (tm_kernel s) of
           (_, sem', k) \<Rightarrow> Some (s\<lparr>soft_timer_list := [], soft_timer_sem := sem', tm_kernel := k\<rparr>)))"

section \<open>Flags and fields\<close>

definition flag_bit :: "byte \<Rightarrow> nat \<Rightarrow> bool" where "flag_bit f n \<longleftrightarrow> f = 2 ^ n \<and> n < 8"

lemma flag_bits [simp]:
  "flag_bit RT_TIMER_FLAG_ACTIVATED 0" "flag_bit RT_TIMER_FLAG_PERIODIC 1" "flag_bit RT_TIMER_FLAG_SOFT_TIMER 2"
  "flag_bit RT_TIMER_FLAG_THREAD_TIMER 3"
  by (simp_all add: flag_bit_def timer_flags)

lemma timer_is_bit: "flag_bit f n \<Longrightarrow> timer_is f s i \<longleftrightarrow> bit (tm_flag (timers s i)) n"
  by (simp add: timer_is_def flag_bit_def and_exp_eq_0_iff_not_bit)

lemma flag_or_bit: "flag_bit f n \<Longrightarrow> bit (x OR f) m \<longleftrightarrow> bit x m \<or> m = n"
  by (auto simp: flag_bit_def bit_simps)

lemma flag_clear_bit: "flag_bit f n \<Longrightarrow> bit (x AND NOT f) m \<longleftrightarrow> bit x m \<and> m \<noteq> n"
  using bit_imp_le_length [of x m] by (auto simp: flag_bit_def bit_simps)

lemma flag_bit_inj: "flag_bit f n \<Longrightarrow> flag_bit g m \<Longrightarrow> f = g \<longleftrightarrow> n = m"
  by (auto simp: flag_bit_def dest!: arg_cong [of _ _ "\<lambda>x. bit x n"] simp: bit_simps)


lemma upd_timer_simps [simp]:
  "timers (upd_timer i f s) j = (if j = i then f (timers s i) else timers s j)"
  "rt_tick (upd_timer i f s) = rt_tick s" "soft_timer_list (upd_timer i f s) = soft_timer_list s"
  "expired_list (upd_timer i f s) = expired_list s" "soft_timer_sem (upd_timer i f s) = soft_timer_sem s"
  "tm_kernel (upd_timer i f s) = tm_kernel s"
  by (simp_all add: upd_timer_def)

lemma flag_simps [simp]:
  "rt_tick (set_flag i f s) = rt_tick s" "rt_tick (clear_flag i f s) = rt_tick s"
  "soft_timer_list (set_flag i f s) = soft_timer_list s" "soft_timer_list (clear_flag i f s) = soft_timer_list s"
  "expired_list (set_flag i f s) = expired_list s" "expired_list (clear_flag i f s) = expired_list s"
  "soft_timer_sem (set_flag i f s) = soft_timer_sem s" "soft_timer_sem (clear_flag i f s) = soft_timer_sem s"
  "tm_kernel (set_flag i f s) = tm_kernel s" "tm_kernel (clear_flag i f s) = tm_kernel s"
  "timeout_tick (timers (set_flag i f s) j) = timeout_tick (timers s j)"
  "timeout_tick (timers (clear_flag i f s) j) = timeout_tick (timers s j)"
  "tm_init_tick (timers (set_flag i f s) j) = tm_init_tick (timers s j)"
  "tm_init_tick (timers (clear_flag i f s) j) = tm_init_tick (timers s j)"
  by (simp_all add: set_flag_def clear_flag_def)

lemma timer_remove_simps [simp]:
  "timers (timer_remove i s) = timers s" "rt_tick (timer_remove i s) = rt_tick s"
  "soft_timer_list (timer_remove i s) = remove1 i (soft_timer_list s)"
  "expired_list (timer_remove i s) = remove1 i (expired_list s)"
  "soft_timer_sem (timer_remove i s) = soft_timer_sem s" "tm_kernel (timer_remove i s) = tm_kernel s"
  by (simp_all add: timer_remove_def)

lemma timer_is_cong: "tm_flag (timers s' i) = tm_flag (timers s i) \<Longrightarrow> timer_is f s' i = timer_is f s i"
  by (simp add: timer_is_def)

lemma timer_is_remove [simp]: "timer_is f (timer_remove j s) = timer_is f s"
  by (simp add: timer_is_def fun_eq_iff)

lemma timer_is_upd [simp]:
  "(\<And>t. tm_flag (g t) = tm_flag t) \<Longrightarrow> timer_is f (upd_timer j g s) = timer_is f s"
  by (simp add: timer_is_def fun_eq_iff)

lemma timer_is_record [simp]:
  "timer_is f (s\<lparr>rt_tick := v\<rparr>) = timer_is f s" "timer_is f (s\<lparr>soft_timer_list := l\<rparr>) = timer_is f s"
  "timer_is f (s\<lparr>expired_list := l\<rparr>) = timer_is f s" "timer_is f (s\<lparr>tm_kernel := k\<rparr>) = timer_is f s"
  "timer_is f (s\<lparr>soft_timer_sem := sem, tm_kernel := k\<rparr>) = timer_is f s"
  by (simp_all add: timer_is_def fun_eq_iff)

lemma timer_is_set_flag:
  "flag_bit f n \<Longrightarrow> flag_bit g m \<Longrightarrow> timer_is f (set_flag j g s) i \<longleftrightarrow> timer_is f s i \<or> i = j \<and> n = m"
  by (auto simp: timer_is_bit set_flag_def flag_or_bit)

lemma timer_is_clear_flag:
  "flag_bit f n \<Longrightarrow> flag_bit g m \<Longrightarrow> timer_is f (clear_flag j g s) i \<longleftrightarrow> timer_is f s i \<and> \<not> (i = j \<and> n = m)"
  by (auto simp: timer_is_bit clear_flag_def flag_clear_bit)

lemmas flag_change [simp] =
  timer_is_set_flag [OF flag_bits(1) flag_bits(1), simplified] timer_is_set_flag [OF flag_bits(1) flag_bits(2), simplified]
  timer_is_set_flag [OF flag_bits(2) flag_bits(1), simplified] timer_is_set_flag [OF flag_bits(2) flag_bits(2), simplified]
  timer_is_set_flag [OF flag_bits(4) flag_bits(1), simplified] timer_is_set_flag [OF flag_bits(4) flag_bits(2), simplified]
  timer_is_clear_flag [OF flag_bits(1) flag_bits(1), simplified] timer_is_clear_flag [OF flag_bits(1) flag_bits(2), simplified]
  timer_is_clear_flag [OF flag_bits(2) flag_bits(1), simplified] timer_is_clear_flag [OF flag_bits(2) flag_bits(2), simplified]
  timer_is_clear_flag [OF flag_bits(4) flag_bits(1), simplified] timer_is_clear_flag [OF flag_bits(4) flag_bits(2), simplified]

section \<open>Differences of ticks\<close>

text \<open>
  For times a and b counted without wrap, the code's test on their ticks says b < a as long as a
  is less than 0x7FFFFFFF ahead and at most 0x80000001 behind.
\<close>

lemma tick_later_iff:
  assumes "a < b + 0x7FFFFFFF" "b \<le> a + 0x80000001"
  shows "(of_nat a - of_nat b :: u32) < RT_TICK_MAX div 2 \<longleftrightarrow> b \<le> a"
    and "of_nat a - of_nat b = (0 :: u32) \<longleftrightarrow> a = b"
proof -
  have half: "unat (RT_TICK_MAX div 2) = 0x7FFFFFFF" by (simp add: RT_TICK_MAX_def)
  have "unat (of_nat a - of_nat b :: u32) = (if b \<le> a then a - b else 2 ^ 32 - (b - a))"
  proof (cases "b \<le> a")
    case True
    then have e: "(of_nat a - of_nat b :: u32) = of_nat (a - b)" by simp
    have "a - b < 2 ^ 32" using assms by simp
    then have "unat (of_nat (a - b) :: u32) = a - b" by (simp add: unat_of_nat del: of_nat_diff)
    then show ?thesis using True e by metis
  next
    case False
    then have e: "(of_nat a - of_nat b :: u32) = of_nat (2 ^ 32 - (b - a))"
      using assms by (simp add: of_nat_diff)
    have "2 ^ 32 - (b - a) < (2 ^ 32 :: nat)" using False by simp
    then have "unat (of_nat (2 ^ 32 - (b - a)) :: u32) = 2 ^ 32 - (b - a)" by (simp add: unat_of_nat del: of_nat_diff)
    then show ?thesis using False e by metis
  qed
  with assms show "(of_nat a - of_nat b :: u32) < RT_TICK_MAX div 2 \<longleftrightarrow> b \<le> a"
    "of_nat a - of_nat b = (0 :: u32) \<longleftrightarrow> a = b"
    unfolding word_less_nat_alt half by (auto simp: word_unat_eq_iff)
qed


section \<open>The ordered list\<close>

lemma timer_insert_set [simp]: "set (timer_insert f i d ts) = insert i (set ts)"
  by (induction ts) auto

lemma timer_insert_distinct [simp]: "distinct (timer_insert f i d ts) \<longleftrightarrow> i \<notin> set ts \<and> distinct ts"
  by (induction ts) auto

lemma timer_insert_cong:
  "(\<And>t. t \<in> set ts \<Longrightarrow> f t = g t) \<Longrightarrow> timer_insert f i d ts = timer_insert g i d ts"
  by (induction ts) auto

text \<open>Times within reach of the tick differences: a new timer goes behind all that are not later.\<close>

lemma timer_insert_due:
  assumes "sorted_wrt (\<lambda>a b. due a \<le> due b) ts"
    and "\<And>t. t \<in> set ts \<Longrightarrow> f t = of_nat (due t) \<and> due t < d + 0x7FFFFFFF \<and> d \<le> due t + 0x80000001"
  shows "timer_insert f i (of_nat d) ts = filter (\<lambda>t. due t \<le> d) ts @ i # filter (\<lambda>t. d < due t) ts"
  using assms
proof (induction ts)
  case (Cons t ts)
  note t = tick_later_iff [of "due t" d]
  have f: "f t = of_nat (due t)" "due t < d + 0x7FFFFFFF" "d \<le> due t + 0x80000001" using Cons.prems(2) [of t] by auto
  have IH: "timer_insert f i (of_nat d) ts = filter (\<lambda>t. due t \<le> d) ts @ i # filter (\<lambda>t. d < due t) ts"
    using Cons by simp
  show ?case
  proof (cases "d < due t")
    case True
    then have "\<forall>u\<in>set ts. d < due u" using Cons.prems(1) by auto
    then have "filter (\<lambda>t. due t \<le> d) ts = []" "filter (\<lambda>t. d < due t) ts = ts"
      by (auto simp: filter_empty_conv not_le intro: filter_True)
    then show ?thesis using True f t by simp
  qed (use IH f t in auto)
qed simp

lemma start_list:
  assumes "distinct (soft_timer_list s)"
  shows "soft_timer_list (timer_start i s) =
    timer_insert (\<lambda>t. timeout_tick (timers s t)) i (rt_tick s + tm_init_tick (timers s i)) (remove1 i (soft_timer_list s))"
  using assms by (auto simp: timer_start_def Let_def intro!: timer_insert_cong)

lemma start_simps [simp]:
  "rt_tick (timer_start i s) = rt_tick s" "expired_list (timer_start i s) = remove1 i (expired_list s)"
  "soft_timer_sem (timer_start i s) = soft_timer_sem s" "tm_kernel (timer_start i s) = tm_kernel s"
  "tm_init_tick (timers (timer_start i s) j) = tm_init_tick (timers s j)"
  "timeout_tick (timers (timer_start i s) j) =
    (if j = i then rt_tick s + tm_init_tick (timers s i) else timeout_tick (timers s j))"
  "activated (timer_start i s) j \<longleftrightarrow> activated s j \<or> j = i"
  "periodic (timer_start i s) j \<longleftrightarrow> periodic s j"
  by (auto simp: timer_start_def Let_def)

lemma start_set:
  "distinct (soft_timer_list s) \<Longrightarrow> set (soft_timer_list (timer_start i s)) = insert i (set (soft_timer_list s))"
  by (auto simp: start_list)

lemma timer_check_Nil: "timer_check_turn s = None \<Longrightarrow> timer_check s = Some ([], s)"
  by (subst timer_check.simps) simp

lemma timer_check_Cons:
  "timer_check_turn s = Some (i, s1) \<Longrightarrow> timer_check (timer_check_after i s1) = Some (fired, s') \<Longrightarrow>
    timer_check s = Some (i # fired, s')"
  by (subst timer_check.simps) simp

end
