(* ===== verification/Timer_Sys.thy ===== *)
theory Timer_Sys
  imports Timer_List
begin

text \<open>
  The timers as a system: the tick interrupt, the timer thread of rt-thread/src/timer.c and any
  other code that starts, stops and changes timers, in every interleaving.  Times are counted
  without wrap beside the 32-bit ticks of the code: \<open>ty_now\<close> is the time and \<open>ty_due\<close> the time
  a timer was last started for.
\<close>

section \<open>The system\<close>

text \<open>Where the timer thread is: _timer_thread_entry and the loop of _timer_check.\<close>

datatype timer_pc = TmCheck | TmCallback timer_id | TmTake | TmWait

record timer_sys =
  ty_t :: timer_state
  ty_now :: nat
  ty_due :: "timer_id \<Rightarrow> nat"
  ty_pc :: timer_pc

definition period :: "timer_state \<Rightarrow> timer_id \<Rightarrow> nat" where
  "period s i = unat (tm_init_tick (timers s i))"

definition timer_thread_step :: "timer_sys \<Rightarrow> timer_sys option" where
  "timer_thread_step y =
    (let s = ty_t y in
     case ty_pc y of
       TmCheck \<Rightarrow>
         (case timer_check_turn s of
            None \<Rightarrow> Some (y\<lparr>ty_pc := TmTake\<rparr>)
          | Some (i, s') \<Rightarrow> Some (y\<lparr>ty_t := s', ty_pc := TmCallback i\<rparr>))
     | TmCallback i \<Rightarrow>
         Some (y\<lparr>ty_t := timer_check_after i s, ty_pc := TmCheck,
           ty_due := (if timer_restarts i s then (ty_due y)(i := ty_now y + period s i) else ty_due y)\<rparr>)
     | TmTake \<Rightarrow>
         (case rt_sem_take (-1) (soft_timer_sem s) (tm_kernel s) of
            (out, sem, k) \<Rightarrow>
              let y' = y\<lparr>ty_t := s\<lparr>soft_timer_sem := sem, tm_kernel := k\<rparr>\<rparr>
              in case out of
                   Returned _ \<Rightarrow> Some (y'\<lparr>ty_pc := TmCheck\<rparr>)
                 | Blocked \<Rightarrow> Some (y'\<lparr>ty_pc := TmWait\<rparr>)
                 | Halted \<Rightarrow> None)
     | TmWait \<Rightarrow> Some (y\<lparr>ty_pc := TmCheck\<rparr>))"

text \<open>
  Started timers have a period between P and B ticks, and a tick comes only while no timer of the
  list is L ticks late: the timer thread gets the processor in time.  \<open>one\<close> allows
  RT_TIMER_CTRL_SET_ONESHOT on a timer whose timeout function is running.  The timer thread
  itself uses no thread timer.
\<close>

inductive timer_step :: "nat \<Rightarrow> nat \<Rightarrow> nat \<Rightarrow> bool \<Rightarrow> tid \<Rightarrow> timer_sys \<Rightarrow> timer_sys \<Rightarrow> bool"
  for P B L one tt where
  tick: "\<forall>i\<in>set (soft_timer_list (ty_t y)). ty_now y < ty_due y i + L \<Longrightarrow>
    timer_step P B L one tt y (y\<lparr>ty_t := rt_tick_increase (ty_t y), ty_now := Suc (ty_now y)\<rparr>)"
| init: "i \<notin> set (soft_timer_list (ty_t y)) \<Longrightarrow> i \<notin> set (expired_list (ty_t y)) \<Longrightarrow>
    rt_timer_init i func param time flag (ty_t y) = Some s' \<Longrightarrow> timer_step P B L one tt y (y\<lparr>ty_t := s'\<rparr>)"
| start: "P \<le> period (ty_t y) i \<Longrightarrow> period (ty_t y) i \<le> B \<Longrightarrow> i \<noteq> Thread_Timer tt \<Longrightarrow>
    rt_timer_start i (ty_t y) = Some s' \<Longrightarrow>
    timer_step P B L one tt y (y\<lparr>ty_t := s', ty_due := (ty_due y)(i := ty_now y + period (ty_t y) i)\<rparr>)"
| stop: "timer_stop i (ty_t y) = (r, s') \<Longrightarrow> timer_step P B L one tt y (y\<lparr>ty_t := s'\<rparr>)"
| detach: "timer_step P B L one tt y (y\<lparr>ty_t := rt_timer_detach i (ty_t y)\<rparr>)"
| control: "rt_timer_control cmd arg i (ty_t y) = Some (v, s') \<Longrightarrow>
    cmd = RT_TIMER_CTRL_SET_ONESHOT \<longrightarrow> one \<or> i \<notin> set (expired_list (ty_t y)) \<Longrightarrow>
    timer_step P B L one tt y (y\<lparr>ty_t := s'\<rparr>)"
| kernel: "threads k tt = (threads (tm_kernel (ty_t y)) tt)\<lparr>stat := x\<rparr> \<Longrightarrow>
    (if rt_sched_thread_is_suspended (tm_kernel (ty_t y)) tt then x = stat (threads (tm_kernel (ty_t y)) tt)
     else x \<in> {RT_THREAD_READY, RT_THREAD_RUNNING}) \<Longrightarrow>
    timer_step P B L one tt y (y\<lparr>ty_t := (ty_t y)\<lparr>tm_kernel := k\<rparr>\<rparr>)"
| thread: "rt_current_thread (tm_kernel (ty_t y)) = tt \<Longrightarrow> stat (threads (tm_kernel (ty_t y)) tt) = RT_THREAD_RUNNING \<Longrightarrow>
    timer_thread_step y = Some y' \<Longrightarrow> timer_step P B L one tt y y'"

definition timer_boot :: "tid \<Rightarrow> timer_sys \<Rightarrow> bool" where
  "timer_boot tt y \<longleftrightarrow> (\<exists>s. rt_system_timer_thread_init s = Some (ty_t y)) \<and> ty_pc y = TmCheck \<and>
    expired_list (ty_t y) = [] \<and> rt_tick (ty_t y) = of_nat (ty_now y) \<and> (\<forall>i. \<not> activated (ty_t y) i) \<and>
    stat (threads (tm_kernel (ty_t y)) tt) \<in> {RT_THREAD_READY, RT_THREAD_RUNNING} \<and>
    \<not> sched_flag_ttmr_set (threads (tm_kernel (ty_t y)) tt)"

section \<open>The timer list\<close>

definition list_wf :: "nat \<Rightarrow> nat \<Rightarrow> nat \<Rightarrow> timer_state \<Rightarrow> nat \<Rightarrow> (timer_id \<Rightarrow> nat) \<Rightarrow> bool" where
  "list_wf P B L s n due \<longleftrightarrow>
    distinct (soft_timer_list s) \<and> sorted_wrt (\<lambda>a b. due a \<le> due b) (soft_timer_list s) \<and>
    set (soft_timer_list s) \<inter> set (expired_list s) = {} \<and> length (expired_list s) \<le> 1 \<and>
    rt_tick s = of_nat n \<and>
    (\<forall>i\<in>set (soft_timer_list s). activated s i \<and> timeout_tick (timers s i) = of_nat (due i) \<and>
       due i \<le> n + B \<and> n \<le> due i + L) \<and>
    (\<forall>i. activated s i \<longrightarrow> P \<le> period s i \<and> period s i \<le> B)"

definition listed :: "timer_state \<Rightarrow> bool" where
  "listed s \<longleftrightarrow> (\<forall>i. activated s i \<longrightarrow> i \<in> set (soft_timer_list s) \<or> i \<in> set (expired_list s)) \<and>
    (\<forall>i\<in>set (expired_list s). activated s i \<longrightarrow> periodic s i)"

lemma list_wfD:
  assumes "list_wf P B L s n due"
  shows "distinct (soft_timer_list s)" "sorted_wrt (\<lambda>a b. due a \<le> due b) (soft_timer_list s)"
    "set (soft_timer_list s) \<inter> set (expired_list s) = {}" "length (expired_list s) \<le> 1" "rt_tick s = of_nat n"
    "i \<in> set (soft_timer_list s) \<Longrightarrow> activated s i \<and> timeout_tick (timers s i) = of_nat (due i) \<and>
       due i \<le> n + B \<and> n \<le> due i + L"
    "activated s i \<Longrightarrow> P \<le> period s i \<and> period s i \<le> B"
  using assms unfolding list_wf_def by blast+

lemma sorted_wrt_remove1: "sorted_wrt R xs \<Longrightarrow> sorted_wrt R (remove1 x xs)"
  by (induction xs) (auto dest: notin_set_remove1)

lemma length_remove1_le: "length xs \<le> n \<Longrightarrow> length (remove1 x xs) \<le> n"
  by (auto simp: length_remove1)

lemma list_wf_remove:
  assumes "list_wf P B L s n due" "i \<notin> set (soft_timer_list s') "
    and "soft_timer_list s' = remove1 i (soft_timer_list s)" "expired_list s' = remove1 i (expired_list s)"
    and "rt_tick s' = rt_tick s" "\<And>j. timeout_tick (timers s' j) = timeout_tick (timers s j)"
    and "\<And>j. activated s' j \<longrightarrow> activated s j \<and> period s' j = period s j" "\<And>j. j \<noteq> i \<Longrightarrow> activated s j \<longrightarrow> activated s' j"
  shows "list_wf P B L s' n due"
  using list_wfD [OF assms(1)] assms(2-8) unfolding list_wf_def
  by (auto simp: sorted_wrt_remove1 length_remove1_le dest: notin_set_remove1)


lemma period_simps [simp]:
  "period (timer_remove i s) = period s" "period (set_flag i f s) = period s" "period (clear_flag i f s) = period s"
  "period (timer_start i s) = period s" "period (s\<lparr>tm_kernel := k\<rparr>) = period s" "period (s\<lparr>rt_tick := v\<rparr>) = period s"
  "period (s\<lparr>expired_list := l\<rparr>) = period s" "period (s\<lparr>soft_timer_sem := sem, tm_kernel := k\<rparr>) = period s"
  by (simp_all add: period_def fun_eq_iff)

abbreviation unlink :: "timer_id \<Rightarrow> timer_state \<Rightarrow> timer_state" where
  "unlink i s \<equiv> clear_flag i RT_TIMER_FLAG_ACTIVATED (timer_remove i s)"

lemma unlink_wf:
  assumes "list_wf P B L s n due"
  shows "list_wf P B L (unlink i s) n due" "listed s \<Longrightarrow> listed (unlink i s)"
proof -
  show "list_wf P B L (unlink i s) n due"
    by (rule list_wf_remove [OF assms]) (use list_wfD(1) [OF assms] in auto)
qed (auto simp: listed_def dest: notin_set_remove1)

lemma list_wf_frame:
  assumes "list_wf P B L s n due"
    and "soft_timer_list s' = soft_timer_list s" "expired_list s' = expired_list s" "rt_tick s' = rt_tick s"
    and "\<And>j. timeout_tick (timers s' j) = timeout_tick (timers s j) \<or> j \<notin> set (soft_timer_list s)"
    and "\<And>j. activated s' j \<longleftrightarrow> activated s j" "\<And>j. activated s j \<Longrightarrow> period s' j = period s j"
  shows "list_wf P B L s' n due" "listed s \<Longrightarrow> (\<And>j. j \<in> set (expired_list s) \<Longrightarrow> periodic s j \<Longrightarrow> periodic s' j) \<Longrightarrow> listed s'"
proof -
  note d = list_wfD [OF assms(1)]
  have "timeout_tick (timers s' i) = timeout_tick (timers s i)" if "i \<in> set (soft_timer_list s)" for i
    using assms(5) [of i] that by blast
  then show "list_wf P B L s' n due" using d unfolding list_wf_def assms(2-4,6) by (simp add: assms(7))
qed (auto simp: listed_def assms)

lemma sorted_insert_due:
  fixes due :: "'a \<Rightarrow> nat"
  assumes so: "sorted_wrt (\<lambda>a b. due a \<le> due b) ts" and i: "i \<notin> set ts"
  shows "sorted_wrt (\<lambda>a b. (due(i := d)) a \<le> (due(i := d)) b) (filter (\<lambda>t. due t \<le> d) ts @ i # filter (\<lambda>t. d < due t) ts)"
proof -
  have f: "sorted_wrt (\<lambda>a b. (due(i := d)) a \<le> (due(i := d)) b) (filter Q ts)" for Q
    by (rule sorted_wrt_mono_rel [OF _ sorted_wrt_filter [OF so]]) (use i in auto)
  show ?thesis unfolding sorted_wrt_append sorted_wrt.simps using f i by auto
qed

lemma timer_start_wf:
  assumes wf: "list_wf P B L s n due" and p: "P \<le> period s i" "period s i \<le> B" and B: "B < 0x7FFFFFFF" "B + L \<le> 0x80000001"
  shows "list_wf P B L (timer_start i s) n (due(i := n + period s i))" "listed s \<Longrightarrow> listed (timer_start i s)"
    and "soft_timer_list (timer_start i s) = (let ts = remove1 i (soft_timer_list s); d = n + period s i
      in filter (\<lambda>t. due t \<le> d) ts @ i # filter (\<lambda>t. d < due t) ts)"
proof -
  note d = list_wfD [OF wf]
  let ?ts = "remove1 i (soft_timer_list s)" and ?d = "n + period s i"
  let ?due = "due(i := ?d)"
  have ex: "distinct (expired_list s)" using d(4) by (cases "expired_list s") auto
  have tick: "rt_tick s + tm_init_tick (timers s i) = of_nat ?d" using d(5) by (simp add: period_def)
  have ts: "i \<notin> set ?ts" "distinct ?ts" "set ?ts = set (soft_timer_list s) - {i}" using d(1) by auto
  have so: "sorted_wrt (\<lambda>a b. due a \<le> due b) ?ts" using d(2) by (rule sorted_wrt_remove1)
  have l: "soft_timer_list (timer_start i s) = filter (\<lambda>t. due t \<le> ?d) ?ts @ i # filter (\<lambda>t. ?d < due t) ?ts"
    unfolding start_list [OF d(1)] tick
  proof (rule timer_insert_due [OF so])
    fix t assume "t \<in> set ?ts"
    then have "t \<in> set (soft_timer_list s)" using ts(3) by blast
    from d(6) [OF this] show "timeout_tick (timers s t) = of_nat (due t) \<and> due t < ?d + 0x7FFFFFFF \<and> ?d \<le> due t + 0x80000001"
      using p B by auto
  qed
  then show "soft_timer_list (timer_start i s) = (let ts = ?ts; d = ?d
      in filter (\<lambda>t. due t \<le> d) ts @ i # filter (\<lambda>t. d < due t) ts)" by (simp add: Let_def)
  have so': "sorted_wrt (\<lambda>a b. ?due a \<le> ?due b) (soft_timer_list (timer_start i s))"
    unfolding l by (rule sorted_insert_due [OF so ts(1)])
  have "set (soft_timer_list (timer_start i s)) = insert i (set (soft_timer_list s))" using start_set [OF d(1)] .
  then have sub: "j \<in> set (soft_timer_list s)" if "j \<in> set (soft_timer_list (timer_start i s))" "j \<noteq> i" for j using that by blast
  have "distinct (soft_timer_list (timer_start i s))"
    unfolding l using ts(1,2) by auto
  moreover have "set (soft_timer_list (timer_start i s)) \<inter> set (expired_list (timer_start i s)) = {}"
    using d(3) start_set [OF d(1)] ex by auto
  ultimately show "list_wf P B L (timer_start i s) n ?due"
    unfolding list_wf_def using so' d(4,5,6,7) sub p tick
    by (auto simp: length_remove1_le)
  show "listed s \<Longrightarrow> listed (timer_start i s)" using start_set [OF d(1)] ex
    by (auto simp: listed_def)
qed


section \<open>Expiry\<close>

lemma expired_iff:
  assumes "list_wf P B L s n due" "i \<in> set (soft_timer_list s)" and B: "B < 0x7FFFFFFF" "L < 0x7FFFFFFF"
  shows "rt_tick s - timeout_tick (timers s i) < RT_TICK_MAX div 2 \<longleftrightarrow> due i \<le> n"
proof -
  have "n < due i + 0x7FFFFFFF" "due i \<le> n + 0x80000001" using list_wfD(6) [OF assms(1,2)] B by auto
  from tick_later_iff(1) [OF this] show ?thesis
    using list_wfD(5,6) [OF assms(1)] assms(2) by simp
qed

text \<open>The state in which the timeout function of \<open>i\<close> is called.\<close>

definition expire :: "timer_id \<Rightarrow> timer_state \<Rightarrow> timer_state" where
  "expire i s = (if periodic s i then timer_remove i s else unlink i s)\<lparr>expired_list := [i]\<rparr>"

lemma turn_eq:
  assumes wf: "list_wf P B L s n due" and e: "expired_list s = []" and B: "B < 0x7FFFFFFF" "L < 0x7FFFFFFF"
  shows "timer_check_turn s =
    (case soft_timer_list s of [] \<Rightarrow> None | i # ts \<Rightarrow> if due i \<le> n then Some (i, expire i s) else None)"
  using expired_iff [OF wf _ B] e
  by (auto simp: timer_check_turn_def expire_def Let_def split: list.splits)

lemma expire_simps [simp]:
  "soft_timer_list (expire i s) = remove1 i (soft_timer_list s)" "expired_list (expire i s) = [i]"
  "rt_tick (expire i s) = rt_tick s" "soft_timer_sem (expire i s) = soft_timer_sem s" "tm_kernel (expire i s) = tm_kernel s"
  "timeout_tick (timers (expire i s) j) = timeout_tick (timers s j)" "period (expire i s) = period s"
  "activated (expire i s) j \<longleftrightarrow> activated s j \<and> (j = i \<longrightarrow> periodic s i)" "periodic (expire i s) j \<longleftrightarrow> periodic s j"
  by (auto simp: expire_def)

lemma expire_wf:
  assumes "list_wf P B L s n due" "i \<in> set (soft_timer_list s)" "expired_list s = []"
  shows "list_wf P B L (expire i s) n due" "listed s \<Longrightarrow> listed (expire i s)"
proof -
  note d = list_wfD [OF assms(1)]
  show "list_wf P B L (expire i s) n due"
    using d assms(2) unfolding list_wf_def by (auto simp: sorted_wrt_remove1 dest: notin_set_remove1)
qed (use assms(3) in \<open>auto simp: listed_def\<close>)

lemma after_wf:
  assumes wf: "list_wf P B L s n due" and e: "expired_list s = [] \<or> expired_list s = [i]"
    and B: "B < 0x7FFFFFFF" "B + L \<le> 0x80000001"
  shows "list_wf P B L (timer_check_after i s) n (if timer_restarts i s then due(i := n + period s i) else due)"
    "listed s \<Longrightarrow> listed (timer_check_after i s)" "expired_list (timer_check_after i s) = []"
proof -
  note d = list_wfD [OF wf]
  consider (gone) "expired_list s = []" | (again) "expired_list s = [i]" "timer_restarts i s"
    | (over) "expired_list s = [i]" "\<not> timer_restarts i s"
    using e by blast
  then have "list_wf P B L (timer_check_after i s) n (if timer_restarts i s then due(i := n + period s i) else due) \<and>
    (listed s \<longrightarrow> listed (timer_check_after i s)) \<and> expired_list (timer_check_after i s) = []"
  proof cases
    case gone
    then show ?thesis using wf by (simp add: timer_check_after_def timer_restarts_def)
  next
    case again
    then have p: "P \<le> period s i" "period s i \<le> B" using d(7) [of i] by (auto simp: timer_restarts_def)
    have r: "timer_check_after i s = timer_start i (unlink i s)"
      using again by (simp add: timer_check_after_def timer_restarts_def)
    have "P \<le> period (unlink i s) i" "period (unlink i s) i \<le> B" using p by simp_all
    note st = timer_start_wf [OF unlink_wf(1) [OF wf] this B]
    show ?thesis using st(1) st(2) [OF unlink_wf(2) [OF wf]] again unfolding r by simp
  next
    case over
    then have r: "timer_check_after i s = timer_remove i s"
      by (auto simp: timer_check_after_def timer_restarts_def)
    have "i \<notin> set (soft_timer_list s)" using d(3) over by auto
    then have "list_wf P B L (timer_remove i s) n due" by - (rule list_wf_remove [OF wf], simp_all add: remove1_idem)
    moreover have "listed s \<Longrightarrow> listed (timer_remove i s)"
      using over d(1) by (auto simp: listed_def timer_restarts_def)
    ultimately show ?thesis using over unfolding r by simp
  qed
  then show "list_wf P B L (timer_check_after i s) n (if timer_restarts i s then due(i := n + period s i) else due)"
    "listed s \<Longrightarrow> listed (timer_check_after i s)" "expired_list (timer_check_after i s) = []" by blast+
qed


section \<open>Invariants of the system\<close>

definition timer_wf :: "nat \<Rightarrow> nat \<Rightarrow> nat \<Rightarrow> bool \<Rightarrow> timer_sys \<Rightarrow> bool" where
  "timer_wf P B L one y \<longleftrightarrow> list_wf P B L (ty_t y) (ty_now y) (ty_due y) \<and> (\<not> one \<longrightarrow> listed (ty_t y)) \<and>
    (case ty_pc y of TmCallback i \<Rightarrow> expired_list (ty_t y) \<in> {[], [i]} | _ \<Rightarrow> expired_list (ty_t y) = [])"

lemma rt_timer_check_simps [simp]:
  "timers (rt_timer_check s) = timers s" "rt_tick (rt_timer_check s) = rt_tick s"
  "soft_timer_list (rt_timer_check s) = soft_timer_list s" "expired_list (rt_timer_check s) = expired_list s"
  by (auto simp: rt_timer_check_def split: option.splits prod.splits)

lemma timer_is_eq: "timers s' = timers s \<Longrightarrow> timer_is f s' = timer_is f s"
  by (simp add: timer_is_def fun_eq_iff)

lemma period_eq: "timers s' = timers s \<Longrightarrow> period s' = period s"
  by (simp add: period_def fun_eq_iff)

lemma list_wf_same:
  assumes "list_wf P B L s n due" "timers s' = timers s" "soft_timer_list s' = soft_timer_list s"
    "expired_list s' = expired_list s" "rt_tick s' = rt_tick s"
  shows "list_wf P B L s' n due" "listed s \<Longrightarrow> listed s'"
  by (rule list_wf_frame [OF assms(1,3,4,5)]; simp add: assms(2) timer_is_eq [OF assms(2)] period_eq [OF assms(2)])+

lemma tick_wf:
  assumes wf: "list_wf P B L s n due" and "\<forall>i\<in>set (soft_timer_list s). n < due i + L"
  shows "list_wf P B L (rt_tick_increase s) (Suc n) due" "listed s \<Longrightarrow> listed (rt_tick_increase s)"
proof -
  note d = list_wfD [OF wf]
  let ?s = "s\<lparr>rt_tick := rt_tick s + 1\<rparr>"
  have "list_wf P B L ?s (Suc n) due"
    using d assms(2) unfolding list_wf_def by (simp add: Suc_leI) (metis le_SucI)
  from list_wf_same(1) [OF this] show "list_wf P B L (rt_tick_increase s) (Suc n) due"
    by (simp add: rt_tick_increase_def rt_tick_increase_tick_def)
  show "listed s \<Longrightarrow> listed (rt_tick_increase s)"
    unfolding listed_def rt_tick_increase_def rt_tick_increase_tick_def
    by (simp add: timer_is_eq [of "rt_timer_check ?s" ?s])
qed

lemma rt_start_eq:
  assumes "rt_timer_start i s = Some s'"
  obtains k where "s' = timer_start i (s\<lparr>tm_kernel := k\<rparr>)"
    "k = tm_kernel s \<or> (\<exists>t. i = Thread_Timer t \<and> k = upd_thread t (\<lambda>th. th\<lparr>sched_flag_ttmr_set := True\<rparr>) (tm_kernel s))"
proof (cases "timer_is RT_TIMER_FLAG_THREAD_TIMER s i")
  case True
  then obtain t where t: "i = Thread_Timer t" using assms by (auto simp: rt_timer_start_def split: timer_id.splits)
  show thesis
    by (rule that [of "upd_thread t (\<lambda>th. th\<lparr>sched_flag_ttmr_set := True\<rparr>) (tm_kernel s)"])
      (use assms True t in \<open>simp_all add: rt_timer_start_def\<close>)
qed (use that [of "tm_kernel s"] assms in \<open>simp add: rt_timer_start_def\<close>)

lemma control_wf:
  assumes wf: "list_wf P B L s n due" and c: "rt_timer_control cmd arg i s = Some (v, s')"
    and one: "cmd = RT_TIMER_CTRL_SET_ONESHOT \<longrightarrow> one \<or> i \<notin> set (expired_list s)"
  shows "list_wf P B L s' n due" "\<not> one \<Longrightarrow> listed s \<Longrightarrow> listed s'"
    "set (soft_timer_list s') \<subseteq> set (soft_timer_list s)" "expired_list s' \<in> {expired_list s, remove1 i (expired_list s)}"
    "soft_timer_sem s' = soft_timer_sem s" "tm_kernel s' = tm_kernel s"
proof -
  have "list_wf P B L s' n due \<and> (\<not> one \<longrightarrow> listed s \<longrightarrow> listed s') \<and>
    set (soft_timer_list s') \<subseteq> set (soft_timer_list s) \<and> expired_list s' \<in> {expired_list s, remove1 i (expired_list s)} \<and>
    soft_timer_sem s' = soft_timer_sem s \<and> tm_kernel s' = tm_kernel s"
  proof (cases cmd)
    case RT_TIMER_CTRL_SET_TIME
    let ?s1 = "if activated s i then unlink i s else s"
    have s': "s' = upd_timer i (\<lambda>t. t\<lparr>tm_init_tick := arg\<rparr>) ?s1"
      using c RT_TIMER_CTRL_SET_TIME by (auto simp: rt_timer_control_def Let_def split: if_splits)
    have wf1: "list_wf P B L ?s1 n due" "listed s \<Longrightarrow> listed ?s1" using unlink_wf [OF wf] wf by auto
    have n: "\<not> activated ?s1 i" by simp
    have "period s' j = period ?s1 j" if "j \<noteq> i" for j using that by (simp add: s' period_def)
    then have p: "activated ?s1 j \<Longrightarrow> period s' j = period ?s1 j" for j using n by (cases "j = i") auto
    have u: "list_wf P B L s' n due" "listed ?s1 \<Longrightarrow> listed s'"
      by (rule list_wf_frame [OF wf1(1)]; (rule p)?; simp add: s')+
    moreover have "set (soft_timer_list s') \<subseteq> set (soft_timer_list s)" "expired_list s' \<in> {expired_list s, remove1 i (expired_list s)}"
      "soft_timer_sem s' = soft_timer_sem s" "tm_kernel s' = tm_kernel s"
      unfolding s' using set_remove1_subset [of i "soft_timer_list s"] by auto
    ultimately show ?thesis using wf1(2) by blast
  next
    case RT_TIMER_CTRL_SET_ONESHOT
    then have s': "s' = clear_flag i RT_TIMER_FLAG_PERIODIC s" using c by (simp add: rt_timer_control_def Let_def)
    have "list_wf P B L s' n due" "\<not> one \<Longrightarrow> listed s \<Longrightarrow> listed s'"
      using list_wf_frame [OF wf, of s'] one RT_TIMER_CTRL_SET_ONESHOT by (auto simp: s')
    then show ?thesis by (simp add: s')
  next
    case RT_TIMER_CTRL_SET_PERIODIC
    then have s': "s' = set_flag i RT_TIMER_FLAG_PERIODIC s" using c by (simp add: rt_timer_control_def Let_def)
    have "list_wf P B L s' n due" "listed s \<Longrightarrow> listed s'"
      using list_wf_frame [OF wf, of s'] by (auto simp: s')
    then show ?thesis by (simp add: s')
  next
    case RT_TIMER_CTRL_SET_FUNC
    then have s': "s' = upd_timer i (\<lambda>t. t\<lparr>timeout_func := arg\<rparr>) s" using c by (auto simp: rt_timer_control_def Let_def)
    have "list_wf P B L s' n due" "listed s \<Longrightarrow> listed s'"
      using list_wf_frame [OF wf, of s'] by (auto simp: s' period_def)
    then show ?thesis by (simp add: s')
  next
    case RT_TIMER_CTRL_SET_PARM
    then have s': "s' = upd_timer i (\<lambda>t. t\<lparr>tm_parameter := arg\<rparr>) s" using c by (auto simp: rt_timer_control_def Let_def)
    have "list_wf P B L s' n due" "listed s \<Longrightarrow> listed s'"
      using list_wf_frame [OF wf, of s'] by (auto simp: s' period_def)
    then show ?thesis by (simp add: s')
  qed (use c wf in \<open>auto simp: rt_timer_control_def Let_def\<close>)
  then show "list_wf P B L s' n due" "\<not> one \<Longrightarrow> listed s \<Longrightarrow> listed s'"
    "set (soft_timer_list s') \<subseteq> set (soft_timer_list s)" "expired_list s' \<in> {expired_list s, remove1 i (expired_list s)}"
    "soft_timer_sem s' = soft_timer_sem s" "tm_kernel s' = tm_kernel s" by blast+
qed


lemma remove1_short:
  assumes "ys \<in> {xs, remove1 i xs}"
  shows "xs = [] \<Longrightarrow> ys = []" "xs = [j] \<Longrightarrow> ys = [] \<or> ys = [j]"
  using assms by (auto split: if_splits)

lemma timer_step_wf:
  assumes "timer_step P B L one tt y y'" and wf: "timer_wf P B L one y"
    and B: "B < 0x7FFFFFFF" "L < 0x7FFFFFFF" "B + L \<le> 0x80000001"
  shows "timer_wf P B L one y'"
proof -
  let ?s = "ty_t y" and ?n = "ty_now y" and ?due = "ty_due y"
  have l: "list_wf P B L ?s ?n ?due" and full: "\<not> one \<Longrightarrow> listed ?s" using wf by (auto simp: timer_wf_def)
  have keep: "timer_wf P B L one (y\<lparr>ty_t := s', ty_due := due\<rparr>)"
    if "list_wf P B L s' ?n due" "\<not> one \<Longrightarrow> listed s'" "expired_list s' \<in> {expired_list ?s, remove1 i (expired_list ?s)}" for s' due i
  proof -
    note e = remove1_short [OF that(3)]
    show ?thesis using that(1,2) wf e unfolding timer_wf_def by (auto split: timer_pc.splits)
  qed
  show ?thesis using assms(1)
  proof cases
    case tick
    then show ?thesis using tick_wf [OF l tick(2)] wf
      by (simp add: timer_wf_def rt_tick_increase_def rt_tick_increase_tick_def split: timer_pc.splits)
  next
    case (init i func param time flag s')
    then have s': "s' = timer_init i func param time flag ?s" by (simp add: rt_timer_init_def split: if_splits)
    have f: "timers s' j = timers ?s j" if "j \<noteq> i" for j using that by (simp add: s' timer_init_def)
    have n: "\<not> activated s' i" using timer_is_bit [OF flag_bits(1), of s' i]
      by (simp add: s' timer_init_def flag_clear_bit [OF flag_bits(1)])
    have e: "soft_timer_list s' = soft_timer_list ?s" "expired_list s' = expired_list ?s" "rt_tick s' = rt_tick ?s"
      by (simp_all add: s' timer_init_def)
    have a: "timer_is g s' j = timer_is g ?s j" "period s' j = period ?s j" if "j \<noteq> i" for j g
      using f [OF that] by (simp_all add: timer_is_def period_def)
    have st: "j \<noteq> i" if "j \<in> set (soft_timer_list ?s) \<or> activated s' j" for j using that init(2) n by blast
    have "list_wf P B L s' ?n ?due"
      unfolding list_wf_def e using list_wfD [OF l] a f st by metis
    moreover have "\<not> one \<Longrightarrow> listed s'"
      using full init(3) a st unfolding listed_def e by metis
    ultimately show ?thesis using keep [of s' ?due] init(1) e(2) by simp
  next
    case (start i s')
    obtain k where k: "s' = timer_start i (?s\<lparr>tm_kernel := k\<rparr>)" by (rule rt_start_eq [OF start(5)])
    have l': "list_wf P B L (?s\<lparr>tm_kernel := k\<rparr>) ?n ?due" "listed ?s \<Longrightarrow> listed (?s\<lparr>tm_kernel := k\<rparr>)"
      by (rule list_wf_same [OF l]; simp)+
    have p: "P \<le> period (?s\<lparr>tm_kernel := k\<rparr>) i" "period (?s\<lparr>tm_kernel := k\<rparr>) i \<le> B" using start(2,3) by simp_all
    note st = timer_start_wf [OF l'(1) p B(1,3)]
    show ?thesis unfolding start(1)
      by (rule keep [of _ _ i]) (use st(1,2) l'(2) full in \<open>simp_all add: k\<close>)
  next
    case (stop i r s')
    then have "s' = ?s \<or> s' = unlink i ?s" by (auto simp: timer_stop_def split: if_splits)
    then show ?thesis using keep [of s' ?due i] stop(1) l full unlink_wf [OF l] by auto
  next
    case (detach i)
    then show ?thesis using keep [of "unlink i ?s" ?due i] full unlink_wf [OF l]
      by (simp add: rt_timer_detach_def)
  next
    case (control cmd arg i v s')
    note c = control_wf [OF l control(2,3)]
    show ?thesis unfolding control(1) using keep [of s' ?due i] c full by simp
  next
    case (kernel k x)
    have "list_wf P B L (?s\<lparr>tm_kernel := k\<rparr>) ?n ?due" "listed ?s \<Longrightarrow> listed (?s\<lparr>tm_kernel := k\<rparr>)"
      by (rule list_wf_same [OF l]; simp)+
    then show ?thesis using keep [of "?s\<lparr>tm_kernel := k\<rparr>" ?due] full kernel(1) by simp
  next
    case thread
    note r = thread(3)
    show ?thesis
    proof (cases "ty_pc y")
      case TmCheck
      then have e: "expired_list ?s = []" using wf by (simp add: timer_wf_def)
      show ?thesis
      proof (cases "timer_check_turn ?s")
        case None
        then show ?thesis using r TmCheck wf by (auto simp: timer_thread_step_def Let_def timer_wf_def)
      next
        case (Some p)
        then obtain i where i: "p = (i, expire i ?s)" "i \<in> set (soft_timer_list ?s)"
          unfolding turn_eq [OF l e B(1,2)] by (auto split: list.splits if_splits)
        have y': "y' = y\<lparr>ty_t := expire i ?s, ty_pc := TmCallback i\<rparr>"
          using r TmCheck Some i by (simp add: timer_thread_step_def Let_def)
        show ?thesis using expire_wf [OF l i(2) e] full unfolding y' by (simp add: timer_wf_def)
      qed
    next
      case (TmCallback i)
      then have e: "expired_list ?s = [] \<or> expired_list ?s = [i]" using wf by (auto simp: timer_wf_def)
      show ?thesis using r TmCallback after_wf [OF l e B(1,3)] full
        by (auto simp: timer_thread_step_def Let_def timer_wf_def)
    next
      case TmTake
      obtain out sem k where t: "rt_sem_take (-1) (soft_timer_sem ?s) (tm_kernel ?s) = (out, sem, k)"
        by (cases "rt_sem_take (-1) (soft_timer_sem ?s) (tm_kernel ?s)")
      have "list_wf P B L (?s\<lparr>soft_timer_sem := sem, tm_kernel := k\<rparr>) ?n ?due"
        "listed ?s \<Longrightarrow> listed (?s\<lparr>soft_timer_sem := sem, tm_kernel := k\<rparr>)"
        by (rule list_wf_same [OF l]; simp)+
      then show ?thesis using r TmTake t wf full
        by (auto simp: timer_thread_step_def Let_def timer_wf_def split: ipc_outcome.splits)
    qed (use r wf in \<open>auto simp: timer_thread_step_def Let_def timer_wf_def\<close>)
  qed
qed


section \<open>The timer thread and its semaphore\<close>

definition sem_idle :: "tid \<Rightarrow> rt_semaphore \<Rightarrow> rt_kernel \<Rightarrow> bool" where
  "sem_idle tt sem k \<longleftrightarrow> sem_max_value sem = 1 \<and> sem_value sem \<le> 1 \<and> \<not> sched_flag_ttmr_set (threads k tt) \<and>
    (if rt_sched_thread_is_suspended k tt then sem_waiters sem = [tt] \<and> sem_value sem = 0
     else sem_waiters sem = [] \<and> stat (threads k tt) \<in> {RT_THREAD_READY, RT_THREAD_RUNNING})"

definition overdue :: "timer_sys \<Rightarrow> bool" where
  "overdue y \<longleftrightarrow> (\<exists>i\<in>set (soft_timer_list (ty_t y)). ty_due y i \<le> ty_now y)"

definition timer_wake :: "tid \<Rightarrow> timer_sys \<Rightarrow> bool" where
  "timer_wake tt y \<longleftrightarrow> sem_idle tt (soft_timer_sem (ty_t y)) (tm_kernel (ty_t y)) \<and>
    (rt_sched_thread_is_suspended (tm_kernel (ty_t y)) tt \<longrightarrow> ty_pc y = TmWait \<and> \<not> overdue y) \<and>
    (ty_pc y = TmTake \<and> sem_value (soft_timer_sem (ty_t y)) = 0 \<longrightarrow> \<not> overdue y)"

lemma value_le_1: "(v :: u16) \<le> 1 \<Longrightarrow> v \<noteq> 0 \<Longrightarrow> v = 1"
  by (metis antisym_conv2 word_less_1 word_le_less_eq)

lemma suspended_iff: "rt_sched_thread_is_suspended k t \<longleftrightarrow> (\<exists>f. stat (threads k t) = Suspended f)"
  by (simp add: rt_sched_thread_is_suspended_def split: thread_stat.splits)

lemma release_idle:
  assumes i: "sem_idle tt sem k" and r: "rt_sem_release sem k = (e, sem', k')"
  shows "sem_idle tt sem' k'" "\<not> rt_sched_thread_is_suspended k' tt"
    "\<not> rt_sched_thread_is_suspended k tt \<Longrightarrow> sem_value sem' = 1"
proof -
  have "sem_idle tt sem' k' \<and> \<not> rt_sched_thread_is_suspended k' tt \<and>
    (\<not> rt_sched_thread_is_suspended k tt \<longrightarrow> sem_value sem' = 1)"
  proof (cases "rt_sched_thread_is_suspended k tt")
    case True
    then have w: "wakeable k tt" "sem_waiters sem = [tt]" "sem_value sem = 0" "sem_max_value sem = 1"
      using i by (auto simp: sem_idle_def wakeable_def)
    then have "sem' = sem\<lparr>sem_waiters := []\<rparr>" "k' = woken tt RT_EOK k"
      using r by (auto simp: rt_sem_release_def)
    then show ?thesis using w True by (simp add: sem_idle_def woken_def rt_sched_thread_is_suspended_def)
  next
    case False
    then have w: "sem_waiters sem = []" "sem_max_value sem = 1" "sem_value sem = 0 \<or> sem_value sem = 1"
      using i value_le_1 by (auto simp: sem_idle_def)
    then have "k' = k" "sem' = sem\<lparr>sem_value := 1\<rparr> \<or> sem' = sem \<and> sem_value sem = 1"
      using r by (auto simp: rt_sem_release_def split: if_splits)
    then show ?thesis using i False by (auto simp: sem_idle_def)
  qed
  then show "sem_idle tt sem' k'" "\<not> rt_sched_thread_is_suspended k' tt"
    "\<not> rt_sched_thread_is_suspended k tt \<Longrightarrow> sem_value sem' = 1" by blast+
qed

lemma take_idle:
  assumes i: "sem_idle tt sem k" and c: "rt_current_thread k = tt" "stat (threads k tt) = RT_THREAD_RUNNING"
  shows "sem_value sem = 1 \<Longrightarrow> \<exists>sem'. rt_sem_take (-1) sem k = (Returned RT_EOK, sem', k) \<and> sem_idle tt sem' k"
    "sem_value sem = 0 \<Longrightarrow> \<exists>sem' k'. rt_sem_take (-1) sem k = (Blocked, sem', k') \<and> sem_idle tt sem' k' \<and>
       rt_sched_thread_is_suspended k' tt"
proof -
  have ns: "\<not> rt_sched_thread_is_suspended k tt" "sem_waiters sem = []"
    using i c by (auto simp: sem_idle_def rt_sched_thread_is_suspended_def)
  show "\<exists>sem'. rt_sem_take (-1) sem k = (Returned RT_EOK, sem', k) \<and> sem_idle tt sem' k" if "sem_value sem = 1"
    using that i ns by (simp add: rt_sem_take_def rt_sem_take_main_def sem_idle_def)
  show "\<exists>sem' k'. rt_sem_take (-1) sem k = (Blocked, sem', k') \<and> sem_idle tt sem' k' \<and>
      rt_sched_thread_is_suspended k' tt" if v: "sem_value sem = 0"
  proof -
    let ?k1 = "upd_thread tt (\<lambda>th. th\<lparr>thread_error := RT_EINTR\<rparr>) k"
    obtain ws k2 ret where su: "rt_thread_suspend_to_list tt [] (sem_flag sem) RT_UNINTERRUPTIBLE ?k1 = (ws, k2, ret)"
      by (cases "rt_thread_suspend_to_list tt [] (sem_flag sem) RT_UNINTERRUPTIBLE ?k1")
    have st: "stat (threads ?k1 tt) \<in> {RT_THREAD_RUNNING, RT_THREAD_READY}" using c by simp
    note s = suspend_running [OF st su]
    have "\<not> sched_flag_ttmr_set (threads k2 tt)"
      using su st i by (auto simp: sem_idle_def rt_thread_suspend_to_list_def rt_sched_thread_timer_stop_def Let_def)
    moreover have "ws = [tt]" using s(2) by (simp add: rt_susp_list_enqueue_def split: ipc_flag.splits)
    ultimately show ?thesis using su s v i ns c
      by (auto simp: rt_sem_take_def rt_sem_take_main_def Let_def sem_idle_def)
  qed
qed

lemma head_first:
  assumes wf: "list_wf P B L s n due" and "j \<in> set (soft_timer_list s)"
  obtains i ts where "soft_timer_list s = i # ts" "due i \<le> due j"
  using list_wfD(2) [OF wf] assms(2) by (cases "soft_timer_list s") (auto intro: le_trans)


text \<open>A change of the timers that makes none overdue.\<close>

lemma wake_frame:
  assumes "timer_wake tt y" "ty_pc y' = ty_pc y \<or> ty_pc y' \<in> {TmCheck, TmCallback i} \<and> ty_pc y \<noteq> TmWait"
    and "soft_timer_sem (ty_t y') = soft_timer_sem (ty_t y)"
    and "threads (tm_kernel (ty_t y')) tt = threads (tm_kernel (ty_t y)) tt"
    and "\<not> overdue y \<Longrightarrow> ty_pc y' = ty_pc y \<Longrightarrow> \<not> overdue y'"
  shows "timer_wake tt y'"
  using assms unfolding timer_wake_def sem_idle_def rt_sched_thread_is_suspended_def by (auto split: if_splits)

lemma subset_overdue:
  assumes "\<not> overdue y" "set (soft_timer_list s') \<subseteq> set (soft_timer_list (ty_t y))"
  shows "\<not> overdue (y\<lparr>ty_t := s'\<rparr>)"
  using assms by (auto simp: overdue_def)

lemma tick_wake:
  assumes wf: "timer_wf P B L one y" and w: "timer_wake tt y"
  shows "timer_wake tt (y\<lparr>ty_t := rt_tick_increase (ty_t y), ty_now := Suc (ty_now y)\<rparr>)" (is "timer_wake tt ?y")
proof -
  let ?s = "ty_t y" and ?n = "ty_now y"
  have l: "list_wf P B L ?s ?n (ty_due y)" using wf by (simp add: timer_wf_def)
  let ?s1 = "?s\<lparr>rt_tick := rt_tick ?s + 1\<rparr>"
  have ri: "rt_tick_increase ?s = rt_timer_check ?s1" by (simp add: rt_tick_increase_def rt_tick_increase_tick_def)
  have idle: "sem_idle tt (soft_timer_sem ?s) (tm_kernel ?s)" using w by (simp add: timer_wake_def)
  obtain e sem k where rel: "rt_sem_release (soft_timer_sem ?s) (tm_kernel ?s) = (e, sem, k)"
    by (cases "rt_sem_release (soft_timer_sem ?s) (tm_kernel ?s)")
  note ir = release_idle [OF idle rel]
  have nt: "timer_list_next_timeout ?s1 = timer_list_next_timeout ?s"
    by (simp add: timer_list_next_timeout_def split: list.splits)
  consider (release) "soft_timer_sem (rt_tick_increase ?s) = sem" "tm_kernel (rt_tick_increase ?s) = k"
    | (none) "soft_timer_sem (rt_tick_increase ?s) = soft_timer_sem ?s" "tm_kernel (rt_tick_increase ?s) = tm_kernel ?s"
      "\<forall>d. timer_list_next_timeout ?s = Some d \<longrightarrow> \<not> d \<le> rt_tick ?s + 1"
  proof (cases "\<exists>d. timer_list_next_timeout ?s = Some d \<and> d \<le> rt_tick ?s + 1")
    case True
    then have "rt_timer_check ?s1 = ?s1\<lparr>soft_timer_sem := sem, tm_kernel := k\<rparr>"
      using rel nt by (auto simp: rt_timer_check_def)
    then show thesis using release by (simp add: ri)
  next
    case False
    then have "rt_timer_check ?s1 = ?s1" using nt by (auto simp: rt_timer_check_def split: option.splits)
    then show thesis using none False by (simp add: ri)
  qed
  then show ?thesis
  proof cases
    case release
    have "sem_value sem = 1 \<or> ty_pc y = TmWait" using ir(3) w by (auto simp: timer_wake_def)
    then show ?thesis using ir release by (auto simp: timer_wake_def)
  next
    case none
    have "\<not> overdue ?y" if no: "\<not> overdue y"
    proof
      assume "overdue ?y"
      then obtain j where j: "j \<in> set (soft_timer_list ?s)" "ty_due y j \<le> Suc ?n"
        by (auto simp: overdue_def ri)
      obtain i ts where i: "soft_timer_list ?s = i # ts" "ty_due y i \<le> ty_due y j" by (rule head_first [OF l j(1)])
      have "ty_due y i = Suc ?n" using no i j by (auto simp: overdue_def)
      then have "timer_list_next_timeout ?s = Some (rt_tick ?s + 1)"
        using list_wfD(5,6) [OF l] i(1) by (simp add: timer_list_next_timeout_def)
      then show False using none(3) by blast
    qed
    then show ?thesis using w none(1,2) by (auto simp: timer_wake_def)
  qed
qed

lemma thread_wake:
  assumes r: "timer_thread_step y = Some y'" and wf: "timer_wf P B L one y" and w: "timer_wake tt y"
    and c: "rt_current_thread (tm_kernel (ty_t y)) = tt" "stat (threads (tm_kernel (ty_t y)) tt) = RT_THREAD_RUNNING"
    and B: "B < 0x7FFFFFFF" "L < 0x7FFFFFFF"
  shows "timer_wake tt y'"
proof -
  let ?s = "ty_t y" and ?n = "ty_now y" and ?due = "ty_due y"
  have l: "list_wf P B L ?s ?n ?due" using wf by (simp add: timer_wf_def)
  have idle: "sem_idle tt (soft_timer_sem ?s) (tm_kernel ?s)" using w by (simp add: timer_wake_def)
  have ns: "\<not> rt_sched_thread_is_suspended (tm_kernel ?s) tt" using c(2) by (simp add: suspended_iff)
  show ?thesis
  proof (cases "ty_pc y")
    case TmCheck
    then have e: "expired_list ?s = []" using wf by (simp add: timer_wf_def)
    show ?thesis
    proof (cases "timer_check_turn ?s")
      case None
      have "\<not> overdue y"
      proof
        assume "overdue y"
        then obtain j where j: "j \<in> set (soft_timer_list ?s)" "?due j \<le> ?n" by (auto simp: overdue_def)
        obtain i ts where "soft_timer_list ?s = i # ts" "?due i \<le> ?due j" by (rule head_first [OF l j(1)])
        then show False using None j(2) unfolding turn_eq [OF l e B] by simp
      qed
      then show ?thesis using r TmCheck None idle ns by (auto simp: timer_thread_step_def Let_def timer_wake_def overdue_def)
    next
      case (Some p)
      then obtain i where "p = (i, expire i ?s)" unfolding turn_eq [OF l e B] by (auto split: list.splits if_splits)
      then show ?thesis using r TmCheck Some idle ns by (auto simp: timer_thread_step_def Let_def timer_wake_def)
    qed
  next
    case (TmCallback i)
    have "soft_timer_sem (timer_check_after i ?s) = soft_timer_sem ?s" "tm_kernel (timer_check_after i ?s) = tm_kernel ?s"
      by (simp_all add: timer_check_after_def Let_def)
    then show ?thesis using r TmCallback idle ns by (auto simp: timer_thread_step_def Let_def timer_wake_def)
  next
    case TmTake
    have v: "sem_value (soft_timer_sem ?s) = 0 \<or> sem_value (soft_timer_sem ?s) = 1"
      using idle value_le_1 by (auto simp: sem_idle_def)
    then show ?thesis
    proof
      assume v0: "sem_value (soft_timer_sem ?s) = 0"
      then have no: "\<not> overdue y" using w TmTake by (simp add: timer_wake_def)
      obtain sem k where t: "rt_sem_take (-1) (soft_timer_sem ?s) (tm_kernel ?s) = (Blocked, sem, k)" "sem_idle tt sem k"
        using take_idle(2) [OF idle c v0] by blast
      then show ?thesis using r TmTake no by (auto simp: timer_thread_step_def Let_def timer_wake_def overdue_def)
    next
      assume v1: "sem_value (soft_timer_sem ?s) = 1"
      obtain sem where t: "rt_sem_take (-1) (soft_timer_sem ?s) (tm_kernel ?s) = (Returned RT_EOK, sem, tm_kernel ?s)"
          "sem_idle tt sem (tm_kernel ?s)"
        using take_idle(1) [OF idle c v1] by blast
      then show ?thesis using r TmTake ns by (auto simp: timer_thread_step_def Let_def timer_wake_def)
    qed
  next
    case TmWait
    then show ?thesis using r idle ns by (auto simp: timer_thread_step_def Let_def timer_wake_def)
  qed
qed

lemma step_wake:
  assumes "timer_step P B L one tt y y'" and wf: "timer_wf P B L one y" and w: "timer_wake tt y"
    and P: "1 \<le> P" and B: "B < 0x7FFFFFFF" "L < 0x7FFFFFFF"
  shows "timer_wake tt y'"
proof -
  let ?s = "ty_t y"
  have l: "list_wf P B L ?s (ty_now y) (ty_due y)" using wf by (simp add: timer_wf_def)
  show ?thesis using assms(1)
  proof cases
    case tick then show ?thesis using tick_wake [OF wf w] by simp
  next
    case (init i func param time flag s')
    then have "s' = timer_init i func param time flag ?s" by (simp add: rt_timer_init_def split: if_splits)
    then show ?thesis using init(1) by - (rule wake_frame [OF w], simp_all add: timer_init_def overdue_def)
  next
    case (start i s')
    obtain k where k: "s' = timer_start i (?s\<lparr>tm_kernel := k\<rparr>)"
      "k = tm_kernel ?s \<or> (\<exists>t. i = Thread_Timer t \<and> k = upd_thread t (\<lambda>th. th\<lparr>sched_flag_ttmr_set := True\<rparr>) (tm_kernel ?s))"
      by (rule rt_start_eq [OF start(5)])
    have "threads k tt = threads (tm_kernel ?s) tt" using k(2) start(4) by (metis upd_thread_simps(3))
    moreover have "\<not> overdue y \<Longrightarrow> \<not> overdue y'"
      using start_set [of "?s\<lparr>tm_kernel := k\<rparr>" i] list_wfD(1) [OF l] start(2) P unfolding start(1) overdue_def k(1) by auto
    ultimately show ?thesis using start(1) by - (rule wake_frame [OF w], simp_all add: k(1))
  next
    case (stop i r s')
    then have "s' = ?s \<or> s' = unlink i ?s" by (auto simp: timer_stop_def split: if_splits)
    then show ?thesis using stop(1) set_remove1_subset [of i "soft_timer_list ?s"]
      by - (rule wake_frame [OF w], auto simp: overdue_def dest: notin_set_remove1)
  next
    case (detach i)
    then show ?thesis using set_remove1_subset [of i "soft_timer_list ?s"]
      by - (rule wake_frame [OF w], auto simp: overdue_def rt_timer_detach_def)
  next
    case (control cmd arg i v s')
    note c = control_wf [OF l control(2,3)]
    show ?thesis unfolding control(1)
      by (rule wake_frame [OF w]) (use c in \<open>auto simp: overdue_def\<close>)
  next
    case (kernel k x)
    then show ?thesis using w by (auto simp: timer_wake_def sem_idle_def suspended_iff overdue_def split: if_splits)
  next
    case thread
    then show ?thesis using thread_wake [OF _ wf w _ _ B] by blast
  qed
qed

end
