(* ===== verification/Timer_Props.thy ===== *)
theory Timer_Props
  imports Timer_Sys
begin

text \<open>
  What holds of the timers: the order of the list, the wake-ups of the timer thread, the timeout
  functions it calls and when, and three limits of the code.
\<close>

section \<open>From the boot on\<close>

abbreviation timer_reach :: "nat \<Rightarrow> nat \<Rightarrow> nat \<Rightarrow> bool \<Rightarrow> tid \<Rightarrow> timer_sys \<Rightarrow> timer_sys \<Rightarrow> bool" where
  "timer_reach P B L one tt \<equiv> (timer_step P B L one tt)\<^sup>*\<^sup>*"

lemma timer_boot_wf:
  assumes "timer_boot tt y"
  shows "timer_wf P B L one y" "timer_wake tt y"
proof -
  obtain s where "rt_system_timer_thread_init s = Some (ty_t y)" using assms by (auto simp: timer_boot_def)
  then have s: "ty_t y = s\<lparr>soft_timer_list := [], soft_timer_sem :=
      \<lparr>sem_value = 0, sem_max_value = 1, sem_flag = RT_IPC_FLAG_PRIO, sem_waiters = []\<rparr>\<rparr>"
    by (simp add: rt_system_timer_thread_init_def rt_sem_init_def sem_object_init_def
        rt_sem_control_def RT_SEM_VALUE_MAX_def Let_def split: prod.splits)
  then have l: "soft_timer_list (ty_t y) = []" by simp
  show "timer_wf P B L one y"
    using assms l by (auto simp: timer_wf_def timer_boot_def list_wf_def listed_def)
  have "stat (threads (tm_kernel (ty_t y)) tt) \<in> {RT_THREAD_READY, RT_THREAD_RUNNING}"
    "\<not> sched_flag_ttmr_set (threads (tm_kernel (ty_t y)) tt)" "ty_pc y = TmCheck"
    using assms by (simp_all add: timer_boot_def)
  then show "timer_wake tt y" using s by (auto simp: timer_wake_def sem_idle_def suspended_iff)
qed

lemma timer_reach_wf:
  assumes "timer_boot tt y0" "timer_reach P B L one tt y0 y"
    and B: "B < 0x7FFFFFFF" "L < 0x7FFFFFFF" "B + L \<le> 0x80000001"
  shows "timer_wf P B L one y" "1 \<le> P \<Longrightarrow> timer_wake tt y"
proof -
  have "timer_wf P B L one y \<and> (1 \<le> P \<longrightarrow> timer_wake tt y)"
    using assms(2)
  proof induction
    case base then show ?case using timer_boot_wf [OF assms(1)] by blast
  next
    case (step y z) then show ?case using timer_step_wf [OF step(2) _ B] step_wake [OF step(2) _ _ _ B(1,2)] by blast
  qed
  then show "timer_wf P B L one y" "1 \<le> P \<Longrightarrow> timer_wake tt y" by blast+
qed

section \<open>A pass of the timer thread\<close>

lemma check_turns:
  assumes "list_wf P B L s n due" "expired_list s = []" and B: "B < 0x7FFFFFFF" "L < 0x7FFFFFFF" "B + L \<le> 0x80000001"
    and P: "1 \<le> P"
  shows "\<exists>s' due'. timer_check s = Some (filter (\<lambda>i. due i \<le> n) (soft_timer_list s), s') \<and> list_wf P B L s' n due' \<and>
    expired_list s' = [] \<and> (\<forall>i\<in>set (soft_timer_list s'). n < due' i) \<and>
    set (soft_timer_list s') = {i \<in> set (soft_timer_list s). n < due i \<or> periodic s i} \<and>
    (\<forall>i. due' i = (if i \<in> set (soft_timer_list s) \<and> due i \<le> n \<and> periodic s i then n + period s i else due i))"
  using assms(1,2)
proof (induction "length (filter (\<lambda>i. due i \<le> n) (soft_timer_list s))" arbitrary: s due)
  case 0
  note d = list_wfD [OF 0(2)]
  have f: "filter (\<lambda>i. due i \<le> n) (soft_timer_list s) = []" using 0(1) by simp
  then have late: "\<forall>i\<in>set (soft_timer_list s). n < due i" by (auto simp: filter_empty_conv)
  have "timer_check_turn s = None" unfolding turn_eq [OF 0(2,3) B(1,2)] using late by (auto split: list.splits)
  then show ?case using timer_check_Nil 0(2,3) late f by (intro exI [of _ s] exI [of _ due]) auto
next
  case (Suc m)
  note d = list_wfD [OF Suc(3)]
  obtain j where j: "j \<in> set (soft_timer_list s)" "due j \<le> n"
    using Suc(2) by (metis (mono_tags, lifting) filter_False list.size(3) nat.simps(3))
  obtain i ts where l: "soft_timer_list s = i # ts" "due i \<le> due j" by (rule head_first [OF Suc(3) j(1)])
  have i: "i \<in> set (soft_timer_list s)" "due i \<le> n" "i \<notin> set ts" using l j(2) d(1) by auto
  let ?s = "expire i s" and ?d = "n + period s i"
  have turn: "timer_check_turn s = Some (i, ?s)" unfolding turn_eq [OF Suc(3,4) B(1,2)] using l i(2) by simp
  note e = expire_wf(1) [OF Suc(3) i(1) Suc(4)]
  have ex: "expired_list ?s = [] \<or> expired_list ?s = [i]" by simp
  note af = after_wf [OF e ex B(1,3)]
  have act: "activated s i" using d(6) [OF i(1)] by blast
  then have r: "timer_restarts i ?s \<longleftrightarrow> periodic s i" by (auto simp: timer_restarts_def)
  have later: "n < ?d" using d(7) [OF act] P by linarith
  let ?s2 = "timer_check_after i ?s" and ?due = "if periodic s i then due(i := ?d) else due"
  have wf2: "list_wf P B L ?s2 n ?due" using af(1) r by (cases "periodic s i") simp_all
  have l2: "soft_timer_list ?s2 = (if periodic s i then filter (\<lambda>t. due t \<le> ?d) ts @ i # filter (\<lambda>t. ?d < due t) ts else ts)"
  proof (cases "periodic s i")
    case True
    have u: "timer_check_after i ?s = timer_start i (unlink i ?s)"
      using True act by (simp add: timer_check_after_def)
    have p: "P \<le> period (unlink i ?s) i" "period (unlink i ?s) i \<le> B" using d(7) [OF act] by simp_all
    have "remove1 i (soft_timer_list (unlink i ?s)) = ts" using l i(3) by (simp add: remove1_idem)
    then show ?thesis using timer_start_wf(3) [OF unlink_wf(1) [OF e] p B(1,3)] True unfolding u by (simp add: Let_def)
  next
    case False
    then have "timer_check_after i ?s = timer_remove i ?s" by (simp add: timer_check_after_def)
    then show ?thesis using False l i(3) by (simp add: remove1_idem)
  qed
  have "filter (\<lambda>t. ?due t \<le> n) (soft_timer_list ?s2) = filter (\<lambda>t. due t \<le> n) ts"
  proof (cases "periodic s i")
    case True
    have a: "filter (\<lambda>t. (due(i := ?d)) t \<le> n) (filter (\<lambda>t. due t \<le> ?d) ts) = filter (\<lambda>t. due t \<le> n) ts"
      unfolding filter_filter by (rule filter_cong) (use later i(3) in auto)
    have b: "filter (\<lambda>t. (due(i := ?d)) t \<le> n) (filter (\<lambda>t. ?d < due t) ts) = []"
      using later i(3) by (auto simp: filter_empty_conv)
    have "filter (\<lambda>t. (due(i := ?d)) t \<le> n) (soft_timer_list ?s2) = filter (\<lambda>t. due t \<le> n) ts"
      unfolding l2 if_P [OF True] filter_append filter.simps a b using later by simp
    then show ?thesis using True by simp
  qed (simp add: l2)
  moreover have "filter (\<lambda>t. due t \<le> n) (soft_timer_list s) = i # filter (\<lambda>t. due t \<le> n) ts" using l i(2) by simp
  ultimately have f: "filter (\<lambda>t. due t \<le> n) (soft_timer_list s) = i # filter (\<lambda>t. ?due t \<le> n) (soft_timer_list ?s2)" by simp
  then have m: "m = length (filter (\<lambda>t. ?due t \<le> n) (soft_timer_list ?s2))" using Suc(2) by simp
  obtain s' due' where s': "timer_check ?s2 = Some (filter (\<lambda>t. ?due t \<le> n) (soft_timer_list ?s2), s')"
    "list_wf P B L s' n due'" "expired_list s' = []" "\<forall>i\<in>set (soft_timer_list s'). n < due' i"
    "set (soft_timer_list s') = {t \<in> set (soft_timer_list ?s2). n < ?due t \<or> periodic ?s2 t}"
    "\<forall>t. due' t = (if t \<in> set (soft_timer_list ?s2) \<and> ?due t \<le> n \<and> periodic ?s2 t then n + period ?s2 t else ?due t)"
    using Suc(1) [OF m wf2 af(3)] by blast
  have c: "timer_check s = Some (filter (\<lambda>t. due t \<le> n) (soft_timer_list s), s')"
    unfolding f by (rule timer_check_Cons [OF turn s'(1)])
  have pe: "periodic ?s2 t \<longleftrightarrow> periodic s t" "period ?s2 t = period s t" for t
    by (simp_all add: timer_check_after_def Let_def)
  have set2: "set (soft_timer_list ?s2) = (if periodic s i then insert i (set ts) else set ts)"
    unfolding l2 by (auto simp: not_le)
  have "set (soft_timer_list s') = {t \<in> set (soft_timer_list s). n < due t \<or> periodic s t}"
    unfolding s'(5) set2 pe l(1) using i(2,3) later by auto
  moreover have "\<forall>t. due' t = (if t \<in> set (soft_timer_list s) \<and> due t \<le> n \<and> periodic s t then n + period s t else due t)"
    unfolding set2 pe l(1) using s'(6) i(2,3) later unfolding set2 pe by auto
  ultimately show ?case using c s'(2-4) by blast
qed


section \<open>A run\<close>

fun timer_run :: "(timer_sys \<Rightarrow> timer_sys option) list \<Rightarrow> timer_sys \<Rightarrow> timer_sys option" where
  "timer_run [] y = Some y"
| "timer_run (f # fs) y = (case f y of None \<Rightarrow> None | Some y' \<Rightarrow> timer_run fs y')"

definition create_timer :: "timer_id \<Rightarrow> u32 \<Rightarrow> byte \<Rightarrow> timer_sys \<Rightarrow> timer_sys option" where
  "create_timer i time flag y =
    (if i \<in> set (soft_timer_list (ty_t y)) \<or> i \<in> set (expired_list (ty_t y)) then None
     else map_option (\<lambda>s. y\<lparr>ty_t := s\<rparr>) (rt_timer_init i 1 0 time flag (ty_t y)))"

definition start_timer :: "nat \<Rightarrow> nat \<Rightarrow> tid \<Rightarrow> timer_id \<Rightarrow> timer_sys \<Rightarrow> timer_sys option" where
  "start_timer P B tt i y =
    (if P \<le> period (ty_t y) i \<and> period (ty_t y) i \<le> B \<and> i \<noteq> Thread_Timer tt
     then map_option (\<lambda>s. y\<lparr>ty_t := s, ty_due := (ty_due y)(i := ty_now y + period (ty_t y) i)\<rparr>) (rt_timer_start i (ty_t y))
     else None)"

definition pass_tick :: "nat \<Rightarrow> timer_sys \<Rightarrow> timer_sys option" where
  "pass_tick L y =
    (if \<forall>i\<in>set (soft_timer_list (ty_t y)). ty_now y < ty_due y i + L
     then Some (y\<lparr>ty_t := rt_tick_increase (ty_t y), ty_now := Suc (ty_now y)\<rparr>) else None)"

definition run_thread :: "tid \<Rightarrow> timer_sys \<Rightarrow> timer_sys option" where
  "run_thread tt y =
    (if rt_current_thread (tm_kernel (ty_t y)) = tt \<and> stat (threads (tm_kernel (ty_t y)) tt) = RT_THREAD_RUNNING
     then timer_thread_step y else None)"

lemma timer_run_reach:
  assumes "timer_run fs y = Some y'"
    and "\<forall>f\<in>set fs. \<forall>y y'. f y = Some y' \<longrightarrow> timer_step P B L one tt y y'"
  shows "timer_reach P B L one tt y y'"
  using assms
proof (induction fs arbitrary: y)
  case (Cons f fs)
  then obtain y1 where y1: "f y = Some y1" "timer_run fs y1 = Some y'" by (auto split: option.splits)
  have "timer_step P B L one tt y y1" using Cons.prems(2) y1(1) by simp
  moreover have "timer_reach P B L one tt y1 y'" by (rule Cons.IH [OF y1(2)]) (use Cons.prems(2) in simp)
  ultimately show ?case by (rule converse_rtranclp_into_rtranclp)
qed simp

lemma timer_acts:
  "create_timer i time flag y = Some y' \<Longrightarrow> timer_step P B L one tt y y'"
  "start_timer P B tt i y = Some y' \<Longrightarrow> timer_step P B L one tt y y'"
  "pass_tick L y = Some y' \<Longrightarrow> timer_step P B L one tt y y'"
  "run_thread tt y = Some y' \<Longrightarrow> timer_step P B L one tt y y'"
  by (auto simp: create_timer_def start_timer_def pass_tick_def run_thread_def intro: timer_step.intros split: if_splits)

definition timer_demo :: timer_sys where
  "timer_demo = \<lparr>ty_t = the (rt_system_timer_thread_init
      \<lparr>rt_tick = 0, timers = (\<lambda>i. \<lparr>tm_flag = 0, timeout_func = 0, tm_parameter = 0, tm_init_tick = 0, timeout_tick = 0\<rparr>),
       soft_timer_list = [], expired_list = [], soft_timer_sem = sem_object_init 0 RT_IPC_FLAG_PRIO 1,
       tm_kernel = \<lparr>rt_current_thread = 1, threads = (\<lambda>t. \<lparr>current_priority = 4, thread_error = 0, stat = RT_THREAD_RUNNING,
         sched_flag_ttmr_set = False, timer_activated = False, init_tick = 0\<rparr>)\<rparr>\<rparr>),
     ty_now = 0, ty_due = (\<lambda>i. 0), ty_pc = TmCheck\<rparr>"

text \<open>
  Two timers, one periodic, one thread timer; the timer thread sleeps,
  and three ticks later the first one is due.
\<close>

definition timer_demo_sleep :: "(timer_sys \<Rightarrow> timer_sys option) list" where
  "timer_demo_sleep = [create_timer (Sys_Timer 0) 3 2, create_timer (Thread_Timer 2) 5 8,
     start_timer 1 1000 1 (Thread_Timer 2), start_timer 1 1000 1 (Sys_Timer 0), run_thread 1, run_thread 1]"

definition timer_demo_due :: "(timer_sys \<Rightarrow> timer_sys option) list" where
  "timer_demo_due = timer_demo_sleep @ [pass_tick 10, pass_tick 10, pass_tick 10, run_thread 1]"

lemma timer_demo_boot: "timer_boot 1 timer_demo"
proof -
  have "\<exists>s. rt_system_timer_thread_init s = Some (ty_t timer_demo)"
    by (rule exI [of _ "ty_t timer_demo"])
      (simp add: timer_demo_def rt_system_timer_thread_init_def rt_sem_init_def sem_object_init_def rt_sem_control_def
        RT_SEM_VALUE_MAX_def Let_def)
  then show ?thesis
    by (auto simp: timer_boot_def timer_demo_def rt_system_timer_thread_init_def rt_sem_init_def sem_object_init_def
        rt_sem_control_def RT_SEM_VALUE_MAX_def Let_def timer_is_def)
qed

lemma timer_demo_reach:
  assumes "timer_run fs timer_demo = Some y" "fs = timer_demo_sleep \<or> fs = timer_demo_due"
  shows "timer_reach 1 1000 10 False 1 timer_demo y"
  by (rule timer_run_reach [OF assms(1)])
    (use assms(2) in \<open>auto simp: timer_demo_sleep_def timer_demo_due_def intro: timer_acts\<close>)

lemma timer_demo_sleeps:
  obtains y where "timer_reach 1 1000 10 False 1 timer_demo y" "ty_pc y = TmWait" "ty_now y = 0"
    "rt_sched_thread_is_suspended (tm_kernel (ty_t y)) 1"
    "soft_timer_list (ty_t y) = [Sys_Timer 0, Thread_Timer 2]"
proof -
  have "map_option (\<lambda>y. (ty_pc y, ty_now y, rt_sched_thread_is_suspended (tm_kernel (ty_t y)) 1, soft_timer_list (ty_t y)))
      (timer_run timer_demo_sleep timer_demo) = Some (TmWait, 0, True, [Sys_Timer 0, Thread_Timer 2])"
    by code_simp
  then show thesis using that timer_demo_reach by auto
qed

lemma timer_demo_is_due:
  obtains y where "timer_reach 1 1000 10 False 1 timer_demo y" "ty_pc y = TmCheck" "ty_now y = 3"
    "soft_timer_list (ty_t y) = [Sys_Timer 0, Thread_Timer 2]" "ty_due y (Sys_Timer 0) = 3"
    "ty_due y (Thread_Timer 2) = 5" "periodic (ty_t y) (Sys_Timer 0)"
    "rt_current_thread (tm_kernel (ty_t y)) = 1" "stat (threads (tm_kernel (ty_t y)) 1) = RT_THREAD_RUNNING"
proof -
  have "map_option (\<lambda>y. (ty_pc y, ty_now y, soft_timer_list (ty_t y), ty_due y (Sys_Timer 0), ty_due y (Thread_Timer 2),
      periodic (ty_t y) (Sys_Timer 0), rt_current_thread (tm_kernel (ty_t y)), stat (threads (tm_kernel (ty_t y)) 1)))
      (timer_run timer_demo_due timer_demo) =
    Some (TmCheck, 3, [Sys_Timer 0, Thread_Timer 2], 3, 5, True, 1, RT_THREAD_RUNNING)"
    by code_simp
  then show thesis using that timer_demo_reach by auto
qed


section \<open>Limits\<close>

text \<open>
  A timer of the longest period that rt_timer_init allows, started while another timer is overdue
  by at least four ticks, goes in front of it, and the check then finds nothing to do.
\<close>

lemma timer_longest_period_overtakes:
  assumes l: "soft_timer_list s = [i]" and j: "j \<noteq> i" and p: "tm_init_tick (timers s j) = RT_TICK_MAX div 2 - 1"
    and due: "timeout_tick (timers s i) = rt_tick s - of_nat k" and k: "4 \<le> k" "k < 0x7FFFFFFF"
  shows "soft_timer_list (timer_start j s) = [j, i]" "timer_check_turn (timer_start j s) = None"
proof -
  have "(rt_tick s - of_nat k) - (rt_tick s + 0x7FFFFFFE) = (of_nat (0x80000002 - k) :: u32)"
    using k by (simp add: of_nat_diff)
  moreover have "unat (of_nat (0x80000002 - k) :: u32) = 0x80000002 - k"
    using k by (simp add: unat_of_nat del: of_nat_diff)
  ultimately have u: "unat ((rt_tick s - of_nat k) - (rt_tick s + 0x7FFFFFFE)) = 0x80000002 - k" by metis
  have p': "tm_init_tick (timers s j) = 0x7FFFFFFE" using p by (simp add: RT_TICK_MAX_def)
  have "(rt_tick s - of_nat k) - (rt_tick s + 0x7FFFFFFE) \<noteq> 0"
    "(rt_tick s - of_nat k) - (rt_tick s + 0x7FFFFFFE) < RT_TICK_MAX div 2"
    using u k unfolding word_less_nat_alt by (auto simp: RT_TICK_MAX_def word_unat_eq_iff)
  then show h: "soft_timer_list (timer_start j s) = [j, i]"
    using l j due by (simp add: start_list p')
  have "rt_tick s - (rt_tick s + 0x7FFFFFFE) = (0x80000002 :: u32)" by simp
  then show "timer_check_turn (timer_start j s) = None"
    using h by (simp add: timer_check_turn_def p' RT_TICK_MAX_def)
qed

text \<open>
  A timer of period 0 that is started when the tick is at its maximum: rt_timer_check compares the
  ticks as numbers, so it does not wake the timer thread before the tick has gone round once.
\<close>

lemma tick_without_release:
  assumes "soft_timer_list s = [i]" "\<not> timeout_tick (timers s i) \<le> rt_tick s + 1"
  shows "rt_tick_increase s = s\<lparr>rt_tick := rt_tick s + 1\<rparr>"
  using assms by (simp add: rt_tick_increase_def rt_tick_increase_tick_def rt_timer_check_def timer_list_next_timeout_def)

lemma timer_missed_at_wrap:
  assumes "soft_timer_list s = []" "tm_init_tick (timers s i) = 0" "rt_tick s = RT_TICK_MAX" "k < 0xFFFFFFFF"
  shows "soft_timer_sem ((rt_tick_increase ^^ k) (timer_start i s)) = soft_timer_sem s \<and>
    tm_kernel ((rt_tick_increase ^^ k) (timer_start i s)) = tm_kernel s"
proof -
  let ?s = "timer_start i s"
  have l: "soft_timer_list ?s = [i]" using assms(1) by (simp add: start_list)
  have "(rt_tick_increase ^^ k) ?s = ?s\<lparr>rt_tick := rt_tick s + of_nat k\<rparr>" using assms(4)
  proof (induction k)
    case (Suc k)
    then have IH: "(rt_tick_increase ^^ k) ?s = ?s\<lparr>rt_tick := rt_tick s + of_nat k\<rparr>" by simp
    have t: "rt_tick s + of_nat k + 1 = of_nat k" using assms(3) by (simp add: RT_TICK_MAX_def)
    have "unat (of_nat k :: u32) < 0xFFFFFFFF" using Suc(2) by (simp add: unat_of_nat)
    then have "\<not> RT_TICK_MAX \<le> rt_tick s + of_nat k + 1"
      unfolding t by (simp add: RT_TICK_MAX_def word_le_nat_alt)
    then have "rt_tick_increase (?s\<lparr>rt_tick := rt_tick s + of_nat k\<rparr>) = ?s\<lparr>rt_tick := rt_tick s + of_nat k + 1\<rparr>"
      using tick_without_release [of "?s\<lparr>rt_tick := rt_tick s + of_nat k\<rparr>" i] l assms(2,3) by simp
    then show ?case using IH by (simp add: algebra_simps)
  qed (use assms in simp)
  then show ?thesis by simp
qed

text \<open>
  RT_TIMER_CTRL_SET_ONESHOT from the timeout function of a periodic timer: afterwards the timer is
  in no list but still marked as activated.
\<close>

lemma timer_oneshot_in_callback_stays_active:
  assumes "expired_list s = [i]" "i \<notin> set (soft_timer_list s)" "activated s i"
    and "rt_timer_control RT_TIMER_CTRL_SET_ONESHOT arg i s = Some (v, s')"
  shows "i \<notin> set (soft_timer_list (timer_check_after i s'))" "activated (timer_check_after i s') i"
  using assms by (auto simp: rt_timer_control_def timer_check_after_def remove1_idem)

section \<open>Thread timers\<close>

text \<open>The thread timers as the IPC objects see them: two fields of the thread block.\<close>

definition timer_view :: "timer_state \<Rightarrow> rt_kernel" where
  "timer_view s = (tm_kernel s)\<lparr>threads := (\<lambda>t. (threads (tm_kernel s) t)\<lparr>
     timer_activated := activated s (Thread_Timer t), init_tick := tm_init_tick (timers s (Thread_Timer t))\<rparr>)\<rparr>"

lemma view_simps [simp]:
  "rt_current_thread (timer_view s) = rt_current_thread (tm_kernel s)"
  "threads (timer_view s) t = (threads (tm_kernel s) t)\<lparr>timer_activated := activated s (Thread_Timer t),
     init_tick := tm_init_tick (timers s (Thread_Timer t))\<rparr>"
  by (simp_all add: timer_view_def)

lemma view_stop:
  assumes "timer_stop (Thread_Timer t) s = (r, s')"
  shows "rt_timer_stop t (timer_view s) = (timer_view s', r)"
proof (cases "activated s (Thread_Timer t)")
  case True
  then have "s' = unlink (Thread_Timer t) s" "r = RT_EOK" using assms by (auto simp: timer_stop_def)
  then show ?thesis using True
    by (auto simp: rt_timer_stop_def upd_thread_def intro!: kernel_eqI)
qed (use assms in \<open>auto simp: timer_stop_def rt_timer_stop_def\<close>)

lemma view_start:
  assumes th: "timer_is RT_TIMER_FLAG_THREAD_TIMER s (Thread_Timer t)"
    and c: "rt_timer_control RT_TIMER_CTRL_SET_TIME tick (Thread_Timer t) s = Some (v, s1)"
    and r: "rt_timer_start (Thread_Timer t) s1 = Some s'"
  shows "timer_view s' = thread_timer_start t tick (timer_view s)"
proof -
  let ?i = "Thread_Timer t"
  have s1: "s1 = upd_timer ?i (\<lambda>x. x\<lparr>tm_init_tick := tick\<rparr>) (if activated s ?i then unlink ?i s else s)"
    using c by (auto simp: rt_timer_control_def Let_def split: if_splits)
  have th1: "timer_is RT_TIMER_FLAG_THREAD_TIMER s1 ?i" using th by (simp add: s1)
  let ?k = "upd_thread t (\<lambda>th. th\<lparr>sched_flag_ttmr_set := True\<rparr>) (tm_kernel s)"
  have s': "s' = timer_start ?i (s1\<lparr>tm_kernel := ?k\<rparr>)"
    using r th1 by (cases "activated s ?i") (simp_all add: rt_timer_start_def s1)
  show ?thesis unfolding s' thread_timer_start_def
    by (rule kernel_eqI) (auto simp: s1 threads_upd_thread)
qed

lemma view_expire:
  assumes "list_wf P B L s n due" "expired_list s = []" "B < 0x7FFFFFFF" "L < 0x7FFFFFFF"
    and "timer_check_turn s = Some (Thread_Timer t, s')" "\<not> periodic s (Thread_Timer t)"
  shows "timer_view s' = timer_expire t (timer_view s)"
proof -
  have "s' = expire (Thread_Timer t) s"
    using assms(5) unfolding turn_eq [OF assms(1-4)] by (auto split: list.splits if_splits)
  moreover have "tm_init_tick (timers (expire (Thread_Timer t) s) j) = tm_init_tick (timers s j)" for j
    by (simp add: expire_def)
  ultimately show ?thesis using assms(6)
    by (auto simp: timer_expire_def threads_upd_thread intro!: kernel_eqI)
qed


section \<open>Properties\<close>

text \<open>C16
  The timer list in every interleaving of single ticks, the timer thread and calls, when started
  timers have a period of at most B ticks, no tick comes once a timer of the list is L ticks
  late, and B and L are below 0x7FFFFFFF with B + L at most 0x80000001 (half the range of the
  tick): no timer is in the list twice, it is ordered by the times the timers were started for
  although it compares wrapped 32-bit ticks, and a timer of it is activated with that time; and
  when no timer is made one-shot while its timeout function runs, an activated timer is in the
  list unless its timeout function is running.
\<close>

theorem timer_list_ordered:
  assumes "timer_boot tt y0" "timer_reach P B L one tt y0 y"
    and "B < 0x7FFFFFFF" "L < 0x7FFFFFFF" "B + L \<le> 0x80000001"
  shows "distinct (soft_timer_list (ty_t y)) \<and> sorted_wrt (\<lambda>a b. ty_due y a \<le> ty_due y b) (soft_timer_list (ty_t y)) \<and>
    (\<forall>i\<in>set (soft_timer_list (ty_t y)). activated (ty_t y) i \<and> timeout_tick (timers (ty_t y) i) = of_nat (ty_due y i)) \<and>
    (\<not> one \<longrightarrow> (\<forall>i. activated (ty_t y) i \<longrightarrow> i \<in> set (soft_timer_list (ty_t y)) \<or> ty_pc y = TmCallback i))"
proof -
  have w: "timer_wf P B L one y" by (rule timer_reach_wf(1) [OF assms])
  then have l: "list_wf P B L (ty_t y) (ty_now y) (ty_due y)" by (simp add: timer_wf_def)
  have "ty_pc y = TmCallback i" if "i \<in> set (expired_list (ty_t y))" for i
    using that w by (auto simp: timer_wf_def split: timer_pc.splits)
  then show ?thesis using list_wfD [OF l] w unfolding timer_wf_def listed_def by blast
qed

theorem timer_list_ordered_witness:
  "\<exists>y. timer_reach 1 1000 10 False 1 timer_demo y \<and> soft_timer_list (ty_t y) = [Sys_Timer 0, Thread_Timer 2] \<and>
    timeout_tick (timers (ty_t y) (Thread_Timer 2)) = of_nat (ty_due y (Thread_Timer 2))"
proof (rule timer_demo_sleeps)
  fix y assume y: "timer_reach 1 1000 10 False 1 timer_demo y" "soft_timer_list (ty_t y) = [Sys_Timer 0, Thread_Timer 2]"
  from timer_list_ordered [OF timer_demo_boot y(1)] y show ?thesis by auto
qed

text \<open>C17
  No wake-up of the timer thread is lost, when ticks come one by one, started timers have a
  period of at least one and at most B ticks, no tick comes once a timer of the list is L ticks
  late, and B and L are below 0x7FFFFFFF with B + L at most 0x80000001: while the timer thread
  sleeps on its semaphore, no timer of the list is due, whatever the interrupts and the other
  threads did and although rt_timer_check compares the ticks as plain numbers.
\<close>

theorem timer_no_lost_wakeup:
  assumes "timer_boot tt y0" "timer_reach P B L one tt y0 y" "1 \<le> P"
    and "B < 0x7FFFFFFF" "L < 0x7FFFFFFF" "B + L \<le> 0x80000001"
    and "rt_sched_thread_is_suspended (tm_kernel (ty_t y)) tt" "i \<in> set (soft_timer_list (ty_t y))"
  shows "ty_now y < ty_due y i"
  using timer_reach_wf(2) [OF assms(1,2,4-6,3)] assms(7,8) by (auto simp: timer_wake_def overdue_def not_le)

theorem timer_no_lost_wakeup_witness:
  "\<exists>y. timer_reach 1 1000 10 False 1 timer_demo y \<and> rt_sched_thread_is_suspended (tm_kernel (ty_t y)) 1 \<and>
    0 < ty_due y (Thread_Timer 2)"
proof (rule timer_demo_sleeps)
  fix y assume y: "timer_reach 1 1000 10 False 1 timer_demo y" "ty_now y = 0"
    "rt_sched_thread_is_suspended (tm_kernel (ty_t y)) 1" "soft_timer_list (ty_t y) = [Sys_Timer 0, Thread_Timer 2]"
  from timer_no_lost_wakeup [OF timer_demo_boot y(1) _ _ _ _ y(3), of "Thread_Timer 2"] y show ?thesis by auto
qed



text \<open>C31
  The timer list implements the thread timers of the model on which the IPC objects are verified:
  setting and starting, stopping and expiry of a thread timer do to the fields of the thread block
  what that model does, with the same result, and other timers change nothing there.
\<close>

theorem timer_list_implements_thread_timers:
  assumes "timer_boot tt y0" "timer_reach P B L one tt y0 y" "s = ty_t y"
    and "B < 0x7FFFFFFF" "L < 0x7FFFFFFF" "B + L \<le> 0x80000001"
  shows "(timer_stop (Thread_Timer t) s = (r, s1) \<longrightarrow> rt_timer_stop t (timer_view s) = (timer_view s1, r)) \<and>
    (timer_is RT_TIMER_FLAG_THREAD_TIMER s (Thread_Timer t) \<and>
      rt_timer_control RT_TIMER_CTRL_SET_TIME tick (Thread_Timer t) s = Some (v, s2) \<and>
      rt_timer_start (Thread_Timer t) s2 = Some s3 \<longrightarrow> timer_view s3 = thread_timer_start t tick (timer_view s)) \<and>
    (ty_pc y = TmCheck \<and> timer_check_turn s = Some (Thread_Timer t, s4) \<and> \<not> periodic s (Thread_Timer t) \<longrightarrow>
      timer_view s4 = timer_expire t (timer_view s)) \<and>
    (\<not> timer_is RT_TIMER_FLAG_THREAD_TIMER s (Sys_Timer m) \<and> rt_timer_start (Sys_Timer m) s = Some s5 \<longrightarrow>
      timer_view s5 = timer_view s)"
proof -
  have w: "timer_wf P B L one y" by (rule timer_reach_wf(1) [OF assms(1,2,4-6)])
  then have l: "list_wf P B L s (ty_now y) (ty_due y)" by (simp add: timer_wf_def assms(3))
  have e: "ty_pc y = TmCheck \<Longrightarrow> expired_list s = []" using w by (simp add: timer_wf_def assms(3))
  have "timer_view s5 = timer_view s"
    if "\<not> timer_is RT_TIMER_FLAG_THREAD_TIMER s (Sys_Timer m)" "rt_timer_start (Sys_Timer m) s = Some s5"
    using that by (auto simp: rt_timer_start_def intro!: kernel_eqI)
  then show ?thesis using view_stop view_start view_expire [OF l e assms(4,5)] by blast
qed

theorem timer_list_implements_thread_timers_witness:
  "\<exists>y s1. timer_reach 1 1000 10 False 1 timer_demo y \<and> timer_stop (Thread_Timer 2) (ty_t y) = (RT_EOK, s1) \<and>
    rt_timer_stop 2 (timer_view (ty_t y)) = (timer_view s1, RT_EOK)"
proof (rule timer_demo_sleeps)
  fix y assume y: "timer_reach 1 1000 10 False 1 timer_demo y" "soft_timer_list (ty_t y) = [Sys_Timer 0, Thread_Timer 2]"
  have "activated (ty_t y) (Thread_Timer 2)"
    using list_wfD(6) [of 1 1000 10 "ty_t y" "ty_now y" "ty_due y" "Thread_Timer 2"] timer_reach_wf(1) [OF timer_demo_boot y(1)] y(2)
    by (simp add: timer_wf_def)
  then have s: "timer_stop (Thread_Timer 2) (ty_t y) = (RT_EOK, unlink (Thread_Timer 2) (ty_t y))" by (simp add: timer_stop_def)
  then have "rt_timer_stop 2 (timer_view (ty_t y)) = (timer_view (unlink (Thread_Timer 2) (ty_t y)), RT_EOK)"
    using timer_list_implements_thread_timers [OF timer_demo_boot y(1) refl, of 2 RT_EOK "unlink (Thread_Timer 2) (ty_t y)"] by simp
  with s y(1) show ?thesis by blast
qed

end
