(* ===== verification/Thread_Sleep.thy ===== *)
theory Thread_Sleep
  imports Timer_Props
begin

text \<open>
  Sleeping: rt_thread_delay, rt_thread_mdelay and rt_thread_delay_until of rt-thread/src/thread.c
  with the tick conversions of clock.c, on the timers of Timer_List.  A call is split at
  rt_schedule, as the blocking calls of the IPC objects are.
\<close>

section \<open>Ticks\<close>

definition RT_WAITING_FOREVER :: u32 where "RT_WAITING_FOREVER = - 1"

definition rt_tick_from_millisecond :: "u32 \<Rightarrow> u32" where
  "rt_tick_from_millisecond ms = (if sint ms < 0 then RT_WAITING_FOREVER else ms)"

definition rt_tick_get_delta :: "u32 \<Rightarrow> timer_state \<Rightarrow> u32" where
  "rt_tick_get_delta base s =
    (let tnow = rt_tick s in if tnow \<ge> base then tnow - base else RT_TICK_MAX - base + tnow + 1)"

section \<open>Suspension without a list\<close>

definition tm_upd_thread :: "tid \<Rightarrow> (rt_thread \<Rightarrow> rt_thread) \<Rightarrow> timer_state \<Rightarrow> timer_state" where
  "tm_upd_thread t f s = s\<lparr>tm_kernel := upd_thread t f (tm_kernel s)\<rparr>"

definition sched_thread_timer_stop :: "tid \<Rightarrow> timer_state \<Rightarrow> int \<times> timer_state" where
  "sched_thread_timer_stop t s =
    (if sched_flag_ttmr_set (threads (tm_kernel s) t)
     then (case timer_stop (Thread_Timer t) s of
             (err, s1) \<Rightarrow> (err, tm_upd_thread t (\<lambda>th. th\<lparr>sched_flag_ttmr_set := False\<rparr>) s1))
     else (RT_EOK, s))"

definition rt_thread_suspend_with_flag :: "tid \<Rightarrow> suspend_flag \<Rightarrow> timer_state \<Rightarrow> int \<times> timer_state" where
  "rt_thread_suspend_with_flag t sf s =
    (case stat (threads (tm_kernel s) t) of
       Suspended old \<Rightarrow>
         (let s1 = (if sched_flag_ttmr_set (threads (tm_kernel s) t) then snd (sched_thread_timer_stop t s) else s);
              s2 = (if old < sf then tm_upd_thread t (\<lambda>th. th\<lparr>stat := Suspended sf\<rparr>) s1 else s1)
          in (RT_EOK, s2))
     | RT_THREAD_INIT \<Rightarrow> (- RT_ERROR, s)
     | RT_THREAD_CLOSE \<Rightarrow> (- RT_ERROR, s)
     | _ \<Rightarrow> (RT_EOK, snd (sched_thread_timer_stop t (tm_upd_thread t (\<lambda>th. th\<lparr>stat := Suspended sf\<rparr>) s))))"

text \<open>The thread timer is set and started; \<open>None\<close> is a failed assertion.\<close>

definition start_thread_timer :: "tid \<Rightarrow> u32 \<Rightarrow> timer_state \<Rightarrow> timer_state option" where
  "start_thread_timer t tick s =
    (case rt_timer_control RT_TIMER_CTRL_SET_TIME tick (Thread_Timer t) s of
       None \<Rightarrow> None
     | Some (_, s1) \<Rightarrow> rt_timer_start (Thread_Timer t) s1)"

section \<open>Delays\<close>

definition thread_sleep :: "u32 \<Rightarrow> timer_state \<Rightarrow> ipc_outcome \<times> timer_state" where
  "thread_sleep tick s =
    (if tick = 0 then (Returned (- RT_EINVAL), s)
     else
      (let t = rt_current_thread (tm_kernel s);
           s1 = tm_upd_thread t (\<lambda>th. th\<lparr>thread_error := RT_EOK\<rparr>) s
       in case rt_thread_suspend_with_flag t RT_INTERRUPTIBLE s1 of
            (err, s2) \<Rightarrow>
              if err = RT_EOK
              then (case start_thread_timer t tick s2 of
                      None \<Rightarrow> (Halted, s2)
                    | Some s3 \<Rightarrow> (Blocked, tm_upd_thread t (\<lambda>th. th\<lparr>thread_error := - RT_EINTR\<rparr>) s3))
              else (Returned err, s2)))"

text \<open>What the thread does when it runs again; the result is the one of the suspension.\<close>

definition thread_sleep_resumed :: "tid \<Rightarrow> timer_state \<Rightarrow> int \<times> timer_state" where
  "thread_sleep_resumed t s =
    (RT_EOK, if thread_error (threads (tm_kernel s) t) = - RT_ETIMEOUT
             then tm_upd_thread t (\<lambda>th. th\<lparr>thread_error := RT_EOK\<rparr>) s else s)"

definition rt_thread_delay :: "u32 \<Rightarrow> timer_state \<Rightarrow> ipc_outcome \<times> timer_state" where
  "rt_thread_delay = thread_sleep"

definition rt_thread_mdelay :: "u32 \<Rightarrow> timer_state \<Rightarrow> ipc_outcome \<times> timer_state" where
  "rt_thread_mdelay ms = thread_sleep (rt_tick_from_millisecond ms)"

text \<open>The caller's \<open>*tick\<close> is an argument and a result.\<close>

definition rt_thread_delay_until :: "u32 \<Rightarrow> u32 \<Rightarrow> timer_state \<Rightarrow> ipc_outcome \<times> u32 \<times> timer_state" where
  "rt_thread_delay_until tick inc_tick s =
    (let t = rt_current_thread (tm_kernel s);
         s1 = tm_upd_thread t (\<lambda>th. th\<lparr>thread_error := RT_EOK\<rparr>) s;
         cur_tick = rt_tick s
     in if cur_tick - tick < inc_tick
        then
         (let tick' = tick + inc_tick;
              left_tick = tick' - cur_tick;
              s2 = snd (rt_thread_suspend_with_flag t RT_UNINTERRUPTIBLE s1)
          in case start_thread_timer t left_tick s2 of
               None \<Rightarrow> (Halted, tick', s2)
             | Some s3 \<Rightarrow> (Blocked, tick', s3))
        else (Returned RT_EOK, cur_tick, s1))"

definition delay_until_resumed :: "tid \<Rightarrow> timer_state \<Rightarrow> int \<times> timer_state" where
  "delay_until_resumed t s =
    (let s1 = (if thread_error (threads (tm_kernel s) t) = - RT_ETIMEOUT
               then tm_upd_thread t (\<lambda>th. th\<lparr>thread_error := RT_EOK\<rparr>) s else s)
     in (thread_error (threads (tm_kernel s1) t), s1))"

section \<open>What a delay arms\<close>

lemma tm_upd_simps [simp]:
  "timers (tm_upd_thread t f s) = timers s" "rt_tick (tm_upd_thread t f s) = rt_tick s"
  "soft_timer_list (tm_upd_thread t f s) = soft_timer_list s" "expired_list (tm_upd_thread t f s) = expired_list s"
  "tm_kernel (tm_upd_thread t f s) = upd_thread t f (tm_kernel s)" "timer_is g (tm_upd_thread t f s) = timer_is g s"
  by (simp_all add: tm_upd_thread_def)

text \<open>The thread sleeps, and its timer is armed for \<open>d\<close>.\<close>

definition sleeps_until :: "tid \<Rightarrow> u32 \<Rightarrow> timer_state \<Rightarrow> bool" where
  "sleeps_until t d s \<longleftrightarrow> rt_sched_thread_is_suspended (tm_kernel s) t \<and> sched_flag_ttmr_set (threads (tm_kernel s) t) \<and>
    Thread_Timer t \<in> set (soft_timer_list s) \<and> activated s (Thread_Timer t) \<and> timeout_tick (timers s (Thread_Timer t)) = d"

lemma suspend_running_self:
  assumes "stat (threads (tm_kernel s) t) = RT_THREAD_RUNNING" "rt_thread_suspend_with_flag t sf s = (err, s')"
  shows "err = RT_EOK" "rt_sched_thread_is_suspended (tm_kernel s') t" "rt_tick s' = rt_tick s"
    "distinct (soft_timer_list s) \<Longrightarrow> distinct (soft_timer_list s')"
    "timer_is RT_TIMER_FLAG_THREAD_TIMER s' = timer_is RT_TIMER_FLAG_THREAD_TIMER s"
  using assms
  by (auto simp: rt_thread_suspend_with_flag_def sched_thread_timer_stop_def timer_stop_def suspended_iff
      threads_upd_thread fun_eq_iff split: prod.splits if_splits)

lemma start_thread_timer_sleeps:
  assumes "timer_is RT_TIMER_FLAG_THREAD_TIMER s (Thread_Timer t)" "tick < RT_TICK_MAX div 2" "distinct (soft_timer_list s)"
    and "rt_sched_thread_is_suspended (tm_kernel s) t"
  shows "\<exists>s'. start_thread_timer t tick s = Some s' \<and> sleeps_until t (rt_tick s + tick) s'"
proof -
  let ?i = "Thread_Timer t"
  obtain s1 where s1: "rt_timer_control RT_TIMER_CTRL_SET_TIME tick ?i s = Some (tick, s1)"
    "s1 = upd_timer ?i (\<lambda>x. x\<lparr>tm_init_tick := tick\<rparr>) (if activated s ?i then unlink ?i s else s)"
    using assms(2) by (simp add: rt_timer_control_def Let_def)
  have f: "timer_is RT_TIMER_FLAG_THREAD_TIMER s1 ?i" "rt_tick s1 = rt_tick s" "distinct (soft_timer_list s1)"
    "tm_kernel s1 = tm_kernel s" "tm_init_tick (timers s1 ?i) = tick"
    using assms(1,3) by (simp_all add: s1(2))
  then show ?thesis using s1(1) assms(4) start_set [of "s1\<lparr>tm_kernel := k\<rparr>" ?i for k]
    by (simp add: start_thread_timer_def rt_timer_start_def sleeps_until_def suspended_iff)
qed

lemma start_thread_timer_halts: "\<not> tick < RT_TICK_MAX div 2 \<Longrightarrow> start_thread_timer t tick s = None"
  by (simp add: start_thread_timer_def rt_timer_control_def Let_def)

lemma sleep_running:
  assumes r: "stat (threads (tm_kernel s) (rt_current_thread (tm_kernel s))) = RT_THREAD_RUNNING"
    and t: "timer_is RT_TIMER_FLAG_THREAD_TIMER s (Thread_Timer (rt_current_thread (tm_kernel s)))" "distinct (soft_timer_list s)"
  shows "0 < tick \<Longrightarrow> tick < RT_TICK_MAX div 2 \<Longrightarrow>
      \<exists>s'. thread_sleep tick s = (Blocked, s') \<and> sleeps_until (rt_current_thread (tm_kernel s)) (rt_tick s + tick) s'"
    and "RT_TICK_MAX div 2 \<le> tick \<Longrightarrow> fst (thread_sleep tick s) = Halted"
    and "rt_tick s - d < inc \<Longrightarrow> inc < RT_TICK_MAX div 2 \<Longrightarrow>
      \<exists>s'. rt_thread_delay_until d inc s = (Blocked, d + inc, s') \<and> sleeps_until (rt_current_thread (tm_kernel s)) (d + inc) s'"
proof -
  let ?t = "rt_current_thread (tm_kernel s)" and ?s1 = "tm_upd_thread (rt_current_thread (tm_kernel s)) (\<lambda>th. th\<lparr>thread_error := RT_EOK\<rparr>) s"
  have r1: "stat (threads (tm_kernel ?s1) ?t) = RT_THREAD_RUNNING" using r by simp
  have su: "\<exists>s2. rt_thread_suspend_with_flag ?t sf ?s1 = (RT_EOK, s2) \<and> rt_sched_thread_is_suspended (tm_kernel s2) ?t \<and>
      rt_tick s2 = rt_tick s \<and> distinct (soft_timer_list s2) \<and> timer_is RT_TIMER_FLAG_THREAD_TIMER s2 (Thread_Timer ?t)" for sf
  proof -
    obtain err s2 where su: "rt_thread_suspend_with_flag ?t sf ?s1 = (err, s2)" by fastforce
    show ?thesis using suspend_running_self [OF r1 su] su t by simp
  qed
  have keep: "sleeps_until ?t e (tm_upd_thread ?t (\<lambda>th. th\<lparr>thread_error := x\<rparr>) s')" if "sleeps_until ?t e s'" for e x s'
    using that by (simp add: sleeps_until_def suspended_iff)
  obtain s2 where s2: "rt_thread_suspend_with_flag ?t RT_INTERRUPTIBLE ?s1 = (RT_EOK, s2)"
      "rt_sched_thread_is_suspended (tm_kernel s2) ?t" "rt_tick s2 = rt_tick s" "distinct (soft_timer_list s2)"
      "timer_is RT_TIMER_FLAG_THREAD_TIMER s2 (Thread_Timer ?t)" using su by blast
  show "\<exists>s'. thread_sleep tick s = (Blocked, s') \<and> sleeps_until ?t (rt_tick s + tick) s'"
    if "0 < tick" "tick < RT_TICK_MAX div 2"
    using start_thread_timer_sleeps [OF s2(5) that(2) s2(4,2)] s2(1,3) that(1) keep
    by (auto simp: thread_sleep_def Let_def)
  show "fst (thread_sleep tick s) = Halted" if "RT_TICK_MAX div 2 \<le> tick"
  proof -
    have "tick \<noteq> 0" using that by (auto simp: RT_TICK_MAX_def)
    moreover have "\<not> tick < RT_TICK_MAX div 2" using that by simp
    ultimately show ?thesis using s2(1) by (simp add: thread_sleep_def Let_def start_thread_timer_halts)
  qed
  obtain s3 where s3: "rt_thread_suspend_with_flag ?t RT_UNINTERRUPTIBLE ?s1 = (RT_EOK, s3)"
      "rt_sched_thread_is_suspended (tm_kernel s3) ?t" "rt_tick s3 = rt_tick s" "distinct (soft_timer_list s3)"
      "timer_is RT_TIMER_FLAG_THREAD_TIMER s3 (Thread_Timer ?t)" using su by blast
  show "\<exists>s'. rt_thread_delay_until d inc s = (Blocked, d + inc, s') \<and> sleeps_until ?t (d + inc) s'"
    if "rt_tick s - d < inc" "inc < RT_TICK_MAX div 2"
  proof -
    have e: "d + inc - rt_tick s = inc - (rt_tick s - d)" by simp
    have "inc - (rt_tick s - d) \<le> inc" using that(1) by (simp add: word_le_nat_alt word_less_nat_alt unat_sub)
    then have "d + inc - rt_tick s < RT_TICK_MAX div 2" unfolding e using that(2) by (rule le_less_trans)
    from start_thread_timer_sleeps [OF s3(5) this s3(4,2)] show ?thesis
      using s3(1,3) that(1) by (auto simp: rt_thread_delay_until_def Let_def)
  qed
qed


section \<open>Properties\<close>

text \<open>C32
  Delays last what they say.  A running thread that calls rt_thread_delay or rt_thread_mdelay
  sleeps with its timer armed for the present tick plus the delay; rt_thread_delay_until arms it
  for the previous deadline plus the period, however late in the period the call comes, so a
  periodic thread does not drift, and returns at once when that deadline has passed.  A delay of 0
  is refused; one of half the tick range or more, which includes every negative number of
  milliseconds, fails an assertion.
\<close>

theorem delays_are_exact:
  assumes "t = rt_current_thread (tm_kernel s)" "stat (threads (tm_kernel s) t) = RT_THREAD_RUNNING"
    and "timer_is RT_TIMER_FLAG_THREAD_TIMER s (Thread_Timer t)" "distinct (soft_timer_list s)"
  shows "(0 < tick \<and> tick < RT_TICK_MAX div 2 \<longrightarrow>
      (\<exists>s'. rt_thread_delay tick s = (Blocked, s') \<and> sleeps_until t (rt_tick s + tick) s')) \<and>
    (0 < sint ms \<and> ms \<noteq> 0x7FFFFFFF \<longrightarrow> (\<exists>s'. rt_thread_mdelay ms s = (Blocked, s') \<and> sleeps_until t (rt_tick s + ms) s')) \<and>
    rt_thread_delay 0 s = (Returned (- RT_EINVAL), s) \<and>
    (RT_TICK_MAX div 2 \<le> tick \<longrightarrow> fst (rt_thread_delay tick s) = Halted) \<and>
    (sint ms < 0 \<longrightarrow> fst (rt_thread_mdelay ms s) = Halted) \<and>
    (rt_tick s - d < inc \<and> inc < RT_TICK_MAX div 2 \<longrightarrow>
      (\<exists>s'. rt_thread_delay_until d inc s = (Blocked, d + inc, s') \<and> sleeps_until t (d + inc) s')) \<and>
    (inc \<le> rt_tick s - d \<longrightarrow> fst (rt_thread_delay_until d inc s) = Returned RT_EOK \<and>
      fst (snd (rt_thread_delay_until d inc s)) = rt_tick s)"
proof -
  note r = sleep_running [OF assms(2-4) [unfolded assms(1)], folded assms(1)]
  have "\<exists>s'. rt_thread_mdelay ms s = (Blocked, s') \<and> sleeps_until t (rt_tick s + ms) s'"
    if m: "0 < sint ms" "ms \<noteq> 0x7FFFFFFF"
  proof -
    have l: "sint ms < 2 ^ 31" using sint_lt [of ms] by simp
    moreover have "uint ms = sint ms"
      unfolding uint_sint [of ms] using m(1) l by (intro take_bit_int_eq_self) simp_all
    ultimately have "uint ms < 0x80000000" by simp
    moreover have "uint ms \<noteq> 0x7FFFFFFF" using m(2) by (metis word_of_int_uint word_of_int_numeral)
    ultimately have "ms < RT_TICK_MAX div 2" by (simp add: word_less_def RT_TICK_MAX_def)
    moreover have "0 < ms" using m(1) by (metis sint_0 order_less_irrefl word_neq_0_conv)
    ultimately show ?thesis using r(1) m(1) by (simp add: rt_thread_mdelay_def rt_tick_from_millisecond_def)
  qed
  moreover have "fst (rt_thread_mdelay ms s) = Halted" if "sint ms < 0"
    using that r(2) [of RT_WAITING_FOREVER]
    by (simp add: rt_thread_mdelay_def rt_tick_from_millisecond_def RT_WAITING_FOREVER_def RT_TICK_MAX_def)
  moreover have "rt_thread_delay 0 s = (Returned (- RT_EINVAL), s)" by (simp add: rt_thread_delay_def thread_sleep_def)
  moreover have "fst (rt_thread_delay_until d inc s) = Returned RT_EOK \<and> fst (snd (rt_thread_delay_until d inc s)) = rt_tick s"
    if "inc \<le> rt_tick s - d"
    using that leD [OF that] by (simp add: rt_thread_delay_until_def Let_def)
  ultimately show ?thesis using r unfolding rt_thread_delay_def by blast
qed

text \<open>The demo state of Timer_Props with its two timers, at the tick 0; thread 2 runs.\<close>

theorem delays_are_exact_witness:
  "\<exists>s s' s''. rt_current_thread (tm_kernel s) = 2 \<and> rt_thread_delay 7 s = (Blocked, s') \<and>
    sleeps_until 2 (rt_tick s + 7) s' \<and> rt_thread_delay_until (rt_tick s - 3) 10 s = (Blocked, rt_tick s + 7, s'')"
proof (rule timer_demo_sleeps)
  fix y assume y: "timer_reach 1 1000 10 False 1 timer_demo y" "soft_timer_list (ty_t y) = [Sys_Timer 0, Thread_Timer 2]"
  define s where "s = upd_timer (Thread_Timer 2) (\<lambda>t. t\<lparr>tm_flag := 9\<rparr>)
    ((ty_t y)\<lparr>tm_kernel := (upd_thread 2 (\<lambda>th. th\<lparr>stat := RT_THREAD_RUNNING\<rparr>) (tm_kernel (ty_t y)))\<lparr>rt_current_thread := 2\<rparr>\<rparr>)"
  have s: "2 = rt_current_thread (tm_kernel s)" "stat (threads (tm_kernel s) 2) = RT_THREAD_RUNNING"
    "timer_is RT_TIMER_FLAG_THREAD_TIMER s (Thread_Timer 2)" "distinct (soft_timer_list s)"
    by (simp_all add: s_def y(2) timer_is_def RT_TIMER_FLAG_THREAD_TIMER_def upd_thread_def)
  have "\<exists>s' s''. rt_thread_delay 7 s = (Blocked, s') \<and> sleeps_until 2 (rt_tick s + 7) s' \<and>
      rt_thread_delay_until (rt_tick s - 3) 10 s = (Blocked, rt_tick s + 7, s'')"
  proof -
    have c: "(0 :: u32) < 7" "7 < RT_TICK_MAX div 2" "10 < RT_TICK_MAX div 2" by (simp_all add: RT_TICK_MAX_def)
    have d: "rt_tick s - (rt_tick s - 3) < 10" "rt_tick s - 3 + 10 = rt_tick s + 7" by simp_all
    show ?thesis using delays_are_exact [OF s, of 7 0 "rt_tick s - 3" 10] c d by metis
  qed
  then show ?thesis using s(1) by metis
qed

end
