(* ===== verification/Small_Mem.thy ===== *)
theory Small_Mem
  imports Wlh_Prelude
begin

text \<open>
  The heap of the firmware: the small memory algorithm of rt-thread/src/mem.c, which
  rt_malloc uses and from which the core takes its buffers.  A heap is one range of memory
  holding a doubly linked list of blocks; each block starts with an item (pool_ptr, next,
  prev, as offsets from the start of the heap) and is used or free by the lowest bit of
  pool_ptr.  Memory is a function from byte offsets to 32-bit words, so items and client data
  lie in the same memory and a write through one can destroy the other.  Pointers given to
  clients are absolute addresses, 0 is RT_NULL.

  \<open>None\<close> is a call that does not return: a failed RT_ASSERT, or a loop over a list that
  never reaches its end (the two loops are partial functions).  Small_Mem_Rep proves that
  neither happens on a heap in order.
\<close>

section \<open>State\<close>

text \<open>
  struct rt_small_mem with its memory.  heap_end and lfree are kept as offsets from heap_ptr,
  as next and prev are in the code; total is mem_size_aligned throughout.
\<close>

record small_mem =
  sm_self :: u32
  heap_ptr :: u32
  heap_end :: u32
  lfree :: u32
  mem_size_aligned :: u32
  mem_used :: u32
  mem_max :: u32
  heap :: "nat \<Rightarrow> u32"

definition MEM_MASK :: u32 where "MEM_MASK = NOT 0 - 1"

definition MEM_USED :: "u32 \<Rightarrow> u32" where "MEM_USED m = (m AND MEM_MASK) OR 1"
definition MEM_FREED :: "u32 \<Rightarrow> u32" where "MEM_FREED m = (m AND MEM_MASK) OR 0"

text \<open>sizeof(struct rt_small_mem_item) is 12 without RT_USING_MEMTRACE, sizeof(struct rt_small_mem) 60.\<close>

definition MIN_SIZE :: u32 where "MIN_SIZE = 12"
definition MIN_SIZE_ALIGNED :: u32 where "MIN_SIZE_ALIGNED = RT_ALIGN MIN_SIZE RT_ALIGN_SIZE"
definition SIZEOF_STRUCT_MEM :: u32 where "SIZEOF_STRUCT_MEM = RT_ALIGN 12 RT_ALIGN_SIZE"
definition sizeof_rt_small_mem :: u32 where "sizeof_rt_small_mem = 60"

text \<open>The members of the item at an offset.\<close>

definition item_pool_ptr :: "small_mem \<Rightarrow> u32 \<Rightarrow> u32" where
  "item_pool_ptr m p = heap m (unat p)"

definition item_next :: "small_mem \<Rightarrow> u32 \<Rightarrow> u32" where
  "item_next m p = heap m (unat p + 4)"

definition item_prev :: "small_mem \<Rightarrow> u32 \<Rightarrow> u32" where
  "item_prev m p = heap m (unat p + 8)"

definition set_pool_ptr :: "u32 \<Rightarrow> u32 \<Rightarrow> small_mem \<Rightarrow> small_mem" where
  "set_pool_ptr p x m = m\<lparr>heap := (heap m)(unat p := x)\<rparr>"

definition set_next :: "u32 \<Rightarrow> u32 \<Rightarrow> small_mem \<Rightarrow> small_mem" where
  "set_next p x m = m\<lparr>heap := (heap m)(unat p + 4 := x)\<rparr>"

definition set_prev :: "u32 \<Rightarrow> u32 \<Rightarrow> small_mem \<Rightarrow> small_mem" where
  "set_prev p x m = m\<lparr>heap := (heap m)(unat p + 8 := x)\<rparr>"

definition MEM_ISUSED :: "small_mem \<Rightarrow> u32 \<Rightarrow> bool" where
  "MEM_ISUSED m p \<longleftrightarrow> item_pool_ptr m p AND NOT MEM_MASK \<noteq> 0"

definition MEM_POOL :: "small_mem \<Rightarrow> u32 \<Rightarrow> u32" where
  "MEM_POOL m p = item_pool_ptr m p AND MEM_MASK"

section \<open>Operations\<close>

text \<open>The three writes that join a block with the one behind it, the same in both directions.\<close>

definition smem_join :: "u32 \<Rightarrow> u32 \<Rightarrow> small_mem \<Rightarrow> small_mem" where
  "smem_join mem nmem m =
    (let m1 = set_pool_ptr nmem 0 m;
         m2 = set_next mem (item_next m1 nmem) m1
     in set_prev (item_next m2 nmem) mem m2)"

definition plug_forward :: "u32 \<Rightarrow> small_mem \<Rightarrow> small_mem" where
  "plug_forward mem m =
    (let nmem = item_next m mem
     in if mem \<noteq> nmem \<and> \<not> MEM_ISUSED m nmem \<and> nmem \<noteq> heap_end m
        then smem_join mem nmem (if lfree m = nmem then m\<lparr>lfree := mem\<rparr> else m)
        else m)"

definition plug_backward :: "u32 \<Rightarrow> small_mem \<Rightarrow> small_mem" where
  "plug_backward mem m =
    (let pmem = item_prev m mem
     in if pmem \<noteq> mem \<and> \<not> MEM_ISUSED m pmem
        then smem_join pmem mem (if lfree m = mem then m\<lparr>lfree := pmem\<rparr> else m)
        else m)"

definition plug_holes :: "u32 \<Rightarrow> small_mem \<Rightarrow> small_mem option" where
  "plug_holes mem m =
    (if heap_ptr m + mem \<ge> heap_ptr m \<and> heap_ptr m + mem < heap_ptr m + heap_end m
     then Some (plug_backward mem (plug_forward mem m)) else None)"

text \<open>\<open>M\<close> is what the memory held before; \<open>None\<close> is RT_NULL.\<close>

definition rt_smem_init :: "u32 \<Rightarrow> u32 \<Rightarrow> (nat \<Rightarrow> u32) \<Rightarrow> small_mem option" where
  "rt_smem_init begin_addr sz M =
    (let small_mem = RT_ALIGN begin_addr RT_ALIGN_SIZE;
         start_addr = small_mem + sizeof_rt_small_mem;
         begin_align = RT_ALIGN start_addr RT_ALIGN_SIZE;
         end_align = RT_ALIGN_DOWN (begin_addr + sz) RT_ALIGN_SIZE
     in if end_align > 2 * SIZEOF_STRUCT_MEM \<and> end_align - 2 * SIZEOF_STRUCT_MEM \<ge> start_addr
        then (let mem_size = end_align - begin_align - 2 * SIZEOF_STRUCT_MEM;
                  e = mem_size + SIZEOF_STRUCT_MEM;
                  m = \<lparr>sm_self = small_mem, heap_ptr = begin_align, heap_end = e, lfree = 0,
                       mem_size_aligned = mem_size, mem_used = 0, mem_max = 0, heap = M\<rparr>
              in Some (set_prev e e (set_next e e (set_pool_ptr e (MEM_USED small_mem)
                        (set_prev 0 0 (set_next 0 e (set_pool_ptr 0 (MEM_FREED small_mem) m)))))))
        else None)"

text \<open>The for loop of rt_smem_alloc: the offset of the first free block that is large enough.\<close>

partial_function (option) smem_find :: "small_mem \<Rightarrow> u32 \<Rightarrow> u32 \<Rightarrow> u32 option option" where
  "smem_find m sz ptr =
    (if ptr \<le> mem_size_aligned m - sz
     then if \<not> MEM_ISUSED m ptr \<and> item_next m ptr - (ptr + SIZEOF_STRUCT_MEM) \<ge> sz
          then Some (Some ptr)
          else smem_find m sz (item_next m ptr)
     else Some None)"

text \<open>The while loop that moves lfree to the next free block.\<close>

partial_function (option) smem_next_free :: "small_mem \<Rightarrow> u32 \<Rightarrow> u32 option" where
  "smem_next_free m p =
    (if MEM_ISUSED m p \<and> p \<noteq> heap_end m then smem_next_free m (item_next m p) else Some p)"

definition smem_account :: "u32 \<Rightarrow> small_mem \<Rightarrow> small_mem" where
  "smem_account n m =
    (let u = mem_used m + n in m\<lparr>mem_used := u, mem_max := (if mem_max m < u then u else mem_max m)\<rparr>)"

text \<open>The split of a block that leaves room for another one, and its accounting.\<close>

definition smem_split :: "u32 \<Rightarrow> u32 \<Rightarrow> small_mem \<Rightarrow> small_mem" where
  "smem_split ptr ptr2 m =
    (let m1 = set_pool_ptr ptr2 (MEM_FREED (sm_self m)) m;
         m2 = set_next ptr2 (item_next m1 ptr) m1;
         m3 = set_prev ptr2 ptr m2;
         m4 = set_next ptr ptr2 m3
     in if item_next m4 ptr2 \<noteq> mem_size_aligned m4 + SIZEOF_STRUCT_MEM
        then set_prev (item_next m4 ptr2) ptr2 m4 else m4)"

definition smem_take :: "u32 \<Rightarrow> u32 \<Rightarrow> small_mem \<Rightarrow> small_mem" where
  "smem_take ptr sz m =
    (let m1 = (if item_next m ptr - (ptr + SIZEOF_STRUCT_MEM) \<ge>
                  sz + SIZEOF_STRUCT_MEM + MIN_SIZE_ALIGNED
               then smem_account (sz + SIZEOF_STRUCT_MEM)
                      (smem_split ptr (ptr + SIZEOF_STRUCT_MEM + sz) m)
               else smem_account (item_next m ptr - ptr) m)
     in set_pool_ptr ptr (MEM_USED (sm_self m1)) m1)"

text \<open>What the loop body does with the block it has found, up to the return.\<close>

definition smem_alloc_at :: "u32 \<Rightarrow> u32 \<Rightarrow> small_mem \<Rightarrow> (u32 \<times> small_mem) option" where
  "smem_alloc_at ptr sz m =
    (let m1 = smem_take ptr sz m
     in case (if ptr = lfree m1 then smem_next_free m1 (lfree m1) else Some (lfree m1)) of
          None \<Rightarrow> None
        | Some lf \<Rightarrow>
           (let m2 = m1\<lparr>lfree := lf\<rparr>; mem = heap_ptr m2 + ptr
            in if (ptr = lfree m1 \<longrightarrow> lf = heap_end m2 \<or> \<not> MEM_ISUSED m2 lf) \<and>
                  mem + SIZEOF_STRUCT_MEM + sz \<le> heap_ptr m2 + heap_end m2 \<and>
                  (mem + SIZEOF_STRUCT_MEM) mod RT_ALIGN_SIZE = 0 \<and>
                  mem AND (RT_ALIGN_SIZE - 1) = 0
               then Some (mem + SIZEOF_STRUCT_MEM, m2) else None))"

definition rt_smem_alloc :: "u32 \<Rightarrow> small_mem \<Rightarrow> (u32 \<times> small_mem) option" where
  "rt_smem_alloc size0 m =
    (if size0 = 0 then Some (0, m)
     else
      (let size1 = RT_ALIGN size0 RT_ALIGN_SIZE;
           sz = (if size1 < MIN_SIZE_ALIGNED then MIN_SIZE_ALIGNED else size1)
       in if sz > mem_size_aligned m then Some (0, m)
          else
           (case smem_find m sz (lfree m) of
              None \<Rightarrow> None
            | Some None \<Rightarrow> Some (0, m)
            | Some (Some ptr) \<Rightarrow> smem_alloc_at ptr sz m)))"

text \<open>
  The pool an item names has to be this one: the model has one heap, and the code would
  go on with whatever address it finds.
\<close>

definition rt_smem_free :: "u32 \<Rightarrow> small_mem \<Rightarrow> small_mem option" where
  "rt_smem_free rmem m =
    (if rmem = 0 then Some m
     else
      (let mem = rmem - SIZEOF_STRUCT_MEM - heap_ptr m
       in if rmem AND (RT_ALIGN_SIZE - 1) = 0 \<and> MEM_POOL m mem \<noteq> 0 \<and> MEM_POOL m mem = sm_self m \<and>
             MEM_ISUSED m mem \<and> rmem \<ge> heap_ptr m \<and> rmem < heap_ptr m + heap_end m \<and>
             MEM_POOL m (item_next m mem) = sm_self m
          then (let m1 = set_pool_ptr mem (MEM_FREED (sm_self m)) m;
                    m2 = (if mem < lfree m1 then m1\<lparr>lfree := mem\<rparr> else m1);
                    m3 = m2\<lparr>mem_used := mem_used m2 - (item_next m2 mem - mem)\<rparr>
                in plug_holes mem m3)
          else None))"

text \<open>rt_memcpy between two blocks, on words.\<close>

definition copy_words :: "nat \<Rightarrow> nat \<Rightarrow> nat \<Rightarrow> (nat \<Rightarrow> u32) \<Rightarrow> nat \<Rightarrow> u32" where
  "copy_words dst src n M = (\<lambda>a. if dst \<le> a \<and> a < dst + n then M (src + (a - dst)) else M a)"

definition smem_shrink :: "u32 \<Rightarrow> u32 \<Rightarrow> u32 \<Rightarrow> small_mem \<Rightarrow> small_mem option" where
  "smem_shrink ptr sz newsize m =
    (let ptr2 = ptr + SIZEOF_STRUCT_MEM + newsize;
         m1 = smem_split ptr ptr2 (m\<lparr>mem_used := mem_used m - (sz - newsize)\<rparr>);
         m2 = (if ptr2 < lfree m1 then m1\<lparr>lfree := ptr2\<rparr> else m1)
     in plug_holes ptr2 m2)"

definition rt_smem_realloc :: "u32 \<Rightarrow> u32 \<Rightarrow> small_mem \<Rightarrow> (u32 \<times> small_mem) option" where
  "rt_smem_realloc rmem newsize0 m =
    (let newsize = RT_ALIGN newsize0 RT_ALIGN_SIZE
     in if newsize > mem_size_aligned m then Some (0, m)
        else if newsize = 0
        then (case rt_smem_free rmem m of None \<Rightarrow> None | Some m' \<Rightarrow> Some (0, m'))
        else if rmem = 0 then rt_smem_alloc newsize m
        else if \<not> (rmem AND (RT_ALIGN_SIZE - 1) = 0 \<and> rmem \<ge> heap_ptr m \<and>
                   rmem < heap_ptr m + heap_end m)
        then None
        else
         (let ptr = rmem - SIZEOF_STRUCT_MEM - heap_ptr m;
              sz = item_next m ptr - ptr - SIZEOF_STRUCT_MEM
          in if sz = newsize then Some (rmem, m)
             else if newsize + SIZEOF_STRUCT_MEM + MIN_SIZE < sz
             then (case smem_shrink ptr sz newsize m of
                     None \<Rightarrow> None | Some m' \<Rightarrow> Some (rmem, m'))
             else
              (case rt_smem_alloc newsize m of
                 None \<Rightarrow> None
               | Some (nmem, m1) \<Rightarrow>
                   if nmem \<noteq> 0
                   then (let m2 = m1\<lparr>heap := copy_words (unat (nmem - heap_ptr m1))
                                  (unat (rmem - heap_ptr m1))
                                  (unat (if sz < newsize then sz else newsize)) (heap m1)\<rparr>
                         in case rt_smem_free rmem m2 of None \<Rightarrow> None | Some m3 \<Rightarrow> Some (nmem, m3))
                   else Some (nmem, m1))))"

end
