(* ===== verification/Small_Mem_Rep.thy ===== *)
theory Small_Mem_Rep
  imports Small_Mem
begin

text \<open>
  What a heap in order is: the memory represents a list of blocks (size with the item, used
  or not), chained forwards and backwards, without two free neighbours, with lfree at the
  first free block and used as the sum of the used ones.  The lemmas here say how the
  elementary writes of mem.c change the list; Small_Mem_Spec builds the operations on them.
\<close>

text \<open>Offsets stay in the form \<open>of_nat (a + n)\<close>, so that the rules on \<open>unat\<close> and on comparisons apply.\<close>

declare of_nat_add [simp del] of_nat_diff [simp del] of_nat_diff_if [simp del]

section \<open>Constants and flags\<close>

lemma SIZEOF_STRUCT_MEM_eq [simp]: "SIZEOF_STRUCT_MEM = 16"
  by (simp add: SIZEOF_STRUCT_MEM_def RT_ALIGN_def RT_ALIGN_SIZE_def)

lemma MIN_SIZE_ALIGNED_eq [simp]: "MIN_SIZE_ALIGNED = 16"
  by (simp add: MIN_SIZE_ALIGNED_def MIN_SIZE_def RT_ALIGN_def RT_ALIGN_SIZE_def)

lemma MEM_MASK_eq: "MEM_MASK = NOT 1"
  by (simp add: MEM_MASK_def)

lemma used_flag [simp]: "MEM_USED x AND NOT MEM_MASK \<noteq> 0" "MEM_FREED x AND NOT MEM_MASK = 0"
proof -
  have "(MEM_USED x AND NOT MEM_MASK) = 1"
    by (rule bit_word_eqI) (auto simp: MEM_USED_def MEM_MASK_eq bit_simps)
  then show "MEM_USED x AND NOT MEM_MASK \<noteq> 0" by simp
  show "MEM_FREED x AND NOT MEM_MASK = 0"
    by (rule bit_word_eqI) (auto simp: MEM_FREED_def MEM_MASK_eq bit_simps)
qed

lemma pool_flag [simp]: "MEM_USED x AND MEM_MASK = x AND MEM_MASK" "MEM_FREED x AND MEM_MASK = x AND MEM_MASK"
  by (rule bit_word_eqI, auto simp: MEM_USED_def MEM_FREED_def MEM_MASK_eq bit_simps)+

lemma unat_of_nat_u32 [simp]: "a < 4294967296 \<Longrightarrow> unat (of_nat a :: u32) = a"
  by (simp add: unsigned_of_nat take_bit_nat_eq_self)

lemma of_nat_u32_inj [simp]:
  "a < 4294967296 \<Longrightarrow> b < 4294967296 \<Longrightarrow> (of_nat a :: u32) = of_nat b \<longleftrightarrow> a = b"
  by (metis unat_of_nat_u32)

lemma of_nat_u32_le [simp]:
  "a < 4294967296 \<Longrightarrow> b < 4294967296 \<Longrightarrow> (of_nat a :: u32) \<le> of_nat b \<longleftrightarrow> a \<le> b"
  by (simp add: word_le_nat_alt)

lemma of_nat_u32_less [simp]:
  "a < 4294967296 \<Longrightarrow> b < 4294967296 \<Longrightarrow> (of_nat a :: u32) < of_nat b \<longleftrightarrow> a < b"
  by (simp add: word_less_nat_alt)

lemma of_nat_u32_diff: "b \<le> a \<Longrightarrow> (of_nat a :: u32) - of_nat b = of_nat (a - b)"
  by (simp add: of_nat_diff)

section \<open>Lists of blocks\<close>

type_synonym block = "nat \<times> bool"

definition extent :: "block list \<Rightarrow> nat" where
  "extent bs = sum_list (map fst bs)"

lemma extent_simps [simp]:
  "extent [] = 0" "extent (b # bs) = fst b + extent bs" "extent (xs @ ys) = extent xs + extent ys"
  by (simp_all add: extent_def)

text \<open>The offset of the last block of a list that starts at \<open>o\<close>, \<open>p\<close> when it is empty.\<close>

fun last_off :: "nat \<Rightarrow> nat \<Rightarrow> block list \<Rightarrow> nat" where
  "last_off p a [] = p"
| "last_off p a (b # bs) = last_off a (a + fst b) bs"

lemma last_off_append [simp]:
  "last_off p a (xs @ ys) = last_off (last_off p a xs) (a + extent xs) ys"
  by (induction xs arbitrary: p a) (simp_all add: add.assoc)

fun chain :: "(nat \<Rightarrow> u32) \<Rightarrow> u32 \<Rightarrow> nat \<Rightarrow> nat \<Rightarrow> block list \<Rightarrow> bool" where
  "chain M pool p a [] = True"
| "chain M pool p a ((n, u) # bs) =
    (M a = (if u then MEM_USED pool else MEM_FREED pool) \<and> M (a + 4) = of_nat (a + n) \<and>
     M (a + 8) = of_nat p \<and> 24 \<le> n \<and> 8 dvd n \<and> chain M pool a (a + n) bs)"

lemma chain_append [simp]:
  "chain M pool p a (xs @ ys) \<longleftrightarrow>
    chain M pool p a xs \<and> chain M pool (last_off p a xs) (a + extent xs) ys"
proof (induction xs arbitrary: p a)
  case (Cons b xs)
  then show ?case by (cases b) (simp add: add.assoc)
qed simp

text \<open>A chain depends on the memory between its start and its end only.\<close>

lemma chain_cong:
  "(\<And>i. a \<le> i \<Longrightarrow> i < a + extent bs \<Longrightarrow> M' i = M i) \<Longrightarrow> chain M pool p a bs \<Longrightarrow> chain M' pool p a bs"
proof (induction bs arbitrary: p a)
  case (Cons b bs)
  obtain n u where b: "b = (n, u)" by (cases b)
  have "chain M' pool a (a + n) bs"
    by (rule Cons.IH) (use Cons.prems b in auto)
  then show ?case using Cons.prems b by auto
qed simp

lemma chain_upd_outside [simp]:
  "i < a \<or> a + extent bs \<le> i \<Longrightarrow> chain (M(i := x)) pool p a bs = chain M pool p a bs"
  by (rule iffI; rule chain_cong, assumption?) auto

text \<open>The previous offset of the first block is one word of it.\<close>

lemma chain_new_prev:
  "chain M pool p a (b # bs) \<Longrightarrow> chain (M(a + 8 := of_nat q)) pool q a (b # bs)"
  by (cases b) simp

definition no_free_pair :: "block list \<Rightarrow> bool" where
  "no_free_pair = successively (\<lambda>a b. snd a \<or> snd b)"

lemma no_free_pair_append:
  "no_free_pair (xs @ ys) \<longleftrightarrow> no_free_pair xs \<and> no_free_pair ys \<and>
    (xs = [] \<or> ys = [] \<or> snd (last xs) \<or> snd (hd ys))"
  by (auto simp: no_free_pair_def successively_append_iff)

lemma no_free_pair_Cons [simp]:
  "no_free_pair [] = True"
  "no_free_pair (b # bs) \<longleftrightarrow> no_free_pair bs \<and> (bs = [] \<or> snd b \<or> snd (hd bs))"
  by (auto simp: no_free_pair_def successively_Cons)

definition used_total :: "block list \<Rightarrow> nat" where
  "used_total bs = extent (filter snd bs)"

lemma used_total_simps [simp]:
  "used_total [] = 0" "used_total ((n, u) # bs) = (if u then n else 0) + used_total bs"
  "used_total (xs @ ys) = used_total xs + used_total ys"
  by (simp_all add: used_total_def)

lemma used_total_le: "used_total bs \<le> extent bs"
  by (induction bs) auto

text \<open>The offset of the first free block; the total when all blocks are used.\<close>

definition first_free :: "block list \<Rightarrow> nat" where
  "first_free bs = extent (takeWhile snd bs)"

lemma first_free_simps [simp]:
  "first_free [] = 0" "first_free ((n, u) # bs) = (if u then n + first_free bs else 0)"
  by (simp_all add: first_free_def)

lemma first_free_append:
  "first_free (xs @ ys) = (if \<forall>b\<in>set xs. snd b then extent xs + first_free ys else first_free xs)"
proof (induction xs)
  case (Cons b xs)
  then show ?case by (cases b; cases "snd b") auto
qed simp

lemma first_free_le: "first_free bs \<le> extent bs"
  by (induction bs) auto

lemma first_free_less: "\<not> (\<forall>b\<in>set xs. snd b) \<Longrightarrow> \<forall>b\<in>set xs. 0 < fst b \<Longrightarrow> first_free xs < extent xs"
proof (induction xs)
  case (Cons b xs)
  then show ?case by (cases b; cases "snd b") auto
qed simp

lemma chain_pos: "chain M pool p a bs \<Longrightarrow> b \<in> set bs \<Longrightarrow> 24 \<le> fst b \<and> 8 dvd fst b"
  by (induction bs arbitrary: p a) auto

lemma chain_total_dvd: "chain M pool p a bs \<Longrightarrow> 8 dvd extent bs"
  by (induction bs arbitrary: p a) auto

lemma chain_extent_pos: "chain M pool p a bs \<Longrightarrow> bs \<noteq> [] \<Longrightarrow> 24 \<le> extent bs"
  by (cases bs) auto

section \<open>A heap in order\<close>

text \<open>
  \<open>heap_core\<close> is the list and the fixed members, \<open>heap_rep\<close> adds what holds between the
  operations.
\<close>

definition heap_core :: "small_mem \<Rightarrow> block list \<Rightarrow> bool" where
  "heap_core m bs \<longleftrightarrow>
    bs \<noteq> [] \<and> chain (heap m) (sm_self m) 0 0 bs \<and>
    heap_end m = of_nat (extent bs) \<and> unat (mem_size_aligned m) + 16 = extent bs \<and>
    heap m (extent bs) = MEM_USED (sm_self m) \<and> heap m (extent bs + 4) = of_nat (extent bs) \<and>
    sm_self m \<noteq> 0 \<and> sm_self m AND MEM_MASK = sm_self m \<and>
    8 dvd unat (heap_ptr m) \<and> 64 \<le> unat (heap_ptr m) \<and>
    unat (heap_ptr m) + extent bs + 16 \<le> 2 ^ 32"

definition heap_rep :: "small_mem \<Rightarrow> block list \<Rightarrow> bool" where
  "heap_rep m bs \<longleftrightarrow> heap_core m bs \<and> no_free_pair bs \<and> lfree m = of_nat (first_free bs) \<and>
    mem_used m = of_nat (used_total bs) \<and> mem_used m \<le> mem_max m"

lemma heap_core_bounds:
  assumes "heap_core m bs"
  shows "extent bs + 80 \<le> 4294967296" "24 \<le> extent bs" "8 dvd extent bs"
    "mem_size_aligned m = of_nat (extent bs - 16)" "mem_size_aligned m + 16 = of_nat (extent bs)"
proof -
  have c: "chain (heap m) (sm_self m) 0 0 bs" and ne: "bs \<noteq> []"
    and hp: "8 dvd unat (heap_ptr m)" "64 \<le> unat (heap_ptr m)"
      "unat (heap_ptr m) + extent bs + 16 \<le> 2 ^ 32"
    and ms: "unat (mem_size_aligned m) + 16 = extent bs"
    using assms by (auto simp: heap_core_def)
  show "8 dvd extent bs" by (rule chain_total_dvd [OF c])
  obtain b bs' where "bs = b # bs'" using ne by (cases bs) auto
  then show "24 \<le> extent bs" using chain_pos [OF c, of b] by simp
  have ms': "unat (mem_size_aligned m) = extent bs - 16" using ms by simp
  show b: "extent bs + 80 \<le> 4294967296" using hp by simp
  then show eq: "mem_size_aligned m = of_nat (extent bs - 16)"
    unfolding word_unat_eq_iff ms' by (subst unat_of_nat_u32) simp_all
  have "(of_nat (extent bs - 16) :: u32) + of_nat 16 = of_nat (extent bs - 16 + 16)"
    by (simp only: of_nat_add)
  then show "mem_size_aligned m + 16 = of_nat (extent bs)"
    using ms unfolding eq by simp
qed

text \<open>The members a write to the memory leaves alone.\<close>

definition same_heap :: "small_mem \<Rightarrow> small_mem \<Rightarrow> bool" where
  "same_heap m' m \<longleftrightarrow> sm_self m' = sm_self m \<and> heap_ptr m' = heap_ptr m \<and>
    heap_end m' = heap_end m \<and> mem_size_aligned m' = mem_size_aligned m"

lemma heap_core_cong:
  "same_heap m' m \<Longrightarrow> heap m' = heap m \<Longrightarrow> heap_core m' bs = heap_core m bs"
  by (simp add: heap_core_def same_heap_def)

lemma same_heap_simps [simp]:
  "same_heap (set_pool_ptr a x m) m" "same_heap (set_next a x m) m" "same_heap (set_prev a x m) m"
  "lfree (set_pool_ptr a x m) = lfree m" "lfree (set_next a x m) = lfree m" "lfree (set_prev a x m) = lfree m"
  "mem_used (set_pool_ptr a x m) = mem_used m" "mem_used (set_next a x m) = mem_used m"
  "mem_used (set_prev a x m) = mem_used m"
  "mem_max (set_pool_ptr a x m) = mem_max m" "mem_max (set_next a x m) = mem_max m"
  "mem_max (set_prev a x m) = mem_max m"
  by (simp_all add: same_heap_def set_pool_ptr_def set_next_def set_prev_def)

lemma heap_coreI:
  assumes "heap_core m bs" "same_heap m' m" "extent bs' = extent bs" "bs' \<noteq> []"
    and "chain (heap m') (sm_self m) 0 0 bs'"
    and "heap m' (extent bs) = heap m (extent bs)" "heap m' (extent bs + 4) = heap m (extent bs + 4)"
  shows "heap_core m' bs'"
  using assms by (simp add: heap_core_def same_heap_def)

text \<open>Where the items are: at the start of each block and at the end.\<close>

definition item_word :: "block list \<Rightarrow> nat \<Rightarrow> bool" where
  "item_word bs i \<longleftrightarrow> (\<exists>xs ys. bs = xs @ ys \<and> i \<in> {extent xs, extent xs + 4, extent xs + 8})"

definition only_items :: "block list \<Rightarrow> small_mem \<Rightarrow> small_mem \<Rightarrow> bool" where
  "only_items bs m m' \<longleftrightarrow> (\<forall>i. \<not> item_word bs i \<longrightarrow> heap m' i = heap m i)"

lemma only_items_refl [simp]: "only_items bs m m"
  by (simp add: only_items_def)

lemma only_items_trans [trans]:
  "only_items bs m m' \<Longrightarrow> only_items bs m' m'' \<Longrightarrow> only_items bs m m''"
  by (simp add: only_items_def)

lemma item_wordI [intro]:
  "item_word (xs @ ys) (extent xs)" "item_word (xs @ ys) (extent xs + 4)"
  "item_word (xs @ ys) (extent xs + 8)"
  by (auto simp: item_word_def)

text \<open>The flags of the blocks do not matter for where the items are.\<close>

lemma item_word_take:
  "item_word bs i \<longleftrightarrow> (\<exists>j\<le>length bs. let e = sum_list (take j (map fst bs)) in i \<in> {e, e + 4, e + 8})"
  (is "?l = ?r")
proof
  assume ?l
  then obtain xs ys where "bs = xs @ ys" "i \<in> {extent xs, extent xs + 4, extent xs + 8}"
    unfolding item_word_def by blast
  then show ?r by (intro exI [of _ "length xs"]) (simp add: extent_def Let_def)
next
  assume ?r
  then obtain j where "i \<in> {extent (take j bs), extent (take j bs) + 4, extent (take j bs) + 8}"
    by (auto simp: Let_def take_map extent_def)
  then show ?l unfolding item_word_def by (metis append_take_drop_id)
qed

lemma only_items_fst:
  "map fst bs = map fst bs' \<Longrightarrow> only_items bs m m' = only_items bs' m m'"
  unfolding only_items_def item_word_take by (simp add: map_eq_imp_length_eq [of fst bs fst bs'])

text \<open>The writes and reads of items at an offset in range.\<close>

lemma heap_set:
  assumes "a < 4294967296"
  shows "heap (set_pool_ptr (of_nat a) x m) = (heap m)(a := x)"
    "heap (set_next (of_nat a) x m) = (heap m)(a + 4 := x)"
    "heap (set_prev (of_nat a) x m) = (heap m)(a + 8 := x)"
  using assms by (simp_all add: set_pool_ptr_def set_next_def set_prev_def)

lemma item_at:
  assumes "a < 4294967296"
  shows "item_pool_ptr m (of_nat a) = heap m a" "item_next m (of_nat a) = heap m (a + 4)"
    "item_prev m (of_nat a) = heap m (a + 8)"
  using assms by (simp_all add: item_pool_ptr_def item_next_def item_prev_def)

text \<open>A block that is marked used or free.\<close>

lemma core_mark:
  assumes "heap_core m (xs @ (n, u) # ys)" "a = extent xs"
  shows "heap_core (set_pool_ptr (of_nat a) (if w then MEM_USED (sm_self m) else MEM_FREED (sm_self m)) m)
    (xs @ (n, w) # ys)"
    and "only_items (xs @ (n, w) # ys) m (set_pool_ptr (of_nat a) x m)"
proof -
  note b = heap_core_bounds [OF assms(1)]
  have n: "24 \<le> n" using assms(1) by (auto simp: heap_core_def)
  let ?m = "set_pool_ptr (of_nat a) (if w then MEM_USED (sm_self m) else MEM_FREED (sm_self m)) m"
  have h: "heap ?m = (heap m)(extent xs := if w then MEM_USED (sm_self m) else MEM_FREED (sm_self m))"
    using b by (simp add: set_pool_ptr_def assms(2))
  have "chain (heap m) (sm_self m) 0 0 (xs @ (n, u) # ys)" using assms(1) by (simp add: heap_core_def)
  then show "heap_core ?m (xs @ (n, w) # ys)"
    using n by (intro heap_coreI [OF assms(1)]) (simp_all add: h)
  show "only_items (xs @ (n, w) # ys) m (set_pool_ptr (of_nat a) x m)"
    using b by (auto simp: only_items_def set_pool_ptr_def assms(2))
qed

text \<open>A block that is split; the remainder is free.\<close>

lemma smem_split_frame [simp]:
  "same_heap (smem_split p q m) m" "lfree (smem_split p q m) = lfree m"
  "mem_used (smem_split p q m) = mem_used m" "mem_max (smem_split p q m) = mem_max m"
  by (simp_all add: smem_split_def Let_def same_heap_def set_pool_ptr_def set_next_def set_prev_def)

lemma core_block:
  assumes "heap_core m (xs @ (n, u) # ys)" "a = extent xs"
  shows "heap m a = (if u then MEM_USED (sm_self m) else MEM_FREED (sm_self m))"
    "heap m (a + 4) = of_nat (a + n)" "heap m (a + 8) = of_nat (last_off 0 0 xs)"
    "24 \<le> n" "8 dvd n" "a + n \<le> extent (xs @ (n, u) # ys)" "a + n + 80 \<le> 4294967296"
    "chain (heap m) (sm_self m) 0 0 xs" "chain (heap m) (sm_self m) a (a + n) ys"
  using assms heap_core_bounds [OF assms(1)] by (auto simp: heap_core_def)

lemma heap_smem_split:
  assumes core: "heap_core m (xs @ (n, u) # ys)" and a: "a = extent xs"
    and k: "24 \<le> k" "k + 24 \<le> n"
  shows "heap (smem_split (of_nat a) (of_nat (a + k)) m) =
    (let h = (heap m)(a + k := MEM_FREED (sm_self m), a + k + 4 := of_nat (a + n),
       a + k + 8 := of_nat a, a + 4 := of_nat (a + k))
     in if ys = [] then h else h(a + n + 8 := of_nat (a + k)))"
proof -
  note c = core_block [OF core a]
  note ms = heap_core_bounds(5) [OF core]
  have E: "extent (xs @ (n, u) # ys) = a + n + extent ys" by (simp add: a)
  have "extent ys \<noteq> 0" if "ys \<noteq> []"
    using chain_extent_pos [OF c(9) that] by simp
  then have "a + n = a + n + extent ys \<longleftrightarrow> ys = []" by (cases "ys = []") auto
  moreover have "a + n < 4294967296" "a + n + extent ys < 4294967296"
    using heap_core_bounds(1) [OF core] unfolding E by simp_all
  ultimately have end_iff: "(of_nat (a + n) :: u32) = mem_size_aligned m + 16 \<longleftrightarrow> ys = []"
    unfolding ms E by (simp only: of_nat_u32_inj)
  have lt: "a < 4294967296" "a + k < 4294967296" "a + n < 4294967296" using c(7) k by simp_all
  have ne: "a + 4 \<noteq> a + k" "a + k + 4 \<noteq> a + k + 8" "a + k + 4 \<noteq> a + 4" using k by simp_all
  let ?m1 = "set_pool_ptr (of_nat (a + k)) (MEM_FREED (sm_self m)) m"
  let ?m4 = "set_next (of_nat a) (of_nat (a + k)) (set_prev (of_nat (a + k)) (of_nat a)
    (set_next (of_nat (a + k)) (of_nat (a + n)) ?m1))"
  let ?h = "(heap m)(a + k := MEM_FREED (sm_self m), a + k + 4 := of_nat (a + n),
       a + k + 8 := of_nat a, a + 4 := of_nat (a + k))"
  have n1: "item_next ?m1 (of_nat a) = of_nat (a + n)"
    unfolding item_at [OF lt(1)] heap_set [OF lt(2)] using ne(1) c(2) by simp
  have h4: "heap ?m4 = ?h"
    by (simp only: heap_set [OF lt(1)] heap_set [OF lt(2)])
  have n4: "item_next ?m4 (of_nat (a + k)) = of_nat (a + n)"
    unfolding item_at [OF lt(2)] h4 using ne(2,3) by (simp only: fun_upd_apply simp_thms if_False if_True)
  have ms: "mem_size_aligned ?m4 + SIZEOF_STRUCT_MEM = mem_size_aligned m + 16"
    by (simp add: set_pool_ptr_def set_next_def set_prev_def)
  show ?thesis
    unfolding smem_split_def Let_def n1 n4 ms
    by (cases "ys = []") (simp_all only: end_iff heap_set [OF lt(3)] h4 simp_thms if_False if_True)
qed

lemma core_split:
  assumes core: "heap_core m (xs @ (n, u) # ys)" and a: "a = extent xs"
    and k: "24 \<le> k" "k + 24 \<le> n" "8 dvd k"
  shows "heap_core (smem_split (of_nat a) (of_nat (a + k)) m) (xs @ (k, u) # (n - k, False) # ys)"
    and "only_items (xs @ (k, u) # (n - k, False) # ys) m (smem_split (of_nat a) (of_nat (a + k)) m)"
proof -
  note c = core_block [OF core a]
  note h = heap_smem_split [OF core a k(1,2)]
  let ?m = "smem_split (of_nat a) (of_nat (a + k)) m"
  have keep: "heap ?m i = heap m i"
    if "i \<noteq> a + k" "i \<noteq> a + k + 4" "i \<noteq> a + k + 8" "i \<noteq> a + 4" "ys \<noteq> [] \<Longrightarrow> i \<noteq> a + n + 8" for i
    using that by (simp add: h Let_def)
  have ys: "chain (heap ?m) (sm_self m) (a + k) (a + n) ys"
  proof (cases ys)
    case (Cons b ys')
    have "chain ((heap m)(a + n + 8 := of_nat (a + k))) (sm_self m) (a + k) (a + n) ys"
      using c(9) unfolding Cons by (rule chain_new_prev)
    moreover have "chain (heap ?m) (sm_self m) (a + k) (a + n) ys =
        chain ((heap m)(a + n + 8 := of_nat (a + k))) (sm_self m) (a + k) (a + n) ys"
      by (rule iffI; rule chain_cong, assumption?) (use k Cons in \<open>auto simp: h Let_def\<close>)
    ultimately show ?thesis by simp
  qed simp
  have xs: "chain (heap ?m) (sm_self m) 0 0 xs"
  proof (rule chain_cong [OF _ c(8)])
    fix i assume "i < 0 + extent xs"
    then have "i < a" by (simp add: a)
    then show "heap ?m i = heap m i" by (intro keep) simp_all
  qed
  have d: "8 dvd n - k" using c(5) k(3) by simp
  have items: "heap ?m a = heap m a" "heap ?m (a + 4) = of_nat (a + k)" "heap ?m (a + 8) = heap m (a + 8)"
    "heap ?m (a + k) = MEM_FREED (sm_self m)" "heap ?m (a + k + 4) = of_nat (a + n)"
    "heap ?m (a + k + 8) = of_nat a"
    using k by (simp_all add: h Let_def)
  have self: "sm_self ?m = sm_self m" using smem_split_frame(1) by (simp add: same_heap_def)
  have "chain (heap ?m) (sm_self m) 0 0 (xs @ (k, u) # (n - k, False) # ys)"
    using xs ys items c(1,3) k d by (simp add: a)
  moreover have "24 \<le> extent ys" if "ys \<noteq> []"
    by (rule chain_extent_pos [OF c(9) that])
  then have "heap ?m (a + n + extent ys) = heap m (a + n + extent ys)"
    "heap ?m (a + n + extent ys + 4) = heap m (a + n + extent ys + 4)"
    using k by (intro keep; linarith)+
  ultimately show "heap_core ?m (xs @ (k, u) # (n - k, False) # ys)"
    using k by (intro heap_coreI [OF core]) (simp_all add: self a add.assoc)
  have "item_word (xs @ (k, u) # (n - k, False) # ys) i" if "heap ?m i \<noteq> heap m i" for i
  proof -
    have "i = a + 4 \<or> i = a + k \<or> i = a + k + 4 \<or> i = a + k + 8 \<or> i = a + n + 8"
      using that keep [of i] by blast
    then consider "i = a + 4" | "i \<in> {a + k, a + k + 4, a + k + 8}" | "i = a + n + 8"
      by blast
    then show ?thesis
    proof cases
      case 2
      then show ?thesis using item_wordI [of "xs @ [(k, u)]" "(n - k, False) # ys"] a by auto
    next
      case 3
      then show ?thesis using item_wordI(3) [of "xs @ [(k, u), (n - k, False)]" ys] a k by auto
    qed (use a in auto)
  qed
  then show "only_items (xs @ (k, u) # (n - k, False) # ys) m ?m"
    by (auto simp: only_items_def)
qed

text \<open>A block that is joined with the one behind it.\<close>

lemma smem_join_frame [simp]:
  "same_heap (smem_join p q m) m" "lfree (smem_join p q m) = lfree m"
  "mem_used (smem_join p q m) = mem_used m" "mem_max (smem_join p q m) = mem_max m"
  by (simp_all add: smem_join_def Let_def same_heap_def set_pool_ptr_def set_next_def set_prev_def)

lemma heap_smem_join:
  assumes lt: "a + n + k < 4294967296" and n: "24 \<le> n"
    and nx: "heap m (a + n + 4) = of_nat (a + n + k)"
  shows "heap (smem_join (of_nat a) (of_nat (a + n)) m) =
    (heap m)(a + n := 0, a + 4 := of_nat (a + n + k), a + n + k + 8 := of_nat a)"
proof -
  have l: "a < 4294967296" "a + n < 4294967296" using lt by simp_all
  have ne: "a + n + 4 \<noteq> a + n" "a + n + 4 \<noteq> a + 4" using n by simp_all
  let ?m1 = "set_pool_ptr (of_nat (a + n)) 0 m"
  let ?m2 = "set_next (of_nat a) (of_nat (a + n + k)) ?m1"
  have 1: "item_next ?m1 (of_nat (a + n)) = of_nat (a + n + k)"
    unfolding item_at [OF l(2)] heap_set [OF l(2)] using ne(1) nx by simp
  have 2: "heap ?m2 = (heap m)(a + n := 0, a + 4 := of_nat (a + n + k))"
    by (simp only: heap_set [OF l(1)] heap_set [OF l(2)])
  have 3: "item_next ?m2 (of_nat (a + n)) = of_nat (a + n + k)"
    unfolding item_at [OF l(2)] 2 using ne nx by (simp only: fun_upd_apply if_False)
  show ?thesis
    unfolding smem_join_def Let_def 1 3 by (simp only: heap_set [OF lt] 2)
qed

lemma core_join:
  assumes core: "heap_core m (xs @ (n, u) # (k, w) # ys)" and a: "a = extent xs"
  shows "heap_core (smem_join (of_nat a) (of_nat (a + n)) m) (xs @ (n + k, u) # ys)"
    and "only_items (xs @ (n, u) # (k, w) # ys) m (smem_join (of_nat a) (of_nat (a + n)) m)"
proof -
  note c = core_block [OF core a]
  have c2: "24 \<le> k" "8 dvd k" "heap m (a + n + 4) = of_nat (a + n + k)"
    "chain (heap m) (sm_self m) (a + n) (a + n + k) ys"
    using c(9) by simp_all
  have lt: "a + n + k < 4294967296" using heap_core_bounds(1) [OF core] by (simp add: a)
  note h = heap_smem_join [OF lt c(4) c2(3)]
  let ?m = "smem_join (of_nat a) (of_nat (a + n)) m"
  have keep: "heap ?m i = heap m i" if "i \<noteq> a + n" "i \<noteq> a + 4" "i \<noteq> a + n + k + 8" for i
    using that by (simp add: h)
  have self: "sm_self ?m = sm_self m" using smem_join_frame(1) by (simp add: same_heap_def)
  have xs: "chain (heap ?m) (sm_self m) 0 0 xs"
    by (rule chain_cong [OF _ c(8)]) (intro keep; use a in simp)
  have ys: "chain (heap ?m) (sm_self m) a (a + n + k) ys"
  proof (cases ys)
    case (Cons b ys')
    have "chain ((heap m)(a + n + k + 8 := of_nat a)) (sm_self m) a (a + n + k) ys"
      using c2(4) unfolding Cons by (rule chain_new_prev)
    then show ?thesis
      by (rule chain_cong [rotated]) (use c(4) c2(1) in \<open>auto simp: h\<close>)
  qed simp
  have items: "heap ?m a = heap m a" "heap ?m (a + 4) = of_nat (a + n + k)" "heap ?m (a + 8) = heap m (a + 8)"
    using c(4) by (simp_all add: h)
  have "chain (heap ?m) (sm_self m) 0 0 (xs @ (n + k, u) # ys)"
    using xs ys items c(1,3,4,5) c2(1,2) by (simp add: a add.assoc)
  moreover have "heap ?m (a + n + k + extent ys) = heap m (a + n + k + extent ys)"
    "heap ?m (a + n + k + extent ys + 4) = heap m (a + n + k + extent ys + 4)"
    using c(4) c2(1) chain_extent_pos [OF c2(4)] by (cases "ys = []"; intro keep; simp)+
  ultimately show "heap_core ?m (xs @ (n + k, u) # ys)"
    by (intro heap_coreI [OF core]) (simp_all add: self a add.assoc)
  have "item_word (xs @ (n, u) # (k, w) # ys) i" if "heap ?m i \<noteq> heap m i" for i
  proof -
    have "i = a + n \<or> i = a + 4 \<or> i = a + n + k + 8" using that keep [of i] by blast
    then show ?thesis
      using item_wordI(1) [of "xs @ [(n, u)]" "(k, w) # ys"] item_wordI(2) [of xs "(n, u) # (k, w) # ys"]
        item_wordI(3) [of "xs @ [(n, u), (k, w)]" ys]
      by (auto simp: a add.assoc)
  qed
  then show "only_items (xs @ (n, u) # (k, w) # ys) m ?m" by (auto simp: only_items_def)
qed

end
