(* ===== verification/Small_Mem_Spec.thy ===== *)
theory Small_Mem_Spec
  imports Small_Mem_Rep
begin

text \<open>
  The allocator as operations on a list of blocks (first fit with splitting, release with
  merging of neighbours) and the proof that mem.c refines them: rt_smem_alloc, rt_smem_free
  and rt_smem_realloc return, keep the heap in order and write to nothing but items.
\<close>

section \<open>The abstract allocator\<close>

definition split_block :: "nat \<Rightarrow> nat \<Rightarrow> block list" where
  "split_block s n = (if s + 48 \<le> n then [(s + 16, True), (n - (s + 16), False)] else [(n, True)])"

text \<open>First fit: the offset of the block and the new list.\<close>

fun alloc_spec :: "nat \<Rightarrow> block list \<Rightarrow> (nat \<times> block list) option" where
  "alloc_spec s [] = None"
| "alloc_spec s ((n, u) # bs) =
    (if \<not> u \<and> s + 16 \<le> n then Some (0, split_block s n @ bs)
     else map_option (\<lambda>(i, bs'). (n + i, (n, u) # bs')) (alloc_spec s bs))"

text \<open>Neighbouring free blocks become one.\<close>

fun coalesce :: "block list \<Rightarrow> block list" where
  "coalesce ((n, False) # (k, False) # bs) = coalesce ((n + k, False) # bs)"
| "coalesce (b # bs) = b # coalesce bs"
| "coalesce [] = []"

lemma alloc_spec_Some:
  assumes "alloc_spec s bs = Some (i, bs')"
  obtains xs n ys where "bs = xs @ (n, False) # ys" "i = extent xs" "s + 16 \<le> n"
    "bs' = xs @ split_block s n @ ys" "\<forall>(k, u)\<in>set xs. u \<or> k < s + 16"
  using assms
proof (induction bs arbitrary: i bs' thesis)
  case (Cons b bs)
  obtain n u where b: "b = (n, u)" by (cases b)
  show ?case
  proof (cases "\<not> u \<and> s + 16 \<le> n")
    case True
    with Cons.prems b show ?thesis by (intro Cons.prems(1) [of "[]" n bs]) auto
  next
    case False
    with Cons.prems(2) b obtain j cs where j: "alloc_spec s bs = Some (j, cs)" "i = n + j" "bs' = (n, u) # cs"
      by auto
    from Cons.IH [OF _ j(1)] obtain xs k ys where "bs = xs @ (k, False) # ys" "j = extent xs" "s + 16 \<le> k"
      "cs = xs @ split_block s k @ ys" "\<forall>(k, u)\<in>set xs. u \<or> k < s + 16" by blast
    with j b False show ?thesis by (intro Cons.prems(1) [of "(n, u) # xs" k ys]) auto
  qed
qed simp

lemma alloc_spec_None: "alloc_spec s bs = None \<longleftrightarrow> (\<forall>(n, u)\<in>set bs. u \<or> n < s + 16)"
  by (induction bs) (auto split: if_splits)

lemma alloc_spec_skip: "\<forall>b\<in>set xs. snd b \<Longrightarrow>
    alloc_spec s (xs @ zs) = map_option (\<lambda>(i, cs). (extent xs + i, xs @ cs)) (alloc_spec s zs)"
  by (induction xs) (auto simp: option.map_comp comp_def map_option_case add.assoc split: option.splits)

lemma coalesce_no_free_pair [simp]: "no_free_pair bs \<Longrightarrow> coalesce bs = bs"
  by (induction bs rule: coalesce.induct) auto

section \<open>Words at an offset\<close>

lemma MEM_ISUSED_at:
  "a < 4294967296 \<Longrightarrow> heap m a = (if u then MEM_USED q else MEM_FREED q) \<Longrightarrow> MEM_ISUSED m (of_nat a) = u"
  by (simp add: MEM_ISUSED_def item_at)

lemma of_nat_16 [simp]: "(of_nat a :: u32) + 16 = of_nat (a + 16)"
  by (simp add: of_nat_add)

lemma block_room:
  assumes "a + n < 4294967296" "16 \<le> n" "heap m (a + 4) = of_nat (a + n)"
  shows "item_next m (of_nat a) - (of_nat a + SIZEOF_STRUCT_MEM) = of_nat (n - 16)"
    "item_next m (of_nat a) - of_nat a = of_nat n"
proof -
  have "(of_nat (a + n) :: u32) - of_nat (a + 16) = of_nat (a + n - (a + 16))"
    using assms(2) by (intro of_nat_u32_diff) simp
  then show "item_next m (of_nat a) - (of_nat a + SIZEOF_STRUCT_MEM) = of_nat (n - 16)"
    using assms by (simp add: item_at)
  have "(of_nat (a + n) :: u32) - of_nat a = of_nat (a + n - a)"
    by (intro of_nat_u32_diff) simp
  then show "item_next m (of_nat a) - of_nat a = of_nat n"
    using assms by (simp add: item_at)
qed

section \<open>The two loops\<close>

lemma smem_find_chain:
  assumes "chain (heap m) q p a zs" "mem_size_aligned m = of_nat (a + extent zs - 16)"
    and "a + extent zs < 4294967296" "s + 16 \<le> a + extent zs"
  shows "smem_find m (of_nat s) (of_nat a) =
    Some (map_option (\<lambda>(i, _). of_nat (a + i)) (alloc_spec s zs))"
  using assms
proof (induction zs arbitrary: p a)
  case Nil
  have "mem_size_aligned m - of_nat s = of_nat (a - 16 - s)"
    using Nil by (simp add: of_nat_u32_diff)
  moreover have "\<not> a \<le> a - (16 + s)" using Nil by simp
  ultimately show ?case using Nil by (subst smem_find.simps) simp
next
  case (Cons b zs)
  obtain n u where b: "b = (n, u)" by (cases b)
  let ?E = "a + extent (b # zs)"
  have c: "heap m a = (if u then MEM_USED q else MEM_FREED q)" "heap m (a + 4) = of_nat (a + n)"
    "24 \<le> n" "chain (heap m) q a (a + n) zs"
    using Cons.prems(1) b by auto
  have E: "?E = a + n + extent zs" by (simp add: b)
  have lt: "a < 4294967296" "a + n < 4294967296" using Cons.prems(3) unfolding E by simp_all
  have bound: "mem_size_aligned m - of_nat s = of_nat (?E - 16 - s)"
    unfolding Cons.prems(2) using Cons.prems(4) by (intro of_nat_u32_diff) simp
  have used: "MEM_ISUSED m (of_nat a) = u" by (rule MEM_ISUSED_at [OF lt(1) c(1)])
  have nxt: "item_next m (of_nat a) = of_nat (a + n)" using lt c(2) by (simp add: item_at)
  have "(of_nat (a + n) :: u32) - of_nat (a + 16) = of_nat (a + n - (a + 16))"
    using c(3) by (intro of_nat_u32_diff) simp
  then have room: "(of_nat s \<le> (of_nat (a + n) :: u32) - of_nat (a + 16)) = (s + 16 \<le> n)"
    using lt c(3) Cons.prems(3,4) by (simp only:) (subst of_nat_u32_le, auto)
  have IH: "smem_find m (of_nat s) (of_nat (a + n)) =
      Some (map_option (\<lambda>(i, _). of_nat (a + n + i)) (alloc_spec s zs))"
    by (rule Cons.IH [OF c(4)]) (use Cons.prems E in simp_all)
  show ?case
  proof (cases "a \<le> ?E - 16 - s")
    case True
    then have "(of_nat a :: u32) \<le> mem_size_aligned m - of_nat s"
      unfolding bound using lt Cons.prems(3) by (subst of_nat_u32_le) auto
    then show ?thesis
      by (subst smem_find.simps) (simp add: used room nxt IH b option.map_comp comp_def map_option_case
          add.assoc split: option.splits)
  next
    case False
    then have "\<not> (of_nat a :: u32) \<le> mem_size_aligned m - of_nat s"
      unfolding bound using lt Cons.prems(3) by (subst of_nat_u32_le) auto
    moreover have "alloc_spec s (b # zs) = None"
    proof -
      have "k \<le> extent (b # zs)" if "(k, v) \<in> set (b # zs)" for k v
        using that member_le_sum_list [of k "map fst (b # zs)"] by (force simp: extent_def)
      then show ?thesis using False Cons.prems(4) unfolding alloc_spec_None by fastforce
    qed
    ultimately show ?thesis by (subst smem_find.simps) simp
  qed
qed

lemma smem_next_free_chain:
  assumes "chain (heap m) q p a zs" "heap_end m = of_nat (a + extent zs)" "a + extent zs < 4294967296"
  shows "smem_next_free m (of_nat a) = Some (of_nat (a + first_free zs))"
  using assms
proof (induction zs arbitrary: p a)
  case Nil
  then show ?case by (subst smem_next_free.simps) simp
next
  case (Cons b zs)
  obtain n u where b: "b = (n, u)" by (cases b)
  have c: "heap m a = (if u then MEM_USED q else MEM_FREED q)" "heap m (a + 4) = of_nat (a + n)"
    "24 \<le> n" "chain (heap m) q a (a + n) zs"
    using Cons.prems(1) b by auto
  have E: "a + extent (b # zs) = a + n + extent zs" by (simp add: b)
  have lt: "a < 4294967296" "a + n < 4294967296" using Cons.prems(3) unfolding E by simp_all
  have used: "MEM_ISUSED m (of_nat a) = u" by (rule MEM_ISUSED_at [OF lt(1) c(1)])
  have "of_nat a \<noteq> heap_end m"
    unfolding Cons.prems(2) using Cons.prems(3) c(3) lt(1) by (subst of_nat_u32_inj) (auto simp: b)
  moreover have "smem_next_free m (of_nat (a + n)) = Some (of_nat (a + n + first_free zs))"
    by (rule Cons.IH [OF c(4)]) (use Cons.prems E in simp_all)
  ultimately show ?case
    using lt c(2) by (subst smem_next_free.simps) (simp add: used item_at b add.assoc)
qed

section \<open>Taking a block\<close>

lemma same_heap_trans: "same_heap m1 m2 \<Longrightarrow> same_heap m2 m3 \<Longrightarrow> same_heap m1 m3"
  by (simp add: same_heap_def)

lemma same_heap_account [simp]:
  "same_heap (smem_account x m) m" "heap (smem_account x m) = heap m"
  "lfree (smem_account x m) = lfree m" "mem_used (smem_account x m) = mem_used m + x"
  "mem_used (smem_account x m) \<le> mem_max (smem_account x m)"
  "sm_self (smem_account x m) = sm_self m"
  by (auto simp: smem_account_def same_heap_def Let_def)

lemma heap_core_account [simp]: "heap_core (smem_account x m) bs = heap_core m bs"
  by (rule heap_core_cong) simp_all

lemma only_items_account [simp]: "only_items bs m (smem_account x m') = only_items bs m m'"
  by (simp add: only_items_def)

text \<open>The size of the part of a free block of size \<open>n\<close> that is taken.\<close>

definition taken :: "nat \<Rightarrow> nat \<Rightarrow> nat" where
  "taken s n = (if s + 48 \<le> n then s + 16 else n)"

lemma split_block_eq:
  "split_block s n = (taken s n, True) # (if s + 48 \<le> n then [(n - (s + 16), False)] else [])"
  by (simp add: split_block_def taken_def)

lemma smem_take_rep:
  assumes core: "heap_core m (xs @ (n, False) # ys)" and a: "a = extent xs"
    and s: "16 \<le> s" "8 dvd s" "s + 16 \<le> n"
  defines "m' \<equiv> smem_take (of_nat a) (of_nat s) m"
  shows "heap_core m' (xs @ split_block s n @ ys)" "only_items (xs @ split_block s n @ ys) m m'"
    "same_heap m' m" "lfree m' = lfree m" "mem_used m' = mem_used m + of_nat (taken s n)"
    "mem_used m' \<le> mem_max m'"
proof -
  note c = core_block [OF core a]
  have an: "a + n < 4294967296" and n16: "16 \<le> n" using c(4,7) by simp_all
  note rm = block_room [OF an n16 c(2)]
  have room: "(of_nat (n - 16) \<ge> (of_nat s + SIZEOF_STRUCT_MEM + MIN_SIZE_ALIGNED :: u32)) = (s + 48 \<le> n)"
    using c(7) s(3) by (auto simp: add.assoc)
  define t rest m1 where "t = taken s n"
    and "rest = (if s + 48 \<le> n then [(n - (s + 16), False)] else []) @ ys"
    and "m1 = smem_account (of_nat t) (if s + 48 \<le> n then smem_split (of_nat a) (of_nat (a + (s + 16))) m else m)"
  have bs': "xs @ split_block s n @ ys = xs @ (t, True) # rest"
    by (simp add: split_block_eq t_def rest_def)
  have ptr2: "(of_nat a :: u32) + SIZEOF_STRUCT_MEM + of_nat s = of_nat (a + (s + 16))"
    by (simp only: SIZEOF_STRUCT_MEM_eq of_nat_16 of_nat_add [symmetric] add.assoc add.commute [of s 16])
  have sh: "same_heap m1 m" by (simp add: m1_def same_heap_def smem_account_def Let_def)
      (simp add: smem_split_frame(1) [unfolded same_heap_def])
  then have self: "sm_self m1 = sm_self m" by (simp add: same_heap_def)
  have m': "m' = set_pool_ptr (of_nat a) (MEM_USED (sm_self m1)) m1"
    unfolding m'_def smem_take_def Let_def rm room ptr2
    by (simp add: m1_def t_def taken_def)
  have core1: "heap_core m1 (xs @ (t, False) # rest) \<and> only_items (xs @ (t, False) # rest) m m1"
  proof (cases "s + 48 \<le> n")
    case True
    then have "24 \<le> s + 16" "s + 16 + 24 \<le> n" "8 dvd s + 16" using s by simp_all
    from core_split [OF core a this] True show ?thesis by (simp add: m1_def t_def taken_def rest_def)
  qed (use core in \<open>simp add: m1_def t_def taken_def rest_def\<close>)
  have "only_items (xs @ (t, True) # rest) m m1"
    using core1 only_items_fst [of "xs @ (t, True) # rest" "xs @ (t, False) # rest" m m1] by simp
  from this core_mark(2) [OF conjunct1 [OF core1] a]
  show "only_items (xs @ split_block s n @ ys) m m'"
    unfolding bs' m' by (rule only_items_trans)
  show "heap_core m' (xs @ split_block s n @ ys)"
    using core_mark(1) [OF conjunct1 [OF core1] a, of True] by (simp add: bs' m')
  show "same_heap m' m" unfolding m' by (rule same_heap_trans [OF same_heap_simps(1) sh])
  show "lfree m' = lfree m" "mem_used m' = mem_used m + of_nat (taken s n)"
    by (simp_all add: m' m1_def t_def)
  show "mem_used m' \<le> mem_max m'"
    unfolding m' by (simp only: same_heap_simps) (unfold m1_def, rule same_heap_account(5))
qed

section \<open>rt_smem_alloc\<close>

lemma and_7: "(x :: u32) AND 7 = 0 \<longleftrightarrow> 8 dvd unat x"
proof -
  have "x AND 7 = take_bit 3 x" by (simp add: take_bit_eq_mask mask_eq_exp_minus_1)
  moreover have "unat (take_bit 3 x) = unat x mod 8"
    unfolding unsigned_take_bit_eq by (simp add: take_bit_eq_mod)
  ultimately show ?thesis by (simp add: word_unat_eq_iff dvd_eq_mod_eq_0)
qed

lemma heap_end_addr:
  assumes "heap_core m bs"
  shows "unat (heap_ptr m + heap_end m) = unat (heap_ptr m) + extent bs"
proof -
  have "unat (heap_ptr m) + extent bs + 16 \<le> 4294967296" "heap_end m = of_nat (extent bs)"
    using assms by (simp_all add: heap_core_def)
  then show ?thesis by (simp add: unat_add_u32)
qed

lemma heap_addr:
  assumes "heap_core m bs" "i \<le> extent bs"
  shows "unat (heap_ptr m + of_nat i) = unat (heap_ptr m) + i"
proof -
  have "unat (heap_ptr m) + extent bs + 16 \<le> 4294967296" using assms(1) by (simp add: heap_core_def)
  then show ?thesis using assms(2) by (simp add: unat_add_u32)
qed

lemma used_prefix: "no_free_pair (xs @ (n, False) # ys) \<Longrightarrow> no_free_pair (xs @ split_block s n @ ys)"
  by (auto simp: no_free_pair_append split_block_def)

lemma extent_split_block [simp]: "s + 16 \<le> n \<Longrightarrow> extent (split_block s n) = n"
  by (simp add: split_block_def)

lemma used_split_block [simp]: "used_total (split_block s n) = taken s n"
  by (simp add: split_block_def taken_def)

lemma first_free_split:
  assumes "\<not> (\<forall>b\<in>set bs. snd b)"
  obtains us k vs where "bs = us @ (k, False) # vs" "first_free bs = extent us"
proof -
  have "dropWhile snd bs \<noteq> []" using assms by simp
  then obtain b vs where b: "dropWhile snd bs = b # vs" by (cases "dropWhile snd bs") auto
  then have "\<not> snd b" using hd_dropWhile [of snd bs] by simp
  then have "b = (fst b, False)" by (cases b) simp
  with b have "bs = takeWhile snd bs @ (fst b, False) # vs" by (metis takeWhile_dropWhile_id)
  then show ?thesis using that by (simp only: first_free_def)
qed

text \<open>
  lfree after the block at offset \<open>a\<close> has been taken: it moves on only when it was there.
\<close>

lemma alloc_lfree:
  assumes core: "heap_core m (xs @ split_block s n @ ys)" and a: "a = extent xs" and s: "s + 16 \<le> n"
    and lf: "lfree m = of_nat (first_free (xs @ (n, False) # ys))"
  defines "new \<equiv> of_nat (first_free (xs @ split_block s n @ ys))"
  shows "(if of_nat a = lfree m then smem_next_free m (lfree m) else Some (lfree m)) = Some new"
    and "of_nat a = lfree m \<Longrightarrow> new = heap_end m \<or> \<not> MEM_ISUSED m new"
proof -
  let ?bs = "xs @ split_block s n @ ys"
  have E: "extent ?bs = a + n + extent ys" using s a by simp
  note b = heap_core_bounds(1) [OF core, unfolded E]
  have ch: "chain (heap m) (sm_self m) 0 0 xs" "chain (heap m) (sm_self m) (last_off 0 0 xs) a (split_block s n @ ys)"
    using core a by (simp_all add: heap_core_def)
  have he: "heap_end m = of_nat (extent ?bs)" using core by (simp add: heap_core_def)
  have all: "\<forall>b\<in>set xs. snd b" if "of_nat a = lfree m"
  proof (rule ccontr)
    assume "\<not> (\<forall>b\<in>set xs. snd b)"
    moreover have "\<forall>b\<in>set xs. 0 < fst b" using chain_pos [OF ch(1)] by fastforce
    ultimately have "first_free (xs @ (n, False) # ys) < a"
      using first_free_less a by (simp add: first_free_append)
    then show False using that lf b by simp
  qed
  have new: "first_free ?bs = (if \<forall>b\<in>set xs. snd b then a + first_free (split_block s n @ ys) else first_free xs)"
    by (simp add: first_free_append a)
  show "(if of_nat a = lfree m then smem_next_free m (lfree m) else Some (lfree m)) = Some new"
  proof (cases "of_nat a = lfree m")
    case True
    have "smem_next_free m (of_nat a) = Some (of_nat (a + first_free (split_block s n @ ys)))"
      by (rule smem_next_free_chain [OF ch(2)]) (use b s he E in \<open>simp_all add: add.assoc\<close>)
    with True show ?thesis using all new by (simp add: new_def)
  next
    case False
    have "\<not> (\<forall>b\<in>set xs. snd b)"
    proof
      assume "\<forall>b\<in>set xs. snd b"
      then have "first_free (xs @ (n, False) # ys) = a" by (simp add: first_free_append a)
      with False lf show False by simp
    qed
    then have "first_free (xs @ zs) = first_free xs" for zs unfolding first_free_append by (rule if_not_P)
    then show ?thesis using False lf by (simp only: new_def if_False)
  qed
  show "new = heap_end m \<or> \<not> MEM_ISUSED m new"
  proof (cases "\<forall>b\<in>set ?bs. snd b")
    case True
    then have "takeWhile snd ?bs = ?bs" by (simp only: takeWhile_eq_all_conv)
    then have "first_free ?bs = extent ?bs" unfolding first_free_def by (rule arg_cong)
    then show ?thesis by (simp add: new_def he)
  next
    case False
    then obtain us k vs where sp: "?bs = us @ (k, False) # vs" and ff: "first_free ?bs = extent us"
      by (rule first_free_split)
    have "heap m (extent us) = MEM_FREED (sm_self m)" "extent us < 4294967296"
      using core_block(1,7) [of m us k False vs "extent us"] core sp(1) by simp_all
    then show ?thesis using MEM_ISUSED_at [of "extent us" m False] by (simp add: new_def ff)
  qed
qed

text \<open>The size that is really looked for: aligned, modulo 2^32, and at least 16.\<close>

definition request :: "u32 \<Rightarrow> nat" where
  "request r = max 16 (unat (RT_ALIGN r RT_ALIGN_SIZE))"

lemma request_props: "16 \<le> request r" "8 dvd request r" "request r < 4294967296"
  by (auto simp: request_def max_def unat_RT_ALIGN_8)

lemma request_word:
  "(let s1 = RT_ALIGN r RT_ALIGN_SIZE in if s1 < MIN_SIZE_ALIGNED then MIN_SIZE_ALIGNED else s1) = of_nat (request r)"
proof -
  have "of_nat (unat x) = (x :: u32)" for x by simp
  then show ?thesis
    by (auto simp: request_def Let_def word_less_nat_alt max_def)
qed

lemma rt_smem_alloc_eq:
  "r \<noteq> 0 \<Longrightarrow> rt_smem_alloc r m =
    (if of_nat (request r) > mem_size_aligned m then Some (0, m)
     else (case smem_find m (of_nat (request r)) (lfree m) of
             None \<Rightarrow> None
           | Some None \<Rightarrow> Some (0, m)
           | Some (Some ptr) \<Rightarrow> smem_alloc_at ptr (of_nat (request r)) m))"
  by (simp only: rt_smem_alloc_def Let_def request_word [unfolded Let_def] if_False)

lemma alloc_at_rep:
  assumes rep: "heap_rep m (xs @ (n, False) # ys)" and a: "a = extent xs"
    and s: "16 \<le> s" "8 dvd s" "s + 16 \<le> n"
  shows "\<exists>m'. smem_alloc_at (of_nat a) (of_nat s) m = Some (heap_ptr m + of_nat (a + 16), m') \<and>
    heap_rep m' (xs @ split_block s n @ ys) \<and> only_items (xs @ split_block s n @ ys) m m' \<and> same_heap m' m"
proof -
  let ?bs = "xs @ (n, False) # ys" and ?bs' = "xs @ split_block s n @ ys"
  let ?m1 = "smem_take (of_nat a) (of_nat s) m"
  define new where "new = (of_nat (first_free ?bs') :: u32)"
  let ?m2 = "?m1\<lparr>lfree := new\<rparr>"
  have core: "heap_core m ?bs" and lf: "lfree m = of_nat (first_free ?bs)" and nf: "no_free_pair ?bs"
    and mu: "mem_used m = of_nat (used_total ?bs)"
    using rep by (simp_all add: heap_rep_def)
  note tk = smem_take_rep [OF core a s]
  note c = core_block [OF core a]
  have lfm: "lfree ?m1 = of_nat (first_free ?bs)" using lf tk(4) by simp
  have lf1: "(if of_nat a = lfree ?m1 then smem_next_free ?m1 (lfree ?m1) else Some (lfree ?m1)) = Some new"
    unfolding new_def by (rule alloc_lfree(1) [OF tk(1) a s(3) lfm])
  have lf2: "of_nat a = lfree ?m1 \<longrightarrow> new = heap_end ?m1 \<or> \<not> MEM_ISUSED ?m1 new"
    using alloc_lfree(2) [OF tk(1) a s(3) lfm] unfolding new_def by simp
  have sh: "heap_ptr ?m1 = heap_ptr m" "heap_end ?m1 = heap_end m" using tk(3) by (simp_all add: same_heap_def)
  have E: "extent ?bs = a + n + extent ys" by (simp add: a)
  have le: "a + 16 + s \<le> extent ?bs" "a + 16 \<le> extent ?bs" "a \<le> extent ?bs" using E s(3) by simp_all
  have plus: "heap_ptr m + of_nat a + SIZEOF_STRUCT_MEM = heap_ptr m + of_nat (a + 16)"
    "heap_ptr m + of_nat a + SIZEOF_STRUCT_MEM + of_nat s = heap_ptr m + of_nat (a + 16 + s)"
    by (simp_all only: SIZEOF_STRUCT_MEM_eq of_nat_add of_nat_numeral add.assoc)
  have end_ok: "heap_ptr m + of_nat a + SIZEOF_STRUCT_MEM + of_nat s \<le> heap_ptr m + heap_end m"
    unfolding plus(2) word_le_nat_alt heap_addr [OF core le(1)] heap_end_addr [OF core]
    using le(1) by simp
  have dvd: "8 dvd unat (heap_ptr m) + a"
    using core chain_total_dvd [OF c(8)] by (simp add: heap_core_def a)
  have al: "heap_ptr m + of_nat a AND (RT_ALIGN_SIZE - 1) = 0"
    "(heap_ptr m + of_nat a + SIZEOF_STRUCT_MEM) mod RT_ALIGN_SIZE = 0"
    using dvd unfolding plus word_unat_eq_iff
    by (simp_all add: RT_ALIGN_SIZE_def and_7 [unfolded word_unat_eq_iff, simplified]
        heap_addr [OF core le(3)] unat_mod heap_addr [OF core le(2)] dvd_eq_mod_eq_0 [symmetric]
        add.assoc [symmetric] dvd_add)
  have used2: "MEM_ISUSED ?m2 new = MEM_ISUSED ?m1 new"
    by (simp add: MEM_ISUSED_def item_pool_ptr_def)
  have res: "smem_alloc_at (of_nat a) (of_nat s) m = Some (heap_ptr m + of_nat (a + 16), ?m2)"
    unfolding smem_alloc_at_def Let_def lf1 using lf2 end_ok al plus(1) sh used2 by simp
  have sh2: "same_heap ?m2 ?m1" by (simp add: same_heap_def)
  have "used_total ?bs' = used_total ?bs + taken s n" by simp
  then have "mem_used ?m1 = of_nat (used_total ?bs')"
    using tk(5) mu by (simp only: of_nat_add)
  then have "heap_rep ?m2 ?bs'"
    using tk(1) heap_core_cong [OF sh2, of ?bs'] used_prefix [OF nf] tk(6)
    by (simp add: heap_rep_def new_def)
  moreover have "only_items ?bs' m ?m2" using tk(2) by (simp add: only_items_def)
  ultimately show ?thesis
    using res same_heap_trans [OF sh2 tk(3)] by blast
qed

definition alloc_refines :: "small_mem \<Rightarrow> block list \<Rightarrow> nat \<Rightarrow> (u32 \<times> small_mem) option \<Rightarrow> bool" where
  "alloc_refines m bs s res \<longleftrightarrow>
    (case alloc_spec s bs of
       None \<Rightarrow> res = Some (0, m)
     | Some (i, bs') \<Rightarrow> \<exists>m'. res = Some (heap_ptr m + of_nat (i + 16), m') \<and> heap_rep m' bs' \<and>
         only_items bs' m m' \<and> same_heap m' m)"

lemma alloc_rep:
  assumes rep: "heap_rep m bs" and r: "r \<noteq> 0"
  shows "alloc_refines m bs (request r) (rt_smem_alloc r m)"
proof -
  define s where "s = request r"
  have core: "heap_core m bs" and lf: "lfree m = of_nat (first_free bs)"
    using rep by (simp_all add: heap_rep_def)
  note b = heap_core_bounds [OF core]
  have s: "16 \<le> s" "8 dvd s" "s < 4294967296" using request_props by (simp_all add: s_def)
  have ch: "chain (heap m) (sm_self m) 0 0 bs" using core by (simp add: heap_core_def)
  have too_big: "(of_nat s > mem_size_aligned m) = (extent bs < s + 16)"
    unfolding b(4) using s(3) b(1,2) by (auto simp: less_diff_conv)
  show ?thesis
  proof (cases "extent bs < s + 16")
    case True
    have "k \<le> extent bs" if "(k, v) \<in> set bs" for k v
      using that member_le_sum_list [of k "map fst bs"] by (force simp: extent_def)
    then have "alloc_spec s bs = None" using True unfolding alloc_spec_None by fastforce
    then show ?thesis
      unfolding alloc_refines_def rt_smem_alloc_eq [OF r] s_def [symmetric] using True too_big by simp
  next
    case False
    define us zs where "us = takeWhile snd bs" and "zs = dropWhile snd bs"
    have bs: "bs = us @ zs" "\<forall>b\<in>set us. snd b" "first_free bs = extent us"
      by (auto simp: us_def zs_def first_free_def dest: set_takeWhileD)
    have "smem_find m (of_nat s) (of_nat (extent us)) =
        Some (map_option (\<lambda>(i, _). of_nat (extent us + i)) (alloc_spec s zs))"
      by (rule smem_find_chain [of m "sm_self m" "last_off 0 0 us"])
        (use ch b False bs(1) in auto)
    moreover have "map_option (\<lambda>(i, _). of_nat (extent us + i)) (alloc_spec s zs) =
        map_option (\<lambda>(i, _). of_nat i :: u32) (alloc_spec s bs)"
      unfolding bs(1) alloc_spec_skip [OF bs(2)] by (auto simp: map_option_case split: option.splits)
    ultimately have find: "smem_find m (of_nat s) (lfree m) =
        Some (map_option (\<lambda>(i, _). of_nat i) (alloc_spec s bs))"
      using lf bs(3) by simp
    show ?thesis
    proof (cases "alloc_spec s bs")
      case None
      then show ?thesis
        unfolding alloc_refines_def rt_smem_alloc_eq [OF r] s_def [symmetric] find by simp
    next
      case (Some ib)
      obtain i bs' where ib: "ib = (i, bs')" by (cases ib)
      from Some have "alloc_spec s bs = Some (i, bs')" by (simp add: ib)
      then obtain xs n ys where sp: "bs = xs @ (n, False) # ys" "i = extent xs" "s + 16 \<le> n"
        "bs' = xs @ split_block s n @ ys" by (rule alloc_spec_Some)
      obtain m' where "smem_alloc_at (of_nat i) (of_nat s) m = Some (heap_ptr m + of_nat (i + 16), m')"
        "heap_rep m' bs'" "only_items bs' m m'" "same_heap m' m"
        using alloc_at_rep [OF rep [unfolded sp(1)] sp(2) s(1,2) sp(3)] sp(4) by blast
      then show ?thesis
        unfolding alloc_refines_def rt_smem_alloc_eq [OF r] s_def [symmetric] find Some ib
        using False too_big by simp
    qed
  qed
qed

section \<open>Merging neighbours\<close>

lemma coalesce_prefix:
  "no_free_pair xs \<Longrightarrow> xs = [] \<or> snd (last xs) \<Longrightarrow> coalesce (xs @ zs) = xs @ coalesce zs"
proof (induction xs)
  case (Cons b xs)
  obtain n u where b: "b = (n, u)" by (cases b)
  show ?case
  proof (cases xs)
    case Nil
    with Cons.prems b show ?thesis by simp
  next
    case (Cons c xs')
    obtain k w where "c = (k, w)" by (cases c)
    with Cons.IH Cons.prems b Cons show ?thesis by (cases u; cases w) (auto split: if_splits)
  qed
qed simp

lemma coalesce_facts:
  "extent (coalesce bs) = extent bs" "used_total (coalesce bs) = used_total bs"
  "first_free (coalesce bs) = first_free bs"
  "no_free_pair (coalesce bs) \<and> (bs \<noteq> [] \<longrightarrow> coalesce bs \<noteq> [] \<and> snd (hd (coalesce bs)) = snd (hd bs))"
  by (induction bs rule: coalesce.induct) auto

lemma coalesce_free_head:
  "no_free_pair ys \<Longrightarrow> coalesce ((n, False) # ys) =
    (if ys \<noteq> [] \<and> \<not> snd (hd ys) then (n + fst (hd ys), False) # tl ys else (n, False) # ys)"
proof (cases ys)
  case (Cons c cs)
  assume nf: "no_free_pair ys"
  obtain k w where c: "c = (k, w)" by (cases c)
  show ?thesis
  proof (cases w)
    case False
    then have "no_free_pair ((n + k, False) # cs)" using nf Cons c by simp
    with False show ?thesis by (simp add: Cons c)
  qed (use nf Cons c in simp)
qed simp

fun items_from :: "nat \<Rightarrow> block list \<Rightarrow> nat set" where
  "items_from a [] = {a, a + 4, a + 8}"
| "items_from a (b # bs) = {a, a + 4, a + 8} \<union> items_from (a + fst b) bs"

lemma items_from_append [simp]:
  "items_from a (xs @ ys) = items_from a xs \<union> items_from (a + extent xs) ys"
proof (induction xs arbitrary: a)
  case Nil
  show ?case by (cases ys) auto
qed (auto simp: add.assoc)

lemma items_from_start: "{a, a + 4, a + 8} \<subseteq> items_from a bs"
  by (cases bs) auto

lemma items_from_prefix:
  "i \<in> items_from a bs \<Longrightarrow>
    \<exists>xs ys. bs = xs @ ys \<and> i \<in> {a + extent xs, a + extent xs + 4, a + extent xs + 8}"
proof (induction bs arbitrary: a)
  case Nil
  then show ?case by simp
next
  case (Cons b bs)
  show ?case
  proof (cases "i \<in> {a, a + 4, a + 8}")
    case True
    then show ?thesis by (intro exI [of _ "[]"] exI [of _ "b # bs"]) simp
  next
    case False
    with Cons.prems have "i \<in> items_from (a + fst b) bs" by simp
    from Cons.IH [OF this] obtain xs ys where "bs = xs @ ys"
      "i \<in> {a + fst b + extent xs, a + fst b + extent xs + 4, a + fst b + extent xs + 8}" by blast
    then show ?thesis by (intro exI [of _ "b # xs"] exI [of _ ys]) (simp add: add.assoc)
  qed
qed

lemma item_word_from: "item_word bs i \<longleftrightarrow> i \<in> items_from 0 bs"
proof
  assume "item_word bs i"
  then show "i \<in> items_from 0 bs"
    unfolding item_word_def using items_from_start by fastforce
next
  assume "i \<in> items_from 0 bs"
  from items_from_prefix [OF this] show "item_word bs i" unfolding item_word_def by simp
qed

text \<open>Joining two blocks only removes an item.\<close>

lemma item_word_join: "item_word (xs @ (n + k, u) # ys) i \<Longrightarrow> item_word (xs @ (n, v) # (k, w) # ys) i"
  by (auto simp: item_word_from add.assoc)

lemma only_items_join:
  "only_items (xs @ (n + k, u) # ys) m m' \<Longrightarrow> only_items (xs @ (n, v) # (k, w) # ys) m m'"
  unfolding only_items_def using item_word_join by blast

section \<open>plug_holes\<close>

lemma same_heap_refl [simp]: "same_heap m m"
  by (simp add: same_heap_def)

text \<open>
  What a call that only works on the list leaves behind: a list in order, the accounting and
  lfree as they were, no word changed but items.
\<close>

definition relinked :: "block list \<Rightarrow> small_mem \<Rightarrow> block list \<Rightarrow> small_mem \<Rightarrow> bool" where
  "relinked bs m bs' m' \<longleftrightarrow> heap_core m' bs' \<and> only_items bs m m' \<and> same_heap m' m \<and>
    lfree m' = lfree m \<and> mem_used m' = mem_used m \<and> mem_max m' = mem_max m"

lemma plug_forward_rep:
  assumes core: "heap_core m (xs @ (n, False) # ys)" and a: "a = extent xs"
    and lf: "lfree m = of_nat l" "l \<le> a" and nf: "no_free_pair ys"
  shows "relinked (xs @ (n, False) # ys) m (xs @ coalesce ((n, False) # ys)) (plug_forward (of_nat a) m)"
proof -
  note c = core_block [OF core a]
  have E: "extent (xs @ (n, False) # ys) = a + n + extent ys" by (simp add: a)
  note b = heap_core_bounds(1) [OF core, unfolded E]
  have lt: "a < 4294967296" "a + n < 4294967296" using b by simp_all
  have next_eq: "item_next m (of_nat a) = of_nat (a + n)" using lt c(2) by (simp add: item_at)
  have ne: "(of_nat a :: u32) \<noteq> of_nat (a + n)" "lfree m \<noteq> of_nat (a + n)"
    using lt c(4) lf b by simp_all
  have he: "heap_end m = of_nat (a + n + extent ys)" using core E by (simp add: heap_core_def)
  have pf: "plug_forward (of_nat a) m =
      (if \<not> MEM_ISUSED m (of_nat (a + n)) \<and> ys \<noteq> [] then smem_join (of_nat a) (of_nat (a + n)) m else m)"
  proof -
    have "24 \<le> extent ys" if "ys \<noteq> []" by (rule chain_extent_pos [OF c(9) that])
    then have "(of_nat (a + n) :: u32) = heap_end m \<longleftrightarrow> ys = []"
      unfolding he using b by (cases "ys = []") auto
    then show ?thesis unfolding plug_forward_def Let_def next_eq using ne by simp
  qed
  show ?thesis
  proof (cases ys)
    case Nil
    then show ?thesis using core by (simp add: pf relinked_def)
  next
    case (Cons d ds)
    obtain k w where d: "d = (k, w)" by (cases d)
    have "heap m (a + n) = (if w then MEM_USED (sm_self m) else MEM_FREED (sm_self m))"
      using c(9) Cons d by simp
    then have used: "MEM_ISUSED m (of_nat (a + n)) = w" by (rule MEM_ISUSED_at [OF lt(2)])
    show ?thesis
    proof (cases w)
      case True
      then show ?thesis using core nf
        by (simp add: pf used relinked_def coalesce_free_head Cons d)
    next
      case False
      then have "heap_core m (xs @ (n, False) # (k, False) # ds)" using core Cons d by simp
      from core_join [OF this a] False nf show ?thesis
        by (simp add: pf used relinked_def coalesce_free_head Cons d del: coalesce.simps)
    qed
  qed
qed

lemma plug_backward_rep:
  assumes core: "heap_core m (xs @ (n, False) # ys)" and a: "a = extent xs"
    and lf: "lfree m = of_nat (first_free (xs @ (n, False) # ys))"
    and nf: "no_free_pair xs" "no_free_pair ((n, False) # ys)"
  shows "relinked (xs @ (n, False) # ys) m (coalesce (xs @ (n, False) # ys)) (plug_backward (of_nat a) m)"
proof -
  note c = core_block [OF core a]
  have lt: "a < 4294967296" using c(7) by simp
  have prev: "item_prev m (of_nat a) = of_nat (last_off 0 0 xs)" using lt c(3) by (simp add: item_at)
  show ?thesis
  proof (cases xs rule: rev_cases)
    case Nil
    then have "last_off 0 0 xs = a" using a by simp
    then have "plug_backward (of_nat a) m = m" unfolding plug_backward_def prev Let_def by simp
    then show ?thesis using core nf(2) Nil by (simp add: relinked_def)
  next
    case (snoc us d)
    obtain j w where d: "d = (j, w)" by (cases d)
    have core': "heap_core m (us @ (j, w) # (n, False) # ys)" using core snoc d by simp
    note cu = core_block [OF core' refl]
    have aj: "a = extent us + j" by (simp add: a snoc d)
    have lo: "last_off 0 0 xs = extent us" by (simp add: snoc d)
    have ne: "(of_nat (extent us) :: u32) \<noteq> of_nat a" using lt cu(4) aj by simp
    have used: "MEM_ISUSED m (of_nat (extent us)) = w"
      by (rule MEM_ISUSED_at) (use lt aj cu(1) in auto)
    show ?thesis
    proof (cases w)
      case True
      then have "plug_backward (of_nat a) m = m"
        by (simp add: plug_backward_def prev lo used)
      moreover have "coalesce (xs @ (n, False) # ys) = xs @ (n, False) # ys"
        using coalesce_prefix [OF nf(1)] nf(2) True by (simp add: snoc d)
      ultimately show ?thesis using core by (simp add: relinked_def)
    next
      case False
      have "first_free (xs @ (n, False) # ys) \<le> extent us"
        using False by (auto simp: snoc d first_free_append intro: first_free_le)
      then have "lfree m \<noteq> of_nat a"
        unfolding lf using lt aj cu(4) by (subst of_nat_u32_inj) auto
      then have pb: "plug_backward (of_nat a) m = smem_join (of_nat (extent us)) (of_nat a) m"
        using ne False by (simp add: plug_backward_def prev lo used)
      have nfu: "no_free_pair us" "us = [] \<or> snd (last us)"
        using nf(1) False by (auto simp: snoc d no_free_pair_append)
      have "no_free_pair ((j + n, False) # ys)" using nf(2) by simp
      then have "coalesce (xs @ (n, False) # ys) = us @ (j + n, False) # ys"
        using coalesce_prefix [OF nfu] False by (simp add: snoc d)
      with core_join [OF core' refl] False show ?thesis
        by (simp add: pb [unfolded aj] aj relinked_def snoc d)
    qed
  qed
qed

lemma coalesce_twice:
  assumes "no_free_pair xs" "no_free_pair ys"
  shows "coalesce (xs @ coalesce ((n, False) # ys)) = coalesce (xs @ (n, False) # ys)"
proof -
  have nf: "no_free_pair (coalesce zs)" for zs using coalesce_facts(4) by blast
  show ?thesis
  proof (cases "xs = [] \<or> snd (last xs)")
    case True
    with assms(1) show ?thesis by (simp add: coalesce_prefix nf del: coalesce.simps)
  next
    case False
    then obtain us d where "xs = us @ [d]" by (cases xs rule: rev_cases) auto
    with False obtain j where xs: "xs = us @ [(j, False)]" by (cases d) auto
    have us: "no_free_pair us" "us = [] \<or> snd (last us)"
      using assms(1) by (auto simp: xs no_free_pair_append)
    have "coalesce ((j, False) # coalesce ((n, False) # ys)) = coalesce ((j, False) # (n, False) # ys)"
      using assms(2) coalesce_free_head [OF assms(2), of "j + n"] coalesce_free_head [OF assms(2), of n]
      by (cases ys) (auto simp: coalesce_free_head add.assoc split: if_splits)
    then show ?thesis by (simp add: xs coalesce_prefix [OF us] del: coalesce.simps)
  qed
qed

lemma plug_holes_rep:
  assumes core: "heap_core m (xs @ (n, False) # ys)" and a: "a = extent xs"
    and lf: "lfree m = of_nat (first_free (xs @ (n, False) # ys))"
    and nf: "no_free_pair xs" "no_free_pair ys"
  shows "\<exists>m'. plug_holes (of_nat a) m = Some m' \<and>
    relinked (xs @ (n, False) # ys) m (coalesce (xs @ (n, False) # ys)) m'"
proof -
  let ?bs = "xs @ (n, False) # ys"
  let ?m1 = "plug_forward (of_nat a) m"
  obtain k zs where z: "coalesce ((n, False) # ys) = (k, False) # zs"
    using coalesce_free_head [OF nf(2), of n] by (auto split: if_splits)
  have nfz: "no_free_pair ((k, False) # zs)" using coalesce_facts(4) [of "(n, False) # ys"] z by simp
  have le: "first_free ?bs \<le> a" by (auto simp: a first_free_append intro: first_free_le)
  have r1: "relinked ?bs m (xs @ (k, False) # zs) ?m1"
    using plug_forward_rep [OF core a lf le nf(2)] z by simp
  have ff: "first_free (xs @ (k, False) # zs) = first_free ?bs"
    by (simp add: first_free_append)
  have r2: "relinked (xs @ (k, False) # zs) ?m1 (coalesce (xs @ (k, False) # zs)) (plug_backward (of_nat a) ?m1)"
    using r1 lf by (intro plug_backward_rep [OF _ a _ nf(1) nfz]) (auto simp: relinked_def ff)
  have eq: "coalesce (xs @ (k, False) # zs) = coalesce ?bs"
    using coalesce_twice [OF nf, of n] z by simp
  have "only_items ?bs ?m1 m'" if "only_items (xs @ (k, False) # zs) ?m1 m'" for m'
  proof (cases "ys \<noteq> [] \<and> \<not> snd (hd ys)")
    case True
    then obtain j ds where ys: "ys = (j, False) # ds" by (cases ys) auto
    then have "k = n + j" "zs = ds" using z coalesce_free_head [OF nf(2), of n] by auto
    with that show ?thesis unfolding ys by (auto intro: only_items_join)
  next
    case False
    then have "k = n" "zs = ys" using z coalesce_free_head [OF nf(2), of n] by auto
    with that show ?thesis by simp
  qed
  then have r: "relinked ?bs m (coalesce ?bs) (plug_backward (of_nat a) ?m1)"
    using r1 r2 unfolding relinked_def eq by (auto intro: only_items_trans same_heap_trans)
  have E: "a + n \<le> extent ?bs" and n: "24 \<le> n" using core_block(4,6) [OF core a] by simp_all
  have ad: "unat (heap_ptr m + of_nat a) = unat (heap_ptr m) + a"
    "unat (heap_ptr m + heap_end m) = unat (heap_ptr m) + extent ?bs"
    using E heap_addr [OF core, of a] heap_end_addr [OF core] by simp_all
  have "heap_ptr m + of_nat a \<ge> heap_ptr m \<and> heap_ptr m + of_nat a < heap_ptr m + heap_end m"
    unfolding word_le_nat_alt word_less_nat_alt ad using E n by simp
  then have "plug_holes (of_nat a) m = Some (plug_backward (of_nat a) ?m1)"
    by (simp add: plug_holes_def)
  with r show ?thesis by blast
qed

section \<open>rt_smem_free\<close>

lemma client_pointer:
  fixes h :: u32 and a :: nat
  shows "h + of_nat (a + 16) - SIZEOF_STRUCT_MEM - h = of_nat a"
  unfolding SIZEOF_STRUCT_MEM_eq of_nat_add by (simp del: of_nat_16)

lemma MEM_POOL_at:
  "a < 4294967296 \<Longrightarrow> heap m a = MEM_USED q \<or> heap m a = MEM_FREED q \<Longrightarrow> MEM_POOL m (of_nat a) = q AND MEM_MASK"
  by (auto simp: MEM_POOL_def item_at)

lemma first_free_mark:
  "first_free (xs @ (n, False) # ys) = min (extent xs) (first_free (xs @ (n, True) # ys))"
  using first_free_le [of xs] by (auto simp: first_free_append min_def)

text \<open>The checks rt_smem_free makes on the pointer, and the words it looks at.\<close>

lemma free_checks:
  assumes core: "heap_core m (xs @ (n, True) # ys)" and a: "a = extent xs"
  defines "p \<equiv> heap_ptr m + of_nat (a + 16)"
  shows "p \<noteq> 0" "p AND (RT_ALIGN_SIZE - 1) = 0" "p \<ge> heap_ptr m" "p < heap_ptr m + heap_end m"
    "MEM_POOL m (of_nat a) = sm_self m" "MEM_ISUSED m (of_nat a)"
    "item_next m (of_nat a) = of_nat (a + n)" "MEM_POOL m (of_nat (a + n)) = sm_self m"
proof -
  note c = core_block [OF core a]
  let ?bs = "xs @ (n, True) # ys"
  have E: "a + 24 \<le> extent ?bs" using c(4,6) by simp
  have lt: "a < 4294967296" "a + n < 4294967296" using c(7) by simp_all
  have self: "sm_self m AND MEM_MASK = sm_self m" using core by (simp add: heap_core_def)
  have up: "unat p = unat (heap_ptr m) + (a + 16)"
    "unat (heap_ptr m + heap_end m) = unat (heap_ptr m) + extent ?bs"
    using E heap_addr [OF core, of "a + 16"] heap_end_addr [OF core] by (simp_all add: p_def)
  show "p \<noteq> 0" "p \<ge> heap_ptr m" "p < heap_ptr m + heap_end m"
    unfolding word_unat_eq_iff word_le_nat_alt word_less_nat_alt up using E by simp_all
  have "8 dvd unat p"
    using core chain_total_dvd [OF c(8)] unfolding up by (simp add: heap_core_def a)
  then show "p AND (RT_ALIGN_SIZE - 1) = 0" by (simp add: RT_ALIGN_SIZE_def and_7)
  show "MEM_POOL m (of_nat a) = sm_self m" using MEM_POOL_at [OF lt(1), of m "sm_self m"] c(1) self by simp
  show "MEM_ISUSED m (of_nat a)" using MEM_ISUSED_at [OF lt(1), of m True] c(1) by simp
  show "item_next m (of_nat a) = of_nat (a + n)" using lt c(2) by (simp add: item_at)
  have "heap m (a + n) = MEM_USED (sm_self m) \<or> heap m (a + n) = MEM_FREED (sm_self m)"
  proof (cases ys)
    case Nil
    then show ?thesis using core by (simp add: heap_core_def a)
  next
    case (Cons d ds)
    then show ?thesis using c(9) by (cases d) simp
  qed
  then show "MEM_POOL m (of_nat (a + n)) = sm_self m" using MEM_POOL_at [OF lt(2), of m "sm_self m"] self by simp
qed

lemma free_rep:
  assumes rep: "heap_rep m (xs @ (n, True) # ys)" and a: "a = extent xs"
  shows "\<exists>m'. rt_smem_free (heap_ptr m + of_nat (a + 16)) m = Some m' \<and>
    heap_rep m' (coalesce (xs @ (n, False) # ys)) \<and> only_items (xs @ (n, True) # ys) m m' \<and> same_heap m' m"
proof -
  let ?bs = "xs @ (n, True) # ys" and ?fs = "xs @ (n, False) # ys"
  have core: "heap_core m ?bs" and lf: "lfree m = of_nat (first_free ?bs)" and nf: "no_free_pair ?bs"
    and mu: "mem_used m = of_nat (used_total ?bs)" "mem_used m \<le> mem_max m"
    using rep unfolding heap_rep_def by blast+
  note c = core_block [OF core a] and ck = free_checks [OF core a]
  have E: "extent ?bs = a + n + extent ys" by (simp add: a)
  note b = heap_core_bounds(1) [OF core, unfolded E]
  have self0: "sm_self m \<noteq> 0" using core by (simp add: heap_core_def)
  let ?m1 = "set_pool_ptr (of_nat a) (MEM_FREED (sm_self m)) m"
  let ?m2 = "if of_nat a < lfree ?m1 then ?m1\<lparr>lfree := of_nat a\<rparr> else ?m1"
  let ?m3 = "?m2\<lparr>mem_used := mem_used ?m2 - (item_next ?m2 (of_nat a) - of_nat a)\<rparr>"
  have h3: "heap ?m3 = heap ?m1" "same_heap ?m3 ?m1" by (auto simp: same_heap_def)
  have core3: "heap_core ?m3 ?fs"
    using core_mark(1) [OF core a, of False] heap_core_cong [OF h3(2,1)] by simp
  have fs: "first_free ?bs < 4294967296" using first_free_le [of ?bs] b E by simp
  have lf3: "lfree ?m3 = of_nat (first_free ?fs)"
    using fs b by (simp add: lf first_free_mark a [symmetric] min_def)
  have room: "(of_nat (a + n) :: u32) - of_nat a = of_nat n"
    by (subst of_nat_u32_diff) simp_all
  have lt: "a < 4294967296" using b by simp
  have "item_next ?m2 (of_nat a) = of_nat (a + n)"
    using lt c(2) by (simp add: item_at heap_set [OF lt])
  moreover have ut: "used_total ?bs = n + used_total ?fs" by simp
  then have "(of_nat (used_total ?bs) :: u32) - of_nat n = of_nat (used_total ?fs)"
    by (subst of_nat_u32_diff) simp_all
  ultimately have mu3: "mem_used ?m3 = of_nat (used_total ?fs)"
    using mu(1) room by simp
  have "used_total ?bs < 4294967296" using used_total_le [of ?bs] b E by simp
  then have "of_nat (used_total ?fs) \<le> mem_used m" unfolding mu(1) using ut by (subst of_nat_u32_le) auto
  then have mm3: "mem_used ?m3 \<le> mem_max ?m3" using mu(2) unfolding mu3 by simp
  have nf': "no_free_pair xs" "no_free_pair ys" using nf by (auto simp: no_free_pair_append)
  from plug_holes_rep [OF core3 a lf3 nf'] obtain m' where
    ph: "plug_holes (of_nat a) ?m3 = Some m'" "relinked ?fs ?m3 (coalesce ?fs) m'" by blast
  have "rt_smem_free (heap_ptr m + of_nat (a + 16)) m = plug_holes (of_nat a) ?m3"
    unfolding rt_smem_free_def client_pointer Let_def using ck self0 by simp
  moreover have "heap_rep m' (coalesce ?fs)"
    using ph(2) lf3 mu3 mm3 coalesce_facts(4) [of ?fs]
    by (simp add: heap_rep_def relinked_def coalesce_facts(2,3))
  moreover have "only_items ?bs m m'"
  proof -
    have "only_items ?bs m ?m1" using core_mark(2) [OF core a] by simp
    moreover have "only_items ?bs ?m1 m'"
      using ph(2) h3(1) only_items_fst [of ?bs ?fs ?m3 m'] by (simp add: relinked_def only_items_def)
    ultimately show ?thesis by (rule only_items_trans)
  qed
  moreover have "same_heap m' m"
    using ph(2) h3(2) same_heap_simps(1) by (auto simp: relinked_def intro: same_heap_trans)
  ultimately show ?thesis using ph(1) by auto
qed

section \<open>rt_smem_realloc\<close>

text \<open>The branch that cuts a block down to the part of size \<open>k\<close> (with its item).\<close>

lemma shrink_rep:
  assumes rep: "heap_rep m (xs @ (n, True) # ys)" and a: "a = extent xs"
    and k: "24 \<le> k" "k + 24 \<le> n" "8 dvd k"
  shows "\<exists>m'. smem_shrink (of_nat a) (of_nat (n - 16)) (of_nat (k - 16)) m = Some m' \<and>
    heap_rep m' (coalesce (xs @ (k, True) # (n - k, False) # ys)) \<and>
    only_items (xs @ (k, True) # (n - k, False) # ys) m m' \<and> same_heap m' m"
proof -
  let ?us = "xs @ [(k, True)]"
  let ?bs = "xs @ (n, True) # ys" and ?cs = "?us @ (n - k, False) # ys"
  have core: "heap_core m ?bs" and lf: "lfree m = of_nat (first_free ?bs)" and nf: "no_free_pair ?bs"
    and mu: "mem_used m = of_nat (used_total ?bs)" "mem_used m \<le> mem_max m"
    using rep unfolding heap_rep_def by blast+
  have E: "extent ?bs = a + n + extent ys" by (simp add: a)
  note b = heap_core_bounds(1) [OF core, unfolded E]
  have diff: "(of_nat (n - 16) :: u32) - of_nat (k - 16) = of_nat (n - k)"
    using k by (subst of_nat_u32_diff) simp_all
  have ptr2: "(of_nat a :: u32) + SIZEOF_STRUCT_MEM + of_nat (k - 16) = of_nat (a + k)"
  proof -
    have "a + k = a + 16 + (k - 16)" using k by simp
    then show ?thesis by (simp only: SIZEOF_STRUCT_MEM_eq of_nat_16 of_nat_add)
  qed
  let ?m0 = "m\<lparr>mem_used := mem_used m - of_nat (n - k)\<rparr>"
  let ?m1 = "smem_split (of_nat a) (of_nat (a + k)) ?m0"
  let ?m2 = "if of_nat (a + k) < lfree ?m1 then ?m1\<lparr>lfree := of_nat (a + k)\<rparr> else ?m1"
  have h0: "heap ?m0 = heap m" "same_heap ?m0 m" by (simp_all add: same_heap_def)
  have core0: "heap_core ?m0 ?bs" using core heap_core_cong [OF h0(2,1)] by simp
  have h2: "heap ?m2 = heap ?m1" "same_heap ?m2 ?m1" by (simp_all add: same_heap_def)
  note sp = core_split [OF core0 a k]
  have core2: "heap_core ?m2 ?cs" using sp(1) heap_core_cong [OF h2(2,1)] by simp
  have "first_free ?bs = first_free (?us @ (n - k, True) # ys)" using k by (simp add: first_free_append)
  then have ff: "first_free ?cs = min (a + k) (first_free ?bs)"
    using first_free_mark [of ?us "n - k" ys] by (simp add: a)
  then have ff': "first_free (xs @ (k, True) # (n - k, False) # ys) = min (a + k) (first_free ?bs)"
    by simp
  have "first_free ?bs < 4294967296" "a + k < 4294967296" using first_free_le [of ?bs] b k E by simp_all
  then have lf2: "lfree ?m2 = of_nat (first_free ?cs)"
    by (simp add: lf ff' min_def)
  have nf': "no_free_pair ?us" "no_free_pair ys" using nf by (auto simp: no_free_pair_append)
  have "a + k = extent ?us" by (simp add: a)
  from plug_holes_rep [OF core2 this lf2 nf'] obtain m' where
    ph: "plug_holes (of_nat (a + k)) ?m2 = Some m'" "relinked ?cs ?m2 (coalesce ?cs) m'" by blast
  have res: "smem_shrink (of_nat a) (of_nat (n - 16)) (of_nat (k - 16)) m = Some m'"
    unfolding smem_shrink_def diff ptr2 Let_def by (rule ph(1))
  have le: "n - k \<le> used_total ?bs" "used_total ?cs \<le> used_total ?bs" using k by simp_all
  have "used_total ?bs - (n - k) = used_total ?cs" using k by simp
  with of_nat_u32_diff [OF le(1)]
  have ut: "(of_nat (used_total ?bs) :: u32) - of_nat (n - k) = of_nat (used_total ?cs)"
    by (simp only:)
  have "mem_used ?m2 = mem_used m - of_nat (n - k)" by simp
  also have "\<dots> = of_nat (used_total ?cs)" unfolding mu(1) by (rule ut)
  finally have mu2: "mem_used ?m2 = of_nat (used_total ?cs)" .
  have "used_total ?bs < 4294967296" using used_total_le [of ?bs] b E by simp
  then have "of_nat (used_total ?cs) \<le> mem_used m"
    unfolding mu(1) using le(2) by (subst of_nat_u32_le) auto
  then have mm2: "mem_used ?m2 \<le> mem_max ?m2" using mu(2) unfolding mu2 by simp
  have rep': "heap_rep m' (coalesce ?cs)"
    using ph(2) lf2 mu2 mm2 coalesce_facts(4) [of ?cs]
    by (simp add: heap_rep_def relinked_def coalesce_facts(2,3))
  have "only_items ?cs m m'"
    using sp(2) ph(2) h2(1) h0(1) unfolding only_items_def relinked_def by simp
  moreover have "same_heap m' ?m2" using ph(2) unfolding relinked_def by blast
  then have "same_heap m' m"
    by (rule same_heap_trans [OF _ same_heap_trans [OF h2(2) same_heap_trans [OF smem_split_frame(1) h0(2)]]])
  ultimately show ?thesis using res rep' by simp
qed

section \<open>Live blocks\<close>

text \<open>The used blocks with their offsets; the data of a block lies behind its item.\<close>

fun live :: "nat \<Rightarrow> block list \<Rightarrow> (nat \<times> nat) set" where
  "live a [] = {}"
| "live a ((n, u) # bs) = (if u then {(a, n)} else {}) \<union> live (a + n) bs"

lemma live_append [simp]: "live a (xs @ ys) = live a xs \<union> live (a + extent xs) ys"
  by (induction xs arbitrary: a) (auto simp: add.assoc)

lemma live_Cons: "live a (b # bs) = (if snd b then {(a, fst b)} else {}) \<union> live (a + fst b) bs"
  by (cases b) simp

lemma live_coalesce [simp]: "live a (coalesce bs) = live a bs"
  by (induction bs arbitrary: a rule: coalesce.induct)
    (simp_all add: live_Cons add.assoc [symmetric] del: live.simps(2))

lemma live_split: "s + 16 \<le> n \<Longrightarrow>
    live 0 (xs @ split_block s n @ ys) = insert (extent xs, taken s n) (live 0 (xs @ (n, False) # ys))"
  by (auto simp: split_block_def taken_def add.assoc)

lemma live_bounds: "(b, n) \<in> live a bs \<Longrightarrow> a \<le> b \<and> b + n \<le> a + extent bs"
  by (induction bs arbitrary: a) (fastforce split: if_splits)+

lemma items_from_ge: "i \<in> items_from a bs \<Longrightarrow> a \<le> i"
  by (induction bs arbitrary: a) fastforce+

lemma live_data:
  "\<forall>b\<in>set bs. 24 \<le> fst b \<Longrightarrow> (b, n) \<in> live a bs \<Longrightarrow> b + 16 \<le> i \<Longrightarrow> i < b + n \<Longrightarrow> i \<notin> items_from a bs"
proof (induction bs arbitrary: a)
  case (Cons d bs)
  obtain k u where d: "d = (k, u)" by (cases d)
  show ?case
  proof (cases "(b, n) \<in> live (a + k) bs")
    case True
    then have "a + k \<le> b" using live_bounds by blast
    moreover have "i \<notin> items_from (a + k) bs" using Cons.IH [OF _ True] Cons.prems by simp
    ultimately show ?thesis using Cons.prems d by auto
  next
    case False
    then have "b = a" "n = k" using Cons.prems(2) d by (auto split: if_splits)
    then show ?thesis using Cons.prems(3,4) items_from_ge [of i "a + k" bs] d by auto
  qed
qed simp

text \<open>The data of a live block survives every call that writes to items only.\<close>

lemma live_data_kept:
  assumes "heap_core m0 bs" "only_items bs m m'" "(b, n) \<in> live 0 bs" "b + 16 \<le> i" "i < b + n"
  shows "heap m' i = heap m i"
proof -
  have "\<forall>d\<in>set bs. 24 \<le> fst d" using assms(1) chain_pos by (auto simp: heap_core_def)
  then have "\<not> item_word bs i" using live_data assms(3-5) unfolding item_word_from by blast
  then show ?thesis using assms(2) by (simp add: only_items_def)
qed

lemma live_split_list:
  "(b, n) \<in> live a bs \<Longrightarrow> \<exists>xs ys. bs = xs @ (n, True) # ys \<and> b = a + extent xs"
proof (induction bs arbitrary: a)
  case (Cons d bs)
  obtain k u where d: "d = (k, u)" by (cases d)
  show ?case
  proof (cases "(b, n) \<in> live (a + k) bs")
    case True
    from Cons.IH [OF this] obtain xs ys where "bs = xs @ (n, True) # ys" "b = a + k + extent xs" by blast
    then show ?thesis by (intro exI [of _ "d # xs"] exI [of _ ys]) (simp add: d add.assoc)
  next
    case False
    then have "u" "b = a" "n = k" using Cons.prems d by (auto split: if_splits)
    then show ?thesis by (intro exI [of _ "[]"] exI [of _ bs]) (simp add: d)
  qed
qed simp

text \<open>Live blocks do not overlap, and none starts where another does.\<close>

lemma live_disjoint:
  "(b, n) \<in> live a bs \<Longrightarrow> (c, k) \<in> live a bs \<Longrightarrow> (b, n) \<noteq> (c, k) \<Longrightarrow> b + n \<le> c \<or> c + k \<le> b"
proof (induction bs arbitrary: a)
  case (Cons d bs)
  obtain j u where d: "d = (j, u)" by (cases d)
  show ?case
    using Cons.prems Cons.IH [of "a + j"] live_bounds [of b n "a + j" bs] live_bounds [of c k "a + j" bs]
    by (auto simp: d split: if_splits)
qed simp

end
