(* ===== verification/Small_Mem_Heap.thy ===== *)
theory Small_Mem_Heap
  imports Small_Mem_Spec
begin

text \<open>
  The operations of mem.c on the set of live blocks: what rt_smem_alloc, rt_smem_free and
  rt_smem_realloc add to it and take from it, whose data they leave alone, and the heap that
  rt_smem_init makes.
\<close>

section \<open>Writes of clients\<close>

lemma chain_items_cong:
  "(\<And>i. i \<in> items_from a bs \<Longrightarrow> M' i = M i) \<Longrightarrow> chain M pool p a bs \<Longrightarrow> chain M' pool p a bs"
proof (induction bs arbitrary: p a)
  case (Cons b bs)
  obtain n u where b: "b = (n, u)" by (cases b)
  have "chain M' pool a (a + n) bs" by (rule Cons.IH) (use Cons.prems b in auto)
  then show ?case using Cons.prems b by simp
qed simp

lemma items_from_end: "{a + extent bs, a + extent bs + 4, a + extent bs + 8} \<subseteq> items_from a bs"
proof -
  have "items_from a (bs @ []) = items_from a bs \<union> items_from (a + extent bs) []"
    by (rule items_from_append)
  then show ?thesis by simp blast
qed

text \<open>A change of memory outside all items, in particular in the data of a live block.\<close>

lemma heap_rep_data:
  assumes "heap_rep m bs" "\<And>i. item_word bs i \<Longrightarrow> M i = heap m i"
  shows "heap_rep (m\<lparr>heap := M\<rparr>) bs"
proof -
  have "chain M (sm_self m) 0 0 bs"
    by (rule chain_items_cong [of 0 bs M "heap m"])
      (use assms in \<open>auto simp: item_word_from heap_rep_def heap_core_def\<close>)
  moreover have "M (extent bs) = heap m (extent bs)" "M (extent bs + 4) = heap m (extent bs + 4)"
    using assms(2) items_from_end [of 0 bs] by (auto simp: item_word_from)
  ultimately show ?thesis
    using assms(1) by (auto simp: heap_rep_def heap_core_def)
qed

lemma live_not_item:
  assumes "heap_rep m bs" "(b, n) \<in> live 0 bs" "b + 16 \<le> i" "i < b + n"
  shows "\<not> item_word bs i"
proof -
  have "\<forall>d\<in>set bs. 24 \<le> fst d" using assms(1) chain_pos by (auto simp: heap_rep_def heap_core_def)
  then show ?thesis using live_data assms(2-4) unfolding item_word_from by blast
qed

lemma copy_words_outside: "i < dst \<or> dst + n \<le> i \<Longrightarrow> copy_words dst src n M i = M i"
  by (auto simp: copy_words_def)

lemma copy_words_inside: "j < n \<Longrightarrow> copy_words dst src n M (dst + j) = M (src + j)"
  by (simp add: copy_words_def)

section \<open>Operations on the set of live blocks\<close>

text \<open>\<open>kept S m m'\<close>: the data of the blocks of \<open>S\<close> is the same in both memories.\<close>

definition kept :: "(nat \<times> nat) set \<Rightarrow> small_mem \<Rightarrow> small_mem \<Rightarrow> bool" where
  "kept S m m' \<longleftrightarrow> (\<forall>(b, n)\<in>S. \<forall>i. b + 16 \<le> i \<and> i < b + n \<longrightarrow> heap m' i = heap m i)"

lemma kept_items:
  "heap_core m0 bs \<Longrightarrow> only_items bs m m' \<Longrightarrow> S \<subseteq> live 0 bs \<Longrightarrow> kept S m m'"
  unfolding kept_def using live_data_kept by blast

lemma kept_trans: "kept S m m' \<Longrightarrow> kept S m' m'' \<Longrightarrow> kept S m m''"
  unfolding kept_def by fastforce

lemma kept_mono: "kept S m m' \<Longrightarrow> T \<subseteq> S \<Longrightarrow> kept T m m'"
  unfolding kept_def by blast

lemma alloc_live:
  assumes rep: "heap_rep m bs" and r: "r \<noteq> 0"
  obtains "rt_smem_alloc r m = Some (0, m)"
      "\<forall>(n, u)\<in>set bs. u \<or> n < request r + 16"
    | i k m' bs' where "rt_smem_alloc r m = Some (heap_ptr m + of_nat (i + 16), m')"
      "heap_rep m' bs'" "same_heap m' m" "live 0 bs' = insert (i, k) (live 0 bs)"
      "i \<notin> fst ` live 0 bs" "request r + 16 \<le> k" "i + k \<le> extent bs" "extent bs' = extent bs"
      "kept (live 0 bs) m m'" "only_items bs' m m'" "k < request r + 48"
proof (cases "alloc_spec (request r) bs")
  case None
  then have "rt_smem_alloc r m = Some (0, m)"
    using alloc_rep [OF rep r] by (simp add: alloc_refines_def)
  with None show ?thesis using that(1) unfolding alloc_spec_None by blast
next
  case (Some ib)
  obtain i bs' where ib: "ib = (i, bs')" by (cases ib)
  from alloc_rep [OF rep r] Some ib obtain m' where m': "rt_smem_alloc r m = Some (heap_ptr m + of_nat (i + 16), m')"
    "heap_rep m' bs'" "only_items bs' m m'" "same_heap m' m" by (auto simp: alloc_refines_def)
  from Some ib have "alloc_spec (request r) bs = Some (i, bs')" by simp
  then obtain xs n ys where sp: "bs = xs @ (n, False) # ys" "i = extent xs" "request r + 16 \<le> n"
    "bs' = xs @ split_block (request r) n @ ys" by (rule alloc_spec_Some)
  have l: "live 0 bs' = insert (i, taken (request r) n) (live 0 bs)"
    unfolding sp(1,2,4) by (rule live_split [OF sp(3)])
  have pos: "24 \<le> k" if "(b, k) \<in> live 0 bs" for b k
    using that live_split_list [OF that] rep chain_pos by (fastforce simp: heap_rep_def heap_core_def)
  have "i \<notin> fst ` live 0 bs"
  proof
    assume "i \<in> fst ` live 0 bs"
    then obtain k where k: "(i, k) \<in> live 0 bs" by auto
    then have "(i, k) \<in> live 0 xs \<or> (i, k) \<in> live (i + n) ys" using sp(1,2) by simp
    then show False
      using live_bounds [of i k 0 xs] live_bounds [of i k "i + n" ys] pos [OF k] sp(2,3) by auto
  qed
  moreover have "request r + 16 \<le> taken (request r) n" using sp(3) by (simp add: taken_def)
  moreover have "kept (live 0 bs) m m'"
    using m'(2,3) l by (intro kept_items) (auto simp: heap_rep_def)
  moreover have "i + taken (request r) n \<le> extent bs" using sp by (simp add: taken_def)
  moreover have "extent bs' = extent bs" using sp by simp
  moreover have "taken (request r) n < request r + 48" by (simp add: taken_def)
  ultimately show ?thesis using that(2) m' l by blast
qed

lemma free_live:
  assumes rep: "heap_rep m bs" and l: "(a, n) \<in> live 0 bs"
  obtains m' bs' where "rt_smem_free (heap_ptr m + of_nat (a + 16)) m = Some m'"
    "heap_rep m' bs'" "same_heap m' m" "live 0 bs' = live 0 bs - {(a, n)}" "extent bs' = extent bs"
    "kept (live 0 bs) m m'" "only_items bs m m'"
proof -
  from live_split_list [OF l] obtain xs ys where bs: "bs = xs @ (n, True) # ys" "a = extent xs" by auto
  have core: "heap_core m bs" using rep by (simp add: heap_rep_def)
  from free_rep [OF rep [unfolded bs(1)] bs(2)] obtain m' where m':
    "rt_smem_free (heap_ptr m + of_nat (a + 16)) m = Some m'"
    "heap_rep m' (coalesce (xs @ (n, False) # ys))" "only_items bs m m'" "same_heap m' m"
    unfolding bs(1) by blast
  have n: "24 \<le> n" using core_block(4) core bs by blast
  have "(a, n) \<notin> live 0 xs \<union> live (a + n) ys"
    using live_bounds [of a n 0 xs] live_bounds [of a n "a + n" ys] n bs(2) by auto
  then have "live 0 (coalesce (xs @ (n, False) # ys)) = live 0 bs - {(a, n)}"
    using bs by (auto simp del: coalesce.simps)
  moreover have "kept (live 0 bs) m m'" using core m'(3) by (rule kept_items) simp
  moreover have "extent (coalesce (xs @ (n, False) # ys)) = extent bs" by (simp add: coalesce_facts bs(1))
  ultimately show ?thesis using that m' by blast
qed

section \<open>rt_smem_realloc\<close>

lemma RT_ALIGN_aligned:
  assumes "8 dvd unat x" "unat x + 8 < 4294967296"
  shows "unat (RT_ALIGN x RT_ALIGN_SIZE) = unat x"
proof -
  obtain q where "unat x = 8 * q" using assms(1) by blast
  with assms(2) show ?thesis by (simp add: unat_RT_ALIGN_8)
qed

text \<open>The request of a reallocation: aligned only; at least 16 when a new block is taken.\<close>

definition resize :: "u32 \<Rightarrow> nat" where
  "resize r = unat (RT_ALIGN r RT_ALIGN_SIZE)"

lemma resize_word: "RT_ALIGN r RT_ALIGN_SIZE = of_nat (resize r)"
  by (simp add: resize_def)

lemma resize_dvd: "8 dvd resize r" "resize r < 4294967296"
  by (auto simp: resize_def unat_RT_ALIGN_8)

text \<open>The three ways the middle part can go: nothing to do, cut down, or move.\<close>

definition realloc_tail :: "u32 \<Rightarrow> u32 \<Rightarrow> u32 \<Rightarrow> small_mem \<Rightarrow> (u32 \<times> small_mem) option" where
  "realloc_tail rmem sz newsize m =
    (case rt_smem_alloc newsize m of
       None \<Rightarrow> None
     | Some (nmem, m1) \<Rightarrow>
         if nmem \<noteq> 0
         then (let m2 = m1\<lparr>heap := copy_words (unat (nmem - heap_ptr m1))
                        (unat (rmem - heap_ptr m1))
                        (unat (if sz < newsize then sz else newsize)) (heap m1)\<rparr>
               in case rt_smem_free rmem m2 of None \<Rightarrow> None | Some m3 \<Rightarrow> Some (nmem, m3))
         else Some (nmem, m1))"

lemma realloc_cases:
  assumes rep: "heap_rep m bs" and l: "(a, n) \<in> live 0 bs" and s: "resize r \<noteq> 0"
    "resize r \<le> unat (mem_size_aligned m)"
  defines "p \<equiv> heap_ptr m + of_nat (a + 16)"
  shows "rt_smem_realloc p r m =
    (if n = resize r + 16 then Some (p, m)
     else if resize r + 48 \<le> n
     then (case smem_shrink (of_nat a) (of_nat (n - 16)) (of_nat (resize r)) m of
             None \<Rightarrow> None | Some m' \<Rightarrow> Some (p, m'))
     else realloc_tail p (of_nat (n - 16)) (of_nat (resize r)) m)"
proof -
  from live_split_list [OF l] obtain xs ys where bs: "bs = xs @ (n, True) # ys" "a = extent xs" by auto
  have core: "heap_core m (xs @ (n, True) # ys)" using rep bs by (simp add: heap_rep_def)
  note c = core_block [OF core bs(2)] and ck = free_checks [OF core bs(2), folded p_def]
  have r: "resize r < 4294967296" by (rule resize_dvd)
  have big: "\<not> RT_ALIGN r RT_ALIGN_SIZE > mem_size_aligned m" "RT_ALIGN r RT_ALIGN_SIZE \<noteq> 0"
    using s by (simp_all add: word_less_nat_alt resize_def word_unat_eq_iff)
  have off: "p - SIZEOF_STRUCT_MEM - heap_ptr m = of_nat a" unfolding p_def by (rule client_pointer)
  have "of_nat (a + n) - of_nat a = (of_nat n :: u32)" by (subst of_nat_u32_diff) simp_all
  moreover have "of_nat n - (16 :: u32) = of_nat (n - 16)"
    using c(4) of_nat_u32_diff [of 16 n] by simp
  ultimately have sz: "item_next m (of_nat a) - of_nat a - SIZEOF_STRUCT_MEM = of_nat (n - 16)"
    by (simp add: ck(7))
  have "resize r + 16 \<le> extent bs"
    using s(2) core bs by (simp add: heap_core_def)
  then have rb: "resize r + 28 < 4294967296" using heap_core_bounds(1) [OF core] bs by simp
  have same: "(of_nat (n - 16) = (of_nat (resize r) :: u32)) = (n = resize r + 16)"
    using c(4,7) r by auto
  obtain q where q: "resize r = 8 * q" using resize_dvd(1) [of r] by blast
  obtain j where j: "n = 8 * j" using c(5) by blast
  have "(of_nat (resize r) + SIZEOF_STRUCT_MEM + MIN_SIZE :: u32) = of_nat (resize r + 28)"
    by (simp add: of_nat_add MIN_SIZE_def del: of_nat_16)
  moreover have "(of_nat (resize r + 28) :: u32) < of_nat (n - 16) \<longleftrightarrow> resize r + 28 < n - 16"
    using rb c(7) by (intro of_nat_u32_less) simp_all
  moreover have "resize r + 28 < n - 16 \<longleftrightarrow> resize r + 48 \<le> n"
    unfolding q j by presburger
  ultimately have cut: "(of_nat (resize r) + SIZEOF_STRUCT_MEM + MIN_SIZE :: u32) < of_nat (n - 16) \<longleftrightarrow> resize r + 48 \<le> n"
    by simp
  show ?thesis
    unfolding rt_smem_realloc_def Let_def off sz using big ck(1-4)
    by (simp only: if_False if_True simp_thms resize_word same cut realloc_tail_def Let_def)
qed

lemma live_pos:
  assumes "heap_rep m bs" "(a, n) \<in> live 0 bs"
  shows "24 \<le> n"
proof -
  from live_split_list [OF assms(2)] obtain xs ys where "bs = xs @ (n, True) # ys" by blast
  then have "heap_core m (xs @ (n, True) # ys)" using assms(1) by (simp add: heap_rep_def)
  then show ?thesis using core_block(4) by blast
qed

lemma live_unique:
  assumes "heap_rep m bs" "(a, n) \<in> live 0 bs" "(a, k) \<in> live 0 bs"
  shows "n = k"
proof (rule ccontr)
  assume "n \<noteq> k"
  then have "a + n \<le> a \<or> a + k \<le> a" using live_disjoint [OF assms(2,3)] by auto
  then show False using live_pos [OF assms(1,2)] live_pos [OF assms(1,3)] by auto
qed

lemma request_resize:
  assumes "resize r + 8 < 4294967296"
  shows "request (of_nat (resize r)) = max 16 (resize r)"
  using RT_ALIGN_aligned [of "of_nat (resize r)"] assms resize_dvd [of r] by (simp add: request_def)

text \<open>The branch that moves the data to a new block.\<close>

lemma realloc_move:
  assumes rep: "heap_rep m bs" and l: "(a, n) \<in> live 0 bs" and s: "s \<noteq> 0"
    "request (of_nat s) = max 16 s" "s < 4294967296"
  defines "res \<equiv> realloc_tail (heap_ptr m + of_nat (a + 16)) (of_nat (n - 16)) (of_nat s) m"
  obtains "res = Some (0, m)"
    | b k m' bs' where "res = Some (heap_ptr m + of_nat (b + 16), m')" "heap_rep m' bs'" "same_heap m' m"
      "live 0 bs' = insert (b, k) (live 0 bs - {(a, n)})" "b \<notin> fst ` (live 0 bs - {(a, n)})"
      "s + 16 \<le> k" "b + k \<le> extent bs" "extent bs' = extent bs"
      "kept (live 0 bs - {(a, n)}) m m'"
      "\<forall>j<min (n - 16) s. heap m' (b + 16 + j) = heap m (a + 16 + j)"
proof -
  have core: "heap_core m bs" using rep by (simp add: heap_rep_def)
  have "(of_nat s :: u32) \<noteq> 0" using s(1,3) by (metis unat_0 unat_of_nat_u32)
  from alloc_live [OF rep this] show ?thesis
  proof cases
    case 1
    then show ?thesis using that(1) by (simp add: res_def realloc_tail_def)
  next
    case (2 i k m1 bs1)
    have sk: "s + 16 \<le> k" using 2(6) s(2) by simp
    let ?len = "min (n - 16) s"
    let ?M = "copy_words (i + 16) (a + 16) ?len (heap m1)"
    let ?m2 = "m1\<lparr>heap := ?M\<rparr>"
    have hp: "heap_ptr m1 = heap_ptr m" "heap_ptr ?m2 = heap_ptr m" using 2(3) by (simp_all add: same_heap_def)
    have lim: "i + 16 \<le> extent bs" "a + 16 \<le> extent bs" "n - 16 < 4294967296"
      using 2(7) sk live_bounds [OF l] live_pos [OF rep l] heap_core_bounds(1) [OF core] by auto
    have "unat (heap_ptr m + of_nat (i + 16)) \<noteq> 0"
      unfolding heap_addr [OF core lim(1)] by simp
    then have nz: "heap_ptr m + of_nat (i + 16) \<noteq> 0" by (metis unat_0)
    have off: "unat (heap_ptr m + of_nat (i + 16) - heap_ptr m1) = i + 16"
      "unat (heap_ptr m + of_nat (a + 16) - heap_ptr m1) = a + 16"
      using lim(1,2) heap_core_bounds(1) [OF core] by (simp_all add: hp(1))
    have len: "unat (if (of_nat (n - 16) :: u32) < of_nat s then of_nat (n - 16) else of_nat s :: u32) = ?len"
      using lim(3) s(3) by simp
    have l1: "(a, n) \<in> live 0 bs1" "(i, k) \<in> live 0 bs1" using l 2(4) by simp_all
    have rep2: "heap_rep ?m2 bs1"
    proof (rule heap_rep_data [OF 2(2)])
      fix w assume w: "item_word bs1 w"
      have "?len \<le> s" by simp
      moreover have "w < i + 16 \<or> i + k \<le> w"
        using live_not_item [OF 2(2) l1(2), of w] w by linarith
      ultimately have "w < i + 16 \<or> i + 16 + ?len \<le> w" using sk by linarith
      then show "?M w = heap m1 w" by (rule copy_words_outside)
    qed
    from free_live [OF rep2 l1(1)] obtain m' bs' where f: "rt_smem_free (heap_ptr m + of_nat (a + 16)) ?m2 = Some m'"
      "heap_rep m' bs'" "same_heap m' ?m2" "live 0 bs' = live 0 bs1 - {(a, n)}" "extent bs' = extent bs1"
      "kept (live 0 bs1) ?m2 m'" unfolding hp(2) by metis
    have "res = Some (heap_ptr m + of_nat (i + 16), m')"
      unfolding res_def realloc_tail_def 2(1) option.case prod.case Let_def off len
      using nz f(1) by simp
    moreover have "same_heap m' m"
      by (rule same_heap_trans [OF f(3) same_heap_trans [OF _ 2(3)]]) (simp add: same_heap_def)
    moreover have "i \<noteq> a" using 2(5) l by force
    then have "live 0 bs' = insert (i, k) (live 0 bs - {(a, n)})" using f(4) 2(4) by auto
    moreover have "i \<notin> fst ` (live 0 bs - {(a, n)})" using 2(5) by auto
    moreover have "extent bs' = extent bs" using f(5) 2(8) by simp
    moreover have "kept (live 0 bs - {(a, n)}) m m'"
    proof -
      have "kept (live 0 bs) m1 ?m2"
        unfolding kept_def
      proof clarify
        fix c h w assume c: "(c, h) \<in> live 0 bs" "c + 16 \<le> w" "w < c + h"
        then have "(c, h) \<in> live 0 bs1" "(c, h) \<noteq> (i, k)" using 2(4,5) by force+
        then have "c + h \<le> i \<or> i + k \<le> c" using live_disjoint l1(2) by blast
        then have "w < i + 16 \<or> i + 16 + ?len \<le> w" using c sk by auto
        then show "heap ?m2 w = heap m1 w" using copy_words_outside by simp
      qed
      moreover have "kept (live 0 bs) ?m2 m'" using f(6) by (rule kept_mono) (use 2(4) in auto)
      ultimately have "kept (live 0 bs) m m'" using 2(9) by (blast intro: kept_trans)
      then show ?thesis by (rule kept_mono) auto
    qed
    moreover have "heap m' (i + 16 + j) = heap m (a + 16 + j)" if j: "j < ?len" for j
    proof -
      have "heap m' (i + 16 + j) = heap ?m2 (i + 16 + j)"
        using f(6) l1(2) j sk unfolding kept_def by fastforce
      also have "\<dots> = heap m1 (a + 16 + j)" using copy_words_inside [OF j] by simp
      also have "\<dots> = heap m (a + 16 + j)"
        using 2(9) l j unfolding kept_def by fastforce
      finally show ?thesis .
    qed
    ultimately show ?thesis using that(2) f(2) sk 2(7) by blast
  qed
qed

text \<open>All branches of a reallocation of a live block to a size that is not 0.\<close>

lemma realloc_live:
  assumes rep: "heap_rep m bs" and l: "(a, n) \<in> live 0 bs" and s: "resize r \<noteq> 0"
  defines "res \<equiv> rt_smem_realloc (heap_ptr m + of_nat (a + 16)) r m"
  obtains "res = Some (0, m)"
    | b k m' bs' where "res = Some (heap_ptr m + of_nat (b + 16), m')" "heap_rep m' bs'" "same_heap m' m"
      "live 0 bs' = insert (b, k) (live 0 bs - {(a, n)})" "b \<notin> fst ` (live 0 bs - {(a, n)})"
      "resize r + 16 \<le> k" "b + k \<le> extent bs" "extent bs' = extent bs"
      "kept (live 0 bs - {(a, n)}) m m'"
      "\<forall>j<min (n - 16) (resize r). heap m' (b + 16 + j) = heap m (a + 16 + j)"
proof (cases "resize r \<le> unat (mem_size_aligned m)")
  case False
  then have "RT_ALIGN r RT_ALIGN_SIZE > mem_size_aligned m"
    by (simp add: word_less_nat_alt resize_def)
  then show ?thesis using that(1) by (simp add: res_def rt_smem_realloc_def)
next
  case True
  have core: "heap_core m bs" using rep by (simp add: heap_rep_def)
  have alone: "a \<notin> fst ` (live 0 bs - {(a, n)})" using live_unique [OF rep l] by force
  have lim: "a + n \<le> extent bs" using live_bounds [OF l] by simp
  have same_set: "insert (a, n) (live 0 bs - {(a, n)}) = live 0 bs" using l by blast
  note rc = realloc_cases [OF rep l s True, folded res_def]
  consider "n = resize r + 16" | "resize r + 48 \<le> n" | "n \<noteq> resize r + 16" "\<not> resize r + 48 \<le> n" by blast
  then show ?thesis
  proof cases
    case 1
    then have "res = Some (heap_ptr m + of_nat (a + 16), m)" using rc by simp
    moreover have "same_heap m m" "kept (live 0 bs - {(a, n)}) m m" by (simp_all add: kept_def)
    ultimately show ?thesis
      using that(2) [of a m bs n] rep same_set alone 1 lim by simp
  next
    case 2
    from live_split_list [OF l] obtain xs ys where bs: "bs = xs @ (n, True) # ys" "a = extent xs" by auto
    let ?k = "resize r + 16"
    have k: "24 \<le> ?k" "?k + 24 \<le> n" "8 dvd ?k"
      using s resize_dvd(1) [of r] 2 by (auto elim!: dvdE)
    from shrink_rep [OF rep [unfolded bs(1)] bs(2) k] obtain m' where m':
      "smem_shrink (of_nat a) (of_nat (n - 16)) (of_nat (resize r)) m = Some m'"
      "heap_rep m' (coalesce (xs @ (?k, True) # (n - ?k, False) # ys))"
      "only_items (xs @ (?k, True) # (n - ?k, False) # ys) m m'" "same_heap m' m" by auto
    let ?cs = "xs @ (?k, True) # (n - ?k, False) # ys"
    have cpos: "\<forall>d\<in>set ?cs. 24 \<le> fst d"
      using core bs k chain_pos by (auto simp: heap_core_def)
    have "(a, n) \<notin> live 0 xs \<union> live (a + n) ys"
      using live_bounds [of a n 0 xs] live_bounds [of a n "a + n" ys] 2 bs(2) by auto
    then have lv: "live 0 ?cs = insert (a, ?k) (live 0 bs - {(a, n)})"
      using bs k(2) by auto
    have data: "heap m' i = heap m i" if "(c, h) \<in> live 0 ?cs" "c + 16 \<le> i" "i < c + h" for c h i
      using live_data [OF cpos that] m'(3) by (simp add: only_items_def item_word_from)
    have "kept (live 0 bs - {(a, n)}) m m'"
      unfolding kept_def using data lv by blast
    moreover have "heap m' (a + 16 + j) = heap m (a + 16 + j)" if "j < min (n - 16) (resize r)" for j
    proof (rule data)
      show "(a, ?k) \<in> live 0 ?cs" unfolding lv by simp
    qed (use that in simp_all)
    moreover have "res = Some (heap_ptr m + of_nat (a + 16), m')"
      using rc 2 m'(1) by (simp add: res_def)
    moreover have "live 0 (coalesce ?cs) = insert (a, ?k) (live 0 bs - {(a, n)})"
      using lv by (simp del: coalesce.simps live.simps)
    moreover have "extent (coalesce ?cs) = extent bs" "a + ?k \<le> extent bs"
      using bs k 2 lim by (simp_all add: coalesce_facts(1) del: coalesce.simps)
    ultimately show ?thesis using that(2) [of a m' "coalesce ?cs" ?k] m'(2,4) alone by blast
  next
    case 3
    have "resize r + 16 \<le> extent bs" using True core by (simp add: heap_core_def)
    then have "resize r + 8 < 4294967296" using heap_core_bounds(1) [OF core] by simp
    note rq = request_resize [OF this]
    have res: "res = realloc_tail (heap_ptr m + of_nat (a + 16)) (of_nat (n - 16)) (of_nat (resize r)) m"
      using rc 3 by (simp add: res_def)
    from realloc_move [OF rep l s rq resize_dvd(2), folded res] show ?thesis
    proof cases
      case 1
      then show ?thesis by (rule that(1))
    next
      case (2 b k m' bs')
      then show ?thesis by (rule that(2))
    qed
  qed
qed

section \<open>rt_smem_init\<close>

lemma smem_init_rep:
  assumes init: "rt_smem_init begin_addr sz M = Some m"
    and b: "begin_addr \<noteq> 0" "128 \<le> unat sz" "unat begin_addr + unat sz < 4294967296"
      "mem_size_aligned m \<noteq> 0"
  shows "heap_rep m [(unat (mem_size_aligned m) + 16, False)]"
    and "unat begin_addr \<le> unat (heap_ptr m)"
    and "unat (heap_ptr m) + unat (mem_size_aligned m) + 32 \<le> unat begin_addr + unat sz"
proof -
  define sm where "sm = RT_ALIGN begin_addr RT_ALIGN_SIZE"
  define st where "st = sm + sizeof_rt_small_mem"
  define ba where "ba = RT_ALIGN st RT_ALIGN_SIZE"
  define ea where "ea = RT_ALIGN_DOWN (begin_addr + sz) RT_ALIGN_SIZE"
  define ms where "ms = ea - ba - 2 * SIZEOF_STRUCT_MEM"
  have cond: "ea > 32" "ea - 32 \<ge> st"
    using init by (auto simp: rt_smem_init_def Let_def sm_def st_def ea_def split: if_splits)
  have m: "m = set_prev (ms + 16) (ms + 16) (set_next (ms + 16) (ms + 16) (set_pool_ptr (ms + 16) (MEM_USED sm)
      (set_prev 0 0 (set_next 0 (ms + 16) (set_pool_ptr 0 (MEM_FREED sm)
        \<lparr>sm_self = sm, heap_ptr = ba, heap_end = ms + 16, lfree = 0, mem_size_aligned = ms,
         mem_used = 0, mem_max = 0, heap = M\<rparr>)))))"
    using init cond by (auto simp: rt_smem_init_def Let_def sm_def st_def ba_def ea_def ms_def split: if_splits)
  have B: "0 < unat begin_addr" using b(1) by (simp add: unat_gt_0)
  have sm8: "unat sm = (unat begin_addr + 7) div 8 * 8"
    using b(2,3) by (simp add: sm_def unat_RT_ALIGN_8)
  have st60: "unat st = unat sm + 60"
    using b(2,3) sm8 by (simp add: st_def sizeof_rt_small_mem_def unat_add_u32)
  have ba64: "unat ba = unat sm + 64"
    using b(2,3) sm8 st60 by (simp add: ba_def unat_RT_ALIGN_8)
  have ea8: "unat ea = (unat begin_addr + unat sz) div 8 * 8"
    using b(3) by (simp add: ea_def unat_RT_ALIGN_DOWN_8 unat_add_u32)
  have "unat (ea - 32) = unat ea - 32" using cond(1) by (simp add: unat_sub word_less_nat_alt word_le_nat_alt)
  then have "unat sm + 60 + 32 \<le> unat ea" using cond by (simp add: word_le_nat_alt word_less_nat_alt st60)
  moreover obtain p q where pq: "unat sm = 8 * p" "unat ea = 8 * q"
    using sm8 ea8 by (metis mult.commute)
  ultimately have "8 * p + 92 \<le> 8 * q" by simp
  then have "p + 12 \<le> q" by linarith
  then have room: "unat sm + 96 \<le> unat ea" by (simp add: pq)
  have "unat (ea - ba) = unat ea - unat ba" by (rule unat_sub_u32) (use room ba64 in linarith)
  then have eb: "unat (ea - ba) = unat ea - unat sm - 64" using ba64 by simp
  have "unat (ea - ba - 32) = unat (ea - ba) - unat (32 :: u32)"
    by (rule unat_sub_u32) (use room eb in simp)
  then have ms: "unat ms = unat ea - unat sm - 96" using eb by (simp add: ms_def)
  have bounds: "unat begin_addr \<le> unat sm" "0 < unat sm" "unat ea \<le> unat begin_addr + unat sz"
  proof -
    have "unat begin_addr + 7 = (unat begin_addr + 7) div 8 * 8 + (unat begin_addr + 7) mod 8"
      by (simp only: div_mult_mod_eq)
    moreover have "(unat begin_addr + 7) mod 8 \<le> 7" by simp
    ultimately show "unat begin_addr \<le> unat sm" unfolding sm8 by linarith
    with B show "0 < unat sm" by simp
    show "unat ea \<le> unat begin_addr + unat sz" unfolding ea8 by (rule div_times_less_eq_dividend)
  qed
  have hm: "heap_ptr m = ba" "mem_size_aligned m = ms" "sm_self m = sm" "heap_end m = ms + 16"
    "lfree m = 0" "mem_used m = 0" "mem_max m = 0"
    by (simp_all add: m set_prev_def set_next_def set_pool_ptr_def)
  show "unat begin_addr \<le> unat (heap_ptr m)" using bounds(1) by (simp add: hm ba64)
  show "unat (heap_ptr m) + unat (mem_size_aligned m) + 32 \<le> unat begin_addr + unat sz"
    using bounds(3) room by (simp add: hm ba64 ms)
  define E where "E = unat ms + 16"
  have ms0: "unat ms \<noteq> 0" "8 dvd unat ms"
    using b(4) pq room by (auto simp: hm word_unat_eq_iff ms)
  have E: "24 \<le> E" "8 dvd E" "unat ba + E + 16 \<le> 4294967296"
  proof -
    obtain k where k: "unat ms = 8 * k" using ms0(2) by blast
    then show "24 \<le> E" "8 dvd E" using ms0(1) by (simp_all add: E_def)
    have "unat ba + E + 16 = unat ea" using room by (simp add: E_def ba64 ms)
    then show "unat ba + E + 16 \<le> 4294967296" using b(3) bounds(3) by simp
  qed
  have eE: "ms + 16 = of_nat E"
    by (simp add: E_def of_nat_add del: of_nat_16)
  have uE: "unat (of_nat E :: u32) = E" using E(3) by simp
  have "sm AND MEM_MASK = sm"
  proof -
    have "\<not> bit sm 0" unfolding sm_def RT_ALIGN_def RT_ALIGN_SIZE_def by (simp add: bit_simps)
    then show ?thesis by (intro bit_word_eqI) (auto simp: MEM_MASK_eq bit_simps intro: gr0I)
  qed
  moreover have "heap m 0 = MEM_FREED sm" "heap m 4 = of_nat E" "heap m 8 = 0"
    "heap m E = MEM_USED sm" "heap m (E + 4) = of_nat E"
    using E(1) unfolding m eE by (simp_all add: set_prev_def set_next_def set_pool_ptr_def uE)
  ultimately show "heap_rep m [(unat (mem_size_aligned m) + 16, False)]"
    using E bounds(2) unfolding heap_rep_def heap_core_def hm eE E_def [symmetric]
    by (simp add: word_unat_eq_iff ba64 pq)
qed

end
