(* ===== verification/Allocator.thy ===== *)
theory Allocator
  imports Wlh_Prelude
begin

text \<open>
  The interface between the heap and its clients.  A heap state represents a set of areas
  (start address and number of bytes), which is what the clients may use; the locale names
  the laws an allocator promises about it.  Clients are sequences of calls and writes into
  what they hold; what holds for all of them is proved here once and applies to every
  allocator that is shown to keep the laws (Small_Mem_Heap does so for mem.c).
\<close>

definition same_data :: "('s \<Rightarrow> nat \<Rightarrow> u32) \<Rightarrow> (nat \<times> nat) set \<Rightarrow> 's \<Rightarrow> 's \<Rightarrow> bool" where
  "same_data word_at A s s' \<longleftrightarrow>
    (\<forall>(q, n)\<in>A. \<forall>a. q \<le> a \<and> a < q + n \<longrightarrow> word_at s' a = word_at s a)"

text \<open>The largest request that RT_ALIGN does not wrap to a small one.\<close>

definition max_request :: u32 where "max_request = 0xFFFFFFF8"

locale allocator =
  fixes alloc :: "u32 \<Rightarrow> 's \<Rightarrow> (u32 \<times> 's) option"
    and free :: "u32 \<Rightarrow> 's \<Rightarrow> 's option"
    and realloc :: "u32 \<Rightarrow> u32 \<Rightarrow> 's \<Rightarrow> (u32 \<times> 's) option"
    and put :: "nat \<Rightarrow> u32 \<Rightarrow> 's \<Rightarrow> 's"
    and word_at :: "'s \<Rightarrow> nat \<Rightarrow> u32"
    and rep :: "'s \<Rightarrow> (nat \<times> nat) set \<Rightarrow> bool"
    and lo hi :: nat
  assumes alloc_law: "rep s A \<Longrightarrow> r \<noteq> 0 \<Longrightarrow> r \<le> max_request \<Longrightarrow>
      alloc r s = Some (0, s) \<or>
      (\<exists>p n s'. alloc r s = Some (p, s') \<and> p \<noteq> 0 \<and> rep s' (insert (unat p, n) A) \<and>
         unat p \<notin> fst ` A \<and> unat r \<le> n \<and> same_data word_at A s s')"
    and free_law: "rep s A \<Longrightarrow> (unat p, n) \<in> A \<Longrightarrow>
      \<exists>s'. free p s = Some s' \<and> rep s' (A - {(unat p, n)}) \<and> same_data word_at A s s'"
    and realloc_law: "rep s A \<Longrightarrow> (unat p, n) \<in> A \<Longrightarrow> r \<noteq> 0 \<Longrightarrow> r \<le> max_request \<Longrightarrow>
      realloc p r s = Some (0, s) \<or>
      (\<exists>q k s'. realloc p r s = Some (q, s') \<and> q \<noteq> 0 \<and>
         rep s' (insert (unat q, k) (A - {(unat p, n)})) \<and>
         unat q \<notin> fst ` (A - {(unat p, n)}) \<and> unat r \<le> k \<and>
         same_data word_at (A - {(unat p, n)}) s s' \<and>
         (\<forall>j<min n (unat r). word_at s' (unat q + j) = word_at s (unat p + j)))"
    and put_law: "rep s A \<Longrightarrow> (q, n) \<in> A \<Longrightarrow> q \<le> a \<Longrightarrow> a < q + n \<Longrightarrow>
      rep (put a x s) A \<and> word_at (put a x s) a = x \<and>
      (\<forall>b. b \<noteq> a \<longrightarrow> word_at (put a x s) b = word_at s b)"
    and apart_law: "rep s A \<Longrightarrow> (q, n) \<in> A \<Longrightarrow> (q', n') \<in> A \<Longrightarrow> (q, n) \<noteq> (q', n') \<Longrightarrow>
      q + n \<le> q' \<or> q' + n' \<le> q"
    and area_law: "rep s A \<Longrightarrow> (q, n) \<in> A \<Longrightarrow> 8 dvd q \<and> 0 < n \<and> lo \<le> q \<and> q + n \<le> hi"

section \<open>Clients\<close>

text \<open>
  A client step on a heap state and the table of what the clients hold: pointer to number of
  bytes asked for.  Only held pointers are released, resized or written through.
\<close>

inductive client_step ::
    "(u32 \<Rightarrow> 's \<Rightarrow> (u32 \<times> 's) option) \<Rightarrow> (u32 \<Rightarrow> 's \<Rightarrow> 's option) \<Rightarrow>
     (u32 \<Rightarrow> u32 \<Rightarrow> 's \<Rightarrow> (u32 \<times> 's) option) \<Rightarrow> (nat \<Rightarrow> u32 \<Rightarrow> 's \<Rightarrow> 's) \<Rightarrow>
     's \<times> (u32 \<rightharpoonup> nat) \<Rightarrow> 's \<times> (u32 \<rightharpoonup> nat) \<Rightarrow> bool"
  for alloc free realloc put where
  malloc: "r \<noteq> 0 \<Longrightarrow> r \<le> max_request \<Longrightarrow> alloc r s = Some (p, s') \<Longrightarrow>
    client_step alloc free realloc put (s, H) (s', if p = 0 then H else H(p \<mapsto> unat r))"
| free: "p \<in> dom H \<Longrightarrow> free p s = Some s' \<Longrightarrow>
    client_step alloc free realloc put (s, H) (s', H(p := None))"
| realloc: "p \<in> dom H \<Longrightarrow> r \<noteq> 0 \<Longrightarrow> r \<le> max_request \<Longrightarrow> realloc p r s = Some (q, s') \<Longrightarrow>
    client_step alloc free realloc put (s, H)
      (s', if q = 0 then H else (H(p := None))(q \<mapsto> unat r))"
| store: "H p = Some n \<Longrightarrow> unat p \<le> a \<Longrightarrow> a < unat p + n \<Longrightarrow>
    client_step alloc free realloc put (s, H) (put a x s, H)"

definition holds_areas :: "(u32 \<rightharpoonup> nat) \<Rightarrow> (nat \<times> nat) set \<Rightarrow> bool" where
  "holds_areas H A \<longleftrightarrow>
    (\<forall>p n. H p = Some n \<longrightarrow> (\<exists>k\<ge>n. (unat p, k) \<in> A)) \<and>
    (\<forall>(q, k)\<in>A. \<exists>p\<in>dom H. unat p = q)"

lemma holds_insert:
  assumes "holds_areas H A" "n \<le> k"
  shows "holds_areas (H(p \<mapsto> n)) (insert (unat p, k) A)"
proof -
  have "\<exists>i\<ge>j. (unat q, i) \<in> insert (unat p, k) A" if "(H(p \<mapsto> n)) q = Some j" for q j
    using assms that unfolding holds_areas_def by (cases "q = p") fastforce+
  moreover have "\<exists>r\<in>dom (H(p \<mapsto> n)). unat r = q" if "(q, j) \<in> insert (unat p, k) A" for q j
    using assms(1) that unfolding holds_areas_def by fastforce
  ultimately show ?thesis unfolding holds_areas_def by blast
qed

lemma holds_remove:
  assumes "holds_areas H A" "\<And>k. (unat p, k) \<in> A \<Longrightarrow> k = n"
  shows "holds_areas (H(p := None)) (A - {(unat p, n)})"
proof -
  have "\<exists>i\<ge>j. (unat q, i) \<in> A - {(unat p, n)}" if q: "(H(p := None)) q = Some j" for q j
  proof -
    have "q \<noteq> p" "H q = Some j" using q by (auto split: if_splits)
    then show ?thesis
      using assms(1) unfolding holds_areas_def by (fastforce simp: word_unat_eq_iff)
  qed
  moreover have "\<exists>r\<in>dom (H(p := None)). unat r = q" if q: "(q, j) \<in> A - {(unat p, n)}" for q j
  proof -
    have "q \<noteq> unat p" using assms(2) q by blast
    then show ?thesis using assms(1) q unfolding holds_areas_def by fastforce
  qed
  ultimately show ?thesis unfolding holds_areas_def by blast
qed

context allocator
begin

abbreviation step :: "'s \<times> (u32 \<rightharpoonup> nat) \<Rightarrow> 's \<times> (u32 \<rightharpoonup> nat) \<Rightarrow> bool" where
  "step \<equiv> client_step alloc free realloc put"

definition client_ok :: "'s \<times> (u32 \<rightharpoonup> nat) \<Rightarrow> bool" where
  "client_ok y \<longleftrightarrow> (\<exists>A. rep (fst y) A \<and> holds_areas (snd y) A)"

lemma area_unique: "rep s A \<Longrightarrow> (q, n) \<in> A \<Longrightarrow> (q, k) \<in> A \<Longrightarrow> k = n"
  using apart_law [of s A q n q k] area_law by fastforce

lemma held_area:
  assumes "holds_areas H A" "H p = Some n"
  obtains k where "(unat p, k) \<in> A" "n \<le> k"
  using assms unfolding holds_areas_def by blast

lemma client_ok_step:
  assumes "step y y'" "client_ok y"
  shows "client_ok y'"
  using assms
proof (induction rule: client_step.induct)
  case (malloc r s p s' H)
  then obtain A where A: "rep s A" "holds_areas H A" by (auto simp: client_ok_def)
  from alloc_law [OF A(1) malloc(1,2)] malloc(3) consider "p = 0" "s' = s"
    | n where "p \<noteq> 0" "rep s' (insert (unat p, n) A)" "unat r \<le> n" by auto
  then show ?case
    by cases (use A holds_insert [OF A(2)] in \<open>auto simp: client_ok_def\<close>)
next
  case (free p H s s')
  then obtain A where A: "rep s A" "holds_areas H A" by (auto simp: client_ok_def)
  from free(1) obtain n where "H p = Some n" by blast
  then obtain k where k: "(unat p, k) \<in> A" using held_area [OF A(2)] by blast
  from free_law [OF A(1) k] free(2) have "rep s' (A - {(unat p, k)})" by auto
  moreover have "holds_areas (H(p := None)) (A - {(unat p, k)})"
    by (rule holds_remove [OF A(2)]) (rule area_unique [OF A(1) k])
  ultimately show ?case unfolding client_ok_def by auto
next
  case (realloc p H r s q s')
  then obtain A where A: "rep s A" "holds_areas H A" by (auto simp: client_ok_def)
  from realloc(1) obtain n where "H p = Some n" by blast
  then obtain k where k: "(unat p, k) \<in> A" using held_area [OF A(2)] by blast
  have rm: "holds_areas (H(p := None)) (A - {(unat p, k)})"
    by (rule holds_remove [OF A(2)]) (rule area_unique [OF A(1) k])
  from realloc_law [OF A(1) k realloc(2,3)] realloc(4) consider "q = 0" "s' = s"
    | j where "q \<noteq> 0" "rep s' (insert (unat q, j) (A - {(unat p, k)}))" "unat r \<le> j" by auto
  then show ?case
    by cases (use A holds_insert [OF rm] in \<open>auto simp: client_ok_def\<close>)
next
  case (store H p n a s x)
  then obtain A where A: "rep s A" "holds_areas H A" by (auto simp: client_ok_def)
  from held_area [OF A(2) store(1)] obtain k where "(unat p, k) \<in> A" "n \<le> k" .
  with put_law [OF A(1) this(1), of a x] store(2,3) A show ?case
    unfolding client_ok_def by auto
qed

lemma client_ok_steps: "step\<^sup>*\<^sup>* y y' \<Longrightarrow> client_ok y \<Longrightarrow> client_ok y'"
  by (induction rule: rtranclp_induct) (auto intro: client_ok_step)

text \<open>What clients hold is aligned, inside the range of the heap, and does not overlap.\<close>

lemma client_inside:
  assumes "client_ok (s, H)" "H p = Some n"
  shows "8 dvd unat p \<and> lo \<le> unat p \<and> unat p + n \<le> hi"
proof -
  from assms(1) obtain A where A: "rep s A" "holds_areas H A" by (auto simp: client_ok_def)
  from held_area [OF A(2) assms(2)] obtain i where i: "(unat p, i) \<in> A" "n \<le> i" .
  with area_law [OF A(1) i(1)] show ?thesis by auto
qed

lemma client_apart:
  assumes "client_ok (s, H)" "H p = Some n" "H q = Some k" "p \<noteq> q"
  shows "unat p + n \<le> unat q \<or> unat q + k \<le> unat p"
proof -
  from assms(1) obtain A where A: "rep s A" "holds_areas H A" by (auto simp: client_ok_def)
  from held_area [OF A(2) assms(2)] obtain i where i: "(unat p, i) \<in> A" "n \<le> i" .
  from held_area [OF A(2) assms(3)] obtain j where j: "(unat q, j) \<in> A" "k \<le> j" .
  have "unat p \<noteq> unat q" using assms(4) by (simp add: word_unat_eq_iff)
  then have "unat p + i \<le> unat q \<or> unat q + j \<le> unat p"
    using apart_law [OF A(1) i(1) j(1)] by auto
  with i j show ?thesis by auto
qed

text \<open>Every call a client may make returns.\<close>

lemma client_calls_return:
  assumes "client_ok (s, H)" "r \<noteq> 0" "r \<le> max_request" "p \<in> dom H"
  shows "alloc r s \<noteq> None \<and> free p s \<noteq> None \<and> realloc p r s \<noteq> None"
proof -
  from assms(1) obtain A where A: "rep s A" "holds_areas H A" by (auto simp: client_ok_def)
  from assms(4) obtain n where "H p = Some n" by blast
  from held_area [OF A(2) this] obtain k where k: "(unat p, k) \<in> A" .
  show ?thesis
    using alloc_law [OF A(1) assms(2,3)] free_law [OF A(1) k] realloc_law [OF A(1) k assms(2,3)] by auto
qed

text \<open>A step leaves the data of a pointer that stays held alone, unless it is a write to it.\<close>

lemma client_data:
  assumes "step (s, H) (s', H')" "client_ok (s, H)" "H p = Some n" "H' p = Some n"
    and "unat p \<le> a" "a < unat p + n"
  shows "word_at s' a = word_at s a \<or> (\<exists>x. s' = put a x s)"
proof -
  from assms(2) obtain A where A: "rep s A" "holds_areas H A" by (auto simp: client_ok_def)
  from held_area [OF A(2) assms(3)] obtain k where k: "(unat p, k) \<in> A" "n \<le> k" .
  have same: "word_at s' a = word_at s a" if "same_data word_at B s s'" "(unat p, k) \<in> B" for B
    using that assms(5,6) k(2) unfolding same_data_def by fastforce
  from assms(1) show ?thesis
  proof (cases rule: client_step.cases)
    case (malloc r q)
    then show ?thesis using alloc_law [OF A(1), of r] same [OF _ k(1)] by auto
  next
    case (free q)
    from free(2) obtain j where "H q = Some j" by blast
    from held_area [OF A(2) this] obtain i where "(unat q, i) \<in> A" .
    with free_law [OF A(1) this] free same [OF _ k(1)] show ?thesis by auto
  next
    case (realloc q r t)
    from realloc(2) obtain j where "H q = Some j" by blast
    from held_area [OF A(2) this] obtain i where i: "(unat q, i) \<in> A" "j \<le> i" .
    note rl = realloc_law [OF A(1) i(1) realloc(3,4)]
    show ?thesis
    proof (cases "q = p")
      case False
      then have "(unat p, k) \<in> A - {(unat q, i)}" using k by (simp add: word_unat_eq_iff)
      with rl realloc same show ?thesis by auto
    next
      case True
      then have ik: "i = k" using area_unique [OF A(1)] i(1) k(1) by blast
      show ?thesis
      proof (cases "t = 0")
        case True
        with rl realloc show ?thesis by auto
      next
        case False
        then have "t = p" "unat r = n" using realloc assms(4) \<open>q = p\<close> by (auto split: if_splits)
        moreover from rl False realloc have "\<forall>j<min i (unat r). word_at s' (unat t + j) = word_at s (unat q + j)"
          by auto
        moreover obtain d where d: "a = unat p + d" using assms(5) le_Suc_ex by blast
        moreover have "d < n" using assms(6) d by simp
        ultimately show ?thesis using k(2) ik \<open>q = p\<close> by auto
      qed
    qed
  next
    case (store q j b x)
    from held_area [OF A(2) store(3)] obtain i where "(unat q, i) \<in> A" "j \<le> i" .
    with put_law [OF A(1) this(1), of b x] store show ?thesis by (cases "a = b") auto
  qed
qed

end

end
