(* ===== verification/Small_Mem_Alloc.thy ===== *)
theory Small_Mem_Alloc
  imports Small_Mem_Heap Allocator
begin

text \<open>
  mem.c as an allocator: the interpretation of the allocator interface on the model, and the
  properties of the heap.
\<close>

section \<open>mem.c keeps the laws of an allocator\<close>

text \<open>Client addresses are absolute; the data area of a block is what follows its item.\<close>

definition smem_word :: "small_mem \<Rightarrow> nat \<Rightarrow> u32" where
  "smem_word m a = heap m (a - unat (heap_ptr m))"

definition smem_put :: "nat \<Rightarrow> u32 \<Rightarrow> small_mem \<Rightarrow> small_mem" where
  "smem_put a x m = m\<lparr>heap := (heap m)(a - unat (heap_ptr m) := x)\<rparr>"

definition data_area :: "nat \<Rightarrow> nat \<times> nat \<Rightarrow> nat \<times> nat" where
  "data_area h = (\<lambda>(b, n). (h + b + 16, n - 16))"

definition heap_area :: "nat \<Rightarrow> nat \<Rightarrow> small_mem \<Rightarrow> (nat \<times> nat) set \<Rightarrow> bool" where
  "heap_area lo hi m A \<longleftrightarrow> unat (heap_ptr m) = lo \<and>
    (\<exists>bs. heap_rep m bs \<and> lo + extent bs = hi \<and> A = data_area lo ` live 0 bs)"

lemma request_ge: "r \<le> max_request \<Longrightarrow> unat r \<le> request r \<and> unat r \<le> resize r"
proof -
  assume "r \<le> max_request"
  then have "unat r + 7 < 2 ^ 32" by (simp add: max_request_def word_le_nat_alt)
  moreover have "x \<le> (x + 7) div 8 * 8" for x :: nat
    using div_mult_mod_eq [of "x + 7" 8] mod_less_divisor [of 8 "x + 7"] by linarith
  ultimately have "unat r \<le> resize r" by (simp add: resize_def unat_RT_ALIGN_8)
  then show ?thesis by (simp add: request_def resize_def)
qed

lemma data_area_inj: "heap_rep m bs \<Longrightarrow> x \<in> live 0 bs \<Longrightarrow> y \<in> live 0 bs \<Longrightarrow>
    data_area h x = data_area h y \<longleftrightarrow> x = y"
  by (cases x; cases y) (auto simp: data_area_def dest: live_unique)

lemma data_area_remove:
  assumes "heap_rep m bs" "x \<in> live 0 bs"
  shows "data_area h ` (live 0 bs - {x}) = data_area h ` live 0 bs - {data_area h x}"
  using data_area_inj [OF assms(1) assms(2)] by blast

lemma unat_nonzero: "unat (x :: u32) \<noteq> unat (0 :: u32) \<Longrightarrow> x \<noteq> 0"
  by auto

lemma block_addr:
  assumes "heap_rep m bs" "i + 16 \<le> extent bs" "unat (heap_ptr m) = h"
  shows "unat (heap_ptr m + of_nat (i + 16)) = h + i + 16"
proof -
  have "heap_core m bs" using assms(1) by (simp add: heap_rep_def)
  from heap_addr [OF this assms(2)] show ?thesis by (simp only: assms(3) add.assoc)
qed

lemma heap_area_block:
  assumes "heap_rep m bs" "unat (heap_ptr m) = h" "(q, n) \<in> data_area h ` live 0 bs"
  obtains b k where "(b, k) \<in> live 0 bs" "q = h + b + 16" "n = k - 16" "24 \<le> k"
    "unat (heap_ptr m + of_nat (b + 16)) = q"
proof -
  from assms(3) obtain b k where b: "(b, k) \<in> live 0 bs" "q = h + b + 16" "n = k - 16"
    by (auto simp: data_area_def)
  have k: "24 \<le> k" by (rule live_pos [OF assms(1) b(1)])
  have "b + 16 \<le> extent bs" using live_bounds [OF b(1)] k by linarith
  from block_addr [OF assms(1) this assms(2)] have "unat (heap_ptr m + of_nat (b + 16)) = q"
    by (simp only: b(2))
  from that [OF b k this] show ?thesis .
qed

lemma kept_same_data:
  assumes "kept S m m'" "heap_ptr m' = heap_ptr m"
  shows "same_data smem_word (data_area (unat (heap_ptr m)) ` S) m m'"
  unfolding same_data_def
proof (clarify del: imageE)
  fix q n a assume "(q, n) \<in> data_area (unat (heap_ptr m)) ` S" and a: "q \<le> a" "a < q + n"
  then obtain b k where h: "(b, k) \<in> S" "data_area (unat (heap_ptr m)) (b, k) = (q, n)" by auto
  with a have "b + 16 \<le> a - unat (heap_ptr m)" "a - unat (heap_ptr m) < b + k"
    by (auto simp: data_area_def)
  then show "smem_word m' a = smem_word m a"
    using assms h(1) unfolding kept_def smem_word_def by fastforce
qed

lemma data_area_insert: "data_area h ` insert (i, k) S = insert (h + i + 16, k - 16) (data_area h ` S)"
  by (simp add: data_area_def)

lemma data_area_fresh: "i \<notin> fst ` S \<Longrightarrow> h + i + 16 \<notin> fst ` data_area h ` S"
  by (force simp: data_area_def)

lemma heap_areaI:
  "unat (heap_ptr m) = lo \<Longrightarrow> heap_rep m bs \<Longrightarrow> lo + extent bs = hi \<Longrightarrow>
    A = data_area lo ` live 0 bs \<Longrightarrow> heap_area lo hi m A"
  unfolding heap_area_def by blast

lemma smem_alloc_law:
  assumes "heap_area lo hi m A" "r \<noteq> 0" "r \<le> max_request"
  shows "rt_smem_alloc r m = Some (0, m) \<or>
    (\<exists>p n m'. rt_smem_alloc r m = Some (p, m') \<and> p \<noteq> 0 \<and> heap_area lo hi m' (insert (unat p, n) A) \<and>
       unat p \<notin> fst ` A \<and> unat r \<le> n \<and> same_data smem_word A m m')"
proof -
  from assms(1) obtain bs where rep: "heap_rep m bs" and lo: "unat (heap_ptr m) = lo" "lo + extent bs = hi"
    and A: "A = data_area lo ` live 0 bs" by (auto simp: heap_area_def)
  from alloc_live [OF rep assms(2)] show ?thesis
  proof cases
    case (2 i k m' bs')
    let ?p = "heap_ptr m + of_nat (i + 16)"
    have hp: "heap_ptr m' = heap_ptr m" using 2(3) by (simp add: same_heap_def)
    have "i + 16 \<le> extent bs" using 2(6,7) by simp
    from block_addr [OF rep this lo(1)] have p: "unat ?p = lo + i + 16" .
    have "unat ?p \<noteq> unat (0 :: u32)" unfolding p by simp
    then have "?p \<noteq> 0" by (rule unat_nonzero)
    moreover have "heap_area lo hi m' (insert (unat ?p, k - 16) A)"
      by (rule heap_areaI [OF _ 2(2)]) (simp_all only: A p hp lo 2(4,8) data_area_insert)
    moreover have "unat ?p \<notin> fst ` A" unfolding A p by (rule data_area_fresh) (rule 2(5))
    moreover have "unat r \<le> k - 16" using conjunct1 [OF request_ge [OF assms(3)]] 2(6) by linarith
    moreover have "same_data smem_word A m m'"
      using kept_same_data [OF 2(9) hp] by (simp add: A lo)
    ultimately show ?thesis using 2(1) by blast
  qed simp
qed

lemma smem_free_law:
  assumes "heap_area lo hi m A" "(unat p, n) \<in> A"
  shows "\<exists>m'. rt_smem_free p m = Some m' \<and> heap_area lo hi m' (A - {(unat p, n)}) \<and> same_data smem_word A m m'"
proof -
  from assms(1) obtain bs where rep: "heap_rep m bs" and lo: "unat (heap_ptr m) = lo" "lo + extent bs = hi"
    and A: "A = data_area lo ` live 0 bs" by (auto simp: heap_area_def)
  obtain b k where b: "(b, k) \<in> live 0 bs" "unat p = lo + b + 16" "n = k - 16" "24 \<le> k"
    "unat (heap_ptr m + of_nat (b + 16)) = unat p"
    by (rule heap_area_block [OF rep lo(1) assms(2) [unfolded A]])
  from b(5) have p: "p = heap_ptr m + of_nat (b + 16)" by (simp only: word_unat_eq_iff)
  from free_live [OF rep b(1)] obtain m' bs' where f: "rt_smem_free p m = Some m'"
    "heap_rep m' bs'" "same_heap m' m" "live 0 bs' = live 0 bs - {(b, k)}" "extent bs' = extent bs"
    "kept (live 0 bs) m m'" unfolding p by blast
  have hp: "heap_ptr m' = heap_ptr m" using f(3) by (simp add: same_heap_def)
  have "A - {(unat p, n)} = data_area lo ` live 0 bs'"
    unfolding A f(4) data_area_remove [OF rep b(1)] by (simp add: data_area_def b(2,3))
  then have "heap_area lo hi m' (A - {(unat p, n)})"
    using f(2,5) lo hp unfolding heap_area_def by auto
  moreover have "same_data smem_word A m m'" using kept_same_data [OF f(6) hp] by (simp add: A lo)
  ultimately show ?thesis using f(1) by blast
qed

lemma smem_realloc_law:
  assumes "heap_area lo hi m A" "(unat p, n) \<in> A" "r \<noteq> 0" "r \<le> max_request"
  shows "rt_smem_realloc p r m = Some (0, m) \<or>
    (\<exists>q k m'. rt_smem_realloc p r m = Some (q, m') \<and> q \<noteq> 0 \<and>
       heap_area lo hi m' (insert (unat q, k) (A - {(unat p, n)})) \<and>
       unat q \<notin> fst ` (A - {(unat p, n)}) \<and> unat r \<le> k \<and>
       same_data smem_word (A - {(unat p, n)}) m m' \<and>
       (\<forall>j<min n (unat r). smem_word m' (unat q + j) = smem_word m (unat p + j)))"
proof -
  from assms(1) obtain bs where rep: "heap_rep m bs" and lo: "unat (heap_ptr m) = lo" "lo + extent bs = hi"
    and A: "A = data_area lo ` live 0 bs" by (auto simp: heap_area_def)
  obtain a i where a: "(a, i) \<in> live 0 bs" "unat p = lo + a + 16" "n = i - 16" "24 \<le> i"
    "unat (heap_ptr m + of_nat (a + 16)) = unat p"
    by (rule heap_area_block [OF rep lo(1) assms(2) [unfolded A]])
  from a(5) have p: "p = heap_ptr m + of_nat (a + 16)" by (simp only: word_unat_eq_iff)
  have rest: "A - {(unat p, n)} = data_area lo ` (live 0 bs - {(a, i)})"
    unfolding A data_area_remove [OF rep a(1)] by (simp add: data_area_def a(2,3))
  have "unat r \<noteq> 0" using assms(3) by (simp add: word_unat_eq_iff)
  then have rs: "unat r \<le> resize r" "resize r \<noteq> 0" using request_ge [OF assms(4)] by simp_all
  from realloc_live [OF rep a(1) rs(2)] show ?thesis
  proof cases
    case 1
    then show ?thesis unfolding p by blast
  next
    case (2 b k m' bs')
    let ?q = "heap_ptr m + of_nat (b + 16)"
    have hp: "heap_ptr m' = heap_ptr m" using 2(3) by (simp add: same_heap_def)
    have "b + 16 \<le> extent bs" using 2(6,7) by simp
    from block_addr [OF rep this lo(1)] have q: "unat ?q = lo + b + 16" .
    have "unat ?q \<noteq> unat (0 :: u32)" unfolding q by simp
    then have "?q \<noteq> 0" by (rule unat_nonzero)
    moreover have "heap_area lo hi m' (insert (unat ?q, k - 16) (A - {(unat p, n)}))"
      by (rule heap_areaI [OF _ 2(2)]) (simp_all only: rest q hp lo 2(4,8) data_area_insert)
    moreover have "unat ?q \<notin> fst ` (A - {(unat p, n)})"
      unfolding rest q by (rule data_area_fresh) (rule 2(5))
    moreover have "unat r \<le> k - 16" using rs(1) 2(6) by linarith
    moreover have "same_data smem_word (A - {(unat p, n)}) m m'"
      using kept_same_data [OF 2(9) hp] by (simp add: rest lo)
    moreover have "\<forall>j<min n (unat r). smem_word m' (unat ?q + j) = smem_word m (unat p + j)"
      using 2(10) rs(1) a(2,3) unfolding smem_word_def q hp by (auto simp: lo(1) add.assoc)
    ultimately show ?thesis using 2(1) p by blast
  qed
qed

lemma smem_put_law:
  assumes "heap_area lo hi m A" "(q, n) \<in> A" "q \<le> a" "a < q + n"
  shows "heap_area lo hi (smem_put a x m) A \<and> smem_word (smem_put a x m) a = x \<and>
    (\<forall>b. b \<noteq> a \<longrightarrow> smem_word (smem_put a x m) b = smem_word m b)"
proof -
  from assms(1) obtain bs where rep: "heap_rep m bs" and lo: "unat (heap_ptr m) = lo" "lo + extent bs = hi"
    and A: "A = data_area lo ` live 0 bs" by (auto simp: heap_area_def)
  obtain c k where c: "(c, k) \<in> live 0 bs" "q = lo + c + 16" "n = k - 16"
    by (rule heap_area_block [OF rep lo(1) assms(2) [unfolded A]])
  then have in_data: "c + 16 \<le> a - lo" "a - lo < c + k" using assms(3,4) by auto
  have "heap_rep (smem_put a x m) bs"
    unfolding smem_put_def
    by (rule heap_rep_data [OF rep]) (use live_not_item [OF rep c(1) in_data] lo(1) in auto)
  then have "heap_area lo hi (smem_put a x m) A"
    using lo A unfolding heap_area_def by (auto simp: smem_put_def)
  moreover have "b - lo \<noteq> a - lo" if "b \<noteq> a" for b using that in_data by linarith
  ultimately show ?thesis by (simp add: smem_word_def smem_put_def lo(1))
qed

interpretation smem: allocator rt_smem_alloc rt_smem_free rt_smem_realloc smem_put smem_word
    "heap_area lo hi" lo hi for lo hi :: nat
proof
  fix m A q n q' n'
  assume area: "heap_area lo hi m A" and q: "(q, n) \<in> A"
  then obtain bs where rep: "heap_rep m bs" and lo: "unat (heap_ptr m) = lo" "lo + extent bs = hi"
    and A: "A = data_area lo ` live 0 bs" by (auto simp: heap_area_def)
  obtain b k where b: "(b, k) \<in> live 0 bs" "q = lo + b + 16" "n = k - 16" "24 \<le> k"
    by (rule heap_area_block [OF rep lo(1) q [unfolded A]])
  from live_split_list [OF b(1)] obtain xs ys where bs: "bs = xs @ (k, True) # ys" "b = extent xs" by auto
  have "8 dvd lo" "8 dvd extent xs"
    using rep lo(1) bs chain_total_dvd by (auto simp: heap_rep_def heap_core_def)
  then show "8 dvd q \<and> 0 < n \<and> lo \<le> q \<and> q + n \<le> hi"
    using b bs(2) live_bounds [OF b(1)] lo(2) by auto
  assume q': "(q', n') \<in> A" "(q, n) \<noteq> (q', n')"
  obtain c j where c: "(c, j) \<in> live 0 bs" "q' = lo + c + 16" "n' = j - 16" "24 \<le> j"
    by (rule heap_area_block [OF rep lo(1) q'(1) [unfolded A]])
  have "(b, k) \<noteq> (c, j)" using q'(2) b c by auto
  from live_disjoint [OF b(1) c(1) this] show "q + n \<le> q' \<or> q' + n' \<le> q"
    using b c by auto
qed (rule smem_alloc_law smem_free_law smem_realloc_law smem_put_law; assumption)+

section \<open>Properties\<close>

text \<open>The clients of mem.c, started on a heap that rt_smem_init has just made.\<close>

abbreviation heap_client_step :: "small_mem \<times> (u32 \<rightharpoonup> nat) \<Rightarrow> small_mem \<times> (u32 \<rightharpoonup> nat) \<Rightarrow> bool" where
  "heap_client_step \<equiv> client_step rt_smem_alloc rt_smem_free rt_smem_realloc smem_put"

definition good_region :: "u32 \<Rightarrow> u32 \<Rightarrow> small_mem \<Rightarrow> bool" where
  "good_region begin_addr sz m \<longleftrightarrow> begin_addr \<noteq> 0 \<and> 128 \<le> unat sz \<and>
    unat begin_addr + unat sz < 2 ^ 32 \<and> mem_size_aligned m \<noteq> 0"

lemma init_area:
  assumes "rt_smem_init begin_addr sz M = Some m" "good_region begin_addr sz m"
  shows "heap_area (unat (heap_ptr m)) (unat (heap_ptr m) + unat (mem_size_aligned m) + 16) m {}"
    "unat begin_addr \<le> unat (heap_ptr m)"
    "unat (heap_ptr m) + unat (mem_size_aligned m) + 16 \<le> unat begin_addr + unat sz"
  using smem_init_rep [OF assms(1)] assms(2)
  by (auto simp: good_region_def heap_area_def intro!: exI [of _ "[(unat (mem_size_aligned m) + 16, False)]"])

lemma reachable_ok:
  assumes "rt_smem_init begin_addr sz M = Some m0" "good_region begin_addr sz m0"
    and "heap_client_step\<^sup>*\<^sup>* (m0, Map.empty) y"
  shows "smem.client_ok (unat (heap_ptr m0)) (unat (heap_ptr m0) + unat (mem_size_aligned m0) + 16) y"
proof (rule smem.client_ok_steps [OF assms(3)])
  show "smem.client_ok (unat (heap_ptr m0)) (unat (heap_ptr m0) + unat (mem_size_aligned m0) + 16) (m0, Map.empty)"
    unfolding smem.client_ok_def using init_area(1) [OF assms(1,2)]
    by (auto simp: holds_areas_def intro!: exI [of _ "{}"])
qed

text \<open>C3
  Whatever sequence of allocations and reallocations of 1 to 0xFFFFFFF8 bytes, releases, and
  writes into held memory runs on a heap that rt_smem_init makes of a region of at least 128
  bytes, not at address 0 and below 2^32: every piece of memory a client holds is 8-aligned and
  lies inside the region given to rt_smem_init, and no two held pieces overlap.  (RT_ALIGN wraps for larger requests; heap_huge_request_wraps says what happens then.)
\<close>

theorem heap_clients_apart:
  assumes "rt_smem_init begin_addr sz M = Some m0" "good_region begin_addr sz m0"
    and "heap_client_step\<^sup>*\<^sup>* (m0, Map.empty) (m, H)" "H p = Some n"
  shows "8 dvd unat p \<and> unat begin_addr \<le> unat p \<and> unat p + n \<le> unat begin_addr + unat sz \<and>
    (\<forall>q k. H q = Some k \<and> q \<noteq> p \<longrightarrow> unat p + n \<le> unat q \<or> unat q + k \<le> unat p)"
proof -
  note ok = reachable_ok [OF assms(1-3)]
  from smem.client_inside [OF ok assms(4)] init_area(2,3) [OF assms(1,2)]
  have "8 dvd unat p \<and> unat begin_addr \<le> unat p \<and> unat p + n \<le> unat begin_addr + unat sz" by auto
  moreover have "unat p + n \<le> unat q \<or> unat q + k \<le> unat p" if "H q = Some k" "q \<noteq> p" for q k
    using smem.client_apart [OF ok assms(4) that(1)] that(2) by blast
  ultimately show ?thesis by blast
qed

lemma area_calls_return:
  assumes "heap_area lo hi m A"
  shows "rt_smem_alloc r m \<noteq> None" "(unat p, n) \<in> A \<Longrightarrow> rt_smem_free p m \<noteq> None"
    and "(unat p, n) \<in> A \<Longrightarrow> rt_smem_realloc p r m \<noteq> None"
proof -
  from assms obtain bs where rep: "heap_rep m bs" by (auto simp: heap_area_def)
  show "rt_smem_alloc r m \<noteq> None"
  proof (cases "r = 0")
    case False
    from alloc_live [OF rep this] show ?thesis by cases (simp_all only: option.distinct not_False_eq_True)
  qed (simp add: rt_smem_alloc_def)
  show f: "(unat p, n) \<in> A \<Longrightarrow> rt_smem_free p m \<noteq> None" using smem_free_law [OF assms] by blast
  assume p: "(unat p, n) \<in> A"
  show "rt_smem_realloc p r m \<noteq> None"
  proof (cases "RT_ALIGN r RT_ALIGN_SIZE = 0")
    case True
    then show ?thesis using f [OF p] by (auto simp: rt_smem_realloc_def Let_def split: option.splits)
  next
    case False
    have "r \<noteq> 0" using False by (auto simp: RT_ALIGN_def RT_ALIGN_SIZE_def)
    moreover have "r \<le> max_request"
    proof (rule ccontr)
      assume "\<not> r \<le> max_request"
      then have "4294967289 \<le> unat r" by (simp add: max_request_def word_le_nat_alt)
      then have "unat (RT_ALIGN r RT_ALIGN_SIZE) = 0"
        unfolding unat_RT_ALIGN_8 using unat_le_u32 [of r] by (subst le_mod_geq) simp_all
      with False show False by (simp add: unat_eq_zero)
    qed
    ultimately show ?thesis using smem_realloc_law [OF assms p] by (metis option.distinct(1))
  qed
qed

text \<open>C30
  In every state that such clients reach (a heap that rt_smem_init makes of a region of at least
  128 bytes, not at address 0 and below 2^32; requests of 1 to 0xFFFFFFF8 bytes so far, releases,
  and writes into held memory), the calls return: rt_smem_alloc of any size, and
  rt_smem_free and rt_smem_realloc (to any size) of a held pointer, fail no assertion and do not
  loop, on a heap of any size and shape, also one with nothing allocated.
\<close>

theorem heap_calls_return:
  assumes "rt_smem_init begin_addr sz M = Some m0" "good_region begin_addr sz m0"
    and "heap_client_step\<^sup>*\<^sup>* (m0, Map.empty) (m, H)"
  shows "rt_smem_alloc r m \<noteq> None \<and>
    (\<forall>p\<in>dom H. rt_smem_free p m \<noteq> None \<and> rt_smem_realloc p r m \<noteq> None)"
proof -
  from reachable_ok [OF assms] obtain A lo hi where A: "heap_area lo hi m A" "holds_areas H A"
    by (auto simp: smem.client_ok_def)
  have "rt_smem_free p m \<noteq> None \<and> rt_smem_realloc p r m \<noteq> None" if "p \<in> dom H" for p
  proof -
    from that obtain n where "H p = Some n" by blast
    then obtain k where k: "(unat p, k) \<in> A" using A(2) unfolding holds_areas_def by blast
    from area_calls_return(2,3) [OF A(1) k] show ?thesis ..
  qed
  with area_calls_return(1) [OF A(1)] show ?thesis by blast
qed

text \<open>
  A step leaves every word of a piece that stays held as it was, unless it is a client write
  to that very address: no allocation, release or reallocation of other memory reaches it,
  and a reallocation keeps the contents.
\<close>

theorem heap_data_stays:
  assumes "rt_smem_init begin_addr sz M = Some m0" "good_region begin_addr sz m0"
    and "heap_client_step\<^sup>*\<^sup>* (m0, Map.empty) (m, H)" "heap_client_step (m, H) (m', H')"
    and "H p = Some n" "H' p = Some n" "unat p \<le> a" "a < unat p + n"
  shows "smem_word m' a = smem_word m a \<or> (\<exists>x. m' = smem_put a x m)"
  by (rule smem.client_data [OF assms(4) reachable_ok [OF assms(1-3)] assms(5-8)])

text \<open>C9
  mem.c refines the list allocator: on a heap that represents a list of blocks, rt_smem_alloc
  is first fit with splitting (RT_NULL exactly when no free block has room) and rt_smem_free
  frees the block and merges it with its free neighbours; the results represent the new
  lists, with lfree, the links and the accounting of used memory in order again.
\<close>

theorem heap_refines_blocks:
  assumes "heap_rep m bs"
  shows "(r \<noteq> 0 \<longrightarrow> alloc_refines m bs (request r) (rt_smem_alloc r m)) \<and>
    (\<forall>xs n ys. bs = xs @ (n, True) # ys \<longrightarrow>
      (\<exists>m'. rt_smem_free (heap_ptr m + of_nat (extent xs + 16)) m = Some m' \<and>
         heap_rep m' (coalesce (xs @ (n, False) # ys))))"
  using alloc_rep free_rep assms by blast

text \<open>
  RT_ALIGN wraps for requests above 0xFFFFFFF8: rt_smem_alloc then hands out a block of less
  than 48 bytes, and rt_smem_realloc releases the client's block and returns RT_NULL, which a
  caller must take for an allocation failure that left its block alone.
\<close>

theorem heap_huge_request_wraps:
  assumes "heap_area lo hi m A" "r > max_request"
  shows "(\<forall>q m'. rt_smem_alloc r m = Some (q, m') \<and> q \<noteq> 0 \<longrightarrow>
      (\<exists>n<48. heap_area lo hi m' (insert (unat q, n) A))) \<and>
    (\<forall>p n. (unat p, n) \<in> A \<longrightarrow>
      (\<exists>m'. rt_smem_realloc p r m = Some (0, m') \<and> heap_area lo hi m' (A - {(unat p, n)})))"
proof -
  from assms(1) obtain bs where rep: "heap_rep m bs" and lo: "unat (heap_ptr m) = lo" "lo + extent bs = hi"
    and A: "A = data_area lo ` live 0 bs" by (auto simp: heap_area_def)
  have "unat r \<ge> 4294967289" using assms(2) by (simp add: max_request_def word_less_nat_alt)
  moreover have "unat r < 4294967296" using unat_lt_u32 [of r] by simp
  ultimately have "(unat r + 7) mod 4294967296 = unat r + 7 - 4294967296"
    by (subst le_mod_geq) simp_all
  then have rs: "resize r = 0" using \<open>unat r < 4294967296\<close> by (simp add: resize_def unat_RT_ALIGN_8)
  then have rq: "request r = 16" by (simp add: request_def resize_def)
  have r0: "r \<noteq> 0" using assms(2) by auto
  have "\<exists>n<48. heap_area lo hi m' (insert (unat q, n) A)"
    if "rt_smem_alloc r m = Some (q, m')" "q \<noteq> 0" for q m'
    using alloc_live [OF rep r0]
  proof cases
    case (2 i k m1 bs1)
    have "Some (q, m') = Some (heap_ptr m + of_nat (i + 16), m1)" by (rule trans [OF that(1) [symmetric] 2(1)])
    then have q: "q = heap_ptr m + of_nat (i + 16)" "m1 = m'" by (simp_all only: option.inject prod.inject)
    have hp: "heap_ptr m' = heap_ptr m" using 2(3) q(2) by (simp add: same_heap_def)
    have "i + 16 \<le> extent bs" using 2(6,7) by simp
    from block_addr [OF rep this lo(1)] have uq: "unat q = lo + i + 16" by (simp only: q(1))
    have "heap_area lo hi m' (insert (unat q, k - 16) A)"
      by (rule heap_areaI [OF _ 2(2) [unfolded q(2)]]) (simp_all only: A uq hp lo 2(4,8) data_area_insert)
    moreover have "k - 16 < 48" using 2(11) rq by simp
    ultimately show ?thesis by blast
  qed (use that in auto)
  moreover have "\<exists>m'. rt_smem_realloc p r m = Some (0, m') \<and> heap_area lo hi m' (A - {(unat p, n)})"
    if "(unat p, n) \<in> A" for p n
  proof -
    from smem_free_law [OF assms(1) that] obtain m' where
      "rt_smem_free p m = Some m'" "heap_area lo hi m' (A - {(unat p, n)})" by blast
    moreover have "RT_ALIGN r RT_ALIGN_SIZE = 0" using resize_word [of r] rs by simp
    ultimately show ?thesis by (simp add: rt_smem_realloc_def)
  qed
  ultimately show ?thesis by blast
qed

section \<open>The properties at a concrete heap\<close>

text \<open>4096 bytes at 0x20000000: heap_ptr is 0x20000040, one free block of 4016 bytes.\<close>

definition demo_heap :: small_mem where
  "demo_heap = the (rt_smem_init 0x20000000 0x1000 (\<lambda>_. 0))"

lemma demo_init: "rt_smem_init 0x20000000 0x1000 (\<lambda>_. 0) = Some demo_heap"
  and demo_ptr: "heap_ptr demo_heap = 0x20000040"
  and demo_size: "mem_size_aligned demo_heap = 4000"
  by (simp_all add: demo_heap_def rt_smem_init_def Let_def RT_ALIGN_def RT_ALIGN_DOWN_def RT_ALIGN_SIZE_def
      sizeof_rt_small_mem_def SIZEOF_STRUCT_MEM_def set_pool_ptr_def set_next_def set_prev_def)

lemma demo_region: "good_region 0x20000000 0x1000 demo_heap"
  by (simp add: good_region_def demo_size)

lemma demo_rep: "heap_rep demo_heap [(4016, False)]"
  using smem_init_rep(1) [OF demo_init] by (simp add: demo_size)

lemma demo_request: "request 100 = 104" "request 30 = 32"
  by (simp_all add: request_def RT_ALIGN_def RT_ALIGN_SIZE_def)

lemma demo_alloc:
  obtains m where "rt_smem_alloc 100 demo_heap = Some (0x20000050, m)"
    "heap_rep m [(120, True), (3896, False)]" "heap_ptr m = 0x20000040"
proof -
  have "alloc_spec 104 [(4016, False)] = Some (0, [(120, True), (3896, False)])"
    by (simp add: split_block_def)
  moreover have "(100 :: u32) \<noteq> 0" by simp
  from alloc_rep [OF demo_rep this] have
    "alloc_refines demo_heap [(4016, False)] 104 (rt_smem_alloc 100 demo_heap)" by (simp only: demo_request)
  ultimately obtain m where
    "rt_smem_alloc 100 demo_heap = Some (heap_ptr demo_heap + of_nat (0 + 16), m)"
    "heap_rep m [(120, True), (3896, False)]" "same_heap m demo_heap"
    by (auto simp only: alloc_refines_def option.case prod.case)
  moreover have "heap_ptr demo_heap + of_nat (0 + 16) = 0x20000050" by (simp add: demo_ptr)
  ultimately show ?thesis using that demo_ptr by (simp only: same_heap_def)
qed

lemma demo_alloc2:
  assumes "heap_rep m [(120, True), (3896, False)]" "heap_ptr m = 0x20000040"
  obtains m' where "rt_smem_alloc 30 m = Some (0x200000C8, m')"
    "heap_rep m' [(120, True), (48, True), (3848, False)]" "heap_ptr m' = 0x20000040"
proof -
  have "alloc_spec 32 [(120, True), (3896, False)] = Some (120, [(120, True), (48, True), (3848, False)])"
    by (simp add: split_block_def)
  moreover have "(30 :: u32) \<noteq> 0" by simp
  from alloc_rep [OF assms(1) this] have
    "alloc_refines m [(120, True), (3896, False)] 32 (rt_smem_alloc 30 m)" by (simp only: demo_request)
  ultimately obtain m' where
    "rt_smem_alloc 30 m = Some (heap_ptr m + of_nat (120 + 16), m')"
    "heap_rep m' [(120, True), (48, True), (3848, False)]" "same_heap m' m"
    by (auto simp only: alloc_refines_def option.case prod.case)
  moreover have "heap_ptr m + of_nat (120 + 16) = 0x200000C8" by (simp add: assms(2))
  ultimately show ?thesis using that assms(2) by (simp only: same_heap_def)
qed

text \<open>Two allocations by the clients, of 100 and of 30 bytes.\<close>

lemma heap_malloc_step:
  assumes "rt_smem_alloc r m = Some (p, m')" "r \<noteq> 0" "r \<le> max_request" "p \<noteq> 0"
  shows "heap_client_step (m, H) (m', H(p \<mapsto> unat r))"
  using client_step.malloc [where alloc = rt_smem_alloc and r = r and s = m and p = p and s' = m' and H = H]
    assms by simp

lemma demo_run:
  obtains m m' where "heap_client_step\<^sup>*\<^sup>* (demo_heap, Map.empty) (m, [0x20000050 \<mapsto> 100])"
    "heap_client_step (m, [0x20000050 \<mapsto> 100]) (m', [0x20000050 \<mapsto> 100, 0x200000C8 \<mapsto> 30])"
    "heap_client_step\<^sup>*\<^sup>* (demo_heap, Map.empty) (m', [0x20000050 \<mapsto> 100, 0x200000C8 \<mapsto> 30])"
    "heap_rep m [(120, True), (3896, False)]" "heap_ptr m = 0x20000040"
proof -
  obtain m where m: "rt_smem_alloc 100 demo_heap = Some (0x20000050, m)"
    "heap_rep m [(120, True), (3896, False)]" "heap_ptr m = 0x20000040" by (rule demo_alloc)
  obtain m' where m': "rt_smem_alloc 30 m = Some (0x200000C8, m')"
    by (rule demo_alloc2 [OF m(2,3)])
  have sizes: "(100 :: u32) \<noteq> 0" "(100 :: u32) \<le> max_request" "unat (100 :: u32) = 100"
    "(30 :: u32) \<noteq> 0" "(30 :: u32) \<le> max_request" "unat (30 :: u32) = 30"
    "(0x20000050 :: u32) \<noteq> 0" "(0x200000C8 :: u32) \<noteq> 0"
    by (simp_all add: max_request_def)
  have 1: "heap_client_step (demo_heap, Map.empty) (m, [0x20000050 \<mapsto> 100])"
    by (rule heap_malloc_step [OF m(1) sizes(1,2,7), unfolded sizes(3)])
  have 2: "heap_client_step (m, [0x20000050 \<mapsto> 100]) (m', [0x20000050 \<mapsto> 100, 0x200000C8 \<mapsto> 30])"
    by (rule heap_malloc_step [OF m' sizes(4,5,8), unfolded sizes(6)])
  from 1 have 3: "heap_client_step\<^sup>*\<^sup>* (demo_heap, Map.empty) (m, [0x20000050 \<mapsto> 100])" by (rule r_into_rtranclp)
  from 3 2 have 4: "heap_client_step\<^sup>*\<^sup>* (demo_heap, Map.empty) (m', [0x20000050 \<mapsto> 100, 0x200000C8 \<mapsto> 30])"
    by (rule rtranclp.rtrancl_into_rtrancl)
  show ?thesis by (rule that) (fact 3 2 4 m(2) m(3))+
qed

theorem heap_clients_apart_witness:
  "\<exists>m'. heap_client_step\<^sup>*\<^sup>* (demo_heap, Map.empty) (m', [0x20000050 \<mapsto> 100, 0x200000C8 \<mapsto> 30]) \<and>
    (8 dvd unat (0x20000050 :: u32) \<and> unat (0x20000000 :: u32) \<le> unat (0x20000050 :: u32) \<and>
     unat (0x20000050 :: u32) + 100 \<le> unat (0x20000000 :: u32) + unat (0x1000 :: u32) \<and>
     (unat (0x20000050 :: u32) + 100 \<le> unat (0x200000C8 :: u32) \<or>
      unat (0x200000C8 :: u32) + 30 \<le> unat (0x20000050 :: u32)))"
proof -
  obtain m m' :: small_mem where run: "heap_client_step\<^sup>*\<^sup>* (demo_heap, Map.empty) (m', [0x20000050 \<mapsto> 100, 0x200000C8 \<mapsto> 30])"
    by (rule demo_run)
  have h: "[0x20000050 \<mapsto> 100, 0x200000C8 \<mapsto> 30] (0x20000050 :: u32) = Some (100 :: nat)" by simp
  from heap_clients_apart [OF demo_init demo_region run h] run show ?thesis by auto
qed

theorem heap_calls_return_witness:
  "\<exists>m. heap_client_step\<^sup>*\<^sup>* (demo_heap, Map.empty) (m, [0x20000050 \<mapsto> 100]) \<and>
    rt_smem_alloc 200 m \<noteq> None \<and> rt_smem_free 0x20000050 m \<noteq> None \<and> rt_smem_realloc 0x20000050 200 m \<noteq> None"
proof -
  obtain m where run: "heap_client_step\<^sup>*\<^sup>* (demo_heap, Map.empty) (m, [0x20000050 \<mapsto> 100])"
    by (rule demo_run)
  from heap_calls_return [OF demo_init demo_region run, where r = 200] run
  show ?thesis by (auto simp del: not_None_eq)
qed

theorem heap_data_stays_witness:
  "\<exists>m m'. heap_client_step (m, [0x20000050 \<mapsto> 100]) (m', [0x20000050 \<mapsto> 100, 0x200000C8 \<mapsto> 30]) \<and>
    (smem_word m' 0x20000054 = smem_word m 0x20000054 \<or> (\<exists>x. m' = smem_put 0x20000054 x m))"
proof -
  obtain m m' :: small_mem where run: "heap_client_step\<^sup>*\<^sup>* (demo_heap, Map.empty) (m, [0x20000050 \<mapsto> 100])"
    "heap_client_step (m, [0x20000050 \<mapsto> 100]) (m', [0x20000050 \<mapsto> 100, 0x200000C8 \<mapsto> 30])"
    by (rule demo_run)
  from heap_data_stays [OF demo_init demo_region run, where p = "0x20000050" and n = 100 and a = "0x20000054"] run(2)
  show ?thesis by auto
qed

theorem heap_refines_blocks_witness:
  "alloc_refines demo_heap [(4016, False)] (request 100) (rt_smem_alloc 100 demo_heap) \<and>
   (\<exists>m m'. rt_smem_free (heap_ptr m + of_nat (extent [] + 16)) m = Some m' \<and>
      heap_rep m' (coalesce ([] @ (120, False) # [(3896, False)])))"
proof -
  obtain m m' :: small_mem where m: "heap_rep m [(120, True), (3896, False)]" by (rule demo_run)
  have nz: "(100 :: u32) \<noteq> 0" by simp
  have "[(120 :: nat, True), (3896, False)] = [] @ (120, True) # [(3896, False)]" by simp
  with conjunct2 [OF heap_refines_blocks [OF m, of 0]]
  have "\<exists>m'. rt_smem_free (heap_ptr m + of_nat (extent [] + 16)) m = Some m' \<and>
      heap_rep m' (coalesce ([] @ (120, False) # [(3896, False)]))" by blast
  moreover from nz have "alloc_refines demo_heap [(4016, False)] (request 100) (rt_smem_alloc 100 demo_heap)"
    by (rule conjunct1 [OF heap_refines_blocks [OF demo_rep, of 100], THEN mp])
  ultimately show ?thesis by blast
qed

theorem heap_huge_request_wraps_witness:
  "\<exists>m m'. heap_area 0x20000040 0x20000FF0 m {(0x20000050, 104)} \<and>
    rt_smem_realloc 0x20000050 0xFFFFFFFF m = Some (0, m') \<and> heap_area 0x20000040 0x20000FF0 m' {}"
proof -
  obtain m m' :: small_mem where m: "heap_rep m [(120, True), (3896, False)]" "heap_ptr m = 0x20000040"
    by (rule demo_run)
  have area: "heap_area 0x20000040 0x20000FF0 m {(0x20000050, 104)}"
    unfolding heap_area_def using m
    by (auto simp: data_area_def intro!: exI [of _ "[(120, True), (3896, False)]"])
  have big: "(0xFFFFFFFF :: u32) > max_request" by (simp add: max_request_def)
  have "(unat (0x20000050 :: u32), 104) \<in> {(0x20000050 :: nat, 104 :: nat)}" by simp
  with conjunct2 [OF heap_huge_request_wraps [OF area big]] have
    "\<exists>m'. rt_smem_realloc 0x20000050 0xFFFFFFFF m = Some (0, m') \<and>
      heap_area 0x20000040 0x20000FF0 m' ({(0x20000050, 104)} - {(unat (0x20000050 :: u32), 104)})" by blast
  then show ?thesis using area by auto
qed

end
