(* ===== verification/Boot_S2.thy ===== *)
theory Boot_S2
  imports Wlh_Prelude
begin

text \<open>
  The second boot stage, bl_s2/main.c: it makes sure that the flash is split into 224 KB of code
  and 96 KB of RAM before the application starts, and programs the option bytes and reboots when
  it is not.  FLASH_OBR holds the option bytes as they were at the last reset.
\<close>

record flash =
  OBR :: u32
  option_bytes :: "u16 list"

datatype flash_status = FLASH_BUSY | FLASH_ERROR_PG | FLASH_ERROR_WRP | FLASH_COMPLETE | FLASH_TIMEOUT |
  FLASH_OP_RANGE_ERROR | FLASH_ALIGN_ERROR | FLASH_ADR_RANGE_ERROR

text \<open>
  FLASH_ProgramOptionByteData of the SDK: the eight halfwords are read, erased and written back with
  the byte and its complement in one of them.  \<open>st\<close> is the result of FLASH_WaitForLastOperation.
\<close>

definition FLASH_ProgramOptionByteData :: "flash_status \<Rightarrow> u32 \<Rightarrow> byte \<Rightarrow> flash \<Rightarrow> flash_status \<times> flash" where
  "FLASH_ProgramOptionByteData st addr data f =
    (st, if st = FLASH_COMPLETE
         then f\<lparr>option_bytes := (option_bytes f)[unat ((addr - 0x1FFFF800) div 2) :=
                  push_bit 8 (NOT (ucast data)) OR ucast data]\<rparr>
         else f)"

definition ram_code_mode :: "flash \<Rightarrow> u32" where "ram_code_mode f = drop_bit 7 (OBR f) AND 7"

definition ram_code_bits :: "flash \<Rightarrow> string" where
  "ram_code_bits f = map (\<lambda>i. if bit (ram_code_mode f) i then CHR ''1'' else CHR ''0'') [2, 1, 0]"

definition ram_code_config :: "flash \<Rightarrow> string" where
  "ram_code_config f =
    [''CODE-192KB + RAM-128KB'', ''CODE-192KB + RAM-128KB'', ''CODE-224KB + RAM-96KB'', ''CODE-224KB + RAM-96KB'',
     ''CODE-256KB + RAM-64KB'', ''CODE-256KB + RAM-64KB'', ''CODE-128KB + RAM-192KB'', ''CODE-288KB + RAM-32KB'']
      ! unat (ram_code_mode f)"

text \<open>The system goes on to the application, or reboots after a message that tells whether the update took.\<close>

datatype boot_outcome = BootApp | Reboot bool flash

definition user_byte :: "flash \<Rightarrow> byte" where "user_byte f = ucast (option_bytes f ! 1)"

definition ensure_ram_code_mode :: "flash_status \<Rightarrow> flash \<Rightarrow> boot_outcome" where
  "ensure_ram_code_mode st f =
    (if ram_code_mode f AND 6 = 2 then BootApp
     else
      (let user = ucast (drop_bit 2 (OBR f) AND 0xFF) :: byte;
           new_user = (user AND 0x1F) OR 0x40
       in case FLASH_ProgramOptionByteData st 0x1FFFF802 new_user f of
            (r, f') \<Rightarrow> Reboot (r = FLASH_COMPLETE \<and> user_byte f' AND 0xE0 = 0x40) f'))"

section \<open>One update is enough\<close>

lemma mask_3: "(7 :: u32) = mask 3"
  by (simp add: mask_eq_exp_minus_1)

lemma ram_code_index: "unat (ram_code_mode f) < 8"
proof -
  have "ram_code_mode f < 2 ^ 3"
    unfolding ram_code_mode_def mask_3 by (rule and_mask_less') simp
  then show ?thesis
    by (simp add: word_less_nat_alt)
qed

lemma nat_3_cases: "n = 0 \<or> n = 1 \<or> n = 2 \<or> 3 \<le> (n::nat)"
  by arith

text \<open>After a reset that loads the user byte into OBR, the mode is what the top bits of the byte say.\<close>

lemma mode_after_reset:
  assumes "ucast (drop_bit 2 (OBR f) AND 0xFF) = (b :: byte)" "b AND 0xC0 = 0x40"
  shows "ram_code_mode f AND 6 = 2"
proof -
  have mask255: "(0xFF :: u32) = mask 8"
    by (simp add: mask_eq_exp_minus_1)
  have "bit (OBR f) (n + 2) = bit b n" if "n < 8" for n
    using that by (auto simp flip: assms(1) simp: mask255 bit_simps)
  from this [of 6] this [of 7] have o: "bit (OBR f) 8 = bit b 6" "bit (OBR f) 9 = bit b 7"
    by simp_all
  have "bit (b AND 0xC0) 6" "\<not> bit (b AND 0xC0) 7"
    unfolding assms(2) by simp_all
  then have "bit b 6" "\<not> bit b 7"
    by (simp_all add: bit_simps)
  then have b: "bit (OBR f) 8" "\<not> bit (OBR f) 9"
    using o by simp_all
  have high: "\<not> bit (7 :: u32) n" if "3 \<le> n" for n
    unfolding mask_3 using that by (simp only: bit_mask_iff) simp
  show ?thesis
  proof (rule bit_word_eqI)
    fix n :: nat
    show "bit (ram_code_mode f AND 6) n = bit (2 :: u32) n"
      using nat_3_cases [of n] b high [of n] by (auto simp: ram_code_mode_def bit_simps)
  qed
qed

text \<open>
  A successful update leaves the other option bytes alone, keeps the low five bits of the user byte
  as OBR has them, stores the complement beside it, and is the last one: after the reset the
  application is started.
\<close>

lemma one_update_is_enough:
  assumes "ensure_ram_code_mode FLASH_COMPLETE f = Reboot ok f'" "length (option_bytes f) = 8"
    and "ucast (drop_bit 2 (OBR f'') AND 0xFF) = user_byte f'"
  shows "ok" "ensure_ram_code_mode st f'' = BootApp" "\<And>i. i \<noteq> 1 \<Longrightarrow> option_bytes f' ! i = option_bytes f ! i"
    and "user_byte f' = (ucast (drop_bit 2 (OBR f) AND 0xFF) AND 0x1F) OR 0x40"
proof -
  let ?n = "(ucast (drop_bit 2 (OBR f) AND 0xFF) AND 0x1F) OR 0x40 :: byte"
  let ?h = "push_bit 8 (NOT (ucast ?n)) OR ucast ?n :: u16"
  have f': "f' = f\<lparr>option_bytes := (option_bytes f)[1 := ?h]\<rparr>" and ok: "ok = (user_byte f' AND 0xE0 = 0x40)"
    using assms(1) by (auto simp: ensure_ram_code_mode_def FLASH_ProgramOptionByteData_def Let_def split: if_splits)
  have "ucast ?h = ?n"
    by (rule bit_word_eqI) (auto simp: bit_simps)
  then show u: "user_byte f' = ?n"
    using assms(2) by (simp add: f' user_byte_def)
  have "(x AND 0x1F OR 0x40) AND 0xE0 = 0x40" "(x AND 0x1F OR 0x40) AND 0xC0 = 0x40" for x :: byte
    by (simp_all add: bit.conj_disj_distrib2 and.assoc)
  then show ok "ensure_ram_code_mode st f'' = BootApp"
    using mode_after_reset [OF assms(3)] by (simp_all add: ok u ensure_ram_code_mode_def)
  show "option_bytes f' ! i = option_bytes f ! i" if "i \<noteq> 1" for i
    using that by (simp add: f')
qed

end
