(* ===== verification/Heap_Api.thy ===== *)
theory Heap_Api
  imports Small_Mem_Alloc Ring_Buffer
begin

text \<open>
  The heap functions of rt-thread/src/kservice.c on the heap of mem.c, and the two functions of
  ringbuffer.c that use them.  The calls run between _heap_lock and _heap_unlock, so they are
  single steps; the lock is a mutex (Ipc_Mutex).  \<open>None\<close> is a failed RT_ASSERT or a loop that does
  not end, as in Small_Mem.
\<close>

section \<open>kservice.c\<close>

text \<open>rt_system_heap_init_generic; the inner \<open>None\<close> is a system heap that is RT_NULL.\<close>

definition rt_system_heap_init :: "u32 \<Rightarrow> u32 \<Rightarrow> (nat \<Rightarrow> u32) \<Rightarrow> small_mem option option" where
  "rt_system_heap_init begin_addr end_addr M =
    (let begin_align = RT_ALIGN begin_addr RT_ALIGN_SIZE;
         end_align = RT_ALIGN_DOWN end_addr RT_ALIGN_SIZE
     in if end_align > begin_align then Some (rt_smem_init begin_align (end_align - begin_align) M) else None)"

definition rt_malloc :: "u32 \<Rightarrow> small_mem \<Rightarrow> (u32 \<times> small_mem) option" where
  "rt_malloc sz m = rt_smem_alloc sz m"

definition rt_realloc :: "u32 \<Rightarrow> u32 \<Rightarrow> small_mem \<Rightarrow> (u32 \<times> small_mem) option" where
  "rt_realloc p newsize m = rt_smem_realloc p newsize m"

definition rt_free :: "u32 \<Rightarrow> small_mem \<Rightarrow> small_mem option" where
  "rt_free p m = (if p = 0 then Some m else rt_smem_free p m)"

text \<open>rt_memset on the words of the heap.\<close>

definition set_words :: "nat \<Rightarrow> nat \<Rightarrow> u32 \<Rightarrow> (nat \<Rightarrow> u32) \<Rightarrow> nat \<Rightarrow> u32" where
  "set_words dst n x M = (\<lambda>a. if dst \<le> a \<and> a < dst + n then x else M a)"

definition smem_memset :: "u32 \<Rightarrow> u32 \<Rightarrow> u32 \<Rightarrow> small_mem \<Rightarrow> small_mem" where
  "smem_memset p x n m = m\<lparr>heap := set_words (unat p - unat (heap_ptr m)) (unat n) x (heap m)\<rparr>"

definition rt_calloc :: "u32 \<Rightarrow> u32 \<Rightarrow> small_mem \<Rightarrow> (u32 \<times> small_mem) option" where
  "rt_calloc count sz m =
    (case rt_malloc (count * sz) m of
       None \<Rightarrow> None
     | Some (p, m') \<Rightarrow> Some (p, if p \<noteq> 0 then smem_memset p 0 (count * sz) m' else m'))"

text \<open>The pointer that rt_malloc returned is kept in the word below the aligned one.\<close>

definition rt_malloc_align :: "u32 \<Rightarrow> u32 \<Rightarrow> small_mem \<Rightarrow> (u32 \<times> small_mem) option" where
  "rt_malloc_align sz align0 m =
    (let align = (align0 + 3) AND NOT 3;
         align_size = ((sz + 3) AND NOT 3) + align
     in case rt_malloc align_size m of
          None \<Rightarrow> None
        | Some (ptr, m') \<Rightarrow>
            (if ptr \<noteq> 0
             then (let align_ptr = (if ptr AND (align - 1) = 0 then ptr + align
                                    else (ptr + (align - 1)) AND NOT (align - 1))
                   in Some (align_ptr, smem_put (unat (align_ptr - 4)) ptr m'))
             else Some (ptr, m')))"

definition rt_free_align :: "u32 \<Rightarrow> small_mem \<Rightarrow> small_mem option" where
  "rt_free_align ptr m = (if ptr = 0 then Some m else rt_free (smem_word m (unat (ptr - 4))) m)"

definition rt_memory_info :: "small_mem \<Rightarrow> u32 \<times> u32 \<times> u32" where
  "rt_memory_info m = (mem_size_aligned m, mem_used m, mem_max m)"

section \<open>ringbuffer.c\<close>

text \<open>
  A ring buffer on the heap: the address of the structure, of its pool, and the structure, whose
  \<open>buffer_ptr\<close> is the bytes of the pool.
\<close>

record rb_object =
  rb_self :: u32
  rb_pool :: u32
  rb_ring :: rt_ringbuffer

definition sizeof_ringbuffer :: u32 where "sizeof_ringbuffer = 16"

definition pool_bytes :: "small_mem \<Rightarrow> u32 \<Rightarrow> u32 \<Rightarrow> byte list" where
  "pool_bytes m p n = map (\<lambda>i. ucast (smem_word m (unat p + i))) [0..<unat n]"

definition rt_ringbuffer_create :: "u32 \<Rightarrow> small_mem \<Rightarrow> (rb_object option \<times> small_mem) option" where
  "rt_ringbuffer_create sz0 m =
    (if \<not> 0 < sz0 then None
     else
      (let sz = RT_ALIGN_DOWN sz0 RT_ALIGN_SIZE
       in case rt_malloc sizeof_ringbuffer m of
            None \<Rightarrow> None
          | Some (rb, m1) \<Rightarrow>
              (if rb = 0 then Some (None, m1)
               else
                (case rt_malloc sz m1 of
                   None \<Rightarrow> None
                 | Some (pool, m2) \<Rightarrow>
                     (if pool = 0 then map_option (Pair None) (rt_free rb m2)
                      else map_option (\<lambda>r. (Some \<lparr>rb_self = rb, rb_pool = pool, rb_ring = r\<rparr>, m2))
                             (rt_ringbuffer_init (pool_bytes m2 pool sz) sz))))))"

definition rt_ringbuffer_destroy :: "rb_object \<Rightarrow> small_mem \<Rightarrow> small_mem option" where
  "rt_ringbuffer_destroy ob m =
    (case rt_free (rb_pool ob) m of None \<Rightarrow> None | Some m' \<Rightarrow> rt_free (rb_self ob) m')"

section \<open>The system heap\<close>

text \<open>The system heap lies between the two addresses and starts with nothing allocated.\<close>

lemma system_heap_area:
  assumes "rt_system_heap_init b e M = Some (Some m)" "RT_ALIGN b RT_ALIGN_SIZE \<noteq> 0"
    and "unat (RT_ALIGN b RT_ALIGN_SIZE) + 128 \<le> unat (RT_ALIGN_DOWN e RT_ALIGN_SIZE)" "mem_size_aligned m \<noteq> 0"
  obtains lo hi where "heap_area lo hi m {}" "unat (RT_ALIGN b RT_ALIGN_SIZE) \<le> lo" "hi \<le> unat e"
proof -
  let ?b = "RT_ALIGN b RT_ALIGN_SIZE" and ?e = "RT_ALIGN_DOWN e RT_ALIGN_SIZE"
  have i: "rt_smem_init ?b (?e - ?b) M = Some m"
    using assms(1) by (simp add: rt_system_heap_init_def Let_def split: if_splits)
  have d: "unat (?e - ?b) = unat ?e - unat ?b" using assms(3) by (simp add: unat_sub_u32)
  have "unat ?e < 2 ^ 32" by (rule unat_lt_u32)
  then have g: "good_region ?b (?e - ?b) m"
    using assms(2-4) d by (simp add: good_region_def)
  have "unat ?e \<le> unat e" by (simp add: word_nat)
  then show ?thesis
    using that [OF init_area(1,2) [OF i g]] init_area(3) [OF i g] d assms(3) by linarith
qed

section \<open>Filling and aligned allocation\<close>

lemma set_words_0: "set_words d 0 x M = M"
  by (auto simp: set_words_def fun_eq_iff)

lemma set_words_Suc: "set_words d (Suc j) x M = (set_words d j x M)(d + j := x)"
  by (auto simp: set_words_def fun_eq_iff)

lemma set_words_area:
  assumes "heap_area lo hi m A" "(q, n) \<in> A" "j \<le> n"
  shows "heap_area lo hi (m\<lparr>heap := set_words (q - lo) j x (heap m)\<rparr>) A"
  using assms(3)
proof (induction j)
  case 0
  then show ?case using assms(1) by (simp add: set_words_0)
next
  case (Suc j)
  let ?m = "m\<lparr>heap := set_words (q - lo) j x (heap m)\<rparr>"
  have hp: "unat (heap_ptr m) = lo" using assms(1) by (simp add: heap_area_def)
  have "lo \<le> q" using smem.area_law [OF assms(1,2)] by simp
  then have "smem_put (q + j) x ?m = m\<lparr>heap := set_words (q - lo) (Suc j) x (heap m)\<rparr>"
    by (simp add: smem_put_def hp set_words_Suc)
  with smem_put_law [of lo hi ?m A q n "q + j" x] Suc assms(2) show ?case by simp
qed

lemma word_set_words:
  assumes "unat (heap_ptr m) = lo" "lo \<le> q" "lo \<le> a"
  shows "smem_word (m\<lparr>heap := set_words (q - lo) j x (heap m)\<rparr>) a =
    (if q \<le> a \<and> a < q + j then x else smem_word m a)"
  using assms by (auto simp: smem_word_def set_words_def)

lemma outside_area:
  assumes "heap_area lo hi m (insert (p, n) A)" "p \<notin> fst ` A" "(q, i) \<in> A" "q \<le> a" "a < q + i"
  shows "lo \<le> a" "\<not> (p \<le> a \<and> a < p + n)"
proof -
  have "(p, n) \<noteq> (q, i)" using assms(2,3) by force
  with smem.apart_law [OF assms(1), of p n q i] assms(3-5) show "\<not> (p \<le> a \<and> a < p + n)" by auto
  show "lo \<le> a" using smem.area_law [OF assms(1), of q i] assms(3,4) by auto
qed

text \<open>
  rt_calloc gives a block of zeroes and leaves the other blocks alone.  The product wraps: a
  caller that asks for 2 ^ 32 bytes and more gets a block for the remainder.
\<close>

lemma calloc_law:
  assumes "heap_area lo hi m A" "count * sz \<noteq> 0" "count * sz \<le> max_request"
  shows "rt_calloc count sz m = Some (0, m) \<or>
    (\<exists>p n m'. rt_calloc count sz m = Some (p, m') \<and> p \<noteq> 0 \<and> heap_area lo hi m' (insert (unat p, n) A) \<and>
       unat p \<notin> fst ` A \<and> unat (count * sz) \<le> n \<and> (\<forall>i<unat (count * sz). smem_word m' (unat p + i) = 0) \<and>
       same_data smem_word A m m')"
  using smem.alloc_law [OF assms]
proof (elim disjE exE conjE)
  fix p n m1
  assume r: "rt_smem_alloc (count * sz) m = Some (p, m1)" "p \<noteq> 0" "heap_area lo hi m1 (insert (unat p, n) A)"
    "unat p \<notin> fst ` A" "unat (count * sz) \<le> n" "same_data smem_word A m m1"
  have lo: "unat (heap_ptr m1) = lo" "lo \<le> unat p"
    using r(3) smem.area_law [OF r(3), of "unat p" n] by (auto simp: heap_area_def)
  let ?m = "m1\<lparr>heap := set_words (unat p - lo) (unat (count * sz)) 0 (heap m1)\<rparr>"
  have c: "rt_calloc count sz m = Some (p, ?m)"
    using r(1,2) lo(1) by (simp add: rt_calloc_def rt_malloc_def smem_memset_def)
  have "heap_area lo hi ?m (insert (unat p, n) A)"
    by (rule set_words_area [OF r(3) _ r(5)]) simp
  moreover have "smem_word ?m (unat p + i) = 0" if "i < unat (count * sz)" for i
    using that lo by (simp add: word_set_words [OF lo])
  moreover have "same_data smem_word A m ?m"
    unfolding same_data_def
  proof (intro ballI allI impI case_prodI2)
    fix x q i a assume x: "x \<in> A" "x = (q, i)" "q \<le> a \<and> a < q + i"
    then have "(q, i) \<in> A" "q \<le> a" "a < q + i" by auto
    with outside_area [OF r(3,4) this] r(5,6) show "smem_word ?m a = smem_word m a"
      by (auto simp: word_set_words [OF lo] same_data_def)
  qed
  ultimately show ?thesis using c r(2,4,5) by blast
qed (simp add: rt_calloc_def rt_malloc_def)

lemma calloc_wraps: "rt_calloc 0x10000 0x10001 m = rt_calloc 1 0x10000 m"
proof -
  have "(0x10000 * 0x10001 :: u32) = 1 * 0x10000" by simp
  then show ?thesis by (simp only: rt_calloc_def)
qed

text \<open>The next multiple of \<open>a\<close> above an 8-aligned address leaves room for the pointer.\<close>

lemma next_multiple:
  assumes "8 dvd p" "a = 2 ^ k" "2 \<le> k" "q = (if p mod a = 0 then p + a else (p + (a - 1)) div a * a)"
  shows "a dvd q" "p + 4 \<le> q" "q \<le> p + (a::nat)"
proof -
  have a: "0 < a" "4 dvd a" using assms(2,3) by (simp_all add: le_imp_power_dvd [of 2 k 2, simplified])
  show "a dvd q" using assms(4) by auto
  show "q \<le> p + a"
    using assms(4) order_trans [OF div_times_less_eq_dividend [of "p + (a - 1)" a], of "p + a"]
    by (simp del: One_nat_def split: if_splits)
  show "p + 4 \<le> q"
  proof (cases "p mod a = 0")
    case True
    then show ?thesis using assms(4) dvd_imp_le [OF a(2,1)] by simp
  next
    case False
    then have q: "q = (p + (a - 1)) div a * a" using assms(4) by simp
    have "(p + (a - 1)) mod a < a" using a(1) by simp
    then have "p \<le> q" using q div_mult_mod_eq [of "p + (a - 1)" a] by linarith
    moreover have "p \<noteq> q" using False q by (metis mod_mult_self2_is_0)
    moreover have "4 dvd q" using a(2) \<open>a dvd q\<close> by (rule dvd_trans)
    moreover have "4 dvd p" using assms(1) by (rule dvd_trans [rotated]) simp
    ultimately show ?thesis by (auto elim!: dvdE)
  qed
qed

lemma aligned_word:
  assumes "unat (a :: u32) = 2 ^ k" "k < 32" "unat p + 2 ^ k < 2 ^ 32"
  shows "unat (if p AND (a - 1) = 0 then p + a else (p + (a - 1)) AND NOT (a - 1)) =
    (if unat p mod 2 ^ k = 0 then unat p + 2 ^ k else (unat p + (2 ^ k - 1)) div 2 ^ k * 2 ^ k)"
proof -
  have "of_nat (unat a) = (of_nat (2 ^ k) :: u32)" by (simp only: assms(1))
  then have "a = 2 ^ k" by simp
  then have m: "a - 1 = mask k" by (simp add: mask_eq_exp_minus_1)
  have "unat (p AND mask k) = unat p mod 2 ^ k"
    by (simp only: take_bit_eq_mask [symmetric] unsigned_take_bit_eq) (simp add: take_bit_eq_mod)
  then have z: "p AND (a - 1) = 0 \<longleftrightarrow> unat p mod 2 ^ k = 0"
    unfolding m by (metis unat_eq_zero)
  have "unat (mask k :: u32) = 2 ^ k - 1"
    unfolding m [symmetric] by (simp add: unat_sub_u32 assms(1))
  then have "unat (p + (a - 1)) = unat p + (2 ^ k - 1)"
    using assms(3) by (simp add: m unat_add_u32)
  moreover have "unat (p + a) = unat p + 2 ^ k"
    using assms(1,3) by (simp add: unat_add_u32)
  ultimately show ?thesis
    unfolding z by (simp add: m unat_clear_low)
qed

lemma unat_up_4:
  assumes "unat (x :: u32) + 3 < 2 ^ 32"
  shows "unat ((x + 3) AND NOT 3) = (unat x + 3) div 4 * 4"
proof -
  have three: "(3 :: u32) = mask 2" by (simp add: mask_eq_exp_minus_1)
  have "unat (x + 3) = unat x + 3" using unat_add_u32 [of x 3] assms by simp
  then show ?thesis
    using unat_clear_low [of "x + 3" 2] unfolding three [symmetric] by simp
qed

lemma sint_pos: "0 < unat (x :: u32) \<Longrightarrow> unat x < 2 ^ 31 \<Longrightarrow> 0 < sint x"
proof -
  assume x: "0 < unat x" "unat x < 2 ^ 31"
  have "int (unat x) < int (2 ^ 31)" using x(2) by (simp only: of_nat_less_iff)
  then have u: "0 < uint x" "uint x < 2 ^ 31" using x(1) by (simp_all only: uint_nat of_nat_0_less_iff) simp
  then have "signed_take_bit 31 (uint x) = uint x" by (intro signed_take_bit_int_eq_self) simp_all
  then show ?thesis using u(1) by (simp add: sint_uint)
qed

lemma same_data_trans: "same_data w A m m1 \<Longrightarrow> same_data w A m1 m2 \<Longrightarrow> same_data w A m m2"
  by (simp add: same_data_def split_beta)

lemma heap_area_end: "heap_area lo hi m A \<Longrightarrow> hi + 16 \<le> 2 ^ 32"
  by (auto simp: heap_area_def heap_rep_def heap_core_def)

text \<open>
  rt_malloc_align gives an address that is aligned as asked, with room for the request inside
  one block of the heap, and keeps in the block below it what rt_free_align needs.
\<close>

lemma malloc_align_law:
  assumes "heap_area lo hi m A" "unat al = 2 ^ k" "2 \<le> k" "unat sz + 3 + 2 ^ k \<le> unat max_request"
  shows "rt_malloc_align sz al m = Some (0, m) \<or>
    (\<exists>p q n m'. rt_malloc_align sz al m = Some (q, m') \<and> p \<noteq> 0 \<and> heap_area lo hi m' (insert (unat p, n) A) \<and>
       unat p \<notin> fst ` A \<and> 2 ^ k dvd unat q \<and> unat p + 4 \<le> unat q \<and> unat q + unat sz \<le> unat p + n \<and>
       smem_word m' (unat (q - 4)) = p \<and> same_data smem_word A m m')"
proof -
  have lim: "unat max_request = 4294967288" by (simp add: max_request_def)
  then have k: "k < 32" using assms(4) power_increasing [of 32 k "2 :: nat"] by (cases "k < 32") auto
  let ?al = "(al + 3) AND NOT 3" and ?sz = "(sz + 3) AND NOT 3"
  have "(4 :: nat) dvd 2 ^ k" using assms(3) le_imp_power_dvd [of 2 k "2 :: nat"] by simp
  then have al: "unat ?al = 2 ^ k"
    using unat_up_4 [of al] assms(2,4) lim by (auto elim!: dvdE)
  have "unat ?sz = (unat sz + 3) div 4 * 4"
    by (rule unat_up_4) (use assms(4) lim in simp)
  then have sz: "unat ?sz \<le> unat sz + 3" "unat sz \<le> unat ?sz" by arith+
  then have req: "unat (?sz + ?al) = unat ?sz + 2 ^ k"
    using unat_add_u32 [of ?sz ?al] al assms(4) lim by simp
  then have ne: "?sz + ?al \<noteq> 0" by (metis add_is_0 power_not_zero unat_0 zero_neq_numeral)
  have "?sz + ?al \<le> max_request"
    unfolding word_le_nat_alt req using sz(1) assms(4) by linarith
  from smem.alloc_law [OF assms(1) ne this] show ?thesis
  proof (elim disjE exE conjE)
    fix p n m1
    assume r: "rt_smem_alloc (?sz + ?al) m = Some (p, m1)" "p \<noteq> 0" "heap_area lo hi m1 (insert (unat p, n) A)"
      "unat p \<notin> fst ` A" "unat (?sz + ?al) \<le> n" "same_data smem_word A m m1"
    let ?q = "if p AND (?al - 1) = 0 then p + ?al else (p + (?al - 1)) AND NOT (?al - 1)"
    have p: "8 dvd unat p" "lo \<le> unat p" "unat p + n \<le> hi"
      using smem.area_law [OF r(3), of "unat p" n] by auto
    have "unat p + 2 ^ k < 2 ^ 32" using p(3) r(5) req heap_area_end [OF r(3)] by simp
    note q = next_multiple [OF p(1) refl assms(3) aligned_word [OF al k this]]
    have q4: "unat (?q - 4) = unat ?q - 4" using unat_sub_u32 [of 4 ?q] q(2) by simp
    let ?m = "smem_put (unat (?q - 4)) p m1"
    have inside: "unat p \<le> unat (?q - 4)" "unat (?q - 4) < unat p + n"
      using q(2,3) r(5) unfolding req q4 by linarith+
    note put = smem.put_law [OF r(3) insertI1 inside, of p]
    have "same_data smem_word A m ?m"
      unfolding same_data_def
    proof (intro ballI allI impI case_prodI2)
      fix x q' i a assume x: "x \<in> A" "x = (q', i)" "q' \<le> a \<and> a < q' + i"
      then have a: "(q', i) \<in> A" "q' \<le> a" "a < q' + i" by auto
      have "a \<noteq> unat (?q - 4)" using outside_area(2) [OF r(3,4) a] inside by blast
      then show "smem_word ?m a = smem_word m a" using put a r(6) by (auto simp: same_data_def)
    qed
    moreover have "rt_malloc_align sz al m = Some (?q, ?m)"
      by (simp only: rt_malloc_align_def rt_malloc_def Let_def r(1,2) option.case prod.case simp_thms if_True)
    moreover have "unat ?q + unat sz \<le> unat p + n" using q(3) r(5) sz(2) unfolding req by linarith
    ultimately show ?thesis using put r(2,4) q(1,2) by blast
  qed (simp add: rt_malloc_align_def rt_malloc_def Let_def)
qed

lemma free_align_law:
  assumes "heap_area lo hi m A" "(unat p, n) \<in> A" "q \<noteq> 0" "smem_word m (unat (q - 4)) = p"
  shows "\<exists>m'. rt_free_align q m = Some m' \<and> heap_area lo hi m' (A - {(unat p, n)}) \<and> same_data smem_word A m m'"
proof -
  have "p \<noteq> 0"
    using smem.area_law [OF assms(1,2)] assms(1) by (auto simp: heap_area_def heap_rep_def heap_core_def)
  then show ?thesis
    using smem.free_law [OF assms(1,2)] assms(3,4) by (simp add: rt_free_align_def rt_free_def)
qed

section \<open>Ring buffers on the heap\<close>

text \<open>
  rt_ringbuffer_create fails no assertion: it returns RT_NULL and leaves the heap as it was, or a
  buffer that is empty, in order and as large as asked (less the remainder modulo 8), and
  rt_ringbuffer_destroy gives back exactly its two blocks.
\<close>

lemma ringbuffer_create_law:
  assumes "heap_area lo hi m A" "hi - lo < 2 ^ 31" "0 < sz" "sz \<le> max_request"
  shows "(\<exists>m'. rt_ringbuffer_create sz m = Some (None, m') \<and> heap_area lo hi m' A) \<or>
    (\<exists>ob m' i j. rt_ringbuffer_create sz m = Some (Some ob, m') \<and>
       heap_area lo hi m' (insert (unat (rb_pool ob), i) (insert (unat (rb_self ob), j) A)) \<and>
       unat (rb_self ob) \<notin> fst ` A \<and> unat (rb_pool ob) \<notin> fst ` insert (unat (rb_self ob), j) A \<and>
       rb_inv (rb_ring ob) \<and> rb_contents (rb_ring ob) = [] \<and> rb_cap (rb_ring ob) = unat sz div 8 * 8)"
proof -
  let ?sz = "RT_ALIGN_DOWN sz RT_ALIGN_SIZE"
  have sixteen: "sizeof_ringbuffer \<noteq> 0" "sizeof_ringbuffer \<le> max_request"
    by (simp_all add: sizeof_ringbuffer_def max_request_def)
  have sz: "unat ?sz = unat sz div 8 * 8" "unat ?sz \<le> unat sz" by (simp_all add: word_nat)
  have le: "?sz \<le> max_request" using sz(2) assms(4) by (simp add: word_le_nat_alt)
  from smem.alloc_law [OF assms(1) sixteen] show ?thesis
  proof (elim disjE exE conjE)
    fix p j m1
    assume r: "rt_smem_alloc sizeof_ringbuffer m = Some (p, m1)" "p \<noteq> 0"
      "heap_area lo hi m1 (insert (unat p, j) A)" "unat p \<notin> fst ` A"
    have given_back: "insert (unat p, j) A - {(unat p, j)} = A" using r(4) by force
    show ?thesis
    proof (cases "rt_smem_alloc ?sz m1 = Some (0, m1)")
      case True
      with smem.free_law [OF r(3) insertI1] r(1,2) assms(3) given_back show ?thesis
        by (auto simp: rt_ringbuffer_create_def rt_malloc_def rt_free_def Let_def)
    next
      case False
      have "?sz \<noteq> 0" using False by (auto simp: rt_smem_alloc_def)
      from smem.alloc_law [OF r(3) this le] False obtain q i m2 where
        t: "rt_smem_alloc ?sz m1 = Some (q, m2)" "q \<noteq> 0"
          "heap_area lo hi m2 (insert (unat q, i) (insert (unat p, j) A))"
          "unat q \<notin> fst ` insert (unat p, j) A" "unat ?sz \<le> i" by blast
      have "unat ?sz < 2 ^ 31"
        using smem.area_law [OF t(3) insertI1] t(5) assms(2) by auto
      moreover have "8 \<le> unat ?sz" using \<open>?sz \<noteq> 0\<close> sz(1) by (auto simp: word_unat_eq_iff)
      ultimately obtain b where "rt_ringbuffer_init (pool_bytes m2 q ?sz) ?sz = Some b" "rb_inv b"
        "rb_contents b = []" "rb_cap b = unat ?sz div 8 * 8"
        using rb_init [OF sint_pos, of ?sz "pool_bytes m2 q ?sz"] by (auto simp: pool_bytes_def)
      then show ?thesis
        using r(1,2,4) t assms(3) sz(1)
        by (intro disjI2) (auto simp: rt_ringbuffer_create_def rt_malloc_def Let_def)
    qed
  next
    assume "rt_smem_alloc sizeof_ringbuffer m = Some (0, m)"
    then show ?thesis using assms(1,3) by (simp add: rt_ringbuffer_create_def rt_malloc_def)
  qed
qed

lemma ringbuffer_destroy_law:
  assumes "heap_area lo hi m (insert (unat (rb_pool ob), i) (insert (unat (rb_self ob), j) A))"
    and "unat (rb_self ob) \<notin> fst ` A" "unat (rb_pool ob) \<notin> fst ` insert (unat (rb_self ob), j) A"
  shows "\<exists>m'. rt_ringbuffer_destroy ob m = Some m' \<and> heap_area lo hi m' A \<and> same_data smem_word A m m'"
proof -
  have given_back: "insert (unat (rb_pool ob), i) (insert (unat (rb_self ob), j) A) - {(unat (rb_pool ob), i)} =
      insert (unat (rb_self ob), j) A" "insert (unat (rb_self ob), j) A - {(unat (rb_self ob), j)} = A"
    using assms(2,3) by force+
  have lo: "lo \<noteq> 0" using assms(1) by (auto simp: heap_area_def heap_rep_def heap_core_def)
  have ne: "rb_pool ob \<noteq> 0" "rb_self ob \<noteq> 0"
    using smem.area_law [OF assms(1)] lo by fastforce+
  from smem.free_law [OF assms(1) insertI1] obtain m1 where f1: "rt_smem_free (rb_pool ob) m = Some m1"
    "heap_area lo hi m1 (insert (unat (rb_self ob), j) A)" "same_data smem_word A m m1"
    unfolding given_back by (auto simp: same_data_def)
  from smem.free_law [OF f1(2) insertI1] obtain m2 where "rt_smem_free (rb_self ob) m1 = Some m2"
    "heap_area lo hi m2 A" "same_data smem_word A m1 m2"
    unfolding given_back by (auto simp: same_data_def)
  with f1 ne same_data_trans [OF f1(3)] show ?thesis by (simp add: rt_ringbuffer_destroy_def rt_free_def)
qed

end
