(* ===== verification/Spec2Isabelle.thy ===== *)
theory Spec2Isabelle
  imports Wlh_App Usb_Tx Usbhs_In Eth_Rx Ipc_Event Sched_Refine Thread_Sleep Small_Mem_Alloc Boot_S2 Heap_Api
begin

text \<open>
  The WL-hosted coprocessor firmware: a CH32V3x7 microcontroller with RT-Thread that gives a
  host, over a USB bulk interface, the use of its Ethernet port.  This development models the
  firmware's own code (src/applications) and the parts of the RT-Thread kernel it stands on,
  and proves what makes them correct.

  \<^bold>\<open>The program and its parts.\<close>  The host sends a byte stream of wire frames on a bulk
  OUT endpoint.  transport_usb.c puts the packets into a ring buffer from interrupt context
  and reassembles frames from it in a thread, which hands each frame to the core
  (wlh_coproc_on_frame).  The core, a git submodule that is not part of the repository,
  gives frames for the host back through wlh_transport_submit_tx: two message queues
  (control before data), drained by a transmit thread that writes to the bulk IN endpoint and
  reports each frame's completion.  The core gives Ethernet frames from the host to
  wlh_eth_rx_from_core in eth_backend.c, which arms the next descriptor of the transmit ring
  of the Ethernet DMA; a worker thread completes them when the DMA has sent them, and drains
  the receive ring into the core, under credits: without credit it keeps the frame and asks
  the link partner to pause.  eth_phy.c brings up the PHY and reports the link.  wlh_app.c
  starts the parts in order and restarts the core on its link-control thread when the transport
  reports a reset.  Below the transport is the driver of the USB device controller,
  usb_dc_usbhs.c.  Threads and interrupts talk through semaphores, mutexes, message queues and
  events of rt-thread/src/ipc.c, on the scheduler of scheduler_up.c and the timers of timer.c;
  the core's buffers come from the heap of rt-thread/src/mem.c.  Before all of it runs the
  second boot stage, bl_s2/main.c.

  \<^bold>\<open>Theories.\<close>
  \<^item> Wlh_Prelude: machine types, memcpy on lists, RT_ALIGN, shared lemmas.
  \<^item> Ring_Buffer: components/drivers/ipc/ringbuffer.c.  The record \<open>rt_ringbuffer\<close> has the
    C fields (31-bit indices with a mirror bit); every operation refines a bounded
    byte queue (locale \<open>byte_fifo\<close>, interpreted on the model).
  \<^item> Ipc_Thread: what ipc.c uses of threads: status, thread timer, error code, the suspended
    list, waking (scheduler_comm.c), suspending and timeout (thread.c), timer start and
    stop (timer.c).  \<open>rt_kernel\<close> is the kernel state, threads are named by \<open>tid\<close>.
  \<^item> Ipc_Sem, Ipc_Mq, Ipc_Event: semaphore, message queue and event of ipc.c.  Calls that block
    are split where the code calls rt_schedule, so that other threads and interrupts
    interleave there; \<open>Blocked\<close>, \<open>Halted\<close> and \<open>Returned\<close> are the outcomes.  The message queue
    is on its linked message nodes; the locale \<open>msg_queue\<close> is its contract.
  \<^item> Ipc_Mutex, Mutex_Inherit, Mutex_Ops, Mutex_Sys: the mutex of ipc.c with priority inheritance
    and ceilings, all threads and mutexes in one state \<open>mu_state\<close>; priorities along the chains of
    waiting threads; the operations; the system that interleaves takes, releases, ceilings,
    expiries (each with its callback as one step) and the scheduler.
  \<^item> Kservice_Bits, Sched_Up, Sched_Order, Sched_Sys, Sched_Refine: __rt_ffs and __rt_fls of
    kservice.c; the ready queues with their bitmap and the status bytes of scheduler_up.c,
    scheduler_comm.c and thread.c; their order; the scheduler as a system; the refinement of the
    threads of Ipc_Thread by these.
  \<^item> Timer_List, Timer_Sys, Timer_Props, Thread_Sleep: the timer list of timer.c on 32-bit ticks
    that wrap; the tick interrupt, the timer thread and the code that uses timers as a system,
    with unbounded time beside it; what holds of it; the delays of thread.c and clock.c.
  \<^item> Usb_State, Usb_Rx, Usb_Tx: applications/transports/usb/transport_usb.c.  \<open>usb_transport\<close> is
    the static struct; the transmit thread is a machine whose program counter names the places
    between kernel and USB stack calls.  The system steps interleave it with interrupts,
    submissions, completions and the reset and configured events; the receive system has the events
    and the transmit side as steps too.
  \<^item> Eth_State, Eth_Tx, Eth_Phy, Eth_Rx: applications/backends/eth_backend.c and eth_phy.c, with the
    descriptor functions of the SDK's Ethernet driver.  The DMA is a step of the system that
    follows the descriptor chain; the PHY is a function of register and time.
  \<^item> Usbhs_Dc, Usbhs_Out, Usbhs_In: components/drivers/usb/cherryusb/port/ch32/usb_dc_usbhs.c on
    the registers of the controller; a bulk OUT and a bulk IN endpoint as systems of the driver,
    the controller and the host, with acknowledgements that may be lost.
  \<^item> Link_Control, Wlh_App: applications/app/wlh_app.c, the reset callback and the link-control
    thread between its blocking calls, and the start-up with the configuration it passes on.
  \<^item> Boot_S2: bl_s2/main.c, the calibration of the split of the flash.
  \<^item> Small_Mem, Small_Mem_Rep, Small_Mem_Spec, Small_Mem_Heap, Allocator, Small_Mem_Alloc:
    rt-thread/src/mem.c on a flat memory in which items and client data lie together; its
    representation of a list of blocks; the operations as refinements of first fit and
    coalescing release; the locale \<open>allocator\<close> with clients, interpreted on mem.c.
  \<^item> Heap_Api: the heap functions of rt-thread/src/kservice.c (rt_malloc, rt_calloc, rt_malloc_align and
    so on) and the ring buffers that are created on the heap.

  \<^bold>\<open>What the lemmas show.\<close>  For the data structures: refinement of an abstract queue, chain or
  block list by every operation on every branch.  For the IPC objects: the invariant of the
  wait lists through all interleavings, what each call wakes and in which order, and round
  trips of messages.  For the mutex, without detach, delete and the end of a thread: mutual
  exclusion, exact inherited priorities and absence of failed assertions.  For the scheduler: the ready queues hold exactly the ready threads, and the
  running thread is the first of the most urgent ones.  For the timers: order of the list, no
  timeout before its time or lost, and how long a delay lasts.  For the USB controller: exactly
  once delivery in both directions while an endpoint is not halted, opened again or reset.  For the application: the core is restarted behind a backend
  that is cut off.  For the USB and Ethernet paths: end-to-end accounting (no frame lost,
  repeated, reordered or completed twice) under every interleaving, backpressure, wake-ups,
  termination of the drain loops, and the behaviour at reset and timeout (the receive
  direction of USB with a frame limit of at most 3609 bytes, the transmit direction of Ethernet
  without a transport reset).  For the heap: separation of the clients, termination and absence
  of failed assertions.  The text before each property names all that its system leaves out.
  Where the code does not do what it means to, a theorem says so exactly; these are listed as
  findings.

  \<^bold>\<open>Bounds and fuel.\<close>  Machine integers have the width of the C types and wrap.  Loops are
  structural recursion over lists or descriptor counts, \<open>function\<close>s with a measure (the
  frame loop of rx_feed, the resumption of a whole wait list), or \<open>partial_function (option)\<close>
  where their end depends on the state (the drain loops, the poll loops of the PHY, the timer
  check, the chain of a priority change, loops that follow links in memory): there \<open>None\<close> is a
  loop that does not end, a failed RT_ASSERT or an access outside a table, and theorems show that
  a result is returned.  No definition uses fuel.  The theorems on timers bound the period \<open>B\<close> of
  the timers and the lateness \<open>L\<close> of the timer thread by \<open>B + L \<le> 0x80000001\<close>, which is as far as
  differences of 32-bit ticks tell the order.

  \<^bold>\<open>Parameters.\<close>  Code that is not in the repository is an argument of the definitions that use
  it: the core (\<open>on_frame\<close>, \<open>eth_send\<close>, \<open>core_init\<close>, \<open>core_start\<close>, \<open>core_stop\<close>, readiness, the value of
  WLH_COPROC_TX_CANCELLED and of the channel numbers), the event handlers of the USB stack, the
  result of usbd_ep_start_write where the driver is not part of the model, PHY register reads,
  the result of a flash operation, and the behaviour of the DMA and of the USB controller with
  the host, which are nondeterministic steps constrained by the reference manual's protocols.

  \<^bold>\<open>Not modelled.\<close>  Log output, names and the object registry; the saving and loading of registers
  at a context switch; register programming without effect on the modelled state (clocks, GPIO,
  PLL, MAC initialisation); the descriptor tables of the USB device.  Outside the firmware's own
  logic and not modelled: the core of the USB device stack (its controller driver is), the
  network stack, the file systems, the C library, the console, the vendor SDK beside the
  functions named above, and the RT-Thread components this configuration does not build.
\<close>

end
